(* ===== verification/Prelude.thy ===== *)
theory Prelude
  imports Main "HOL-Library.Word" "HOL-Library.Monad_Syntax"
begin

unbundle bit_operations_syntax

text \<open>
  Shared vocabulary of the development: the machine types of the supported 64-bit
  targets, the constants of the C implementation the sources rely on, the fact
  collections the component theories feed, and the generic lemmas on words, lists and
  options that several components use.

  Every C function that touches memory is modelled in the option monad:
  \<open>None\<close> is undefined behaviour (an access outside a live object, a division by
  zero, a failed \<open>assert\<close>) and \<open>Some r\<close> is a normal return.
\<close>

section \<open>Machine types and implementation constants\<close>

type_synonym byte = "8 word"
type_synonym size_t = "64 word"
type_synonym uint64 = "64 word"

text \<open>\<open>(size_t)-1\<close>, the alignment of the widest scalar type and the size of a
  pointer on Linux x86-64 (the reference platform of the README).\<close>

definition SIZE_MAX :: size_t where
  "SIZE_MAX = - 1"

definition MAX_ALIGN :: size_t where
  "MAX_ALIGN = 16"

definition SIZEOF_PTR :: size_t where
  "SIZEOF_PTR = 8"

text \<open>C division of unsigned integers: undefined for a zero divisor.\<close>

definition size_div :: "size_t \<Rightarrow> size_t \<Rightarrow> size_t option" where
  "size_div a b = (if b = 0 then None else Some (a div b))"

section \<open>Fact collections\<close>

named_theorems mem_simps \<open>rewrite rules of the memory model\<close>
named_theorems inv_intros \<open>introduction rules for component invariants\<close>

section \<open>Words\<close>

lemma SIZE_MAX_unat [simp]: "unat SIZE_MAX = 2 ^ 64 - 1"
  by (simp add: SIZE_MAX_def unsigned_minus_1_eq_mask mask_eq_exp_minus_1)

lemma MAX_ALIGN_unat [simp]: "unat MAX_ALIGN = 16"
  by (simp add: MAX_ALIGN_def)

lemma SIZEOF_PTR_unat [simp]: "unat SIZEOF_PTR = 8"
  by (simp add: SIZEOF_PTR_def)

lemma unat_bound64: "unat (x :: 64 word) < 2 ^ 64"
  using unsigned_less [of x] by simp

lemma unat_pos_iff: "0 < unat (x :: 'a::len word) \<longleftrightarrow> x \<noteq> 0"
  by (simp add: word_neq_0_conv unat_gt_0)

lemma size_div_Some [simp]: "b \<noteq> 0 \<Longrightarrow> size_div a b = Some (a div b)"
  by (simp add: size_div_def)

lemma size_div_0 [simp]: "size_div a 0 = None"
  by (simp add: size_div_def)

text \<open>The overflow guard \<open>a <= SIZE_MAX / b\<close> of the sources makes the product exact.\<close>

lemma size_mult_guard:
  fixes a b :: size_t
  assumes "b \<noteq> 0"
  shows "a \<le> SIZE_MAX div b \<longleftrightarrow> unat a * unat b < 2 ^ 64"
proof -
  have b: "0 < unat b" using assms by (simp add: unat_pos_iff)
  have "a \<le> SIZE_MAX div b \<longleftrightarrow> unat a \<le> (2 ^ 64 - 1) div unat b"
    by (simp add: word_le_nat_alt unat_div_distrib)
  also have "\<dots> \<longleftrightarrow> unat a * unat b \<le> 2 ^ 64 - 1"
    using b by (rule less_eq_div_iff_mult_less_eq)
  also have "\<dots> \<longleftrightarrow> unat a * unat b < 2 ^ 64"
    by (auto simp: le_less_trans)
  finally show ?thesis .
qed

lemma unat_mult_exact:
  fixes a b :: size_t
  shows "unat a * unat b < 2 ^ 64 \<Longrightarrow> unat (a * b) = unat a * unat b"
  by (simp add: unat_word_ariths)

lemma unat_mult_below:
  fixes i s :: size_t
  assumes "unat i \<le> c" "c * unat s < 2 ^ 63"
  shows "unat (i * s) = unat i * unat s"
proof -
  have "unat i * unat s \<le> c * unat s" using assms(1) by (rule mult_le_mono1)
  also have "\<dots> < 2 ^ 64" using assms(2) by simp
  finally show ?thesis by (rule unat_mult_exact)
qed

lemma unat_add_exact:
  fixes a b :: size_t
  shows "unat a + unat b < 2 ^ 64 \<Longrightarrow> unat (a + b) = unat a + unat b"
  by (simp add: unat_word_ariths)

lemma unat_sub_exact:
  fixes a b :: "'a::len word"
  shows "b \<le> a \<Longrightarrow> unat (a - b) = unat a - unat b"
  by (simp add: unat_sub)

lemma unat_of_nat_small: "n < 2 ^ 64 \<Longrightarrow> unat (of_nat n :: size_t) = n"
  by (simp add: unsigned_of_nat take_bit_nat_eq_self)

lemma of_nat_unat_eq: "unat (w :: 'a::len word) = n \<Longrightarrow> w = of_nat n"
  by auto

lemma unat_pow2: "k < 64 \<Longrightarrow> unat (2 ^ k :: 64 word) = 2 ^ k"
proof -
  assume k: "k < 64"
  then have "(2::nat) ^ k < 2 ^ 64" by (rule power_strict_increasing) simp
  with k have "unat (of_nat (2 ^ k) :: 64 word) = 2 ^ k"
    by (simp only: unsigned_of_nat) (simp add: take_bit_nat_eq_self)
  then show ?thesis by simp
qed

text \<open>Masks of powers of two: \<open>x & (2^k - 1)\<close> and \<open>x & ~(2^k - 1)\<close>.\<close>

lemma unat_and_pow2_mask:
  fixes x :: "'a::len word"
  shows "unat (x AND (2 ^ k - 1)) = unat x mod 2 ^ k"
proof -
  have "x AND (2 ^ k - 1) = take_bit k x"
    by (simp add: take_bit_eq_mask mask_eq_exp_minus_1)
  then show ?thesis
    by (metis take_bit_eq_mod unsigned_take_bit_eq)
qed

lemma unat_and_not_pow2_mask:
  fixes x :: "'a::len word"
  shows "unat (x AND NOT (2 ^ k - 1)) = unat x div 2 ^ k * 2 ^ k"
proof -
  have eq: "x AND NOT (2 ^ k - 1) = x - (x AND (2 ^ k - 1))"
  proof -
    have "x = (x AND (2 ^ k - 1)) + (x AND NOT (2 ^ k - 1))"
      by (simp add: disjunctive_add_eq_or bit_eq_iff bit_simps) blast
    then show ?thesis by (simp add: algebra_simps)
  qed
  have le: "x AND (2 ^ k - 1) \<le> x"
    by (simp add: word_le_nat_alt unat_and_pow2_mask)
  have "unat (x AND NOT (2 ^ k - 1)) = unat x - unat x mod 2 ^ k"
    unfolding eq using le by (simp add: unat_sub_exact unat_and_pow2_mask)
  then show ?thesis
    by (simp add: minus_mod_eq_div_mult)
qed

section \<open>Rounding up to a multiple\<close>

text \<open>The specification of the \<open>align_up\<close> and \<open>round_up\<close> helpers of the sources.\<close>

definition round_up_nat :: "nat \<Rightarrow> nat \<Rightarrow> nat" where
  "round_up_nat v a = (v + (a - 1)) div a * a"

lemma round_up_nat_ge: "0 < a \<Longrightarrow> v \<le> round_up_nat v a"
proof -
  assume "0 < a"
  then have "v + (a - 1) < round_up_nat v a + a"
    using dividend_less_div_times [of a "v + (a - 1)"] by (simp add: round_up_nat_def)
  with \<open>0 < a\<close> show ?thesis by simp
qed

lemma round_up_nat_lt: "0 < a \<Longrightarrow> round_up_nat v a < v + a"
proof -
  assume "0 < a"
  have "round_up_nat v a \<le> v + (a - 1)" by (simp add: round_up_nat_def)
  with \<open>0 < a\<close> show ?thesis by simp
qed

lemma round_up_nat_dvd: "a dvd round_up_nat v a"
  by (simp add: round_up_nat_def)

lemma round_up_nat_least: "0 < a \<Longrightarrow> a dvd r \<Longrightarrow> v \<le> r \<Longrightarrow> round_up_nat v a \<le> r"
proof -
  assume a: "0 < a" and "a dvd r" "v \<le> r"
  then obtain q where r: "r = a * q" by (auto simp: dvd_def)
  have "(v + (a - 1)) div a \<le> (r + (a - 1)) div a"
    using \<open>v \<le> r\<close> by (intro div_le_mono) simp
  also have "\<dots> = q" by (rule div_nat_eqI) (use a r in auto)
  finally have "(v + (a - 1)) div a * a \<le> q * a" by (rule mult_le_mono1)
  with r show ?thesis by (simp add: round_up_nat_def mult.commute)
qed

text \<open>The bit trick \<open>(v + (2^k - 1)) & ~(2^k - 1)\<close> computes it when the sum does not wrap.\<close>

lemma unat_pow2_minus_1: "k < 64 \<Longrightarrow> unat (2 ^ k - 1 :: 64 word) = 2 ^ k - 1"
proof -
  assume k: "k < 64"
  have "(1 :: 64 word) \<le> 2 ^ k"
    using unat_pow2 [OF k] by (simp add: word_le_nat_alt)
  then show ?thesis using unat_pow2 [OF k] by (simp add: unat_sub_exact)
qed

lemma unat_round_up_mask:
  fixes v :: size_t
  assumes "k < 64" "unat v + (2 ^ k - 1) < 2 ^ 64"
  shows "unat ((v + (2 ^ k - 1)) AND NOT (2 ^ k - 1)) = round_up_nat (unat v) (2 ^ k)"
proof -
  have "unat (v + (2 ^ k - 1)) = unat v + (2 ^ k - 1)"
    using assms unat_add_exact [of v "2 ^ k - 1"] by (simp add: unat_pow2_minus_1)
  then show ?thesis
    unfolding unat_and_not_pow2_mask by (simp add: round_up_nat_def)
qed

section \<open>Slots of an array\<close>

lemma slot_end_le: "i < c \<Longrightarrow> n \<le> s \<Longrightarrow> i * s + n \<le> c * (s::nat)"
proof -
  assume "i < c" "n \<le> s"
  then have "Suc i * s \<le> c * s" by (intro mult_le_mono1) simp
  with \<open>n \<le> s\<close> show ?thesis by simp
qed

lemma slots_apart:
  fixes i j s :: nat
  assumes "i \<noteq> j" "n \<le> s"
  shows "i * s + n \<le> j * s \<or> j * s + n \<le> i * s"
  using assms slot_end_le [of i j n s] slot_end_le [of j i n s] by (cases "i < j") auto

section \<open>The capacity loop\<close>

text \<open>The loop \<open>while (cap < n) { if (cap > SIZE_MAX / 2) return cap; cap *= 2; } return cap;\<close>
  that the hash map and the ring buffer each run from their own starting capacity.\<close>

partial_function (option) double_until :: "size_t \<Rightarrow> size_t \<Rightarrow> size_t option" where
  "double_until cap n =
     (if cap < n then (if SIZE_MAX div 2 < cap then Some cap else double_until (cap * 2) n) else Some cap)"

lemma half_SIZE_MAX: "SIZE_MAX div 2 < (c :: size_t) \<longleftrightarrow> 2 ^ 63 \<le> unat c"
proof -
  have "unat (SIZE_MAX div 2) = 2 ^ 63 - 1" by (simp add: unat_div_distrib)
  then show ?thesis by (auto simp: word_less_nat_alt)
qed

text \<open>From a power of two the loop returns, with the least power of two that is large enough,
  or with \<open>2 ^ 63\<close> when there is none.\<close>

lemma double_until_pow2:
  assumes "k < 64"
  shows "\<exists>j. k \<le> j \<and> j < 64 \<and> double_until (2 ^ k) n = Some (2 ^ j) \<and> (n \<le> 2 ^ j \<or> j = 63) \<and>
    (j = k \<or> 2 ^ (j - 1) < n)"
  using assms
proof (induction "63 - k" arbitrary: k)
  case 0
  then have k: "k = 63" by simp
  have "SIZE_MAX div 2 < (2 ^ 63 :: size_t)" unfolding half_SIZE_MAX by (simp only: unat_pow2)
  then have "double_until (2 ^ k) n = Some (2 ^ k)" unfolding k by (subst double_until.simps) simp
  with k show ?case by auto
next
  case (Suc d)
  then have k: "Suc k < 64" "d = 63 - Suc k" by auto
  have "(2::nat) ^ k < 2 ^ 63" using k(1) by (intro power_strict_increasing) auto
  then have ns: "\<not> SIZE_MAX div 2 < (2 ^ k :: size_t)"
    unfolding half_SIZE_MAX using k(1) by (simp only: unat_pow2 not_le Suc_lessD)
  show ?case
  proof (cases "2 ^ k < n")
    case True
    then have step: "double_until (2 ^ k) n = double_until (2 ^ Suc k) n"
      using ns by (subst double_until.simps) (simp add: mult.commute)
    from Suc(1) [OF k(2,1)] obtain j where "Suc k \<le> j" "j < 64" "double_until (2 ^ Suc k) n = Some (2 ^ j)"
      "n \<le> 2 ^ j \<or> j = 63" "j = Suc k \<or> 2 ^ (j - 1) < n" by blast
    then show ?thesis using step True by (intro exI [of _ j]) auto
  next
    case False
    then have "double_until (2 ^ k) n = Some (2 ^ k)" by (subst double_until.simps) simp
    with False Suc.prems show ?thesis by (intro exI [of _ k]) auto
  qed
qed

end
