(* ===== verification/Status.thy ===== *)
theory Status
  imports Prelude
begin

text \<open>
  The status codes shared by the whole library (\<open>core/d4np_status.h\<close>) and their
  names (\<open>core/d4np_status.c\<close>). A C enumeration object can hold any integer, so the
  name function takes the numeric code; the other components use the datatype.
\<close>

datatype d4np_status =
    D4NP_OK
  | D4NP_ERR_INVALID_ARGUMENT
  | D4NP_ERR_OUT_OF_MEMORY
  | D4NP_ERR_OVERFLOW
  | D4NP_ERR_NOT_FOUND
  | D4NP_ERR_IO
  | D4NP_ERR_AGAIN
  | D4NP_ERR_UNSUPPORTED
  | D4NP_ERR_INTERNAL

fun status_code :: "d4np_status \<Rightarrow> int" where
  "status_code D4NP_OK = 0"
| "status_code D4NP_ERR_INVALID_ARGUMENT = 1"
| "status_code D4NP_ERR_OUT_OF_MEMORY = 2"
| "status_code D4NP_ERR_OVERFLOW = 3"
| "status_code D4NP_ERR_NOT_FOUND = 4"
| "status_code D4NP_ERR_IO = 5"
| "status_code D4NP_ERR_AGAIN = 6"
| "status_code D4NP_ERR_UNSUPPORTED = 7"
| "status_code D4NP_ERR_INTERNAL = 8"

definition d4np_status_str :: "int \<Rightarrow> string" where
  "d4np_status_str status =
     (if status = status_code D4NP_OK then ''D4NP_OK''
      else if status = status_code D4NP_ERR_INVALID_ARGUMENT then ''D4NP_ERR_INVALID_ARGUMENT''
      else if status = status_code D4NP_ERR_OUT_OF_MEMORY then ''D4NP_ERR_OUT_OF_MEMORY''
      else if status = status_code D4NP_ERR_OVERFLOW then ''D4NP_ERR_OVERFLOW''
      else if status = status_code D4NP_ERR_NOT_FOUND then ''D4NP_ERR_NOT_FOUND''
      else if status = status_code D4NP_ERR_IO then ''D4NP_ERR_IO''
      else if status = status_code D4NP_ERR_AGAIN then ''D4NP_ERR_AGAIN''
      else if status = status_code D4NP_ERR_UNSUPPORTED then ''D4NP_ERR_UNSUPPORTED''
      else if status = status_code D4NP_ERR_INTERNAL then ''D4NP_ERR_INTERNAL''
      else ''D4NP_ERR_UNKNOWN'')"

instantiation d4np_status :: linorder
begin

definition less_eq_d4np_status :: "d4np_status \<Rightarrow> d4np_status \<Rightarrow> bool" where
  "less_eq_d4np_status a b \<longleftrightarrow> status_code a \<le> status_code b"

definition less_d4np_status :: "d4np_status \<Rightarrow> d4np_status \<Rightarrow> bool" where
  "less_d4np_status a b \<longleftrightarrow> status_code a < status_code b"

instance
proof
  fix a b c :: d4np_status
  show "a < b \<longleftrightarrow> a \<le> b \<and> \<not> b \<le> a" "a \<le> a" "a \<le> b \<or> b \<le> a"
    by (auto simp: less_eq_d4np_status_def less_d4np_status_def)
  show "a \<le> b \<Longrightarrow> b \<le> c \<Longrightarrow> a \<le> c"
    by (simp add: less_eq_d4np_status_def)
  show "a \<le> b \<Longrightarrow> b \<le> a \<Longrightarrow> a = b"
    by (cases a; cases b) (simp_all add: less_eq_d4np_status_def)
qed

end

lemma status_code_inject: "status_code a = status_code b \<longleftrightarrow> a = b"
  by (cases a; cases b) simp_all

lemma status_ok_least: "D4NP_OK \<le> s"
  by (cases s) (simp_all add: less_eq_d4np_status_def)

lemma status_str_known: "d4np_status_str (status_code s) \<noteq> ''D4NP_ERR_UNKNOWN''"
  by (cases s) (simp_all add: d4np_status_str_def)

lemma status_str_unknown: "c \<notin> range status_code \<Longrightarrow> d4np_status_str c = ''D4NP_ERR_UNKNOWN''"
proof -
  assume "c \<notin> range status_code"
  then have "c \<noteq> status_code s" for s by auto
  then show ?thesis by (simp only: d4np_status_str_def if_False)
qed

lemma status_str_inject: "d4np_status_str (status_code a) = d4np_status_str (status_code b) \<longleftrightarrow> a = b"
  by (cases a; cases b) (simp_all add: d4np_status_str_def)

end
