(* ===== verification/Memory.thy ===== *)
theory Memory
  imports Prelude
begin

text \<open>
  The part of the C abstract machine and of the standard library the sources use: a
  byte-addressed memory with a list of live objects, reads and writes that are undefined
  (\<open>None\<close>) outside a live object, \<open>memcpy\<close> and \<open>memset\<close>, the little-endian
  object representation of 64-bit words and pointers, and \<open>malloc\<close>,
  \<open>realloc\<close> and \<open>free\<close>.

  The address of the next allocation is taken from the oracle \<open>place\<close> of the
  state and used only when it is a legal one (non-null, aligned, inside the address space,
  disjoint from every live object); otherwise the request fails. A statement about all
  memories is therefore a statement about every behaviour the C standard allows these
  functions, failures at any point included. The contents of a fresh object are
  unspecified: they are whatever \<open>bytes\<close> held there before.
\<close>

section \<open>State and accesses\<close>

type_synonym ptr = nat

abbreviation (input) NULL :: ptr where
  "NULL \<equiv> 0"

text \<open>No object extends past \<open>PTRDIFF_MAX\<close>, as on every supported platform.\<close>

definition ADDR_LIMIT :: nat where
  "ADDR_LIMIT = 2 ^ 63"

record mem =
  bytes :: "nat \<Rightarrow> byte"
  live :: "(ptr \<times> nat) list"
  place :: "nat \<Rightarrow> ptr"
  tick :: nat

definition valid :: "mem \<Rightarrow> ptr \<Rightarrow> nat \<Rightarrow> bool" where
  "valid m p n = list_ex (\<lambda>(b, s). b \<le> p \<and> p + n \<le> b + s) (live m)"

definition peek :: "mem \<Rightarrow> ptr \<Rightarrow> nat \<Rightarrow> byte list" where
  "peek m p n = map (\<lambda>i. bytes m (p + i)) [0..<n]"

definition poke :: "mem \<Rightarrow> ptr \<Rightarrow> byte list \<Rightarrow> mem" where
  "poke m p xs = m\<lparr>bytes := (\<lambda>a. if p \<le> a \<and> a < p + length xs then xs ! (a - p) else bytes m a)\<rparr>"

definition mem_read :: "mem \<Rightarrow> ptr \<Rightarrow> nat \<Rightarrow> byte list option" where
  "mem_read m p n = (if valid m p n then Some (peek m p n) else None)"

definition mem_write :: "mem \<Rightarrow> ptr \<Rightarrow> byte list \<Rightarrow> mem option" where
  "mem_write m p xs = (if valid m p (length xs) then Some (poke m p xs) else None)"

definition read_byte :: "mem \<Rightarrow> ptr \<Rightarrow> byte option" where
  "read_byte m p = (if valid m p 1 then Some (bytes m p) else None)"

definition memcpy :: "mem \<Rightarrow> ptr \<Rightarrow> ptr \<Rightarrow> nat \<Rightarrow> mem option" where
  "memcpy m dst src n =
     (if valid m dst n \<and> valid m src n \<and> (dst + n \<le> src \<or> src + n \<le> dst)
      then Some (poke m dst (peek m src n)) else None)"

definition memset :: "mem \<Rightarrow> ptr \<Rightarrow> byte \<Rightarrow> nat \<Rightarrow> mem option" where
  "memset m p c n = mem_write m p (replicate n c)"

text \<open>The object representation of a 64-bit value, least significant byte first.\<close>

definition le_bytes :: "64 word \<Rightarrow> byte list" where
  "le_bytes w = map (\<lambda>i. ucast (drop_bit (8 * i) w)) [0..<8]"

definition of_le_bytes :: "byte list \<Rightarrow> 64 word" where
  "of_le_bytes bs = foldr (\<lambda>b acc. ucast b OR push_bit 8 acc) bs 0"

definition load_ptr :: "mem \<Rightarrow> ptr \<Rightarrow> ptr option" where
  "load_ptr m p = map_option (\<lambda>bs. unat (of_le_bytes bs)) (mem_read m p 8)"

definition store_ptr :: "mem \<Rightarrow> ptr \<Rightarrow> ptr \<Rightarrow> mem option" where
  "store_ptr m p q = mem_write m p (le_bytes (of_nat q))"

section \<open>Allocation\<close>

definition sep :: "ptr \<times> nat \<Rightarrow> ptr \<times> nat \<Rightarrow> bool" where
  "sep = (\<lambda>(b, s) (b', s'). b + s \<le> b' \<or> b' + s' \<le> b)"

definition placeable :: "ptr \<Rightarrow> nat \<Rightarrow> (ptr \<times> nat) list \<Rightarrow> bool" where
  "placeable p n bs \<longleftrightarrow> n \<noteq> 0 \<and> p \<noteq> NULL \<and> p mod 16 = 0 \<and> p + n \<le> ADDR_LIMIT \<and> list_all (sep (p, n)) bs"

definition malloc :: "size_t \<Rightarrow> mem \<Rightarrow> ptr \<times> mem" where
  "malloc n m =
     (let p = place m (tick m); m1 = m\<lparr>tick := Suc (tick m)\<rparr>
      in if placeable p (unat n) (live m)
         then (p, m1\<lparr>live := (p, unat n) # live m\<rparr>)
         else (NULL, m1))"

definition free :: "ptr \<Rightarrow> mem \<Rightarrow> mem option" where
  "free p m =
     (if p = NULL then Some m
      else if p \<in> fst ` set (live m) then Some (m\<lparr>live := filter (\<lambda>(b, s). b \<noteq> p) (live m)\<rparr>)
      else None)"

definition realloc :: "ptr \<Rightarrow> size_t \<Rightarrow> mem \<Rightarrow> (ptr \<times> mem) option" where
  "realloc p n m =
     (if p = NULL then Some (malloc n m)
      else case map_of (live m) p of
        None \<Rightarrow> None
      | Some old \<Rightarrow>
          (let q = place m (tick m); m1 = m\<lparr>tick := Suc (tick m)\<rparr>;
               rest = filter (\<lambda>(b, s). b \<noteq> p) (live m)
           in if placeable q (unat n) rest
              then Some (q, poke (m1\<lparr>live := (q, unat n) # rest\<rparr>) q (peek m p (min old (unat n))))
              else Some (NULL, m1)))"

section \<open>Well-formed memories and what an operation keeps\<close>

definition wf_mem :: "mem \<Rightarrow> bool" where
  "wf_mem m \<longleftrightarrow> sorted_wrt sep (live m) \<and>
     list_all (\<lambda>(b, s). 0 < b \<and> 0 < s \<and> b + s \<le> ADDR_LIMIT) (live m)"

text \<open>\<open>keeps B m m'\<close>: the objects \<open>B\<close> are still live in \<open>m'\<close>, with the bytes they had.\<close>

definition keeps :: "(ptr \<times> nat) set \<Rightarrow> mem \<Rightarrow> mem \<Rightarrow> bool" where
  "keeps B m m' \<longleftrightarrow> (\<forall>(b, s) \<in> B. (b, s) \<in> set (live m') \<and> peek m' b s = peek m b s)"

section \<open>Reads and writes\<close>

lemma valid_iff: "valid m p n \<longleftrightarrow> (\<exists>b s. (b, s) \<in> set (live m) \<and> b \<le> p \<and> p + n \<le> b + s)"
  by (auto simp: valid_def list_ex_iff)

lemma validI [inv_intros]: "(b, s) \<in> set (live m) \<Longrightarrow> b \<le> p \<Longrightarrow> p + n \<le> b + s \<Longrightarrow> valid m p n"
  by (auto simp: valid_iff)

lemma live_poke [simp, mem_simps]: "live (poke m p xs) = live m"
  by (simp add: poke_def)

lemma place_poke [simp, mem_simps]: "place (poke m p xs) = place m" "tick (poke m p xs) = tick m"
  by (simp_all add: poke_def)

lemma poke_Nil [simp]: "poke m p [] = m"
  by (cases m) (auto simp: poke_def fun_eq_iff)

lemma poke_snoc: "poke (poke m p xs) (p + length xs) [c] = poke m p (xs @ [c])"
  by (rule mem.equality) (auto simp: poke_def fun_eq_iff nth_append)

lemma valid_poke [simp, mem_simps]: "valid (poke m p xs) q n = valid m q n"
  by (simp add: valid_def)

lemma wf_poke [simp, mem_simps]: "wf_mem (poke m p xs) = wf_mem m"
  by (simp add: wf_mem_def)

lemma length_peek [simp]: "length (peek m p n) = n"
  by (simp add: peek_def)

lemma nth_peek [simp]: "i < n \<Longrightarrow> peek m p n ! i = bytes m (p + i)"
  by (simp add: peek_def)

lemma peek_0 [simp]: "peek m p 0 = []"
  by (simp add: peek_def)

lemma peek_cong: "(\<And>i. i < n \<Longrightarrow> bytes m (p + i) = bytes m' (q + i)) \<Longrightarrow> peek m p n = peek m' q n"
  by (simp add: peek_def)

lemma peek_eq_iff: "peek m p n = peek m' q n \<longleftrightarrow> (\<forall>i < n. bytes m (p + i) = bytes m' (q + i))"
  by (auto simp: list_eq_iff_nth_eq)

lemma bytes_poke_other: "a < p \<or> p + length xs \<le> a \<Longrightarrow> bytes (poke m p xs) a = bytes m a"
  by (auto simp: poke_def)

lemma bytes_poke_in: "i < length xs \<Longrightarrow> bytes (poke m p xs) (p + i) = xs ! i"
  by (simp add: poke_def)

lemma peek_poke_other:
  "q + n \<le> p \<or> p + length xs \<le> q \<Longrightarrow> peek (poke m p xs) q n = peek m q n"
  by (rule peek_cong) (auto intro: bytes_poke_other)

lemma peek_poke_same: "n = length xs \<Longrightarrow> peek (poke m p xs) p n = xs"
  by (simp add: list_eq_iff_nth_eq bytes_poke_in)

lemma peek_append: "peek m p (n + k) = peek m p n @ peek m (p + n) k"
  by (auto simp: list_eq_iff_nth_eq nth_append)

lemma peek_split: "k \<le> n \<Longrightarrow> peek m p n = peek m p k @ peek m (p + k) (n - k)"
  using peek_append [of m p k "n - k"] by simp

lemma take_peek: "take k (peek m p n) = peek m p (min k n)"
  by (auto simp: list_eq_iff_nth_eq)

lemma drop_peek: "drop k (peek m p n) = peek m (p + k) (n - k)"
  by (auto simp: list_eq_iff_nth_eq add.assoc)

text \<open>A write inside a bigger range updates the middle of it.\<close>

lemma peek_poke_inside:
  assumes "k + length xs \<le> n"
  shows "peek (poke m (p + k) xs) p n = take k (peek m p n) @ xs @ drop (k + length xs) (peek m p n)"
  using assms
  by (auto simp: list_eq_iff_nth_eq poke_def nth_append add.commute)

lemma mem_read_Some: "valid m p n \<Longrightarrow> mem_read m p n = Some (peek m p n)"
  by (simp add: mem_read_def)

lemma mem_write_Some: "valid m p (length xs) \<Longrightarrow> mem_write m p xs = Some (poke m p xs)"
  by (simp add: mem_write_def)

lemma read_byte_Some: "valid m p 1 \<Longrightarrow> read_byte m p = Some (bytes m p)"
  by (simp add: read_byte_def)

lemma memcpy_Some:
  "valid m dst n \<Longrightarrow> valid m src n \<Longrightarrow> dst + n \<le> src \<or> src + n \<le> dst \<Longrightarrow>
   memcpy m dst src n = Some (poke m dst (peek m src n))"
  by (simp add: memcpy_def)

lemma memset_Some: "valid m p n \<Longrightarrow> memset m p c n = Some (poke m p (replicate n c))"
  by (simp add: memset_def mem_write_def)

lemma valid_sub: "valid m p n \<Longrightarrow> p \<le> q \<Longrightarrow> q + k \<le> p + n \<Longrightarrow> valid m q k"
  by (fastforce simp: valid_iff)

section \<open>Byte representation of words\<close>

lemma length_le_bytes [simp]: "length (le_bytes w) = 8"
  by (simp add: le_bytes_def)

lemma upt8: "[0..<8] = [0, 1, 2, 3, 4, 5, 6, 7 :: nat]"
  by (simp add: upt_rec)

lemma le_byte_step:
  fixes w :: "64 word"
  shows "(ucast (ucast (drop_bit k w) :: byte) :: 64 word) OR push_bit 8 (drop_bit (k + 8) w) = drop_bit k w"
proof (rule bit_word_eqI)
  fix n :: nat
  assume n: "n < LENGTH(64)"
  show "bit ((ucast (ucast (drop_bit k w) :: byte) :: 64 word) OR push_bit 8 (drop_bit (k + 8) w)) n
      = bit (drop_bit k w) n"
    using n by (cases "n < 8") (simp_all add: bit_simps add.commute)
qed

lemma of_le_bytes_le_bytes [simp]: "of_le_bytes (le_bytes w) = w"
proof -
  have last: "drop_bit (56 + 8) w = 0"
    by (rule bit_word_eqI) (simp add: bit_simps bit_imp_le_length)
  show ?thesis
    using le_byte_step [of 0 w] le_byte_step [of 8 w] le_byte_step [of 16 w] le_byte_step [of 24 w]
      le_byte_step [of 32 w] le_byte_step [of 40 w] le_byte_step [of 48 w] le_byte_step [of 56 w, unfolded last]
    by (simp add: of_le_bytes_def le_bytes_def upt8)
qed

lemma load_ptr_poke_same:
  "valid m p 8 \<Longrightarrow> q < 2 ^ 64 \<Longrightarrow> load_ptr (poke m p (le_bytes (of_nat q))) p = Some q"
  by (simp add: load_ptr_def mem_read_Some peek_poke_same unsigned_of_nat take_bit_nat_eq_self)

lemma load_ptr_poke_other:
  "q + 8 \<le> p \<or> p + length xs \<le> q \<Longrightarrow> load_ptr (poke m p xs) q = load_ptr m q"
  by (simp add: load_ptr_def mem_read_def peek_poke_other)

lemma store_ptr_Some: "valid m p 8 \<Longrightarrow> store_ptr m p q = Some (poke m p (le_bytes (of_nat q)))"
  by (simp add: store_ptr_def mem_write_Some)

section \<open>Well-formedness\<close>

lemma sep_sym: "sep x y \<longleftrightarrow> sep y x"
  by (auto simp: sep_def split: prod.splits)

lemma sep_iff [simp]: "sep (b, s) (b', s') \<longleftrightarrow> b + s \<le> b' \<or> b' + s' \<le> b"
  by (simp add: sep_def)

lemma wf_block: "wf_mem m \<Longrightarrow> (b, s) \<in> set (live m) \<Longrightarrow> 0 < b \<and> 0 < s \<and> b + s \<le> ADDR_LIMIT"
  by (auto simp: wf_mem_def list_all_iff)

lemma sorted_wrt_sep:
  "sorted_wrt sep xs \<Longrightarrow> x \<in> set xs \<Longrightarrow> y \<in> set xs \<Longrightarrow> x \<noteq> y \<Longrightarrow> sep x y"
  by (induction xs) (auto simp: sep_sym)

lemma wf_sep:
  "wf_mem m \<Longrightarrow> (b, s) \<in> set (live m) \<Longrightarrow> (b', s') \<in> set (live m) \<Longrightarrow> (b, s) \<noteq> (b', s') \<Longrightarrow>
   b + s \<le> b' \<or> b' + s' \<le> b"
  using sorted_wrt_sep [of "live m" "(b, s)" "(b', s')"] by (simp add: wf_mem_def)

lemma wf_unique: "wf_mem m \<Longrightarrow> (b, s) \<in> set (live m) \<Longrightarrow> (b, s') \<in> set (live m) \<Longrightarrow> s = s'"
  using wf_sep [of m b s b s'] wf_block [of m b s] wf_block [of m b s'] by auto

lemma wf_inj_on: "wf_mem m \<Longrightarrow> inj_on fst (set (live m))"
  by (auto simp: inj_on_def dest: wf_unique)

lemma wf_distinct: "wf_mem m \<Longrightarrow> distinct (map fst (live m))"
proof -
  assume wf: "wf_mem m"
  have "\<And>xs. sorted_wrt sep xs \<Longrightarrow> list_all (\<lambda>(b, s). 0 < s) xs \<Longrightarrow> distinct (map fst xs)"
    subgoal for xs by (induction xs) (fastforce simp: list_all_iff)+
    done
  with wf show ?thesis by (auto simp: wf_mem_def list_all_iff)
qed

lemma wf_map_of: "wf_mem m \<Longrightarrow> map_of (live m) b = Some s \<longleftrightarrow> (b, s) \<in> set (live m)"
  by (simp add: wf_distinct)

text \<open>Two readable ranges in different objects do not overlap.\<close>

lemma blocks_apart:
  assumes "wf_mem m" "(b, s) \<in> set (live m)" "(b', s') \<in> set (live m)" "(b, s) \<noteq> (b', s')"
    and "b \<le> p" "p + n \<le> b + s" "b' \<le> q" "q + k \<le> b' + s'"
  shows "p + n \<le> q \<or> q + k \<le> p"
  using wf_sep [OF assms(1-4)] assms(5-8) by linarith

section \<open>Frames\<close>

lemma keepsI:
  "(\<And>b s. (b, s) \<in> B \<Longrightarrow> (b, s) \<in> set (live m')) \<Longrightarrow>
   (\<And>b s. (b, s) \<in> B \<Longrightarrow> peek m' b s = peek m b s) \<Longrightarrow> keeps B m m'"
  by (auto simp: keeps_def)

lemma keeps_live: "keeps B m m' \<Longrightarrow> x \<in> B \<Longrightarrow> x \<in> set (live m')"
  by (cases x) (auto simp: keeps_def)

lemma keeps_subset: "keeps B m m' \<Longrightarrow> B \<subseteq> set (live m')"
  by (auto dest: keeps_live)

lemma keeps_peek_block: "keeps B m m' \<Longrightarrow> (b, s) \<in> B \<Longrightarrow> peek m' b s = peek m b s"
  by (auto simp: keeps_def)

lemma keeps_bytes:
  assumes "keeps B m m'" "(b, s) \<in> B" "b \<le> a" "a < b + s"
  shows "bytes m' a = bytes m a"
proof -
  have "peek m' b s ! (a - b) = peek m b s ! (a - b)"
    using keeps_peek_block [OF assms(1,2)] by simp
  with assms(3,4) show ?thesis by simp
qed

lemma keeps_peek:
  assumes "keeps B m m'" "(b, s) \<in> B" "b \<le> p" "p + n \<le> b + s"
  shows "peek m' p n = peek m p n"
  by (rule peek_cong) (use assms in \<open>auto intro: keeps_bytes\<close>)

lemma keeps_refl [simp, intro]: "B \<subseteq> set (live m) \<Longrightarrow> keeps B m m"
  by (auto simp: keeps_def)

lemma keeps_trans [trans]: "keeps B m m' \<Longrightarrow> keeps B m' m'' \<Longrightarrow> keeps B m m''"
  by (fastforce simp: keeps_def)

lemma keeps_mono: "keeps B m m' \<Longrightarrow> A \<subseteq> B \<Longrightarrow> keeps A m m'"
  by (auto simp: keeps_def)

lemma keeps_valid:
  assumes "keeps B m m'" "(b, s) \<in> B" "b \<le> p" "p + n \<le> b + s"
  shows "valid m' p n"
  using assms by (auto intro: validI keeps_live)

text \<open>A write inside one object keeps all the others.\<close>

lemma keeps_poke:
  assumes wf: "wf_mem m" and blk: "(b, s) \<in> set (live m)"
    and rng: "b \<le> p" "p + length xs \<le> b + s" and sub: "B \<subseteq> set (live m) - {(b, s)}"
  shows "keeps B m (poke m p xs)"
proof (rule keepsI)
  fix b' s' assume "(b', s') \<in> B"
  with sub have in': "(b', s') \<in> set (live m)" "(b', s') \<noteq> (b, s)" by auto
  then show "(b', s') \<in> set (live (poke m p xs))" by simp
  have "b' + s' \<le> p \<or> p + length xs \<le> b'"
    using wf_sep [OF wf in'(1) blk] in'(2) rng by auto
  then show "peek (poke m p xs) b' s' = peek m b' s'"
    by (rule peek_poke_other)
qed

section \<open>What the allocation functions promise\<close>

lemma placeable_wf:
  assumes "sorted_wrt sep bs" "list_all (\<lambda>(b, s). 0 < b \<and> 0 < s \<and> b + s \<le> ADDR_LIMIT) bs" "placeable p n bs"
  shows "sorted_wrt sep ((p, n) # bs) \<and>
    list_all (\<lambda>(b, s). 0 < b \<and> 0 < s \<and> b + s \<le> ADDR_LIMIT) ((p, n) # bs)"
  using assms by (auto simp: placeable_def list_all_iff)

lemma malloc_spec:
  assumes wf: "wf_mem m" and eq: "malloc n m = (p, m')"
  shows "wf_mem m' \<and> keeps (set (live m)) m m' \<and>
    (p \<noteq> NULL \<longrightarrow> (p, unat n) \<in> set (live m') \<and> (p, unat n) \<notin> set (live m) \<and> p mod 16 = 0)"
proof (cases "placeable (place m (tick m)) (unat n) (live m)")
  case True
  then have p: "p = place m (tick m)"
    and m': "m' = m\<lparr>tick := Suc (tick m), live := (p, unat n) # live m\<rparr>"
    using eq by (auto simp: malloc_def Let_def)
  have "wf_mem m'"
    using placeable_wf [of "live m" "place m (tick m)" "unat n"] wf True p m' by (simp add: wf_mem_def)
  moreover have "keeps (set (live m)) m m'"
    using m' by (auto simp: keeps_def peek_def)
  moreover have "(p, unat n) \<notin> set (live m)"
    using True p by (auto simp: placeable_def list_all_iff)
  ultimately show ?thesis
    using True p m' by (simp add: placeable_def)
next
  case False
  then have "p = NULL" "m' = m\<lparr>tick := Suc (tick m)\<rparr>"
    using eq by (auto simp: malloc_def Let_def)
  with wf show ?thesis
    by (auto simp: wf_mem_def keeps_def peek_def)
qed

lemma live_filter_fst:
  assumes "wf_mem m" "(p, s) \<in> set (live m)"
  shows "set (filter (\<lambda>(b, s). b \<noteq> p) (live m)) = set (live m) - {(p, s)}"
  using assms by (auto dest: wf_unique)

lemma wf_filter: "wf_mem m \<Longrightarrow> wf_mem (m\<lparr>live := filter P (live m)\<rparr>)"
  by (auto simp: wf_mem_def sorted_wrt_filter list_all_iff)

lemma free_spec:
  assumes wf: "wf_mem m" and blk: "(p, s) \<in> set (live m)"
  shows "\<exists>m'. free p m = Some m' \<and> wf_mem m' \<and> keeps (set (live m) - {(p, s)}) m m' \<and>
    (p, s) \<notin> set (live m') \<and> set (live m') \<subseteq> set (live m)"
proof -
  let ?m' = "m\<lparr>live := filter (\<lambda>(b, s). b \<noteq> p) (live m)\<rparr>"
  have "p \<noteq> NULL" using wf_block [OF wf blk] by simp
  moreover have "p \<in> fst ` set (live m)" using blk by force
  moreover have "keeps (set (live m) - {(p, s)}) m ?m'"
    using live_filter_fst [OF wf blk] by (auto simp: keeps_def peek_def)
  ultimately show ?thesis
    using wf_filter [OF wf] by (auto simp: free_def)
qed

lemma realloc_spec:
  assumes wf: "wf_mem m" and blk: "(p, old) \<in> set (live m)"
  shows "\<exists>q m'. realloc p n m = Some (q, m') \<and> wf_mem m' \<and>
    keeps (set (live m) - {(p, old)}) m m' \<and>
    (if q = NULL then keeps (set (live m)) m m'
     else (q, unat n) \<in> set (live m') \<and> (q, unat n) \<notin> set (live m) - {(p, old)} \<and> q mod 16 = 0 \<and>
       peek m' q (min old (unat n)) = peek m p (min old (unat n)))"
proof -
  let ?rest = "filter (\<lambda>(b, s). b \<noteq> p) (live m)"
  let ?q = "place m (tick m)"
  let ?m1 = "m\<lparr>tick := Suc (tick m), live := (?q, unat n) # ?rest\<rparr>"
  let ?xs = "peek m p (min old (unat n))"
  have p0: "p \<noteq> NULL" and size: "map_of (live m) p = Some old"
    using wf_block [OF wf blk] wf_map_of [OF wf] blk by auto
  have rest: "set ?rest = set (live m) - {(p, old)}"
    by (rule live_filter_fst [OF wf blk])
  have wfr: "sorted_wrt sep ?rest" "list_all (\<lambda>(b, s). 0 < b \<and> 0 < s \<and> b + s \<le> ADDR_LIMIT) ?rest"
    using wf_filter [OF wf] by (auto simp: wf_mem_def)
  show ?thesis
  proof (cases "placeable ?q (unat n) ?rest")
    case True
    have eq: "realloc p n m = Some (?q, poke ?m1 ?q ?xs)"
      using True p0 size by (simp add: realloc_def Let_def)
    have wf1: "wf_mem ?m1"
      using placeable_wf [OF wfr True] by (simp add: wf_mem_def)
    have fresh: "(?q, unat n) \<notin> set ?rest"
      using True by (fastforce simp: placeable_def list_all_iff)
    have "keeps (set ?rest) m ?m1"
      by (auto simp: keeps_def peek_def)
    moreover have "keeps (set ?rest) ?m1 (poke ?m1 ?q ?xs)"
      by (rule keeps_poke [OF wf1, of ?q "unat n"]) (use fresh in auto)
    ultimately have "keeps (set ?rest) m (poke ?m1 ?q ?xs)"
      by (rule keeps_trans)
    moreover have "peek (poke ?m1 ?q ?xs) ?q (min old (unat n)) = ?xs"
      by (simp add: peek_poke_same)
    moreover have "?q \<noteq> NULL" "?q mod 16 = 0"
      using True by (auto simp: placeable_def)
    ultimately show ?thesis
      using eq wf1 fresh [unfolded rest] rest by auto
  next
    case False
    then have "realloc p n m = Some (NULL, m\<lparr>tick := Suc (tick m)\<rparr>)"
      using p0 size by (simp add: realloc_def Let_def)
    moreover have "wf_mem (m\<lparr>tick := Suc (tick m)\<rparr>)"
      using wf by (simp add: wf_mem_def)
    moreover have "keeps B m (m\<lparr>tick := Suc (tick m)\<rparr>)" if "B \<subseteq> set (live m)" for B
      using that by (auto simp: keeps_def peek_def)
    ultimately show ?thesis by auto
  qed
qed

lemma block_size_bound:
  "wf_mem m \<Longrightarrow> (b, s) \<in> set (live m) \<Longrightarrow> s < 2 ^ 63"
  using wf_block [of m b s] by (simp add: ADDR_LIMIT_def)

lemma valid_nonnull: "wf_mem m \<Longrightarrow> valid m p n \<Longrightarrow> p \<noteq> NULL"
  by (auto simp: valid_iff dest: wf_block)

section \<open>Ranges outside a set of objects\<close>

text \<open>A source range for a copy: inside a live object that is not one of \<open>B\<close>.\<close>

definition outside :: "mem \<Rightarrow> (ptr \<times> nat) set \<Rightarrow> ptr \<Rightarrow> nat \<Rightarrow> bool" where
  "outside m B p n \<longleftrightarrow> (\<exists>(b, s) \<in> set (live m) - B. b \<le> p \<and> p + n \<le> b + s)"

lemma outsideI: "(b, s) \<in> set (live m) - B \<Longrightarrow> b \<le> p \<Longrightarrow> p + n \<le> b + s \<Longrightarrow> outside m B p n"
  unfolding outside_def by (intro bexI [of _ "(b, s)"]) simp_all

lemma outside_valid: "outside m B p n \<Longrightarrow> valid m p n"
  by (auto simp: outside_def intro: validI)

lemma outside_le: "outside m B p n \<Longrightarrow> k \<le> n \<Longrightarrow> outside m B p k"
  by (force simp: outside_def)

lemma outside_apart:
  assumes "wf_mem m" "outside m B p n" "(b, s) \<in> B" "(b, s) \<in> set (live m)" "b \<le> q" "q + k \<le> b + s"
  shows "q + k \<le> p \<or> p + n \<le> q"
  using assms blocks_apart [OF assms(1,4)] by (fastforce simp: outside_def)

lemma outside_keeps:
  assumes "outside m B p n" "keeps (set (live m) - B) m m'"
  shows "peek m' p n = peek m p n" "valid m' p n"
  using assms by (auto simp: outside_def intro: keeps_peek keeps_valid)

lemma outside_live: "live m' = live m \<Longrightarrow> outside m' B p n = outside m B p n"
  by (simp add: outside_def)

lemma memcpy_outside:
  assumes "wf_mem m" "outside m B p n" "(b, s) \<in> B" "(b, s) \<in> set (live m)" "b \<le> q" "q + n \<le> b + s"
  shows "memcpy m q p n = Some (poke m q (peek m p n))"
proof (rule memcpy_Some)
  show "valid m q n" using assms(4-6) by (rule validI)
  show "valid m p n" using assms(2) by (rule outside_valid)
  show "q + n \<le> p \<or> p + n \<le> q" using outside_apart [OF assms(1-5), of n] assms(6) by auto
qed

lemma keeps_poke_outside:
  assumes "wf_mem m" "(b, s) \<in> B" "(b, s) \<in> set (live m)" "b \<le> q" "q + length xs \<le> b + s"
  shows "keeps (set (live m) - B) m (poke m q xs)"
  using assms by (intro keeps_poke [OF assms(1,3-5)]) auto

lemma outside_poke [simp]: "outside (poke m q xs) B p n = outside m B p n"
  by (rule outside_live) simp

lemma keeps_poke_out:
  assumes "wf_mem m" "outside m B out (length xs)" "B \<subseteq> set (live m)"
  shows "keeps B m (poke m out xs)"
proof -
  from assms(2) obtain b s where "(b, s) \<in> set (live m) - B" "b \<le> out" "out + length xs \<le> b + s" by (auto simp: outside_def)
  then show ?thesis by (intro keeps_poke [OF assms(1), of b s]) (use assms(3) in auto)
qed

section \<open>NUL-terminated strings\<close>

text \<open>\<open>strlen\<close> walks to the first zero byte and is undefined when it leaves the object.\<close>

partial_function (option) strlen :: "ptr \<Rightarrow> mem \<Rightarrow> nat option" where
  "strlen p m = do { b \<leftarrow> read_byte m p; if b = 0 then Some 0 else do { n \<leftarrow> strlen (p + 1) m; Some (Suc n) } }"

text \<open>\<open>p\<close> points to a string with the bytes \<open>s\<close>, terminator excluded.\<close>

definition cstr :: "mem \<Rightarrow> ptr \<Rightarrow> byte list \<Rightarrow> bool" where
  "cstr m p s \<longleftrightarrow> valid m p (length s + 1) \<and> peek m p (length s + 1) = s @ [0] \<and> 0 \<notin> set s"

lemma cstr_Nil: "cstr m p [] \<longleftrightarrow> valid m p 1 \<and> bytes m p = 0"
  by (auto simp: cstr_def peek_def)

lemma peek_Suc: "peek m p (Suc n) = bytes m p # peek m (p + 1) n"
  using peek_append [of m p 1 n] by (simp add: peek_def)

lemma cstr_Cons:
  "cstr m p (c # s) \<Longrightarrow> valid m p 1 \<and> bytes m p = c \<and> c \<noteq> 0 \<and> cstr m (p + 1) s"
  by (auto simp: cstr_def peek_Suc intro: valid_sub)

lemma strlen_cstr: "cstr m p s \<Longrightarrow> strlen p m = Some (length s)"
proof (induction s arbitrary: p)
  case Nil
  then show ?case by (subst strlen.simps) (simp add: cstr_Nil read_byte_Some)
next
  case (Cons c s)
  from cstr_Cons [OF Cons.prems] Cons.IH [of "p + 1"] show ?case
    by (subst strlen.simps) (simp add: read_byte_Some)
qed

lemma cstr_nonnull: "wf_mem m \<Longrightarrow> cstr m p s \<Longrightarrow> p \<noteq> NULL"
  by (auto simp: cstr_def valid_iff dest: wf_block)

lemma cstr_peek: "cstr m p s \<Longrightarrow> peek m p (length s) = s"
  using peek_append [of m p "length s" 1] by (auto simp: cstr_def)

end
