(* ===== verification/Allocator.thy ===== *)
theory Allocator
  imports Memory Status
begin

text \<open>
  The allocator contract (\<open>core/d4np_allocator.h\<close>) and the libc-backed default
  allocator (\<open>core/d4np_allocator.c\<close>). The vtable is a record of functions over the
  memory; a \<open>const d4np_allocator_t *\<close> is an \<open>option\<close> (\<open>None\<close> for
  \<open>NULL\<close>). The locale \<open>allocator_contract\<close> states what the header documents
  about an implementation; every container is verified against it, and it is interpreted
  on the default allocator.
\<close>

section \<open>Definitions\<close>

record d4np_allocator =
  al_alloc :: "ptr \<Rightarrow> size_t \<Rightarrow> size_t \<Rightarrow> mem \<Rightarrow> (ptr \<times> mem) option"
  al_realloc :: "ptr \<Rightarrow> ptr \<Rightarrow> size_t \<Rightarrow> size_t \<Rightarrow> size_t \<Rightarrow> mem \<Rightarrow> (ptr \<times> mem) option"
  al_free :: "ptr \<Rightarrow> ptr \<Rightarrow> size_t \<Rightarrow> mem \<Rightarrow> mem option"
  al_ctx :: ptr

definition align_ok :: "size_t \<Rightarrow> bool" where
  "align_ok align \<longleftrightarrow> align \<le> MAX_ALIGN"

definition default_alloc :: "ptr \<Rightarrow> size_t \<Rightarrow> size_t \<Rightarrow> mem \<Rightarrow> (ptr \<times> mem) option" where
  "default_alloc ctx n align m =
     (if n = 0 \<or> \<not> align_ok align then Some (NULL, m) else Some (malloc n m))"

definition default_realloc ::
  "ptr \<Rightarrow> ptr \<Rightarrow> size_t \<Rightarrow> size_t \<Rightarrow> size_t \<Rightarrow> mem \<Rightarrow> (ptr \<times> mem) option" where
  "default_realloc ctx p old_size new_size align m =
     (if \<not> align_ok align then Some (NULL, m)
      else if new_size = 0 then do { m' \<leftarrow> free p m; Some (NULL, m') }
      else realloc p new_size m)"

definition default_free :: "ptr \<Rightarrow> ptr \<Rightarrow> size_t \<Rightarrow> mem \<Rightarrow> mem option" where
  "default_free ctx p n m = free p m"

definition d4np_allocator_default :: d4np_allocator where
  "d4np_allocator_default =
     \<lparr>al_alloc = default_alloc, al_realloc = default_realloc, al_free = default_free, al_ctx = NULL\<rparr>"

definition allocator_or_default :: "d4np_allocator option \<Rightarrow> d4np_allocator" where
  "allocator_or_default a = (case a of None \<Rightarrow> d4np_allocator_default | Some x \<Rightarrow> x)"

definition d4np_alloc :: "d4np_allocator option \<Rightarrow> size_t \<Rightarrow> size_t \<Rightarrow> mem \<Rightarrow> (ptr \<times> mem) option" where
  "d4np_alloc a n align m =
     (let a' = allocator_or_default a in al_alloc a' (al_ctx a') n align m)"

definition d4np_realloc ::
  "d4np_allocator option \<Rightarrow> ptr \<Rightarrow> size_t \<Rightarrow> size_t \<Rightarrow> size_t \<Rightarrow> mem \<Rightarrow> (ptr \<times> mem) option" where
  "d4np_realloc a p old_size new_size align m =
     (let a' = allocator_or_default a in al_realloc a' (al_ctx a') p old_size new_size align m)"

definition d4np_free :: "d4np_allocator option \<Rightarrow> ptr \<Rightarrow> size_t \<Rightarrow> mem \<Rightarrow> mem option" where
  "d4np_free a p n m = (let a' = allocator_or_default a in al_free a' (al_ctx a') p n m)"

lemma allocator_or_default_simps [simp]:
  "allocator_or_default None = d4np_allocator_default" "allocator_or_default (Some a) = a"
  by (simp_all add: allocator_or_default_def)

text \<open>A legal alignment is a power of two; \<open>aligned p a\<close>: address \<open>p\<close> is a multiple of it.\<close>

definition pow2 :: "size_t \<Rightarrow> bool" where
  "pow2 a \<longleftrightarrow> (\<exists>k \<in> {..<64}. a = 2 ^ k)"

definition aligned :: "ptr \<Rightarrow> size_t \<Rightarrow> bool" where
  "aligned p a \<longleftrightarrow> p mod unat a = 0"

section \<open>The contract\<close>

text \<open>
  The post-conditions of an allocation and of a reallocation. Both leave every other live
  object alone; a failed reallocation leaves the old object alone too, a successful one
  replaces it and carries over the common prefix of its bytes. Freeing ends the life of the
  object and creates none.
\<close>

definition alloc_post :: "mem \<Rightarrow> size_t \<Rightarrow> size_t \<Rightarrow> ptr \<times> mem \<Rightarrow> bool" where
  "alloc_post m n al = (\<lambda>(p, m'). wf_mem m' \<and> keeps (set (live m)) m m' \<and>
     (p \<noteq> NULL \<longrightarrow> (p, unat n) \<in> set (live m') \<and> (p, unat n) \<notin> set (live m) \<and> aligned p al))"

definition realloc_post ::
  "mem \<Rightarrow> ptr \<Rightarrow> size_t \<Rightarrow> size_t \<Rightarrow> size_t \<Rightarrow> ptr \<times> mem \<Rightarrow> bool" where
  "realloc_post m p old new al = (\<lambda>(q, m'). wf_mem m' \<and>
     (q = NULL \<longrightarrow> keeps (set (live m)) m m') \<and>
     (q \<noteq> NULL \<longrightarrow> keeps (set (live m) - {(p, unat old)}) m m' \<and> (q, unat new) \<in> set (live m') \<and>
        (q, unat new) \<notin> set (live m) - {(p, unat old)} \<and> aligned q al \<and>
        peek m' q (min (unat old) (unat new)) = peek m p (min (unat old) (unat new))))"

definition free_post :: "mem \<Rightarrow> ptr \<Rightarrow> size_t \<Rightarrow> mem \<Rightarrow> bool" where
  "free_post m p n m' \<longleftrightarrow> wf_mem m' \<and> keeps (set (live m) - {(p, unat n)}) m m' \<and> (p, unat n) \<notin> set (live m') \<and>
     set (live m') \<subseteq> set (live m)"

text \<open>What a caller may pass back: nothing yet, or an object it was given, with its size.\<close>

definition owned :: "mem \<Rightarrow> ptr \<Rightarrow> size_t \<Rightarrow> bool" where
  "owned m p n \<longleftrightarrow> p = NULL \<and> n = 0 \<or> (p, unat n) \<in> set (live m)"

locale allocator_contract =
  fixes A :: d4np_allocator
  assumes alloc_ok: "wf_mem m \<Longrightarrow> pow2 al \<Longrightarrow>
    \<exists>r. al_alloc A (al_ctx A) n al m = Some r \<and> alloc_post m n al r"
  and realloc_ok: "wf_mem m \<Longrightarrow> pow2 al \<Longrightarrow> new \<noteq> 0 \<Longrightarrow> owned m p old \<Longrightarrow>
    \<exists>r. al_realloc A (al_ctx A) p old new al m = Some r \<and> realloc_post m p old new al r"
  and free_ok: "wf_mem m \<Longrightarrow> (p, unat n) \<in> set (live m) \<Longrightarrow>
    \<exists>m'. al_free A (al_ctx A) p n m = Some m' \<and> free_post m p n m'"
  and free_null: "wf_mem m \<Longrightarrow>
    \<exists>m'. al_free A (al_ctx A) NULL n m = Some m' \<and> wf_mem m' \<and> keeps (set (live m)) m m'"
begin

text \<open>The laws for the NULL-tolerant wrappers, in elimination form for the containers.\<close>

lemma alloc_cases:
  assumes "wf_mem m" "pow2 al"
  obtains (fail) m' where "d4np_alloc (Some A) n al m = Some (NULL, m')" "wf_mem m'"
      "keeps (set (live m)) m m'"
  | (ok) p m' where "d4np_alloc (Some A) n al m = Some (p, m')" "p \<noteq> NULL" "wf_mem m'"
      "keeps (set (live m)) m m'" "(p, unat n) \<in> set (live m')" "(p, unat n) \<notin> set (live m)" "aligned p al"
proof -
  obtain p m' where r: "d4np_alloc (Some A) n al m = Some (p, m')" "alloc_post m n al (p, m')"
    using alloc_ok [OF assms, of n] by (auto simp: d4np_alloc_def allocator_or_default_def)
  then show thesis
    using fail [of m'] ok [of p m'] by (cases "p = NULL") (auto simp: alloc_post_def)
qed

lemma realloc_cases:
  assumes "wf_mem m" "pow2 al" "new \<noteq> 0" "owned m p old"
  obtains (fail) m' where "d4np_realloc (Some A) p old new al m = Some (NULL, m')" "wf_mem m'"
      "keeps (set (live m)) m m'"
  | (ok) q m' where "d4np_realloc (Some A) p old new al m = Some (q, m')" "q \<noteq> NULL" "wf_mem m'"
      "keeps (set (live m) - {(p, unat old)}) m m'" "(q, unat new) \<in> set (live m')"
      "(q, unat new) \<notin> set (live m) - {(p, unat old)}" "aligned q al"
      "peek m' q (min (unat old) (unat new)) = peek m p (min (unat old) (unat new))"
proof -
  obtain q m' where r: "d4np_realloc (Some A) p old new al m = Some (q, m')"
      "realloc_post m p old new al (q, m')"
    using realloc_ok [OF assms] by (auto simp: d4np_realloc_def allocator_or_default_def)
  then show thesis
    using fail [of m'] ok [of q m'] by (cases "q = NULL") (auto simp: realloc_post_def)
qed

lemma free_cases:
  assumes "wf_mem m" "(p, unat n) \<in> set (live m)"
  obtains m' where "d4np_free (Some A) p n m = Some m'" "wf_mem m'"
    "keeps (set (live m) - {(p, unat n)}) m m'" "(p, unat n) \<notin> set (live m')"
  using free_ok [OF assms] by (auto simp: d4np_free_def allocator_or_default_def free_post_def)

lemma free_live:
  assumes "wf_mem m" "(p, unat n) \<in> set (live m)" "d4np_free (Some A) p n m = Some m'"
  shows "set (live m') = set (live m) - {(p, unat n)}"
proof -
  obtain m'' where "d4np_free (Some A) p n m = Some m''" "free_post m p n m''"
    using free_ok [OF assms(1,2)] by (auto simp: d4np_free_def allocator_or_default_def)
  with assms(3) have f: "free_post m p n m'" by simp
  then have "set (live m) - {(p, unat n)} \<subseteq> set (live m')" using keeps_subset unfolding free_post_def by blast
  with f show ?thesis by (auto simp: free_post_def)
qed

lemma free_null_cases:
  assumes "wf_mem m"
  obtains m' where "d4np_free (Some A) NULL n m = Some m'" "wf_mem m'" "keeps (set (live m)) m m'"
  using free_null [OF assms, of n] by (auto simp: d4np_free_def allocator_or_default_def)

text \<open>The same laws without a case split, for functions that allocate or free several blocks.\<close>

lemma alloc_any:
  assumes "wf_mem m" "pow2 al"
  shows "\<exists>p m'. d4np_alloc (Some A) n al m = Some (p, m') \<and> wf_mem m' \<and> keeps (set (live m)) m m' \<and>
    (p \<noteq> NULL \<longrightarrow> (p, unat n) \<in> set (live m') \<and> (p, unat n) \<notin> set (live m) \<and> aligned p al)"
  by (cases rule: alloc_cases [OF assms, of n]) auto

lemma free_any:
  assumes "wf_mem m" "p = NULL \<or> (p, unat n) \<in> set (live m)"
  shows "\<exists>m'. d4np_free (Some A) p n m = Some m' \<and> wf_mem m' \<and> keeps (set (live m) - {(p, unat n)}) m m' \<and>
    (p \<noteq> NULL \<longrightarrow> set (live m') = set (live m) - {(p, unat n)})"
proof (cases "p = NULL")
  case True
  then show ?thesis using free_null_cases [OF assms(1), of n] by (metis Diff_subset keeps_mono)
next
  case False
  then show ?thesis using free_cases [OF assms(1), of p n] free_live [OF assms(1), of p n] assms(2) by metis
qed

lemma free_three:
  assumes "wf_mem m" "p = NULL \<or> (p, unat n) \<in> set (live m)" "q = NULL \<or> (q, unat k) \<in> set (live m) - {(p, unat n)}"
    "r = NULL \<or> (r, unat l) \<in> set (live m) - {(p, unat n), (q, unat k)}"
  shows "\<exists>m'. wf_mem m' \<and> keeps (set (live m) - {(p, unat n), (q, unat k), (r, unat l)}) m m' \<and>
    (p \<noteq> NULL \<and> q \<noteq> NULL \<and> r \<noteq> NULL \<longrightarrow> set (live m') = set (live m) - {(p, unat n), (q, unat k), (r, unat l)}) \<and>
    (\<forall>f :: mem \<Rightarrow> 'b option. do { m1 \<leftarrow> d4np_free (Some A) p n m; m2 \<leftarrow> d4np_free (Some A) q k m1;
       m3 \<leftarrow> d4np_free (Some A) r l m2; f m3 } = f m')"
proof -
  from free_any [OF assms(1,2)] obtain m1 where
    1: "d4np_free (Some A) p n m = Some m1" "wf_mem m1" "keeps (set (live m) - {(p, unat n)}) m m1"
      "p \<noteq> NULL \<longrightarrow> set (live m1) = set (live m) - {(p, unat n)}" by blast
  have "q = NULL \<or> (q, unat k) \<in> set (live m1)" using assms(3) keeps_live [OF 1(3)] by blast
  from free_any [OF 1(2) this] obtain m2 where
    2: "d4np_free (Some A) q k m1 = Some m2" "wf_mem m2" "keeps (set (live m1) - {(q, unat k)}) m1 m2"
      "q \<noteq> NULL \<longrightarrow> set (live m2) = set (live m1) - {(q, unat k)}" by blast
  have k2: "keeps (set (live m) - {(p, unat n), (q, unat k)}) m m2"
    by (rule keeps_trans [OF keeps_mono [OF 1(3)] keeps_mono [OF 2(3)]]) (use keeps_subset [OF 1(3)] in blast)+
  have "r = NULL \<or> (r, unat l) \<in> set (live m2)" using assms(4) keeps_live [OF k2] by blast
  from free_any [OF 2(2) this] obtain m3 where
    3: "d4np_free (Some A) r l m2 = Some m3" "wf_mem m3" "keeps (set (live m2) - {(r, unat l)}) m2 m3"
      "r \<noteq> NULL \<longrightarrow> set (live m3) = set (live m2) - {(r, unat l)}" by blast
  have "keeps (set (live m) - {(p, unat n), (q, unat k), (r, unat l)}) m m3"
    by (rule keeps_trans [OF keeps_mono [OF k2] keeps_mono [OF 3(3)]]) (use keeps_subset [OF k2] in blast)+
  moreover have "set (live m3) = set (live m) - {(p, unat n), (q, unat k), (r, unat l)}" if "p \<noteq> NULL \<and> q \<noteq> NULL \<and> r \<noteq> NULL"
    using 1(4) 2(4) 3(4) that by blast
  ultimately show ?thesis using 1(1) 2(1) 3(1,2) by (intro exI [of _ m3]) simp
qed

end

section \<open>The default allocator meets the contract\<close>

lemma pow2_dvd_16: "pow2 a \<Longrightarrow> a \<le> MAX_ALIGN \<Longrightarrow> unat a dvd 16"
proof -
  assume "pow2 a" "a \<le> MAX_ALIGN"
  then obtain k where k: "k < 64" "a = 2 ^ k" by (auto simp: pow2_def)
  have u: "unat a = 2 ^ k"
    using k by (simp add: unat_pow2)
  with \<open>a \<le> MAX_ALIGN\<close> have "(2::nat) ^ k \<le> 2 ^ 4"
    by (simp add: word_le_nat_alt)
  then have "k \<le> 4" by (rule power_le_imp_le_exp [rotated]) simp
  then show ?thesis using u le_imp_power_dvd [of k 4 "2::nat"] by simp
qed

lemma aligned_16: "pow2 a \<Longrightarrow> a \<le> MAX_ALIGN \<Longrightarrow> p mod 16 = 0 \<Longrightarrow> aligned p a"
  using pow2_dvd_16 [of a] by (auto simp: aligned_def mod_eq_0_iff_dvd intro: dvd_trans)

lemma malloc_post: "wf_mem m \<Longrightarrow> pow2 al \<Longrightarrow> align_ok al \<Longrightarrow> alloc_post m n al (malloc n m)"
  using malloc_spec [of m n "fst (malloc n m)" "snd (malloc n m)"]
  by (auto simp: alloc_post_def align_ok_def aligned_16 split: prod.split)

lemma default_alloc_post:
  "wf_mem m \<Longrightarrow> pow2 al \<Longrightarrow> \<exists>r. default_alloc ctx n al m = Some r \<and> alloc_post m n al r"
  using malloc_post [of m al n] by (auto simp: default_alloc_def alloc_post_def)

lemma realloc_null_post:
  assumes "wf_mem m" "pow2 al" "align_ok al"
  shows "\<exists>r. realloc NULL new m = Some r \<and> realloc_post m NULL 0 new al r"
proof -
  have "(0, 0) \<notin> set (live m)" using wf_block [OF assms(1), of 0] by auto
  then show ?thesis
    using malloc_post [OF assms, of new]
    by (auto simp: realloc_def realloc_post_def alloc_post_def split: prod.splits)
qed

lemma realloc_block_post:
  assumes "wf_mem m" "pow2 al" "align_ok al" "(p, unat old) \<in> set (live m)"
  shows "\<exists>r. realloc p new m = Some r \<and> realloc_post m p old new al r"
proof -
  obtain q m' where "realloc p new m = Some (q, m')" "wf_mem m'" "keeps (set (live m) - {(p, unat old)}) m m'"
      "if q = NULL then keeps (set (live m)) m m'
     else (q, unat new) \<in> set (live m') \<and> (q, unat new) \<notin> set (live m) - {(p, unat old)} \<and> q mod 16 = 0 \<and>
       peek m' q (min (unat old) (unat new)) = peek m p (min (unat old) (unat new))"
    using realloc_spec [OF assms(1,4), of new] by blast
  then show ?thesis
    using assms(2,3) by (cases "q = NULL") (auto simp: realloc_post_def align_ok_def aligned_16)
qed

lemma default_realloc_post:
  assumes "wf_mem m" "pow2 al" "new \<noteq> 0" "owned m p old"
  shows "\<exists>r. default_realloc ctx p old new al m = Some r \<and> realloc_post m p old new al r"
proof (cases "align_ok al")
  case True
  then have "default_realloc ctx p old new al m = realloc p new m"
    using assms(3) by (simp add: default_realloc_def)
  with realloc_null_post [OF assms(1,2) True] realloc_block_post [OF assms(1,2) True] assms(4)
  show ?thesis by (auto simp: owned_def)
next
  case False
  with assms(1) show ?thesis by (auto simp: default_realloc_def realloc_post_def)
qed

interpretation default_allocator: allocator_contract d4np_allocator_default
proof unfold_locales
  let ?D = d4np_allocator_default
  show "\<exists>r. al_alloc ?D (al_ctx ?D) n al m = Some r \<and> alloc_post m n al r"
    if "wf_mem m" "pow2 al" for m n al
    using default_alloc_post [OF that] by (simp add: d4np_allocator_default_def)
  show "\<exists>r. al_realloc ?D (al_ctx ?D) p old new al m = Some r \<and> realloc_post m p old new al r"
    if "wf_mem m" "pow2 al" "new \<noteq> 0" "owned m p old" for m al new p old
    using default_realloc_post [OF that] by (simp add: d4np_allocator_default_def)
  show "\<exists>m'. al_free ?D (al_ctx ?D) p n m = Some m' \<and> free_post m p n m'"
    if "wf_mem m" "(p, unat n) \<in> set (live m)" for m p n
    using free_spec [OF that] by (simp add: d4np_allocator_default_def default_free_def free_post_def)
  show "\<exists>m'. al_free ?D (al_ctx ?D) NULL n m = Some m' \<and> wf_mem m' \<and> keeps (set (live m)) m m'"
    if "wf_mem m" for m n
    using that by (auto simp: d4np_allocator_default_def default_free_def free_def)
qed

lemma d4np_alloc_None: "d4np_alloc None = d4np_alloc (Some d4np_allocator_default)"
  by (simp add: d4np_alloc_def allocator_or_default_def fun_eq_iff)

lemma d4np_realloc_None: "d4np_realloc None = d4np_realloc (Some d4np_allocator_default)"
  by (simp add: d4np_realloc_def allocator_or_default_def fun_eq_iff)

lemma d4np_free_None: "d4np_free None = d4np_free (Some d4np_allocator_default)"
  by (simp add: d4np_free_def allocator_or_default_def fun_eq_iff)

lemma pow2_MAX_ALIGN [simp]: "pow2 MAX_ALIGN"
  by (auto simp: pow2_def MAX_ALIGN_def intro!: bexI [of _ 4])

section \<open>Allocators that keep no memory of their own\<close>

text \<open>A stronger contract, for clients that account for every object: a reallocation creates at most the
  object it returns, freeing NULL creates nothing.\<close>

locale frugal_allocator = allocator_contract +
  assumes realloc_only: "wf_mem m \<Longrightarrow> new \<noteq> 0 \<Longrightarrow> owned m p old \<Longrightarrow> al_realloc A (al_ctx A) p old new al m = Some (q, m') \<Longrightarrow>
      set (live m') \<subseteq> (if q = NULL then set (live m) else insert (q, unat new) (set (live m) - {(p, unat old)}))"
    and free_null_only: "al_free A (al_ctx A) NULL n m = Some m' \<Longrightarrow> set (live m') \<subseteq> set (live m)"
begin

lemma realloc_exact:
  assumes "wf_mem m" "pow2 al" "new \<noteq> 0" "owned m p old"
  obtains (fail) m' where "d4np_realloc (Some A) p old new al m = Some (NULL, m')" "wf_mem m'" "keeps (set (live m)) m m'"
      "set (live m') = set (live m)"
  | (ok) q m' where "d4np_realloc (Some A) p old new al m = Some (q, m')" "q \<noteq> NULL" "wf_mem m'"
      "keeps (set (live m) - {(p, unat old)}) m m'" "set (live m') = insert (q, unat new) (set (live m) - {(p, unat old)})"
      "(q, unat new) \<notin> set (live m) - {(p, unat old)}"
      "peek m' q (min (unat old) (unat new)) = peek m p (min (unat old) (unat new))"
proof -
  have only: "set (live m') \<subseteq> (if q = NULL then set (live m) else insert (q, unat new) (set (live m) - {(p, unat old)}))"
    if "d4np_realloc (Some A) p old new al m = Some (q, m')" for q m'
    using realloc_only [OF assms(1,3,4)] that by (simp add: d4np_realloc_def)
  show thesis
  proof (cases rule: realloc_cases [OF assms, case_names fail ok])
    case (fail m')
    have "set (live m') = set (live m)" using only [OF fail(1)] keeps_subset [OF fail(3)] by auto
    with fail that(1) show thesis by blast
  next
    case (ok q m')
    have "set (live m') = insert (q, unat new) (set (live m) - {(p, unat old)})"
      using only [OF ok(1)] ok(2,5) keeps_subset [OF ok(4)] by auto
    with ok that(2) show thesis by blast
  qed
qed

text \<open>Giving back a block, or NULL when there is none.\<close>

lemma free_exact:
  assumes "wf_mem m" "p = NULL \<or> (p, unat n) \<in> set (live m)"
  shows "\<exists>m'. d4np_free (Some A) p n m = Some m' \<and> wf_mem m' \<and> keeps (set (live m) - {(p, unat n)}) m m' \<and>
    set (live m') = set (live m) - {(p, unat n)}"
proof (cases "p = NULL")
  case True
  then have p: "(p, unat n) \<notin> set (live m)" using wf_block [OF assms(1)] by auto
  from free_null_cases [OF assms(1), of n] obtain m' where
    f: "d4np_free (Some A) NULL n m = Some m'" "wf_mem m'" "keeps (set (live m)) m m'" .
  have "set (live m') \<subseteq> set (live m)" using free_null_only [of n m m'] f(1) by (simp add: d4np_free_def)
  with f p True keeps_subset [OF f(3)] show ?thesis by auto
next
  case False
  with assms(2) have b: "(p, unat n) \<in> set (live m)" by simp
  from free_cases [OF assms(1) b] obtain m' where
    f: "d4np_free (Some A) p n m = Some m'" "wf_mem m'" "keeps (set (live m) - {(p, unat n)}) m m'" by blast
  with free_live [OF assms(1) b f(1)] show ?thesis by blast
qed

end

lemma realloc_live:
  assumes "wf_mem m" "owned m p old" "realloc p new m = Some (q, m')"
  shows "set (live m') \<subseteq> (if q = NULL then set (live m) else insert (q, unat new) (set (live m) - {(p, unat old)}))"
proof (cases "p = NULL")
  case True
  then have "(p, unat old) \<notin> set (live m)" using wf_block [OF assms(1)] by auto
  then show ?thesis using assms(3) True by (auto simp: realloc_def malloc_def Let_def placeable_def split: if_splits)
next
  case False
  then have b: "(p, unat old) \<in> set (live m)" using assms(2) by (auto simp: owned_def)
  have mp: "map_of (live m) p = Some (unat old)" using wf_map_of [OF assms(1)] b by simp
  let ?q = "place m (tick m)" and ?rest = "filter (\<lambda>(b, s). b \<noteq> p) (live m)"
  have rest: "set ?rest = set (live m) - {(p, unat old)}" by (rule live_filter_fst [OF assms(1) b])
  show ?thesis
  proof (cases "placeable ?q (unat new) ?rest")
    case True
    then have "q = ?q" "set (live m') = insert (?q, unat new) (set ?rest)" using assms(3) False mp by (auto simp: realloc_def Let_def)
    moreover have "?q \<noteq> NULL" using True by (simp add: placeable_def)
    ultimately show ?thesis using rest by simp
  next
    case no: False
    then have "q = NULL" "live m' = live m" using assms(3) False mp by (auto simp: realloc_def Let_def)
    then show ?thesis by simp
  qed
qed

interpretation default_frugal: frugal_allocator d4np_allocator_default
proof unfold_locales
  let ?D = d4np_allocator_default
  show "set (live m') \<subseteq> (if q = NULL then set (live m) else insert (q, unat new) (set (live m) - {(p, unat old)}))"
    if "wf_mem m" "new \<noteq> 0" "owned m p old" "al_realloc ?D (al_ctx ?D) p old new al m = Some (q, m')" for m new p old al q m'
    using realloc_live [OF that(1,3), of new q m'] that(2,4)
    by (auto simp: d4np_allocator_default_def default_realloc_def split: if_splits)
  show "set (live m') \<subseteq> set (live m)" if "al_free ?D (al_ctx ?D) NULL n m = Some m'" for n m m'
    using that by (simp add: d4np_allocator_default_def default_free_def free_def)
qed

end
