(* ===== verification/Arena.thy ===== *)
theory Arena
  imports Allocator
begin

text \<open>
  The bump-pointer arena (\<open>mem/arena.h\<close>, \<open>mem/arena.c\<close>): one backing block, an
  offset that only grows between resets. A \<open>d4np_arena_t *\<close> argument is an
  \<open>option\<close>; operations return the updated structure.
\<close>

section \<open>Definitions\<close>

record d4np_arena =
  ar_allocator :: "d4np_allocator option"
  ar_base :: ptr
  ar_capacity :: size_t
  ar_offset :: size_t

text \<open>The second component is the \<open>overflow\<close> out-parameter.\<close>

definition align_up :: "size_t \<Rightarrow> size_t \<Rightarrow> size_t \<times> bool" where
  "align_up value align =
     (let a = (if align = 0 then 1 else align);
          sum = value + (a - 1)
      in if sum < value then (0, True) else (sum AND NOT (a - 1), False))"

definition d4np_arena_init ::
  "d4np_arena option \<Rightarrow> d4np_allocator option \<Rightarrow> size_t \<Rightarrow> mem \<Rightarrow> (d4np_status \<times> d4np_arena option \<times> mem) option" where
  "d4np_arena_init arena allocator capacity m =
     (case arena of
        None \<Rightarrow> Some (D4NP_ERR_INVALID_ARGUMENT, None, m)
      | Some ar \<Rightarrow>
          if capacity = 0 then Some (D4NP_ERR_INVALID_ARGUMENT, arena, m)
          else do {
            let al = Some (allocator_or_default allocator);
            (block, m1) \<leftarrow> d4np_alloc al capacity MAX_ALIGN m;
            if block = NULL then Some (D4NP_ERR_OUT_OF_MEMORY, arena, m1)
            else Some (D4NP_OK,
              Some (ar\<lparr>ar_allocator := al, ar_base := block, ar_capacity := capacity, ar_offset := 0\<rparr>), m1)
          })"

definition d4np_arena_alloc :: "d4np_arena option \<Rightarrow> size_t \<Rightarrow> size_t \<Rightarrow> ptr \<times> d4np_arena option" where
  "d4np_arena_alloc arena n align =
     (case arena of
        None \<Rightarrow> (NULL, None)
      | Some ar \<Rightarrow>
          if n = 0 then (NULL, arena)
          else (let (aln, overflow) = align_up (ar_offset ar) align in
            if overflow \<or> ar_capacity ar < aln then (NULL, arena)
            else if ar_capacity ar - aln < n then (NULL, arena)
            else (ar_base ar + unat aln, Some (ar\<lparr>ar_offset := aln + n\<rparr>))))"

definition d4np_arena_reset :: "d4np_arena option \<Rightarrow> d4np_arena option" where
  "d4np_arena_reset arena = map_option (\<lambda>ar. ar\<lparr>ar_offset := 0\<rparr>) arena"

definition d4np_arena_destroy :: "d4np_arena option \<Rightarrow> mem \<Rightarrow> (d4np_arena option \<times> mem) option" where
  "d4np_arena_destroy arena m =
     (case arena of
        None \<Rightarrow> Some (arena, m)
      | Some ar \<Rightarrow>
          if ar_base ar = NULL then Some (arena, m)
          else do {
            m1 \<leftarrow> d4np_free (ar_allocator ar) (ar_base ar) (ar_capacity ar) m;
            Some (Some (ar\<lparr>ar_allocator := None, ar_base := NULL, ar_capacity := 0, ar_offset := 0\<rparr>), m1)
          })"

definition d4np_arena_used :: "d4np_arena option \<Rightarrow> size_t" where
  "d4np_arena_used arena = (case arena of None \<Rightarrow> 0 | Some ar \<Rightarrow> ar_offset ar)"

definition d4np_arena_remaining :: "d4np_arena option \<Rightarrow> size_t" where
  "d4np_arena_remaining arena = (case arena of None \<Rightarrow> 0 | Some ar \<Rightarrow> ar_capacity ar - ar_offset ar)"

text \<open>Well-formed arena: the block is live and the offset is inside it.\<close>

definition arena_inv :: "d4np_arena \<Rightarrow> mem \<Rightarrow> bool" where
  "arena_inv ar m \<longleftrightarrow> (ar_base ar, unat (ar_capacity ar)) \<in> set (live m) \<and>
     aligned (ar_base ar) MAX_ALIGN \<and> ar_offset ar \<le> ar_capacity ar"

text \<open>A client's sequence of requests \<open>(size, align)\<close>; the answers with their sizes.\<close>

fun arena_allocs :: "d4np_arena option \<Rightarrow> (size_t \<times> size_t) list \<Rightarrow> (ptr \<times> size_t) list \<times> d4np_arena option" where
  "arena_allocs a [] = ([], a)"
| "arena_allocs a ((n, al) # rs) =
     (let (p, a1) = d4np_arena_alloc a n al; (ps, a2) = arena_allocs a1 rs in ((p, n) # ps, a2))"

section \<open>Alignment\<close>

abbreviation eff_align :: "size_t \<Rightarrow> size_t" where
  "eff_align al \<equiv> (if al = 0 then 1 else al)"

lemma align_up_spec:
  assumes "eff_align al = 2 ^ k" "k < 64"
  shows "align_up v al =
    (if unat v + (2 ^ k - 1) < 2 ^ 64 then (of_nat (round_up_nat (unat v) (2 ^ k)), False) else (0, True))"
proof -
  let ?s = "v + (2 ^ k - 1)"
  have m: "unat (2 ^ k - 1 :: size_t) = 2 ^ k - 1" by (rule unat_pow2_minus_1 [OF assms(2)])
  have wrap: "?s < v \<longleftrightarrow> \<not> unat v + (2 ^ k - 1) < 2 ^ 64"
    using m no_plus_overflow_unat_size [of v "2 ^ k - 1"]
    by (simp add: word_size not_le [symmetric])
  show ?thesis
  proof (cases "unat v + (2 ^ k - 1) < 2 ^ 64")
    case True
    have "?s AND NOT (2 ^ k - 1) = of_nat (round_up_nat (unat v) (2 ^ k))"
      using unat_round_up_mask [OF assms(2) True] by (rule of_nat_unat_eq)
    with True wrap assms(1) show ?thesis by (simp add: align_up_def Let_def)
  next
    case False
    with wrap assms(1) show ?thesis by (simp add: align_up_def Let_def)
  qed
qed

text \<open>The request fits: the specification of success in unbounded arithmetic.\<close>

definition arena_fits :: "d4np_arena \<Rightarrow> size_t \<Rightarrow> size_t \<Rightarrow> bool" where
  "arena_fits ar n al \<longleftrightarrow>
     n \<noteq> 0 \<and> round_up_nat (unat (ar_offset ar)) (unat (eff_align al)) + unat n \<le> unat (ar_capacity ar)"

lemma round_up_no_wrap:
  assumes "round_up_nat v (2 ^ k) + n \<le> c" "0 < n" "c < 2 ^ 63" "k < 64"
  shows "v + (2 ^ k - 1) < 2 ^ 64"
proof -
  have "(2::nat) ^ k \<le> 2 ^ 63" using assms(4) by (intro power_increasing) auto
  moreover have "v \<le> c" using assms(1) round_up_nat_ge [of "2 ^ k" v] by simp
  ultimately show ?thesis using assms(3) by simp
qed

lemma arena_alloc_cases:
  assumes al: "pow2 (eff_align al)" and cap: "unat (ar_capacity ar) < 2 ^ 63"
  defines "off \<equiv> round_up_nat (unat (ar_offset ar)) (unat (eff_align al))"
  shows "d4np_arena_alloc (Some ar) n al =
    (if arena_fits ar n al
     then (ar_base ar + off, Some (ar\<lparr>ar_offset := of_nat (off + unat n)\<rparr>))
     else (NULL, Some ar))"
proof -
  obtain k where k: "k < 64" "eff_align al = 2 ^ k" using al by (auto simp: pow2_def)
  have ek: "unat (eff_align al) = 2 ^ k" using k by (simp add: unat_pow2)
  then have off: "off = round_up_nat (unat (ar_offset ar)) (2 ^ k)" by (simp add: off_def)
  note au = align_up_spec [OF k(2,1), of "ar_offset ar"]
  show ?thesis
  proof (cases "unat (ar_offset ar) + (2 ^ k - 1) < 2 ^ 64")
    case True
    have off64: "off < 2 ^ 64"
      using True round_up_nat_lt [of "2 ^ k" "unat (ar_offset ar)"] off by simp
    then have uo: "unat (of_nat off :: size_t) = off"
      by (simp add: unsigned_of_nat take_bit_nat_eq_self)
    have sub: "unat (ar_capacity ar - of_nat off) = unat (ar_capacity ar) - off"
      if "\<not> ar_capacity ar < of_nat off"
      using that uo by (simp add: unat_sub_exact)
    have "d4np_arena_alloc (Some ar) n al =
      (if n \<noteq> 0 \<and> off + unat n \<le> unat (ar_capacity ar)
       then (ar_base ar + off, Some (ar\<lparr>ar_offset := of_nat off + n\<rparr>)) else (NULL, Some ar))"
      using True au off uo sub unat_pos_iff [of n]
      by (auto simp: d4np_arena_alloc_def word_less_nat_alt)
    then show ?thesis
      using ek off by (auto simp: arena_fits_def off_def)
  next
    case False
    then have "\<not> arena_fits ar n al"
      using round_up_no_wrap [of "unat (ar_offset ar)" k "unat n" "unat (ar_capacity ar)"] cap k ek
        unat_pos_iff [of n] by (auto simp: arena_fits_def)
    with False au show ?thesis by (auto simp: d4np_arena_alloc_def)
  qed
qed

section \<open>Invariant and bounds\<close>

lemma arena_inv_cap: "wf_mem m \<Longrightarrow> arena_inv ar m \<Longrightarrow> unat (ar_capacity ar) < 2 ^ 63"
  by (auto simp: arena_inv_def dest: block_size_bound)

lemma arena_alloc_inv:
  assumes "wf_mem m" "arena_inv ar m" "pow2 (eff_align al)" "d4np_arena_alloc (Some ar) n al = (p, Some ar')"
  shows "arena_inv ar' m \<and> ar_base ar' = ar_base ar \<and> ar_capacity ar' = ar_capacity ar \<and>
    unat (ar_offset ar) \<le> unat (ar_offset ar') \<and>
    (p \<noteq> NULL \<longrightarrow> ar_base ar + unat (ar_offset ar) \<le> p \<and> p + unat n = ar_base ar + unat (ar_offset ar'))"
proof -
  let ?off = "round_up_nat (unat (ar_offset ar)) (unat (eff_align al))"
  have cap: "unat (ar_capacity ar) < 2 ^ 63" by (rule arena_inv_cap [OF assms(1,2)])
  note c = arena_alloc_cases [OF assms(3) cap, of n]
  have pos: "0 < unat (eff_align al)"
    using assms(3) by (auto simp: pow2_def unat_pow2)
  have ge: "unat (ar_offset ar) \<le> ?off" by (rule round_up_nat_ge [OF pos])
  show ?thesis
  proof (cases "arena_fits ar n al")
    case True
    then have b: "?off + unat n \<le> unat (ar_capacity ar)" by (simp add: arena_fits_def)
    then have "?off + unat n < 2 ^ 64" using cap by simp
    then have u: "unat (of_nat (?off + unat n) :: size_t) = ?off + unat n"
      by (simp only: unsigned_of_nat) (simp add: take_bit_nat_eq_self)
    with True assms(2,4) c b ge show ?thesis
      by (auto simp: arena_inv_def word_le_nat_alt simp del: of_nat_add)
  next
    case False
    with c assms(2,4) show ?thesis by auto
  qed
qed

lemma arena_alloc_Some: "\<exists>p ar'. d4np_arena_alloc (Some ar) n al = (p, Some ar')"
  by (auto simp: d4np_arena_alloc_def split: prod.split)

lemma arena_alloc_within:
  assumes "wf_mem m" "arena_inv ar m" "pow2 (eff_align al)" "d4np_arena_alloc (Some ar) n al = (p, Some ar')" "p \<noteq> NULL"
  shows "valid m p (unat n)"
proof -
  note i = arena_alloc_inv [OF assms(1-4)]
  show ?thesis
    using i assms(2,5) by (intro validI [of "ar_base ar" "unat (ar_capacity ar)"])
      (auto simp: arena_inv_def word_le_nat_alt)
qed

lemma arena_allocs_ordered:
  assumes "wf_mem m" "arena_inv ar m" "list_all (\<lambda>(n, al). pow2 (eff_align al)) rs"
    "arena_allocs (Some ar) rs = (ps, a')"
  shows "\<exists>ar'. a' = Some ar' \<and> arena_inv ar' m \<and> ar_base ar' = ar_base ar \<and>
    unat (ar_offset ar) \<le> unat (ar_offset ar') \<and>
    (\<forall>(p, n) \<in> set ps. p \<noteq> NULL \<longrightarrow>
       ar_base ar + unat (ar_offset ar) \<le> p \<and> p + unat n \<le> ar_base ar + unat (ar_offset ar')) \<and>
    sorted_wrt (\<lambda>(p, n) (q, k). p \<noteq> NULL \<longrightarrow> q \<noteq> NULL \<longrightarrow> p + unat n \<le> q) ps"
  using assms(2-4)
proof (induction rs arbitrary: ar ps)
  case Nil
  then show ?case by auto
next
  case (Cons r rs)
  obtain n al where r: "r = (n, al)" by force
  obtain p ar1 where p: "d4np_arena_alloc (Some ar) n al = (p, Some ar1)" using arena_alloc_Some by blast
  obtain qs where qs: "arena_allocs (Some ar1) rs = (qs, a')" "ps = (p, n) # qs"
    using Cons.prems(3) r p by (auto split: prod.splits)
  have al: "pow2 (eff_align al)" "list_all (\<lambda>(n, al). pow2 (eff_align al)) rs" using Cons.prems(2) r by auto
  note step = arena_alloc_inv [OF assms(1) Cons.prems(1) al(1) p]
  then have "arena_inv ar1 m" by simp
  from Cons.IH [OF this al(2) qs(1)] step show ?case
    unfolding qs(2) by fastforce
qed

lemma arena_alloc_config:
  "d4np_arena_alloc (Some ar) n al = (p, Some ar') \<Longrightarrow>
   ar_allocator ar' = ar_allocator ar \<and> ar_capacity ar' = ar_capacity ar"
  by (auto simp: d4np_arena_alloc_def split: prod.splits if_splits)

lemma arena_allocs_config:
  "arena_allocs (Some ar) rs = (ps, Some ar') \<Longrightarrow>
   ar_allocator ar' = ar_allocator ar \<and> ar_capacity ar' = ar_capacity ar"
proof (induction rs arbitrary: ar ps)
  case (Cons r rs)
  obtain n al where r: "r = (n, al)" by force
  obtain p ar1 where p: "d4np_arena_alloc (Some ar) n al = (p, Some ar1)" using arena_alloc_Some by blast
  obtain qs where qs: "arena_allocs (Some ar1) rs = (qs, Some ar')"
    using Cons.prems r p by (auto split: prod.splits)
  from Cons.IH [OF qs] arena_alloc_config [OF p] show ?case by simp
qed simp

lemma arena_alloc_zeroed:
  "d4np_arena_alloc (Some \<lparr>ar_allocator = a, ar_base = b, ar_capacity = 0, ar_offset = 0\<rparr>) n al =
   (NULL, Some \<lparr>ar_allocator = a, ar_base = b, ar_capacity = 0, ar_offset = 0\<rparr>)"
  by (auto simp: d4np_arena_alloc_def align_up_def Let_def word_neq_0_conv)

section \<open>Life cycle, for every allocator that keeps the contract\<close>

context allocator_contract
begin

lemma arena_init_ok:
  assumes "wf_mem m" "cap \<noteq> 0"
  shows "\<exists>rc ar' m'. d4np_arena_init (Some ar) (Some A) cap m = Some (rc, Some ar', m') \<and> wf_mem m' \<and>
    keeps (set (live m)) m m' \<and>
    (rc = D4NP_ERR_OUT_OF_MEMORY \<and> ar' = ar \<or>
     rc = D4NP_OK \<and> arena_inv ar' m' \<and> ar_allocator ar' = Some A \<and> ar_capacity ar' = cap \<and> ar_offset ar' = 0 \<and>
       (ar_base ar', unat cap) \<notin> set (live m))"
proof (cases rule: alloc_cases [OF assms(1) pow2_MAX_ALIGN, of cap])
  case (1 m')
  with assms(2) show ?thesis by (auto simp: d4np_arena_init_def allocator_or_default_def)
next
  case (2 p m')
  with assms(2) show ?thesis by (auto simp: d4np_arena_init_def allocator_or_default_def arena_inv_def)
qed

lemma arena_destroy_ok:
  assumes "wf_mem m" "arena_inv ar m" "ar_allocator ar = Some A"
  shows "\<exists>ar' m'. d4np_arena_destroy (Some ar) m = Some (Some ar', m') \<and> wf_mem m' \<and>
    keeps (set (live m) - {(ar_base ar, unat (ar_capacity ar))}) m m' \<and>
    (ar_base ar, unat (ar_capacity ar)) \<notin> set (live m') \<and>
    ar' = \<lparr>ar_allocator = None, ar_base = NULL, ar_capacity = 0, ar_offset = 0\<rparr>"
proof -
  have blk: "(ar_base ar, unat (ar_capacity ar)) \<in> set (live m)" using assms(2) by (simp add: arena_inv_def)
  have nn: "ar_base ar \<noteq> NULL" using wf_block [OF assms(1) blk] by simp
  show ?thesis
    using assms(3) nn by (cases rule: free_cases [OF assms(1) blk]) (auto simp: d4np_arena_destroy_def)
qed

end

section \<open>Properties\<close>

text \<open>\<open>d4np_arena_alloc\<close> succeeds exactly when the request is non-empty and fits behind the
  offset rounded up to the alignment, computed without wrap-around; it then returns the block
  address at the least such offset and moves the offset to the end of the allocation, and in
  every other case it returns NULL and leaves the arena unchanged.\<close>

theorem arena_alloc_exact:
  assumes "wf_mem m" "arena_inv ar m" "pow2 (eff_align al)"
  shows "d4np_arena_alloc (Some ar) n al =
    (let off = round_up_nat (unat (ar_offset ar)) (unat (eff_align al)) in
     if n \<noteq> 0 \<and> off + unat n \<le> unat (ar_capacity ar)
     then (ar_base ar + off, Some (ar\<lparr>ar_offset := of_nat (off + unat n)\<rparr>))
     else (NULL, Some ar))"
  using arena_alloc_cases [OF assms(3) arena_inv_cap [OF assms(1,2)], of n]
  by (simp add: arena_fits_def Let_def)

text \<open>C5: every sequence of allocations from one arena hands out ranges that lie inside the
  backing block above the offset the sequence started from, are accessible, and are pairwise
  disjoint; the invariant holds at the end.\<close>

theorem arena_allocations_disjoint:
  assumes "wf_mem m" "arena_inv ar m" "list_all (\<lambda>(n, al). pow2 (eff_align al)) rs"
    "arena_allocs (Some ar) rs = (ps, a')"
  shows "sorted_wrt (\<lambda>(p, n) (q, k). p \<noteq> NULL \<longrightarrow> q \<noteq> NULL \<longrightarrow> p + unat n \<le> q) ps \<and>
    (\<forall>(p, n) \<in> set ps. p \<noteq> NULL \<longrightarrow> valid m p (unat n) \<and> ar_base ar + unat (ar_offset ar) \<le> p \<and>
       p + unat n \<le> ar_base ar + unat (ar_capacity ar)) \<and>
    (\<exists>ar'. a' = Some ar' \<and> arena_inv ar' m)"
proof -
  from arena_allocs_ordered [OF assms] obtain ar' where ar': "a' = Some ar'" "arena_inv ar' m"
      "ar_base ar' = ar_base ar"
    and rng: "\<forall>(p, n) \<in> set ps. p \<noteq> NULL \<longrightarrow>
       ar_base ar + unat (ar_offset ar) \<le> p \<and> p + unat n \<le> ar_base ar + unat (ar_offset ar')"
    and ord: "sorted_wrt (\<lambda>(p, n) (q, k). p \<noteq> NULL \<longrightarrow> q \<noteq> NULL \<longrightarrow> p + unat n \<le> q) ps" by blast
  have c: "unat (ar_offset ar') \<le> unat (ar_capacity ar')" "(ar_base ar, unat (ar_capacity ar')) \<in> set (live m)"
    using ar'(2,3) by (auto simp: arena_inv_def word_le_nat_alt)
  have cap: "unat (ar_capacity ar') = unat (ar_capacity ar)"
    using wf_unique [OF assms(1) c(2)] assms(2) by (simp add: arena_inv_def)
  have "valid m p (unat n) \<and> ar_base ar + unat (ar_offset ar) \<le> p \<and> p + unat n \<le> ar_base ar + unat (ar_capacity ar)"
    if "(p, n) \<in> set ps" "p \<noteq> NULL" for p n
    using rng that c cap by (intro conjI validI [OF c(2)]) auto
  with ord ar' show ?thesis by auto
qed

definition arena_ex :: d4np_arena where
  "arena_ex = \<lparr>ar_allocator = None, ar_base = 16, ar_capacity = 64, ar_offset = 3\<rparr>"

definition arena_ex_mem :: mem where
  "arena_ex_mem = \<lparr>bytes = (\<lambda>_. 0), live = [(16, 64)], place = (\<lambda>_. 1024), tick = 0\<rparr>"

lemma arena_ex_ok [simp]: "wf_mem arena_ex_mem" "arena_inv arena_ex arena_ex_mem"
  by (simp_all add: wf_mem_def arena_ex_mem_def arena_ex_def arena_inv_def aligned_def ADDR_LIMIT_def)

lemma pow2_numerals [simp]: "pow2 1" "pow2 2" "pow2 4" "pow2 8" "pow2 64"
  by (auto simp: pow2_def intro: bexI [of _ 0] bexI [of _ 1] bexI [of _ 2] bexI [of _ 3] bexI [of _ 6])

theorem arena_alloc_exact_witness:
  "d4np_arena_alloc (Some arena_ex) 8 8 = (24, Some (arena_ex\<lparr>ar_offset := 16\<rparr>))"
  using arena_alloc_exact [OF arena_ex_ok, of 8 8]
  by (simp add: arena_ex_def round_up_nat_def)

theorem arena_allocations_disjoint_witness:
  "sorted_wrt (\<lambda>(p, n) (q, k). p \<noteq> NULL \<longrightarrow> q \<noteq> NULL \<longrightarrow> p + unat n \<le> q)
     (fst (arena_allocs (Some arena_ex) [(8, 8), (100, 1), (4, 0)]))"
  using arena_allocations_disjoint [of arena_ex_mem arena_ex "[(8, 8), (100, 1), (4, 0)]"
      "fst (arena_allocs (Some arena_ex) [(8, 8), (100, 1), (4, 0)])"
      "snd (arena_allocs (Some arena_ex) [(8, 8), (100, 1), (4, 0)])"]
  by (simp del: arena_allocs.simps)

text \<open>The address returned is aligned to the requested alignment up to the platform's
  scalar alignment of 16, and to 16 beyond it: the offset is rounded, not the address.\<close>

theorem arena_alloc_aligned:
  assumes "wf_mem m" "arena_inv ar m" "pow2 (eff_align al)"
    "d4np_arena_alloc (Some ar) n al = (p, a')" "p \<noteq> NULL"
  shows "aligned p (min (eff_align al) MAX_ALIGN)"
proof -
  let ?e = "eff_align al"
  obtain k where k: "k < 64" "?e = 2 ^ k" using assms(3) by (auto simp: pow2_def)
  have ue: "unat ?e = 2 ^ k" using k by (simp add: unat_pow2)
  have p: "p = ar_base ar + round_up_nat (unat (ar_offset ar)) (2 ^ k)"
    using arena_alloc_cases [OF assms(3) arena_inv_cap [OF assms(1,2)], of n] assms(4,5) ue
    by (auto split: if_splits)
  have b: "16 dvd ar_base ar" using assms(2) by (auto simp: arena_inv_def aligned_def)
  show ?thesis
  proof (cases "?e \<le> MAX_ALIGN")
    case True
    then have "unat ?e dvd 16" by (rule pow2_dvd_16 [OF assms(3)])
    then have "unat ?e dvd ar_base ar" using b by (rule dvd_trans)
    then have "unat ?e dvd p" unfolding p ue using round_up_nat_dvd by (rule dvd_add)
    with True show ?thesis by (simp add: aligned_def min_def)
  next
    case False
    then have "(2::nat) ^ 4 < 2 ^ k" using ue by (simp add: word_le_nat_alt)
    then have "4 < k" by (rule power_less_imp_less_exp [rotated]) simp
    then have "(16::nat) dvd 2 ^ k" using le_imp_power_dvd [of 4 k "2::nat"] by simp
    then have "16 dvd round_up_nat (unat (ar_offset ar)) (2 ^ k)" using round_up_nat_dvd by (rule dvd_trans)
    with b have "16 dvd p" unfolding p by (rule dvd_add)
    with False show ?thesis by (simp add: aligned_def min_def)
  qed
qed

theorem arena_alloc_aligned_witness: "aligned 24 (min (eff_align 8) MAX_ALIGN)"
  using arena_alloc_aligned [OF arena_ex_ok, of 8 8 24 "Some (arena_ex\<lparr>ar_offset := 16\<rparr>)"]
    arena_alloc_cases [of 8 arena_ex 8]
  by (simp add: arena_ex_def round_up_nat_def arena_fits_def)

text \<open>An alignment above 16 is not honoured: from a well-formed arena whose block is
  16-aligned, a 64-byte-aligned request returns an address that is not a multiple of 64.\<close>

theorem arena_overalignment_not_honoured:
  "wf_mem arena_ex_mem \<and> arena_inv (arena_ex\<lparr>ar_offset := 0\<rparr>) arena_ex_mem \<and>
   fst (d4np_arena_alloc (Some (arena_ex\<lparr>ar_offset := 0\<rparr>)) 8 64) = 16 \<and> \<not> aligned 16 64"
proof -
  have "d4np_arena_alloc (Some (arena_ex\<lparr>ar_offset := 0\<rparr>)) 8 64 = (16, Some (arena_ex\<lparr>ar_offset := 8\<rparr>))"
    by (simp add: d4np_arena_alloc_def align_up_def arena_ex_def)
  then show ?thesis
    using arena_ex_ok by (simp add: arena_inv_def arena_ex_def aligned_def)
qed

text \<open>With any allocator that keeps the documented contract, once an arena is initialised,
  whatever is allocated from it after a reset, destroying it gives exactly its block back, leaves
  every object that existed before the initialisation untouched and leaves a zeroed arena from
  which every further request is refused.\<close>

theorem arena_lifecycle:
  assumes "allocator_contract A" "wf_mem m" "cap \<noteq> 0"
    "d4np_arena_init (Some ar0) (Some A) cap m = Some (D4NP_OK, Some ar, m1)"
    "arena_allocs (d4np_arena_reset (Some ar)) rs = (ps, a')"
    "list_all (\<lambda>(n, al). pow2 (eff_align al)) rs"
  shows "\<exists>z m2. d4np_arena_destroy a' m1 = Some (Some z, m2) \<and> wf_mem m2 \<and> keeps (set (live m)) m m2 \<and>
    (ar_base ar, unat cap) \<notin> set (live m2) \<and> (\<forall>n al. d4np_arena_alloc (Some z) n al = (NULL, Some z))"
proof -
  have i: "wf_mem m1" "keeps (set (live m)) m m1" "arena_inv ar m1" "ar_allocator ar = Some A"
      "ar_capacity ar = cap" "(ar_base ar, unat cap) \<notin> set (live m)"
    using allocator_contract.arena_init_ok [OF assms(1-3), of ar0] assms(4) by auto
  have "arena_inv (ar\<lparr>ar_offset := 0\<rparr>) m1" using i(3) by (simp add: arena_inv_def)
  from arena_allocs_ordered [OF i(1) this assms(6), of ps a'] assms(5) obtain ar'
    where ar': "a' = Some ar'" "arena_inv ar' m1" "ar_base ar' = ar_base ar"
    by (auto simp: d4np_arena_reset_def)
  have "ar_allocator ar' = Some A \<and> ar_capacity ar' = cap"
    using arena_allocs_config [of "ar\<lparr>ar_offset := 0\<rparr>" rs] assms(5) ar'(1) i(4,5)
    by (simp add: d4np_arena_reset_def)
  then obtain z m2 where d: "d4np_arena_destroy a' m1 = Some (Some z, m2)" "wf_mem m2"
      "keeps (set (live m1) - {(ar_base ar, unat cap)}) m1 m2" "(ar_base ar, unat cap) \<notin> set (live m2)"
      "z = \<lparr>ar_allocator = None, ar_base = NULL, ar_capacity = 0, ar_offset = 0\<rparr>"
    using allocator_contract.arena_destroy_ok [OF assms(1) i(1) ar'(2)] ar'(1,3) by auto
  have "set (live m) \<subseteq> set (live m1) - {(ar_base ar, unat cap)}"
    using i(2,6) by (auto dest: keeps_live)
  then have "keeps (set (live m)) m m2"
    using i(2) keeps_mono [OF d(3)] by (blast intro: keeps_trans)
  moreover have "d4np_arena_alloc (Some z) n al = (NULL, Some z)" for n al
    using d(5) arena_alloc_zeroed by simp
  ultimately show ?thesis using d by blast
qed

definition arena_empty_mem :: mem where
  "arena_empty_mem = \<lparr>bytes = (\<lambda>_. 0), live = [], place = (\<lambda>_. 1024), tick = 0\<rparr>"

theorem arena_lifecycle_witness:
  "\<exists>ar m1. d4np_arena_init (Some arena_ex) (Some d4np_allocator_default) 64 arena_empty_mem = Some (D4NP_OK, Some ar, m1) \<and>
    (\<exists>z m2. d4np_arena_destroy (snd (arena_allocs (d4np_arena_reset (Some ar)) [(8, 8)])) m1 = Some (Some z, m2))"
proof -
  let ?ar = "\<lparr>ar_allocator = Some d4np_allocator_default, ar_base = 1024, ar_capacity = 64, ar_offset = 0\<rparr>"
  let ?m = "\<lparr>bytes = (\<lambda>_. 0), live = [(1024, 64)], place = (\<lambda>_. 1024), tick = 1\<rparr>"
  have wf: "wf_mem arena_empty_mem" by (simp add: wf_mem_def arena_empty_mem_def)
  have init: "d4np_arena_init (Some arena_ex) (Some d4np_allocator_default) 64 arena_empty_mem = Some (D4NP_OK, Some ?ar, ?m)"
    by (simp add: d4np_arena_init_def allocator_or_default_def d4np_alloc_def d4np_allocator_default_def
        default_alloc_def align_ok_def malloc_def placeable_def arena_empty_mem_def arena_ex_def ADDR_LIMIT_def MAX_ALIGN_def)
  show ?thesis
    using arena_lifecycle [OF default_allocator.allocator_contract_axioms wf _ init,
        of "[(8, 8)]" "fst (arena_allocs (d4np_arena_reset (Some ?ar)) [(8, 8)])"
        "snd (arena_allocs (d4np_arena_reset (Some ?ar)) [(8, 8)])"] init
    by (fastforce simp del: arena_allocs.simps)
qed

end
