(* ===== verification/Pool.thy ===== *)
theory Pool
  imports Allocator
begin

text \<open>
  The fixed-block pool (\<open>mem/pool.h\<close>, \<open>mem/pool.c\<close>). The free list is intrusive:
  its links are stored as pointers in the first bytes of each free slot of the memory model,
  so writes of a client into a slot it owns are writes next to the links. The debug assertions
  of \<open>d4np_pool_free\<close> are part of the model; a violated one is \<open>None\<close>.
\<close>

section \<open>Definitions\<close>

record d4np_pool =
  pl_allocator :: "d4np_allocator option"
  pl_base :: ptr
  pl_free_list :: ptr
  pl_stride :: size_t
  pl_block_count :: size_t
  pl_total_size :: size_t
  pl_free_count :: size_t

definition pool_round_up :: "size_t \<Rightarrow> size_t \<Rightarrow> size_t" where
  "pool_round_up value multiple = (value + (multiple - 1)) AND NOT (multiple - 1)"

text \<open>The loop of \<open>d4np_pool_init\<close>: the counter \<open>i\<close> runs down from \<open>block_count\<close>.\<close>

fun pool_thread :: "ptr \<Rightarrow> size_t \<Rightarrow> nat \<Rightarrow> ptr \<Rightarrow> mem \<Rightarrow> (ptr \<times> mem) option" where
  "pool_thread base stride 0 head m = Some (head, m)"
| "pool_thread base stride (Suc i) head m =
     do {
       let node = base + unat (of_nat i * stride);
       m1 \<leftarrow> store_ptr m node head;
       pool_thread base stride i node m1
     }"

definition d4np_pool_init ::
  "d4np_pool option \<Rightarrow> d4np_allocator option \<Rightarrow> size_t \<Rightarrow> size_t \<Rightarrow> mem \<Rightarrow> (d4np_status \<times> d4np_pool option \<times> mem) option" where
  "d4np_pool_init pool allocator block_size block_count m =
     (case pool of
        None \<Rightarrow> Some (D4NP_ERR_INVALID_ARGUMENT, None, m)
      | Some pl \<Rightarrow>
          if block_size = 0 \<or> block_count = 0 then Some (D4NP_ERR_INVALID_ARGUMENT, Some pl, m)
          else (let al = Some (allocator_or_default allocator);
                    align = MAX_ALIGN;
                    slot = (if block_size < SIZEOF_PTR then SIZEOF_PTR else block_size);
                    stride = pool_round_up slot align
                in if stride < slot then Some (D4NP_ERR_OVERFLOW, Some pl, m)
                   else if stride \<noteq> 0 \<and> SIZE_MAX div stride < block_count then Some (D4NP_ERR_OVERFLOW, Some pl, m)
                   else do {
                     let total = stride * block_count;
                     (block, m1) \<leftarrow> d4np_alloc al total align m;
                     if block = NULL then Some (D4NP_ERR_OUT_OF_MEMORY, Some pl, m1)
                     else do {
                       (head, m2) \<leftarrow> pool_thread block stride (unat block_count) NULL m1;
                       Some (D4NP_OK,
                         Some (pl\<lparr>pl_allocator := al, pl_base := block, pl_free_list := head, pl_stride := stride,
                                  pl_block_count := block_count, pl_total_size := total,
                                  pl_free_count := block_count\<rparr>), m2)
                     }
                   }))"

definition d4np_pool_alloc :: "d4np_pool option \<Rightarrow> mem \<Rightarrow> (ptr \<times> d4np_pool option) option" where
  "d4np_pool_alloc pool m =
     (case pool of
        None \<Rightarrow> Some (NULL, None)
      | Some pl \<Rightarrow>
          if pl_free_list pl = NULL then Some (NULL, Some pl)
          else do {
            let node = pl_free_list pl;
            nxt \<leftarrow> load_ptr m node;
            Some (node, Some (pl\<lparr>pl_free_list := nxt, pl_free_count := pl_free_count pl - 1\<rparr>))
          })"

definition d4np_pool_free :: "d4np_pool option \<Rightarrow> ptr \<Rightarrow> mem \<Rightarrow> (d4np_pool option \<times> mem) option" where
  "d4np_pool_free pool p m =
     (case pool of
        None \<Rightarrow> Some (None, m)
      | Some pl \<Rightarrow>
          if p = NULL then Some (Some pl, m)
          else if \<not> (pl_base pl \<le> p \<and> p < pl_base pl + unat (pl_total_size pl) \<and> pl_stride pl \<noteq> 0 \<and>
                     (p - pl_base pl) mod unat (pl_stride pl) = 0) then None
          else do {
            m1 \<leftarrow> store_ptr m p (pl_free_list pl);
            Some (Some (pl\<lparr>pl_free_list := p, pl_free_count := pl_free_count pl + 1\<rparr>), m1)
          })"

definition d4np_pool_destroy :: "d4np_pool option \<Rightarrow> mem \<Rightarrow> (d4np_pool option \<times> mem) option" where
  "d4np_pool_destroy pool m =
     (case pool of
        None \<Rightarrow> Some (None, m)
      | Some pl \<Rightarrow>
          if pl_base pl = NULL then Some (Some pl, m)
          else do {
            m1 \<leftarrow> d4np_free (pl_allocator pl) (pl_base pl) (pl_total_size pl) m;
            Some (Some (pl\<lparr>pl_allocator := None, pl_base := NULL, pl_free_list := NULL, pl_stride := 0,
                           pl_block_count := 0, pl_total_size := 0, pl_free_count := 0\<rparr>), m1)
          })"

definition d4np_pool_available :: "d4np_pool option \<Rightarrow> size_t" where
  "d4np_pool_available pool = (case pool of None \<Rightarrow> 0 | Some pl \<Rightarrow> pl_free_count pl)"

section \<open>Invariant\<close>

text \<open>The links in memory from \<open>p\<close> spell the address list, ending in NULL.\<close>

fun flist :: "mem \<Rightarrow> ptr \<Rightarrow> ptr list \<Rightarrow> bool" where
  "flist m p [] = (p = NULL)"
| "flist m p (x # xs) = (p = x \<and> x \<noteq> NULL \<and> (case load_ptr m x of None \<Rightarrow> False | Some q \<Rightarrow> flist m q xs))"

definition pool_slot :: "d4np_pool \<Rightarrow> nat \<Rightarrow> ptr" where
  "pool_slot pl i = pl_base pl + i * unat (pl_stride pl)"

definition pool_slots :: "d4np_pool \<Rightarrow> ptr set" where
  "pool_slots pl = pool_slot pl ` {..<unat (pl_block_count pl)}"

text \<open>\<open>pool_inv pl m fs\<close>: the free list is \<open>fs\<close>, distinct slots of the block.\<close>

definition pool_inv :: "d4np_pool \<Rightarrow> mem \<Rightarrow> ptr list \<Rightarrow> bool" where
  "pool_inv pl m fs \<longleftrightarrow>
     (pl_base pl, unat (pl_total_size pl)) \<in> set (live m) \<and> aligned (pl_base pl) MAX_ALIGN \<and>
     unat (pl_total_size pl) = unat (pl_stride pl) * unat (pl_block_count pl) \<and>
     8 \<le> unat (pl_stride pl) \<and> 16 dvd unat (pl_stride pl) \<and>
     flist m (pl_free_list pl) fs \<and> distinct fs \<and> set fs \<subseteq> pool_slots pl \<and>
     length fs = unat (pl_free_count pl)"

section \<open>Slots\<close>

lemma pool_slot_range:
  assumes "pool_inv pl m fs" "p \<in> pool_slots pl"
  shows "pl_base pl \<le> p" "p + unat (pl_stride pl) \<le> pl_base pl + unat (pl_total_size pl)"
    "valid m p (unat (pl_stride pl))" "valid m p 8"
proof -
  obtain i where i: "i < unat (pl_block_count pl)" "p = pl_base pl + i * unat (pl_stride pl)"
    using assms(2) by (auto simp: pool_slots_def pool_slot_def)
  then have "Suc i * unat (pl_stride pl) \<le> unat (pl_block_count pl) * unat (pl_stride pl)"
    by (intro mult_le_mono1) simp
  then show r: "pl_base pl \<le> p" "p + unat (pl_stride pl) \<le> pl_base pl + unat (pl_total_size pl)"
    using i assms(1) by (simp_all add: pool_inv_def mult.commute)
  have blk: "(pl_base pl, unat (pl_total_size pl)) \<in> set (live m)" "8 \<le> unat (pl_stride pl)"
    using assms(1) by (auto simp: pool_inv_def)
  then show "valid m p (unat (pl_stride pl))" "valid m p 8"
    using r by (auto intro!: validI [OF blk(1)])
qed

lemma pool_slots_apart:
  assumes "p \<in> pool_slots pl" "q \<in> pool_slots pl" "p \<noteq> q"
  shows "p + unat (pl_stride pl) \<le> q \<or> q + unat (pl_stride pl) \<le> p"
proof -
  let ?s = "unat (pl_stride pl)"
  obtain i j where ij: "p = pl_base pl + i * ?s" "q = pl_base pl + j * ?s"
    using assms(1,2) by (auto simp: pool_slots_def pool_slot_def)
  have "Suc i * ?s \<le> j * ?s" if "i < j" using that by (intro mult_le_mono1) simp
  moreover have "Suc j * ?s \<le> i * ?s" if "j < i" using that by (intro mult_le_mono1) simp
  moreover have "i < j \<or> j < i" using assms(3) ij by (metis nat_neq_iff)
  ultimately show ?thesis using ij by auto
qed

lemma pool_slot_nonnull:
  assumes "wf_mem m" "pool_inv pl m fs" "p \<in> pool_slots pl"
  shows "0 < p" "p < 2 ^ 64"
proof -
  have "0 < pl_base pl" "pl_base pl + unat (pl_total_size pl) \<le> 2 ^ 63"
    using wf_block [OF assms(1), of "pl_base pl"] assms(2) by (auto simp: pool_inv_def ADDR_LIMIT_def)
  with pool_slot_range(1,2) [OF assms(2,3)] show "0 < p" "p < 2 ^ 64" by simp_all
qed

section \<open>The free list under writes\<close>

lemma flist_poke_other:
  assumes "\<And>x. x \<in> set xs \<Longrightarrow> x + 8 \<le> p \<or> p + length bs \<le> x"
  shows "flist (poke m p bs) q xs = flist m q xs"
  using assms by (induction xs arbitrary: q) (auto simp: load_ptr_poke_other split: option.splits)

lemma flist_head: "flist m p fs \<Longrightarrow> fs \<noteq> [] \<longleftrightarrow> p \<noteq> NULL"
  by (cases fs) auto

text \<open>Bytes a client writes into a slot it owns leave the pool intact.\<close>

lemma pool_inv_client_write:
  assumes inv: "pool_inv pl m fs" and p: "p \<in> pool_slots pl" "p \<notin> set fs"
    and rng: "p \<le> a" "a + length bs \<le> p + unat (pl_stride pl)"
  shows "pool_inv pl (poke m a bs) fs"
proof -
  have st: "8 \<le> unat (pl_stride pl)" "set fs \<subseteq> pool_slots pl" using inv by (auto simp: pool_inv_def)
  have "x + 8 \<le> a \<or> a + length bs \<le> x" if "x \<in> set fs" for x
    using pool_slots_apart [OF _ p(1), of x] that p(2) st rng by fastforce
  then have "flist (poke m a bs) (pl_free_list pl) fs = flist m (pl_free_list pl) fs"
    by (rule flist_poke_other)
  with inv show ?thesis by (auto simp: pool_inv_def)
qed

section \<open>Allocation and release\<close>

lemma pool_alloc_ok:
  assumes wf: "wf_mem m" and inv: "pool_inv pl m fs"
  shows "case fs of [] \<Rightarrow> d4np_pool_alloc (Some pl) m = Some (NULL, Some pl)
    | p # fs' \<Rightarrow> \<exists>pl'. d4np_pool_alloc (Some pl) m = Some (p, Some pl') \<and> pool_inv pl' m fs' \<and>
        pl_base pl' = pl_base pl \<and> pl_stride pl' = pl_stride pl \<and> pl_block_count pl' = pl_block_count pl"
proof (cases fs)
  case Nil
  then show ?thesis using inv by (simp add: pool_inv_def d4np_pool_alloc_def)
next
  case (Cons p fs')
  have fl: "pl_free_list pl = p" "p \<noteq> NULL" "length fs = unat (pl_free_count pl)"
    using inv Cons by (auto simp: pool_inv_def)
  obtain q where q: "load_ptr m p = Some q" "flist m q fs'"
    using inv Cons by (auto simp: pool_inv_def split: option.splits)
  let ?pl = "pl\<lparr>pl_free_list := q, pl_free_count := pl_free_count pl - 1\<rparr>"
  have "unat (pl_free_count pl - 1) = length fs'"
    using fl(3) Cons unat_sub_exact [of 1 "pl_free_count pl"] by (simp add: word_le_nat_alt)
  then have "pool_inv ?pl m fs'"
    using inv Cons q by (auto simp: pool_inv_def pool_slots_def pool_slot_def)
  then show ?thesis using Cons fl q by (simp add: d4np_pool_alloc_def)
qed

lemma pool_slots_finite: "finite (pool_slots pl)" "card (pool_slots pl) \<le> unat (pl_block_count pl)"
  unfolding pool_slots_def by (simp, metis card_image_le card_lessThan finite_lessThan)

lemma pool_free_ok:
  assumes wf: "wf_mem m" and inv: "pool_inv pl m fs" and p: "p \<in> pool_slots pl" "p \<notin> set fs"
  shows "\<exists>pl' m'. d4np_pool_free (Some pl) p m = Some (Some pl', m') \<and> wf_mem m' \<and> pool_inv pl' m' (p # fs) \<and>
    pl_base pl' = pl_base pl \<and> pl_stride pl' = pl_stride pl \<and> pl_block_count pl' = pl_block_count pl \<and>
    m' = poke m p (le_bytes (of_nat (pl_free_list pl)))"
proof -
  let ?m' = "poke m p (le_bytes (of_nat (pl_free_list pl)))"
  let ?pl = "pl\<lparr>pl_free_list := p, pl_free_count := pl_free_count pl + 1\<rparr>"
  note r = pool_slot_range [OF inv p(1)] and nn = pool_slot_nonnull [OF wf inv p(1)]
  have st: "8 \<le> unat (pl_stride pl)" "flist m (pl_free_list pl) fs" "set fs \<subseteq> pool_slots pl" "distinct fs"
      "length fs = unat (pl_free_count pl)"
    using inv by (auto simp: pool_inv_def)
  obtain i where "p = pl_base pl + i * unat (pl_stride pl)" using p(1) by (auto simp: pool_slots_def pool_slot_def)
  then have guard: "(p - pl_base pl) mod unat (pl_stride pl) = 0" by simp
  have "pl_stride pl \<noteq> 0" using st(1) by auto
  then have eq: "d4np_pool_free (Some pl) p m = Some (Some ?pl, ?m')"
    using r nn guard st(1) by (simp add: d4np_pool_free_def store_ptr_Some)
  have fl64: "pl_free_list pl < 2 ^ 64"
    using st(2,3) pool_slot_nonnull(2) [OF wf inv] by (cases fs) auto
  have "pool_inv pl ?m' fs"
    using pool_inv_client_write [OF inv p, of p "le_bytes (of_nat (pl_free_list pl))"] st(1) by simp
  then have fl: "flist ?m' (pl_free_list pl) fs" and rest: "pool_inv pl ?m' fs" by (auto simp: pool_inv_def)
  have ld: "load_ptr ?m' p = Some (pl_free_list pl)" using load_ptr_poke_same [OF r(4) fl64] .
  have "length (p # fs) \<le> unat (pl_block_count pl)"
    using card_mono [OF pool_slots_finite(1), of "set (p # fs)" pl] st(3,4) p pool_slots_finite(2) [of pl]
    by (simp add: distinct_card)
  then have "unat (pl_free_count pl + 1) = length (p # fs)"
    using st(5) unat_bound64 [of "pl_block_count pl"] unat_add_exact [of "pl_free_count pl" 1] by simp
  then have "pool_inv ?pl ?m' (p # fs)"
    using rest fl ld nn p st(4) by (auto simp: pool_inv_def pool_slots_def pool_slot_def)
  with eq wf show ?thesis by simp
qed

section \<open>Initialisation\<close>

text \<open>Slot \<open>n\<close> of a block of slots: its address does not wrap, and it ends before the next one.\<close>

lemma pool_slot_addr:
  assumes "wf_mem m" "(base, unat stride * cnt) \<in> set (live m)" "8 \<le> unat (stride :: size_t)" "n < cnt"
  shows "base + unat (of_nat n * stride) = base + n * unat stride" "n * unat stride + unat stride \<le> unat stride * cnt"
    "0 < base" "base + n * unat stride < 2 ^ 64"
proof -
  have b: "0 < base" "base + unat stride * cnt \<le> 2 ^ 63" using wf_block [OF assms(1,2)] by (auto simp: ADDR_LIMIT_def)
  have "Suc n * unat stride \<le> cnt * unat stride" using assms(4) by (intro mult_le_mono1) simp
  then show r: "n * unat stride + unat stride \<le> unat stride * cnt" by (simp add: mult.commute)
  have s: "n * unat stride < 2 ^ 64" using r b by simp
  have "n \<le> n * unat stride" using assms(3) by simp
  with s have "n < 2 ^ 64" by linarith
  then have "unat (of_nat n :: size_t) = n" by (simp add: unsigned_of_nat take_bit_nat_eq_self)
  then show "base + unat (of_nat n * stride) = base + n * unat stride" using unat_mult_exact [of "of_nat n" stride] s by simp
  show "0 < base" "base + n * unat stride < 2 ^ 64" using b r by simp_all
qed

lemma pool_thread_ok:
  fixes stride :: size_t and cnt base :: nat
  defines "slot \<equiv> \<lambda>i. base + i * unat stride"
  assumes "wf_mem m" "(base, unat stride * cnt) \<in> set (live m)" "8 \<le> unat stride" "n \<le> cnt"
    "flist m head (map slot [n..<cnt])"
  shows "\<exists>head' m'. pool_thread base stride n head m = Some (head', m') \<and> wf_mem m' \<and> live m' = live m \<and>
    keeps (set (live m) - {(base, unat stride * cnt)}) m m' \<and> flist m' head' (map slot [0..<cnt])"
  using assms(2,3,5,6)
proof (induction n arbitrary: head m)
  case 0
  then show ?case by auto
next
  case (Suc n)
  let ?s = "unat stride"
  let ?m1 = "poke m (slot n) (le_bytes (of_nat head))"
  have n: "n < cnt" using Suc.prems(3) by simp
  note sl = pool_slot_addr [OF Suc.prems(1,2) assms(4) n]
  have addr: "base + unat (of_nat n * stride) = slot n" using sl(1) by (simp add: slot_def)
  have v: "valid m (slot n) 8" using sl(2) assms(4) by (intro validI [OF Suc.prems(2)]) (auto simp: slot_def)
  have h64: "head < 2 ^ 64"
  proof (cases "Suc n < cnt")
    case True
    then have "head = slot (Suc n)" using Suc.prems(4) by (simp add: upt_rec)
    then show ?thesis using pool_slot_addr(4) [OF Suc.prems(1,2) assms(4) True] by (simp add: slot_def)
  next
    case False
    then show ?thesis using Suc.prems(4) by simp
  qed
  have apart: "x + 8 \<le> slot n \<or> slot n + length (le_bytes (of_nat head)) \<le> x" if x: "x \<in> set (map slot [Suc n..<cnt])" for x
  proof -
    obtain j where "n < j" "x = slot j" using x by (auto simp: Suc_le_eq)
    then have "Suc n * ?s \<le> j * ?s" by (intro mult_le_mono1) simp
    with \<open>x = slot j\<close> assms(4) show ?thesis by (simp add: slot_def)
  qed
  have "flist ?m1 head (map slot [Suc n..<cnt])"
    using flist_poke_other [where xs = "map slot [Suc n..<cnt]", OF apart] Suc.prems(4) by blast
  moreover have "[n..<cnt] = n # [Suc n..<cnt]" using n by (simp add: upt_rec)
  ultimately have fl: "flist ?m1 (slot n) (map slot [n..<cnt])"
    using load_ptr_poke_same [OF v h64] sl(3) by (simp add: slot_def)
  have "keeps (set (live m) - {(base, ?s * cnt)}) m ?m1"
    using sl(2) assms(4) by (intro keeps_poke [OF Suc.prems(1,2)]) (auto simp: slot_def)
  with Suc.IH [of ?m1 "slot n"] Suc.prems fl v addr show ?case
    by (fastforce simp: store_ptr_Some intro: keeps_trans)
qed

lemma pool_round_up_16:
  "pool_round_up v MAX_ALIGN =
     (if unat v + 15 < 2 ^ 64 then of_nat (round_up_nat (unat v) 16) else pool_round_up v MAX_ALIGN)"
  using unat_round_up_mask [of 4 v, THEN of_nat_unat_eq]
  by (auto simp: pool_round_up_def MAX_ALIGN_def)

lemma pool_round_up_wraps:
  assumes "2 ^ 64 \<le> unat v + 15"
  shows "pool_round_up v MAX_ALIGN = 0"
proof -
  have "unat (v + 15) = unat v + 15 - 2 ^ 64"
    using assms unat_bound64 [of v] by (simp add: unat_word_ariths mod_if)
  then have "unat (v + 15) < 16" using unat_bound64 [of v] by simp
  then have "unat ((v + 15) AND NOT (2 ^ 4 - 1)) = 0"
    unfolding unat_and_not_pow2_mask by simp
  then show ?thesis by (simp add: pool_round_up_def MAX_ALIGN_def unat_eq_zero)
qed

text \<open>The stride the code computes, in unbounded arithmetic.\<close>

definition pool_stride_nat :: "size_t \<Rightarrow> nat" where
  "pool_stride_nat block_size = round_up_nat (max 8 (unat block_size)) 16"

lemma pool_stride_ok:
  assumes "slot = (if bs < SIZEOF_PTR then SIZEOF_PTR else bs)"
  shows "pool_round_up slot MAX_ALIGN < slot \<longleftrightarrow> 2 ^ 64 \<le> unat slot + 15"
    "unat slot + 15 < 2 ^ 64 \<Longrightarrow> unat (pool_round_up slot MAX_ALIGN) = pool_stride_nat bs"
proof -
  have us: "unat slot = max 8 (unat bs)" using assms by (simp add: word_less_nat_alt max_def)
  show st: "unat (pool_round_up slot MAX_ALIGN) = pool_stride_nat bs" if "unat slot + 15 < 2 ^ 64"
    using unat_round_up_mask [of 4 slot] that us
    by (simp add: pool_round_up_def MAX_ALIGN_def pool_stride_nat_def)
  show "pool_round_up slot MAX_ALIGN < slot \<longleftrightarrow> 2 ^ 64 \<le> unat slot + 15"
  proof (cases "2 ^ 64 \<le> unat slot + 15")
    case True
    moreover have "0 < slot" using us by (metis unat_pos_iff word_gt_0 zero_less_numeral max.strict_coboundedI1)
    ultimately show ?thesis using pool_round_up_wraps [of slot] by simp
  next
    case False
    then have "unat slot \<le> unat (pool_round_up slot MAX_ALIGN)"
      using st us round_up_nat_ge [of 16 "unat slot"] by (simp add: pool_stride_nat_def)
    with False show ?thesis by (simp add: word_less_nat_alt)
  qed
qed

context allocator_contract
begin

text \<open>A rounding that wraps around belongs to a stride that does not fit into a word.\<close>

lemma stride_wraps:
  assumes "2 ^ 64 \<le> max 8 (unat (bs :: size_t)) + 15"
  shows "2 ^ 64 \<le> pool_stride_nat bs"
proof -
  have "16 dvd pool_stride_nat bs" by (simp only: pool_stride_nat_def round_up_nat_dvd)
  then obtain k where k: "pool_stride_nat bs = 16 * k" by (auto simp: dvd_def)
  have "max 8 (unat bs) \<le> pool_stride_nat bs" by (simp only: pool_stride_nat_def round_up_nat_ge zero_less_numeral)
  then have "(2::nat) ^ 64 - 15 \<le> 16 * k" using assms k by linarith
  then have "(2::nat) ^ 60 \<le> k" by simp
  then show ?thesis using k by simp
qed

lemma pool_init_build:
  fixes total :: size_t and pl :: d4np_pool
  assumes wf: "wf_mem m" and st: "unat st = pool_stride_nat bs" and ut: "unat total = unat st * unat cnt"
  defines "pl' \<equiv> \<lambda>p head. pl\<lparr>pl_allocator := Some A, pl_base := p, pl_free_list := head, pl_stride := st,
    pl_block_count := cnt, pl_total_size := total, pl_free_count := cnt\<rparr>"
  shows "\<exists>rc q m'. do { (block, m1) \<leftarrow> d4np_alloc (Some A) total MAX_ALIGN m;
        if block = NULL then Some (D4NP_ERR_OUT_OF_MEMORY, Some pl, m1)
        else do { (head, m2) \<leftarrow> pool_thread block st (unat cnt) NULL m1; Some (D4NP_OK, Some (pl' block head), m2) } } =
      Some (rc, Some q, m') \<and> wf_mem m' \<and> keeps (set (live m)) m m' \<and>
    (rc = D4NP_OK \<and> (\<exists>p head. q = pl' p head) \<and> pool_inv q m' (map (pool_slot q) [0..<unat cnt]) \<and>
       (pl_base q, unat (pl_total_size q)) \<notin> set (live m) \<or>
     rc = D4NP_ERR_OUT_OF_MEMORY \<and> q = pl)"
proof (cases rule: alloc_cases [OF wf pow2_MAX_ALIGN, of total])
  case (1 m')
  then show ?thesis by simp
next
  case (2 p m1)
  have dv: "16 dvd unat st" by (simp only: st pool_stride_nat_def round_up_nat_dvd)
  have "max 8 (unat bs) \<le> unat st" by (simp only: st pool_stride_nat_def round_up_nat_ge zero_less_numeral)
  then have s8: "8 \<le> unat st" by simp
  from pool_thread_ok [of m1 p st "unat cnt" "unat cnt" NULL] 2(3,5) ut s8 obtain head m2 where
    t: "pool_thread p st (unat cnt) NULL m1 = Some (head, m2)" "wf_mem m2" "live m2 = live m1"
       "keeps (set (live m1) - {(p, unat total)}) m1 m2"
       "flist m2 head (map (\<lambda>i. p + i * unat st) [0..<unat cnt])" by auto
  let ?pl = "pl' p head"
  have slots: "map (pool_slot ?pl) [0..<unat cnt] = map (\<lambda>i. p + i * unat st) [0..<unat cnt]" by (simp add: pool_slot_def pl'_def)
  have "inj_on (\<lambda>i. p + i * unat st) {0..<unat cnt}" using s8 by (auto simp: inj_on_def)
  then have di: "distinct (map (pool_slot ?pl) [0..<unat cnt])" unfolding slots by (simp add: distinct_map)
  have su: "set (map (pool_slot ?pl) [0..<unat cnt]) \<subseteq> pool_slots ?pl" by (auto simp: pool_slots_def pl'_def)
  have fl: "flist m2 head (map (pool_slot ?pl) [0..<unat cnt])" unfolding slots by (rule t(5))
  have "pool_inv ?pl m2 (map (pool_slot ?pl) [0..<unat cnt])"
    unfolding pool_inv_def using di su fl 2 t(1-4) ut s8 dv by (simp add: pl'_def)
  moreover have "keeps (set (live m)) m m2"
    using 2(4,6) keeps_mono [OF t(4)] by (intro keeps_trans [OF 2(4)]) (auto dest: keeps_live)
  moreover have "(pl_base ?pl, unat (pl_total_size ?pl)) \<notin> set (live m)" using 2 by (simp add: pl'_def)
  ultimately show ?thesis using 2 t by (intro exI [of _ D4NP_OK] exI [of _ ?pl] exI [of _ m2]) auto
qed

lemma pool_init_ok:
  assumes "wf_mem m" "bs \<noteq> 0" "cnt \<noteq> 0"
  shows "\<exists>rc pl' m'. d4np_pool_init (Some pl) (Some A) bs cnt m = Some (rc, Some pl', m') \<and> wf_mem m' \<and>
    keeps (set (live m)) m m' \<and>
    (rc = D4NP_OK \<and> unat (pl_stride pl') = pool_stride_nat bs \<and> pl_block_count pl' = cnt \<and>
       pool_inv pl' m' (map (pool_slot pl') [0..<unat cnt]) \<and> pl_allocator pl' = Some A \<and>
       (pl_base pl', unat (pl_total_size pl')) \<notin> set (live m) \<or>
     rc = D4NP_ERR_OUT_OF_MEMORY \<and> pl' = pl \<or>
     rc = D4NP_ERR_OVERFLOW \<and> pl' = pl \<and> 2 ^ 64 \<le> pool_stride_nat bs * unat cnt)"
proof -
  define slot where "slot = (if bs < SIZEOF_PTR then SIZEOF_PTR else bs)"
  define st where "st = pool_round_up slot MAX_ALIGN"
  define total where "total = st * cnt"
  note defs = slot_def [symmetric] st_def [symmetric] total_def [symmetric]
  note stride = pool_stride_ok [OF slot_def, unfolded defs]
  have us: "unat slot = max 8 (unat bs)" by (simp add: slot_def word_less_nat_alt max_def)
  have big: "max 8 (unat bs) \<le> pool_stride_nat bs" by (simp only: pool_stride_nat_def round_up_nat_ge zero_less_numeral)
  consider (wrap) "2 ^ 64 \<le> unat slot + 15" | (over) "unat slot + 15 < 2 ^ 64" "SIZE_MAX div st < cnt"
    | (go) "unat slot + 15 < 2 ^ 64" "cnt \<le> SIZE_MAX div st" by force
  then show ?thesis
  proof cases
    case wrap
    then have "2 ^ 64 \<le> pool_stride_nat bs" using stride_wraps us by simp
    moreover have "1 \<le> unat cnt" using assms(3) by (simp add: Suc_le_eq unat_pos_iff)
    ultimately have "2 ^ 64 \<le> pool_stride_nat bs * unat cnt" by (metis le_trans mult_le_mono2 mult.right_neutral)
    with wrap stride(1) assms show ?thesis by (auto simp: d4np_pool_init_def Let_def defs)
  next
    case over
    have s0: "st \<noteq> 0" using stride(2) [OF over(1)] big by auto
    have "\<not> unat cnt * unat st < 2 ^ 64" using over(2) size_mult_guard [OF s0, of cnt] by (metis not_le)
    then have "2 ^ 64 \<le> pool_stride_nat bs * unat cnt" using stride(2) [OF over(1)] by (simp add: mult.commute)
    with over stride(1) s0 assms show ?thesis by (auto simp: d4np_pool_init_def Let_def defs)
  next
    case go
    have s0: "st \<noteq> 0" using stride(2) [OF go(1)] big by auto
    have ut: "unat total = unat st * unat cnt"
      using go(2) size_mult_guard [OF s0, of cnt] unfolding total_def by (intro unat_mult_exact) (simp add: mult.commute)
    have "\<not> st < slot" "\<not> SIZE_MAX div st < cnt" using go stride(1) by (auto simp: not_less)
    then have red: "d4np_pool_init (Some pl) (Some A) bs cnt m =
      do { (block, m1) \<leftarrow> d4np_alloc (Some A) total MAX_ALIGN m;
           if block = NULL then Some (D4NP_ERR_OUT_OF_MEMORY, Some pl, m1)
           else do { (head, m2) \<leftarrow> pool_thread block st (unat cnt) NULL m1;
             Some (D4NP_OK, Some (pl\<lparr>pl_allocator := Some A, pl_base := block, pl_free_list := head, pl_stride := st,
               pl_block_count := cnt, pl_total_size := total, pl_free_count := cnt\<rparr>), m2) } }"
      using assms unfolding d4np_pool_init_def Let_def defs allocator_or_default_simps by simp
    from pool_init_build [OF assms(1) stride(2) [OF go(1)] ut, of pl] show ?thesis unfolding red using stride(2) [OF go(1)] by fastforce
  qed
qed

end

lemma pool_alloc_slot:
  assumes "wf_mem m" "pool_inv pl m (p # fs)"
  shows "p \<noteq> NULL" "valid m p (unat (pl_stride pl))" "aligned p MAX_ALIGN" "p \<in> pool_slots pl"
proof -
  show p: "p \<in> pool_slots pl" using assms(2) by (auto simp: pool_inv_def)
  show "p \<noteq> NULL" using pool_slot_nonnull(1) [OF assms p] by simp
  show "valid m p (unat (pl_stride pl))" by (rule pool_slot_range(3) [OF assms(2) p])
  obtain i where "p = pl_base pl + i * unat (pl_stride pl)" using p by (auto simp: pool_slots_def pool_slot_def)
  then show "aligned p MAX_ALIGN" using assms(2) by (auto simp: pool_inv_def aligned_def)
qed

text \<open>A run of \<open>n\<close> allocations.\<close>

fun pool_allocs :: "nat \<Rightarrow> d4np_pool option \<Rightarrow> mem \<Rightarrow> (ptr list \<times> d4np_pool option) option" where
  "pool_allocs 0 pool m = Some ([], pool)"
| "pool_allocs (Suc n) pool m =
     do { (p, pool1) \<leftarrow> d4np_pool_alloc pool m; (ps, pool2) \<leftarrow> pool_allocs n pool1 m; Some (p # ps, pool2) }"

lemma pool_allocs_ok:
  assumes "wf_mem m" "pool_inv pl m (ps @ fs)"
  shows "\<exists>pl'. pool_allocs (length ps) (Some pl) m = Some (ps, Some pl') \<and> pool_inv pl' m fs \<and>
    pl_stride pl' = pl_stride pl \<and> pl_base pl' = pl_base pl \<and> pl_block_count pl' = pl_block_count pl"
  using assms(2)
proof (induction ps arbitrary: pl)
  case (Cons p ps)
  from pool_alloc_ok [OF assms(1) Cons.prems] obtain pl1 where
    1: "d4np_pool_alloc (Some pl) m = Some (p, Some pl1)" "pool_inv pl1 m (ps @ fs)"
      "pl_base pl1 = pl_base pl" "pl_stride pl1 = pl_stride pl" "pl_block_count pl1 = pl_block_count pl" by auto
  from Cons.IH [OF 1(2)] 1 show ?case by auto
qed simp

section \<open>Properties\<close>

text \<open>C21: for every allocator that keeps the contract, a pool initialised for
  \<open>cnt\<close> blocks hands out, from a fresh pool, exactly \<open>cnt\<close> pairwise distinct slots of
  the block, each of them large enough, accessible, max-aligned and at least a stride away from
  the others, and the next request returns NULL; initialisation fails only for lack of memory or
  because the total size does not fit in \<open>size_t\<close>.\<close>

theorem pool_hands_out_every_block:
  assumes "allocator_contract A" "wf_mem m" "bs \<noteq> 0" "cnt \<noteq> 0"
    "d4np_pool_init (Some pl) (Some A) bs cnt m = Some (rc, pool, m')"
  shows "rc = D4NP_OK \<and> (\<exists>ps pl' pl''. pool = Some pl' \<and>
      pool_allocs (unat cnt) pool m' = Some (ps, Some pl'') \<and> length ps = unat cnt \<and> distinct ps \<and>
      (\<forall>p \<in> set ps. p \<noteq> NULL \<and> valid m' p (unat (pl_stride pl')) \<and> aligned p MAX_ALIGN) \<and>
      unat bs \<le> unat (pl_stride pl') \<and>
      (\<forall>p \<in> set ps. \<forall>q \<in> set ps. p \<noteq> q \<longrightarrow> p + unat (pl_stride pl') \<le> q \<or> q + unat (pl_stride pl') \<le> p) \<and>
      d4np_pool_alloc (Some pl'') m' = Some (NULL, Some pl'')) \<or>
    rc = D4NP_ERR_OUT_OF_MEMORY \<and> pool = Some pl \<or>
    rc = D4NP_ERR_OVERFLOW \<and> pool = Some pl \<and> 2 ^ 64 \<le> pool_stride_nat bs * unat cnt"
proof (cases "rc = D4NP_OK")
  case False
  with allocator_contract.pool_init_ok [OF assms(1-4), of pl] assms(5) show ?thesis by auto
next
  case True
  from allocator_contract.pool_init_ok [OF assms(1-4), of pl] assms(5) True obtain pl' where
    i: "pool = Some pl'" "wf_mem m'" "unat (pl_stride pl') = pool_stride_nat bs" "pl_block_count pl' = cnt"
      "pool_inv pl' m' (map (pool_slot pl') [0..<unat cnt])" by auto
  let ?ps = "map (pool_slot pl') [0..<unat cnt]"
  from pool_allocs_ok [OF i(2), of pl' ?ps "[]"] i(5) obtain pl'' where
    a: "pool_allocs (unat cnt) (Some pl') m' = Some (?ps, Some pl'')" "pool_inv pl'' m' []" by auto
  have ps: "set ?ps \<subseteq> pool_slots pl'" "distinct ?ps" using i(5) by (auto simp: pool_inv_def)
  have "p \<noteq> NULL \<and> valid m' p (unat (pl_stride pl')) \<and> aligned p MAX_ALIGN" if "p \<in> set ?ps" for p
  proof -
    have p: "p \<in> pool_slots pl'" using that ps by auto
    obtain i where "p = pl_base pl' + i * unat (pl_stride pl')" using p by (auto simp: pool_slots_def pool_slot_def)
    then have "aligned p MAX_ALIGN" using i(5) by (auto simp: pool_inv_def aligned_def)
    with pool_slot_nonnull(1) [OF i(2,5) p] pool_slot_range(3) [OF i(5) p] show ?thesis by simp
  qed
  moreover have "unat bs \<le> unat (pl_stride pl')"
    using i(3) round_up_nat_ge [of 16 "max 8 (unat bs)"] by (simp add: pool_stride_nat_def)
  moreover have "p + unat (pl_stride pl') \<le> q \<or> q + unat (pl_stride pl') \<le> p"
    if "p \<in> set ?ps" "q \<in> set ?ps" "p \<noteq> q" for p q
    using pool_slots_apart [of p pl' q] that ps by auto
  moreover have "d4np_pool_alloc (Some pl'') m' = Some (NULL, Some pl'')"
    using pool_alloc_ok [OF i(2) a(2)] by simp
  ultimately show ?thesis using True i(1) a(1) ps(2) by auto
qed

definition pool_ex_mem :: mem where
  "pool_ex_mem = \<lparr>bytes = (\<lambda>_. 0), live = [], place = (\<lambda>_. 1024), tick = 0\<rparr>"

definition pool_ex :: d4np_pool where
  "pool_ex = \<lparr>pl_allocator = None, pl_base = NULL, pl_free_list = NULL, pl_stride = 0, pl_block_count = 0,
     pl_total_size = 0, pl_free_count = 0\<rparr>"

lemma pool_ex_wf: "wf_mem pool_ex_mem"
  by (simp add: wf_mem_def pool_ex_mem_def)

theorem pool_hands_out_every_block_witness:
  "\<exists>rc pool m'. d4np_pool_init (Some pool_ex) (Some d4np_allocator_default) 24 3 pool_ex_mem = Some (rc, pool, m') \<and>
     (rc = D4NP_OK \<longrightarrow> (\<exists>ps pl''. pool_allocs 3 pool m' = Some (ps, Some pl'') \<and> distinct ps \<and> length ps = 3))"
proof -
  from default_allocator.pool_init_ok [OF pool_ex_wf, of 24 3 pool_ex] obtain rc pl' m' where
    r: "d4np_pool_init (Some pool_ex) (Some d4np_allocator_default) 24 3 pool_ex_mem = Some (rc, Some pl', m')" by auto
  show ?thesis
    using pool_hands_out_every_block [OF default_allocator.allocator_contract_axioms pool_ex_wf _ _ r] r by auto
qed

text \<open>Allocating from a well-formed pool pops the head of the free list (NULL exactly when
  it is empty), and returning a slot that is not free pushes it back; both keep the free list a
  list of distinct slots in step with \<open>free_count\<close>, and a slot that is freed is the next one
  handed out.\<close>

theorem pool_free_then_alloc:
  assumes "wf_mem m" "pool_inv pl m fs" "p \<in> pool_slots pl" "p \<notin> set fs"
  shows "\<exists>pl1 m1 pl2. d4np_pool_free (Some pl) p m = Some (Some pl1, m1) \<and> wf_mem m1 \<and> pool_inv pl1 m1 (p # fs) \<and>
    d4np_pool_alloc (Some pl1) m1 = Some (p, Some pl2) \<and> pool_inv pl2 m1 fs \<and> pl2 = pl"
proof -
  from pool_free_ok [OF assms] obtain pl1 m1 where
    f: "d4np_pool_free (Some pl) p m = Some (Some pl1, m1)" "wf_mem m1" "pool_inv pl1 m1 (p # fs)"
      "m1 = poke m p (le_bytes (of_nat (pl_free_list pl)))" by auto
  from pool_alloc_ok [OF f(2,3)] obtain pl2 where
    a: "d4np_pool_alloc (Some pl1) m1 = Some (p, Some pl2)" "pool_inv pl2 m1 fs" by auto
  have pl1: "pl1 = pl\<lparr>pl_free_list := p, pl_free_count := pl_free_count pl + 1\<rparr>"
    using f(1) pool_slot_nonnull(1) [OF assms(1-3)]
    by (auto simp: d4np_pool_free_def bind_eq_Some_conv split: if_splits)
  have nn: "p \<noteq> NULL" using pool_slot_nonnull(1) [OF assms(1-3)] by simp
  have "pl_free_list pl < 2 ^ 64"
  proof (cases fs)
    case (Cons q qs)
    then have "pl_free_list pl \<in> pool_slots pl" using assms(2) by (auto simp: pool_inv_def)
    from pool_slot_nonnull(2) [OF assms(1,2) this] show ?thesis .
  qed (use assms(2) in \<open>simp add: pool_inv_def\<close>)
  from load_ptr_poke_same [OF pool_slot_range(4) [OF assms(2,3)] this]
  have "load_ptr m1 p = Some (pl_free_list pl)" using f(4) by simp
  then have "pl2 = pl" using a(1) nn by (simp add: d4np_pool_alloc_def pl1)
  with f a show ?thesis by blast
qed

definition pool_ex1 :: d4np_pool where
  "pool_ex1 = \<lparr>pl_allocator = None, pl_base = 1024, pl_free_list = NULL, pl_stride = 16, pl_block_count = 2,
     pl_total_size = 32, pl_free_count = 0\<rparr>"

theorem pool_free_then_alloc_witness:
  "\<exists>pl1 m1. d4np_pool_free (Some pool_ex1) 1040 (pool_ex_mem\<lparr>live := [(1024, 32)]\<rparr>) = Some (Some pl1, m1) \<and>
     d4np_pool_alloc (Some pl1) m1 = Some (1040, Some pool_ex1)"
proof -
  have "1040 \<in> pool_slots pool_ex1"
    by (auto simp: pool_slots_def pool_slot_def pool_ex1_def image_iff intro!: bexI [of _ 1])
  then show ?thesis
    using pool_free_then_alloc [of "pool_ex_mem\<lparr>live := [(1024, 32)]\<rparr>" pool_ex1 "[]" 1040]
    by (auto simp: wf_mem_def pool_ex_mem_def ADDR_LIMIT_def pool_inv_def aligned_def pool_ex1_def)
qed

end
