(* ===== verification/Vector.thy ===== *)
theory Vector
  imports Allocator
begin

text \<open>
  The generic dynamic array (\<open>ds/vector.h\<close>, \<open>ds/vector.c\<close>). Elements are
  \<open>elem_size\<close> consecutive bytes of the data block; the abstraction function
  \<open>vec_elems\<close> reads them back as a list of byte strings. Element pointers are
  addresses of the memory model, so a push from memory that is no longer live is
  undefined behaviour of the model too.
\<close>

section \<open>Definitions\<close>

record d4np_vector =
  v_allocator :: "d4np_allocator option"
  v_data :: ptr
  v_elem_size :: size_t
  v_len :: size_t
  v_capacity :: size_t

definition D4NP_VECTOR_MIN_CAPACITY :: size_t where
  "D4NP_VECTOR_MIN_CAPACITY = 8"

definition d4np_vector_reserve ::
  "d4np_vector option \<Rightarrow> size_t \<Rightarrow> mem \<Rightarrow> (d4np_status \<times> d4np_vector option \<times> mem) option" where
  "d4np_vector_reserve vec min_capacity m =
     (case vec of
        None \<Rightarrow> Some (D4NP_ERR_INVALID_ARGUMENT, None, m)
      | Some v \<Rightarrow>
          if min_capacity \<le> v_capacity v then Some (D4NP_OK, Some v, m)
          else do {
            q \<leftarrow> size_div SIZE_MAX (v_elem_size v);
            if q < min_capacity then Some (D4NP_ERR_OVERFLOW, Some v, m)
            else do {
              let new_bytes = min_capacity * v_elem_size v;
              let old_bytes = v_capacity v * v_elem_size v;
              (p, m1) \<leftarrow> d4np_realloc (v_allocator v) (v_data v) old_bytes new_bytes MAX_ALIGN m;
              if p = NULL then Some (D4NP_ERR_OUT_OF_MEMORY, Some v, m1)
              else Some (D4NP_OK, Some (v\<lparr>v_data := p, v_capacity := min_capacity\<rparr>), m1)
            }
          })"

definition d4np_vector_init ::
  "d4np_vector option \<Rightarrow> d4np_allocator option \<Rightarrow> size_t \<Rightarrow> size_t \<Rightarrow> mem \<Rightarrow>
   (d4np_status \<times> d4np_vector option \<times> mem) option" where
  "d4np_vector_init vec allocator elem_size initial_capacity m =
     (case vec of
        None \<Rightarrow> Some (D4NP_ERR_INVALID_ARGUMENT, None, m)
      | Some v \<Rightarrow>
          if elem_size = 0 then Some (D4NP_ERR_INVALID_ARGUMENT, Some v, m)
          else (let v' = v\<lparr>v_allocator := Some (allocator_or_default allocator), v_data := NULL,
                           v_elem_size := elem_size, v_len := 0, v_capacity := 0\<rparr>
                in if 0 < initial_capacity then d4np_vector_reserve (Some v') initial_capacity m
                   else Some (D4NP_OK, Some v', m)))"

definition d4np_vector_destroy :: "d4np_vector option \<Rightarrow> mem \<Rightarrow> (d4np_vector option \<times> mem) option" where
  "d4np_vector_destroy vec m =
     (case vec of
        None \<Rightarrow> Some (None, m)
      | Some v \<Rightarrow>
          if v_data v = NULL then Some (Some v, m)
          else do {
            m1 \<leftarrow> d4np_free (v_allocator v) (v_data v) (v_capacity v * v_elem_size v) m;
            Some (Some (v\<lparr>v_data := NULL, v_len := 0, v_capacity := 0\<rparr>), m1)
          })"

definition d4np_vector_push ::
  "d4np_vector option \<Rightarrow> ptr \<Rightarrow> mem \<Rightarrow> (d4np_status \<times> d4np_vector option \<times> mem) option" where
  "d4np_vector_push vec elem m =
     (case vec of
        None \<Rightarrow> Some (D4NP_ERR_INVALID_ARGUMENT, None, m)
      | Some v \<Rightarrow>
          if elem = NULL then Some (D4NP_ERR_INVALID_ARGUMENT, Some v, m)
          else do {
            (rc, vec1, m1) \<leftarrow>
              (if v_len v = v_capacity v
               then d4np_vector_reserve (Some v)
                      (if v_capacity v = 0 then D4NP_VECTOR_MIN_CAPACITY else v_capacity v * 2) m
               else Some (D4NP_OK, Some v, m));
            if rc \<noteq> D4NP_OK then Some (rc, vec1, m1)
            else do {
              v1 \<leftarrow> vec1;
              m2 \<leftarrow> memcpy m1 (v_data v1 + unat (v_len v1 * v_elem_size v1)) elem (unat (v_elem_size v1));
              Some (D4NP_OK, Some (v1\<lparr>v_len := v_len v1 + 1\<rparr>), m2)
            }
          })"

definition d4np_vector_pop ::
  "d4np_vector option \<Rightarrow> ptr \<Rightarrow> mem \<Rightarrow> (d4np_status \<times> d4np_vector option \<times> mem) option" where
  "d4np_vector_pop vec out m =
     (case vec of
        None \<Rightarrow> Some (D4NP_ERR_INVALID_ARGUMENT, None, m)
      | Some v \<Rightarrow>
          if v_len v = 0 then Some (D4NP_ERR_NOT_FOUND, Some v, m)
          else do {
            let v1 = v\<lparr>v_len := v_len v - 1\<rparr>;
            m1 \<leftarrow> (if out \<noteq> NULL
                   then memcpy m out (v_data v1 + unat (v_len v1 * v_elem_size v1)) (unat (v_elem_size v1))
                   else Some m);
            Some (D4NP_OK, Some v1, m1)
          })"

definition d4np_vector_at :: "d4np_vector option \<Rightarrow> size_t \<Rightarrow> ptr" where
  "d4np_vector_at vec index =
     (case vec of
        None \<Rightarrow> NULL
      | Some v \<Rightarrow> if v_len v \<le> index then NULL else v_data v + unat (index * v_elem_size v))"

definition d4np_vector_len :: "d4np_vector option \<Rightarrow> size_t" where
  "d4np_vector_len vec = (case vec of None \<Rightarrow> 0 | Some v \<Rightarrow> v_len v)"

definition d4np_vector_capacity :: "d4np_vector option \<Rightarrow> size_t" where
  "d4np_vector_capacity vec = (case vec of None \<Rightarrow> 0 | Some v \<Rightarrow> v_capacity v)"

definition d4np_vector_is_empty :: "d4np_vector option \<Rightarrow> bool" where
  "d4np_vector_is_empty vec = (case vec of None \<Rightarrow> True | Some v \<Rightarrow> v_len v = 0)"

definition d4np_vector_clear :: "d4np_vector option \<Rightarrow> d4np_vector option" where
  "d4np_vector_clear vec = map_option (\<lambda>v. v\<lparr>v_len := 0\<rparr>) vec"

section \<open>Invariant and abstraction\<close>

definition vblock :: "d4np_vector \<Rightarrow> ptr \<times> nat" where
  "vblock v = (v_data v, unat (v_capacity v) * unat (v_elem_size v))"

definition vec_inv :: "d4np_vector \<Rightarrow> mem \<Rightarrow> bool" where
  "vec_inv v m \<longleftrightarrow> v_elem_size v \<noteq> 0 \<and> v_len v \<le> v_capacity v \<and>
     (if v_capacity v = 0 then v_data v = NULL else vblock v \<in> set (live m))"

definition vec_elem :: "d4np_vector \<Rightarrow> mem \<Rightarrow> nat \<Rightarrow> byte list" where
  "vec_elem v m i = peek m (v_data v + i * unat (v_elem_size v)) (unat (v_elem_size v))"

definition vec_elems :: "d4np_vector \<Rightarrow> mem \<Rightarrow> byte list list" where
  "vec_elems v m = map (vec_elem v m) [0..<unat (v_len v)]"

text \<open>\<open>n\<close> bytes at \<open>p\<close> are readable and outside the block \<open>blk\<close>.\<close>

definition readable_outside :: "mem \<Rightarrow> ptr \<times> nat \<Rightarrow> ptr \<Rightarrow> nat \<Rightarrow> bool" where
  "readable_outside m blk p n = list_ex (\<lambda>(b, s). (b, s) \<noteq> blk \<and> b \<le> p \<and> p + n \<le> b + s) (live m)"

lemma readable_outsideE:
  assumes "readable_outside m blk p n"
  obtains b s where "(b, s) \<in> set (live m)" "(b, s) \<noteq> blk" "b \<le> p" "p + n \<le> b + s"
  using assms by (auto simp: readable_outside_def list_ex_iff)

lemma readable_outside_null: "wf_mem m \<Longrightarrow> readable_outside m blk p n \<Longrightarrow> p \<noteq> NULL"
  by (auto simp: readable_outside_def list_ex_iff dest: wf_block)

lemma length_vec_elems [simp]: "length (vec_elems v m) = unat (v_len v)"
  by (simp add: vec_elems_def)

lemma vec_cap_bound:
  assumes "wf_mem m" "vec_inv v m"
  shows "unat (v_capacity v) * unat (v_elem_size v) < 2 ^ 63" "unat (v_capacity v) < 2 ^ 63"
proof -
  show b: "unat (v_capacity v) * unat (v_elem_size v) < 2 ^ 63"
  proof (cases "v_capacity v = 0")
    case False
    with assms show ?thesis by (auto simp: vec_inv_def vblock_def dest: block_size_bound)
  qed simp
  have "0 < unat (v_elem_size v)" using assms(2) by (simp add: vec_inv_def unat_pos_iff)
  then have "unat (v_capacity v) \<le> unat (v_capacity v) * unat (v_elem_size v)" by simp
  with b show "unat (v_capacity v) < 2 ^ 63" by linarith
qed

lemma vec_bytes_exact:
  assumes "wf_mem m" "vec_inv v m" "unat i \<le> unat (v_capacity v)"
  shows "unat (i * v_elem_size v) = unat i * unat (v_elem_size v)"
    "unat i * unat (v_elem_size v) \<le> unat (v_capacity v) * unat (v_elem_size v)"
proof -
  show le: "unat i * unat (v_elem_size v) \<le> unat (v_capacity v) * unat (v_elem_size v)"
    using assms(3) by (rule mult_le_mono1)
  from le_less_trans [OF le vec_cap_bound(1) [OF assms(1,2)]]
  show "unat (i * v_elem_size v) = unat i * unat (v_elem_size v)"
    by (intro unat_mult_exact) simp
qed

lemma vec_owned:
  assumes "wf_mem m" "vec_inv v m"
  shows "owned m (v_data v) (v_capacity v * v_elem_size v)"
  using assms vec_bytes_exact(1) [OF assms, of "v_capacity v"]
  by (auto simp: owned_def vec_inv_def vblock_def split: if_splits)

text \<open>Slot \<open>i\<close> lies in the block when \<open>i\<close> is below the capacity.\<close>

lemma vec_slot_range:
  fixes i c e :: nat
  assumes "i < c"
  shows "i * e + e \<le> c * e"
proof -
  have "Suc i * e \<le> c * e" using assms by (intro mult_le_mono1) simp
  then show ?thesis by simp
qed

lemma vec_elems_keep:
  assumes "wf_mem m" "vec_inv v m" "vec_inv v m'" "keeps {vblock v} m m' \<or> v_capacity v = 0"
  shows "vec_elems v m' = vec_elems v m"
proof (cases "v_capacity v = 0")
  case True
  then have "v_len v = 0" using assms(2) by (simp add: vec_inv_def)
  then show ?thesis by (simp add: vec_elems_def)
next
  case False
  have "vec_elem v m' i = vec_elem v m i" if "i < unat (v_len v)" for i
  proof -
    have "i < unat (v_capacity v)" using that assms(2) by (simp add: vec_inv_def word_le_nat_alt)
    from vec_slot_range [OF this, of "unat (v_elem_size v)"] assms(4) False show ?thesis
      unfolding vec_elem_def by (intro keeps_peek [where b = "v_data v" and B = "{vblock v}"
          and s = "unat (v_capacity v) * unat (v_elem_size v)"]) (auto simp: vblock_def)
  qed
  then show ?thesis by (simp add: vec_elems_def)
qed

text \<open>The elements in a block of another size at another place, into which the old block has been copied.\<close>

lemma vec_elems_moved:
  assumes "vec_inv v m" "peek m' q (unat (v_capacity v) * unat (v_elem_size v)) = peek m (v_data v) (unat (v_capacity v) * unat (v_elem_size v))"
  shows "vec_elems (v\<lparr>v_data := q, v_capacity := n\<rparr>) m' = vec_elems v m"
proof -
  let ?v = "v\<lparr>v_data := q, v_capacity := n\<rparr>"
  have "vec_elem ?v m' i = vec_elem v m i" if "i < unat (v_len v)" for i
  proof -
    have "i < unat (v_capacity v)" using that assms(1) by (simp add: vec_inv_def word_le_nat_alt)
    from vec_slot_range [OF this, of "unat (v_elem_size v)"] assms(2) show ?thesis by (auto simp: vec_elem_def peek_eq_iff add.assoc)
  qed
  then show ?thesis by (simp add: vec_elems_def)
qed

text \<open>The sizes of a larger block, in bytes.\<close>

lemma vec_grown_bytes:
  assumes "wf_mem m" "vec_inv v m" "v_capacity v < n" "n \<le> SIZE_MAX div v_elem_size v"
  shows "unat (n * v_elem_size v) = unat n * unat (v_elem_size v)" "n * v_elem_size v \<noteq> 0"
    "unat (v_capacity v * v_elem_size v) \<le> unat (n * v_elem_size v)"
proof -
  have e: "v_elem_size v \<noteq> 0" using assms(2) by (simp add: vec_inv_def)
  have cn: "unat (v_capacity v) < unat n" using assms(3) by (simp add: word_less_nat_alt)
  show nb: "unat (n * v_elem_size v) = unat n * unat (v_elem_size v)" using size_mult_guard [OF e] assms(4) by (intro unat_mult_exact) simp
  have "0 < unat n" using cn by simp
  then have "0 < unat n * unat (v_elem_size v)" using e by (simp add: unat_pos_iff)
  then show "n * v_elem_size v \<noteq> 0" using nb by (metis unat_pos_iff)
  show "unat (v_capacity v * v_elem_size v) \<le> unat (n * v_elem_size v)" using nb cn vec_bytes_exact(1) [OF assms(1,2), of "v_capacity v"] by simp
qed

text \<open>Copying an element that lies in another block into the first free slot.\<close>

lemma vec_append_ok:
  fixes v :: d4np_vector and x :: ptr and m :: mem
  defines "i \<equiv> unat (v_len v)" and "n \<equiv> unat (v_elem_size v)"
  defines "m' \<equiv> poke m (v_data v + i * n) (peek m x n)" and "v' \<equiv> v\<lparr>v_len := v_len v + 1\<rparr>"
  assumes "wf_mem m" "vec_inv v m" "v_len v < v_capacity v" "(b, s) \<in> set (live m)" "(b, s) \<noteq> vblock v" "b \<le> x" "x + n \<le> b + s"
  shows "memcpy m (v_data v + unat (v_len v * v_elem_size v)) x n = Some m'" "vec_inv v' m'"
    "vec_elems v' m' = vec_elems v m @ [peek m x n]" "\<And>B. B \<subseteq> set (live m) \<Longrightarrow> vblock v \<notin> B \<Longrightarrow> keeps B m m'"
proof -
  have lt: "i < unat (v_capacity v)" using assms(7) by (simp add: i_def word_less_nat_alt)
  then have cap: "v_capacity v \<noteq> 0" by auto
  have off: "unat (v_len v * v_elem_size v) = i * n" using vec_bytes_exact(1) [OF assms(5,6), of "v_len v"] lt by (simp add: i_def n_def)
  have vb: "vblock v = (v_data v, unat (v_capacity v) * n)" by (simp add: vblock_def n_def)
  have blk: "(v_data v, unat (v_capacity v) * n) \<in> set (live m)" using assms(6) cap vb by (simp add: vec_inv_def)
  have slot: "i * n + n \<le> unat (v_capacity v) * n" by (rule vec_slot_range [OF lt])
  have vd: "valid m (v_data v + i * n) n" using slot by (intro validI [OF blk]) auto
  have "v_data v + i * n + n \<le> x \<or> x + n \<le> v_data v + i * n"
    using blocks_apart [OF assms(5) blk assms(8), of "v_data v + i * n" n x n] slot assms(9-11) vb by auto
  then show "memcpy m (v_data v + unat (v_len v * v_elem_size v)) x n = Some m'"
    unfolding off m'_def using vd assms(8,10,11) by (intro memcpy_Some) (auto intro: validI)
  have len: "unat (v_len v + 1) = Suc i" using lt unat_add_exact [of "v_len v" 1] unat_bound64 [of "v_capacity v"] by (simp add: i_def)
  show "vec_inv v' m'" using assms(6) len lt cap by (simp add: vec_inv_def vblock_def word_le_nat_alt v'_def m'_def)
  have old: "vec_elem v m' j = vec_elem v m j" if "j < i" for j
    using vec_slot_range [OF that, of n] by (simp add: vec_elem_def peek_poke_other m'_def n_def)
  have "vec_elems v' m' = map (vec_elem v m') [0..<Suc i]" using len by (simp add: vec_elems_def vec_elem_def v'_def)
  also have "\<dots> = vec_elems v m @ [peek m x n]" using old by (simp add: vec_elems_def vec_elem_def peek_poke_same m'_def i_def n_def)
  finally show "vec_elems v' m' = vec_elems v m @ [peek m x n]" .
  show "keeps B m m'" if "B \<subseteq> set (live m)" "vblock v \<notin> B" for B
    unfolding m'_def using that slot vb by (intro keeps_poke [OF assms(5) blk]) auto
qed

section \<open>Growth, for every allocator that keeps the contract\<close>

context allocator_contract
begin

lemma vector_reserve_grows:
  assumes wf: "wf_mem m" and inv: "vec_inv v m" and al: "v_allocator v = Some A"
    and grow: "v_capacity v < n" "n \<le> SIZE_MAX div v_elem_size v"
  shows "\<exists>rc v' m'. d4np_vector_reserve (Some v) n m = Some (rc, Some v', m') \<and> wf_mem m' \<and> vec_inv v' m' \<and>
    v_allocator v' = Some A \<and> v_elem_size v' = v_elem_size v \<and> v_len v' = v_len v \<and>
    vec_elems v' m' = vec_elems v m \<and> keeps (set (live m) - {vblock v}) m m' \<and>
    vblock v' \<notin> set (live m) - {vblock v} \<and>
    (rc = D4NP_OK \<and> v_capacity v' = n \<or> rc = D4NP_ERR_OUT_OF_MEMORY \<and> v' = v)"
proof -
  let ?old = "v_capacity v * v_elem_size v" and ?new = "n * v_elem_size v"
  note new = vec_grown_bytes [OF wf inv grow]
  have e: "v_elem_size v \<noteq> 0" using inv by (simp add: vec_inv_def)
  have ob: "unat ?old = unat (v_capacity v) * unat (v_elem_size v)" using vec_bytes_exact(1) [OF wf inv, of "v_capacity v"] by simp
  have red: "d4np_vector_reserve (Some v) n m =
      do { (p, m1) \<leftarrow> d4np_realloc (Some A) (v_data v) ?old ?new MAX_ALIGN m;
           if p = NULL then Some (D4NP_ERR_OUT_OF_MEMORY, Some v, m1)
           else Some (D4NP_OK, Some (v\<lparr>v_data := p, v_capacity := n\<rparr>), m1) }"
    using grow e al by (simp add: d4np_vector_reserve_def Let_def not_le [symmetric])
  show ?thesis
  proof (cases rule: realloc_cases [OF wf pow2_MAX_ALIGN new(2) vec_owned [OF wf inv]])
    case (1 m')
    have inv': "vec_inv v m'" using inv 1(3) by (auto simp: vec_inv_def dest: keeps_live split: if_splits)
    have "vec_elems v m' = vec_elems v m"
      using inv 1(3) by (intro vec_elems_keep [OF wf inv inv']) (auto simp: vec_inv_def intro: keeps_mono split: if_splits)
    with 1 inv inv' al show ?thesis by (auto simp: red intro: keeps_mono)
  next
    case (2 q m')
    have "vec_inv (v\<lparr>v_data := q, v_capacity := n\<rparr>) m'"
      using inv 2(5) new(1) grow(1) e by (auto simp: vec_inv_def vblock_def word_le_nat_alt word_less_nat_alt)
    moreover have "vec_elems (v\<lparr>v_data := q, v_capacity := n\<rparr>) m' = vec_elems v m"
      using 2(8) new(3) ob by (intro vec_elems_moved [OF inv]) (simp add: min_def)
    ultimately show ?thesis using 2 al new(1) ob by (auto simp: red vblock_def)
  qed
qed

lemma vector_reserve_ok:
  assumes wf: "wf_mem m" and inv: "vec_inv v m" and al: "v_allocator v = Some A"
  shows "\<exists>rc v' m'. d4np_vector_reserve (Some v) n m = Some (rc, Some v', m') \<and> wf_mem m' \<and> vec_inv v' m' \<and>
    v_allocator v' = Some A \<and> v_elem_size v' = v_elem_size v \<and> v_len v' = v_len v \<and>
    vec_elems v' m' = vec_elems v m \<and> keeps (set (live m) - {vblock v}) m m' \<and>
    vblock v' \<notin> set (live m) - {vblock v} \<and>
    (rc = D4NP_OK \<and> v_capacity v' = max n (v_capacity v) \<or>
     rc \<in> {D4NP_ERR_OVERFLOW, D4NP_ERR_OUT_OF_MEMORY} \<and> v' = v)"
proof -
  have e: "v_elem_size v \<noteq> 0" using inv by (simp add: vec_inv_def)
  consider (small) "n \<le> v_capacity v" | (over) "v_capacity v < n" "SIZE_MAX div v_elem_size v < n"
    | (grow) "v_capacity v < n" "n \<le> SIZE_MAX div v_elem_size v" by force
  then show ?thesis
  proof cases
    case small
    with assms show ?thesis by (auto simp: d4np_vector_reserve_def max_def)
  next
    case over
    with assms e show ?thesis by (auto simp: d4np_vector_reserve_def)
  next
    case grow
    then have "max n (v_capacity v) = n" by (simp add: max.absorb1)
    with vector_reserve_grows [OF assms grow] show ?thesis by (metis insert_iff)
  qed
qed

text \<open>The first half of \<open>push\<close>: afterwards there is a free slot, or an error.\<close>

lemma vector_room_ok:
  assumes wf: "wf_mem m" and inv: "vec_inv v m" and al: "v_allocator v = Some A"
  defines "grown \<equiv> if v_capacity v = 0 then D4NP_VECTOR_MIN_CAPACITY else v_capacity v * 2"
  obtains rc v1 m1 where
    "(if v_len v = v_capacity v then d4np_vector_reserve (Some v) grown m else Some (D4NP_OK, Some v, m)) = Some (rc, Some v1, m1)"
    "wf_mem m1" "vec_inv v1 m1" "v_allocator v1 = Some A" "v_elem_size v1 = v_elem_size v" "v_len v1 = v_len v"
    "vec_elems v1 m1 = vec_elems v m" "keeps (set (live m) - {vblock v}) m m1" "vblock v1 \<notin> set (live m) - {vblock v}"
    "rc = D4NP_OK \<and> v_len v1 < v_capacity v1 \<or> rc \<in> {D4NP_ERR_OVERFLOW, D4NP_ERR_OUT_OF_MEMORY} \<and> v1 = v"
proof (cases "v_len v = v_capacity v")
  case True
  have "v_capacity v < grown"
  proof (cases "v_capacity v = 0")
    case False
    have "unat (v_capacity v * 2) = unat (v_capacity v) * 2"
      using vec_cap_bound(2) [OF wf inv] unat_mult_exact [of "v_capacity v" 2] by simp
    with False show ?thesis by (simp add: grown_def word_less_nat_alt unat_pos_iff)
  qed (simp add: grown_def D4NP_VECTOR_MIN_CAPACITY_def)
  with vector_reserve_ok [OF wf inv al, of grown] True that show thesis by (fastforce simp: max_def)
next
  case False
  then have "v_len v < v_capacity v" using inv by (simp add: vec_inv_def order.strict_iff_order)
  with False that [of D4NP_OK v m] wf inv al show thesis by auto
qed

lemma vector_push_ok:
  assumes wf: "wf_mem m" and inv: "vec_inv v m" and al: "v_allocator v = Some A"
    and elem: "readable_outside m (vblock v) x (unat (v_elem_size v))"
  shows "\<exists>rc v' m'. d4np_vector_push (Some v) x m = Some (rc, Some v', m') \<and> wf_mem m' \<and> vec_inv v' m' \<and>
    v_allocator v' = Some A \<and> v_elem_size v' = v_elem_size v \<and> keeps (set (live m) - {vblock v}) m m' \<and>
    (rc = D4NP_OK \<and> vec_elems v' m' = vec_elems v m @ [peek m x (unat (v_elem_size v))] \<or>
     rc \<in> {D4NP_ERR_OVERFLOW, D4NP_ERR_OUT_OF_MEMORY} \<and> v' = v \<and> vec_elems v' m' = vec_elems v m)"
proof -
  let ?n = "unat (v_elem_size v)"
  have x0: "x \<noteq> NULL" by (rule readable_outside_null [OF wf elem])
  from vector_room_ok [OF wf inv al] obtain rc v1 m1 where
    st: "(if v_len v = v_capacity v then d4np_vector_reserve (Some v) (if v_capacity v = 0 then D4NP_VECTOR_MIN_CAPACITY else v_capacity v * 2) m
          else Some (D4NP_OK, Some v, m)) = Some (rc, Some v1, m1)" "wf_mem m1" "vec_inv v1 m1" "v_allocator v1 = Some A"
      "v_elem_size v1 = v_elem_size v" "v_len v1 = v_len v" "vec_elems v1 m1 = vec_elems v m"
      "keeps (set (live m) - {vblock v}) m m1" "vblock v1 \<notin> set (live m) - {vblock v}"
      "rc = D4NP_OK \<and> v_len v1 < v_capacity v1 \<or> rc \<in> {D4NP_ERR_OVERFLOW, D4NP_ERR_OUT_OF_MEMORY} \<and> v1 = v" .
  have push: "d4np_vector_push (Some v) x m =
      (if rc \<noteq> D4NP_OK then Some (rc, Some v1, m1)
       else do { m2 \<leftarrow> memcpy m1 (v_data v1 + unat (v_len v1 * v_elem_size v)) x ?n;
                 Some (D4NP_OK, Some (v1\<lparr>v_len := v_len v1 + 1\<rparr>), m2) })"
    using st(1,5) x0 by (simp add: d4np_vector_push_def)
  show ?thesis
  proof (cases "rc = D4NP_OK")
    case False
    with st push show ?thesis by auto
  next
    case True
    obtain b s where bs: "(b, s) \<in> set (live m)" "(b, s) \<noteq> vblock v" "b \<le> x" "x + ?n \<le> b + s" using elem by (rule readable_outsideE)
    have bs1: "(b, s) \<in> set (live m1)" "(b, s) \<noteq> vblock v1" using keeps_live [OF st(8)] bs(1,2) st(9) by auto
    have xs: "peek m1 x ?n = peek m x ?n" using keeps_peek [OF st(8), of b s] bs by auto
    have lt: "v_len v1 < v_capacity v1" using True st(10) by auto
    note ap = vec_append_ok [OF st(2,3) lt bs1 bs(3), unfolded st(5), OF bs(4)]
    have "keeps (set (live m) - {vblock v}) m (poke m1 (v_data v1 + unat (v_len v1) * ?n) (peek m1 x ?n))"
      using st(8,9) by (intro keeps_trans [OF st(8)] ap(4)) (auto dest: keeps_live)
    then show ?thesis using True push ap(1-3) st xs by auto
  qed
qed

lemma vector_init_ok:
  assumes "wf_mem m" "es \<noteq> 0"
  shows "\<exists>rc v' m'. d4np_vector_init (Some v) (Some A) es n m = Some (rc, Some v', m') \<and> wf_mem m' \<and>
    vec_inv v' m' \<and> vec_elems v' m' = [] \<and> v_allocator v' = Some A \<and> v_elem_size v' = es \<and>
    keeps (set (live m)) m m' \<and>
    (rc = D4NP_OK \<and> v_capacity v' = n \<or> rc \<in> {D4NP_ERR_OVERFLOW, D4NP_ERR_OUT_OF_MEMORY} \<and> v_data v' = NULL)"
proof -
  let ?v = "v\<lparr>v_allocator := Some A, v_data := NULL, v_elem_size := es, v_len := 0, v_capacity := 0\<rparr>"
  have inv: "vec_inv ?v m" and els: "vec_elems ?v m = []"
    using assms(2) by (simp_all add: vec_inv_def vec_elems_def)
  have "vblock ?v \<notin> set (live m)" using wf_block [OF assms(1), of NULL] by (auto simp: vblock_def)
  then have all: "set (live m) - {vblock ?v} = set (live m)" by simp
  show ?thesis
  proof (cases "0 < n")
    case True
    then have "d4np_vector_init (Some v) (Some A) es n m = d4np_vector_reserve (Some ?v) n m"
      using assms(2) by (simp add: d4np_vector_init_def allocator_or_default_def Let_def)
    with vector_reserve_ok [OF assms(1) inv, of n] obtain rc v' m' where
      r: "d4np_vector_init (Some v) (Some A) es n m = Some (rc, Some v', m')" "wf_mem m'" "vec_inv v' m'"
        "v_allocator v' = Some A" "v_elem_size v' = es" "vec_elems v' m' = []" "keeps (set (live m)) m m'"
        "rc = D4NP_OK \<and> v_capacity v' = n \<or> rc \<in> {D4NP_ERR_OVERFLOW, D4NP_ERR_OUT_OF_MEMORY} \<and> v' = ?v"
      using all els by (auto simp: max_def)
    have "v_data v' = NULL" if "v' = ?v" using arg_cong [OF that, of v_data] by simp
    with r show ?thesis by blast
  next
    case False
    then have "d4np_vector_init (Some v) (Some A) es n m = Some (D4NP_OK, Some ?v, m)"
      using assms(2) by (simp add: d4np_vector_init_def allocator_or_default_def Let_def)
    with False assms(1) inv els show ?thesis by (auto simp: word_gt_0)
  qed
qed

lemma vector_destroy_ok:
  assumes wf: "wf_mem m" and inv: "vec_inv v m" and al: "v_allocator v = Some A"
  shows "\<exists>v' m'. d4np_vector_destroy (Some v) m = Some (Some v', m') \<and> wf_mem m' \<and> vec_inv v' m' \<and>
    vec_elems v' m' = [] \<and> v_data v' = NULL \<and> keeps (set (live m) - {vblock v}) m m' \<and> vblock v \<notin> set (live m')"
proof (cases "v_capacity v = 0")
  case True
  then have "v_data v = NULL" "v_len v = 0" using inv by (simp_all add: vec_inv_def)
  moreover have "(0, 0) \<notin> set (live m)" using wf_block [OF wf, of 0] by auto
  ultimately show ?thesis
    using True wf inv by (auto simp: d4np_vector_destroy_def vblock_def vec_elems_def)
next
  case False
  have ob: "unat (v_capacity v * v_elem_size v) = unat (v_capacity v) * unat (v_elem_size v)"
    using vec_bytes_exact(1) [OF wf inv, of "v_capacity v"] by simp
  then have blk: "(v_data v, unat (v_capacity v * v_elem_size v)) \<in> set (live m)"
    using inv False by (simp add: vec_inv_def vblock_def)
  have "v_data v \<noteq> NULL" using wf_block [OF wf blk] by simp
  then show ?thesis
    using al inv ob by (cases rule: free_cases [OF wf blk])
      (auto simp: d4np_vector_destroy_def vblock_def vec_inv_def vec_elems_def)
qed

end

section \<open>Removal and access\<close>

lemma vec_slot_in_block:
  assumes wf: "wf_mem m" and inv: "vec_inv v m" and i: "i < unat (v_len v)"
  shows "(v_data v, unat (v_capacity v) * unat (v_elem_size v)) \<in> set (live m)"
    "i * unat (v_elem_size v) + unat (v_elem_size v) \<le> unat (v_capacity v) * unat (v_elem_size v)"
    "valid m (v_data v + i * unat (v_elem_size v)) (unat (v_elem_size v))"
proof -
  have c: "i < unat (v_capacity v)" using inv i by (simp add: vec_inv_def word_le_nat_alt)
  then have "v_capacity v \<noteq> 0" by auto
  with inv show blk: "(v_data v, unat (v_capacity v) * unat (v_elem_size v)) \<in> set (live m)"
    by (simp add: vec_inv_def vblock_def)
  show r: "i * unat (v_elem_size v) + unat (v_elem_size v) \<le> unat (v_capacity v) * unat (v_elem_size v)"
    by (rule vec_slot_range [OF c])
  then show "valid m (v_data v + i * unat (v_elem_size v)) (unat (v_elem_size v))"
    by (intro validI [OF blk]) auto
qed

lemma vector_pop_ok:
  assumes wf: "wf_mem m" and inv: "vec_inv v m" and ne: "v_len v \<noteq> 0"
    and out: "out = NULL \<or> readable_outside m (vblock v) out (unat (v_elem_size v))"
  shows "\<exists>v' m'. d4np_vector_pop (Some v) out m = Some (D4NP_OK, Some v', m') \<and> wf_mem m' \<and> vec_inv v' m' \<and>
    v_allocator v' = v_allocator v \<and> v_elem_size v' = v_elem_size v \<and>
    vec_elems v' m' = butlast (vec_elems v m) \<and>
    (out \<noteq> NULL \<longrightarrow> peek m' out (unat (v_elem_size v)) = last (vec_elems v m))"
proof -
  let ?n = "unat (v_elem_size v)" and ?v' = "v\<lparr>v_len := v_len v - 1\<rparr>"
  obtain i where i: "unat (v_len v) = Suc i" using ne by (metis not0_implies_Suc unat_eq_zero)
  have len': "unat (v_len v - 1) = i"
    using i unat_sub_exact [of 1 "v_len v"] by (simp add: word_le_nat_alt)
  note slot = vec_slot_in_block [OF wf inv, of i, unfolded i, OF lessI]
  have "i \<le> unat (v_capacity v)" using inv i by (simp add: vec_inv_def word_le_nat_alt)
  then have off: "unat ((v_len v - 1) * v_elem_size v) = i * ?n"
    using vec_bytes_exact(1) [OF wf inv, of "v_len v - 1"] len' by simp
  have els: "vec_elems v m = vec_elems ?v' m @ [vec_elem v m i]"
    using i len' by (simp add: vec_elems_def vec_elem_def)
  have inv': "vec_inv ?v' m'" if "live m' = live m" for m'
    using inv len' i that by (auto simp: vec_inv_def vblock_def word_le_nat_alt split: if_splits)
  show ?thesis
  proof (cases "out = NULL")
    case True
    with wf inv' els ne show ?thesis by (auto simp: d4np_vector_pop_def)
  next
    case False
    with out obtain b s where bs: "(b, s) \<in> set (live m)" "(b, s) \<noteq> vblock v" "b \<le> out" "out + ?n \<le> b + s"
      by (auto elim: readable_outsideE)
    let ?src = "v_data v + i * ?n" and ?m' = "poke m out (vec_elem v m i)"
    have apart: "out + ?n \<le> v_data v \<or> v_data v + unat (v_capacity v) * ?n \<le> out"
      using blocks_apart [OF wf bs(1) slot(1), of out ?n "v_data v" "unat (v_capacity v) * ?n"] bs
      by (auto simp: vblock_def)
    have cp: "memcpy m out ?src ?n = Some ?m'"
      unfolding vec_elem_def using slot apart bs by (intro memcpy_Some) (auto intro: validI)
    have "vec_elem ?v' ?m' j = vec_elem ?v' m j" if "j < i" for j
    proof -
      have "j < unat (v_capacity v)" using that \<open>i \<le> unat (v_capacity v)\<close> by simp
      from vec_slot_range [OF this, of ?n] apart show ?thesis
        by (auto simp: vec_elem_def intro!: peek_poke_other)
    qed
    then have "vec_elems ?v' ?m' = vec_elems ?v' m" using len' by (simp add: vec_elems_def)
    moreover have "peek ?m' out ?n = vec_elem v m i" by (simp add: peek_poke_same vec_elem_def)
    ultimately show ?thesis
      using False cp off ne wf inv' [of ?m'] els by (simp add: d4np_vector_pop_def Let_def)
  qed
qed

section \<open>Properties\<close>

text \<open>C4: for every allocator that keeps the contract, \<open>d4np_vector_push\<close> of an element
  stored outside the vector's own block never runs into undefined behaviour; it either appends
  exactly the element's bytes, or reports OVERFLOW or OUT_OF_MEMORY and leaves the vector and its
  elements as they were. The invariant and every other live object are kept in both cases.\<close>

theorem vector_push_appends:
  assumes "allocator_contract A" "wf_mem m" "vec_inv v m" "v_allocator v = Some A"
    "readable_outside m (vblock v) x (unat (v_elem_size v))"
  shows "\<exists>rc v' m'. d4np_vector_push (Some v) x m = Some (rc, Some v', m') \<and> wf_mem m' \<and> vec_inv v' m' \<and>
    v_allocator v' = Some A \<and> v_elem_size v' = v_elem_size v \<and> keeps (set (live m) - {vblock v}) m m' \<and>
    (rc = D4NP_OK \<and> vec_elems v' m' = vec_elems v m @ [peek m x (unat (v_elem_size v))] \<or>
     rc \<in> {D4NP_ERR_OVERFLOW, D4NP_ERR_OUT_OF_MEMORY} \<and> v' = v \<and> vec_elems v' m' = vec_elems v m)"
  using assms by (rule allocator_contract.vector_push_ok)

definition vec_ex :: d4np_vector where
  "vec_ex = \<lparr>v_allocator = Some d4np_allocator_default, v_data = NULL, v_elem_size = 2, v_len = 0, v_capacity = 0\<rparr>"

definition vec_ex_mem :: mem where
  "vec_ex_mem = \<lparr>bytes = (\<lambda>a. if a = 32 then 7 else 9), live = [(32, 8)], place = (\<lambda>_. 1024), tick = 0\<rparr>"

lemma vec_ex_ok: "wf_mem vec_ex_mem" "vec_inv vec_ex vec_ex_mem" "v_allocator vec_ex = Some d4np_allocator_default"
    "readable_outside vec_ex_mem (vblock vec_ex) 32 (unat (v_elem_size vec_ex))"
  by (simp_all add: wf_mem_def vec_ex_mem_def vec_ex_def vec_inv_def ADDR_LIMIT_def readable_outside_def vblock_def)

lemmas vec_ex_facts = default_allocator.allocator_contract_axioms vec_ex_ok

theorem vector_push_appends_witness:
  "\<exists>rc v' m'. d4np_vector_push (Some vec_ex) 32 vec_ex_mem = Some (rc, Some v', m') \<and> vec_inv v' m' \<and>
    (rc = D4NP_OK \<longrightarrow> vec_elems v' m' = [[7, 9]])"
proof -
  have "peek vec_ex_mem 32 2 = [7, 9]" "vec_elems vec_ex vec_ex_mem = []" "unat (v_elem_size vec_ex) = 2"
    by (simp_all add: peek_def vec_ex_mem_def vec_ex_def vec_elems_def upt_rec)
  with vector_push_appends [OF vec_ex_facts] show ?thesis by auto
qed

text \<open>Popping an empty vector reports NOT_FOUND and changes nothing; otherwise the last
  element is removed and, when an output buffer is given, its bytes are copied there. No access
  leaves the live objects.\<close>

theorem vector_pop_last:
  assumes "wf_mem m" "vec_inv v m" "out = NULL \<or> readable_outside m (vblock v) out (unat (v_elem_size v))"
  shows "if vec_elems v m = [] then d4np_vector_pop (Some v) out m = Some (D4NP_ERR_NOT_FOUND, Some v, m)
    else \<exists>v' m'. d4np_vector_pop (Some v) out m = Some (D4NP_OK, Some v', m') \<and> wf_mem m' \<and> vec_inv v' m' \<and>
      vec_elems v' m' = butlast (vec_elems v m) \<and>
      (out \<noteq> NULL \<longrightarrow> peek m' out (unat (v_elem_size v)) = last (vec_elems v m))"
proof (cases "v_len v = 0")
  case True
  then show ?thesis by (simp add: vec_elems_def d4np_vector_pop_def)
next
  case False
  then have "vec_elems v m \<noteq> []" by (simp add: vec_elems_def unat_eq_zero)
  with vector_pop_ok [OF assms(1,2) False assms(3)] show ?thesis by auto
qed

theorem vector_pop_last_witness:
  "d4np_vector_pop (Some vec_ex) 32 vec_ex_mem = Some (D4NP_ERR_NOT_FOUND, Some vec_ex, vec_ex_mem)"
proof -
  have "vec_elems vec_ex vec_ex_mem = []" by (simp add: vec_ex_def vec_elems_def)
  with vector_pop_last [OF vec_ex_ok(1,2), of 32] vec_ex_ok(4) show ?thesis by simp
qed

text \<open>\<open>d4np_vector_at\<close> returns NULL exactly for an index out of range; for an index in
  range the address computation does not wrap, the element is accessible there and it is the
  element of the abstract sequence.\<close>

theorem vector_at_in_range:
  assumes "wf_mem m" "vec_inv v m"
  shows "if unat i < length (vec_elems v m)
    then d4np_vector_at (Some v) i \<noteq> NULL \<and> valid m (d4np_vector_at (Some v) i) (unat (v_elem_size v)) \<and>
      peek m (d4np_vector_at (Some v) i) (unat (v_elem_size v)) = vec_elems v m ! unat i
    else d4np_vector_at (Some v) i = NULL"
proof (cases "unat i < unat (v_len v)")
  case True
  note slot = vec_slot_in_block [OF assms True]
  have "unat i \<le> unat (v_capacity v)" using True assms(2) by (simp add: vec_inv_def word_le_nat_alt)
  then have "d4np_vector_at (Some v) i = v_data v + unat i * unat (v_elem_size v)"
    using vec_bytes_exact(1) [OF assms] True by (simp add: d4np_vector_at_def word_le_nat_alt)
  moreover have "v_data v \<noteq> NULL" using wf_block [OF assms(1) slot(1)] by simp
  ultimately show ?thesis using True slot by (simp add: vec_elems_def vec_elem_def)
next
  case False
  then show ?thesis by (simp add: d4np_vector_at_def word_le_nat_alt)
qed

theorem vector_at_in_range_witness: "d4np_vector_at (Some vec_ex) 3 = NULL"
  using vector_at_in_range [OF vec_ex_ok(1,2), of 3] by (simp add: vec_elems_def vec_ex_def)

text \<open>C11: pushing an element of the vector itself (a pointer obtained from
  \<open>d4np_vector_at\<close>) is undefined behaviour when the push has to grow and the allocator
  moves the block: the bytes are read from the block that was just released.\<close>

definition vec_full :: d4np_vector where
  "vec_full = \<lparr>v_allocator = None, v_data = 512, v_elem_size = 2, v_len = 4, v_capacity = 4\<rparr>"

definition vec_full_mem :: mem where
  "vec_full_mem = \<lparr>bytes = (\<lambda>_. 0), live = [(512, 8)], place = (\<lambda>_. 1024), tick = 0\<rparr>"

theorem vector_push_own_element_undefined:
  "wf_mem vec_full_mem \<and> vec_inv vec_full vec_full_mem \<and> d4np_vector_at (Some vec_full) 0 = 512 \<and>
   d4np_vector_push (Some vec_full) (d4np_vector_at (Some vec_full) 0) vec_full_mem = None"
proof -
  have at: "d4np_vector_at (Some vec_full) 0 = 512" by (simp add: d4np_vector_at_def vec_full_def)
  have r: "d4np_vector_reserve (Some vec_full) 8 vec_full_mem =
     Some (D4NP_OK, Some (vec_full\<lparr>v_data := 1024, v_capacity := 8\<rparr>),
       poke (vec_full_mem\<lparr>tick := 1, live := [(1024, 16)]\<rparr>) 1024 (peek vec_full_mem 512 8))"
    by (simp add: d4np_vector_reserve_def vec_full_def vec_full_mem_def d4np_realloc_def allocator_or_default_def
        d4np_allocator_default_def default_realloc_def align_ok_def realloc_def placeable_def ADDR_LIMIT_def
        SIZE_MAX_def size_div_def MAX_ALIGN_def)
  have "d4np_vector_push (Some vec_full) 512 vec_full_mem = None"
    using r by (simp add: d4np_vector_push_def vec_full_def memcpy_def valid_def vec_full_mem_def)
  with at show ?thesis
    by (simp add: wf_mem_def vec_inv_def vblock_def vec_full_def vec_full_mem_def ADDR_LIMIT_def)
qed

end
