(* ===== verification/Hash.thy ===== *)
theory Hash
  imports Memory
begin

text \<open>
  FNV-1a hashing (\<open>sys/hash.h\<close>, \<open>sys/hash.c\<close>). \<open>fnv1a\<close> is the hash of a byte
  list on machine words; the C loops read their bytes from the memory. \<open>fnv1a_ref\<close> is the published algorithm on natural numbers.
\<close>

section \<open>Definitions\<close>

definition D4NP_FNV1A_OFFSET_BASIS :: uint64 where
  "D4NP_FNV1A_OFFSET_BASIS = 14695981039346656037"

definition D4NP_FNV1A_PRIME :: uint64 where
  "D4NP_FNV1A_PRIME = 1099511628211"

definition fnv_step :: "byte \<Rightarrow> uint64 \<Rightarrow> uint64" where
  "fnv_step b h = (h XOR ucast b) * D4NP_FNV1A_PRIME"

text \<open>The loop over \<open>p[i]\<close>: the pointer advances while the count runs down.\<close>

fun fnv1a_loop :: "ptr \<Rightarrow> nat \<Rightarrow> uint64 \<Rightarrow> mem \<Rightarrow> uint64 option" where
  "fnv1a_loop p 0 h m = Some h"
| "fnv1a_loop p (Suc n) h m = do { b \<leftarrow> read_byte m p; fnv1a_loop (p + 1) n (fnv_step b h) m }"

definition d4np_hash_fnv1a_continue :: "uint64 \<Rightarrow> ptr \<Rightarrow> size_t \<Rightarrow> mem \<Rightarrow> uint64 option" where
  "d4np_hash_fnv1a_continue seed data sz m =
     (if data \<noteq> NULL then fnv1a_loop data (unat sz) seed m else Some seed)"

definition d4np_hash_fnv1a :: "ptr \<Rightarrow> size_t \<Rightarrow> mem \<Rightarrow> uint64 option" where
  "d4np_hash_fnv1a data sz m = d4np_hash_fnv1a_continue D4NP_FNV1A_OFFSET_BASIS data sz m"

definition d4np_hash_fnv1a_str :: "ptr \<Rightarrow> mem \<Rightarrow> uint64 option" where
  "d4np_hash_fnv1a_str s m =
     do { n \<leftarrow> (if s \<noteq> NULL then strlen s m else Some 0); d4np_hash_fnv1a s (of_nat n) m }"

section \<open>The hash of a byte list\<close>

definition fnv1a_from :: "uint64 \<Rightarrow> byte list \<Rightarrow> uint64" where
  "fnv1a_from seed bs = fold fnv_step bs seed"

definition fnv1a :: "byte list \<Rightarrow> uint64" where
  "fnv1a bs = fnv1a_from D4NP_FNV1A_OFFSET_BASIS bs"

lemma fnv1a_loop_ok: "valid m p n \<Longrightarrow> fnv1a_loop p n h m = Some (fnv1a_from h (peek m p n))"
proof (induction n arbitrary: p h)
  case (Suc n)
  have "valid m p 1" "valid m (p + 1) n" using Suc.prems by (auto intro: valid_sub)
  with Suc.IH show ?case by (simp add: read_byte_Some peek_Suc fnv1a_from_def)
qed (simp add: fnv1a_from_def)

lemma hash_continue_ok:
  "wf_mem m \<Longrightarrow> valid m p (unat n) \<Longrightarrow> d4np_hash_fnv1a_continue seed p n m = Some (fnv1a_from seed (peek m p (unat n)))"
  using valid_nonnull by (auto simp: d4np_hash_fnv1a_continue_def fnv1a_loop_ok)

text \<open>The multiplier is odd, hence invertible: one step is injective in the running hash.\<close>

definition FNV_INV :: uint64 where
  "FNV_INV = 14886173955864302971"

lemma fnv_prime_inverse: "D4NP_FNV1A_PRIME * FNV_INV = 1"
  by (simp add: D4NP_FNV1A_PRIME_def FNV_INV_def)

lemma xor_cancel: "(x XOR c) XOR c = (x :: 'a::len word)"
  by (rule bit_word_eqI) (auto simp: bit_simps)

lemma fnv_step_inj: "fnv_step b h = fnv_step b h' \<longleftrightarrow> h = h'"
proof
  assume "fnv_step b h = fnv_step b h'"
  then have "(h XOR ucast b) * (D4NP_FNV1A_PRIME * FNV_INV) = (h' XOR ucast b) * (D4NP_FNV1A_PRIME * FNV_INV)"
    by (simp add: fnv_step_def mult.assoc [symmetric])
  then have "h XOR ucast b = h' XOR ucast b" by (simp add: fnv_prime_inverse)
  then have "(h XOR ucast b) XOR ucast b = (h' XOR ucast b) XOR ucast b" by simp
  then show "h = h'" by (simp only: xor_cancel)
qed simp

lemma fnv1a_from_inj: "fnv1a_from h bs = fnv1a_from h' bs \<longleftrightarrow> h = h'"
  by (induction bs arbitrary: h h') (auto simp: fnv1a_from_def fnv_step_inj)

lemma fnv1a_from_append: "fnv1a_from seed (xs @ ys) = fnv1a_from (fnv1a_from seed xs) ys"
  by (simp add: fnv1a_from_def)

lemma hash_str_cstr:
  assumes "wf_mem m" "cstr m p s" "length s < 2 ^ 64"
  shows "d4np_hash_fnv1a_str p m = Some (fnv1a s)"
proof -
  have "valid m p (length s)" using assms(2) by (auto simp: cstr_def intro: valid_sub)
  moreover have "p \<noteq> NULL" using cstr_nonnull [OF assms(1,2)] .
  ultimately show ?thesis using assms hash_continue_ok [OF assms(1), of p "of_nat (length s)"]
    by (simp add: d4np_hash_fnv1a_str_def strlen_cstr d4np_hash_fnv1a_def
        unsigned_of_nat take_bit_nat_eq_self cstr_peek fnv1a_def)
qed

section \<open>The published algorithm\<close>

text \<open>FNV-1a with 64 bits as its authors give it, on natural numbers: for each octet, exclusive or first, then the product
  with the prime \<open>2^40 + 2^8 + 0xb3\<close>, reduced to 64 bits.\<close>

fun fnv1a_ref :: "nat \<Rightarrow> nat list \<Rightarrow> nat" where
  "fnv1a_ref h [] = h"
| "fnv1a_ref h (b # bs) = fnv1a_ref ((h XOR b) * (2 ^ 40 + 2 ^ 8 + 0xb3) mod 2 ^ 64) bs"

lemma fnv_step_ref: "unat (fnv_step b h) = (unat h XOR unat b) * (2 ^ 40 + 2 ^ 8 + 0xb3) mod 2 ^ 64"
  by (simp add: fnv_step_def D4NP_FNV1A_PRIME_def unsigned_xor_eq unsigned_ucast_eq unat_word_ariths take_bit_nat_eq_self
      less_le_trans [OF unsigned_less])

lemma fnv1a_from_ref: "unat (fnv1a_from h bs) = fnv1a_ref (unat h) (map unat bs)"
proof (induction bs arbitrary: h)
  case (Cons b bs)
  then show ?case using Cons.IH [of "fnv_step b h"] unfolding fnv_step_ref by (simp add: fnv1a_from_def)
qed (simp add: fnv1a_from_def)

lemma hash_continue_ref:
  assumes "wf_mem m" "valid m p (unat n)"
  shows "map_option unat (d4np_hash_fnv1a_continue seed p n m) = Some (fnv1a_ref (unat seed) (map unat (peek m p (unat n))))"
  by (simp add: hash_continue_ok [OF assms] fnv1a_from_ref)

section \<open>Properties\<close>

text \<open>C39: the hash of a buffer is the FNV-1a value of its bytes: the C loop on machine words computes the published algorithm
  from the published offset basis, or from any seed in the continuation form. Hashing the buffer in two chunks, as the header
  documents, gives the same value, and a step never loses information about the seed: two
  running hashes that differ stay different whatever is hashed next.\<close>

theorem hash_fnv1a_correct:
  assumes "wf_mem m" "valid m p (unat n)" "k \<le> n"
  shows "map_option unat (d4np_hash_fnv1a p n m) = Some (fnv1a_ref 0xcbf29ce484222325 (map unat (peek m p (unat n)))) \<and>
    map_option unat (d4np_hash_fnv1a_continue seed p n m) = Some (fnv1a_ref (unat seed) (map unat (peek m p (unat n)))) \<and>
    do { h \<leftarrow> d4np_hash_fnv1a_continue seed p k m; d4np_hash_fnv1a_continue h (p + unat k) (n - k) m } =
      d4np_hash_fnv1a_continue seed p n m \<and>
    (d4np_hash_fnv1a_continue seed p n m = d4np_hash_fnv1a_continue seed' p n m \<longleftrightarrow> seed = seed')"
proof (intro conjI)
  have u: "unat n = unat k + unat (n - k)" using unat_sub_exact [OF assms(3)] assms(3) by (simp add: word_le_nat_alt)
  have v: "valid m p (unat k)" "valid m (p + unat k) (unat (n - k))"
    using assms(2) u by (auto intro: valid_sub)
  show "map_option unat (d4np_hash_fnv1a p n m) = Some (fnv1a_ref 0xcbf29ce484222325 (map unat (peek m p (unat n))))"
    using hash_continue_ref [OF assms(1,2), of D4NP_FNV1A_OFFSET_BASIS] by (simp add: d4np_hash_fnv1a_def D4NP_FNV1A_OFFSET_BASIS_def)
  show "do { h \<leftarrow> d4np_hash_fnv1a_continue seed p k m; d4np_hash_fnv1a_continue h (p + unat k) (n - k) m } =
      d4np_hash_fnv1a_continue seed p n m"
    using hash_continue_ok [OF assms(1) v(1)] hash_continue_ok [OF assms(1) v(2)] hash_continue_ok [OF assms(1,2)]
    by (simp add: u peek_append fnv1a_from_append)
  show "d4np_hash_fnv1a_continue seed p n m = d4np_hash_fnv1a_continue seed' p n m \<longleftrightarrow> seed = seed'"
    by (simp add: hash_continue_ok [OF assms(1,2)] fnv1a_from_inj)
qed (rule hash_continue_ref [OF assms(1,2)])

text \<open>The six bytes of "foobar" at address 16: the published test vector, in one piece and in two.\<close>

definition hash_ex_mem :: mem where
  "hash_ex_mem = \<lparr>bytes = (\<lambda>a. [102, 111, 111, 98, 97, 114] ! (a - 16)), live = [(16, 6)], place = (\<lambda>_. 0), tick = 0\<rparr>"

theorem hash_fnv1a_correct_witness:
  "map_option unat (d4np_hash_fnv1a 16 6 hash_ex_mem) = Some 0x85944171f73967e8 \<and>
   do { h \<leftarrow> d4np_hash_fnv1a_continue 7 16 2 hash_ex_mem; d4np_hash_fnv1a_continue h 18 4 hash_ex_mem } =
     d4np_hash_fnv1a_continue 7 16 6 hash_ex_mem"
proof -
  have "wf_mem hash_ex_mem" "valid hash_ex_mem 16 (unat (6 :: size_t))"
    by (simp_all add: hash_ex_mem_def wf_mem_def valid_def ADDR_LIMIT_def)
  moreover have "map unat (peek hash_ex_mem 16 6) = [102, 111, 111, 98, 97, 114]"
    by (simp add: hash_ex_mem_def peek_def upt_rec)
  ultimately show ?thesis using hash_fnv1a_correct [of hash_ex_mem 16 6 2 7 8] by simp
qed

text \<open>The hash of a NUL-terminated string is the FNV-1a hash of its bytes without the
  terminator, a NULL string and an empty buffer hash to the offset basis, and the published test
  vector for "foobar" is met.\<close>

theorem hash_str_correct:
  "(\<forall>m p s. wf_mem m \<longrightarrow> cstr m p s \<longrightarrow> length s < 2 ^ 64 \<longrightarrow> d4np_hash_fnv1a_str p m = Some (fnv1a s)) \<and>
   d4np_hash_fnv1a_str NULL m' = Some D4NP_FNV1A_OFFSET_BASIS \<and>
   d4np_hash_fnv1a q 0 m' = Some D4NP_FNV1A_OFFSET_BASIS \<and>
   fnv1a [102, 111, 111, 98, 97, 114] = 0x85944171f73967e8"
  using hash_str_cstr
  by (simp add: d4np_hash_fnv1a_str_def d4np_hash_fnv1a_def d4np_hash_fnv1a_continue_def fnv1a_def
      fnv1a_from_def fnv_step_def D4NP_FNV1A_OFFSET_BASIS_def D4NP_FNV1A_PRIME_def)

definition hash_str_mem :: mem where
  "hash_str_mem = \<lparr>bytes = (\<lambda>a. if a = 16 then 97 else 0), live = [(16, 6)], place = (\<lambda>_. 0), tick = 0\<rparr>"

theorem hash_str_correct_witness: "d4np_hash_fnv1a_str 16 hash_str_mem = Some (fnv1a [97])"
proof -
  have "wf_mem hash_str_mem" "cstr hash_str_mem 16 [97]"
    by (simp_all add: hash_str_mem_def wf_mem_def ADDR_LIMIT_def cstr_def valid_def peek_def)
  then show ?thesis using hash_str_correct by simp
qed

end
