(* ===== verification/Probing.thy ===== *)
theory Probing
  imports Prelude
begin

text \<open>
  The mathematics of the open-addressing hash map: tables with linear probing and tombstones,
  over any key type with an equivalence \<open>E\<close> and a hash function \<open>H\<close> that respects it.
  A table is a function from slot numbers below the capacity to slots. The locale
  \<open>key_laws\<close> is the interface between the map and the hash and equality functions it is
  given; the theory of hash maps uses the lemmas proved in it.
\<close>

section \<open>Tables\<close>

datatype ('k, 'v) slot = Empty | Occ 'k 'v | Deleted

type_synonym ('k, 'v) table = "nat \<Rightarrow> ('k, 'v) slot"

text \<open>Slot \<open>i\<close> is reached from the home position \<open>h\<close> over non-empty slots only.\<close>

definition reach :: "nat \<Rightarrow> nat \<Rightarrow> ('k, 'v) table \<Rightarrow> nat \<Rightarrow> bool" where
  "reach cap h t i \<longleftrightarrow> (\<exists>d < cap. i = (h + d) mod cap \<and> (\<forall>e < d. t ((h + e) mod cap) \<noteq> Empty))"

definition tab_ok :: "('k \<Rightarrow> nat) \<Rightarrow> ('k \<Rightarrow> 'k \<Rightarrow> bool) \<Rightarrow> nat \<Rightarrow> ('k, 'v) table \<Rightarrow> bool" where
  "tab_ok H E cap t \<longleftrightarrow>
     (\<forall>i < cap. \<forall>k v. t i = Occ k v \<longrightarrow> reach cap (H k) t i) \<and>
     (\<forall>i < cap. \<forall>j < cap. \<forall>k v k' v'. t i = Occ k v \<longrightarrow> t j = Occ k' v' \<longrightarrow> E k k' \<longrightarrow> i = j)"

definition entries :: "nat \<Rightarrow> ('k, 'v) table \<Rightarrow> ('k \<times> 'v) set" where
  "entries cap t = {(k, v). \<exists>i < cap. t i = Occ k v}"

definition absent :: "('k \<Rightarrow> 'k \<Rightarrow> bool) \<Rightarrow> nat \<Rightarrow> ('k, 'v) table \<Rightarrow> 'k \<Rightarrow> bool" where
  "absent E cap t k \<longleftrightarrow> (\<forall>i < cap. \<forall>k' v. t i = Occ k' v \<longrightarrow> \<not> E k' k)"

fun is_occ :: "('k, 'v) slot \<Rightarrow> bool" where
  "is_occ (Occ k v) = True"
| "is_occ Empty = False"
| "is_occ Deleted = False"

definition occ_count :: "nat \<Rightarrow> ('k, 'v) table \<Rightarrow> nat" where
  "occ_count cap t = card {i. i < cap \<and> is_occ (t i)}"

definition del_count :: "nat \<Rightarrow> ('k, 'v) table \<Rightarrow> nat" where
  "del_count cap t = card {i. i < cap \<and> t i = Deleted}"

section \<open>Counting\<close>

lemma card_update:
  fixes P :: "'a \<Rightarrow> bool" and cap :: nat
  assumes "i < cap"
  shows "card {j. j < cap \<and> P ((t(i := s)) j)} + (if P (t i) then 1 else 0) =
         card {j. j < cap \<and> P (t j)} + (if P s then 1 else 0)"
proof -
  let ?R = "{j. j < cap \<and> j \<noteq> i \<and> P (t j)}"
  have fin: "finite ?R" by simp
  have split: "{j. j < cap \<and> P (t j)} = (if P (t i) then insert i ?R else ?R)" using assms by auto
  have split': "{j. j < cap \<and> P ((t(i := s)) j)} = (if P s then insert i ?R else ?R)" using assms by auto
  show ?thesis unfolding split split' using fin by (auto simp: card_insert_if)
qed

lemma occ_count_update:
  "i < cap \<Longrightarrow> occ_count cap (t(i := s)) + (if is_occ (t i) then 1 else 0) = occ_count cap t + (if is_occ s then 1 else 0)"
  unfolding occ_count_def by (rule card_update)

lemma del_count_update:
  "i < cap \<Longrightarrow> del_count cap (t(i := s)) + (if t i = Deleted then 1 else 0) = del_count cap t + (if s = Deleted then 1 else 0)"
  unfolding del_count_def by (rule card_update [where P = "\<lambda>x. x = Deleted"])

lemma empty_exists:
  assumes "occ_count cap t + del_count cap t < cap"
  shows "\<exists>i < cap. t i = Empty"
proof (rule ccontr)
  assume none: "\<not> ?thesis"
  have "{i. i < cap} \<subseteq> {i. i < cap \<and> is_occ (t i)} \<union> {i. i < cap \<and> t i = Deleted}"
    using none by (auto, case_tac "t x") auto
  then have "card {i. i < cap} \<le> card ({i. i < cap \<and> is_occ (t i)} \<union> {i. i < cap \<and> t i = Deleted})"
    by (rule card_mono [rotated]) simp
  also have "\<dots> \<le> occ_count cap t + del_count cap t"
    unfolding occ_count_def del_count_def by (rule card_Un_le)
  finally show False using assms by simp
qed

lemma counts_empty [simp]: "occ_count cap (\<lambda>_. Empty) = 0" "del_count cap (\<lambda>_. Empty) = 0"
  by (simp_all add: occ_count_def del_count_def)

lemma entries_empty [simp]: "entries cap (\<lambda>_. Empty) = {}"
  by (simp add: entries_def)

lemma entries_Suc: "entries (Suc i) t = (case t i of Occ k v \<Rightarrow> insert (k, v) (entries i t) | _ \<Rightarrow> entries i t)"
  by (auto simp: entries_def less_Suc_eq split: slot.splits)

lemma occ_count_Suc: "occ_count (Suc i) t = occ_count i t + (if is_occ (t i) then 1 else 0)"
proof -
  have "{j. j < Suc i \<and> is_occ (t j)} = (if is_occ (t i) then insert i {j. j < i \<and> is_occ (t j)} else {j. j < i \<and> is_occ (t j)})"
    by (auto simp: less_Suc_eq)
  then show ?thesis by (simp add: occ_count_def)
qed

lemma occ_count_mono: "i \<le> j \<Longrightarrow> occ_count i t \<le> occ_count j t"
  by (induction rule: dec_induct) (auto simp: occ_count_Suc)

section \<open>Probe sequences\<close>

lemma mod_shift:
  fixes a h n :: nat
  assumes "a < n"
  obtains d where "d < n" "a = (h + d) mod n"
proof -
  have n: "0 < n" using assms by simp
  let ?d = "(a + (n - h mod n)) mod n"
  have "(h + ?d) mod n = (h mod n + (a + (n - h mod n))) mod n"
    by (simp only: mod_add_left_eq mod_add_right_eq)
  also have "h mod n + (a + (n - h mod n)) = a + n" using mod_less_divisor [OF n, of h] by linarith
  finally have "(h + ?d) mod n = a" using assms by simp
  with that [of ?d] n show thesis by simp
qed

lemma reach_mono:
  "reach cap h t i \<Longrightarrow> (\<And>j. t j \<noteq> Empty \<Longrightarrow> t' j \<noteq> Empty) \<Longrightarrow> reach cap h t' i"
  unfolding reach_def by blast

lemma reach_bound: "reach cap h t i \<Longrightarrow> i < cap"
  by (auto simp: reach_def)

text \<open>A key that is not met before the first empty slot of its probe sequence is absent.\<close>

lemma stop_absent:
  assumes "\<And>i k v. i < cap \<Longrightarrow> t i = Occ k v \<Longrightarrow> E k x \<Longrightarrow> reach cap h t i"
    and "t ((h + d) mod cap) = Empty"
    and "\<And>e k v. e < d \<Longrightarrow> t ((h + e) mod cap) = Occ k v \<Longrightarrow> \<not> E k x"
  shows "absent E cap t x"
  unfolding absent_def
proof (intro allI impI)
  fix i k v assume i: "i < cap" "t i = Occ k v"
  show "\<not> E k x"
  proof
    assume "E k x"
    with assms(1) [OF i] obtain d' where d': "i = (h + d') mod cap" "\<forall>e < d'. t ((h + e) mod cap) \<noteq> Empty"
      by (auto simp: reach_def)
    then have "d' \<le> d" using assms(2) by (metis not_le)
    moreover have "d' \<noteq> d" using d'(1) i(2) assms(2) by auto
    ultimately show False using assms(3) [of d' k v] d'(1) i(2) \<open>E k x\<close> by simp
  qed
qed

lemma same_slot:
  "tab_ok H E cap t \<Longrightarrow> i < cap \<Longrightarrow> j < cap \<Longrightarrow> t i = Occ k v \<Longrightarrow> t j = Occ k' v' \<Longrightarrow> E k k' \<Longrightarrow> i = j"
  unfolding tab_ok_def by blast

section \<open>Laws of the hash and equality functions, and updates under them\<close>

locale key_laws =
  fixes H :: "'k \<Rightarrow> nat" and E :: "'k \<Rightarrow> 'k \<Rightarrow> bool"
  assumes E_refl: "E x x" and E_sym: "E x y \<Longrightarrow> E y x" and E_trans: "E x y \<Longrightarrow> E y z \<Longrightarrow> E x z"
    and E_hash: "E x y \<Longrightarrow> H x = H y"
begin

lemma tab_ok_insert:
  assumes "tab_ok H E cap t" "reach cap (H k) t i" "\<not> is_occ (t i)" "absent E cap t k"
  shows "tab_ok H E cap (t(i := Occ k v))" "entries cap (t(i := Occ k v)) = insert (k, v) (entries cap t)"
proof -
  have i: "i < cap" using assms(2) by (rule reach_bound)
  have mono: "reach cap h (t(i := Occ k v)) j" if "reach cap h t j" for h j
    using that by (rule reach_mono) auto
  show "tab_ok H E cap (t(i := Occ k v))"
    using assms(1,2,4) unfolding tab_ok_def absent_def
    by (auto intro: mono dest: E_sym)
  show "entries cap (t(i := Occ k v)) = insert (k, v) (entries cap t)"
  proof -
    have "(t(i := Occ k v)) j = Occ a b \<longleftrightarrow> (if j = i then a = k \<and> b = v else t j = Occ a b)" for j a b by auto
    moreover have "t i \<noteq> Occ a b" for a b using assms(3) by auto
    ultimately show ?thesis using i unfolding entries_def by (auto split: if_splits) metis
  qed
qed

lemma tab_ok_update:
  assumes "tab_ok H E cap t" "t i = Occ k v"
  shows "tab_ok H E cap (t(i := Occ k v'))"
proof -
  have mono: "reach cap h (t(i := Occ k v')) j" if "reach cap h t j" for h j
    using that by (rule reach_mono) auto
  show ?thesis
    using assms unfolding tab_ok_def by (auto intro: mono split: if_splits)
qed

lemma tab_ok_delete:
  assumes "tab_ok H E cap t"
  shows "tab_ok H E cap (t(i := Deleted))"
proof -
  have mono: "reach cap h (t(i := Deleted)) j" if "reach cap h t j" for h j
    using that by (rule reach_mono) auto
  show ?thesis
    using assms unfolding tab_ok_def by (auto intro: mono split: if_splits)
qed

lemma tab_ok_empty: "tab_ok H E cap (\<lambda>_. Empty)"
  by (simp add: tab_ok_def)

lemma unique_slot:
  "tab_ok H E cap t \<Longrightarrow> i < cap \<Longrightarrow> j < cap \<Longrightarrow> t i = Occ k v \<Longrightarrow> t j = Occ k' v' \<Longrightarrow> E k x \<Longrightarrow> E k' x \<Longrightarrow> i = j"
  unfolding tab_ok_def using E_trans [of k x k'] E_sym [of k' x] by blast

lemma occ_reach:
  "tab_ok H E cap t \<Longrightarrow> i < cap \<Longrightarrow> t i = Occ k v \<Longrightarrow> E k x \<Longrightarrow> reach cap (H x) t i"
  unfolding tab_ok_def using E_hash [of k x] by metis

end

section \<open>The map a table stands for\<close>

definition tab_list :: "nat \<Rightarrow> ('k, 'v) table \<Rightarrow> ('k \<times> 'v) list" where
  "tab_list cap t = concat (map (\<lambda>i. case t i of Occ k v \<Rightarrow> [(k, v)] | _ \<Rightarrow> []) [0..<cap])"

definition tab_map :: "('k \<Rightarrow> 'k \<Rightarrow> bool) \<Rightarrow> nat \<Rightarrow> ('k, 'v) table \<Rightarrow> 'k \<Rightarrow> 'v option" where
  "tab_map E cap t x = map_option snd (find (\<lambda>(k, v). E k x) (tab_list cap t))"

lemma set_tab_list: "set (tab_list cap t) = entries cap t"
proof -
  have "p \<in> set (case t i of Occ k v \<Rightarrow> [(k, v)] | _ \<Rightarrow> []) \<longleftrightarrow> t i = Occ (fst p) (snd p)" for p i
    by (cases "t i"; cases p) auto
  then show ?thesis by (auto simp: tab_list_def entries_def)
qed

lemma length_tab_list: "length (tab_list cap t) = occ_count cap t"
proof (induction cap)
  case (Suc cap)
  have "{i. i < Suc cap \<and> is_occ (t i)} = (if is_occ (t cap) then insert cap {i. i < cap \<and> is_occ (t i)}
      else {i. i < cap \<and> is_occ (t i)})" by (auto simp: less_Suc_eq)
  then have "occ_count (Suc cap) t = occ_count cap t + (if is_occ (t cap) then 1 else 0)"
    by (simp add: occ_count_def)
  with Suc show ?case by (auto simp: tab_list_def split: slot.split)
qed (simp add: tab_list_def occ_count_def)

lemma tab_map_None: "tab_map E cap t x = None \<longleftrightarrow> absent E cap t x"
  by (auto simp: tab_map_def find_None_iff set_tab_list entries_def absent_def)

context key_laws
begin

lemma tab_map_Some:
  assumes "tab_ok H E cap t" "i < cap" "t i = Occ k v" "E k x"
  shows "tab_map E cap t x = Some v"
proof (cases "find (\<lambda>(k, v). E k x) (tab_list cap t)")
  case None
  then have "absent E cap t x" using tab_map_None [of E cap t x] by (simp add: tab_map_def)
  with assms show ?thesis by (auto simp: absent_def)
next
  case (Some p)
  obtain k' v' where p: "p = (k', v')" by (cases p)
  from Some p have "(k', v') \<in> entries cap t" "E k' x"
    by (auto simp: find_Some_iff set_tab_list [symmetric] in_set_conv_nth)
  then obtain j where "j < cap" "t j = Occ k' v'" by (auto simp: entries_def)
  with unique_slot [OF assms(1,2)] assms(3,4) \<open>E k' x\<close> have "v' = v" by fastforce
  with Some p show ?thesis by (simp add: tab_map_def)
qed

text \<open>Two well-formed tables with the same entries stand for the same map.\<close>

lemma tab_map_cong:
  assumes "tab_ok H E cap t" "tab_ok H E cap' t'" "entries cap t = entries cap' t'"
  shows "tab_map E cap t = tab_map E cap' t'"
proof
  fix x
  show "tab_map E cap t x = tab_map E cap' t' x"
  proof (cases "absent E cap t x")
    case True
    moreover from this have "absent E cap' t' x"
      using assms(3) unfolding absent_def entries_def by blast
    ultimately show ?thesis using tab_map_None by metis
  next
    case False
    then obtain i k v where i: "i < cap" "t i = Occ k v" "E k x" by (auto simp: absent_def)
    then have "(k, v) \<in> entries cap t" by (auto simp: entries_def)
    then have "(k, v) \<in> entries cap' t'" using assms(3) by simp
    then obtain j where "j < cap'" "t' j = Occ k v" by (auto simp: entries_def)
    with i tab_map_Some [OF assms(1) i] tab_map_Some [OF assms(2), of j k v x] show ?thesis by simp
  qed
qed

lemma tab_map_insert:
  assumes "tab_ok H E cap t" "reach cap (H k) t i" "\<not> is_occ (t i)" "absent E cap t k"
  shows "tab_map E cap (t(i := Occ k v)) = (\<lambda>x. if E k x then Some v else tab_map E cap t x)"
proof
  fix x
  let ?t = "t(i := Occ k v)"
  note ok = tab_ok_insert [OF assms, of v]
  have i: "i < cap" using assms(2) by (rule reach_bound)
  consider (new) "E k x" | (old) j k' v' where "\<not> E k x" "j < cap" "t j = Occ k' v'" "E k' x"
    | (none) "\<not> E k x" "absent E cap t x" by (auto simp: absent_def)
  then show "tab_map E cap ?t x = (if E k x then Some v else tab_map E cap t x)"
  proof cases
    case new
    with tab_map_Some [OF ok(1) i, of k v x] show ?thesis by simp
  next
    case old
    then have "?t j = Occ k' v'" using assms(3) by auto
    with old tab_map_Some [OF ok(1), of j] tab_map_Some [OF assms(1), of j] show ?thesis by simp
  next
    case none
    then have "absent E cap ?t x" by (auto simp: absent_def)
    with none show ?thesis by (metis tab_map_None)
  qed
qed

lemma tab_map_update:
  assumes "tab_ok H E cap t" "i < cap" "t i = Occ k v"
  shows "tab_map E cap (t(i := Occ k v')) = (\<lambda>x. if E k x then Some v' else tab_map E cap t x)"
proof
  fix x
  let ?t = "t(i := Occ k v')"
  note ok = tab_ok_update [OF assms(1,3), of v']
  consider (new) "E k x" | (old) j k' w where "\<not> E k x" "j < cap" "t j = Occ k' w" "E k' x"
    | (none) "\<not> E k x" "absent E cap t x" by (auto simp: absent_def)
  then show "tab_map E cap ?t x = (if E k x then Some v' else tab_map E cap t x)"
  proof cases
    case new
    with tab_map_Some [OF ok assms(2), of k v' x] show ?thesis by simp
  next
    case old
    then have "?t j = Occ k' w" using assms(3) by auto
    with old tab_map_Some [OF ok, of j] tab_map_Some [OF assms(1), of j] show ?thesis by simp
  next
    case none
    then have "absent E cap ?t x" by (auto simp: absent_def)
    with none show ?thesis by (metis tab_map_None)
  qed
qed

lemma tab_map_delete:
  assumes "tab_ok H E cap t" "i < cap" "t i = Occ k v"
  shows "tab_map E cap (t(i := Deleted)) = (\<lambda>x. if E k x then None else tab_map E cap t x)"
proof
  fix x
  let ?t = "t(i := Deleted)"
  note ok = tab_ok_delete [OF assms(1), of i]
  consider (gone) "E k x" | (old) j k' w where "\<not> E k x" "j < cap" "t j = Occ k' w" "E k' x"
    | (none) "\<not> E k x" "absent E cap t x" by (auto simp: absent_def)
  then show "tab_map E cap ?t x = (if E k x then None else tab_map E cap t x)"
  proof cases
    case gone
    have "absent E cap ?t x"
      using unique_slot [OF assms(1,2) _ assms(3) _ gone] by (auto simp: absent_def)
    with gone show ?thesis by (metis tab_map_None)
  next
    case old
    then have "?t j = Occ k' w" using assms(3) by auto
    with old tab_map_Some [OF ok, of j] tab_map_Some [OF assms(1), of j] show ?thesis by simp
  next
    case none
    then have "absent E cap ?t x" by (auto simp: absent_def)
    with none show ?thesis by (metis tab_map_None)
  qed
qed

end

end
