(* ===== verification/Hashmap.thy ===== *)
theory Hashmap
  imports Allocator Hash Probing
begin

text \<open>
  The generic hash map (\<open>ds/hashmap.h\<close>, \<open>ds/hashmap.c\<close>): three parallel arrays in memory (control
  bytes, keys, values), linear probing with tombstones, growth at a load factor of 0.75. The hash
  and equality functions are parameters of the map, as in the source; \<open>hash_contract\<close> is what
  the map relies on about them, and the default FNV-1a and \<open>memcmp\<close> functions are an instance.
\<close>

section \<open>Definitions\<close>

type_synonym hash_fn = "ptr \<Rightarrow> size_t \<Rightarrow> mem \<Rightarrow> uint64 option"
type_synonym key_eq_fn = "ptr \<Rightarrow> ptr \<Rightarrow> size_t \<Rightarrow> mem \<Rightarrow> bool option"

record d4np_hashmap =
  hm_allocator :: "d4np_allocator option"
  hm_control :: ptr
  hm_keys :: ptr
  hm_values :: ptr
  hm_key_size :: size_t
  hm_value_size :: size_t
  hm_key_stride :: size_t
  hm_value_stride :: size_t
  hm_capacity :: size_t
  hm_len :: size_t
  hm_tombstones :: size_t
  hm_hash :: hash_fn
  hm_key_eq :: key_eq_fn

definition D4NP_HASHMAP_MIN_CAPACITY :: size_t where
  "D4NP_HASHMAP_MIN_CAPACITY = 8"

abbreviation SLOT_EMPTY :: byte where
  "SLOT_EMPTY \<equiv> 0"

abbreviation SLOT_OCCUPIED :: byte where
  "SLOT_OCCUPIED \<equiv> 1"

abbreviation SLOT_DELETED :: byte where
  "SLOT_DELETED \<equiv> 2"

definition default_hash :: hash_fn where
  "default_hash key key_size m = fnv1a_loop key (unat key_size) D4NP_FNV1A_OFFSET_BASIS m"

definition default_key_eq :: key_eq_fn where
  "default_key_eq a b key_size m =
     do { x \<leftarrow> mem_read m a (unat key_size); y \<leftarrow> mem_read m b (unat key_size); Some (x = y) }"

definition hm_round_up :: "size_t \<Rightarrow> size_t \<Rightarrow> size_t" where
  "hm_round_up value multiple = (value + (multiple - 1)) AND NOT (multiple - 1)"

definition hm_next_pow2_at_least :: "size_t \<Rightarrow> size_t option" where
  "hm_next_pow2_at_least n = double_until D4NP_HASHMAP_MIN_CAPACITY n"

definition key_slot :: "d4np_hashmap \<Rightarrow> size_t \<Rightarrow> ptr" where
  "key_slot h i = hm_keys h + unat (i * hm_key_stride h)"

definition value_slot :: "d4np_hashmap \<Rightarrow> size_t \<Rightarrow> ptr" where
  "value_slot h i = hm_values h + unat (i * hm_value_stride h)"

text \<open>The probe loop of \<open>locate\<close>, from probe number \<open>probe\<close> on.\<close>

function locate_loop ::
  "d4np_hashmap \<Rightarrow> ptr \<Rightarrow> size_t \<Rightarrow> size_t \<Rightarrow> size_t \<Rightarrow> size_t \<Rightarrow> mem \<Rightarrow> (size_t \<times> bool) option" where
  "locate_loop h key msk start probe first_tomb m =
     (if probe < hm_capacity h then
        (let i = (start + probe) AND msk in
         do {
           st \<leftarrow> read_byte m (hm_control h + unat i);
           if st = SLOT_EMPTY then Some (if first_tomb \<noteq> SIZE_MAX then first_tomb else i, False)
           else do {
             eq \<leftarrow> (if st = SLOT_OCCUPIED then hm_key_eq h (key_slot h i) key (hm_key_size h) m else Some False);
             if eq then Some (i, True)
             else locate_loop h key msk start (probe + 1)
                    (if st = SLOT_DELETED \<and> first_tomb = SIZE_MAX then i else first_tomb) m
           }
         })
      else Some (if first_tomb \<noteq> SIZE_MAX then first_tomb else 0, False))"
  by pat_completeness auto

termination
proof (relation "measure (\<lambda>(h, key, msk, start, probe, ft, m). unat (hm_capacity h) - unat probe)")
  fix h :: d4np_hashmap and probe :: size_t
  assume "probe < hm_capacity h"
  then have lt: "unat probe < unat (hm_capacity h)" by (simp add: word_less_nat_alt)
  then have "unat (probe + 1) = unat probe + 1"
    using unat_bound64 [of "hm_capacity h"] unat_add_exact [of probe 1] by simp
  with lt show "((h, key, msk, start, probe + 1, ft, m), h, key, msk, start, probe, ft', m)
      \<in> measure (\<lambda>(h, key, msk, start, probe, ft, m). unat (hm_capacity h) - unat probe)"
    for key msk start ft ft' m by simp
qed simp

declare locate_loop.simps [simp del]

text \<open>The result is the slot and the \<open>found\<close> out-parameter.\<close>

definition locate :: "d4np_hashmap \<Rightarrow> ptr \<Rightarrow> mem \<Rightarrow> (size_t \<times> bool) option" where
  "locate h key m =
     do {
       let msk = hm_capacity h - 1;
       hv \<leftarrow> hm_hash h key (hm_key_size h) m;
       locate_loop h key msk (hv AND msk) 0 SIZE_MAX m
     }"

text \<open>Marking slot \<open>j\<close> occupied and copying a key and a value into it, as \<open>resize\<close> and
  \<open>d4np_hashmap_put\<close> both do.\<close>

definition store_entry :: "d4np_hashmap \<Rightarrow> size_t \<Rightarrow> ptr \<Rightarrow> ptr \<Rightarrow> mem \<Rightarrow> mem option" where
  "store_entry h j k v m =
     do {
       m1 \<leftarrow> mem_write m (hm_control h + unat j) [SLOT_OCCUPIED];
       m2 \<leftarrow> memcpy m1 (key_slot h j) k (unat (hm_key_size h));
       memcpy m2 (value_slot h j) v (unat (hm_value_size h))
     }"

text \<open>The inner loop of \<open>resize\<close>: put one entry into the first empty slot of its probe sequence.\<close>

function rehash_probe ::
  "d4np_hashmap \<Rightarrow> size_t \<Rightarrow> size_t \<Rightarrow> size_t \<Rightarrow> ptr \<Rightarrow> ptr \<Rightarrow> mem \<Rightarrow> mem option" where
  "rehash_probe h msk start probe k v m =
     (if probe < hm_capacity h then
        (let j = (start + probe) AND msk in
         do {
           c \<leftarrow> read_byte m (hm_control h + unat j);
           if c = SLOT_EMPTY then store_entry h j k v m
           else rehash_probe h msk start (probe + 1) k v m
         })
      else Some m)"
  by pat_completeness auto

termination
proof (relation "measure (\<lambda>(h, msk, start, probe, k, v, m). unat (hm_capacity h) - unat probe)")
  fix h :: d4np_hashmap and probe :: size_t
  assume "probe < hm_capacity h"
  then have lt: "unat probe < unat (hm_capacity h)" by (simp add: word_less_nat_alt)
  then have "unat (probe + 1) = unat probe + 1"
    using unat_bound64 [of "hm_capacity h"] unat_add_exact [of probe 1] by simp
  with lt show "((h, msk, start, probe + 1, k, v, m), h, msk, start, probe, k, v, m)
      \<in> measure (\<lambda>(h, msk, start, probe, k, v, m). unat (hm_capacity h) - unat probe)"
    for msk start k v m by simp
qed simp

declare rehash_probe.simps [simp del]

text \<open>The outer loop: \<open>n\<close> old slots remain, the next one is slot \<open>i\<close>.\<close>

fun rehash :: "d4np_hashmap \<Rightarrow> ptr \<Rightarrow> ptr \<Rightarrow> ptr \<Rightarrow> size_t \<Rightarrow> nat \<Rightarrow> mem \<Rightarrow> mem option" where
  "rehash h oc ok ov i 0 m = Some m"
| "rehash h oc ok ov i (Suc n) m =
     do {
       c \<leftarrow> read_byte m (oc + unat i);
       m1 \<leftarrow> (if c \<noteq> SLOT_OCCUPIED then Some m
              else do {
                let k = ok + unat (i * hm_key_stride h);
                let msk = hm_capacity h - 1;
                hv \<leftarrow> hm_hash h k (hm_key_size h) m;
                rehash_probe h msk (hv AND msk) 0 k (ov + unat (i * hm_value_stride h)) m
              });
       rehash h oc ok ov (i + 1) n m1
     }"

definition resize :: "d4np_hashmap \<Rightarrow> size_t \<Rightarrow> mem \<Rightarrow> (d4np_status \<times> d4np_hashmap \<times> mem) option" where
  "resize h new_capacity m =
     do {
       kmax \<leftarrow> size_div SIZE_MAX (hm_key_stride h);
       overflow \<leftarrow> (if kmax < new_capacity then Some True
                    else do { vmax \<leftarrow> size_div SIZE_MAX (hm_value_stride h); Some (vmax < new_capacity) });
       if overflow then Some (D4NP_ERR_OVERFLOW, h, m)
       else do {
         (nc, m1) \<leftarrow> d4np_alloc (hm_allocator h) new_capacity MAX_ALIGN m;
         (nk, m2) \<leftarrow> d4np_alloc (hm_allocator h) (new_capacity * hm_key_stride h) MAX_ALIGN m1;
         (nv, m3) \<leftarrow> d4np_alloc (hm_allocator h) (new_capacity * hm_value_stride h) MAX_ALIGN m2;
         if nc = NULL \<or> nk = NULL \<or> nv = NULL then do {
           m4 \<leftarrow> d4np_free (hm_allocator h) nc new_capacity m3;
           m5 \<leftarrow> d4np_free (hm_allocator h) nk (new_capacity * hm_key_stride h) m4;
           m6 \<leftarrow> d4np_free (hm_allocator h) nv (new_capacity * hm_value_stride h) m5;
           Some (D4NP_ERR_OUT_OF_MEMORY, h, m6)
         } else do {
           m4 \<leftarrow> memset m3 nc SLOT_EMPTY (unat new_capacity);
           let h' = h\<lparr>hm_control := nc, hm_keys := nk, hm_values := nv, hm_capacity := new_capacity,
                      hm_tombstones := 0\<rparr>;
           m5 \<leftarrow> rehash h' (hm_control h) (hm_keys h) (hm_values h) 0 (unat (hm_capacity h)) m4;
           m6 \<leftarrow> d4np_free (hm_allocator h) (hm_control h) (hm_capacity h) m5;
           m7 \<leftarrow> d4np_free (hm_allocator h) (hm_keys h) (hm_capacity h * hm_key_stride h) m6;
           m8 \<leftarrow> d4np_free (hm_allocator h) (hm_values h) (hm_capacity h * hm_value_stride h) m7;
           Some (D4NP_OK, h', m8)
         }
       }
     }"

definition d4np_hashmap_init ::
  "d4np_hashmap option \<Rightarrow> d4np_allocator option \<Rightarrow> size_t \<Rightarrow> size_t \<Rightarrow> size_t \<Rightarrow> hash_fn option \<Rightarrow>
   key_eq_fn option \<Rightarrow> mem \<Rightarrow> (d4np_status \<times> d4np_hashmap option \<times> mem) option" where
  "d4np_hashmap_init hm allocator key_size value_size initial_capacity hash key_eq m =
     (case hm of
        None \<Rightarrow> Some (D4NP_ERR_INVALID_ARGUMENT, None, m)
      | Some h \<Rightarrow>
          if key_size = 0 \<or> value_size = 0 then Some (D4NP_ERR_INVALID_ARGUMENT, Some h, m)
          else do {
            let h1 = \<lparr>hm_allocator = Some (allocator_or_default allocator), hm_control = NULL, hm_keys = NULL,
                      hm_values = NULL, hm_key_size = key_size, hm_value_size = value_size,
                      hm_key_stride = hm_round_up key_size MAX_ALIGN,
                      hm_value_stride = hm_round_up value_size MAX_ALIGN, hm_capacity = 0, hm_len = 0,
                      hm_tombstones = 0,
                      hm_hash = (case hash of None \<Rightarrow> default_hash | Some f \<Rightarrow> f),
                      hm_key_eq = (case key_eq of None \<Rightarrow> default_key_eq | Some f \<Rightarrow> f)\<rparr>;
            if 0 < initial_capacity then do {
              cap \<leftarrow> hm_next_pow2_at_least initial_capacity;
              (rc, h2, m1) \<leftarrow> resize h1 cap m;
              Some (rc, Some h2, m1)
            } else Some (D4NP_OK, Some h1, m)
          })"

definition d4np_hashmap_destroy :: "d4np_hashmap option \<Rightarrow> mem \<Rightarrow> (d4np_hashmap option \<times> mem) option" where
  "d4np_hashmap_destroy hm m =
     (case hm of
        None \<Rightarrow> Some (None, m)
      | Some h \<Rightarrow>
          if hm_control h = NULL then Some (Some h, m)
          else do {
            m1 \<leftarrow> d4np_free (hm_allocator h) (hm_control h) (hm_capacity h) m;
            m2 \<leftarrow> d4np_free (hm_allocator h) (hm_keys h) (hm_capacity h * hm_key_stride h) m1;
            m3 \<leftarrow> d4np_free (hm_allocator h) (hm_values h) (hm_capacity h * hm_value_stride h) m2;
            Some (Some (h\<lparr>hm_control := NULL, hm_keys := NULL, hm_values := NULL, hm_capacity := 0, hm_len := 0,
                          hm_tombstones := 0\<rparr>), m3)
          })"

definition d4np_hashmap_put ::
  "d4np_hashmap option \<Rightarrow> ptr \<Rightarrow> ptr \<Rightarrow> mem \<Rightarrow> (d4np_status \<times> d4np_hashmap option \<times> mem) option" where
  "d4np_hashmap_put hm key value m =
     (case hm of
        None \<Rightarrow> Some (D4NP_ERR_INVALID_ARGUMENT, None, m)
      | Some h \<Rightarrow>
          if key = NULL \<or> value = NULL then Some (D4NP_ERR_INVALID_ARGUMENT, Some h, m)
          else do {
            (rc, h1, m1) \<leftarrow>
              (if hm_capacity h * 3 \<le> (hm_len h + hm_tombstones h + 1) * 4
               then resize h (if hm_capacity h = 0 then D4NP_HASHMAP_MIN_CAPACITY else hm_capacity h * 2) m
               else Some (D4NP_OK, h, m));
            if rc \<noteq> D4NP_OK then Some (rc, Some h1, m1)
            else do {
              (i, found) \<leftarrow> locate h1 key m1;
              if found then do {
                m2 \<leftarrow> memcpy m1 (value_slot h1 i) value (unat (hm_value_size h1));
                Some (D4NP_OK, Some h1, m2)
              } else do {
                c \<leftarrow> read_byte m1 (hm_control h1 + unat i);
                let h2 = (if c = SLOT_DELETED then h1\<lparr>hm_tombstones := hm_tombstones h1 - 1\<rparr> else h1);
                m2 \<leftarrow> store_entry h2 i key value m1;
                Some (D4NP_OK, Some (h2\<lparr>hm_len := hm_len h2 + 1\<rparr>), m2)
              }
            }
          })"

definition d4np_hashmap_get :: "d4np_hashmap option \<Rightarrow> ptr \<Rightarrow> mem \<Rightarrow> ptr option" where
  "d4np_hashmap_get hm key m =
     (case hm of
        None \<Rightarrow> Some NULL
      | Some h \<Rightarrow>
          if key = NULL \<or> hm_capacity h = 0 then Some NULL
          else do { (i, found) \<leftarrow> locate h key m; Some (if found then value_slot h i else NULL) })"

definition d4np_hashmap_contains :: "d4np_hashmap option \<Rightarrow> ptr \<Rightarrow> mem \<Rightarrow> bool option" where
  "d4np_hashmap_contains hm key m = do { p \<leftarrow> d4np_hashmap_get hm key m; Some (p \<noteq> NULL) }"

definition d4np_hashmap_remove ::
  "d4np_hashmap option \<Rightarrow> ptr \<Rightarrow> mem \<Rightarrow> (bool \<times> d4np_hashmap option \<times> mem) option" where
  "d4np_hashmap_remove hm key m =
     (case hm of
        None \<Rightarrow> Some (False, None, m)
      | Some h \<Rightarrow>
          if key = NULL \<or> hm_capacity h = 0 then Some (False, Some h, m)
          else do {
            (i, found) \<leftarrow> locate h key m;
            if \<not> found then Some (False, Some h, m)
            else do {
              m1 \<leftarrow> mem_write m (hm_control h + unat i) [SLOT_DELETED];
              Some (True, Some (h\<lparr>hm_len := hm_len h - 1, hm_tombstones := hm_tombstones h + 1\<rparr>), m1)
            }
          })"

definition d4np_hashmap_len :: "d4np_hashmap option \<Rightarrow> size_t" where
  "d4np_hashmap_len hm = (case hm of None \<Rightarrow> 0 | Some h \<Rightarrow> hm_len h)"

definition d4np_hashmap_clear :: "d4np_hashmap option \<Rightarrow> mem \<Rightarrow> (d4np_hashmap option \<times> mem) option" where
  "d4np_hashmap_clear hm m =
     (case hm of
        None \<Rightarrow> Some (None, m)
      | Some h \<Rightarrow>
          if hm_control h = NULL then Some (Some h, m)
          else do {
            m1 \<leftarrow> memset m (hm_control h) SLOT_EMPTY (unat (hm_capacity h));
            Some (Some (h\<lparr>hm_len := 0, hm_tombstones := 0\<rparr>), m1)
          })"

end
