(* ===== verification/Hashmap_Storage.thy ===== *)
theory Hashmap_Storage
  imports Hashmap
begin

text \<open>
  The three arrays of a hash map and the table of slots they represent: in-bounds facts for the
  slot addresses, and what a write to one array does to the table. The theory of the operations
  works on tables only.
\<close>

section \<open>Storage and its table\<close>

definition hm_blocks :: "d4np_hashmap \<Rightarrow> (ptr \<times> nat) set" where
  "hm_blocks h = {(hm_control h, unat (hm_capacity h)),
                  (hm_keys h, unat (hm_capacity h) * unat (hm_key_stride h)),
                  (hm_values h, unat (hm_capacity h) * unat (hm_value_stride h))}"

definition hm_sizes :: "d4np_hashmap \<Rightarrow> bool" where
  "hm_sizes h \<longleftrightarrow> 0 < unat (hm_key_size h) \<and> 0 < unat (hm_value_size h) \<and>
     unat (hm_key_size h) \<le> unat (hm_key_stride h) \<and> unat (hm_value_size h) \<le> unat (hm_value_stride h) \<and>
     16 \<le> unat (hm_key_stride h) \<and> 16 \<le> unat (hm_value_stride h)"

definition hm_storage :: "d4np_hashmap \<Rightarrow> mem \<Rightarrow> bool" where
  "hm_storage h m \<longleftrightarrow> hm_sizes h \<and> hm_blocks h \<subseteq> set (live m) \<and>
     hm_control h \<noteq> hm_keys h \<and> hm_control h \<noteq> hm_values h \<and> hm_keys h \<noteq> hm_values h \<and>
     (\<exists>k \<in> {3..<64}. hm_capacity h = 2 ^ k)"

abbreviation hm_key_at :: "d4np_hashmap \<Rightarrow> mem \<Rightarrow> nat \<Rightarrow> byte list" where
  "hm_key_at h m i \<equiv> peek m (hm_keys h + i * unat (hm_key_stride h)) (unat (hm_key_size h))"

abbreviation hm_value_at :: "d4np_hashmap \<Rightarrow> mem \<Rightarrow> nat \<Rightarrow> byte list" where
  "hm_value_at h m i \<equiv> peek m (hm_values h + i * unat (hm_value_stride h)) (unat (hm_value_size h))"

definition slot_of :: "byte \<Rightarrow> 'k \<Rightarrow> 'v \<Rightarrow> ('k, 'v) slot" where
  "slot_of c k v = (if c = SLOT_EMPTY then Empty else if c = SLOT_OCCUPIED then Occ k v else Deleted)"

definition hm_tab :: "d4np_hashmap \<Rightarrow> mem \<Rightarrow> (byte list, byte list) table" where
  "hm_tab h m i = (if i < unat (hm_capacity h)
     then slot_of (bytes m (hm_control h + i)) (hm_key_at h m i) (hm_value_at h m i) else Empty)"

lemma slot_of_simps [simp]:
  "slot_of SLOT_EMPTY k v = Empty" "slot_of SLOT_OCCUPIED k v = Occ k v" "slot_of SLOT_DELETED k v = Deleted"
  "slot_of c k v = Empty \<longleftrightarrow> c = SLOT_EMPTY" "is_occ (slot_of c k v) \<longleftrightarrow> c = SLOT_OCCUPIED"
  "slot_of c k v = Occ k' v' \<longleftrightarrow> c = SLOT_OCCUPIED \<and> k' = k \<and> v' = v"
  by (auto simp: slot_of_def)

lemma storage_cap:
  assumes "hm_storage h m"
  obtains k where "3 \<le> k" "k < 64" "hm_capacity h = 2 ^ k" "unat (hm_capacity h) = 2 ^ k"
    "unat (hm_capacity h - 1) = 2 ^ k - 1"
  using assms by (auto simp: hm_storage_def unat_pow2 unat_pow2_minus_1)

lemma storage_cap_ge: "hm_storage h m \<Longrightarrow> 8 \<le> unat (hm_capacity h)"
  by (elim storage_cap) (use power_increasing [of 3 _ "2::nat"] in auto)

lemma storage_cap_bound:
  assumes "wf_mem m" "hm_storage h m"
  shows "unat (hm_capacity h) * 16 < 2 ^ 63" "unat (hm_capacity h) * unat (hm_key_stride h) < 2 ^ 63"
    "unat (hm_capacity h) * unat (hm_value_stride h) < 2 ^ 63"
proof -
  show k: "unat (hm_capacity h) * unat (hm_key_stride h) < 2 ^ 63"
    "unat (hm_capacity h) * unat (hm_value_stride h) < 2 ^ 63"
    using assms by (auto simp: hm_storage_def hm_blocks_def dest: block_size_bound)
  have "unat (hm_capacity h) * 16 \<le> unat (hm_capacity h) * unat (hm_key_stride h)"
    using assms(2) by (intro mult_le_mono2) (simp add: hm_storage_def hm_sizes_def)
  with k(1) show "unat (hm_capacity h) * 16 < 2 ^ 63" by linarith
qed

text \<open>The address arithmetic of the slots does not wrap, and stays inside the arrays.\<close>

lemma storage_slot_addr:
  assumes "wf_mem m" "hm_storage h m" "unat i < unat (hm_capacity h)"
  shows "key_slot h i = hm_keys h + unat i * unat (hm_key_stride h)"
    "value_slot h i = hm_values h + unat i * unat (hm_value_stride h)"
proof -
  have "unat (i * hm_key_stride h) = unat i * unat (hm_key_stride h)"
    "unat (i * hm_value_stride h) = unat i * unat (hm_value_stride h)"
    using assms(3) storage_cap_bound(2,3) [OF assms(1,2)]
    by (auto intro: unat_mult_below [where c = "unat (hm_capacity h)"])
  then show "key_slot h i = hm_keys h + unat i * unat (hm_key_stride h)"
    "value_slot h i = hm_values h + unat i * unat (hm_value_stride h)"
    by (simp_all add: key_slot_def value_slot_def)
qed

lemma storage_blocks:
  assumes "hm_storage h m"
  shows "(hm_control h, unat (hm_capacity h)) \<in> set (live m)"
    "(hm_keys h, unat (hm_capacity h) * unat (hm_key_stride h)) \<in> set (live m)"
    "(hm_values h, unat (hm_capacity h) * unat (hm_value_stride h)) \<in> set (live m)"
  using assms by (auto simp: hm_storage_def hm_blocks_def)

lemma storage_in_bounds:
  assumes "hm_storage h m" "i < unat (hm_capacity h)"
  shows "i * unat (hm_key_stride h) + unat (hm_key_size h) \<le> unat (hm_capacity h) * unat (hm_key_stride h)"
    "i * unat (hm_value_stride h) + unat (hm_value_size h) \<le> unat (hm_capacity h) * unat (hm_value_stride h)"
  using assms by (auto simp: hm_storage_def hm_sizes_def intro!: slot_end_le)

lemma storage_valid:
  assumes "hm_storage h m" "i < unat (hm_capacity h)"
  shows "valid m (hm_control h + i) 1"
    "valid m (hm_keys h + i * unat (hm_key_stride h)) (unat (hm_key_size h))"
    "valid m (hm_values h + i * unat (hm_value_stride h)) (unat (hm_value_size h))"
  using storage_blocks [OF assms(1)] storage_in_bounds [OF assms] assms(2)
  by (auto intro: validI)

text \<open>The arrays do not overlap, so a write to one slot of one array leaves the rest alone.\<close>

lemma storage_apart:
  assumes "wf_mem m" "hm_storage h m"
  shows "sep (hm_control h, unat (hm_capacity h)) (hm_keys h, unat (hm_capacity h) * unat (hm_key_stride h))"
    "sep (hm_control h, unat (hm_capacity h)) (hm_values h, unat (hm_capacity h) * unat (hm_value_stride h))"
    "sep (hm_keys h, unat (hm_capacity h) * unat (hm_key_stride h))
         (hm_values h, unat (hm_capacity h) * unat (hm_value_stride h))"
  using assms(2) unfolding sep_iff
  by (intro wf_sep [OF assms(1)] storage_blocks [OF assms(2)]; simp add: hm_storage_def)+

lemma tab_poke_control:
  assumes "wf_mem m" "hm_storage h m" "i < unat (hm_capacity h)"
  shows "hm_tab h (poke m (hm_control h + i) [c]) =
    (hm_tab h m)(i := slot_of c (hm_key_at h m i) (hm_value_at h m i))"
proof
  fix j
  let ?m = "poke m (hm_control h + i) [c]"
  have k: "hm_key_at h ?m j = hm_key_at h m j" if "j < unat (hm_capacity h)" for j
    using storage_apart(1) [OF assms(1,2)] storage_in_bounds(1) [OF assms(2) that] assms(3)
    by (intro peek_poke_other) auto
  have v: "hm_value_at h ?m j = hm_value_at h m j" if "j < unat (hm_capacity h)" for j
    using storage_apart(2) [OF assms(1,2)] storage_in_bounds(2) [OF assms(2) that] assms(3)
    by (intro peek_poke_other) auto
  have "bytes ?m (hm_control h + j) = (if j = i then c else bytes m (hm_control h + j))"
    using bytes_poke_in [of 0 "[c]" m "hm_control h + i"] by (auto intro: bytes_poke_other)
  then show "hm_tab h ?m j = ((hm_tab h m)(i := slot_of c (hm_key_at h m i) (hm_value_at h m i))) j"
    using k [of j] v [of j] assms(3) by (auto simp: hm_tab_def)
qed

lemma tab_poke_key:
  assumes "wf_mem m" "hm_storage h m" "i < unat (hm_capacity h)" "length kb = unat (hm_key_size h)"
    "hm_tab h m i = Occ k0 v0"
  shows "hm_tab h (poke m (hm_keys h + i * unat (hm_key_stride h)) kb) = (hm_tab h m)(i := Occ kb v0)"
proof
  fix j
  let ?m = "poke m (hm_keys h + i * unat (hm_key_stride h)) kb"
  note r = storage_in_bounds(1) [OF assms(2,3)]
  show "hm_tab h ?m j = ((hm_tab h m)(i := Occ kb v0)) j"
  proof (cases "j < unat (hm_capacity h)")
    case True
    have c: "bytes ?m (hm_control h + j) = bytes m (hm_control h + j)"
      using storage_apart(1) [OF assms(1,2)] r True assms(4) by (intro bytes_poke_other) auto
    have v: "hm_value_at h ?m j = hm_value_at h m j"
      using storage_apart(3) [OF assms(1,2)] r storage_in_bounds(2) [OF assms(2) True] assms(4)
      by (intro peek_poke_other) auto
    have kj: "hm_key_at h ?m j = hm_key_at h m j" if "j \<noteq> i"
      using slots_apart [OF that, of "unat (hm_key_size h)" "unat (hm_key_stride h)"] assms(2,4)
      by (intro peek_poke_other) (auto simp: hm_storage_def hm_sizes_def)
    have ki: "hm_key_at h ?m i = kb" using assms(4) by (simp add: peek_poke_same)
    show ?thesis using True c v kj ki assms(5) by (cases "j = i") (auto simp: hm_tab_def)
  qed (use assms(3) in \<open>auto simp: hm_tab_def\<close>)
qed

lemma tab_poke_value:
  assumes "wf_mem m" "hm_storage h m" "i < unat (hm_capacity h)" "length vb = unat (hm_value_size h)"
    "hm_tab h m i = Occ k0 v0"
  shows "hm_tab h (poke m (hm_values h + i * unat (hm_value_stride h)) vb) = (hm_tab h m)(i := Occ k0 vb)"
proof
  fix j
  let ?m = "poke m (hm_values h + i * unat (hm_value_stride h)) vb"
  note r = storage_in_bounds(2) [OF assms(2,3)]
  show "hm_tab h ?m j = ((hm_tab h m)(i := Occ k0 vb)) j"
  proof (cases "j < unat (hm_capacity h)")
    case True
    have c: "bytes ?m (hm_control h + j) = bytes m (hm_control h + j)"
      using storage_apart(2) [OF assms(1,2)] r True assms(4) by (intro bytes_poke_other) auto
    have k: "hm_key_at h ?m j = hm_key_at h m j"
      using storage_apart(3) [OF assms(1,2)] r storage_in_bounds(1) [OF assms(2) True] assms(4)
      by (intro peek_poke_other) auto
    have vj: "hm_value_at h ?m j = hm_value_at h m j" if "j \<noteq> i"
      using slots_apart [OF that, of "unat (hm_value_size h)" "unat (hm_value_stride h)"] assms(2,4)
      by (intro peek_poke_other) (auto simp: hm_storage_def hm_sizes_def)
    have vi: "hm_value_at h ?m i = vb" using assms(4) by (simp add: peek_poke_same)
    show ?thesis using True c k vj vi assms(5) by (cases "j = i") (auto simp: hm_tab_def)
  qed (use assms(3) in \<open>auto simp: hm_tab_def\<close>)
qed

lemma storage_live: "live m' = live m \<Longrightarrow> hm_storage h m' = hm_storage h m"
  by (simp add: hm_storage_def)

lemma storage_keeps: "keeps (hm_blocks h) m m' \<Longrightarrow> hm_storage h m \<Longrightarrow> hm_storage h m'"
  by (auto simp: hm_storage_def dest: keeps_live)

lemma tab_keeps:
  assumes "hm_storage h m" "keeps (hm_blocks h) m m'"
  shows "hm_tab h m' = hm_tab h m"
proof
  fix i
  have "bytes m' (hm_control h + i) = bytes m (hm_control h + i)" "hm_key_at h m' i = hm_key_at h m i"
      "hm_value_at h m' i = hm_value_at h m i" if i: "i < unat (hm_capacity h)"
    using i storage_in_bounds [OF assms(1) i]
      keeps_bytes [OF assms(2), of "hm_control h" "unat (hm_capacity h)"]
      keeps_peek [OF assms(2), of "hm_keys h" "unat (hm_capacity h) * unat (hm_key_stride h)"]
      keeps_peek [OF assms(2), of "hm_values h" "unat (hm_capacity h) * unat (hm_value_stride h)"]
    by (auto simp: hm_blocks_def)
  then show "hm_tab h m' i = hm_tab h m i" by (simp add: hm_tab_def)
qed

text \<open>The memory after the three writes of \<open>store_entry\<close>: the control byte, the key, the value.\<close>

definition entry_mem :: "d4np_hashmap \<Rightarrow> nat \<Rightarrow> byte list \<Rightarrow> byte list \<Rightarrow> mem \<Rightarrow> mem" where
  "entry_mem h j kb vb m = poke (poke (poke m (hm_control h + j) [SLOT_OCCUPIED])
     (hm_keys h + j * unat (hm_key_stride h)) kb) (hm_values h + j * unat (hm_value_stride h)) vb"

lemma entry_mem_control:
  assumes "wf_mem m" "hm_storage h m" "j < unat (hm_capacity h)" "i < unat (hm_capacity h)"
    "length kb = unat (hm_key_size h)" "length vb = unat (hm_value_size h)"
  shows "bytes (entry_mem h j kb vb m) (hm_control h + i) = (if i = j then SLOT_OCCUPIED else bytes m (hm_control h + i))"
proof -
  note r = storage_in_bounds [OF assms(2,3)]
  have v: "bytes (poke m' (hm_values h + j * unat (hm_value_stride h)) vb) (hm_control h + i) = bytes m' (hm_control h + i)" for m'
    using storage_apart(2) [OF assms(1,2)] r(2) assms(4,6) by (intro bytes_poke_other) auto
  have k: "bytes (poke m' (hm_keys h + j * unat (hm_key_stride h)) kb) (hm_control h + i) = bytes m' (hm_control h + i)" for m'
    using storage_apart(1) [OF assms(1,2)] r(1) assms(4,5) by (intro bytes_poke_other) auto
  show ?thesis unfolding entry_mem_def v k using bytes_poke_in [of 0 "[SLOT_OCCUPIED]" m "hm_control h + j"] by (auto intro: bytes_poke_other)
qed

lemma entry_mem_tab:
  assumes "wf_mem m" "hm_storage h m" "j < unat (hm_capacity h)" "length kb = unat (hm_key_size h)" "length vb = unat (hm_value_size h)"
  shows "hm_tab h (entry_mem h j kb vb m) = (hm_tab h m)(j := Occ kb vb)"
proof -
  define m1 where "m1 = poke m (hm_control h + j) [SLOT_OCCUPIED]"
  define m2 where "m2 = poke m1 (hm_keys h + j * unat (hm_key_stride h)) kb"
  have lv: "live m1 = live m" "live m2 = live m" and wf: "wf_mem m1" "wf_mem m2" using assms(1) by (simp_all add: m1_def m2_def)
  have st: "hm_storage h m1" "hm_storage h m2" using assms(2) storage_live [OF lv(1)] storage_live [OF lv(2)] by simp_all
  have t1: "hm_tab h m1 = (hm_tab h m)(j := Occ (hm_key_at h m j) (hm_value_at h m j))"
    unfolding m1_def tab_poke_control [OF assms(1-3)] by simp
  have "hm_tab h m2 = (hm_tab h m1)(j := Occ kb (hm_value_at h m j))"
    unfolding m2_def by (rule tab_poke_key [OF wf(1) st(1) assms(3)]) (simp_all add: assms(4) t1)
  then have t2: "hm_tab h m2 = (hm_tab h m)(j := Occ kb (hm_value_at h m j))" by (simp add: t1)
  have "hm_tab h (entry_mem h j kb vb m) = (hm_tab h m2)(j := Occ kb vb)"
    unfolding entry_mem_def m1_def [symmetric] m2_def [symmetric] by (rule tab_poke_value [OF wf(2) st(2) assms(3)]) (simp_all add: assms(5) t2)
  then show ?thesis by (simp add: t2)
qed

text \<open>Storing an entry replaces slot \<open>j\<close> of the table and touches nothing outside the arrays.\<close>

lemma store_entry_ok:
  assumes "wf_mem m" "hm_storage h m" "unat j < unat (hm_capacity h)"
    "outside m (hm_blocks h) kp (unat (hm_key_size h))" "outside m (hm_blocks h) vp (unat (hm_value_size h))"
  shows "\<exists>m'. store_entry h j kp vp m = Some m' \<and> live m' = live m \<and> wf_mem m' \<and>
    keeps (set (live m) - hm_blocks h) m m' \<and>
    hm_tab h m' = (hm_tab h m)(unat j := Occ (peek m kp (unat (hm_key_size h))) (peek m vp (unat (hm_value_size h)))) \<and>
    (\<forall>i < unat (hm_capacity h). bytes m' (hm_control h + i) = (if i = unat j then SLOT_OCCUPIED else bytes m (hm_control h + i)))"
proof -
  let ?B = "hm_blocks h" and ?j = "unat j"
  let ?ka = "hm_keys h + ?j * unat (hm_key_stride h)" and ?va = "hm_values h + ?j * unat (hm_value_stride h)"
  define kb where "kb = peek m kp (unat (hm_key_size h))"
  define vb where "vb = peek m vp (unat (hm_value_size h))"
  define m1 where "m1 = poke m (hm_control h + ?j) [SLOT_OCCUPIED]"
  define m2 where "m2 = poke m1 ?ka kb"
  have m3: "entry_mem h ?j kb vb m = poke m2 ?va vb" by (simp add: entry_mem_def m1_def m2_def)
  have lv: "live m1 = live m" "live m2 = live m" and wf: "wf_mem m1" "wf_mem m2" using assms(1) by (simp_all add: m1_def m2_def)
  note b = storage_blocks [OF assms(2)] and r = storage_in_bounds [OF assms(2,3)]
  have inB: "(hm_control h, unat (hm_capacity h)) \<in> ?B"
    "(hm_keys h, unat (hm_capacity h) * unat (hm_key_stride h)) \<in> ?B"
    "(hm_values h, unat (hm_capacity h) * unat (hm_value_stride h)) \<in> ?B" by (simp_all add: hm_blocks_def)
  have k1: "keeps (set (live m) - ?B) m m1"
    unfolding m1_def by (rule keeps_poke_outside [OF assms(1) inB(1) b(1)]) (use assms(3) in auto)
  have k2: "keeps (set (live m) - ?B) m m2"
    unfolding m2_def using k1 r(1)
    by (rule_tac keeps_trans [OF k1]) (use keeps_poke_outside [OF wf(1) inB(2)] b(2) lv in \<open>auto simp: kb_def\<close>)
  have k3: "keeps (set (live m) - ?B) m (poke m2 ?va vb)"
    using r(2) by (rule_tac keeps_trans [OF k2]) (use keeps_poke_outside [OF wf(2) inB(3)] b(3) lv in \<open>auto simp: vb_def\<close>)
  have s1: "mem_write m (hm_control h + ?j) [SLOT_OCCUPIED] = Some m1"
    using storage_valid(1) [OF assms(2,3)] by (simp add: mem_write_Some m1_def)
  have "memcpy m1 ?ka kp (unat (hm_key_size h)) = Some (poke m1 ?ka (peek m1 kp (unat (hm_key_size h))))"
    using assms(4) b(2) lv r(1) by (intro memcpy_outside [OF wf(1) _ inB(2)]) (simp_all add: outside_live [OF lv(1)] outside_live [OF lv(2)])
  then have s2: "memcpy m1 (key_slot h j) kp (unat (hm_key_size h)) = Some m2"
    using outside_keeps(1) [OF assms(4) k1] storage_slot_addr(1) [OF assms(1-3)] by (simp add: m2_def kb_def)
  have "memcpy m2 ?va vp (unat (hm_value_size h)) = Some (poke m2 ?va (peek m2 vp (unat (hm_value_size h))))"
    using assms(5) b(3) lv r(2) by (intro memcpy_outside [OF wf(2) _ inB(3)]) (simp_all add: outside_live [OF lv(1)] outside_live [OF lv(2)])
  then have s3: "memcpy m2 (value_slot h j) vp (unat (hm_value_size h)) = Some (entry_mem h ?j kb vb m)"
    using outside_keeps(1) [OF assms(5) k2] storage_slot_addr(2) [OF assms(1-3)] unfolding m3 by (simp add: vb_def)
  have "store_entry h j kp vp m = Some (entry_mem h ?j kb vb m)" using s1 s2 s3 by (simp add: store_entry_def)
  moreover have "live (entry_mem h ?j kb vb m) = live m" "wf_mem (entry_mem h ?j kb vb m)" using lv wf by (simp_all add: m3)
  moreover note k3 [folded m3] entry_mem_tab [OF assms(1-3), of kb vb] entry_mem_control [OF assms(1-3), of _ kb vb]
  ultimately show ?thesis by (simp add: kb_def vb_def)
qed

end
