(* ===== verification/Hashmap_Refine.thy ===== *)
theory Hashmap_Refine
  imports Hashmap_Storage
begin

text \<open>
  The hash map is a finite map: for every allocator and every pair of hash and equality functions
  that keep their contracts, \<open>put\<close>, \<open>get\<close>, \<open>remove\<close>, \<open>clear\<close> and the internal \<open>resize\<close>
  act on \<open>hm_map\<close>, the map from key bytes to value bytes that the arrays represent, as the
  operations of a dictionary do.
\<close>

section \<open>Contract of the hash and equality functions\<close>

text \<open>Both look at the key bytes only; equality is an equivalence and equal keys hash alike.\<close>

locale hash_contract = key_laws "\<lambda>k. unat (H k)" E
  for H :: "byte list \<Rightarrow> uint64" and E :: "byte list \<Rightarrow> byte list \<Rightarrow> bool" +
  fixes hash :: hash_fn and key_eq :: key_eq_fn and ksz :: size_t
  assumes hash_ok: "valid m p (unat ksz) \<Longrightarrow> hash p ksz m = Some (H (peek m p (unat ksz)))"
    and key_eq_ok: "valid m p (unat ksz) \<Longrightarrow> valid m q (unat ksz) \<Longrightarrow>
      key_eq p q ksz m = Some (E (peek m p (unat ksz)) (peek m q (unat ksz)))"

lemma default_hash_ok: "valid m p (unat n) \<Longrightarrow> default_hash p n m = Some (fnv1a (peek m p (unat n)))"
  by (simp add: default_hash_def fnv1a_loop_ok fnv1a_def)

interpretation default_keys: hash_contract fnv1a "(=)" default_hash default_key_eq ksz
  by unfold_locales (auto simp: default_hash_ok default_key_eq_def mem_read_Some)

section \<open>Invariant and abstraction\<close>

definition ctl_ok :: "d4np_hashmap \<Rightarrow> mem \<Rightarrow> bool" where
  "ctl_ok h m \<longleftrightarrow> (\<forall>i < unat (hm_capacity h). bytes m (hm_control h + i) \<in> {SLOT_EMPTY, SLOT_OCCUPIED, SLOT_DELETED})"

definition hm_inv ::
  "(byte list \<Rightarrow> uint64) \<Rightarrow> (byte list \<Rightarrow> byte list \<Rightarrow> bool) \<Rightarrow> d4np_hashmap \<Rightarrow> mem \<Rightarrow> bool" where
  "hm_inv H E h m \<longleftrightarrow> hm_sizes h \<and>
     (if hm_capacity h = 0
      then hm_control h = NULL \<and> hm_keys h = NULL \<and> hm_values h = NULL \<and> hm_len h = 0 \<and> hm_tombstones h = 0
      else hm_storage h m \<and> ctl_ok h m \<and> tab_ok (\<lambda>k. unat (H k)) E (unat (hm_capacity h)) (hm_tab h m) \<and>
        occ_count (unat (hm_capacity h)) (hm_tab h m) = unat (hm_len h) \<and>
        del_count (unat (hm_capacity h)) (hm_tab h m) = unat (hm_tombstones h) \<and>
        4 * (unat (hm_len h) + unat (hm_tombstones h)) < 3 * unat (hm_capacity h))"

definition hm_map :: "(byte list \<Rightarrow> byte list \<Rightarrow> bool) \<Rightarrow> d4np_hashmap \<Rightarrow> mem \<Rightarrow> byte list \<Rightarrow> byte list option" where
  "hm_map E h m = tab_map E (unat (hm_capacity h)) (hm_tab h m)"

lemma hm_inv_empty_slot:
  assumes "hm_inv H E h m" "hm_capacity h \<noteq> 0"
  shows "\<exists>i < unat (hm_capacity h). hm_tab h m i = Empty"
  using assms by (intro empty_exists) (auto simp: hm_inv_def)

lemma probe_index:
  assumes "hm_storage h m" "wf_mem m" "unat probe < unat (hm_capacity h)"
  shows "unat (((hv AND (hm_capacity h - 1)) + probe) AND (hm_capacity h - 1)) = (unat hv + unat probe) mod unat (hm_capacity h)"
proof -
  from storage_cap [OF assms(1)] obtain k where k: "hm_capacity h = 2 ^ k" "unat (hm_capacity h) = 2 ^ k" by metis
  have s: "unat (hv AND (hm_capacity h - 1)) = unat hv mod 2 ^ k" by (simp add: k(1) unat_and_pow2_mask)
  have "unat (hv AND (hm_capacity h - 1)) < unat (hm_capacity h)" using s k(2) by simp
  then have "unat (hv AND (hm_capacity h - 1)) + unat probe < 2 ^ 64"
    using assms(3) storage_cap_bound(1) [OF assms(2,1)] by simp
  then have "unat ((hv AND (hm_capacity h - 1)) + probe) = unat hv mod 2 ^ k + unat probe"
    using s unat_add_exact by metis
  then show ?thesis
    unfolding k(2) by (subst k(1), subst unat_and_pow2_mask) (simp add: mod_add_left_eq)
qed

lemma probe_suc: "unat (probe :: size_t) < unat (c :: size_t) \<Longrightarrow> unat (probe + 1) = Suc (unat probe)"
  using unat_bound64 [of c] unat_add_exact [of probe 1] by simp

lemma not_SIZE_MAX: "unat (i :: size_t) < 2 ^ 63 \<Longrightarrow> i \<noteq> SIZE_MAX"
  by (auto simp del: SIZE_MAX_unat simp add: SIZE_MAX_unat [symmetric]) (simp add: SIZE_MAX_unat)

section \<open>Locating a key\<close>

context hash_contract
begin

text \<open>What a probe that has visited the first \<open>d\<close> slots knows.\<close>

definition probed :: "d4np_hashmap \<Rightarrow> mem \<Rightarrow> byte list \<Rightarrow> nat \<Rightarrow> bool" where
  "probed h m x d \<longleftrightarrow> (\<forall>e < d. hm_tab h m ((unat (H x) + e) mod unat (hm_capacity h)) \<noteq> Empty \<and>
     (\<forall>k v. hm_tab h m ((unat (H x) + e) mod unat (hm_capacity h)) = Occ k v \<longrightarrow> \<not> E k x))"

definition located :: "d4np_hashmap \<Rightarrow> mem \<Rightarrow> byte list \<Rightarrow> size_t \<Rightarrow> bool \<Rightarrow> bool" where
  "located h m x i found \<longleftrightarrow> unat i < unat (hm_capacity h) \<and>
     (if found then \<exists>k v. hm_tab h m (unat i) = Occ k v \<and> E k x
      else absent E (unat (hm_capacity h)) (hm_tab h m) x \<and> \<not> is_occ (hm_tab h m (unat i)) \<and>
        reach (unat (hm_capacity h)) (unat (H x)) (hm_tab h m) (unat i))"

text \<open>An empty slot ends the search; the first tombstone on the way, if there was one, is the place for the key.\<close>

lemma located_at_empty:
  assumes "tab_ok (\<lambda>k. unat (H k)) E (unat (hm_capacity h)) (hm_tab h m)" "probed h m x d" "d < unat (hm_capacity h)"
    "unat i = (unat (H x) + d) mod unat (hm_capacity h)" "hm_tab h m (unat i) = Empty"
    "ft = SIZE_MAX \<or> (\<exists>e < d. unat ft = (unat (H x) + e) mod unat (hm_capacity h) \<and> hm_tab h m (unat ft) = Deleted)"
  shows "located h m x (if ft \<noteq> SIZE_MAX then ft else i) False"
proof -
  let ?c = "unat (hm_capacity h)" and ?t = "hm_tab h m"
  have abs: "absent E ?c ?t x"
  proof (rule stop_absent [where h = "unat (H x)" and d = d])
    show "?t ((unat (H x) + d) mod ?c) = Empty" using assms(4,5) by simp
  qed (use assms(2) occ_reach [OF assms(1)] in \<open>auto simp: probed_def\<close>)
  have reachi: "reach ?c (unat (H x)) ?t ((unat (H x) + e) mod ?c)" if "e \<le> d" for e
    using that assms(2,3) unfolding reach_def probed_def by (intro exI [of _ e]) auto
  show ?thesis
  proof (cases "ft = SIZE_MAX")
    case True
    then show ?thesis using abs assms(3-5) reachi [of d] by (auto simp: located_def)
  next
    case False
    then obtain e where "e < d" "unat ft = (unat (H x) + e) mod ?c" "?t (unat ft) = Deleted" using assms(6) by auto
    then show ?thesis using abs False reachi [of e] assms(3) by (auto simp: located_def)
  qed
qed

text \<open>One turn of the loop, in terms of the table.\<close>

lemma locate_unfold:
  assumes "wf_mem m" "hm_storage h m" "ctl_ok h m" "hm_key_eq h = key_eq" "hm_key_size h = ksz" "valid m key (unat ksz)"
    "unat probe < unat (hm_capacity h)"
  defines "x \<equiv> peek m key (unat ksz)"
  defines "i \<equiv> ((H x AND (hm_capacity h - 1)) + probe) AND (hm_capacity h - 1)"
  shows "unat i = (unat (H x) + unat probe) mod unat (hm_capacity h)"
    "locate_loop h key (hm_capacity h - 1) (H x AND (hm_capacity h - 1)) probe ft m =
      (case hm_tab h m (unat i) of
         Empty \<Rightarrow> Some (if ft \<noteq> SIZE_MAX then ft else i, False)
       | Occ k v \<Rightarrow> if E k x then Some (i, True) else locate_loop h key (hm_capacity h - 1) (H x AND (hm_capacity h - 1)) (probe + 1) ft m
       | Deleted \<Rightarrow> locate_loop h key (hm_capacity h - 1) (H x AND (hm_capacity h - 1)) (probe + 1) (if ft = SIZE_MAX then i else ft) m)"
proof -
  show i: "unat i = (unat (H x) + unat probe) mod unat (hm_capacity h)" unfolding i_def by (rule probe_index [OF assms(2,1,7)])
  then have ic: "unat i < unat (hm_capacity h)" using assms(7) by simp
  have rd: "read_byte m (hm_control h + unat i) = Some (bytes m (hm_control h + unat i))"
    by (rule read_byte_Some [OF storage_valid(1) [OF assms(2) ic]])
  have tab: "hm_tab h m (unat i) = slot_of (bytes m (hm_control h + unat i)) (hm_key_at h m (unat i)) (hm_value_at h m (unat i))"
    using ic by (simp add: hm_tab_def)
  have eq: "hm_key_eq h (key_slot h i) key (hm_key_size h) m = Some (E (hm_key_at h m (unat i)) x)"
    using key_eq_ok [of m "hm_keys h + unat i * unat (hm_key_stride h)" key] storage_valid(2) [OF assms(2) ic] assms(4-6)
      storage_slot_addr(1) [OF assms(1,2) ic] by (simp add: x_def)
  have lt: "probe < hm_capacity h" using assms(7) by (simp add: word_less_nat_alt)
  have "bytes m (hm_control h + unat i) \<in> {SLOT_EMPTY, SLOT_OCCUPIED, SLOT_DELETED}" using assms(3) ic by (simp add: ctl_ok_def)
  then show "locate_loop h key (hm_capacity h - 1) (H x AND (hm_capacity h - 1)) probe ft m =
      (case hm_tab h m (unat i) of
         Empty \<Rightarrow> Some (if ft \<noteq> SIZE_MAX then ft else i, False)
       | Occ k v \<Rightarrow> if E k x then Some (i, True) else locate_loop h key (hm_capacity h - 1) (H x AND (hm_capacity h - 1)) (probe + 1) ft m
       | Deleted \<Rightarrow> locate_loop h key (hm_capacity h - 1) (H x AND (hm_capacity h - 1)) (probe + 1) (if ft = SIZE_MAX then i else ft) m)"
    using lt rd eq tab by (subst locate_loop.simps) (auto simp: Let_def i_def)
qed

lemma locate_loop_ok:
  assumes "wf_mem m" "hm_storage h m" "ctl_ok h m" "tab_ok (\<lambda>k. unat (H k)) E (unat (hm_capacity h)) (hm_tab h m)"
    "\<exists>i < unat (hm_capacity h). hm_tab h m i = Empty" "hm_key_eq h = key_eq" "hm_key_size h = ksz"
    "valid m key (unat ksz)"
  defines "x \<equiv> peek m key (unat ksz)"
  assumes "unat probe \<le> unat (hm_capacity h)" "probed h m x (unat probe)"
    "ft = SIZE_MAX \<or> (\<exists>e < unat probe. unat ft = (unat (H x) + e) mod unat (hm_capacity h) \<and> hm_tab h m (unat ft) = Deleted)"
  shows "\<exists>i found. locate_loop h key (hm_capacity h - 1) (H x AND (hm_capacity h - 1)) probe ft m = Some (i, found) \<and>
    located h m x i found"
  using assms(10-12)
proof (induction "unat (hm_capacity h) - unat probe" arbitrary: probe ft)
  case 0
  let ?c = "unat (hm_capacity h)"
  from assms(5) obtain i where i: "i < ?c" "hm_tab h m i = Empty" by auto
  obtain d where "d < ?c" "i = (unat (H x) + d) mod ?c" using mod_shift [OF i(1)] by metis
  with i 0 show ?case by (auto simp: probed_def)
next
  case (Suc n)
  let ?c = "unat (hm_capacity h)" and ?t = "hm_tab h m" and ?d = "unat probe"
  let ?l = "\<lambda>probe ft. locate_loop h key (hm_capacity h - 1) (H x AND (hm_capacity h - 1)) probe ft m"
  define i where "i = ((H x AND (hm_capacity h - 1)) + probe) AND (hm_capacity h - 1)"
  have d: "?d < ?c" using Suc(2) by linarith
  note u = locate_unfold(1) [OF assms(1-3,6-8) d, folded x_def, folded i_def] locate_unfold(2) [OF assms(1-3,6-8) d, folded x_def, folded i_def, of ft]
  show ?case
  proof (cases "?t (unat i)")
    case Empty
    then have "?l probe ft = Some (if ft \<noteq> SIZE_MAX then ft else i, False)" using u(2) by simp
    then show ?thesis using located_at_empty [OF assms(4) Suc(4) d u(1) Empty Suc(5)] by blast
  next
    case (Occ k v)
    show ?thesis
    proof (cases "E k x")
      case True
      then have "?l probe ft = Some (i, True)" using Occ u(2) by simp
      then show ?thesis using Occ True u(1) d by (auto simp: located_def)
    next
      case False
      then have step: "?l probe ft = ?l (probe + 1) ft" using Occ u(2) by simp
      have "probed h m x (Suc ?d)" using Suc(4) Occ False u(1) by (auto simp: probed_def less_Suc_eq)
      moreover have "ft = SIZE_MAX \<or> (\<exists>e < Suc ?d. unat ft = (unat (H x) + e) mod ?c \<and> ?t (unat ft) = Deleted)" using Suc(5) less_SucI by blast
      ultimately show ?thesis using Suc(1) [of "probe + 1" ft] Suc(2) d unfolding step probe_suc [OF d] by auto
    qed
  next
    case Deleted
    let ?ft = "if ft = SIZE_MAX then i else ft"
    have step: "?l probe ft = ?l (probe + 1) ?ft" using Deleted u(2) by simp
    have "probed h m x (Suc ?d)" using Suc(4) Deleted u(1) by (auto simp: probed_def less_Suc_eq)
    moreover have "\<exists>e < Suc ?d. unat ?ft = (unat (H x) + e) mod ?c \<and> ?t (unat ?ft) = Deleted" using Suc(5) u(1) Deleted by (auto simp: less_Suc_eq)
    ultimately show ?thesis using Suc(1) [of "probe + 1" ?ft] Suc(2) d unfolding step probe_suc [OF d] by auto
  qed
qed

lemma locate_ok:
  assumes "wf_mem m" "hm_inv H E h m" "hm_capacity h \<noteq> 0"
    "hm_hash h = hash" "hm_key_eq h = key_eq" "hm_key_size h = ksz" "valid m key (unat ksz)"
  obtains i found where "locate h key m = Some (i, found)" "located h m (peek m key (unat ksz)) i found"
proof -
  have "\<exists>i found. locate_loop h key (hm_capacity h - 1) (H (peek m key (unat ksz)) AND (hm_capacity h - 1)) 0 SIZE_MAX m =
      Some (i, found) \<and> located h m (peek m key (unat ksz)) i found"
    using assms(2,3,5-7)
    by (intro locate_loop_ok [OF assms(1)] hm_inv_empty_slot [OF assms(2,3)]) (auto simp: hm_inv_def probed_def)
  with that show thesis
    using hash_ok [OF assms(7)] assms(4,6) by (auto simp: locate_def)
qed

end

section \<open>Moving the entries to a new table\<close>

context hash_contract
begin

lemma rehash_probe_ok:
  assumes "wf_mem m" "hm_storage h m" "\<exists>i < unat (hm_capacity h). hm_tab h m i = Empty"
    "outside m (hm_blocks h) kp (unat (hm_key_size h))" "outside m (hm_blocks h) vp (unat (hm_value_size h))"
  defines "k \<equiv> peek m kp (unat (hm_key_size h))" and "v \<equiv> peek m vp (unat (hm_value_size h))"
  assumes "unat probe \<le> unat (hm_capacity h)"
    "\<forall>e < unat probe. hm_tab h m ((unat hv + e) mod unat (hm_capacity h)) \<noteq> Empty"
  shows "\<exists>j m'. rehash_probe h (hm_capacity h - 1) (hv AND (hm_capacity h - 1)) probe kp vp m = Some m' \<and>
    live m' = live m \<and> wf_mem m' \<and> keeps (set (live m) - hm_blocks h) m m' \<and>
    hm_tab h m j = Empty \<and> reach (unat (hm_capacity h)) (unat hv) (hm_tab h m) j \<and>
    hm_tab h m' = (hm_tab h m)(j := Occ k v) \<and> (ctl_ok h m \<longrightarrow> ctl_ok h m')"
  using assms(8,9)
proof (induction "unat (hm_capacity h) - unat probe" arbitrary: probe)
  case 0
  let ?c = "unat (hm_capacity h)"
  from assms(3) obtain i where i: "i < ?c" "hm_tab h m i = Empty" by auto
  obtain d where "d < ?c" "i = (unat hv + d) mod ?c" using mod_shift [OF i(1)] by metis
  with i 0 show ?case by auto
next
  case (Suc n)
  let ?c = "unat (hm_capacity h)" and ?t = "hm_tab h m" and ?d = "unat probe"
  let ?l = "\<lambda>probe ft. locate_loop h key (hm_capacity h - 1) (H x AND (hm_capacity h - 1)) probe ft m"
  define i where "i = ((hv AND (hm_capacity h - 1)) + probe) AND (hm_capacity h - 1)"
  have d: "?d < ?c" using Suc(2) by linarith
  have i: "unat i = (unat hv + ?d) mod ?c" unfolding i_def by (rule probe_index [OF assms(2,1) d])
  have ic: "unat i < ?c" using i d by simp
  have rd: "read_byte m (hm_control h + unat i) = Some (bytes m (hm_control h + unat i))"
    by (rule read_byte_Some [OF storage_valid(1) [OF assms(2) ic]])
  have lt: "probe < hm_capacity h" using d by (simp add: word_less_nat_alt)
  have tab: "?t (unat i) = Empty \<longleftrightarrow> bytes m (hm_control h + unat i) = SLOT_EMPTY"
    using ic by (simp add: hm_tab_def)
  show ?case
  proof (cases "bytes m (hm_control h + unat i) = SLOT_EMPTY")
    case True
    then have step: "rehash_probe h (hm_capacity h - 1) (hv AND (hm_capacity h - 1)) probe kp vp m =
        store_entry h i kp vp m"
      using lt rd by (subst rehash_probe.simps) (simp add: Let_def i_def)
    have "reach ?c (unat hv) ?t (unat i)" unfolding reach_def i using d Suc(4) by auto
    with store_entry_ok [OF assms(1,2) ic assms(4,5)] True tab step show ?thesis
      by (auto simp: k_def v_def ctl_ok_def)
  next
    case False
    then have step: "rehash_probe h (hm_capacity h - 1) (hv AND (hm_capacity h - 1)) probe kp vp m =
        rehash_probe h (hm_capacity h - 1) (hv AND (hm_capacity h - 1)) (probe + 1) kp vp m"
      using lt rd by (subst rehash_probe.simps) (simp add: Let_def i_def)
    have "\<forall>e < Suc ?d. ?t ((unat hv + e) mod ?c) \<noteq> Empty"
      using Suc(4) False tab i by (auto simp: less_Suc_eq)
    with Suc(1) [of "probe + 1"] Suc(2) d show ?thesis unfolding step probe_suc [OF d] by auto
  qed
qed

text \<open>The new map \<open>h'\<close> holds exactly the entries of the first \<open>i\<close> slots of the old table \<open>t\<close>.\<close>

definition moved :: "d4np_hashmap \<Rightarrow> mem \<Rightarrow> (byte list, byte list) table \<Rightarrow> nat \<Rightarrow> bool" where
  "moved h' m t i \<longleftrightarrow> wf_mem m \<and> hm_storage h' m \<and> ctl_ok h' m \<and>
     tab_ok (\<lambda>k. unat (H k)) E (unat (hm_capacity h')) (hm_tab h' m) \<and>
     entries (unat (hm_capacity h')) (hm_tab h' m) = entries i t \<and>
     occ_count (unat (hm_capacity h')) (hm_tab h' m) = occ_count i t \<and>
     del_count (unat (hm_capacity h')) (hm_tab h' m) = 0"

lemma moved_step:
  assumes "moved h' m t i" "tab_ok (\<lambda>k. unat (H k)) E c t" "i < c" "t i = Occ k v" "occ_count i t < unat (hm_capacity h')"
    "outside m (hm_blocks h') kp (unat (hm_key_size h'))" "outside m (hm_blocks h') vp (unat (hm_value_size h'))"
    "peek m kp (unat (hm_key_size h')) = k" "peek m vp (unat (hm_value_size h')) = v"
  shows "\<exists>m'. rehash_probe h' (hm_capacity h' - 1) (H k AND (hm_capacity h' - 1)) 0 kp vp m = Some m' \<and>
    live m' = live m \<and> keeps (set (live m) - hm_blocks h') m m' \<and> moved h' m' t (Suc i)"
proof -
  let ?c = "unat (hm_capacity h')" and ?t = "hm_tab h' m"
  have mv: "wf_mem m" "hm_storage h' m" "ctl_ok h' m" "tab_ok (\<lambda>k. unat (H k)) E ?c ?t" "entries ?c ?t = entries i t"
      "occ_count ?c ?t = occ_count i t" "del_count ?c ?t = 0" using assms(1) by (auto simp: moved_def)
  have "\<exists>i < ?c. ?t i = Empty" using mv assms(5) by (intro empty_exists) simp
  from rehash_probe_ok [OF mv(1,2) this assms(6,7), of 0 "H k"] assms(8,9) obtain j m' where
    p: "rehash_probe h' (hm_capacity h' - 1) (H k AND (hm_capacity h' - 1)) 0 kp vp m = Some m'"
      "live m' = live m" "wf_mem m'" "keeps (set (live m) - hm_blocks h') m m'" "?t j = Empty"
      "reach ?c (unat (H k)) ?t j" "hm_tab h' m' = ?t(j := Occ k v)" "ctl_ok h' m'" using mv(3) by auto
  have abs: "absent E ?c ?t k"
    unfolding absent_def
  proof (intro allI impI)
    fix l k' w assume "l < ?c" "?t l = Occ k' w"
    then have "(k', w) \<in> entries ?c ?t" by (auto simp: entries_def)
    then have "(k', w) \<in> entries i t" using mv(5) by simp
    then obtain l' where l': "l' < i" "t l' = Occ k' w" by (auto simp: entries_def)
    then show "\<not> E k' k" using same_slot [OF assms(2), of l' i k' w k v] assms(3,4) by auto
  qed
  have jc: "j < ?c" using p(6) by (rule reach_bound)
  note ins = tab_ok_insert [OF mv(4) p(6) _ abs, of v]
  have "moved h' m' t (Suc i)"
    unfolding moved_def using p(2,3,5,7,8) mv assms(4) ins jc storage_live [OF p(2)]
      occ_count_update [OF jc, of ?t "Occ k v"] del_count_update [OF jc, of ?t "Occ k v"]
    by (simp add: entries_Suc occ_count_Suc)
  with p show ?thesis by blast
qed

text \<open>One occupied slot of the old table is moved.\<close>

lemma rehash_occupied:
  assumes "moved h' m t (unat i)" "tab_ok (\<lambda>k. unat (H k)) E c t" "unat i < c" "occ_count c t < unat (hm_capacity h')"
    "hm_storage h m" "t = hm_tab h m" "c = unat (hm_capacity h)" "hm_blocks h \<inter> hm_blocks h' = {}"
    "hm_hash h' = hash" "hm_key_size h' = ksz" "hm_key_size h = ksz" "hm_value_size h' = hm_value_size h"
    "hm_key_stride h' = hm_key_stride h" "hm_value_stride h' = hm_value_stride h"
    "bytes m (hm_control h + unat i) = SLOT_OCCUPIED"
  defines "kp \<equiv> hm_keys h + unat (i * hm_key_stride h')" and "vp \<equiv> hm_values h + unat (i * hm_value_stride h')"
  shows "\<exists>m1. hm_hash h' kp (hm_key_size h') m = Some (H (hm_key_at h m (unat i))) \<and>
    rehash_probe h' (hm_capacity h' - 1) (H (hm_key_at h m (unat i)) AND (hm_capacity h' - 1)) 0 kp vp m = Some m1 \<and>
    live m1 = live m \<and> keeps (set (live m) - hm_blocks h') m m1 \<and> moved h' m1 t (Suc (unat i))"
proof -
  let ?i = "unat i"
  have wf: "wf_mem m" using assms(1) by (simp add: moved_def)
  have addr: "kp = hm_keys h + ?i * unat (hm_key_stride h)" "vp = hm_values h + ?i * unat (hm_value_stride h)"
    using storage_slot_addr [OF wf assms(5), of i] assms(3,7,13,14) by (simp_all add: key_slot_def value_slot_def kp_def vp_def)
  have "hm_blocks h \<subseteq> set (live m) - hm_blocks h'" using assms(5,8) by (auto simp: hm_storage_def)
  then have bl: "(hm_keys h, c * unat (hm_key_stride h)) \<in> set (live m) - hm_blocks h'"
    "(hm_values h, c * unat (hm_value_stride h)) \<in> set (live m) - hm_blocks h'" by (auto simp: hm_blocks_def assms(7))
  have r: "?i * unat (hm_key_stride h) + unat ksz \<le> c * unat (hm_key_stride h)"
    "?i * unat (hm_value_stride h) + unat (hm_value_size h) \<le> c * unat (hm_value_stride h)"
    using storage_in_bounds [OF assms(5), of ?i] assms(3,7,11) by simp_all
  have out: "outside m (hm_blocks h') kp (unat (hm_key_size h'))" by (rule outsideI [OF bl(1)]) (use r(1) addr(1) assms(10) in simp_all)
  have outv: "outside m (hm_blocks h') vp (unat (hm_value_size h'))" by (rule outsideI [OF bl(2)]) (use r(2) addr(2) assms(12) in simp_all)
  have hv: "hm_hash h' kp (hm_key_size h') m = Some (H (hm_key_at h m ?i))"
    using hash_ok [of m kp] outside_valid [OF out] assms(9-11) addr(1) by simp
  have occ: "t ?i = Occ (hm_key_at h m ?i) (hm_value_at h m ?i)" using assms(3,6,7,15) by (simp add: hm_tab_def)
  have cnt: "occ_count ?i t < unat (hm_capacity h')" using assms(4) occ_count_mono [of ?i c t] assms(3) by simp
  from moved_step [OF assms(1-3) occ cnt out outv] assms(10-12) hv addr show ?thesis by auto
qed

lemma rehash_ok:
  assumes "moved h' m t (unat i)" "tab_ok (\<lambda>k. unat (H k)) E c t" "unat i + n = c" "occ_count c t < unat (hm_capacity h')"
    "hm_storage h m" "t = hm_tab h m" "c = unat (hm_capacity h)" "hm_blocks h \<inter> hm_blocks h' = {}"
    "hm_hash h' = hash" "hm_key_size h' = ksz" "hm_key_size h = ksz" "hm_value_size h' = hm_value_size h"
    "hm_key_stride h' = hm_key_stride h" "hm_value_stride h' = hm_value_stride h"
  shows "\<exists>m'. rehash h' (hm_control h) (hm_keys h) (hm_values h) i n m = Some m' \<and>
    live m' = live m \<and> keeps (set (live m) - hm_blocks h') m m' \<and> moved h' m' t c"
  using assms(1,3,5,6)
proof (induction n arbitrary: i m)
  case 0
  then show ?case by auto
next
  case (Suc n)
  let ?i = "unat i"
  have i: "?i < c" using Suc(3) by simp
  have wf: "wf_mem m" using Suc(2) by (simp add: moved_def)
  have si: "unat (i + 1) = Suc ?i" using i assms(7) probe_suc by simp
  have rd: "read_byte m (hm_control h + ?i) = Some (bytes m (hm_control h + ?i))"
    using storage_valid(1) [OF Suc(4)] i assms(7) by (simp add: read_byte_Some)
  have ti: "t ?i = slot_of (bytes m (hm_control h + ?i)) (hm_key_at h m ?i) (hm_value_at h m ?i)"
    using i assms(7) Suc(5) by (simp add: hm_tab_def)
  have next_step: ?case if m1: "moved h' m1 t (Suc ?i)" "live m1 = live m" "keeps (set (live m) - hm_blocks h') m m1"
    and red: "rehash h' (hm_control h) (hm_keys h) (hm_values h) i (Suc n) m =
      rehash h' (hm_control h) (hm_keys h) (hm_values h) (i + 1) n m1" for m1
  proof -
    have kb: "keeps (hm_blocks h) m m1"
      using m1(3) Suc(4) assms(8) by (auto simp: hm_storage_def intro: keeps_mono)
    have "hm_storage h m1" using storage_live [OF m1(2)] Suc(4) by simp
    moreover have "t = hm_tab h m1" using tab_keeps [OF Suc(4) kb] Suc(5) by simp
    ultimately obtain m' where "rehash h' (hm_control h) (hm_keys h) (hm_values h) (i + 1) n m1 = Some m'"
      "live m' = live m1" "keeps (set (live m1) - hm_blocks h') m1 m'" "moved h' m' t c"
      using Suc(1) [of m1 "i + 1"] m1(1) si Suc(3) by auto
    with m1 red show ?thesis by (auto intro: keeps_trans)
  qed
  show ?case
  proof (cases "bytes m (hm_control h + ?i) = SLOT_OCCUPIED")
    case False
    then have "\<not> is_occ (t ?i)" using ti by simp
    then have "entries (Suc ?i) t = entries ?i t" "occ_count (Suc ?i) t = occ_count ?i t"
      by (cases "t ?i"; simp add: entries_Suc occ_count_Suc)+
    then have "moved h' m t (Suc ?i)" using Suc(2) by (simp only: moved_def)
    then show ?thesis using False rd by (intro next_step [of m]) auto
  next
    case True
    from rehash_occupied [OF Suc(2) assms(2) i assms(4) Suc(4,5) assms(7-14) True] obtain m1 where
      "hm_hash h' (hm_keys h + unat (i * hm_key_stride h')) (hm_key_size h') m = Some (H (hm_key_at h m ?i))"
      "rehash_probe h' (hm_capacity h' - 1) (H (hm_key_at h m ?i) AND (hm_capacity h' - 1)) 0
         (hm_keys h + unat (i * hm_key_stride h')) (hm_values h + unat (i * hm_value_stride h')) m = Some m1"
      "live m1 = live m" "keeps (set (live m) - hm_blocks h') m m1" "moved h' m1 t (Suc ?i)" by blast
    then show ?thesis using True rd by (intro next_step [of m1]) auto
  qed
qed

lemma ctl_keeps:
  assumes "ctl_ok h m" "keeps (hm_blocks h) m m'"
  shows "ctl_ok h m'"
  using assms keeps_bytes [OF assms(2), of "hm_control h" "unat (hm_capacity h)"]
  by (auto simp: ctl_ok_def hm_blocks_def)

lemma moved_keeps:
  assumes "moved h m t c" "keeps (hm_blocks h) m m'" "wf_mem m'"
  shows "moved h m' t c"
proof -
  have "hm_storage h m" using assms(1) by (simp add: moved_def)
  with assms tab_keeps [OF this assms(2)] storage_keeps [OF assms(2) this] ctl_keeps [OF _ assms(2)]
  show ?thesis by (simp add: moved_def)
qed

lemma fresh_table:
  assumes "wf_mem m" "hm_storage h m"
  shows "\<exists>m'. memset m (hm_control h) SLOT_EMPTY (unat (hm_capacity h)) = Some m' \<and> live m' = live m \<and> wf_mem m' \<and>
    keeps (set (live m) - hm_blocks h) m m' \<and> hm_tab h m' = (\<lambda>_. Empty) \<and> moved h m' t 0"
proof -
  let ?m = "poke m (hm_control h) (replicate (unat (hm_capacity h)) SLOT_EMPTY)"
  note b = storage_blocks(1) [OF assms(2)]
  have ms: "memset m (hm_control h) SLOT_EMPTY (unat (hm_capacity h)) = Some ?m"
    by (rule memset_Some) (rule validI [OF b], simp_all)
  have k: "keeps (set (live m) - hm_blocks h) m ?m"
    by (rule keeps_poke_outside [OF assms(1) _ b]) (simp_all add: hm_blocks_def)
  have z: "bytes ?m (hm_control h + i) = SLOT_EMPTY" if "i < unat (hm_capacity h)" for i
    using that bytes_poke_in [of i "replicate (unat (hm_capacity h)) SLOT_EMPTY" m "hm_control h"] by simp
  then have tab: "hm_tab h ?m = (\<lambda>_. Empty)" by (auto simp: hm_tab_def fun_eq_iff)
  have "moved h ?m t 0"
    using assms z by (simp add: moved_def tab storage_live [of ?m m] ctl_ok_def tab_ok_empty)
      (simp add: entries_def occ_count_def)
  with ms k tab assms(1) show ?thesis by simp
qed

lemma inv_of_moved:
  assumes "moved h m t c" "hm_tombstones h = 0" "unat (hm_len h) = occ_count c t"
    "4 * unat (hm_len h) < 3 * unat (hm_capacity h)"
  shows "hm_inv H E h m"
  using assms by (auto simp: moved_def hm_inv_def hm_storage_def)

lemma inv_tab:
  assumes "hm_inv H E h m"
  shows "tab_ok (\<lambda>k. unat (H k)) E (unat (hm_capacity h)) (hm_tab h m)"
    "occ_count (unat (hm_capacity h)) (hm_tab h m) = unat (hm_len h)"
    "del_count (unat (hm_capacity h)) (hm_tab h m) = unat (hm_tombstones h)"
  using assms by (auto simp: hm_inv_def tab_ok_def occ_count_def del_count_def split: if_splits)

lemma inv_keeps:
  assumes "hm_inv H E h m" "keeps (hm_blocks h \<inter> set (live m)) m m'"
  shows "hm_inv H E h m'" "hm_tab h m' = hm_tab h m"
proof -
  have *: "hm_inv H E h m' \<and> hm_tab h m' = hm_tab h m"
  proof (cases "hm_capacity h = 0")
    case True
    then have "hm_tab h m' = hm_tab h m" by (simp add: hm_tab_def fun_eq_iff)
    with True assms(1) show ?thesis by (simp add: hm_inv_def)
  next
    case False
    then have s: "hm_storage h m" using assms(1) by (simp add: hm_inv_def)
    then have "hm_blocks h \<inter> set (live m) = hm_blocks h" by (auto simp: hm_storage_def)
    then have k: "keeps (hm_blocks h) m m'" using assms(2) by simp
    show ?thesis using assms(1) False tab_keeps [OF s k] storage_keeps [OF k s] ctl_keeps [OF _ k]
      by (simp add: hm_inv_def)
  qed
  then show "hm_inv H E h m'" "hm_tab h m' = hm_tab h m" by simp_all
qed

end

section \<open>Growing\<close>

locale hashmap_env = allocator_contract A + hash_contract H E hash key_eq ksz
  for A H E hash key_eq ksz
begin

definition uses :: "d4np_hashmap \<Rightarrow> bool" where
  "uses h \<longleftrightarrow> hm_allocator h = Some A \<and> hm_hash h = hash \<and> hm_key_eq h = key_eq \<and> hm_key_size h = ksz"

text \<open>Giving the arrays back.\<close>

lemma free_old:
  assumes "wf_mem m" "hm_inv H E h m" "uses h" "keeps (set (live m)) m m5" "wf_mem m5"
  shows "\<exists>m8. wf_mem m8 \<and> keeps (set (live m5) - hm_blocks h) m5 m8 \<and>
    (hm_capacity h \<noteq> 0 \<longrightarrow> set (live m8) = set (live m5) - hm_blocks h) \<and>
    (\<forall>f :: mem \<Rightarrow> 'b option. do { m6 \<leftarrow> d4np_free (hm_allocator h) (hm_control h) (hm_capacity h) m5;
         m7 \<leftarrow> d4np_free (hm_allocator h) (hm_keys h) (hm_capacity h * hm_key_stride h) m6;
         m8 \<leftarrow> d4np_free (hm_allocator h) (hm_values h) (hm_capacity h * hm_value_stride h) m7; f m8 } = f m8)"
proof -
  have al: "hm_allocator h = Some A" using assms(3) by (simp add: uses_def)
  show ?thesis
  proof (cases "hm_capacity h = 0")
    case True
    then have "hm_control h = NULL" "hm_keys h = NULL" "hm_values h = NULL" using assms(2) by (auto simp: hm_inv_def)
    with True free_three [OF assms(5), of NULL 0 NULL 0 NULL 0] show ?thesis
      by (simp add: al hm_blocks_def)
  next
    case False
    then have s: "hm_storage h m" using assms(2) by (simp add: hm_inv_def)
    have sz: "unat (hm_capacity h * hm_key_stride h) = unat (hm_capacity h) * unat (hm_key_stride h)"
      "unat (hm_capacity h * hm_value_stride h) = unat (hm_capacity h) * unat (hm_value_stride h)"
      using storage_cap_bound(2,3) [OF assms(1) s] by (auto intro: unat_mult_below [where c = "unat (hm_capacity h)"])
    note b = storage_blocks [OF s, THEN keeps_live [OF assms(4)]]
    have "hm_control h \<noteq> hm_keys h" "hm_control h \<noteq> hm_values h" "hm_keys h \<noteq> hm_values h"
      using s by (simp_all add: hm_storage_def)
    with free_three [OF assms(5), of "hm_control h" "hm_capacity h" "hm_keys h" "hm_capacity h * hm_key_stride h"
        "hm_values h" "hm_capacity h * hm_value_stride h"] b
        wf_block [OF assms(5) b(1)] wf_block [OF assms(5) b(2)] wf_block [OF assms(5) b(3)]
    show ?thesis by (auto simp: al hm_blocks_def sz)
  qed
qed

text \<open>The part of \<open>resize\<close> after the three allocations succeeded.\<close>

lemma rehash_all:
  assumes "hm_inv H E h m" "uses h" "keeps (hm_blocks h \<inter> set (live m)) m m4" "moved h' m4 (hm_tab h m) 0"
    "hm_blocks h' \<inter> set (live m) = {}" "4 * unat (hm_len h) < 3 * unat (hm_capacity h')" "hm_hash h' = hash" "hm_key_size h' = ksz"
    "hm_value_size h' = hm_value_size h" "hm_key_stride h' = hm_key_stride h" "hm_value_stride h' = hm_value_stride h"
  shows "\<exists>m5. rehash h' (hm_control h) (hm_keys h) (hm_values h) 0 (unat (hm_capacity h)) m4 = Some m5 \<and> live m5 = live m4 \<and>
    keeps (set (live m4) - hm_blocks h') m4 m5 \<and> moved h' m5 (hm_tab h m) (unat (hm_capacity h))"
proof (cases "hm_capacity h = 0")
  case True
  then show ?thesis using assms(4) by auto
next
  case False
  note inv4 = inv_keeps [OF assms(1,3)]
  have s: "hm_storage h m4" using inv4(1) False by (simp add: hm_inv_def)
  have "hm_blocks h \<subseteq> set (live m)" using False assms(1) by (simp add: hm_inv_def hm_storage_def)
  with assms(5) have dj: "hm_blocks h \<inter> hm_blocks h' = {}" by blast
  have "hm_key_size h = ksz" using assms(2) by (simp add: uses_def)
  moreover have "occ_count (unat (hm_capacity h)) (hm_tab h m) < unat (hm_capacity h')" using inv_tab(2) [OF assms(1)] assms(6) by simp
  ultimately show ?thesis
    by (intro rehash_ok [OF _ inv_tab(1) [OF assms(1)] _ _ s _ _ dj]) (use assms(4,7-11) inv4(2) in simp_all)
qed

lemma new_blocks:
  assumes "hm_inv H E h m" "hm_storage h' m5" "wf_mem m5" "hm_blocks h' \<inter> set (live m) = {}"
  shows "hm_blocks h' \<subseteq> set (live m5) - hm_blocks h"
proof (cases "hm_capacity h = 0")
  case True
  then have "hm_blocks h = {(0, 0)}" using assms(1) by (auto simp: hm_inv_def hm_blocks_def)
  moreover have "(0, 0) \<notin> set (live m5)" using wf_block [OF assms(3)] by blast
  ultimately show ?thesis using assms(2) by (auto simp: hm_storage_def)
next
  case False
  then have "hm_blocks h \<subseteq> set (live m)" using assms(1) by (simp add: hm_inv_def hm_storage_def)
  with assms(2,4) show ?thesis unfolding hm_storage_def by blast
qed

lemma resize_move:
  assumes "wf_mem m" "hm_inv H E h m" "uses h" "wf_mem m3" "keeps (set (live m)) m m3"
    "h' = h\<lparr>hm_control := nc, hm_keys := nk, hm_values := nv, hm_capacity := cap, hm_tombstones := 0\<rparr>"
    "hm_storage h' m3" "hm_blocks h' \<inter> set (live m) = {}" "4 * unat (hm_len h) < 3 * unat cap"
  shows "\<exists>m8. wf_mem m8 \<and> keeps (set (live m) - hm_blocks h) m m8 \<and> hm_inv H E h' m8 \<and> hm_map E h' m8 = hm_map E h m \<and>
    do { m4 \<leftarrow> memset m3 nc SLOT_EMPTY (unat cap);
         m5 \<leftarrow> rehash h' (hm_control h) (hm_keys h) (hm_values h) 0 (unat (hm_capacity h)) m4;
         m6 \<leftarrow> d4np_free (hm_allocator h) (hm_control h) (hm_capacity h) m5;
         m7 \<leftarrow> d4np_free (hm_allocator h) (hm_keys h) (hm_capacity h * hm_key_stride h) m6;
         m8 \<leftarrow> d4np_free (hm_allocator h) (hm_values h) (hm_capacity h * hm_value_stride h) m7;
         Some (D4NP_OK, h', m8) } = Some (D4NP_OK, h', m8)"
proof -
  let ?t = "hm_tab h m" and ?c = "unat (hm_capacity h)"
  have h': "hm_capacity h' = cap" "hm_control h' = nc" "hm_len h' = hm_len h" "hm_tombstones h' = 0"
    using assms(6) by simp_all
  have same: "hm_hash h' = hash" "hm_key_size h' = ksz" "hm_key_size h = ksz" "hm_value_size h' = hm_value_size h"
      "hm_key_stride h' = hm_key_stride h" "hm_value_stride h' = hm_value_stride h"
    using assms(3,6) by (simp_all add: uses_def)
  from fresh_table [OF assms(4,7), of ?t] h' obtain m4 where
    m4: "memset m3 nc SLOT_EMPTY (unat cap) = Some m4" "live m4 = live m3" "wf_mem m4"
      "keeps (set (live m3) - hm_blocks h') m3 m4" "moved h' m4 ?t 0" by auto
  have sub: "set (live m) \<subseteq> set (live m3) - hm_blocks h'" using keeps_subset [OF assms(5)] assms(8) by blast
  have k4: "keeps (set (live m)) m m4" by (rule keeps_trans [OF assms(5) keeps_mono [OF m4(4) sub]])
  have "keeps (hm_blocks h \<inter> set (live m)) m m4" by (rule keeps_mono [OF k4]) simp
  from rehash_all [OF assms(2,3) this m4(5) assms(8) _ same(1,2,4-6)] assms(9) h'(1)
  obtain m5 where m5: "rehash h' (hm_control h) (hm_keys h) (hm_values h) 0 ?c m4 = Some m5" "live m5 = live m4"
      "keeps (set (live m4) - hm_blocks h') m4 m5" "moved h' m5 ?t ?c" by blast
  have k5: "keeps (set (live m)) m m5" by (rule keeps_trans [OF k4 keeps_mono [OF m5(3)]]) (use sub m4(2) in auto)
  have wf5: "wf_mem m5" using m5(4) by (simp add: moved_def)
  from free_old [OF assms(1-3) k5 wf5] obtain m8 where
    m8: "wf_mem m8" "keeps (set (live m5) - hm_blocks h) m5 m8"
      "\<And>f :: mem \<Rightarrow> (d4np_status \<times> d4np_hashmap \<times> mem) option.
         do { m6 \<leftarrow> d4np_free (hm_allocator h) (hm_control h) (hm_capacity h) m5;
         m7 \<leftarrow> d4np_free (hm_allocator h) (hm_keys h) (hm_capacity h * hm_key_stride h) m6;
         m8 \<leftarrow> d4np_free (hm_allocator h) (hm_values h) (hm_capacity h * hm_value_stride h) m7; f m8 } = f m8" by blast
  have s': "hm_storage h' m5" using m5(4) by (simp add: moved_def)
  have "hm_blocks h' \<subseteq> set (live m5) - hm_blocks h" by (rule new_blocks [OF assms(2) s' wf5 assms(8)])
  then have mv: "moved h' m8 ?t ?c" by (intro moved_keeps [OF m5(4)] m8(1) keeps_mono [OF m8(2)])
  have inv8: "hm_inv H E h' m8"
    by (rule inv_of_moved [OF mv]) (use h' inv_tab(2) [OF assms(2)] assms(9) in simp_all)
  have "hm_map E h' m8 = hm_map E h m"
    unfolding hm_map_def using mv inv_tab(1) [OF assms(2)] by (intro tab_map_cong) (auto simp: moved_def)
  moreover have "keeps (set (live m) - hm_blocks h) m m8"
    by (rule keeps_trans [OF keeps_mono [OF k5] keeps_mono [OF m8(2)]]) (use keeps_subset [OF k5] in auto)
  ultimately show ?thesis using m4(1) m5(1) m8 inv8 by (intro exI [of _ m8]) simp
qed

text \<open>Three allocations in a row: all blocks are fresh and distinct, and nothing live is touched.\<close>

lemma alloc_three:
  assumes "wf_mem m"
  obtains nc nk nv m1 m2 m3 where
    "d4np_alloc (Some A) a MAX_ALIGN m = Some (nc, m1)" "d4np_alloc (Some A) b MAX_ALIGN m1 = Some (nk, m2)"
    "d4np_alloc (Some A) c MAX_ALIGN m2 = Some (nv, m3)" "wf_mem m3" "keeps (set (live m)) m m3"
    "nc = NULL \<or> (nc, unat a) \<in> set (live m3) - set (live m)"
    "nk = NULL \<or> (nk, unat b) \<in> set (live m3) - set (live m) - {(nc, unat a)}"
    "nv = NULL \<or> (nv, unat c) \<in> set (live m3) - set (live m) - {(nc, unat a), (nk, unat b)}"
proof -
  from alloc_any [OF assms pow2_MAX_ALIGN, of a] obtain nc m1 where
    1: "d4np_alloc (Some A) a MAX_ALIGN m = Some (nc, m1)" "wf_mem m1" "keeps (set (live m)) m m1"
      "nc \<noteq> NULL \<Longrightarrow> (nc, unat a) \<in> set (live m1) - set (live m)" by blast
  from alloc_any [OF 1(2) pow2_MAX_ALIGN, of b] obtain nk m2 where
    2: "d4np_alloc (Some A) b MAX_ALIGN m1 = Some (nk, m2)" "wf_mem m2" "keeps (set (live m1)) m1 m2"
      "nk \<noteq> NULL \<Longrightarrow> (nk, unat b) \<in> set (live m2) - set (live m1)" by blast
  from alloc_any [OF 2(2) pow2_MAX_ALIGN, of c] obtain nv m3 where
    3: "d4np_alloc (Some A) c MAX_ALIGN m2 = Some (nv, m3)" "wf_mem m3" "keeps (set (live m2)) m2 m3"
      "nv \<noteq> NULL \<Longrightarrow> (nv, unat c) \<in> set (live m3) - set (live m2)" by blast
  have s: "set (live m) \<subseteq> set (live m1)" "set (live m1) \<subseteq> set (live m2)" "set (live m2) \<subseteq> set (live m3)"
    using keeps_subset [OF 1(3)] keeps_subset [OF 2(3)] keeps_subset [OF 3(3)] by auto
  have k: "keeps (set (live m)) m m3"
    using keeps_trans [OF 1(3) keeps_mono [OF 2(3) s(1)]] keeps_mono [OF 3(3), of "set (live m)"] s
    by (blast intro: keeps_trans)
  have c: "nc = NULL \<or> (nc, unat a) \<in> set (live m3) - set (live m)" using 1(4) s by blast
  have nk: "nk = NULL \<or> (nk, unat b) \<in> set (live m3) - set (live m) - {(nc, unat a)}"
  proof (cases "nk = NULL")
    case False
    then have "(nk, unat b) \<noteq> (nc, unat a)" using 1(4) 2(4) by (cases "nc = NULL") auto
    with 2(4) [OF False] s show ?thesis by blast
  qed simp
  have "nv = NULL \<or> (nv, unat c) \<in> set (live m3) - set (live m) - {(nc, unat a), (nk, unat b)}"
  proof (cases "nv = NULL")
    case False
    have "(nv, unat c) \<noteq> (nc, unat a)" using 1(4) 3(4) [OF False] s(2) False by (cases "nc = NULL") auto
    moreover have "(nv, unat c) \<noteq> (nk, unat b)" using 2(4) 3(4) [OF False] False by (cases "nk = NULL") auto
    ultimately show ?thesis using 3(4) [OF False] s by blast
  qed simp
  then show thesis by (rule that [OF 1(1) 2(1) 3(1,2) k c nk])
qed

text \<open>When one of the three blocks cannot be had, the others are given back.\<close>

lemma resize_gives_back:
  assumes "wf_mem m" "wf_mem m3" "keeps (set (live m)) m m3"
    "nc = NULL \<or> (nc, unat a) \<in> set (live m3) - set (live m)"
    "nk = NULL \<or> (nk, unat b) \<in> set (live m3) - set (live m) - {(nc, unat a)}"
    "nv = NULL \<or> (nv, unat c) \<in> set (live m3) - set (live m) - {(nc, unat a), (nk, unat b)}"
  obtains m6 where "wf_mem m6" "keeps (set (live m)) m m6"
    "\<And>f :: mem \<Rightarrow> (d4np_status \<times> d4np_hashmap \<times> mem) option.
       do { m1 \<leftarrow> d4np_free (Some A) nc a m3; m2 \<leftarrow> d4np_free (Some A) nk b m1; m3 \<leftarrow> d4np_free (Some A) nv c m2; f m3 } = f m6"
proof -
  have f: "nc = NULL \<or> (nc, unat a) \<in> set (live m3)" "nk = NULL \<or> (nk, unat b) \<in> set (live m3) - {(nc, unat a)}"
    "nv = NULL \<or> (nv, unat c) \<in> set (live m3) - {(nc, unat a), (nk, unat b)}" using assms(4-6) by blast+
  from free_three [OF assms(2) f] obtain m6 where m6: "wf_mem m6" "keeps (set (live m3) - {(nc, unat a), (nk, unat b), (nv, unat c)}) m3 m6"
    "\<And>f :: mem \<Rightarrow> (d4np_status \<times> d4np_hashmap \<times> mem) option.
       do { m1 \<leftarrow> d4np_free (Some A) nc a m3; m2 \<leftarrow> d4np_free (Some A) nk b m1; m3 \<leftarrow> d4np_free (Some A) nv c m2; f m3 } = f m6" by blast
  have "(0, n) \<notin> set (live m)" for n using wf_block [OF assms(1)] by blast
  then have "(nc, unat a) \<notin> set (live m)" "(nk, unat b) \<notin> set (live m)" "(nv, unat c) \<notin> set (live m)" using assms(4-6) by auto
  then have "set (live m) \<subseteq> set (live m3) - {(nc, unat a), (nk, unat b), (nv, unat c)}" using keeps_subset [OF assms(3)] by blast
  then have "keeps (set (live m)) m m6" by (rule keeps_trans [OF assms(3) keeps_mono [OF m6(2)]])
  then show thesis by (rule that [OF m6(1) _ m6(3)])
qed

text \<open>The three new arrays are there: the entries move into them.\<close>

lemma resize_into:
  assumes "wf_mem m" "hm_inv H E h m" "uses h" "cap = 2 ^ k" "3 \<le> k" "k < 64" "4 * unat (hm_len h) < 3 * unat cap"
    "cap \<le> SIZE_MAX div hm_key_stride h" "cap \<le> SIZE_MAX div hm_value_stride h"
    "d4np_alloc (Some A) cap MAX_ALIGN m = Some (nc, m1)" "d4np_alloc (Some A) (cap * hm_key_stride h) MAX_ALIGN m1 = Some (nk, m2)"
    "d4np_alloc (Some A) (cap * hm_value_stride h) MAX_ALIGN m2 = Some (nv, m3)" "wf_mem m3" "keeps (set (live m)) m m3"
    "nc \<noteq> NULL" "nk \<noteq> NULL" "nv \<noteq> NULL" "(nc, unat cap) \<in> set (live m3) - set (live m)"
    "(nk, unat (cap * hm_key_stride h)) \<in> set (live m3) - set (live m) - {(nc, unat cap)}"
    "(nv, unat (cap * hm_value_stride h)) \<in> set (live m3) - set (live m) - {(nc, unat cap), (nk, unat (cap * hm_key_stride h))}"
  defines "h' \<equiv> h\<lparr>hm_control := nc, hm_keys := nk, hm_values := nv, hm_capacity := cap, hm_tombstones := 0\<rparr>"
  shows "\<exists>m'. resize h cap m = Some (D4NP_OK, h', m') \<and> wf_mem m' \<and> hm_inv H E h' m' \<and> hm_map E h' m' = hm_map E h m \<and>
    keeps (set (live m) - hm_blocks h) m m' \<and> hm_blocks h' \<inter> (set (live m) - hm_blocks h) = {}"
proof -
  let ?ks = "hm_key_stride h" and ?vs = "hm_value_stride h"
  have sizes: "hm_sizes h" using assms(2) by (simp add: hm_inv_def)
  then have s0: "?ks \<noteq> 0" "?vs \<noteq> 0" by (auto simp: hm_sizes_def)
  have al: "hm_allocator h = Some A" using assms(3) by (simp add: uses_def)
  have sz: "unat (cap * ?ks) = unat cap * unat ?ks" "unat (cap * ?vs) = unat cap * unat ?vs"
    using size_mult_guard [OF s0(1), of cap] size_mult_guard [OF s0(2), of cap] assms(8,9) by (auto intro: unat_mult_exact)
  have live3: "hm_blocks h' \<subseteq> set (live m3) - set (live m)" using assms(18-20) by (auto simp: h'_def hm_blocks_def sz)
  have "nc \<noteq> nk" "nc \<noteq> nv" "nk \<noteq> nv" using assms(18-20) wf_unique [OF assms(13)] by auto
  then have s: "hm_storage h' m3" using sizes live3 assms(4-6,15-17) by (auto simp: h'_def hm_storage_def hm_sizes_def)
  have d: "hm_blocks h' \<inter> set (live m) = {}" using live3 by blast
  have e: "h' = h\<lparr>hm_control := nc, hm_keys := nk, hm_values := nv, hm_capacity := cap, hm_tombstones := 0\<rparr>" by (simp add: h'_def)
  from resize_move [OF assms(1-3,13,14) e s d assms(7)] obtain m' where
    m': "wf_mem m'" "keeps (set (live m) - hm_blocks h) m m'" "hm_inv H E h' m'" "hm_map E h' m' = hm_map E h m"
      "do { m4 \<leftarrow> memset m3 nc SLOT_EMPTY (unat cap);
         m5 \<leftarrow> rehash h' (hm_control h) (hm_keys h) (hm_values h) 0 (unat (hm_capacity h)) m4;
         m6 \<leftarrow> d4np_free (hm_allocator h) (hm_control h) (hm_capacity h) m5;
         m7 \<leftarrow> d4np_free (hm_allocator h) (hm_keys h) (hm_capacity h * hm_key_stride h) m6;
         m8 \<leftarrow> d4np_free (hm_allocator h) (hm_values h) (hm_capacity h * hm_value_stride h) m7;
         Some (D4NP_OK, h', m8) } = Some (D4NP_OK, h', m')" by blast
  have "resize h cap m = Some (D4NP_OK, h', m')"
    using m'(5) assms(15-17) by (simp add: resize_def al assms(10-12) s0 leD [OF assms(8)] leD [OF assms(9)] Let_def h'_def)
  then show ?thesis using m'(1-4) d by blast
qed

lemma resize_ok:
  assumes "wf_mem m" "hm_inv H E h m" "uses h" "cap = 2 ^ k" "3 \<le> k" "k < 64" "4 * unat (hm_len h) < 3 * unat cap"
  shows "\<exists>rc h' m'. resize h cap m = Some (rc, h', m') \<and> wf_mem m' \<and> hm_inv H E h' m' \<and> uses h' \<and>
    hm_value_size h' = hm_value_size h \<and> hm_len h' = hm_len h \<and> hm_map E h' m' = hm_map E h m \<and>
    keeps (set (live m) - hm_blocks h) m m' \<and> hm_blocks h' \<inter> (set (live m) - hm_blocks h) = {} \<and>
    (rc = D4NP_OK \<and> hm_capacity h' = cap \<and> hm_tombstones h' = 0 \<or>
     rc \<in> {D4NP_ERR_OVERFLOW, D4NP_ERR_OUT_OF_MEMORY} \<and> h' = h)"
proof -
  let ?ks = "hm_key_stride h" and ?vs = "hm_value_stride h"
  have sizes: "hm_sizes h" using assms(2) by (simp add: hm_inv_def)
  then have s0: "?ks \<noteq> 0" "?vs \<noteq> 0" by (auto simp: hm_sizes_def)
  have al: "hm_allocator h = Some A" using assms(3) by (simp add: uses_def)
  show ?thesis
  proof (cases "SIZE_MAX div ?ks < cap \<or> SIZE_MAX div ?vs < cap")
    case True
    then have "resize h cap m = Some (D4NP_ERR_OVERFLOW, h, m)" using s0 by (auto simp: resize_def)
    with assms show ?thesis by auto
  next
    case False
    then have g: "cap \<le> SIZE_MAX div ?ks" "cap \<le> SIZE_MAX div ?vs" by auto
    obtain nc nk nv m1 m2 m3 where
      a: "d4np_alloc (Some A) cap MAX_ALIGN m = Some (nc, m1)" "d4np_alloc (Some A) (cap * ?ks) MAX_ALIGN m1 = Some (nk, m2)"
        "d4np_alloc (Some A) (cap * ?vs) MAX_ALIGN m2 = Some (nv, m3)" "wf_mem m3" "keeps (set (live m)) m m3"
      and bl: "nc = NULL \<or> (nc, unat cap) \<in> set (live m3) - set (live m)"
        "nk = NULL \<or> (nk, unat (cap * ?ks)) \<in> set (live m3) - set (live m) - {(nc, unat cap)}"
        "nv = NULL \<or> (nv, unat (cap * ?vs)) \<in> set (live m3) - set (live m) - {(nc, unat cap), (nk, unat (cap * ?ks))}"
      by (rule alloc_three [OF assms(1), of cap "cap * ?ks" "cap * ?vs"])
    note red = resize_def al a(1-3) s0 leD [OF g(1)] leD [OF g(2)]
    show ?thesis
    proof (cases "nc = NULL \<or> nk = NULL \<or> nv = NULL")
      case True
      obtain m6 where m6: "wf_mem m6" and k: "keeps (set (live m)) m m6" and
        free: "\<And>f :: mem \<Rightarrow> (d4np_status \<times> d4np_hashmap \<times> mem) option.
           do { m1 \<leftarrow> d4np_free (Some A) nc cap m3; m2 \<leftarrow> d4np_free (Some A) nk (cap * ?ks) m1;
             m3 \<leftarrow> d4np_free (Some A) nv (cap * ?vs) m2; f m3 } = f m6" by (rule resize_gives_back [OF assms(1) a(4,5) bl]) blast
      have "keeps (hm_blocks h \<inter> set (live m)) m m6" by (rule keeps_mono [OF k]) simp
      note inv6 = inv_keeps [OF assms(2) this]
      have "resize h cap m = Some (D4NP_ERR_OUT_OF_MEMORY, h, m6)"
        using True free by (simp add: red)
      with assms(3) m6 inv6 keeps_mono [OF k] show ?thesis by (auto simp: hm_map_def)
    next
      case False
      then have nn: "nc \<noteq> NULL" "nk \<noteq> NULL" "nv \<noteq> NULL" by auto
      let ?h = "h\<lparr>hm_control := nc, hm_keys := nk, hm_values := nv, hm_capacity := cap, hm_tombstones := 0\<rparr>"
      have "uses ?h" using assms(3) by (simp add: uses_def)
      moreover have "(nc, unat cap) \<in> set (live m3) - set (live m)"
        "(nk, unat (cap * ?ks)) \<in> set (live m3) - set (live m) - {(nc, unat cap)}"
        "(nv, unat (cap * ?vs)) \<in> set (live m3) - set (live m) - {(nc, unat cap), (nk, unat (cap * ?ks))}" using bl nn by blast+
      from resize_into [OF assms g a nn this] obtain m' where m': "resize h cap m = Some (D4NP_OK, ?h, m')" "wf_mem m'" "hm_inv H E ?h m'"
        "hm_map E ?h m' = hm_map E h m" "keeps (set (live m) - hm_blocks h) m m'" "hm_blocks ?h \<inter> (set (live m) - hm_blocks h) = {}" by blast
      ultimately show ?thesis by (intro exI [of _ D4NP_OK] exI [of _ ?h] exI [of _ m']) simp
    qed
  qed
qed

end

section \<open>Insertion\<close>

text \<open>The counters are not part of the representation of the table.\<close>

lemma counters_irrelevant [simp]:
  "hm_tab (h\<lparr>hm_len := a\<rparr>) = hm_tab h" "hm_tab (h\<lparr>hm_tombstones := a\<rparr>) = hm_tab h"
  "hm_blocks (h\<lparr>hm_len := a\<rparr>) = hm_blocks h" "hm_blocks (h\<lparr>hm_tombstones := a\<rparr>) = hm_blocks h"
  "hm_sizes (h\<lparr>hm_len := a\<rparr>) = hm_sizes h" "hm_sizes (h\<lparr>hm_tombstones := a\<rparr>) = hm_sizes h"
  "hm_storage (h\<lparr>hm_len := a\<rparr>) = hm_storage h" "hm_storage (h\<lparr>hm_tombstones := a\<rparr>) = hm_storage h"
  "ctl_ok (h\<lparr>hm_len := a\<rparr>) = ctl_ok h" "ctl_ok (h\<lparr>hm_tombstones := a\<rparr>) = ctl_ok h"
  "store_entry (h\<lparr>hm_len := a\<rparr>) = store_entry h" "store_entry (h\<lparr>hm_tombstones := a\<rparr>) = store_entry h"
  by (simp_all add: fun_eq_iff hm_tab_def hm_blocks_def hm_sizes_def hm_storage_def ctl_ok_def store_entry_def
      key_slot_def value_slot_def)

lemma ctl_deleted:
  "ctl_ok h m \<Longrightarrow> i < unat (hm_capacity h) \<Longrightarrow> bytes m (hm_control h + i) = SLOT_DELETED \<longleftrightarrow> hm_tab h m i = Deleted"
  by (auto simp: ctl_ok_def hm_tab_def slot_of_def)

context hashmap_env
begin

lemma uses_counters [simp]: "uses (h\<lparr>hm_len := a\<rparr>) = uses h" "uses (h\<lparr>hm_tombstones := a\<rparr>) = uses h"
  by (simp_all add: uses_def)

lemma E_eq: "E k x \<Longrightarrow> E k y \<longleftrightarrow> E x y"
  by (blast intro: E_sym E_trans)

text \<open>\<open>put\<close> on a key that is present overwrites the value in place.\<close>

lemma put_found:
  assumes "wf_mem m" "hm_inv H E h m" "hm_capacity h \<noteq> 0" "unat i < unat (hm_capacity h)"
    "hm_tab h m (unat i) = Occ k v0" "E k x" "outside m (hm_blocks h) vp (unat (hm_value_size h))"
  shows "\<exists>m'. memcpy m (value_slot h i) vp (unat (hm_value_size h)) = Some m' \<and> wf_mem m' \<and>
    live m' = live m \<and> keeps (set (live m) - hm_blocks h) m m' \<and> hm_inv H E h m' \<and>
    hm_map E h m' = (\<lambda>y. if E x y then Some (peek m vp (unat (hm_value_size h))) else hm_map E h m y)"
proof -
  let ?va = "hm_values h + unat i * unat (hm_value_stride h)" and ?vb = "peek m vp (unat (hm_value_size h))"
  let ?m = "poke m ?va ?vb"
  have s: "hm_storage h m" "ctl_ok h m" using assms(2,3) by (auto simp: hm_inv_def)
  note b = storage_blocks(3) [OF s(1)] and r = storage_in_bounds(2) [OF s(1) assms(4)]
  have inB: "(hm_values h, unat (hm_capacity h) * unat (hm_value_stride h)) \<in> hm_blocks h" by (simp add: hm_blocks_def)
  have "memcpy m ?va vp (unat (hm_value_size h)) = Some ?m"
    by (rule memcpy_outside [OF assms(1,7) inB b]) (use r in simp_all)
  then have cp: "memcpy m (value_slot h i) vp (unat (hm_value_size h)) = Some ?m"
    using storage_slot_addr(2) [OF assms(1) s(1) assms(4)] by simp
  have tab: "hm_tab h ?m = (hm_tab h m)(unat i := Occ k ?vb)"
    by (rule tab_poke_value [OF assms(1) s(1) assms(4) _ assms(5)]) simp
  have ctl: "ctl_ok h ?m"
    using s(2) storage_apart(2) [OF assms(1) s(1)] r bytes_poke_other [of _ ?va ?vb m]
    by (auto simp: ctl_ok_def)
  have kp: "keeps (set (live m) - hm_blocks h) m ?m"
    by (rule keeps_poke_outside [OF assms(1) inB b]) (use r in simp_all)
  note it = inv_tab [OF assms(2)]
  have "occ_count (unat (hm_capacity h)) (hm_tab h ?m) = unat (hm_len h)"
      "del_count (unat (hm_capacity h)) (hm_tab h ?m) = unat (hm_tombstones h)"
    using occ_count_update [OF assms(4), of "hm_tab h m" "Occ k ?vb"]
      del_count_update [OF assms(4), of "hm_tab h m" "Occ k ?vb"] it(2,3) assms(5) tab by auto
  then have "hm_inv H E h ?m"
    using assms(2,3) ctl tab_ok_update [OF it(1) assms(5)] tab storage_live [of ?m m h] by (simp add: hm_inv_def)
  moreover have "hm_map E h ?m = (\<lambda>y. if E x y then Some ?vb else hm_map E h m y)"
    unfolding hm_map_def tab tab_map_update [OF it(1) assms(4,5)] E_eq [OF assms(6)] by simp
  ultimately show ?thesis using cp kp assms(1) by simp
qed

text \<open>\<open>put\<close> on an absent key fills the slot \<open>locate\<close> chose, reusing a tombstone if it is one.\<close>

lemma put_absent:
  assumes "wf_mem m" "hm_inv H E h m" "hm_capacity h \<noteq> 0" "located h m (peek m kp (unat ksz)) i False" "hm_key_size h = ksz"
    "outside m (hm_blocks h) kp (unat ksz)" "outside m (hm_blocks h) vp (unat (hm_value_size h))"
    "4 * (unat (hm_len h) + unat (hm_tombstones h) + 1) < 3 * unat (hm_capacity h)"
  defines "c \<equiv> bytes m (hm_control h + unat i)"
  defines "h2 \<equiv> (if c = SLOT_DELETED then h\<lparr>hm_tombstones := hm_tombstones h - 1\<rparr> else h)"
  shows "read_byte m (hm_control h + unat i) = Some c \<and>
    (\<exists>m'. store_entry h2 i kp vp m = Some m' \<and> wf_mem m' \<and> live m' = live m \<and> keeps (set (live m) - hm_blocks h) m m' \<and>
    hm_inv H E (h2\<lparr>hm_len := hm_len h2 + 1\<rparr>) m' \<and>
    hm_map E (h2\<lparr>hm_len := hm_len h2 + 1\<rparr>) m' =
      (\<lambda>y. if E (peek m kp (unat ksz)) y then Some (peek m vp (unat (hm_value_size h))) else hm_map E h m y))"
proof -
  let ?c = "unat (hm_capacity h)" and ?t = "hm_tab h m" and ?x = "peek m kp (unat ksz)" and ?v = "peek m vp (unat (hm_value_size h))"
  have s: "hm_storage h m" "ctl_ok h m" using assms(2,3) by (auto simp: hm_inv_def)
  have l: "unat i < ?c" "absent E ?c ?t ?x" "\<not> is_occ (?t (unat i))" "reach ?c (unat (H ?x)) ?t (unat i)"
    using assms(4) by (auto simp: located_def)
  have rd: "read_byte m (hm_control h + unat i) = Some c"
    using storage_valid(1) [OF s(1) l(1)] by (simp add: read_byte_Some c_def)
  have se: "store_entry h2 = store_entry h" by (simp add: h2_def)
  from store_entry_ok [OF assms(1) s(1) l(1) _ assms(7), of kp] assms(5,6) obtain m' where
    m': "store_entry h i kp vp m = Some m'" "live m' = live m" "wf_mem m'" "keeps (set (live m) - hm_blocks h) m m'"
      "hm_tab h m' = ?t(unat i := Occ ?x ?v)"
      "\<forall>j < ?c. bytes m' (hm_control h + j) = (if j = unat i then SLOT_OCCUPIED else bytes m (hm_control h + j))" by auto
  have ctl: "ctl_ok h m'" using s(2) m'(6) by (auto simp: ctl_ok_def)
  note it = inv_tab [OF assms(2)] and cd = ctl_deleted [OF s(2) l(1)]
  let ?h = "h2\<lparr>hm_len := hm_len h2 + 1\<rparr>"
  have cap: "unat (hm_capacity h) < 2 ^ 60" using storage_cap_bound(1) [OF assms(1) s(1)] by simp
  have len: "unat (hm_len h + 1) = unat (hm_len h) + 1"
    using assms(8) cap by (subst unat_add_exact) simp_all
  have tomb: "unat (hm_tombstones h - 1) = unat (hm_tombstones h) - 1" if "?t (unat i) = Deleted"
  proof -
    have "0 < unat (hm_tombstones h)"
      using del_count_update [OF l(1), of ?t "Occ ?x ?v"] it(3) that by simp
    then show ?thesis by (subst unat_sub_exact) (simp_all add: word_le_nat_alt)
  qed
  have cnt: "occ_count ?c (hm_tab h m') = unat (hm_len ?h)" "del_count ?c (hm_tab h m') = unat (hm_tombstones ?h)"
    using occ_count_update [OF l(1), of ?t "Occ ?x ?v"] del_count_update [OF l(1), of ?t "Occ ?x ?v"] it(2,3) l(3) m'(5)
      len tomb cd by (auto simp: h2_def c_def)
  have load: "4 * (unat (hm_len ?h) + unat (hm_tombstones ?h)) < 3 * ?c"
    using assms(8) len tomb cd by (auto simp: h2_def c_def)
  note ins = tab_ok_insert(1) [OF it(1) l(4,3,2), of ?v]
  have h2: "hm_capacity ?h = hm_capacity h" "hm_storage ?h = hm_storage h" "ctl_ok ?h = ctl_ok h" "hm_tab ?h = hm_tab h"
      "hm_sizes ?h = hm_sizes h" by (simp_all add: h2_def)
  have "hm_inv H E ?h m'"
    unfolding hm_inv_def h2 using assms(2,3) ctl cnt load ins m'(5) storage_live [OF m'(2), of h] s(1) by (simp add: hm_inv_def)
  moreover have "hm_map E ?h m' = (\<lambda>y. if E ?x y then Some ?v else hm_map E h m y)"
    unfolding hm_map_def h2 m'(5) tab_map_insert [OF it(1) l(4,3,2)] by simp
  ultimately show ?thesis using rd m' se by auto
qed

end

end
