(* ===== verification/Hashmap_Map.thy ===== *)
theory Hashmap_Map
  imports Hashmap_Refine
begin

text \<open>
  The public operations of the hash map as operations on the map it stands for, and the
  properties that follow.
\<close>

section \<open>Operations\<close>

context hashmap_env
begin

text \<open>The load test of the source does not overflow.\<close>

lemma load_guard:
  fixes h :: d4np_hashmap
  assumes "4 * (unat (hm_len h) + unat (hm_tombstones h)) < 3 * unat (hm_capacity h)" "unat (hm_capacity h) * 16 < 2 ^ 63"
  shows "hm_capacity h * 3 \<le> (hm_len h + hm_tombstones h + 1) * 4 \<longleftrightarrow>
    3 * unat (hm_capacity h) \<le> 4 * (unat (hm_len h) + unat (hm_tombstones h) + 1)"
proof -
  have a1: "unat (hm_len h + hm_tombstones h) = unat (hm_len h) + unat (hm_tombstones h)"
    by (rule unat_add_exact) (use assms in simp)
  have a2: "unat (hm_len h + hm_tombstones h + 1) = unat (hm_len h) + unat (hm_tombstones h) + 1"
    by (subst unat_add_exact) (use assms a1 in simp_all)
  have "unat ((hm_len h + hm_tombstones h + 1) * 4) = (unat (hm_len h) + unat (hm_tombstones h) + 1) * 4"
    by (subst unat_mult_exact) (use assms a2 in simp_all)
  moreover have "unat (hm_capacity h * 3) = unat (hm_capacity h) * 3" by (subst unat_mult_exact) (use assms(2) in simp_all)
  ultimately show ?thesis by (simp add: word_le_nat_alt mult.commute)
qed

text \<open>The growth step of \<open>put\<close> leaves room for one more entry, or fails and changes nothing.\<close>

lemma put_grow:
  assumes "wf_mem m" "hm_inv H E h m" "uses h"
  shows "\<exists>rc h1 m1. (if hm_capacity h * 3 \<le> (hm_len h + hm_tombstones h + 1) * 4
       then resize h (if hm_capacity h = 0 then D4NP_HASHMAP_MIN_CAPACITY else hm_capacity h * 2) m
       else Some (D4NP_OK, h, m)) = Some (rc, h1, m1) \<and>
    wf_mem m1 \<and> hm_inv H E h1 m1 \<and> uses h1 \<and> hm_value_size h1 = hm_value_size h \<and> hm_map E h1 m1 = hm_map E h m \<and>
    keeps (set (live m) - hm_blocks h) m m1 \<and> hm_blocks h1 \<inter> (set (live m) - hm_blocks h) = {} \<and>
    (rc = D4NP_OK \<and> hm_capacity h1 \<noteq> 0 \<and> 4 * (unat (hm_len h1) + unat (hm_tombstones h1) + 1) < 3 * unat (hm_capacity h1) \<or>
     rc \<in> {D4NP_ERR_OVERFLOW, D4NP_ERR_OUT_OF_MEMORY} \<and> h1 = h)"
proof (cases "hm_capacity h = 0")
  case True
  then have l: "hm_len h = 0" using assms(2) by (simp add: hm_inv_def)
  have c: "D4NP_HASHMAP_MIN_CAPACITY = 2 ^ 3" "4 * unat (hm_len h) < 3 * unat D4NP_HASHMAP_MIN_CAPACITY"
    using l by (simp_all add: D4NP_HASHMAP_MIN_CAPACITY_def)
  from resize_ok [OF assms c(1) _ _ c(2)] True l show ?thesis
    by (auto simp: D4NP_HASHMAP_MIN_CAPACITY_def)
next
  case False
  then have s: "hm_storage h m" and load: "4 * (unat (hm_len h) + unat (hm_tombstones h)) < 3 * unat (hm_capacity h)"
    using assms(2) by (auto simp: hm_inv_def)
  obtain k where k: "3 \<le> k" "k < 64" "hm_capacity h = 2 ^ k" "unat (hm_capacity h) = 2 ^ k"
    using storage_cap [OF s] by metis
  have cb: "unat (hm_capacity h) * 16 < 2 ^ 63" and c8: "8 \<le> unat (hm_capacity h)"
    using storage_cap_bound(1) [OF assms(1) s] storage_cap_ge [OF s] by auto
  have "(2::nat) ^ k < 2 ^ 59" using cb k(4) by simp
  then have k59: "k < 59" by (rule power_less_imp_less_exp [rotated]) simp
  have dbl: "hm_capacity h * 2 = 2 ^ Suc k" "unat (hm_capacity h * 2) = 2 * unat (hm_capacity h)"
    using k(3) cb unat_mult_exact [of "hm_capacity h" 2] by simp_all
  note guard = load_guard [OF load cb]
  show ?thesis
  proof (cases "3 * unat (hm_capacity h) \<le> 4 * (unat (hm_len h) + unat (hm_tombstones h) + 1)")
    case True
    have "4 * unat (hm_len h) < 3 * unat (hm_capacity h * 2)" using load dbl(2) by simp
    from resize_ok [OF assms dbl(1) _ _ this] k(1) k59 obtain rc h1 m1 where
      r: "resize h (hm_capacity h * 2) m = Some (rc, h1, m1)" "wf_mem m1" "hm_inv H E h1 m1" "uses h1"
        "hm_value_size h1 = hm_value_size h" "hm_len h1 = hm_len h" "hm_map E h1 m1 = hm_map E h m"
        "keeps (set (live m) - hm_blocks h) m m1" "hm_blocks h1 \<inter> (set (live m) - hm_blocks h) = {}"
        "rc = D4NP_OK \<and> hm_capacity h1 = hm_capacity h * 2 \<and> hm_tombstones h1 = 0 \<or>
         rc \<in> {D4NP_ERR_OVERFLOW, D4NP_ERR_OUT_OF_MEMORY} \<and> h1 = h" by auto
    have "hm_capacity h * 2 \<noteq> 0" using dbl(2) c8 by auto
    then show ?thesis using r True False guard dbl(2) load c8 by auto
  next
    case no: False
    then show ?thesis using guard assms False by auto
  qed
qed

text \<open>The second half of \<open>put\<close>: with room for an entry, the entry is found and overwritten or a slot is filled.\<close>

lemma put_entry:
  assumes "wf_mem m" "hm_inv H E h m" "uses h" "hm_capacity h \<noteq> 0"
    "4 * (unat (hm_len h) + unat (hm_tombstones h) + 1) < 3 * unat (hm_capacity h)"
    "outside m (hm_blocks h) key (unat ksz)" "outside m (hm_blocks h) val (unat (hm_value_size h))"
  shows "\<exists>h' m'. do { (i, found) \<leftarrow> locate h key m;
        if found then do {
          m2 \<leftarrow> memcpy m (value_slot h i) val (unat (hm_value_size h));
          Some (D4NP_OK, Some h, m2)
        } else do {
          c \<leftarrow> read_byte m (hm_control h + unat i);
          let h2 = (if c = SLOT_DELETED then h\<lparr>hm_tombstones := hm_tombstones h - 1\<rparr> else h);
          m2 \<leftarrow> store_entry h2 i key val m;
          Some (D4NP_OK, Some (h2\<lparr>hm_len := hm_len h2 + 1\<rparr>), m2) } } = Some (D4NP_OK, Some h', m') \<and>
    wf_mem m' \<and> hm_inv H E h' m' \<and> uses h' \<and> hm_value_size h' = hm_value_size h \<and> hm_blocks h' = hm_blocks h \<and>
    keeps (set (live m) - hm_blocks h) m m' \<and>
    hm_map E h' m' = (\<lambda>y. if E (peek m key (unat ksz)) y then Some (peek m val (unat (hm_value_size h))) else hm_map E h m y)"
proof -
  have us: "hm_hash h = hash" "hm_key_eq h = key_eq" "hm_key_size h = ksz" using assms(3) by (auto simp: uses_def)
  obtain i found where loc: "locate h key m = Some (i, found)" "located h m (peek m key (unat ksz)) i found"
    using locate_ok [OF assms(1,2,4) us outside_valid [OF assms(6)]] .
  show ?thesis
  proof (cases found)
    case True
    then obtain k v0 where kv: "unat i < unat (hm_capacity h)" "hm_tab h m (unat i) = Occ k v0" "E k (peek m key (unat ksz))"
      using loc(2) by (auto simp: located_def)
    from put_found [OF assms(1,2,4) kv assms(7)] assms(3) loc(1) True show ?thesis by auto
  next
    case False
    have "located h m (peek m key (unat ksz)) i False" using loc(2) False by simp
    from put_absent [OF assms(1,2,4) this us(3) assms(6,7,5)] obtain c h2 m2 where
      m2: "read_byte m (hm_control h + unat i) = Some c"
        "h2 = (if c = SLOT_DELETED then h\<lparr>hm_tombstones := hm_tombstones h - 1\<rparr> else h)"
        "store_entry h2 i key val m = Some m2" "wf_mem m2"
        "keeps (set (live m) - hm_blocks h) m m2" "hm_inv H E (h2\<lparr>hm_len := hm_len h2 + 1\<rparr>) m2"
        "hm_map E (h2\<lparr>hm_len := hm_len h2 + 1\<rparr>) m2 = (\<lambda>y. if E (peek m key (unat ksz)) y
           then Some (peek m val (unat (hm_value_size h))) else hm_map E h m y)" by auto
    have "uses (h2\<lparr>hm_len := hm_len h2 + 1\<rparr>)" "hm_blocks (h2\<lparr>hm_len := hm_len h2 + 1\<rparr>) = hm_blocks h"
      "hm_value_size (h2\<lparr>hm_len := hm_len h2 + 1\<rparr>) = hm_value_size h" using assms(3) by (simp_all add: m2(2))
    then show ?thesis using m2 loc(1) False
      by (intro exI [of _ "h2\<lparr>hm_len := hm_len h2 + 1\<rparr>"] exI [of _ m2]) (simp add: Let_def)
  qed
qed

text \<open>What lies outside the old table stays outside the new one.\<close>

lemma outside_grown:
  assumes "outside m B p n" "keeps (set (live m) - B) m m'" "B' \<inter> (set (live m) - B) = {}"
  shows "outside m' B' p n" "peek m' p n = peek m p n"
proof -
  show "peek m' p n = peek m p n" using outside_keeps(1) [OF assms(1,2)] .
  from assms(1) obtain b s where b: "(b, s) \<in> set (live m) - B" "b \<le> p" "p + n \<le> b + s" by (auto simp: outside_def)
  have "(b, s) \<in> set (live m') - B'" using b(1) keeps_live [OF assms(2) b(1)] assms(3) by blast
  then show "outside m' B' p n" using b(2,3) by (rule outsideI)
qed

lemma put_ok:
  assumes "wf_mem m" "hm_inv H E h m" "uses h"
    "outside m (hm_blocks h) key (unat ksz)" "outside m (hm_blocks h) val (unat (hm_value_size h))"
  shows "\<exists>rc h' m'. d4np_hashmap_put (Some h) key val m = Some (rc, Some h', m') \<and> wf_mem m' \<and> hm_inv H E h' m' \<and> uses h' \<and>
    hm_value_size h' = hm_value_size h \<and> keeps (set (live m) - hm_blocks h) m m' \<and>
    hm_blocks h' \<inter> (set (live m) - hm_blocks h) = {} \<and>
    (rc = D4NP_OK \<and> hm_map E h' m' = (\<lambda>y. if E (peek m key (unat ksz)) y then Some (peek m val (unat (hm_value_size h)))
       else hm_map E h m y) \<or>
     rc \<in> {D4NP_ERR_OVERFLOW, D4NP_ERR_OUT_OF_MEMORY} \<and> h' = h \<and> hm_map E h' m' = hm_map E h m)"
proof -
  from put_grow [OF assms(1-3)] obtain rc h1 m1 where
    g: "(if hm_capacity h * 3 \<le> (hm_len h + hm_tombstones h + 1) * 4
       then resize h (if hm_capacity h = 0 then D4NP_HASHMAP_MIN_CAPACITY else hm_capacity h * 2) m
       else Some (D4NP_OK, h, m)) = Some (rc, h1, m1)"
    and 1: "wf_mem m1" "hm_inv H E h1 m1" "uses h1" "hm_value_size h1 = hm_value_size h" "hm_map E h1 m1 = hm_map E h m"
      "keeps (set (live m) - hm_blocks h) m m1" "hm_blocks h1 \<inter> (set (live m) - hm_blocks h) = {}"
    and rc: "rc = D4NP_OK \<and> hm_capacity h1 \<noteq> 0 \<and> 4 * (unat (hm_len h1) + unat (hm_tombstones h1) + 1) < 3 * unat (hm_capacity h1) \<or>
     rc \<in> {D4NP_ERR_OVERFLOW, D4NP_ERR_OUT_OF_MEMORY} \<and> h1 = h" by blast
  have nn: "key \<noteq> NULL" "val \<noteq> NULL" using valid_nonnull [OF assms(1)] outside_valid assms(4,5) by blast+
  note k1 = outside_grown [OF assms(4) 1(6,7)] and v1 = outside_grown [OF assms(5) 1(6,7)]
  show ?thesis
  proof (cases "rc = D4NP_OK")
    case False
    have "d4np_hashmap_put (Some h) key val m = Some (rc, Some h1, m1)"
      unfolding d4np_hashmap_put_def option.case g using nn False by simp
    with rc 1 False show ?thesis by auto
  next
    case True
    with rc have room: "hm_capacity h1 \<noteq> 0" "4 * (unat (hm_len h1) + unat (hm_tombstones h1) + 1) < 3 * unat (hm_capacity h1)" by auto
    from put_entry [OF 1(1-3) room k1(1) v1(1) [folded 1(4)]] obtain h' m' where
      e: "d4np_hashmap_put (Some h) key val m = Some (D4NP_OK, Some h', m')" "wf_mem m'" "hm_inv H E h' m'" "uses h'"
        "hm_value_size h' = hm_value_size h1" "hm_blocks h' = hm_blocks h1" "keeps (set (live m1) - hm_blocks h1) m1 m'"
        "hm_map E h' m' = (\<lambda>y. if E (peek m1 key (unat ksz)) y then Some (peek m1 val (unat (hm_value_size h1))) else hm_map E h1 m1 y)"
      unfolding d4np_hashmap_put_def option.case g using nn True by auto
    have "set (live m) - hm_blocks h \<subseteq> set (live m1) - hm_blocks h1" using keeps_subset [OF 1(6)] 1(7) by blast
    then have "keeps (set (live m) - hm_blocks h) m m'" by (rule keeps_trans [OF 1(6) keeps_mono [OF e(7)]])
    moreover have "hm_map E h' m' = (\<lambda>y. if E (peek m key (unat ksz)) y then Some (peek m val (unat (hm_value_size h))) else hm_map E h m y)"
      unfolding e(8) k1(2) 1(4,5) v1(2) ..
    ultimately show ?thesis using e(1-6) 1(4,7) by auto
  qed
qed

lemma get_ok:
  assumes "wf_mem m" "hm_inv H E h m" "uses h" "valid m key (unat ksz)"
  shows "\<exists>p. d4np_hashmap_get (Some h) key m = Some p \<and>
    (case hm_map E h m (peek m key (unat ksz)) of
       None \<Rightarrow> p = NULL
     | Some v \<Rightarrow> p \<noteq> NULL \<and> valid m p (unat (hm_value_size h)) \<and> peek m p (unat (hm_value_size h)) = v)"
proof (cases "hm_capacity h = 0")
  case True
  then have "hm_map E h m (peek m key (unat ksz)) = None" by (simp add: hm_map_def tab_map_None absent_def)
  with True show ?thesis by (simp add: d4np_hashmap_get_def)
next
  case False
  have us: "hm_hash h = hash" "hm_key_eq h = key_eq" "hm_key_size h = ksz" using assms(3) by (auto simp: uses_def)
  have nn: "key \<noteq> NULL" using valid_nonnull [OF assms(1,4)] .
  obtain i found where loc: "locate h key m = Some (i, found)" "located h m (peek m key (unat ksz)) i found"
    using locate_ok [OF assms(1,2) False us assms(4)] .
  have s: "hm_storage h m" using assms(2) False by (simp add: hm_inv_def)
  have ic: "unat i < unat (hm_capacity h)" using loc(2) by (simp add: located_def)
  show ?thesis
  proof (cases found)
    case True
    then obtain k v where kv: "hm_tab h m (unat i) = Occ k v" "E k (peek m key (unat ksz))"
      using loc(2) by (auto simp: located_def)
    then have mp: "hm_map E h m (peek m key (unat ksz)) = Some v"
      unfolding hm_map_def using tab_map_Some [OF inv_tab(1) [OF assms(2)] ic] by simp
    have "hm_value_at h m (unat i) = v" using kv(1) ic by (simp add: hm_tab_def)
    moreover note storage_slot_addr(2) [OF assms(1) s ic] storage_valid(3) [OF s ic]
    moreover from this have "value_slot h i \<noteq> NULL" using valid_nonnull [OF assms(1)] by metis
    ultimately show ?thesis using mp nn False loc(1) True by (simp add: d4np_hashmap_get_def)
  next
    case nf: False
    then have "hm_map E h m (peek m key (unat ksz)) = None"
      using loc(2) by (simp add: located_def hm_map_def tab_map_None)
    then show ?thesis using nn False loc(1) nf by (simp add: d4np_hashmap_get_def)
  qed
qed

lemma map_absent:
  assumes "hm_map E h m x = None"
  shows "(\<lambda>y. if E x y then None else hm_map E h m y) = hm_map E h m"
proof
  fix y
  have "absent E (unat (hm_capacity h)) (hm_tab h m) y" if "E x y"
    using assms that E_trans [of _ y x] E_sym [of x y] unfolding hm_map_def tab_map_None absent_def by blast
  then show "(if E x y then None else hm_map E h m y) = hm_map E h m y"
    using tab_map_None [of E "unat (hm_capacity h)" "hm_tab h m" y] by (cases "E x y") (simp_all add: hm_map_def)
qed

text \<open>Turning the slot of an entry into a tombstone.\<close>

lemma remove_found:
  assumes "wf_mem m" "hm_inv H E h m" "hm_capacity h \<noteq> 0" "unat i < unat (hm_capacity h)" "hm_tab h m (unat i) = Occ k v" "E k x"
  defines "m' \<equiv> poke m (hm_control h + unat i) [SLOT_DELETED]"
    and "h' \<equiv> h\<lparr>hm_len := hm_len h - 1, hm_tombstones := hm_tombstones h + 1\<rparr>"
  shows "mem_write m (hm_control h + unat i) [SLOT_DELETED] = Some m'" "hm_inv H E h' m'" "hm_map E h m x = Some v"
    "hm_map E h' m' = (\<lambda>y. if E x y then None else hm_map E h m y)" "keeps (set (live m) - hm_blocks h) m m'"
proof -
  note ic = assms(4) and kv = assms(5,6) and it = inv_tab [OF assms(2)]
  have s: "hm_storage h m" "ctl_ok h m" using assms(2,3) by (auto simp: hm_inv_def)
  have tab: "hm_tab h m' = (hm_tab h m)(unat i := Deleted)" unfolding m'_def tab_poke_control [OF assms(1) s(1) ic] by simp
  have load: "4 * (unat (hm_len h) + unat (hm_tombstones h)) < 3 * unat (hm_capacity h)" using assms(2,3) by (simp add: hm_inv_def)
  have pos: "0 < unat (hm_len h)" using occ_count_update [OF ic, of "hm_tab h m" Deleted] it(2) kv(1) by simp
  have u: "unat (hm_len h - 1) = unat (hm_len h) - 1" "unat (hm_tombstones h + 1) = unat (hm_tombstones h) + 1"
    using pos load storage_cap_bound(1) [OF assms(1) s(1)] by (simp_all add: unat_sub_exact word_le_nat_alt unat_add_exact)
  have "bytes m' (hm_control h + j) = (if j = unat i then SLOT_DELETED else bytes m (hm_control h + j))" for j
    using bytes_poke_in [of 0 "[SLOT_DELETED]" m "hm_control h + unat i"] by (auto simp: m'_def intro: bytes_poke_other)
  then have "ctl_ok h m'" using s(2) by (simp add: ctl_ok_def)
  then show "hm_inv H E h' m'"
    using assms(2,3) s(1) tab_ok_delete [OF it(1)] tab storage_live [of m' m h] u pos load it(2,3) kv(1)
      occ_count_update [OF ic, of "hm_tab h m" Deleted] del_count_update [OF ic, of "hm_tab h m" Deleted]
    by (simp add: hm_inv_def h'_def m'_def)
  show "hm_map E h m x = Some v" unfolding hm_map_def by (rule tab_map_Some [OF it(1) ic kv])
  show "hm_map E h' m' = (\<lambda>y. if E x y then None else hm_map E h m y)"
    unfolding hm_map_def h'_def using tab_map_delete [OF it(1) ic kv(1)] tab by (simp add: E_eq [OF kv(2)])
  show "keeps (set (live m) - hm_blocks h) m m'" unfolding m'_def
    by (rule keeps_poke_outside [OF assms(1) _ storage_blocks(1) [OF s(1)]]) (use ic in \<open>simp_all add: hm_blocks_def\<close>)
  show "mem_write m (hm_control h + unat i) [SLOT_DELETED] = Some m'"
    using storage_valid(1) [OF s(1) ic] by (simp add: mem_write_Some m'_def)
qed

lemma remove_ok:
  assumes "wf_mem m" "hm_inv H E h m" "uses h" "valid m key (unat ksz)"
  shows "\<exists>b h' m'. d4np_hashmap_remove (Some h) key m = Some (b, Some h', m') \<and> wf_mem m' \<and> live m' = live m \<and>
    hm_inv H E h' m' \<and> uses h' \<and> hm_value_size h' = hm_value_size h \<and> hm_blocks h' = hm_blocks h \<and>
    keeps (set (live m) - hm_blocks h) m m' \<and> (b \<longleftrightarrow> hm_map E h m (peek m key (unat ksz)) \<noteq> None) \<and>
    hm_map E h' m' = (\<lambda>y. if E (peek m key (unat ksz)) y then None else hm_map E h m y)"
proof (cases "hm_capacity h = 0")
  case True
  then have "hm_map E h m (peek m key (unat ksz)) = None" by (simp add: hm_map_def tab_map_None absent_def)
  with map_absent [OF this] True assms show ?thesis
    by (intro exI [of _ False] exI [of _ h] exI [of _ m]) (simp add: d4np_hashmap_remove_def)
next
  case False
  let ?x = "peek m key (unat ksz)"
  have us: "hm_hash h = hash" "hm_key_eq h = key_eq" "hm_key_size h = ksz" using assms(3) by (auto simp: uses_def)
  have nn: "key \<noteq> NULL" using valid_nonnull [OF assms(1,4)] .
  obtain i found where loc: "locate h key m = Some (i, found)" "located h m ?x i found"
    using locate_ok [OF assms(1,2) False us assms(4)] .
  show ?thesis
  proof (cases found)
    case nf: False
    then have "hm_map E h m ?x = None" using loc(2) by (simp add: located_def hm_map_def tab_map_None)
    with map_absent [OF this] nn False loc(1) nf assms show ?thesis
      by (intro exI [of _ False] exI [of _ h] exI [of _ m]) (simp add: d4np_hashmap_remove_def)
  next
    case True
    then obtain k v where kv: "unat i < unat (hm_capacity h)" "hm_tab h m (unat i) = Occ k v" "E k ?x" using loc(2) by (auto simp: located_def)
    note r = remove_found [OF assms(1,2) False kv]
    show ?thesis using r nn False loc(1) True assms(1,3)
      by (intro exI [of _ True] exI [of _ "h\<lparr>hm_len := hm_len h - 1, hm_tombstones := hm_tombstones h + 1\<rparr>"]
        exI [of _ "poke m (hm_control h + unat i) [SLOT_DELETED]"]) (simp add: d4np_hashmap_remove_def)
  qed
qed

lemma clear_ok:
  assumes "wf_mem m" "hm_inv H E h m" "uses h"
  shows "\<exists>h' m'. d4np_hashmap_clear (Some h) m = Some (Some h', m') \<and> wf_mem m' \<and> hm_inv H E h' m' \<and> uses h' \<and>
    hm_capacity h' = hm_capacity h \<and> hm_len h' = 0 \<and> keeps (set (live m) - hm_blocks h) m m' \<and> live m' = live m \<and>
    hm_map E h' m' = Map.empty"
proof (cases "hm_capacity h = 0")
  case True
  then have "hm_map E h m = Map.empty" by (simp add: hm_map_def tab_map_None absent_def fun_eq_iff)
  with True assms show ?thesis by (auto simp: d4np_hashmap_clear_def hm_inv_def)
next
  case False
  then have s: "hm_storage h m" using assms(2) by (simp add: hm_inv_def)
  have c0: "hm_control h \<noteq> NULL" using wf_block [OF assms(1) storage_blocks(1) [OF s]] by simp
  from fresh_table [OF assms(1) s] obtain m' where
    m': "memset m (hm_control h) SLOT_EMPTY (unat (hm_capacity h)) = Some m'" "wf_mem m'"
      "keeps (set (live m) - hm_blocks h) m m'" "hm_tab h m' = (\<lambda>_. Empty)" "moved h m' (\<lambda>_. Empty) 0" by blast
  let ?h = "h\<lparr>hm_len := 0, hm_tombstones := 0\<rparr>"
  have "moved ?h m' (\<lambda>_. Empty) 0" using m'(5) by (simp add: moved_def)
  then have "hm_inv H E ?h m'" using False by (intro inv_of_moved) (auto simp: unat_pos_iff)
  moreover have "hm_map E ?h m' = Map.empty" using m'(4) by (simp add: hm_map_def tab_map_None absent_def fun_eq_iff)
  moreover have "live m' = live m" using m'(1) by (auto simp: memset_def mem_write_def split: if_splits)
  ultimately show ?thesis using m' c0 assms(3) by (simp add: d4np_hashmap_clear_def)
qed

lemma destroy_ok:
  assumes "wf_mem m" "hm_inv H E h m" "uses h"
  shows "\<exists>h' m'. d4np_hashmap_destroy (Some h) m = Some (Some h', m') \<and> wf_mem m' \<and> hm_inv H E h' m' \<and>
    hm_capacity h' = 0 \<and> keeps (set (live m) - hm_blocks h) m m' \<and> set (live m') = set (live m) - hm_blocks h \<and>
    hm_map E h' m' = Map.empty"
proof -
  have empty: "hm_map E h' m' = Map.empty" if "hm_capacity h' = 0" for h' m'
    using that by (simp add: hm_map_def tab_map_None absent_def fun_eq_iff)
  show ?thesis
  proof (cases "hm_control h = NULL")
    case True
    then have "hm_capacity h = 0" using assms(2) wf_block [OF assms(1) storage_blocks(1) [of h]]
      by (auto simp: hm_inv_def split: if_splits)
    moreover from this have "set (live m) - hm_blocks h = set (live m)" using wf_block [OF assms(1)] by (auto simp: hm_blocks_def)
    ultimately show ?thesis using True assms empty by (auto simp: d4np_hashmap_destroy_def)
  next
    case False
    then have "hm_capacity h \<noteq> 0" using assms(2) by (auto simp: hm_inv_def)
    with free_old [OF assms, of m] assms(1) obtain m8 where m8: "wf_mem m8" "keeps (set (live m) - hm_blocks h) m m8"
      "set (live m8) = set (live m) - hm_blocks h"
      "\<And>f :: mem \<Rightarrow> (d4np_hashmap option \<times> mem) option.
         do { m6 \<leftarrow> d4np_free (hm_allocator h) (hm_control h) (hm_capacity h) m;
         m7 \<leftarrow> d4np_free (hm_allocator h) (hm_keys h) (hm_capacity h * hm_key_stride h) m6;
         m8 \<leftarrow> d4np_free (hm_allocator h) (hm_values h) (hm_capacity h * hm_value_stride h) m7; f m8 } = f m8"
      using keeps_refl by blast
    let ?h = "h\<lparr>hm_control := NULL, hm_keys := NULL, hm_values := NULL, hm_capacity := 0, hm_len := 0, hm_tombstones := 0\<rparr>"
    have "d4np_hashmap_destroy (Some h) m = Some (Some ?h, m8)" using False m8(4) by (simp add: d4np_hashmap_destroy_def)
    moreover have "hm_inv H E ?h m8" using assms(2) by (simp add: hm_inv_def hm_sizes_def)
    ultimately show ?thesis using m8 empty [of ?h m8] by simp
  qed
qed

lemma round_up_sizes:
  assumes "n \<noteq> 0" "unat n + 15 < 2 ^ 64"
  shows "unat n \<le> unat (hm_round_up n MAX_ALIGN)" "16 \<le> unat (hm_round_up n MAX_ALIGN)"
proof -
  have "hm_round_up n MAX_ALIGN = (n + (2 ^ 4 - 1)) AND NOT (2 ^ 4 - 1)" by (simp add: hm_round_up_def MAX_ALIGN_def)
  then have r: "unat (hm_round_up n MAX_ALIGN) = round_up_nat (unat n) (2 ^ 4)"
    using unat_round_up_mask [of 4 n] assms(2) by simp
  show le: "unat n \<le> unat (hm_round_up n MAX_ALIGN)" unfolding r by (rule round_up_nat_ge) simp
  have "16 dvd unat (hm_round_up n MAX_ALIGN)" unfolding r using round_up_nat_dvd [of 16] by simp
  moreover have "0 < unat (hm_round_up n MAX_ALIGN)" using le assms(1) by (simp add: unat_pos_iff [symmetric])
  ultimately show "16 \<le> unat (hm_round_up n MAX_ALIGN)" by (rule dvd_imp_le)
qed

lemma init_ok:
  assumes "wf_mem m" "ksz \<noteq> 0" "vsz \<noteq> 0" "unat ksz + 15 < 2 ^ 64" "unat vsz + 15 < 2 ^ 64"
    "hash = (case hf of None \<Rightarrow> default_hash | Some f \<Rightarrow> f)" "key_eq = (case ef of None \<Rightarrow> default_key_eq | Some f \<Rightarrow> f)"
  shows "\<exists>rc h' m'. d4np_hashmap_init (Some h) (Some A) ksz vsz cap hf ef m = Some (rc, Some h', m') \<and> wf_mem m' \<and>
    hm_inv H E h' m' \<and> uses h' \<and> hm_value_size h' = vsz \<and> keeps (set (live m)) m m' \<and> hm_map E h' m' = Map.empty \<and>
    rc \<in> {D4NP_OK, D4NP_ERR_OVERFLOW, D4NP_ERR_OUT_OF_MEMORY} \<and> (cap = 0 \<longrightarrow> rc = D4NP_OK)"
proof -
  let ?h = "\<lparr>hm_allocator = Some A, hm_control = NULL, hm_keys = NULL, hm_values = NULL, hm_key_size = ksz,
     hm_value_size = vsz, hm_key_stride = hm_round_up ksz MAX_ALIGN, hm_value_stride = hm_round_up vsz MAX_ALIGN,
     hm_capacity = 0, hm_len = 0, hm_tombstones = 0, hm_hash = hash, hm_key_eq = key_eq\<rparr>"
  have inv: "hm_inv H E ?h m"
    using assms round_up_sizes [of ksz] round_up_sizes [of vsz] by (simp add: hm_inv_def hm_sizes_def unat_pos_iff)
  have us: "uses ?h" by (simp add: uses_def)
  have mt: "hm_map E ?h m = Map.empty" by (simp add: hm_map_def tab_map_None absent_def fun_eq_iff)
  have z: "set (live m) - hm_blocks ?h = set (live m)" using wf_block [OF assms(1)] by (auto simp: hm_blocks_def)
  show ?thesis
  proof (cases "cap = 0")
    case True
    with assms inv us mt show ?thesis by (auto simp: d4np_hashmap_init_def)
  next
    case False
    obtain j where j: "3 \<le> j" "j < 64" "hm_next_pow2_at_least cap = Some (2 ^ j)"
      using double_until_pow2 [of 3 cap] by (auto simp: hm_next_pow2_at_least_def D4NP_HASHMAP_MIN_CAPACITY_def)
    have "4 * unat (hm_len ?h) < 3 * unat (2 ^ j :: size_t)" using j(2) by (simp add: unat_pow2)
    from resize_ok [OF assms(1) inv us refl j(1,2) this] obtain rc h' m' where
      "resize ?h (2 ^ j) m = Some (rc, h', m')" "wf_mem m'" "hm_inv H E h' m'" "uses h'" "hm_value_size h' = vsz"
      "hm_map E h' m' = Map.empty" "keeps (set (live m)) m m'" "rc \<in> {D4NP_OK, D4NP_ERR_OVERFLOW, D4NP_ERR_OUT_OF_MEMORY}"
      unfolding z mt by auto
    then show ?thesis
      using False assms(2,3) j(3) word_neq_0_conv [of cap]
      by (simp add: d4np_hashmap_init_def assms(6,7) [symmetric])
  qed
qed

end

section \<open>The number of entries\<close>

lemma inv_len_card:
  assumes "hm_inv fnv1a (=) h m"
  shows "card (dom (hm_map (=) h m)) = unat (hm_len h)" "finite (dom (hm_map (=) h m))"
proof -
  let ?c = "unat (hm_capacity h)" and ?t = "hm_tab h m"
  have ok: "tab_ok (\<lambda>k. unat (fnv1a k)) (=) ?c ?t" "occ_count ?c ?t = unat (hm_len h)"
    using default_keys.inv_tab [OF assms] by auto
  let ?I = "{i. i < ?c \<and> is_occ (?t i)}"
  let ?key = "\<lambda>i. case ?t i of Occ k v \<Rightarrow> k | _ \<Rightarrow> []"
  have "dom (hm_map (=) h m) = ?key ` ?I"
  proof (rule set_eqI)
    fix x
    have "x \<in> dom (hm_map (=) h m) \<longleftrightarrow> \<not> absent (=) ?c ?t x"
      using tab_map_None [of "(=)" ?c ?t x] by (auto simp: hm_map_def)
    also have "\<dots> \<longleftrightarrow> (\<exists>i < ?c. \<exists>v. ?t i = Occ x v)" by (auto simp: absent_def)
    also have "\<dots> \<longleftrightarrow> x \<in> ?key ` ?I"
    proof
      assume "\<exists>i < ?c. \<exists>v. ?t i = Occ x v"
      then obtain i v where "i < ?c" "?t i = Occ x v" by blast
      then show "x \<in> ?key ` ?I" by (intro image_eqI [of _ _ i]) simp_all
    next
      assume "x \<in> ?key ` ?I"
      then obtain i where "i < ?c" "is_occ (?t i)" "x = ?key i" by blast
      then show "\<exists>i < ?c. \<exists>v. ?t i = Occ x v" by (cases "?t i") auto
    qed
    finally show "x \<in> dom (hm_map (=) h m) \<longleftrightarrow> x \<in> ?key ` ?I" .
  qed
  moreover have "inj_on ?key ?I"
  proof (rule inj_onI)
    fix i j assume "i \<in> ?I" "j \<in> ?I" "?key i = ?key j"
    then show "i = j" using same_slot [OF ok(1), of i j] by (cases "?t i"; cases "?t j") auto
  qed
  ultimately show "card (dom (hm_map (=) h m)) = unat (hm_len h)" "finite (dom (hm_map (=) h m))"
    using ok(2) by (simp_all add: card_image occ_count_def)
qed

section \<open>Properties\<close>

text \<open>C3: for every allocator and every pair of hash and equality functions that keep their
  contracts, \<open>put\<close> on a well-formed map, with key and value outside the map's own arrays, never
  has undefined behaviour and either updates exactly the binding of that key in the map the arrays
  stand for (whether the key was present, a tombstone was reused or the table had to grow), or
  reports OVERFLOW or OUT_OF_MEMORY and leaves every binding as it was; it keeps the invariant and
  every object other than the map's arrays.\<close>

theorem hashmap_put_updates:
  assumes "hashmap_env A H E hash key_eq ksz" "wf_mem m" "hm_inv H E h m"
    "hm_allocator h = Some A" "hm_hash h = hash" "hm_key_eq h = key_eq" "hm_key_size h = ksz"
    "outside m (hm_blocks h) key (unat ksz)" "outside m (hm_blocks h) val (unat (hm_value_size h))"
  shows "\<exists>rc h' m'. d4np_hashmap_put (Some h) key val m = Some (rc, Some h', m') \<and> wf_mem m' \<and> hm_inv H E h' m' \<and>
    keeps (set (live m) - hm_blocks h) m m' \<and>
    (rc = D4NP_OK \<and> hm_map E h' m' = (\<lambda>y. if E (peek m key (unat ksz)) y
       then Some (peek m val (unat (hm_value_size h))) else hm_map E h m y) \<or>
     rc \<in> {D4NP_ERR_OVERFLOW, D4NP_ERR_OUT_OF_MEMORY} \<and> h' = h \<and> hm_map E h' m' = hm_map E h m)"
proof -
  have "hashmap_env.uses A hash key_eq ksz h" using assms(4-7) by (simp add: hashmap_env.uses_def [OF assms(1)])
  from hashmap_env.put_ok [OF assms(1-3) this assms(8,9)] show ?thesis by blast
qed

text \<open>C12: \<open>get\<close> on a well-formed map returns NULL exactly when the key has no binding, and
  otherwise the address of readable bytes that are the value bound to it.\<close>

theorem hashmap_get_looks_up:
  assumes "hashmap_env A H E hash key_eq ksz" "wf_mem m" "hm_inv H E h m"
    "hm_allocator h = Some A" "hm_hash h = hash" "hm_key_eq h = key_eq" "hm_key_size h = ksz" "valid m key (unat ksz)"
  shows "\<exists>p. d4np_hashmap_get (Some h) key m = Some p \<and>
    d4np_hashmap_contains (Some h) key m = Some (hm_map E h m (peek m key (unat ksz)) \<noteq> None) \<and>
    (case hm_map E h m (peek m key (unat ksz)) of
       None \<Rightarrow> p = NULL
     | Some v \<Rightarrow> p \<noteq> NULL \<and> valid m p (unat (hm_value_size h)) \<and> peek m p (unat (hm_value_size h)) = v)"
proof -
  have "hashmap_env.uses A hash key_eq ksz h" using assms(4-7) by (simp add: hashmap_env.uses_def [OF assms(1)])
  from hashmap_env.get_ok [OF assms(1-3) this assms(8)] show ?thesis
    by (auto simp: d4np_hashmap_contains_def split: option.splits)
qed

text \<open>C13: \<open>remove\<close> reports whether the key was bound, deletes exactly its binding, and touches
  nothing outside the map.\<close>

theorem hashmap_remove_deletes:
  assumes "hashmap_env A H E hash key_eq ksz" "wf_mem m" "hm_inv H E h m"
    "hm_allocator h = Some A" "hm_hash h = hash" "hm_key_eq h = key_eq" "hm_key_size h = ksz" "valid m key (unat ksz)"
  shows "\<exists>h' m'. d4np_hashmap_remove (Some h) key m =
      Some (hm_map E h m (peek m key (unat ksz)) \<noteq> None, Some h', m') \<and> wf_mem m' \<and> hm_inv H E h' m' \<and>
    keeps (set (live m) - hm_blocks h) m m' \<and>
    hm_map E h' m' = (\<lambda>y. if E (peek m key (unat ksz)) y then None else hm_map E h m y)"
proof -
  have "hashmap_env.uses A hash key_eq ksz h" using assms(4-7) by (simp add: hashmap_env.uses_def [OF assms(1)])
  from hashmap_env.remove_ok [OF assms(1-3) this assms(8)] show ?thesis by blast
qed

text \<open>\<open>d4np_hashmap_len\<close> is the number of bound keys of a map with the default functions.\<close>

theorem hashmap_len_counts:
  assumes "hm_inv fnv1a (=) h m"
  shows "unat (d4np_hashmap_len (Some h)) = card (dom (hm_map (=) h m)) \<and> finite (dom (hm_map (=) h m))"
  using inv_len_card [OF assms] by (simp add: d4np_hashmap_len_def)

text \<open>C38: initialising a map (with sizes whose rounding does not wrap) yields a well-formed empty
  map whether or not the requested storage could be allocated; clearing any well-formed map yields an
  empty one with the same capacity and the same storage; destroying it returns the three arrays to the allocator and
  nothing else, so that exactly the other objects are still allocated, and leaves an empty map without storage. None of them
  touches an object outside the map.\<close>

theorem hashmap_lifecycle:
  assumes "hashmap_env A H E hash key_eq ksz" "wf_mem m" "ksz \<noteq> 0" "vsz \<noteq> 0"
    "unat ksz + 15 < 2 ^ 64" "unat vsz + 15 < 2 ^ 64"
  shows "(\<exists>rc h' m'. d4np_hashmap_init (Some h0) (Some A) ksz vsz cap (Some hash) (Some key_eq) m = Some (rc, Some h', m') \<and>
      rc \<in> {D4NP_OK, D4NP_ERR_OVERFLOW, D4NP_ERR_OUT_OF_MEMORY} \<and> wf_mem m' \<and> hm_inv H E h' m' \<and>
      keeps (set (live m)) m m' \<and> hm_map E h' m' = Map.empty) \<and>
    (hm_inv H E h m \<and> hm_allocator h = Some A \<and> hm_hash h = hash \<and> hm_key_eq h = key_eq \<and> hm_key_size h = ksz \<longrightarrow>
      (\<exists>h' m'. d4np_hashmap_clear (Some h) m = Some (Some h', m') \<and> hm_inv H E h' m' \<and> hm_capacity h' = hm_capacity h \<and>
         keeps (set (live m) - hm_blocks h) m m' \<and> live m' = live m \<and> hm_map E h' m' = Map.empty) \<and>
      (\<exists>h' m'. d4np_hashmap_destroy (Some h) m = Some (Some h', m') \<and> hm_inv H E h' m' \<and> hm_capacity h' = 0 \<and>
         keeps (set (live m) - hm_blocks h) m m' \<and> set (live m') = set (live m) - hm_blocks h \<and> hm_map E h' m' = Map.empty))"
proof (intro conjI impI, goal_cases)
  case 1
  then show ?case using hashmap_env.init_ok [OF assms, of "Some hash" "Some key_eq" h0 cap] by auto
next
  case 2
  then have "hashmap_env.uses A hash key_eq ksz h" by (simp add: hashmap_env.uses_def [OF assms(1)])
  with 2 show ?case using hashmap_env.clear_ok [OF assms(1,2), of h] by blast
next
  case 3
  then have "hashmap_env.uses A hash key_eq ksz h" by (simp add: hashmap_env.uses_def [OF assms(1)])
  with 3 show ?case using hashmap_env.destroy_ok [OF assms(1,2), of h] by blast
qed

section \<open>A concrete map\<close>

text \<open>Eight slots, one of them occupied: the key of four zero bytes, whose hash selects slot 5, bound to
  a value of two zero bytes.\<close>

definition hm_ex :: d4np_hashmap where
  "hm_ex = \<lparr>hm_allocator = Some d4np_allocator_default, hm_control = 16, hm_keys = 32, hm_values = 160, hm_key_size = 4,
     hm_value_size = 2, hm_key_stride = 16, hm_value_stride = 16, hm_capacity = 8, hm_len = 1, hm_tombstones = 0,
     hm_hash = default_hash, hm_key_eq = default_key_eq\<rparr>"

definition hm_ex_mem :: mem where
  "hm_ex_mem = \<lparr>bytes = (\<lambda>a. if a = 21 then 1 else 0), live = [(16, 8), (32, 128), (160, 128), (288, 4), (304, 2)],
     place = (\<lambda>_. 0), tick = 0\<rparr>"

interpretation default_map: hashmap_env d4np_allocator_default fnv1a "(=)" default_hash default_key_eq ksz for ksz
  by (intro hashmap_env.intro default_allocator.allocator_contract_axioms default_keys.hash_contract_axioms)

lemmas hm_ex_env = default_map.hashmap_env_axioms

lemma peek_zero: "p + n \<le> 16 \<or> 24 \<le> p \<Longrightarrow> peek hm_ex_mem p n = replicate n 0"
  by (auto simp: list_eq_iff_nth_eq hm_ex_mem_def)

lemma hm_ex_tab: "hm_tab hm_ex hm_ex_mem = (\<lambda>_. Empty)(5 := Occ (replicate 4 0) (replicate 2 0))"
proof
  fix i :: nat
  have "bytes hm_ex_mem (16 + i) = (if i = 5 then 1 else 0)" by (simp add: hm_ex_mem_def)
  then show "hm_tab hm_ex hm_ex_mem i = ((\<lambda>_. Empty)(5 := Occ (replicate 4 0) (replicate 2 0))) i"
    by (cases "i = 5") (simp_all add: hm_tab_def peek_zero hm_ex_def)
qed

lemma replicate_small: "replicate 4 x = [x, x, x, x]" "replicate 2 x = [x, x]"
  by (simp_all add: numeral_eq_Suc)

lemma hm_ex_hash: "fnv1a (replicate 4 0) = 5558979605539197941"
  unfolding replicate_small
  by (simp add: fnv1a_def fnv1a_from_def fnv_step_def D4NP_FNV1A_OFFSET_BASIS_def D4NP_FNV1A_PRIME_def)

lemma hm_ex_inv: "wf_mem hm_ex_mem" "hm_inv fnv1a (=) hm_ex hm_ex_mem"
proof -
  show "wf_mem hm_ex_mem" by (simp add: hm_ex_mem_def wf_mem_def ADDR_LIMIT_def)
  have st: "hm_storage hm_ex hm_ex_mem"
    by (auto simp: hm_storage_def hm_sizes_def hm_blocks_def hm_ex_def hm_ex_mem_def intro!: bexI [of _ 3])
  have ctl: "ctl_ok hm_ex hm_ex_mem" by (simp add: ctl_ok_def hm_ex_def hm_ex_mem_def)
  have "tab_ok (\<lambda>k. unat (fnv1a k)) (=) 8 (hm_tab hm_ex hm_ex_mem)"
    unfolding hm_ex_tab tab_ok_def reach_def by (auto simp: hm_ex_hash intro!: exI [of _ 0] split: if_splits)
  moreover have "occ_count 8 (hm_tab hm_ex hm_ex_mem) = 1" "del_count 8 (hm_tab hm_ex hm_ex_mem) = 0"
    unfolding hm_ex_tab
    using occ_count_update [of 5 8 "\<lambda>_. Empty" "Occ (replicate 4 (0::byte)) (replicate 2 (0::byte))"]
      del_count_update [of 5 8 "\<lambda>_. Empty" "Occ (replicate 4 (0::byte)) (replicate 2 (0::byte))"] by simp_all
  ultimately show "hm_inv fnv1a (=) hm_ex hm_ex_mem"
    using st ctl by (simp add: hm_inv_def hm_sizes_def hm_ex_def)
qed

lemma hm_ex_fields:
  "hm_allocator hm_ex = Some d4np_allocator_default" "hm_hash hm_ex = default_hash" "hm_key_eq hm_ex = default_key_eq"
  "hm_key_size hm_ex = 4"
  by (simp_all add: hm_ex_def)

lemma hm_ex_map: "hm_map (=) hm_ex hm_ex_mem (replicate 4 0) = Some (replicate 2 0)"
  unfolding hm_map_def
  by (rule default_keys.tab_map_Some [OF default_keys.inv_tab(1) [OF hm_ex_inv(2)], of 5 "replicate 4 0"])
    (simp_all add: hm_ex_tab, simp add: hm_ex_def)

lemma hm_ex_key: "outside hm_ex_mem (hm_blocks hm_ex) 288 4" "outside hm_ex_mem (hm_blocks hm_ex) 304 2" "valid hm_ex_mem 288 4"
  by (simp_all add: outside_def hm_blocks_def hm_ex_def hm_ex_mem_def valid_def)

theorem hashmap_put_updates_witness:
  "\<exists>rc h' m'. d4np_hashmap_put (Some hm_ex) 288 304 hm_ex_mem = Some (rc, Some h', m') \<and> hm_inv fnv1a (=) h' m'"
  using hashmap_put_updates [OF hm_ex_env hm_ex_inv hm_ex_fields, of 288 304] hm_ex_key by (auto simp: hm_ex_def)

theorem hashmap_get_looks_up_witness:
  "\<exists>p. d4np_hashmap_get (Some hm_ex) 288 hm_ex_mem = Some p \<and> p \<noteq> NULL \<and> peek hm_ex_mem p 2 = [0, 0]"
  using hashmap_get_looks_up [OF hm_ex_env hm_ex_inv hm_ex_fields, of 288] hm_ex_key(3) hm_ex_map
  by (simp add: peek_zero) (auto simp: hm_ex_def replicate_small)

theorem hashmap_remove_deletes_witness:
  "\<exists>h' m'. d4np_hashmap_remove (Some hm_ex) 288 hm_ex_mem = Some (True, Some h', m') \<and>
     hm_map (=) h' m' (replicate 4 0) = None"
  using hashmap_remove_deletes [OF hm_ex_env hm_ex_inv hm_ex_fields, of 288] hm_ex_key(3) hm_ex_map
  by (auto simp: peek_zero)

theorem hashmap_len_counts_witness: "card (dom (hm_map (=) hm_ex hm_ex_mem)) = 1"
  using hashmap_len_counts [OF hm_ex_inv(2)] by (simp add: d4np_hashmap_len_def hm_ex_def)

theorem hashmap_lifecycle_witness:
  "(\<exists>rc h' m'. d4np_hashmap_init (Some hm_ex) (Some d4np_allocator_default) 4 2 100 (Some default_hash)
     (Some default_key_eq) hm_ex_mem = Some (rc, Some h', m') \<and> hm_map (=) h' m' = Map.empty) \<and>
   (\<exists>h' m'. d4np_hashmap_clear (Some hm_ex) hm_ex_mem = Some (Some h', m') \<and> hm_map (=) h' m' = Map.empty) \<and>
   (\<exists>h' m'. d4np_hashmap_destroy (Some hm_ex) hm_ex_mem = Some (Some h', m') \<and> hm_capacity h' = 0 \<and> set (live m') = {(288, 4), (304, 2)})"
proof -
  have b: "set (live hm_ex_mem) - hm_blocks hm_ex = {(288, 4), (304, 2)}" by (auto simp: hm_ex_mem_def hm_blocks_def hm_ex_def)
  show ?thesis
    using hashmap_lifecycle [OF hm_ex_env hm_ex_inv(1), of 4 2 hm_ex 100 hm_ex] hm_ex_inv(2) hm_ex_fields unfolding b by auto
qed

text \<open>\<open>d4np_hashmap_init\<close> does not check that rounding a size up to the alignment stays in range:
  a key size within 15 of \<open>SIZE_MAX\<close> gives a stride of zero, initialisation reports OK, and the first
  insertion divides by that stride.\<close>

theorem hashmap_stride_wraps:
  "d4np_hashmap_init (Some hm_ex) None (- 1) 2 0 None None hm_ex_mem =
     Some (D4NP_OK, Some \<lparr>hm_allocator = Some d4np_allocator_default, hm_control = NULL, hm_keys = NULL,
       hm_values = NULL, hm_key_size = - 1, hm_value_size = 2, hm_key_stride = 0, hm_value_stride = 16,
       hm_capacity = 0, hm_len = 0, hm_tombstones = 0, hm_hash = default_hash, hm_key_eq = default_key_eq\<rparr>, hm_ex_mem) \<and>
   (\<forall>h key val m. hm_key_stride h = 0 \<and> hm_capacity h = 0 \<and> key \<noteq> NULL \<and> val \<noteq> NULL \<longrightarrow>
      d4np_hashmap_put (Some h) key val m = None)"
  by (simp add: d4np_hashmap_init_def hm_round_up_def MAX_ALIGN_def d4np_hashmap_put_def resize_def)

theorem hashmap_stride_wraps_witness:
  "d4np_hashmap_put (Some (hm_ex\<lparr>hm_key_stride := 0, hm_capacity := 0\<rparr>)) 288 304 hm_ex_mem = None"
  using hashmap_stride_wraps by simp

end
