(* ===== verification/Queue.thy ===== *)
theory Queue
  imports Main
begin

text \<open>
  The contract of the library's queues. A queue state (structure and memory) holds a list of
  elements; a push copies the value a source designates, a pop returns the oldest element. A
  source stays usable, with its value, across the operations. What clients rely on, that any mix of
  operations delivers the accepted elements in order, is proved here once and holds for each queue
  that meets the contract.
\<close>

datatype 'p queue_op = Push 'p | Pop

locale fifo =
  fixes inv :: "'s \<Rightarrow> bool" and elems :: "'s \<Rightarrow> 'v list"
    and src :: "'s \<Rightarrow> 'p \<Rightarrow> bool" and val :: "'s \<Rightarrow> 'p \<Rightarrow> 'v"
    and push :: "'s \<Rightarrow> 'p \<Rightarrow> (bool \<times> 's) option" and pop :: "'s \<Rightarrow> ('v option \<times> 's) option"
  assumes push_law: "inv s \<Longrightarrow> src s p \<Longrightarrow> \<exists>b s'. push s p = Some (b, s') \<and> inv s' \<and>
      elems s' = elems s @ (if b then [val s p] else []) \<and> (\<forall>q. src s q \<longrightarrow> src s' q \<and> val s' q = val s q)"
    and pop_law: "inv s \<Longrightarrow> \<exists>r s'. pop s = Some (r, s') \<and> inv s' \<and>
      (case r of None \<Rightarrow> elems s = [] \<and> elems s' = [] | Some v \<Rightarrow> elems s = v # elems s') \<and>
      (\<forall>q. src s q \<longrightarrow> src s' q \<and> val s' q = val s q)"
begin

text \<open>A run of operations returns the elements it accepted and those it delivered.\<close>

fun run :: "'p queue_op list \<Rightarrow> 's \<Rightarrow> ('v list \<times> 'v list \<times> 's) option" where
  "run [] s = Some ([], [], s)"
| "run (Push p # ops) s =
     (case push s p of None \<Rightarrow> None
      | Some (b, s1) \<Rightarrow> (case run ops s1 of None \<Rightarrow> None
         | Some (ins, outs, s2) \<Rightarrow> Some ((if b then [val s p] else []) @ ins, outs, s2)))"
| "run (Pop # ops) s =
     (case pop s of None \<Rightarrow> None
      | Some (r, s1) \<Rightarrow> (case run ops s1 of None \<Rightarrow> None
         | Some (ins, outs, s2) \<Rightarrow> Some (ins, (case r of None \<Rightarrow> [] | Some v \<Rightarrow> [v]) @ outs, s2)))"

lemma run_fifo:
  "inv s \<Longrightarrow> \<forall>p. Push p \<in> set ops \<longrightarrow> src s p \<Longrightarrow>
   \<exists>ins outs s'. run ops s = Some (ins, outs, s') \<and> inv s' \<and> outs @ elems s' = elems s @ ins"
proof (induction ops arbitrary: s)
  case (Cons op ops)
  show ?case
  proof (cases op)
    case (Push p)
    with Cons.prems have "src s p" by simp
    from push_law [OF Cons.prems(1) this] obtain b s1 where
      1: "push s p = Some (b, s1)" "inv s1" "elems s1 = elems s @ (if b then [val s p] else [])" "\<forall>q. src s q \<longrightarrow> src s1 q"
      by blast
    with Cons.IH [OF 1(2)] Cons.prems(2) obtain ins outs s2 where
      "run ops s1 = Some (ins, outs, s2)" "inv s2" "outs @ elems s2 = elems s1 @ ins" by auto
    with 1 Push show ?thesis by auto
  next
    case Pop
    from pop_law [OF Cons.prems(1)] obtain r s1 where
      1: "pop s = Some (r, s1)" "inv s1" "case r of None \<Rightarrow> elems s = [] \<and> elems s1 = [] | Some v \<Rightarrow> elems s = v # elems s1"
        "\<forall>q. src s q \<longrightarrow> src s1 q" by blast
    with Cons.IH [OF 1(2)] Cons.prems(2) obtain ins outs s2 where
      "run ops s1 = Some (ins, outs, s2)" "inv s2" "outs @ elems s2 = elems s1 @ ins" by auto
    with 1 Pop show ?thesis by (auto split: option.splits)
  qed
qed simp

end

end
