(* ===== verification/Ring_Buffer.thy ===== *)
theory Ring_Buffer
  imports Allocator Queue
begin

text \<open>
  The bounded single-producer single-consumer ring buffer (\<open>ds/ring_buffer.h\<close>,
  \<open>ds/ring_buffer.c\<close>): the operations run one at a time, as functions on the structure and the
  memory. The interleaved executions of a producer and a consumer thread are in
  \<open>Ring_Buffer_SPSC\<close>.
\<close>

section \<open>Definitions\<close>

record d4np_ring_buffer =
  rb_allocator :: "d4np_allocator option"
  rb_buffer :: ptr
  rb_elem_size :: size_t
  rb_capacity :: size_t
  rb_mask :: size_t
  rb_head :: size_t
  rb_tail :: size_t

definition rb_next_pow2_at_least :: "size_t \<Rightarrow> size_t option" where
  "rb_next_pow2_at_least n = double_until 1 n"

definition d4np_ring_buffer_init ::
  "d4np_ring_buffer option \<Rightarrow> d4np_allocator option \<Rightarrow> size_t \<Rightarrow> size_t \<Rightarrow> mem \<Rightarrow> (d4np_status \<times> d4np_ring_buffer option \<times> mem) option" where
  "d4np_ring_buffer_init ring allocator elem_size capacity m =
     (case ring of
        None \<Rightarrow> Some (D4NP_ERR_INVALID_ARGUMENT, None, m)
      | Some rb \<Rightarrow>
          if elem_size = 0 \<or> capacity = 0 then Some (D4NP_ERR_INVALID_ARGUMENT, Some rb, m)
          else do {
            let al = Some (allocator_or_default allocator);
            cap \<leftarrow> rb_next_pow2_at_least capacity;
            q \<leftarrow> size_div SIZE_MAX elem_size;
            if q < cap then Some (D4NP_ERR_OVERFLOW, Some rb, m)
            else do {
              (buffer, m1) \<leftarrow> d4np_alloc al (cap * elem_size) MAX_ALIGN m;
              if buffer = NULL then Some (D4NP_ERR_OUT_OF_MEMORY, Some rb, m1)
              else Some (D4NP_OK, Some \<lparr>rb_allocator = al, rb_buffer = buffer, rb_elem_size = elem_size,
                     rb_capacity = cap, rb_mask = cap - 1, rb_head = 0, rb_tail = 0\<rparr>, m1)
            }
          })"

definition d4np_ring_buffer_destroy ::
  "d4np_ring_buffer option \<Rightarrow> mem \<Rightarrow> (d4np_ring_buffer option \<times> mem) option" where
  "d4np_ring_buffer_destroy ring m =
     (case ring of
        None \<Rightarrow> Some (None, m)
      | Some rb \<Rightarrow>
          if rb_buffer rb = NULL then Some (Some rb, m)
          else do {
            m1 \<leftarrow> d4np_free (rb_allocator rb) (rb_buffer rb) (rb_capacity rb * rb_elem_size rb) m;
            Some (Some (rb\<lparr>rb_buffer := NULL, rb_elem_size := 0, rb_capacity := 0, rb_mask := 0, rb_head := 0,
                           rb_tail := 0\<rparr>), m1)
          })"

text \<open>The address of the slot that index \<open>w\<close> selects: \<open>buffer + (w & mask) * elem_size\<close>.\<close>

definition rb_slot :: "d4np_ring_buffer \<Rightarrow> size_t \<Rightarrow> ptr" where
  "rb_slot rb w = rb_buffer rb + unat ((w AND rb_mask rb) * rb_elem_size rb)"

definition d4np_ring_buffer_push ::
  "d4np_ring_buffer option \<Rightarrow> ptr \<Rightarrow> mem \<Rightarrow> (bool \<times> d4np_ring_buffer option \<times> mem) option" where
  "d4np_ring_buffer_push ring elem m =
     (case ring of
        None \<Rightarrow> Some (False, None, m)
      | Some rb \<Rightarrow>
          if elem = NULL then Some (False, Some rb, m)
          else (let tail = rb_tail rb; head = rb_head rb in
            if tail - head = rb_capacity rb then Some (False, Some rb, m)
            else do {
              m1 \<leftarrow> memcpy m (rb_slot rb tail) elem (unat (rb_elem_size rb));
              Some (True, Some (rb\<lparr>rb_tail := tail + 1\<rparr>), m1)
            }))"

definition d4np_ring_buffer_pop ::
  "d4np_ring_buffer option \<Rightarrow> ptr \<Rightarrow> mem \<Rightarrow> (bool \<times> d4np_ring_buffer option \<times> mem) option" where
  "d4np_ring_buffer_pop ring out m =
     (case ring of
        None \<Rightarrow> Some (False, None, m)
      | Some rb \<Rightarrow>
          (let head = rb_head rb; tail = rb_tail rb in
            if head = tail then Some (False, Some rb, m)
            else do {
              m1 \<leftarrow> (if out \<noteq> NULL then memcpy m out (rb_slot rb head) (unat (rb_elem_size rb)) else Some m);
              Some (True, Some (rb\<lparr>rb_head := head + 1\<rparr>), m1)
            }))"

definition d4np_ring_buffer_count :: "d4np_ring_buffer option \<Rightarrow> size_t" where
  "d4np_ring_buffer_count ring = (case ring of None \<Rightarrow> 0 | Some rb \<Rightarrow> rb_tail rb - rb_head rb)"

definition d4np_ring_buffer_is_empty :: "d4np_ring_buffer option \<Rightarrow> bool" where
  "d4np_ring_buffer_is_empty ring \<longleftrightarrow> d4np_ring_buffer_count ring = 0"

definition d4np_ring_buffer_capacity :: "d4np_ring_buffer option \<Rightarrow> size_t" where
  "d4np_ring_buffer_capacity ring = (case ring of None \<Rightarrow> 0 | Some rb \<Rightarrow> rb_capacity rb)"

section \<open>Invariant and contents\<close>

definition rb_block :: "d4np_ring_buffer \<Rightarrow> ptr \<times> nat" where
  "rb_block rb = (rb_buffer rb, unat (rb_capacity rb) * unat (rb_elem_size rb))"

definition ring_ok :: "d4np_ring_buffer \<Rightarrow> mem \<Rightarrow> bool" where
  "ring_ok rb m \<longleftrightarrow> rb_elem_size rb \<noteq> 0 \<and> rb_block rb \<in> set (live m) \<and>
     (\<exists>k \<in> {..<64}. rb_capacity rb = 2 ^ k) \<and> rb_mask rb = rb_capacity rb - 1"

definition ring_inv :: "d4np_ring_buffer \<Rightarrow> mem \<Rightarrow> bool" where
  "ring_inv rb m \<longleftrightarrow> ring_ok rb m \<and> rb_tail rb - rb_head rb \<le> rb_capacity rb"

definition rb_elems :: "d4np_ring_buffer \<Rightarrow> mem \<Rightarrow> byte list list" where
  "rb_elems rb m =
     map (\<lambda>i. peek m (rb_slot rb (rb_head rb + of_nat i)) (unat (rb_elem_size rb))) [0..<unat (rb_tail rb - rb_head rb)]"

text \<open>Indices are taken modulo the capacity, also across the wrap-around of the 64-bit counters.\<close>

lemma pow2_mod_word: "k < 64 \<Longrightarrow> unat (w + of_nat i :: 64 word) mod 2 ^ k = (unat w + i) mod 2 ^ k"
proof -
  assume k: "k < 64"
  have d: "(2::nat) ^ k dvd 2 ^ 64" using k by (intro le_imp_power_dvd) simp
  have "unat (w + of_nat i) = (unat w + i) mod 2 ^ 64"
    by (simp add: unat_word_ariths unsigned_of_nat take_bit_eq_mod mod_add_right_eq)
  then show ?thesis by (simp only: mod_mod_cancel [OF d])
qed

lemma ring_cap:
  assumes "wf_mem m" "ring_ok rb m"
  obtains k where "k < 63" "rb_capacity rb = 2 ^ k" "unat (rb_capacity rb) = 2 ^ k" "rb_mask rb = 2 ^ k - 1"
proof -
  obtain k where k: "k < 64" "rb_capacity rb = 2 ^ k" "rb_mask rb = 2 ^ k - 1"
    using assms(2) by (auto simp: ring_ok_def)
  have u: "unat (rb_capacity rb) = 2 ^ k" using k by (simp add: unat_pow2)
  have "0 < unat (rb_elem_size rb)" using assms(2) by (simp add: ring_ok_def unat_pos_iff)
  then have "2 ^ k * 1 \<le> 2 ^ k * unat (rb_elem_size rb)" by (intro mult_le_mono2) simp
  moreover have "2 ^ k * unat (rb_elem_size rb) < 2 ^ 63"
    using block_size_bound [OF assms(1)] assms(2) u by (fastforce simp: ring_ok_def rb_block_def)
  ultimately have "(2::nat) ^ k < 2 ^ 63" by linarith
  then have "k < 63" by (rule power_less_imp_less_exp [rotated]) simp
  with that k u show thesis by blast
qed

lemma ring_bound:
  assumes "wf_mem m" "ring_ok rb m"
  shows "unat (rb_capacity rb) * unat (rb_elem_size rb) < 2 ^ 63" "0 < unat (rb_capacity rb)" "unat (rb_capacity rb) < 2 ^ 63"
proof -
  show "unat (rb_capacity rb) * unat (rb_elem_size rb) < 2 ^ 63"
    using block_size_bound [OF assms(1)] assms(2) by (fastforce simp: ring_ok_def rb_block_def)
  obtain k where k: "k < 63" "unat (rb_capacity rb) = 2 ^ k" by (rule ring_cap [OF assms])
  show "0 < unat (rb_capacity rb)" using k by simp
  show "unat (rb_capacity rb) < 2 ^ 63" unfolding k(2) using k(1) by (intro power_strict_increasing) auto
qed

lemma ring_slot_addr:
  assumes "wf_mem m" "ring_ok rb m"
  shows "rb_slot rb w = rb_buffer rb + (unat w mod unat (rb_capacity rb)) * unat (rb_elem_size rb)"
proof -
  obtain k where k: "k < 63" "unat (rb_capacity rb) = 2 ^ k" "rb_mask rb = 2 ^ k - 1" by (rule ring_cap [OF assms])
  have i: "unat (w AND rb_mask rb) = unat w mod unat (rb_capacity rb)"
    unfolding k(3) unat_and_pow2_mask k(2) ..
  have "unat ((w AND rb_mask rb) * rb_elem_size rb) = unat (w AND rb_mask rb) * unat (rb_elem_size rb)"
    by (rule unat_mult_below [where c = "unat (rb_capacity rb)"]) (use ring_bound [OF assms] i in simp_all)
  with i show ?thesis by (simp add: rb_slot_def)
qed

lemma ring_slot_range:
  assumes "wf_mem m" "ring_ok rb m"
  shows "rb_buffer rb \<le> rb_slot rb w"
    "rb_slot rb w + unat (rb_elem_size rb) \<le> rb_buffer rb + unat (rb_capacity rb) * unat (rb_elem_size rb)"
    "valid m (rb_slot rb w) (unat (rb_elem_size rb))"
proof -
  let ?i = "unat w mod unat (rb_capacity rb)"
  have "Suc ?i \<le> unat (rb_capacity rb)" using ring_bound(2) [OF assms] by (simp add: Suc_leI)
  then have "Suc ?i * unat (rb_elem_size rb) \<le> unat (rb_capacity rb) * unat (rb_elem_size rb)" by (rule mult_le_mono1)
  then show r: "rb_buffer rb \<le> rb_slot rb w"
    "rb_slot rb w + unat (rb_elem_size rb) \<le> rb_buffer rb + unat (rb_capacity rb) * unat (rb_elem_size rb)"
    by (simp_all add: ring_slot_addr [OF assms])
  show "valid m (rb_slot rb w) (unat (rb_elem_size rb))"
    using assms(2) r by (auto simp: ring_ok_def rb_block_def intro: validI)
qed

text \<open>Two indices less than a full turn apart select disjoint slots.\<close>

lemma mod_window_inj:
  fixes a i j n :: nat
  assumes "(a + i) mod n = (a + j) mod n" "i < n" "j < n"
  shows "i = j"
proof (rule ccontr)
  assume ne: "i \<noteq> j"
  have *: False if "x < y" "y < n" "(a + x) mod n = (a + y) mod n" for x y
  proof -
    have "n dvd (a + y) - (a + x)" using that mod_eq_dvd_iff_nat [of "a + x" "a + y" n] by simp
    then show False using that by (auto dest: dvd_imp_le)
  qed
  show False using * [of i j] * [of j i] assms ne by (cases "i < j") auto
qed

lemma ring_slots_apart:
  assumes "wf_mem m" "ring_ok rb m" "i < unat (rb_capacity rb)" "j < unat (rb_capacity rb)" "i \<noteq> j"
  shows "rb_slot rb (w + of_nat i) + unat (rb_elem_size rb) \<le> rb_slot rb (w + of_nat j) \<or>
    rb_slot rb (w + of_nat j) + unat (rb_elem_size rb) \<le> rb_slot rb (w + of_nat i)"
proof -
  let ?c = "unat (rb_capacity rb)" and ?e = "unat (rb_elem_size rb)"
  let ?p = "unat (w + of_nat i) mod ?c" and ?q = "unat (w + of_nat j) mod ?c"
  obtain k where k: "k < 63" "?c = 2 ^ k" by (rule ring_cap [OF assms(1,2)])
  have "?p = (unat w + i) mod ?c" "?q = (unat w + j) mod ?c"
    unfolding k(2) using pow2_mod_word [of k w] k(1) by simp_all
  then have "?p \<noteq> ?q" using mod_window_inj [of "unat w" i ?c j] assms(3-5) by metis
  from slots_apart [OF this, of ?e ?e] show ?thesis unfolding ring_slot_addr [OF assms(1,2)] by auto
qed

section \<open>The operations, one at a time\<close>

lemma ring_ok_keeps: "ring_ok rb m \<Longrightarrow> rb_block rb \<in> set (live m') \<Longrightarrow> ring_ok rb m'"
  by (simp add: ring_ok_def)

lemma ring_ok_index [simp]:
  "ring_ok (rb\<lparr>rb_tail := t\<rparr>) m = ring_ok rb m" "ring_ok (rb\<lparr>rb_head := t\<rparr>) m = ring_ok rb m"
  "rb_block (rb\<lparr>rb_tail := t\<rparr>) = rb_block rb" "rb_block (rb\<lparr>rb_head := t\<rparr>) = rb_block rb"
  "rb_slot (rb\<lparr>rb_tail := t\<rparr>) = rb_slot rb" "rb_slot (rb\<lparr>rb_head := t\<rparr>) = rb_slot rb"
  by (simp_all add: ring_ok_def rb_block_def rb_slot_def fun_eq_iff)

lemma length_rb_elems [simp]: "length (rb_elems rb m) = unat (rb_tail rb - rb_head rb)"
  by (simp add: rb_elems_def)

lemma rb_count_le: "wf_mem m \<Longrightarrow> ring_inv rb m \<Longrightarrow> unat (rb_tail rb - rb_head rb) \<le> unat (rb_capacity rb)"
  by (simp add: ring_inv_def word_le_nat_alt)

lemma ring_push_ok:
  assumes "wf_mem m" "ring_inv rb m" "outside m {rb_block rb} p (unat (rb_elem_size rb))"
  shows "d4np_ring_buffer_push (Some rb) p m =
      (if length (rb_elems rb m) = unat (rb_capacity rb) then Some (False, Some rb, m)
       else Some (True, Some (rb\<lparr>rb_tail := rb_tail rb + 1\<rparr>),
         poke m (rb_slot rb (rb_tail rb)) (peek m p (unat (rb_elem_size rb)))))"
proof -
  have ok: "ring_ok rb m" using assms(2) by (simp add: ring_inv_def)
  have nn: "p \<noteq> NULL" using valid_nonnull [OF assms(1) outside_valid [OF assms(3)]] .
  have "memcpy m (rb_slot rb (rb_tail rb)) p (unat (rb_elem_size rb)) =
      Some (poke m (rb_slot rb (rb_tail rb)) (peek m p (unat (rb_elem_size rb))))"
    by (rule memcpy_outside [OF assms(1,3), of "rb_buffer rb" "unat (rb_capacity rb) * unat (rb_elem_size rb)"])
      (use ok ring_slot_range [OF assms(1) ok] in \<open>simp_all add: ring_ok_def rb_block_def\<close>)
  then show ?thesis using nn by (simp add: d4np_ring_buffer_push_def Let_def word_unat_eq_iff)
qed

lemma ring_push_elems:
  assumes "wf_mem m" "ring_inv rb m" "length (rb_elems rb m) \<noteq> unat (rb_capacity rb)" "length xs = unat (rb_elem_size rb)"
  defines "rb' \<equiv> rb\<lparr>rb_tail := rb_tail rb + 1\<rparr>" and "m' \<equiv> poke m (rb_slot rb (rb_tail rb)) xs"
  shows "ring_inv rb' m'" "rb_elems rb' m' = rb_elems rb m @ [xs]" "keeps (set (live m) - {rb_block rb}) m m'"
proof -
  let ?n = "unat (rb_tail rb - rb_head rb)" and ?e = "unat (rb_elem_size rb)"
  have ok: "ring_ok rb m" using assms(2) by (simp add: ring_inv_def)
  have n: "?n < unat (rb_capacity rb)" using assms(3) rb_count_le [OF assms(1,2)] by simp
  have n1: "unat (rb_tail rb + 1 - rb_head rb) = Suc ?n"
  proof -
    have eq: "rb_tail rb + 1 - rb_head rb = (rb_tail rb - rb_head rb) + 1" by simp
    show ?thesis unfolding eq using n ring_bound(3) [OF assms(1) ok] unat_add_exact [of "rb_tail rb - rb_head rb" 1] by simp
  qed
  show "ring_inv rb' m'"
    using ok n n1 by (simp add: ring_inv_def rb'_def m'_def word_le_nat_alt ring_ok_def rb_block_def)
  have tl: "rb_tail rb = rb_head rb + of_nat ?n" by simp
  have other: "peek m' (rb_slot rb (rb_head rb + of_nat i)) ?e = peek m (rb_slot rb (rb_head rb + of_nat i)) ?e" if "i < ?n" for i
  proof -
    have "rb_slot rb (rb_head rb + of_nat i) + ?e \<le> rb_slot rb (rb_head rb + of_nat ?n) \<or>
        rb_slot rb (rb_head rb + of_nat ?n) + ?e \<le> rb_slot rb (rb_head rb + of_nat i)"
      by (rule ring_slots_apart [OF assms(1) ok]) (use that n in simp_all)
    then show ?thesis unfolding m'_def using assms(4) tl by (intro peek_poke_other) simp
  qed
  have last: "peek m' (rb_slot rb (rb_head rb + of_nat ?n)) ?e = xs"
    unfolding m'_def tl [symmetric] by (rule peek_poke_same) (simp add: assms(4))
  show "rb_elems rb' m' = rb_elems rb m @ [xs]"
    using other last n1 by (simp add: rb_elems_def rb'_def)
  show "keeps (set (live m) - {rb_block rb}) m m'"
    unfolding m'_def by (rule keeps_poke_outside [OF assms(1), of "rb_buffer rb" "unat (rb_capacity rb) * ?e"])
      (use ok ring_slot_range [OF assms(1) ok] assms(4) in \<open>simp_all add: ring_ok_def rb_block_def\<close>)
qed

lemma ring_pop_elems:
  assumes "wf_mem m" "ring_inv rb m" "rb_head rb \<noteq> rb_tail rb"
  defines "rb' \<equiv> rb\<lparr>rb_head := rb_head rb + 1\<rparr>"
  shows "ring_inv rb' m" "rb_elems rb m = peek m (rb_slot rb (rb_head rb)) (unat (rb_elem_size rb)) # rb_elems rb' m"
proof -
  let ?n = "unat (rb_tail rb - rb_head rb)" and ?e = "unat (rb_elem_size rb)"
  have pos: "0 < ?n" using assms(3) by (simp add: unat_pos_iff)
  have eq: "rb_tail rb - (rb_head rb + 1) = (rb_tail rb - rb_head rb) - 1" by simp
  have n1: "unat (rb_tail rb - (rb_head rb + 1)) = ?n - 1"
    unfolding eq using pos unat_sub_exact [of 1 "rb_tail rb - rb_head rb"] by (simp add: word_le_nat_alt)
  show "ring_inv rb' m"
    using assms(2) n1 by (auto simp: ring_inv_def rb'_def word_le_nat_alt)
  have "[0..<?n] = 0 # map Suc [0..<?n - 1]" using pos by (simp add: upt_conv_Cons map_Suc_upt)
  then show "rb_elems rb m = peek m (rb_slot rb (rb_head rb)) ?e # rb_elems rb' m"
    using n1 by (simp add: rb_elems_def rb'_def add.assoc)
qed

lemma ring_elems_keep:
  assumes "wf_mem m" "ring_ok rb m" "keeps {rb_block rb} m m'"
  shows "rb_elems rb m' = rb_elems rb m"
proof -
  have "peek m' (rb_slot rb w) (unat (rb_elem_size rb)) = peek m (rb_slot rb w) (unat (rb_elem_size rb))" for w
    by (rule keeps_peek [OF assms(3), of "rb_buffer rb" "unat (rb_capacity rb) * unat (rb_elem_size rb)"])
      (use ring_slot_range [OF assms(1,2)] in \<open>simp_all add: rb_block_def\<close>)
  then show ?thesis by (simp add: rb_elems_def)
qed

text \<open>A pop copies the oldest element to \<open>out\<close>, an object other than the buffer.\<close>

lemma ring_pop_ok:
  assumes "wf_mem m" "ring_inv rb m" "out = NULL \<or> outside m {rb_block rb} out (unat (rb_elem_size rb))"
  shows "d4np_ring_buffer_pop (Some rb) out m =
      (if rb_elems rb m = [] then Some (False, Some rb, m)
       else Some (True, Some (rb\<lparr>rb_head := rb_head rb + 1\<rparr>), if out = NULL then m else poke m out (hd (rb_elems rb m))))"
proof -
  let ?e = "unat (rb_elem_size rb)"
  have ok: "ring_ok rb m" using assms(2) by (simp add: ring_inv_def)
  have mt: "rb_elems rb m = [] \<longleftrightarrow> rb_head rb = rb_tail rb"
    using length_rb_elems [of rb m] by (metis length_0_conv right_minus_eq unat_eq_zero)
  have hd: "hd (rb_elems rb m) = peek m (rb_slot rb (rb_head rb)) ?e" if "rb_head rb \<noteq> rb_tail rb"
    using ring_pop_elems(2) [OF assms(1,2) that] by simp
  have "memcpy m out (rb_slot rb (rb_head rb)) ?e = Some (poke m out (peek m (rb_slot rb (rb_head rb)) ?e))" if "out \<noteq> NULL"
  proof (rule memcpy_Some)
    have o: "outside m {rb_block rb} out ?e" using assms(3) that by simp
    show "valid m out ?e" using o by (rule outside_valid)
    show "valid m (rb_slot rb (rb_head rb)) ?e" by (rule ring_slot_range(3) [OF assms(1) ok])
    show "out + ?e \<le> rb_slot rb (rb_head rb) \<or> rb_slot rb (rb_head rb) + ?e \<le> out"
      using outside_apart [OF assms(1) o, of "rb_buffer rb" "unat (rb_capacity rb) * ?e" "rb_slot rb (rb_head rb)" ?e]
        ok ring_slot_range [OF assms(1) ok] by (auto simp: ring_ok_def rb_block_def)
  qed
  then show ?thesis using hd mt by (auto simp: d4np_ring_buffer_pop_def Let_def)
qed

section \<open>The ring buffer is a queue\<close>

text \<open>The queue state is the structure with the memory; elements go out through the object at
  \<open>out\<close>, and come from any other readable object.\<close>

type_synonym ring_state = "d4np_ring_buffer \<times> mem"

definition ring_state_ok :: "ptr \<Rightarrow> ring_state \<Rightarrow> bool" where
  "ring_state_ok out = (\<lambda>(rb, m). wf_mem m \<and> ring_inv rb m \<and> outside m {rb_block rb} out (unat (rb_elem_size rb)))"

definition ring_src :: "ptr \<Rightarrow> ring_state \<Rightarrow> ptr \<Rightarrow> bool" where
  "ring_src out = (\<lambda>(rb, m) p. outside m {rb_block rb} p (unat (rb_elem_size rb)) \<and>
     (p + unat (rb_elem_size rb) \<le> out \<or> out + unat (rb_elem_size rb) \<le> p))"

definition ring_val :: "ring_state \<Rightarrow> ptr \<Rightarrow> byte list" where
  "ring_val = (\<lambda>(rb, m) p. peek m p (unat (rb_elem_size rb)))"

definition ring_push :: "ring_state \<Rightarrow> ptr \<Rightarrow> (bool \<times> ring_state) option" where
  "ring_push = (\<lambda>(rb, m) p. do { (b, ring, m') \<leftarrow> d4np_ring_buffer_push (Some rb) p m; rb' \<leftarrow> ring; Some (b, rb', m') })"

definition ring_pop :: "ptr \<Rightarrow> ring_state \<Rightarrow> (byte list option \<times> ring_state) option" where
  "ring_pop out = (\<lambda>(rb, m). do { (b, ring, m') \<leftarrow> d4np_ring_buffer_pop (Some rb) out m; rb' \<leftarrow> ring;
     Some (if b then Some (peek m' out (unat (rb_elem_size rb))) else None, rb', m') })"

lemma ring_push_law:
  assumes "ring_state_ok out s" "ring_src out s p"
  shows "\<exists>b s'. ring_push s p = Some (b, s') \<and> ring_state_ok out s' \<and>
    (\<lambda>(rb, m). rb_elems rb m) s' = (\<lambda>(rb, m). rb_elems rb m) s @ (if b then [ring_val s p] else []) \<and>
    (\<forall>q. ring_src out s q \<longrightarrow> ring_src out s' q \<and> ring_val s' q = ring_val s q)"
proof -
  obtain rb m where s: "s = (rb, m)" by (cases s)
  let ?e = "unat (rb_elem_size rb)"
  from assms s have a: "wf_mem m" "ring_inv rb m" "outside m {rb_block rb} out ?e" "outside m {rb_block rb} p ?e"
    by (auto simp: ring_state_ok_def ring_src_def)
  show ?thesis
  proof (cases "length (rb_elems rb m) = unat (rb_capacity rb)")
    case True
    with ring_push_ok [OF a(1,2,4)] assms s show ?thesis by (auto simp: ring_push_def)
  next
    case False
    let ?rb = "rb\<lparr>rb_tail := rb_tail rb + 1\<rparr>" and ?m = "poke m (rb_slot rb (rb_tail rb)) (peek m p ?e)"
    have e: "rb_elem_size ?rb = rb_elem_size rb" "length (peek m p ?e) = ?e" by simp_all
    note el = ring_push_elems [OF a(1,2) False e(2)]
    have "peek ?m q ?e = peek m q ?e" if "outside m {rb_block rb} q ?e" for q
      by (rule outside_keeps(1) [OF that el(3)])
    then show ?thesis
      using ring_push_ok [OF a(1,2,4)] False a el s
      by (auto simp: ring_push_def ring_state_ok_def ring_src_def ring_val_def)
  qed
qed

lemma ring_pop_law:
  assumes "ring_state_ok out s"
  shows "\<exists>r s'. ring_pop out s = Some (r, s') \<and> ring_state_ok out s' \<and>
    (case r of None \<Rightarrow> (\<lambda>(rb, m). rb_elems rb m) s = [] \<and> (\<lambda>(rb, m). rb_elems rb m) s' = []
     | Some v \<Rightarrow> (\<lambda>(rb, m). rb_elems rb m) s = v # (\<lambda>(rb, m). rb_elems rb m) s') \<and>
    (\<forall>q. ring_src out s q \<longrightarrow> ring_src out s' q \<and> ring_val s' q = ring_val s q)"
proof -
  obtain rb m where s: "s = (rb, m)" by (cases s)
  let ?e = "unat (rb_elem_size rb)"
  from assms s have a: "wf_mem m" "ring_inv rb m" "outside m {rb_block rb} out ?e" by (auto simp: ring_state_ok_def)
  have nn: "out \<noteq> NULL" using valid_nonnull [OF a(1) outside_valid [OF a(3)]] .
  have ok: "ring_ok rb m" using a(2) by (simp add: ring_inv_def)
  show ?thesis
  proof (cases "rb_elems rb m = []")
    case True
    with ring_pop_ok [OF a(1,2)] a(3) assms s show ?thesis by (auto simp: ring_pop_def)
  next
    case False
    let ?rb = "rb\<lparr>rb_head := rb_head rb + 1\<rparr>"
    have ne: "rb_head rb \<noteq> rb_tail rb" using False by (auto simp: rb_elems_def)
    note el = ring_pop_elems [OF a(1,2) ne]
    let ?x = "peek m (rb_slot rb (rb_head rb)) ?e"
    let ?m = "poke m out ?x"
    have pop: "d4np_ring_buffer_pop (Some rb) out m = Some (True, Some ?rb, ?m)"
      using ring_pop_ok [OF a(1,2)] a(3) False nn el(2) by simp
    have k: "keeps {rb_block rb} m ?m"
      by (rule keeps_poke_out [OF a(1)]) (use a(3) ok in \<open>simp_all add: ring_ok_def\<close>)
    have "rb_elems ?rb ?m = rb_elems ?rb m"
      by (rule ring_elems_keep [OF a(1)]) (use ok k in simp_all)
    moreover have "ring_inv ?rb ?m" using el(1) by (simp add: ring_inv_def ring_ok_def)
    moreover have "peek ?m out ?e = ?x" by (rule peek_poke_same) simp
    moreover have "peek ?m q ?e = peek m q ?e" if "q + ?e \<le> out \<or> out + ?e \<le> q" for q
      by (rule peek_poke_other) (use that in auto)
    ultimately show ?thesis
      using pop a el(2) s by (auto simp: ring_pop_def ring_state_ok_def ring_src_def ring_val_def)
  qed
qed

interpretation ring: fifo "ring_state_ok out" "\<lambda>(rb, m). rb_elems rb m" "ring_src out" ring_val ring_push "ring_pop out" for out
  by unfold_locales (rule ring_push_law ring_pop_law; assumption)+

section \<open>Creation and destruction\<close>

context allocator_contract
begin

lemma ring_init_ok:
  assumes "wf_mem m" "es \<noteq> 0" "cap \<noteq> 0"
  shows "\<exists>rc ring m'. d4np_ring_buffer_init (Some rb0) (Some A) es cap m = Some (rc, ring, m') \<and> wf_mem m' \<and>
    keeps (set (live m)) m m' \<and>
    (rc = D4NP_OK \<and> (\<exists>rb k. ring = Some rb \<and> ring_inv rb m' \<and> rb_elems rb m' = [] \<and> rb_elem_size rb = es \<and>
       rb_allocator rb = Some A \<and> cap \<le> rb_capacity rb \<and> rb_capacity rb = 2 ^ k \<and> (k = 0 \<or> 2 ^ (k - 1) < cap) \<and>
       rb_block rb \<notin> set (live m)) \<or>
     rc \<in> {D4NP_ERR_OVERFLOW, D4NP_ERR_OUT_OF_MEMORY} \<and> ring = Some rb0)"
proof -
  obtain j where j: "j < 64" "double_until 1 cap = Some (2 ^ j)" "cap \<le> 2 ^ j \<or> j = 63" "j = 0 \<or> 2 ^ (j - 1) < cap"
    using double_until_pow2 [of 0 cap] by auto
  show ?thesis
  proof (cases "SIZE_MAX div es < 2 ^ j")
    case True
    then show ?thesis using assms j by (simp add: d4np_ring_buffer_init_def rb_next_pow2_at_least_def)
  next
    case False
    have ub: "unat (2 ^ j * es) = 2 ^ j * unat es"
      using size_mult_guard [OF assms(2), of "2 ^ j"] False unat_mult_exact [of "2 ^ j" es] j(1) by (simp add: unat_pow2 not_less)
    have red: "d4np_ring_buffer_init (Some rb0) (Some A) es cap m =
      do { (buffer, m1) \<leftarrow> d4np_alloc (Some A) (2 ^ j * es) MAX_ALIGN m;
           if buffer = NULL then Some (D4NP_ERR_OUT_OF_MEMORY, Some rb0, m1)
           else Some (D4NP_OK, Some \<lparr>rb_allocator = Some A, rb_buffer = buffer, rb_elem_size = es,
                     rb_capacity = 2 ^ j, rb_mask = 2 ^ j - 1, rb_head = 0, rb_tail = 0\<rparr>, m1) }"
      using False assms j by (simp add: d4np_ring_buffer_init_def rb_next_pow2_at_least_def Let_def)
    show ?thesis
    proof (cases rule: alloc_cases [OF assms(1) pow2_MAX_ALIGN, of "2 ^ j * es"])
      case (1 m')
      then show ?thesis by (simp add: red)
    next
      case (2 p m')
      let ?rb = "\<lparr>rb_allocator = Some A, rb_buffer = p, rb_elem_size = es, rb_capacity = 2 ^ j, rb_mask = 2 ^ j - 1,
        rb_head = 0, rb_tail = 0\<rparr>"
      have ok: "ring_ok ?rb m'" using 2 ub assms(2) j(1) by (auto simp: ring_ok_def rb_block_def unat_pow2)
      obtain k where "k < 63" "unat (rb_capacity ?rb) = 2 ^ k" by (rule ring_cap [OF 2(3) ok])
      then have "j \<noteq> 63" using unat_pow2 [OF j(1)] by auto
      then have "ring_inv ?rb m' \<and> rb_elems ?rb m' = [] \<and> cap \<le> 2 ^ j \<and> rb_block ?rb \<notin> set (live m)"
        using ok j(1,3) 2(6) ub by (auto simp: ring_inv_def rb_elems_def rb_block_def unat_pow2)
      then show ?thesis using 2(1-4) j(4) by (simp add: red) (metis)
    qed
  qed
qed

lemma ring_destroy_ok:
  assumes "wf_mem m" "ring_inv rb m" "rb_allocator rb = Some A"
  shows "\<exists>rb' m'. d4np_ring_buffer_destroy (Some rb) m = Some (Some rb', m') \<and> wf_mem m' \<and>
    keeps (set (live m) - {rb_block rb}) m m' \<and> rb_block rb \<notin> set (live m') \<and> rb_buffer rb' = NULL \<and> rb_capacity rb' = 0"
proof -
  have ok: "ring_ok rb m" using assms(2) by (simp add: ring_inv_def)
  have u: "unat (rb_capacity rb * rb_elem_size rb) = unat (rb_capacity rb) * unat (rb_elem_size rb)"
    by (rule unat_mult_below [OF order_refl ring_bound(1) [OF assms(1) ok]])
  then have b: "rb_block rb = (rb_buffer rb, unat (rb_capacity rb * rb_elem_size rb))" by (simp add: rb_block_def)
  then have l: "(rb_buffer rb, unat (rb_capacity rb * rb_elem_size rb)) \<in> set (live m)" using ok by (simp add: ring_ok_def)
  then have "rb_buffer rb \<noteq> NULL" using wf_block [OF assms(1)] by blast
  with free_cases [OF assms(1) l] assms(3) show ?thesis
    unfolding b by (fastforce simp: d4np_ring_buffer_destroy_def)
qed

end

section \<open>Properties\<close>

text \<open>C24: any sequence of pushes and pops on a well-formed ring buffer, whatever the values of its
  64-bit indices, delivers the elements it held followed by those it accepted, in order and byte for
  byte, without undefined behaviour: the delivered elements followed by the final contents are the
  initial contents followed by the accepted elements.\<close>

theorem ring_buffer_fifo:
  assumes "ring_state_ok out (rb, m)" "\<forall>p. Push p \<in> set ops \<longrightarrow> ring_src out (rb, m) p"
  shows "\<exists>ins outs rb' m'. ring.run out ops (rb, m) = Some (ins, outs, rb', m') \<and> ring_state_ok out (rb', m') \<and>
    outs @ rb_elems rb' m' = rb_elems rb m @ ins"
  using ring.run_fifo [OF assms] by auto

text \<open>A push is refused exactly when the buffer holds \<open>capacity\<close> elements and a pop exactly when
  it holds none; \<open>count\<close> is the number of elements held and never exceeds the capacity.\<close>

theorem ring_buffer_bounded:
  assumes "wf_mem m" "ring_inv rb m" "outside m {rb_block rb} p (unat (rb_elem_size rb))"
  shows "(\<exists>b ring m'. d4np_ring_buffer_push (Some rb) p m = Some (b, ring, m') \<and>
      (b \<longleftrightarrow> length (rb_elems rb m) < unat (d4np_ring_buffer_capacity (Some rb)))) \<and>
    (\<exists>b ring m'. d4np_ring_buffer_pop (Some rb) p m = Some (b, ring, m') \<and> (b \<longleftrightarrow> rb_elems rb m \<noteq> [])) \<and>
    unat (d4np_ring_buffer_count (Some rb)) = length (rb_elems rb m) \<and>
    (d4np_ring_buffer_is_empty (Some rb) \<longleftrightarrow> rb_elems rb m = []) \<and>
    length (rb_elems rb m) \<le> unat (d4np_ring_buffer_capacity (Some rb))"
proof -
  have le: "unat (rb_tail rb - rb_head rb) \<le> unat (rb_capacity rb)" by (rule rb_count_le [OF assms(1,2)])
  have e: "rb_elems rb m = [] \<longleftrightarrow> rb_tail rb - rb_head rb = 0"
    by (metis length_0_conv length_rb_elems unat_eq_zero)
  from le ring_push_ok [OF assms] ring_pop_ok [OF assms(1,2), of p] assms(3) show ?thesis
    by (auto simp: d4np_ring_buffer_count_def d4np_ring_buffer_is_empty_def d4np_ring_buffer_capacity_def e)
qed

text \<open>Initialising a ring buffer, with any allocator that keeps the contract, either yields an
  empty well-formed buffer whose capacity is the least power of two at or above the requested number
  of slots, in a fresh block, or fails with OVERFLOW or OUT_OF_MEMORY and leaves the structure alone;
  destroying a buffer gives back its block only.\<close>

theorem ring_buffer_lifecycle:
  assumes "allocator_contract A" "wf_mem m" "es \<noteq> 0" "cap \<noteq> 0"
  shows "(\<exists>rc ring m'. d4np_ring_buffer_init (Some rb0) (Some A) es cap m = Some (rc, ring, m') \<and> wf_mem m' \<and>
      keeps (set (live m)) m m' \<and>
      (rc = D4NP_OK \<and> (\<exists>rb k. ring = Some rb \<and> ring_inv rb m' \<and> rb_elems rb m' = [] \<and> rb_elem_size rb = es \<and>
         rb_allocator rb = Some A \<and> cap \<le> rb_capacity rb \<and> rb_capacity rb = 2 ^ k \<and> (k = 0 \<or> 2 ^ (k - 1) < cap) \<and>
         rb_block rb \<notin> set (live m)) \<or>
       rc \<in> {D4NP_ERR_OVERFLOW, D4NP_ERR_OUT_OF_MEMORY} \<and> ring = Some rb0)) \<and>
    (ring_inv rb m \<and> rb_allocator rb = Some A \<longrightarrow>
      (\<exists>rb' m'. d4np_ring_buffer_destroy (Some rb) m = Some (Some rb', m') \<and> wf_mem m' \<and>
         keeps (set (live m) - {rb_block rb}) m m' \<and> rb_block rb \<notin> set (live m')))"
  using allocator_contract.ring_init_ok [OF assms, of rb0] allocator_contract.ring_destroy_ok [OF assms(1,2), of rb] by blast

text \<open>A buffer of four slots whose tail index has wrapped around \<open>2 ^ 64\<close>.\<close>

definition rb_ex :: d4np_ring_buffer where
  "rb_ex = \<lparr>rb_allocator = Some d4np_allocator_default, rb_buffer = 16, rb_elem_size = 2, rb_capacity = 4, rb_mask = 3,
     rb_head = - 2, rb_tail = 1\<rparr>"

definition rb_ex_mem :: mem where
  "rb_ex_mem = \<lparr>bytes = of_nat, live = [(16, 8), (32, 2), (48, 2)], place = (\<lambda>_. 0), tick = 0\<rparr>"

lemma rb_ex_ok: "wf_mem rb_ex_mem" "ring_inv rb_ex rb_ex_mem" "outside rb_ex_mem {rb_block rb_ex} 48 2"
    "outside rb_ex_mem {rb_block rb_ex} 32 2" "rb_elem_size rb_ex = 2"
  by (auto simp: rb_ex_mem_def rb_ex_def wf_mem_def ADDR_LIMIT_def ring_inv_def ring_ok_def rb_block_def outside_def
      intro!: bexI [of _ 2])

theorem ring_buffer_fifo_witness:
  "\<exists>ins outs rb' m'. ring.run 48 [Push 32, Pop, Push 32, Pop, Pop] (rb_ex, rb_ex_mem) = Some (ins, outs, rb', m') \<and>
     outs @ rb_elems rb' m' = rb_elems rb_ex rb_ex_mem @ ins"
  using ring_buffer_fifo [of 48 rb_ex rb_ex_mem "[Push 32, Pop, Push 32, Pop, Pop]"] rb_ex_ok
  by (auto simp: ring_state_ok_def ring_src_def)

theorem ring_buffer_bounded_witness:
  "unat (d4np_ring_buffer_count (Some rb_ex)) = length (rb_elems rb_ex rb_ex_mem) \<and>
   (\<exists>ring m'. d4np_ring_buffer_push (Some rb_ex) 32 rb_ex_mem = Some (True, ring, m'))"
  using ring_buffer_bounded [OF rb_ex_ok(1,2), of 32] rb_ex_ok(4,5) by (auto simp: rb_ex_def d4np_ring_buffer_capacity_def)

theorem ring_buffer_lifecycle_witness:
  "\<exists>rb' m'. d4np_ring_buffer_destroy (Some rb_ex) rb_ex_mem = Some (Some rb', m') \<and> rb_block rb_ex \<notin> set (live m')"
  using ring_buffer_lifecycle [OF default_allocator.allocator_contract_axioms rb_ex_ok(1), of 2 3 rb_ex rb_ex] rb_ex_ok(2)
  by (auto simp: rb_ex_def)

end
