(* ===== verification/Ring_Buffer_SPSC.thy ===== *)
theory Ring_Buffer_SPSC
  imports Ring_Buffer
begin

text \<open>
  The ring buffer under concurrency: one producer thread running \<open>push\<close> and one consumer thread
  running \<open>pop\<close>, interleaved at the granularity of the atomic accesses and copies of
  \<open>ds/ring_buffer.c\<close>. Each thread reads its own index exactly (it is the only writer). A load of the
  other thread's index may be stale: it returns any value the index has had since the value that
  thread last saw (read-read coherence), which covers every outcome the C11 acquire loads allow.
  The histories \<open>sp_pushed\<close> and \<open>sp_popped\<close> are ghost state.
\<close>

section \<open>States and steps\<close>

text \<open>Where each thread is: the values of its local variables after the last access it made.\<close>

datatype producer = PIdle | PTail "byte list" size_t | PHead "byte list" size_t size_t | PWritten "byte list" size_t
datatype consumer = CIdle | CHead size_t | CTail size_t size_t | CRead size_t "byte list"

record spsc =
  sp_rb :: d4np_ring_buffer
  sp_mem :: mem
  sp_prod :: producer
  sp_cons :: consumer
  sp_pushed :: "byte list list"
  sp_popped :: "byte list list"
  sp_seen_head :: nat
  sp_seen_tail :: nat

inductive spsc_step :: "spsc \<Rightarrow> spsc \<Rightarrow> bool" where
  push_load_tail:
    "sp_prod s = PIdle \<Longrightarrow> length e = unat (rb_elem_size (sp_rb s)) \<Longrightarrow>
     spsc_step s (s\<lparr>sp_prod := PTail e (rb_tail (sp_rb s))\<rparr>)"
| push_load_head:
    "sp_prod s = PTail e t \<Longrightarrow> sp_seen_head s \<le> k \<Longrightarrow> k \<le> length (sp_popped s) \<Longrightarrow>
     spsc_step s (s\<lparr>sp_prod := PHead e t (of_nat k), sp_seen_head := k\<rparr>)"
| push_full:
    "sp_prod s = PHead e t h \<Longrightarrow> t - h = rb_capacity (sp_rb s) \<Longrightarrow> spsc_step s (s\<lparr>sp_prod := PIdle\<rparr>)"
| push_copy:
    "sp_prod s = PHead e t h \<Longrightarrow> t - h \<noteq> rb_capacity (sp_rb s) \<Longrightarrow>
     mem_write (sp_mem s) (rb_slot (sp_rb s) t) e = Some m' \<Longrightarrow>
     spsc_step s (s\<lparr>sp_mem := m', sp_prod := PWritten e t\<rparr>)"
| push_publish:
    "sp_prod s = PWritten e t \<Longrightarrow>
     spsc_step s (s\<lparr>sp_rb := (sp_rb s)\<lparr>rb_tail := t + 1\<rparr>, sp_prod := PIdle, sp_pushed := sp_pushed s @ [e]\<rparr>)"
| pop_load_head:
    "sp_cons s = CIdle \<Longrightarrow> spsc_step s (s\<lparr>sp_cons := CHead (rb_head (sp_rb s))\<rparr>)"
| pop_load_tail:
    "sp_cons s = CHead h \<Longrightarrow> sp_seen_tail s \<le> k \<Longrightarrow> k \<le> length (sp_pushed s) \<Longrightarrow>
     spsc_step s (s\<lparr>sp_cons := CTail h (of_nat k), sp_seen_tail := k\<rparr>)"
| pop_empty:
    "sp_cons s = CTail h t \<Longrightarrow> h = t \<Longrightarrow> spsc_step s (s\<lparr>sp_cons := CIdle\<rparr>)"
| pop_copy:
    "sp_cons s = CTail h t \<Longrightarrow> h \<noteq> t \<Longrightarrow>
     mem_read (sp_mem s) (rb_slot (sp_rb s) h) (unat (rb_elem_size (sp_rb s))) = Some xs \<Longrightarrow>
     spsc_step s (s\<lparr>sp_cons := CRead h xs\<rparr>)"
| pop_publish:
    "sp_cons s = CRead h xs \<Longrightarrow>
     spsc_step s (s\<lparr>sp_rb := (sp_rb s)\<lparr>rb_head := h + 1\<rparr>, sp_cons := CIdle, sp_popped := sp_popped s @ [xs]\<rparr>)"

definition spsc_start :: "d4np_ring_buffer \<Rightarrow> mem \<Rightarrow> spsc" where
  "spsc_start rb m = \<lparr>sp_rb = rb, sp_mem = m, sp_prod = PIdle, sp_cons = CIdle, sp_pushed = [], sp_popped = [],
     sp_seen_head = 0, sp_seen_tail = 0\<rparr>"

abbreviation spsc_reachable :: "d4np_ring_buffer \<Rightarrow> mem \<Rightarrow> spsc \<Rightarrow> bool" where
  "spsc_reachable rb m s \<equiv> spsc_step\<^sup>*\<^sup>* (spsc_start rb m) s"

section \<open>The invariant\<close>

definition slot_bytes :: "spsc \<Rightarrow> nat \<Rightarrow> byte list" where
  "slot_bytes s i = peek (sp_mem s) (rb_slot (sp_rb s) (of_nat i)) (unat (rb_elem_size (sp_rb s)))"

fun prod_ok :: "spsc \<Rightarrow> producer \<Rightarrow> bool" where
  "prod_ok s PIdle = True"
| "prod_ok s (PTail e t) = (t = of_nat (length (sp_pushed s)) \<and> length e = unat (rb_elem_size (sp_rb s)))"
| "prod_ok s (PHead e t h) = (t = of_nat (length (sp_pushed s)) \<and> h = of_nat (sp_seen_head s) \<and>
     length e = unat (rb_elem_size (sp_rb s)))"
| "prod_ok s (PWritten e t) = (t = of_nat (length (sp_pushed s)) \<and>
     length (sp_pushed s) < sp_seen_head s + unat (rb_capacity (sp_rb s)) \<and> slot_bytes s (length (sp_pushed s)) = e)"

fun cons_ok :: "spsc \<Rightarrow> consumer \<Rightarrow> bool" where
  "cons_ok s CIdle = True"
| "cons_ok s (CHead h) = (h = of_nat (length (sp_popped s)))"
| "cons_ok s (CTail h t) = (h = of_nat (length (sp_popped s)) \<and> t = of_nat (sp_seen_tail s))"
| "cons_ok s (CRead h xs) = (h = of_nat (length (sp_popped s)) \<and> length (sp_popped s) < sp_seen_tail s \<and>
     xs = sp_pushed s ! length (sp_popped s))"

definition counts_ok :: "spsc \<Rightarrow> bool" where
  "counts_ok s \<longleftrightarrow> sp_seen_head s \<le> length (sp_popped s) \<and> length (sp_popped s) \<le> sp_seen_tail s \<and>
     sp_seen_tail s \<le> length (sp_pushed s) \<and> length (sp_pushed s) \<le> sp_seen_head s + unat (rb_capacity (sp_rb s))"

definition spsc_inv :: "spsc \<Rightarrow> bool" where
  "spsc_inv s \<longleftrightarrow> wf_mem (sp_mem s) \<and> ring_ok (sp_rb s) (sp_mem s) \<and> counts_ok s \<and>
     rb_head (sp_rb s) = of_nat (length (sp_popped s)) \<and> rb_tail (sp_rb s) = of_nat (length (sp_pushed s)) \<and>
     sp_popped s = take (length (sp_popped s)) (sp_pushed s) \<and>
     (\<forall>i. length (sp_popped s) \<le> i \<longrightarrow> i < length (sp_pushed s) \<longrightarrow> slot_bytes s i = sp_pushed s ! i) \<and>
     prod_ok s (sp_prod s) \<and> cons_ok s (sp_cons s)"

lemma spsc_start_inv:
  assumes "wf_mem m" "ring_ok rb m" "rb_head rb = 0" "rb_tail rb = 0"
  shows "spsc_inv (spsc_start rb m)"
  using assms by (simp add: spsc_inv_def counts_ok_def spsc_start_def)

text \<open>Comparing the index words is comparing the counts, because they are less than a turn apart.\<close>

lemma of_nat_diff_word: "a \<le> b \<Longrightarrow> (of_nat b - of_nat a :: 64 word) = of_nat (b - a)"
  by (simp add: of_nat_diff)

lemma of_nat_word_eq: "n < 2 ^ 64 \<Longrightarrow> of_nat n = (w :: 64 word) \<longleftrightarrow> n = unat w"
  by (auto simp: unsigned_of_nat take_bit_nat_eq_self)

lemma full_iff:
  assumes "wf_mem m" "ring_ok rb m" "a \<le> b" "b \<le> a + unat (rb_capacity rb)"
  shows "of_nat b - of_nat a = rb_capacity rb \<longleftrightarrow> b = a + unat (rb_capacity rb)"
proof -
  have "b - a < 2 ^ 64" using assms(4) ring_bound(3) [OF assms(1,2)] by simp
  then have "of_nat (b - a) = rb_capacity rb \<longleftrightarrow> b - a = unat (rb_capacity rb)" by (rule of_nat_word_eq)
  also have "\<dots> \<longleftrightarrow> b = a + unat (rb_capacity rb)" using assms(3) by (metis le_add_diff_inverse add_diff_cancel_left')
  finally show ?thesis unfolding of_nat_diff_word [OF assms(3)] .
qed

lemma empty_iff:
  assumes "wf_mem m" "ring_ok rb m" "a \<le> b" "b \<le> a + unat (rb_capacity rb)"
  shows "(of_nat a :: 64 word) = of_nat b \<longleftrightarrow> a = b"
proof -
  have "b - a < 2 ^ 64" using assms(4) ring_bound(3) [OF assms(1,2)] by simp
  then have "(of_nat (b - a) :: 64 word) = 0 \<longleftrightarrow> b - a = 0" using of_nat_word_eq [of "b - a" 0] by simp
  then show ?thesis
    unfolding of_nat_diff_word [OF assms(3), symmetric] using assms(3) by auto
qed

lemma slots_of_window:
  assumes "wf_mem m" "ring_ok rb m" "a \<le> i" "i < a + unat (rb_capacity rb)" "a \<le> j" "j < a + unat (rb_capacity rb)" "i \<noteq> j"
  shows "rb_slot rb (of_nat i) + unat (rb_elem_size rb) \<le> rb_slot rb (of_nat j) \<or>
    rb_slot rb (of_nat j) + unat (rb_elem_size rb) \<le> rb_slot rb (of_nat i)"
proof -
  have "(of_nat i :: size_t) = of_nat a + of_nat (i - a)" "(of_nat j :: size_t) = of_nat a + of_nat (j - a)"
    using assms(3,5) by (simp_all flip: of_nat_add)
  moreover have "i - a < unat (rb_capacity rb)" "j - a < unat (rb_capacity rb)" "i - a \<noteq> j - a" using assms(3-7) by auto
  ultimately show ?thesis using ring_slots_apart [OF assms(1,2), of "i - a" "j - a" "of_nat a"] by simp
qed

section \<open>Every step keeps the invariant\<close>

lemma slot_bytes_irrelevant [simp]:
  "slot_bytes (s\<lparr>sp_prod := p\<rparr>) = slot_bytes s" "slot_bytes (s\<lparr>sp_cons := c\<rparr>) = slot_bytes s"
  "slot_bytes (s\<lparr>sp_seen_head := k\<rparr>) = slot_bytes s" "slot_bytes (s\<lparr>sp_seen_tail := k\<rparr>) = slot_bytes s"
  by (simp_all add: slot_bytes_def fun_eq_iff)

lemma thread_irrelevant [simp]:
  "prod_ok (s\<lparr>sp_prod := p\<rparr>) x = prod_ok s x" "prod_ok (s\<lparr>sp_cons := c\<rparr>) x = prod_ok s x"
  "cons_ok (s\<lparr>sp_prod := p\<rparr>) y = cons_ok s y" "cons_ok (s\<lparr>sp_cons := c\<rparr>) y = cons_ok s y"
  by (cases x; cases y; simp)+

lemma counts_irrelevant [simp]:
  "counts_ok (s\<lparr>sp_prod := p\<rparr>) = counts_ok s" "counts_ok (s\<lparr>sp_cons := c\<rparr>) = counts_ok s"
  by (simp_all add: counts_ok_def)

lemma inv_push_copy:
  assumes "spsc_inv s" "sp_prod s = PHead e t h" "t - h \<noteq> rb_capacity (sp_rb s)"
    "mem_write (sp_mem s) (rb_slot (sp_rb s) t) e = Some m'"
  shows "spsc_inv (s\<lparr>sp_mem := m', sp_prod := PWritten e t\<rparr>)"
proof -
  let ?rb = "sp_rb s" and ?m = "sp_mem s" and ?T = "length (sp_pushed s)" and ?H = "length (sp_popped s)"
  let ?s = "s\<lparr>sp_mem := m', sp_prod := PWritten e t\<rparr>"
  have i: "wf_mem ?m" "ring_ok ?rb ?m" "counts_ok s" "t = of_nat ?T" "h = of_nat (sp_seen_head s)" "length e = unat (rb_elem_size ?rb)"
    "\<forall>i. ?H \<le> i \<longrightarrow> i < ?T \<longrightarrow> slot_bytes s i = sp_pushed s ! i" "cons_ok s (sp_cons s)"
    using assms(1,2) by (auto simp: spsc_inv_def)
  have m': "m' = poke ?m (rb_slot ?rb t) e" using assms(4) by (simp add: mem_write_def split: if_splits)
  have c: "sp_seen_head s \<le> ?T" "?T \<le> sp_seen_head s + unat (rb_capacity ?rb)" "sp_seen_head s \<le> ?H"
    using i(3) by (auto simp: counts_ok_def)
  have lt: "?T < sp_seen_head s + unat (rb_capacity ?rb)"
    using full_iff [OF i(1,2) c(1,2)] assms(3) i(4,5) c(2) by auto
  have new: "slot_bytes ?s ?T = e" using i(4,6) by (simp add: slot_bytes_def m' peek_poke_same)
  have old: "slot_bytes ?s j = slot_bytes s j" if "?H \<le> j" "j < ?T" for j
    using slots_of_window [OF i(1,2), of "sp_seen_head s" j ?T] that c lt i(4,6)
    by (auto simp: slot_bytes_def m' intro!: peek_poke_other)
  have "cons_ok ?s (sp_cons s)" using i(8) by (cases "sp_cons s") auto
  moreover have "ring_ok ?rb m'" using i(2) by (simp add: m' ring_ok_def)
  ultimately show ?thesis
    using assms(1) new old lt i(4,7) by (simp add: spsc_inv_def counts_ok_def m')
qed

lemma inv_push_publish:
  assumes "spsc_inv s" "sp_prod s = PWritten e t"
  shows "spsc_inv (s\<lparr>sp_rb := (sp_rb s)\<lparr>rb_tail := t + 1\<rparr>, sp_prod := PIdle, sp_pushed := sp_pushed s @ [e]\<rparr>)"
proof -
  let ?s = "s\<lparr>sp_rb := (sp_rb s)\<lparr>rb_tail := t + 1\<rparr>, sp_prod := PIdle, sp_pushed := sp_pushed s @ [e]\<rparr>"
  let ?T = "length (sp_pushed s)" and ?H = "length (sp_popped s)"
  have i: "counts_ok s" "t = of_nat ?T" "?T < sp_seen_head s + unat (rb_capacity (sp_rb s))" "slot_bytes s ?T = e"
    "\<forall>i. ?H \<le> i \<longrightarrow> i < ?T \<longrightarrow> slot_bytes s i = sp_pushed s ! i" "cons_ok s (sp_cons s)"
    using assms by (auto simp: spsc_inv_def)
  have sb: "slot_bytes ?s = slot_bytes s" by (simp add: slot_bytes_def fun_eq_iff)
  have "cons_ok ?s (sp_cons s)" using i(1,6) by (cases "sp_cons s") (auto simp: nth_append counts_ok_def)
  moreover have "\<forall>j. ?H \<le> j \<longrightarrow> j < Suc ?T \<longrightarrow> slot_bytes s j = (sp_pushed s @ [e]) ! j"
    using i(4,5) by (auto simp: nth_append less_Suc_eq)
  ultimately show ?thesis
    using assms(1) i(1-3) sb by (auto simp: spsc_inv_def counts_ok_def add.commute)
qed

lemma inv_pop_copy:
  assumes "spsc_inv s" "sp_cons s = CTail h t" "h \<noteq> t"
    "mem_read (sp_mem s) (rb_slot (sp_rb s) h) (unat (rb_elem_size (sp_rb s))) = Some xs"
  shows "spsc_inv (s\<lparr>sp_cons := CRead h xs\<rparr>)"
proof -
  let ?s = "s\<lparr>sp_cons := CRead h xs\<rparr>" and ?H = "length (sp_popped s)" and ?T = "length (sp_pushed s)"
  have i: "counts_ok s" "h = of_nat ?H" "t = of_nat (sp_seen_tail s)"
      "\<forall>i. ?H \<le> i \<longrightarrow> i < ?T \<longrightarrow> slot_bytes s i = sp_pushed s ! i" "prod_ok s (sp_prod s)"
    using assms(1,2) by (auto simp: spsc_inv_def)
  have lt: "?H < sp_seen_tail s" using assms(3) i(1-3) by (metis counts_ok_def le_neq_implies_less)
  then have "slot_bytes s ?H = sp_pushed s ! ?H" using i(1,4) by (auto simp: counts_ok_def)
  then have "xs = sp_pushed s ! ?H"
    using assms(4) i(2) by (simp add: slot_bytes_def mem_read_def split: if_splits)
  moreover have "prod_ok ?s (sp_prod s)" using i(5) by (cases "sp_prod s") (auto simp: slot_bytes_def)
  moreover have "slot_bytes ?s = slot_bytes s" by (simp add: slot_bytes_def fun_eq_iff)
  ultimately show ?thesis using assms(1) lt i(2) by (simp add: spsc_inv_def counts_ok_def)
qed

lemma inv_pop_publish:
  assumes "spsc_inv s" "sp_cons s = CRead h xs"
  shows "spsc_inv (s\<lparr>sp_rb := (sp_rb s)\<lparr>rb_head := h + 1\<rparr>, sp_cons := CIdle, sp_popped := sp_popped s @ [xs]\<rparr>)"
proof -
  let ?s = "s\<lparr>sp_rb := (sp_rb s)\<lparr>rb_head := h + 1\<rparr>, sp_cons := CIdle, sp_popped := sp_popped s @ [xs]\<rparr>"
  let ?H = "length (sp_popped s)" and ?T = "length (sp_pushed s)"
  have i: "counts_ok s" "h = of_nat ?H" "?H < sp_seen_tail s" "xs = sp_pushed s ! ?H" "sp_popped s = take ?H (sp_pushed s)"
      "prod_ok s (sp_prod s)" using assms by (auto simp: spsc_inv_def)
  have sb: "slot_bytes ?s = slot_bytes s" by (simp add: slot_bytes_def fun_eq_iff)
  have lt: "?H < ?T" using i(1,3) by (auto simp: counts_ok_def)
  then have "take (Suc ?H) (sp_pushed s) = sp_popped s @ [xs]" using i(4,5) by (metis take_Suc_conv_app_nth)
  moreover have "prod_ok ?s (sp_prod s)" using i(6) by (cases "sp_prod s") (auto simp: slot_bytes_def)
  ultimately show ?thesis
    using assms(1) i(1-3) sb by (simp add: spsc_inv_def counts_ok_def add.commute)
qed

lemma spsc_step_inv: "spsc_step s s' \<Longrightarrow> spsc_inv s \<Longrightarrow> spsc_inv s'"
proof (induction rule: spsc_step.induct)
  case (push_load_head s e t k)
  have "cons_ok (s\<lparr>sp_prod := PHead e t (of_nat k), sp_seen_head := k\<rparr>) (sp_cons s)"
    using push_load_head by (cases "sp_cons s") (auto simp: spsc_inv_def)
  then show ?case using push_load_head by (auto simp: spsc_inv_def counts_ok_def)
next
  case (pop_load_tail s h k)
  have "prod_ok (s\<lparr>sp_cons := CTail h (of_nat k), sp_seen_tail := k\<rparr>) (sp_prod s)"
    using pop_load_tail by (cases "sp_prod s") (auto simp: spsc_inv_def)
  then show ?case using pop_load_tail by (auto simp: spsc_inv_def counts_ok_def)
next
  case (push_copy s e t h m')
  then show ?case by (blast intro: inv_push_copy)
next
  case (push_publish s e t)
  then show ?case by (blast intro: inv_push_publish)
next
  case (pop_copy s h t xs)
  then show ?case by (blast intro: inv_pop_copy)
next
  case (pop_publish s h xs)
  then show ?case by (blast intro: inv_pop_publish)
qed (simp_all add: spsc_inv_def)

lemma spsc_reachable_inv:
  assumes "spsc_reachable rb m s" "wf_mem m" "ring_ok rb m" "rb_head rb = 0" "rb_tail rb = 0"
  shows "spsc_inv s" "rb_capacity (sp_rb s) = rb_capacity rb" "rb_elem_size (sp_rb s) = rb_elem_size rb"
proof -
  have "spsc_inv s \<and> rb_capacity (sp_rb s) = rb_capacity rb \<and> rb_elem_size (sp_rb s) = rb_elem_size rb"
    using assms(1)
  proof (induction rule: rtranclp_induct)
    case base
    show ?case using spsc_start_inv [OF assms(2-5)] by (simp add: spsc_start_def)
  next
    case (step s s')
    have "rb_capacity (sp_rb s') = rb_capacity (sp_rb s) \<and> rb_elem_size (sp_rb s') = rb_elem_size (sp_rb s)"
      using step(2) by (cases rule: spsc_step.cases) auto
    with step(3) spsc_step_inv [OF step(2)] show ?case by simp
  qed
  then show "spsc_inv s" "rb_capacity (sp_rb s) = rb_capacity rb" "rb_elem_size (sp_rb s) = rb_elem_size rb" by auto
qed

section \<open>Safety and progress\<close>

lemma inv_write_ok:
  assumes "spsc_inv s" "sp_prod s = PHead e t h"
  shows "\<exists>m'. mem_write (sp_mem s) (rb_slot (sp_rb s) t) e = Some m'"
proof -
  have "wf_mem (sp_mem s)" "ring_ok (sp_rb s) (sp_mem s)" "length e = unat (rb_elem_size (sp_rb s))"
    using assms by (auto simp: spsc_inv_def)
  then show ?thesis using ring_slot_range(3) by (simp add: mem_write_Some)
qed

lemma inv_read_ok:
  assumes "spsc_inv s"
  shows "\<exists>xs. mem_read (sp_mem s) (rb_slot (sp_rb s) w) (unat (rb_elem_size (sp_rb s))) = Some xs"
  using assms ring_slot_range(3) by (auto simp: spsc_inv_def mem_read_Some)

text \<open>Neither thread ever waits for the other: each can always take its next step.\<close>

lemma producer_steps:
  assumes "spsc_inv s"
  shows "\<exists>s'. spsc_step s s' \<and> sp_prod s' \<noteq> sp_prod s \<and> sp_cons s' = sp_cons s"
proof (cases "sp_prod s")
  case PIdle
  then show ?thesis using push_load_tail [of s "replicate (unat (rb_elem_size (sp_rb s))) 0"] by force
next
  case (PTail e t)
  then show ?thesis using push_load_head [of s e t "sp_seen_head s"] assms by (force simp: spsc_inv_def counts_ok_def)
next
  case (PHead e t h)
  obtain m' where "mem_write (sp_mem s) (rb_slot (sp_rb s) t) e = Some m'" using inv_write_ok [OF assms PHead] by blast
  then show ?thesis using push_full [OF PHead] push_copy [OF PHead, of m'] PHead
    by (cases "t - h = rb_capacity (sp_rb s)") force+
next
  case (PWritten e t)
  then show ?thesis using push_publish [of s e t] by force
qed

lemma consumer_steps:
  assumes "spsc_inv s"
  shows "\<exists>s'. spsc_step s s' \<and> sp_cons s' \<noteq> sp_cons s \<and> sp_prod s' = sp_prod s"
proof (cases "sp_cons s")
  case CIdle
  then show ?thesis using pop_load_head [of s] by force
next
  case (CHead h)
  then show ?thesis using pop_load_tail [of s h "sp_seen_tail s"] assms by (force simp: spsc_inv_def counts_ok_def)
next
  case (CTail h t)
  obtain xs where "mem_read (sp_mem s) (rb_slot (sp_rb s) h) (unat (rb_elem_size (sp_rb s))) = Some xs"
    using inv_read_ok [OF assms] by blast
  then show ?thesis using pop_empty [OF CTail] pop_copy [OF CTail, of xs] CTail by (cases "h = t") force+
next
  case (CRead h xs)
  then show ?thesis using pop_publish [of s h xs] by force
qed

section \<open>The steps are those of the code\<close>

text \<open>Run without interruption, the steps of one thread compute the C function.\<close>

lemma push_runs:
  assumes "spsc_inv s" "sp_prod s = PIdle" "p \<noteq> NULL" "e = peek (sp_mem s) p (unat (rb_elem_size (sp_rb s)))"
    "d4np_ring_buffer_push (Some (sp_rb s)) p (sp_mem s) = Some (b, Some rb', m')"
  shows "\<exists>s'. spsc_step\<^sup>*\<^sup>* s s' \<and> sp_rb s' = rb' \<and> sp_mem s' = m' \<and> sp_prod s' = PIdle \<and> sp_cons s' = sp_cons s \<and>
    sp_pushed s' = sp_pushed s @ (if b then [e] else [])"
proof -
  let ?rb = "sp_rb s" and ?m = "sp_mem s" and ?H = "length (sp_popped s)"
  have hd: "rb_head ?rb = of_nat ?H" "sp_seen_head s \<le> ?H" using assms(1) by (auto simp: spsc_inv_def counts_ok_def)
  let ?s1 = "s\<lparr>sp_prod := PTail e (rb_tail ?rb)\<rparr>"
  let ?s2 = "?s1\<lparr>sp_prod := PHead e (rb_tail ?rb) (of_nat ?H), sp_seen_head := ?H\<rparr>"
  have 1: "spsc_step s ?s1" using push_load_tail [OF assms(2), of e] assms(4) by simp
  have 2: "spsc_step ?s1 ?s2" using push_load_head [of ?s1 e "rb_tail ?rb" ?H] hd(2) by simp
  show ?thesis
  proof (cases "rb_tail ?rb - rb_head ?rb = rb_capacity ?rb")
    case True
    then have "spsc_step ?s2 (?s2\<lparr>sp_prod := PIdle\<rparr>)" using push_full [of ?s2 e "rb_tail ?rb" "of_nat ?H"] hd(1) by simp
    with 1 2 have "spsc_step\<^sup>*\<^sup>* s (?s2\<lparr>sp_prod := PIdle\<rparr>)" by (meson converse_rtranclp_into_rtranclp r_into_rtranclp)
    then show ?thesis using True assms(3,5) by (intro exI [of _ "?s2\<lparr>sp_prod := PIdle\<rparr>"]) (auto simp: d4np_ring_buffer_push_def)
  next
    case False
    with assms(3,5) have mc: "memcpy ?m (rb_slot ?rb (rb_tail ?rb)) p (unat (rb_elem_size ?rb)) = Some m'"
      and r: "b" "rb' = ?rb\<lparr>rb_tail := rb_tail ?rb + 1\<rparr>"
      by (auto simp: d4np_ring_buffer_push_def Let_def bind_eq_Some_conv)
    then have "mem_write ?m (rb_slot ?rb (rb_tail ?rb)) e = Some m'"
      using assms(4) by (auto simp: memcpy_def mem_write_def split: if_splits)
    then have 3: "spsc_step ?s2 (?s2\<lparr>sp_mem := m', sp_prod := PWritten e (rb_tail ?rb)\<rparr>)" (is "spsc_step _ ?s3")
      using push_copy [of ?s2 e "rb_tail ?rb" "of_nat ?H" m'] False hd(1) by simp
    have 4: "spsc_step ?s3 (?s3\<lparr>sp_rb := (sp_rb ?s3)\<lparr>rb_tail := rb_tail ?rb + 1\<rparr>, sp_prod := PIdle, sp_pushed := sp_pushed ?s3 @ [e]\<rparr>)"
      (is "spsc_step _ ?s4") by (rule push_publish) simp
    have "spsc_step\<^sup>*\<^sup>* s ?s4" using 1 2 3 4 by (meson converse_rtranclp_into_rtranclp r_into_rtranclp)
    then show ?thesis using r by (intro exI [of _ ?s4]) simp
  qed
qed

lemma pop_runs:
  assumes "spsc_inv s" "sp_cons s = CIdle" "d4np_ring_buffer_pop (Some (sp_rb s)) NULL (sp_mem s) = Some (b, Some rb', m')"
  shows "\<exists>s'. spsc_step\<^sup>*\<^sup>* s s' \<and> sp_rb s' = rb' \<and> sp_mem s' = m' \<and> sp_cons s' = CIdle \<and> sp_prod s' = sp_prod s \<and>
    length (sp_popped s') = length (sp_popped s) + (if b then 1 else 0)"
proof -
  let ?rb = "sp_rb s" and ?m = "sp_mem s" and ?T = "length (sp_pushed s)"
  have tl: "rb_tail ?rb = of_nat ?T" "sp_seen_tail s \<le> ?T" using assms(1) by (auto simp: spsc_inv_def counts_ok_def)
  let ?s1 = "s\<lparr>sp_cons := CHead (rb_head ?rb)\<rparr>"
  let ?s2 = "?s1\<lparr>sp_cons := CTail (rb_head ?rb) (of_nat ?T), sp_seen_tail := ?T\<rparr>"
  have 1: "spsc_step s ?s1" by (rule pop_load_head [OF assms(2)])
  have 2: "spsc_step ?s1 ?s2" using pop_load_tail [of ?s1 "rb_head ?rb" ?T] tl(2) by simp
  show ?thesis
  proof (cases "rb_head ?rb = rb_tail ?rb")
    case True
    then have "spsc_step ?s2 (?s2\<lparr>sp_cons := CIdle\<rparr>)" using pop_empty [of ?s2 "rb_head ?rb" "of_nat ?T"] tl(1) by simp
    with 1 2 have "spsc_step\<^sup>*\<^sup>* s (?s2\<lparr>sp_cons := CIdle\<rparr>)" by (meson converse_rtranclp_into_rtranclp r_into_rtranclp)
    then show ?thesis using True assms(3) by (intro exI [of _ "?s2\<lparr>sp_cons := CIdle\<rparr>"]) (auto simp: d4np_ring_buffer_pop_def)
  next
    case False
    with assms(3) have r: "b" "rb' = ?rb\<lparr>rb_head := rb_head ?rb + 1\<rparr>" "m' = ?m"
      by (auto simp: d4np_ring_buffer_pop_def Let_def)
    obtain xs where "mem_read ?m (rb_slot ?rb (rb_head ?rb)) (unat (rb_elem_size ?rb)) = Some xs"
      using inv_read_ok [OF assms(1)] by blast
    then have 3: "spsc_step ?s2 (?s2\<lparr>sp_cons := CRead (rb_head ?rb) xs\<rparr>)" (is "spsc_step _ ?s3")
      using pop_copy [of ?s2 "rb_head ?rb" "of_nat ?T" xs] False tl(1) by simp
    have 4: "spsc_step ?s3 (?s3\<lparr>sp_rb := (sp_rb ?s3)\<lparr>rb_head := rb_head ?rb + 1\<rparr>, sp_cons := CIdle, sp_popped := sp_popped ?s3 @ [xs]\<rparr>)"
      (is "spsc_step _ ?s4") by (rule pop_publish) simp
    have "spsc_step\<^sup>*\<^sup>* s ?s4" using 1 2 3 4 by (meson converse_rtranclp_into_rtranclp r_into_rtranclp)
    then show ?thesis using r by (intro exI [of _ ?s4]) simp
  qed
qed

section \<open>Properties\<close>

text \<open>C10: in every interleaving of one producer and one consumer, and with every stale index either
  may read, the elements the consumer has received are exactly the first elements the producer has
  published, in order and unchanged; at most \<open>capacity\<close> elements are in flight, and those are the
  contents of the buffer.\<close>

theorem spsc_fifo:
  assumes "spsc_reachable rb m s" "wf_mem m" "ring_ok rb m" "rb_head rb = 0" "rb_tail rb = 0"
  shows "sp_pushed s = sp_popped s @ rb_elems (sp_rb s) (sp_mem s) \<and>
    length (sp_pushed s) \<le> length (sp_popped s) + unat (rb_capacity rb) \<and> ring_inv (sp_rb s) (sp_mem s)"
proof -
  let ?H = "length (sp_popped s)" and ?T = "length (sp_pushed s)"
  note inv = spsc_reachable_inv [OF assms]
  have i: "counts_ok s" "rb_head (sp_rb s) = of_nat ?H" "rb_tail (sp_rb s) = of_nat ?T" "sp_popped s = take ?H (sp_pushed s)"
      "\<forall>i. ?H \<le> i \<longrightarrow> i < ?T \<longrightarrow> slot_bytes s i = sp_pushed s ! i" "ring_ok (sp_rb s) (sp_mem s)" "wf_mem (sp_mem s)"
    using inv(1) by (auto simp: spsc_inv_def)
  have c: "?H \<le> ?T" "?T \<le> ?H + unat (rb_capacity rb)" using i(1) inv(2) by (auto simp: counts_ok_def)
  have "?T - ?H < 2 ^ 64" using c ring_bound(3) [OF i(7,6)] inv(2) by simp
  then have n: "unat (rb_tail (sp_rb s) - rb_head (sp_rb s)) = ?T - ?H"
    by (simp add: i(2,3) of_nat_diff_word [OF c(1)] unsigned_of_nat take_bit_nat_eq_self)
  have "rb_elems (sp_rb s) (sp_mem s) = map (\<lambda>i. slot_bytes s (?H + i)) [0..<?T - ?H]"
    unfolding rb_elems_def n slot_bytes_def by (simp add: i(2))
  also have "\<dots> = map (\<lambda>i. sp_pushed s ! (?H + i)) [0..<?T - ?H]" using i(5) by (intro map_cong) auto
  also have "\<dots> = drop ?H (sp_pushed s)" using c(1) by (intro nth_equalityI) simp_all
  finally have "rb_elems (sp_rb s) (sp_mem s) = drop ?H (sp_pushed s)" .
  then show ?thesis using i(4,6) c n inv(2)
    by (metis append_take_drop_id le_diff_conv add.commute ring_inv_def word_le_nat_alt)
qed

text \<open>C26: the two threads never touch the same slot at the same time: when the producer is about to
  copy an element in and the consumer is about to copy one out, the two byte ranges are disjoint, and
  both lie inside the buffer.\<close>

theorem spsc_no_race:
  assumes "spsc_reachable rb m s" "wf_mem m" "ring_ok rb m" "rb_head rb = 0" "rb_tail rb = 0"
    "sp_prod s = PHead e t h" "t - h \<noteq> rb_capacity rb" "sp_cons s = CTail h' t'" "h' \<noteq> t'"
  shows "(rb_slot (sp_rb s) t + unat (rb_elem_size rb) \<le> rb_slot (sp_rb s) h' \<or>
     rb_slot (sp_rb s) h' + unat (rb_elem_size rb) \<le> rb_slot (sp_rb s) t) \<and>
    valid (sp_mem s) (rb_slot (sp_rb s) t) (unat (rb_elem_size rb)) \<and>
    valid (sp_mem s) (rb_slot (sp_rb s) h') (unat (rb_elem_size rb))"
proof -
  let ?H = "length (sp_popped s)" and ?T = "length (sp_pushed s)"
  note inv = spsc_reachable_inv [OF assms(1-5)]
  have i: "counts_ok s" "wf_mem (sp_mem s)" "ring_ok (sp_rb s) (sp_mem s)" "t = of_nat ?T" "h = of_nat (sp_seen_head s)"
      "h' = of_nat ?H" "t' = of_nat (sp_seen_tail s)"
    using inv(1) assms(6,8) by (auto simp: spsc_inv_def)
  have c: "sp_seen_head s \<le> ?T" "?T \<le> sp_seen_head s + unat (rb_capacity (sp_rb s))" "sp_seen_head s \<le> ?H"
      "?H \<le> sp_seen_tail s" "sp_seen_tail s \<le> ?T" using i(1) by (auto simp: counts_ok_def)
  have "?T < sp_seen_head s + unat (rb_capacity (sp_rb s))"
    using full_iff [OF i(2,3) c(1,2)] assms(7) inv(2) i(4,5) c(2) by auto
  moreover have "?H \<noteq> sp_seen_tail s" using assms(9) i(6,7) by auto
  ultimately show ?thesis
    using slots_of_window [OF i(2,3), of "sp_seen_head s" ?T ?H] ring_slot_range(3) [OF i(2,3)] inv(3) i(4,6) c by auto
qed

text \<open>Both operations are wait-free: in every reachable state each thread can take its next step,
  whatever the other one is doing, and an operation run without interruption is the C function (a push
  of the bytes at \<open>p\<close>, a pop that discards the element).\<close>

theorem spsc_wait_free:
  assumes "spsc_reachable rb m s" "wf_mem m" "ring_ok rb m" "rb_head rb = 0" "rb_tail rb = 0"
  shows "(\<exists>s'. spsc_step s s' \<and> sp_prod s' \<noteq> sp_prod s \<and> sp_cons s' = sp_cons s) \<and>
    (\<exists>s'. spsc_step s s' \<and> sp_cons s' \<noteq> sp_cons s \<and> sp_prod s' = sp_prod s) \<and>
    (\<forall>p b rb' m'. sp_prod s = PIdle \<and> p \<noteq> NULL \<and> d4np_ring_buffer_push (Some (sp_rb s)) p (sp_mem s) = Some (b, Some rb', m') \<longrightarrow>
      (\<exists>s'. spsc_step\<^sup>*\<^sup>* s s' \<and> sp_rb s' = rb' \<and> sp_mem s' = m' \<and>
        sp_pushed s' = sp_pushed s @ (if b then [peek (sp_mem s) p (unat (rb_elem_size rb))] else []))) \<and>
    (\<forall>b rb' m'. sp_cons s = CIdle \<and> d4np_ring_buffer_pop (Some (sp_rb s)) NULL (sp_mem s) = Some (b, Some rb', m') \<longrightarrow>
      (\<exists>s'. spsc_step\<^sup>*\<^sup>* s s' \<and> sp_rb s' = rb' \<and> sp_mem s' = m' \<and>
        length (sp_popped s') = length (sp_popped s) + (if b then 1 else 0)))"
proof -
  note inv = spsc_reachable_inv [OF assms]
  show ?thesis
    using producer_steps [OF inv(1)] consumer_steps [OF inv(1)] push_runs [OF inv(1)] pop_runs [OF inv(1)] inv(3)
    by (intro conjI allI impI) (blast, blast, metis, metis)
qed

text \<open>An execution with a push and a pop in progress.\<close>

definition spsc_rb :: d4np_ring_buffer where
  "spsc_rb = rb_ex\<lparr>rb_head := 0, rb_tail := 0\<rparr>"

lemma spsc_rb_ok: "wf_mem rb_ex_mem" "ring_ok spsc_rb rb_ex_mem" "rb_head spsc_rb = 0" "rb_tail spsc_rb = 0"
  using rb_ex_ok by (simp_all add: spsc_rb_def ring_inv_def)

definition spsc_mid :: spsc where
  "spsc_mid = (spsc_start spsc_rb rb_ex_mem)\<lparr>sp_rb := spsc_rb\<lparr>rb_tail := 1\<rparr>, sp_mem := poke rb_ex_mem 16 [7, 9],
     sp_prod := PHead [1, 2] 1 0, sp_cons := CTail 0 1, sp_pushed := [[7, 9]], sp_seen_tail := 1\<rparr>"

lemma spsc_mid_reachable: "spsc_reachable spsc_rb rb_ex_mem spsc_mid"
proof -
  let ?s0 = "spsc_start spsc_rb rb_ex_mem"
  have v: "valid rb_ex_mem 16 2" by (simp add: rb_ex_mem_def valid_def)
  have w: "mem_write rb_ex_mem (rb_slot spsc_rb 0) [7, 9] = Some (poke rb_ex_mem 16 [7, 9])"
    using v by (simp add: mem_write_def rb_slot_def spsc_rb_def rb_ex_def numeral_2_eq_2)
  let ?s1 = "?s0\<lparr>sp_prod := PTail [7, 9] 0\<rparr>"
  have 1: "spsc_step ?s0 ?s1"
    using push_load_tail [of ?s0 "[7, 9]"] by (simp add: spsc_start_def spsc_rb_def rb_ex_def)
  let ?s2 = "?s1\<lparr>sp_prod := PHead [7, 9] 0 0, sp_seen_head := 0\<rparr>"
  have 2: "spsc_step ?s1 ?s2" using push_load_head [of ?s1 "[7, 9]" 0 0] by (simp add: spsc_start_def)
  let ?s3 = "?s2\<lparr>sp_mem := poke rb_ex_mem 16 [7, 9], sp_prod := PWritten [7, 9] 0\<rparr>"
  have 3: "spsc_step ?s2 ?s3"
    using push_copy [of ?s2 "[7, 9]" 0 0] w by (simp add: spsc_start_def spsc_rb_def rb_ex_def)
  let ?s4 = "?s3\<lparr>sp_rb := spsc_rb\<lparr>rb_tail := 1\<rparr>, sp_prod := PIdle, sp_pushed := [[7, 9]]\<rparr>"
  have 4: "spsc_step ?s3 ?s4" using push_publish [of ?s3 "[7, 9]" 0] by (simp add: spsc_start_def)
  let ?s5 = "?s4\<lparr>sp_cons := CHead 0\<rparr>"
  have 5: "spsc_step ?s4 ?s5" using pop_load_head [of ?s4] by (simp add: spsc_start_def spsc_rb_def rb_ex_def)
  let ?s6 = "?s5\<lparr>sp_cons := CTail 0 1, sp_seen_tail := 1\<rparr>"
  have 6: "spsc_step ?s5 ?s6" using pop_load_tail [of ?s5 0 1] by (simp add: spsc_start_def)
  let ?s7 = "?s6\<lparr>sp_prod := PTail [1, 2] 1\<rparr>"
  have 7: "spsc_step ?s6 ?s7"
    using push_load_tail [of ?s6 "[1, 2]"] by (simp add: spsc_start_def spsc_rb_def rb_ex_def)
  have 8: "spsc_step ?s7 spsc_mid"
    using push_load_head [of ?s7 "[1, 2]" 1 0] by (simp add: spsc_start_def spsc_mid_def)
  show ?thesis using 1 2 3 4 5 6 7 8 by (meson converse_rtranclp_into_rtranclp r_into_rtranclp)
qed

theorem spsc_fifo_witness:
  "sp_pushed spsc_mid = sp_popped spsc_mid @ rb_elems (sp_rb spsc_mid) (sp_mem spsc_mid)"
  using spsc_fifo [OF spsc_mid_reachable spsc_rb_ok] by simp

theorem spsc_no_race_witness: "rb_slot (sp_rb spsc_mid) 0 + 2 \<le> rb_slot (sp_rb spsc_mid) 1"
  using spsc_no_race [OF spsc_mid_reachable spsc_rb_ok, of "[1, 2]" 1 0 0 1]
  by (simp add: spsc_mid_def spsc_rb_def rb_ex_def rb_slot_def)

theorem spsc_wait_free_witness:
  "\<exists>s'. spsc_step spsc_mid s' \<and> sp_prod s' \<noteq> PHead [1, 2] 1 0"
  using spsc_wait_free [OF spsc_mid_reachable spsc_rb_ok] by (auto simp: spsc_mid_def)

end
