(* ===== verification/Str_View.thy ===== *)
theory Str_View
  imports Memory Status
begin

text \<open>
  Non-owning string views and the zero-allocation tokenizer (\<open>str/str_view.h\<close>,
  \<open>str/str_view.c\<close>). A view is a pointer and a length into memory it does not own; the array of
  result views of \<open>d4np_str_split\<close> is a list whose length is the size of the caller's array.
\<close>

section \<open>Definitions\<close>

record d4np_str_view =
  sv_ptr :: ptr
  sv_len :: size_t

definition d4np_str_view_from_str :: "ptr \<Rightarrow> mem \<Rightarrow> d4np_str_view option" where
  "d4np_str_view_from_str s m =
     do { n \<leftarrow> (if s \<noteq> NULL then strlen s m else Some 0); Some \<lparr>sv_ptr = s, sv_len = of_nat n\<rparr> }"

definition d4np_str_view_from_buf :: "ptr \<Rightarrow> size_t \<Rightarrow> d4np_str_view" where
  "d4np_str_view_from_buf buf len = \<lparr>sv_ptr = buf, sv_len = (if buf \<noteq> NULL then len else 0)\<rparr>"

definition d4np_str_view_equals :: "d4np_str_view \<Rightarrow> d4np_str_view \<Rightarrow> mem \<Rightarrow> bool option" where
  "d4np_str_view_equals a b m =
     (if sv_len a \<noteq> sv_len b then Some False
      else if sv_len a = 0 then Some True
      else do { x \<leftarrow> mem_read m (sv_ptr a) (unat (sv_len a)); y \<leftarrow> mem_read m (sv_ptr b) (unat (sv_len a)); Some (x = y) })"

text \<open>The scan for the separator: \<open>n\<close> bytes remain from index \<open>i\<close> on.\<close>

fun split_scan :: "ptr \<Rightarrow> byte \<Rightarrow> size_t \<Rightarrow> nat \<Rightarrow> mem \<Rightarrow> size_t option option" where
  "split_scan start sepc i 0 m = Some None"
| "split_scan start sepc i (Suc n) m =
     do { c \<leftarrow> read_byte m (start + unat i); if c = sepc then Some (Some i) else split_scan start sepc (i + 1) n m }"

text \<open>The result is the return value with the view advanced and the field written to \<open>out\<close>.\<close>

definition d4np_str_view_split_next ::
  "d4np_str_view option \<Rightarrow> byte \<Rightarrow> d4np_str_view option \<Rightarrow> mem \<Rightarrow>
   (bool \<times> d4np_str_view option \<times> d4np_str_view option) option" where
  "d4np_str_view_split_next svp sepc out m =
     (case svp of
        None \<Rightarrow> Some (False, svp, out)
      | Some sv \<Rightarrow>
          if out = None \<or> sv_ptr sv = NULL then Some (False, svp, out)
          else do {
            hit \<leftarrow> split_scan (sv_ptr sv) sepc 0 (unat (sv_len sv)) m;
            case hit of
              Some i \<Rightarrow> Some (True, Some \<lparr>sv_ptr = sv_ptr sv + unat i + 1, sv_len = sv_len sv - i - 1\<rparr>,
                               Some \<lparr>sv_ptr = sv_ptr sv, sv_len = i\<rparr>)
            | None \<Rightarrow> Some (True, Some \<lparr>sv_ptr = NULL, sv_len = 0\<rparr>, Some \<lparr>sv_ptr = sv_ptr sv, sv_len = sv_len sv\<rparr>)
          })"

text \<open>\<open>out[count] = token\<close>: undefined past the end of the array.\<close>

definition store_view :: "d4np_str_view list \<Rightarrow> nat \<Rightarrow> d4np_str_view \<Rightarrow> d4np_str_view list option" where
  "store_view xs i v = (if i < length xs then Some (xs[i := v]) else None)"

partial_function (option) split_loop ::
  "d4np_str_view \<Rightarrow> byte \<Rightarrow> d4np_str_view \<Rightarrow> d4np_str_view list option \<Rightarrow> size_t \<Rightarrow> size_t \<Rightarrow> mem \<Rightarrow>
   (size_t \<times> d4np_str_view list option) option" where
  "split_loop sv sepc token out max_out count m =
     do {
       (more, svp, tok) \<leftarrow> d4np_str_view_split_next (Some sv) sepc (Some token) m;
       if \<not> more then Some (count, out)
       else do {
         sv1 \<leftarrow> svp;
         token1 \<leftarrow> tok;
         out1 \<leftarrow> (case out of
                    Some xs \<Rightarrow> if count < max_out then map_option Some (store_view xs (unat count) token1) else Some out
                  | None \<Rightarrow> Some out);
         split_loop sv1 sepc token1 out1 max_out (count + 1) m
       }
     }"

definition d4np_str_split ::
  "d4np_str_view \<Rightarrow> byte \<Rightarrow> d4np_str_view list option \<Rightarrow> size_t \<Rightarrow> mem \<Rightarrow> (size_t \<times> d4np_str_view list option) option" where
  "d4np_str_split sv sepc out max_out m = split_loop sv sepc \<lparr>sv_ptr = NULL, sv_len = 0\<rparr> out max_out 0 m"

section \<open>Contents of a view and its fields\<close>

definition sv_bytes :: "mem \<Rightarrow> d4np_str_view \<Rightarrow> byte list" where
  "sv_bytes m sv = peek m (sv_ptr sv) (unat (sv_len sv))"

definition sv_ok :: "mem \<Rightarrow> d4np_str_view \<Rightarrow> bool" where
  "sv_ok m sv \<longleftrightarrow> sv_ptr sv \<noteq> NULL \<and> valid m (sv_ptr sv) (unat (sv_len sv))"

fun fields :: "byte \<Rightarrow> byte list \<Rightarrow> byte list list" where
  "fields sepc [] = [[]]"
| "fields sepc (c # cs) =
     (if c = sepc then [] # fields sepc cs
      else (case fields sepc cs of [] \<Rightarrow> [[c]] | f # fs \<Rightarrow> (c # f) # fs))"

fun join :: "byte \<Rightarrow> byte list list \<Rightarrow> byte list" where
  "join sepc [] = []"
| "join sepc [f] = f"
| "join sepc (f # g # fs) = f @ sepc # join sepc (g # fs)"

lemma fields_nonempty [simp]: "fields sepc bs \<noteq> []"
  by (cases bs) (auto split: list.split)

lemma join_Cons: "fs \<noteq> [] \<Longrightarrow> join sepc (f # fs) = f @ sepc # join sepc fs"
  by (cases fs) auto

lemma join_fields: "join sepc (fields sepc bs) = bs"
proof (induction bs)
  case (Cons c cs)
  obtain f fs where f: "fields sepc cs = f # fs" by (cases "fields sepc cs") auto
  then show ?case using Cons by (cases fs) (auto simp: join_Cons)
qed simp

lemma fields_no_sep: "sepc \<notin> set bs \<Longrightarrow> fields sepc bs = [bs]"
  by (induction bs) auto

lemma fields_at_sep: "sepc \<notin> set xs \<Longrightarrow> fields sepc (xs @ sepc # ys) = xs # fields sepc ys"
  by (induction xs) auto

lemma fields_without_sep: "f \<in> set (fields sepc bs) \<Longrightarrow> sepc \<notin> set f"
proof (induction bs arbitrary: f)
  case (Cons c cs)
  then show ?case by (cases "fields sepc cs") (auto split: if_splits)
qed simp

section \<open>The tokenizer\<close>

lemma split_scan_ok:
  assumes "valid m start (unat i + n)" "unat i + n < 2 ^ 64"
  shows "(sepc \<notin> set (peek m (start + unat i) n) \<and> split_scan start sepc i n m = Some None) \<or>
    (\<exists>k < n. split_scan start sepc i n m = Some (Some (of_nat (unat i + k))) \<and>
       sepc \<notin> set (peek m (start + unat i) k) \<and> bytes m (start + unat i + k) = sepc)"
  using assms
proof (induction n arbitrary: i)
  case (Suc n)
  have v: "valid m (start + unat i) 1" using Suc.prems(1) by (rule valid_sub) simp_all
  have i1: "unat (i + 1) = unat i + 1" using Suc.prems(2) unat_add_exact [of i 1] by simp
  show ?case
  proof (cases "bytes m (start + unat i) = sepc")
    case True
    then show ?thesis using v by (intro disjI2 exI [of _ 0]) (simp add: read_byte_Some)
  next
    case False
    have step: "split_scan start sepc i (Suc n) m = split_scan start sepc (i + 1) n m"
      using v False by (simp add: read_byte_Some)
    have pk: "peek m (start + unat i) (Suc k) = bytes m (start + unat i) # peek m (start + unat (i + 1)) k" for k
      using peek_Suc [of m "start + unat i" k] i1 by (simp add: add.assoc)
    consider "sepc \<notin> set (peek m (start + unat (i + 1)) n)" "split_scan start sepc (i + 1) n m = Some None"
      | k where "k < n" "split_scan start sepc (i + 1) n m = Some (Some (of_nat (unat (i + 1) + k)))"
        "sepc \<notin> set (peek m (start + unat (i + 1)) k)" "bytes m (start + unat (i + 1) + k) = sepc"
      using Suc.IH [of "i + 1"] Suc.prems i1 by auto
    then show ?thesis
    proof cases
      case 1
      then show ?thesis using pk [of n] False step by simp
    next
      case (2 k)
      then show ?thesis using pk [of k] False step i1 by (intro disjI2 exI [of _ "Suc k"]) (simp add: add.assoc)
    qed
  qed
qed simp

lemma split_next_ok:
  assumes "wf_mem m" "sv_ok m sv"
  shows "\<exists>sv' tok. d4np_str_view_split_next (Some sv) sepc (Some t0) m = Some (True, Some sv', Some tok) \<and> sv_ok m tok \<and>
    (sepc \<notin> set (sv_bytes m sv) \<and> sv_ptr sv' = NULL \<and> sv_bytes m tok = sv_bytes m sv \<or>
     sv_ok m sv' \<and> sv_len sv' < sv_len sv \<and> sepc \<notin> set (sv_bytes m tok) \<and>
     sv_bytes m sv = sv_bytes m tok @ sepc # sv_bytes m sv')"
proof -
  let ?n = "unat (sv_len sv)" and ?p = "sv_ptr sv"
  have v: "valid m ?p ?n" "?p \<noteq> NULL" using assms(2) by (auto simp: sv_ok_def)
  have n: "?n < 2 ^ 64" by (rule unat_bound64)
  consider (none) "sepc \<notin> set (peek m ?p ?n)" "split_scan ?p sepc 0 ?n m = Some None"
    | (hit) k where "k < ?n" "split_scan ?p sepc 0 ?n m = Some (Some (of_nat k))" "sepc \<notin> set (peek m ?p k)" "bytes m (?p + k) = sepc"
    using split_scan_ok [of m ?p 0 ?n sepc] v(1) n by auto
  then show ?thesis
  proof cases
    case none
    then show ?thesis using v by (simp add: d4np_str_view_split_next_def sv_bytes_def sv_ok_def)
  next
    case hit
    let ?k = "of_nat k :: size_t"
    have uk: "unat ?k = k" using hit(1) n by (simp add: unsigned_of_nat take_bit_nat_eq_self)
    have le: "?k \<le> sv_len sv" "1 \<le> sv_len sv - ?k"
      using hit(1) uk by (simp_all add: word_le_nat_alt unat_sub_exact)
    have ul: "unat (sv_len sv - ?k - 1) = ?n - k - 1"
      using le uk by (simp add: unat_sub_exact)
    have "peek m ?p ?n = peek m ?p k @ peek m (?p + k) (?n - k)" using hit(1) by (intro peek_split) simp
    also have "peek m (?p + k) (?n - k) = sepc # peek m (?p + k + 1) (?n - k - 1)"
      using peek_Suc [of m "?p + k" "?n - k - 1"] hit(1,4) by (simp add: Suc_diff_Suc)
    finally have cut: "peek m ?p ?n = peek m ?p k @ sepc # peek m (?p + k + 1) (?n - k - 1)" .
    have "valid m ?p k" "valid m (?p + k + 1) (?n - k - 1)" using v(1) hit(1) by (auto intro: valid_sub)
    then show ?thesis
      using v(2) hit cut uk ul by (auto simp: d4np_str_view_split_next_def sv_bytes_def sv_ok_def word_less_nat_alt)
  qed
qed

text \<open>The loop visits the fields one after the other and stops after the last.\<close>

lemma split_next_done: "sv_ptr sv = NULL \<Longrightarrow> d4np_str_view_split_next (Some sv) sepc (Some t) m = Some (False, Some sv, Some t)"
  by (simp add: d4np_str_view_split_next_def)

lemma split_loop_done: "sv_ptr sv = NULL \<Longrightarrow> split_loop sv sepc t out mx cnt m = Some (cnt, out)"
  by (subst split_loop.simps) (simp add: split_next_done)

lemma length_fields_le: "length (fields sepc bs) \<le> Suc (length bs)"
proof (induction bs)
  case (Cons c cs)
  then show ?case by (cases "fields sepc cs") auto
qed simp

lemma split_loop_ok:
  assumes "wf_mem m" "sv_ok m sv" "unat mx \<le> length xs" "unat cnt + length (fields sepc (sv_bytes m sv)) < 2 ^ 64"
  shows "\<exists>ys. split_loop sv sepc t (Some xs) mx cnt m = Some (cnt + of_nat (length (fields sepc (sv_bytes m sv))), Some ys) \<and>
    length ys = length xs \<and> take (unat cnt) ys = take (unat cnt) xs \<and>
    (\<forall>i < length (fields sepc (sv_bytes m sv)). unat cnt + i < unat mx \<longrightarrow>
       sv_ok m (ys ! (unat cnt + i)) \<and> sv_bytes m (ys ! (unat cnt + i)) = fields sepc (sv_bytes m sv) ! i)"
  using assms(2-4)
proof (induction "unat (sv_len sv)" arbitrary: sv cnt xs t rule: less_induct)
  case less
  let ?c = "unat cnt"
  from split_next_ok [OF assms(1) less.prems(1), of sepc t] obtain sv' tok where
    nx: "d4np_str_view_split_next (Some sv) sepc (Some t) m = Some (True, Some sv', Some tok)" "sv_ok m tok" and
    c: "sepc \<notin> set (sv_bytes m sv) \<and> sv_ptr sv' = NULL \<and> sv_bytes m tok = sv_bytes m sv \<or>
     sv_ok m sv' \<and> sv_len sv' < sv_len sv \<and> sepc \<notin> set (sv_bytes m tok) \<and>
     sv_bytes m sv = sv_bytes m tok @ sepc # sv_bytes m sv'" by blast
  define xs' where "xs' = (if ?c < unat mx then xs[?c := tok] else xs)"
  have st: "(if cnt < mx then map_option Some (store_view xs ?c tok) else Some (Some xs)) = Some (Some xs')"
    using less.prems(2) by (auto simp: xs'_def store_view_def word_less_nat_alt)
  have step: "split_loop sv sepc t (Some xs) mx cnt m = split_loop sv' sepc tok (Some xs') mx (cnt + 1) m"
    using nx(1) st by (subst split_loop.simps) simp
  have xs': "length xs' = length xs" "take ?c xs' = take ?c xs" "?c < unat mx \<Longrightarrow> xs' ! ?c = tok"
    using less.prems(2) by (auto simp: xs'_def)
  from c show ?case
  proof
    assume last: "sepc \<notin> set (sv_bytes m sv) \<and> sv_ptr sv' = NULL \<and> sv_bytes m tok = sv_bytes m sv"
    then show ?thesis
      using step split_loop_done [of sv' sepc tok "Some xs'" mx "cnt + 1" m] xs' nx(2) by (simp add: fields_no_sep)
  next
    assume more: "sv_ok m sv' \<and> sv_len sv' < sv_len sv \<and> sepc \<notin> set (sv_bytes m tok) \<and>
     sv_bytes m sv = sv_bytes m tok @ sepc # sv_bytes m sv'"
    then have f: "fields sepc (sv_bytes m sv) = sv_bytes m tok # fields sepc (sv_bytes m sv')" by (simp add: fields_at_sep)
    have c1: "unat (cnt + 1) = Suc ?c" using less.prems(3) unat_add_exact [of cnt 1] by (simp add: f)
    have lt: "unat (sv_len sv') < unat (sv_len sv)" using more by (simp add: word_less_nat_alt)
    from less.hyps [OF lt, of xs' "cnt + 1" tok] more less.prems(2,3) xs'(1) c1 f obtain ys where
      ys: "split_loop sv' sepc tok (Some xs') mx (cnt + 1) m = Some (cnt + 1 + of_nat (length (fields sepc (sv_bytes m sv'))), Some ys)"
        "length ys = length xs'" "take (Suc ?c) ys = take (Suc ?c) xs'"
        "\<forall>i < length (fields sepc (sv_bytes m sv')). Suc ?c + i < unat mx \<longrightarrow>
          sv_ok m (ys ! (Suc ?c + i)) \<and> sv_bytes m (ys ! (Suc ?c + i)) = fields sepc (sv_bytes m sv') ! i" by auto
    have pre: "take ?c ys = take ?c xs" using ys(3) xs'(2) by (metis le_add2 min.absorb1 plus_1_eq_Suc take_take)
    have cur: "ys ! ?c = tok" if "?c < unat mx"
      using ys(3) xs'(3) [OF that] by (metis lessI nth_take)
    have "sv_ok m (ys ! (?c + i)) \<and> sv_bytes m (ys ! (?c + i)) = fields sepc (sv_bytes m sv) ! i"
      if "i < length (fields sepc (sv_bytes m sv))" "?c + i < unat mx" for i
    proof (cases i)
      case 0
      then show ?thesis using that cur nx(2) f by simp
    next
      case (Suc j)
      then show ?thesis using that ys(4) f by auto
    qed
    then show ?thesis using step ys(1,2) pre xs'(1) f by simp
  qed
qed

section \<open>Properties\<close>

text \<open>C35: splitting a view returns the total number of its fields and writes the first \<open>max_out\<close> of
  them, in order and byte for byte, whatever follows; the loop ends after one step per field. The
  fields contain no separator and joining them with it gives back the viewed bytes.\<close>

theorem str_split_fields:
  assumes "wf_mem m" "sv_ok m sv" "unat max_out \<le> length xs" "unat (sv_len sv) < 2 ^ 64 - 1"
  shows "\<exists>ys. d4np_str_split sv sepc (Some xs) max_out m = Some (of_nat (length (fields sepc (sv_bytes m sv))), Some ys) \<and>
    length ys = length xs \<and>
    (\<forall>i < min (unat max_out) (length (fields sepc (sv_bytes m sv))).
       sv_ok m (ys ! i) \<and> sv_bytes m (ys ! i) = fields sepc (sv_bytes m sv) ! i) \<and>
    join sepc (fields sepc (sv_bytes m sv)) = sv_bytes m sv \<and> (\<forall>f \<in> set (fields sepc (sv_bytes m sv)). sepc \<notin> set f)"
proof -
  have "length (sv_bytes m sv) = unat (sv_len sv)" by (simp add: sv_bytes_def)
  then have "unat 0 + length (fields sepc (sv_bytes m sv)) < 2 ^ 64"
    using length_fields_le [of sepc "sv_bytes m sv"] assms(4) by simp
  from split_loop_ok [OF assms(1-3) this, of "\<lparr>sv_ptr = 0, sv_len = 0\<rparr>"] obtain ys where
    "d4np_str_split sv sepc (Some xs) max_out m = Some (of_nat (length (fields sepc (sv_bytes m sv))), Some ys)"
    "length ys = length xs" "\<forall>i < length (fields sepc (sv_bytes m sv)). i < unat max_out \<longrightarrow>
       sv_ok m (ys ! i) \<and> sv_bytes m (ys ! i) = fields sepc (sv_bytes m sv) ! i"
    by (auto simp: d4np_str_split_def)
  then show ?thesis using fields_without_sep by (intro exI [of _ ys]) (auto simp: join_fields)
qed

definition sv_ex_mem :: mem where
  "sv_ex_mem = \<lparr>bytes = (\<lambda>a. if a = 17 \<or> a = 19 then 59 else 97), live = [(16, 4)], place = (\<lambda>_. 0), tick = 0\<rparr>"

theorem str_split_fields_witness:
  "\<exists>ys. d4np_str_split \<lparr>sv_ptr = 16, sv_len = 4\<rparr> 59 (Some (replicate 2 \<lparr>sv_ptr = 0, sv_len = 0\<rparr>)) 2 sv_ex_mem = Some (3, Some ys)"
proof -
  have b: "sv_bytes sv_ex_mem \<lparr>sv_ptr = 16, sv_len = 4\<rparr> = [97, 59, 97, 59]"
    by (simp add: sv_bytes_def sv_ex_mem_def peek_def upt_rec)
  have "wf_mem sv_ex_mem" "sv_ok sv_ex_mem \<lparr>sv_ptr = 16, sv_len = 4\<rparr>"
    by (simp_all add: sv_ex_mem_def wf_mem_def ADDR_LIMIT_def sv_ok_def valid_def)
  with str_split_fields [of sv_ex_mem "\<lparr>sv_ptr = 16, sv_len = 4\<rparr>" 2 "replicate 2 \<lparr>sv_ptr = 0, sv_len = 0\<rparr>" 59] b
  show ?thesis by auto
qed

text \<open>Comparing two readable views decides equality of their bytes; a view made from a C string
  shows the string without its terminator, and NULL gives the empty view.\<close>

theorem str_view_equals_bytes:
  assumes "sv_ok m a" "sv_ok m b"
  shows "d4np_str_view_equals a b m = Some (sv_bytes m a = sv_bytes m b) \<and>
    (\<forall>p s. cstr m p s \<and> p \<noteq> NULL \<and> length s < 2 ^ 64 \<longrightarrow>
       (\<exists>v. d4np_str_view_from_str p m = Some v \<and> sv_ok m v \<and> sv_bytes m v = s)) \<and>
    d4np_str_view_from_str NULL m = Some (d4np_str_view_from_buf NULL 7)"
proof (intro conjI allI impI)
  have "sv_bytes m a = sv_bytes m b \<Longrightarrow> sv_len a = sv_len b"
    by (metis length_peek sv_bytes_def word_unat_eq_iff)
  then show "d4np_str_view_equals a b m = Some (sv_bytes m a = sv_bytes m b)"
    using assms by (auto simp: d4np_str_view_equals_def sv_ok_def sv_bytes_def mem_read_Some)
next
  fix p s assume a: "cstr m p s \<and> p \<noteq> NULL \<and> length s < 2 ^ 64"
  then have "valid m p (length s)" "strlen p m = Some (length s)" "peek m p (length s) = s"
    by (auto simp: cstr_def strlen_cstr cstr_peek intro: valid_sub)
  with a show "\<exists>v. d4np_str_view_from_str p m = Some v \<and> sv_ok m v \<and> sv_bytes m v = s"
    by (simp add: d4np_str_view_from_str_def sv_ok_def sv_bytes_def unsigned_of_nat take_bit_nat_eq_self)
qed (simp add: d4np_str_view_from_str_def d4np_str_view_from_buf_def)

theorem str_view_equals_bytes_witness:
  "d4np_str_view_equals \<lparr>sv_ptr = 16, sv_len = 2\<rparr> \<lparr>sv_ptr = 18, sv_len = 2\<rparr> sv_ex_mem = Some True"
  using str_view_equals_bytes [of sv_ex_mem "\<lparr>sv_ptr = 16, sv_len = 2\<rparr>" "\<lparr>sv_ptr = 18, sv_len = 2\<rparr>"]
  by (simp add: sv_ok_def sv_bytes_def sv_ex_mem_def valid_def peek_def upt_rec)

end
