(* ===== verification/Parse.thy ===== *)
theory Parse
  imports Str_View
begin

text \<open>
  String-to-number parsing (\<open>str/parse.h\<close>, \<open>str/parse.c\<close>). Characters are bytes; \<open>isspace\<close> is that of
  the "C" locale. An \<open>int64_t\<close> is a 64-bit word read with \<open>sint\<close>. The optional \<open>out\<close> argument is
  the object the pointer designates. \<open>strtod\<close> is a parameter of \<open>d4np_str_parse_float\<close>.
\<close>

section \<open>Definitions\<close>

definition isspace :: "byte \<Rightarrow> bool" where
  "isspace c \<longleftrightarrow> c = 32 \<or> 9 \<le> c \<and> c \<le> 13"

definition digit_value :: "byte \<Rightarrow> int" where
  "digit_value c =
     (if 48 \<le> c \<and> c \<le> 57 then uint c - 48
      else if 97 \<le> c \<and> c \<le> 122 then uint c - 97 + 10
      else if 65 \<le> c \<and> c \<le> 90 then uint c - 65 + 10
      else -1)"

definition INT64_MAX :: uint64 where
  "INT64_MAX = 2 ^ 63 - 1"

definition INT64_MIN :: uint64 where
  "INT64_MIN = 2 ^ 63"

text \<open>The loops run over \<open>p[i]\<close> while \<open>n\<close> bytes remain.\<close>

fun skip_space :: "ptr \<Rightarrow> size_t \<Rightarrow> nat \<Rightarrow> mem \<Rightarrow> size_t option" where
  "skip_space p i 0 m = Some i"
| "skip_space p i (Suc n) m =
     do { c \<leftarrow> read_byte m (p + unat i); if isspace c then skip_space p (i + 1) n m else Some i }"

definition parse_prefix :: "ptr \<Rightarrow> size_t \<Rightarrow> int \<Rightarrow> size_t \<Rightarrow> mem \<Rightarrow> (int \<times> size_t) option" where
  "parse_prefix p n base i m =
     (if base = 0 then
        if i < n then do {
          c \<leftarrow> read_byte m (p + unat i);
          if c = 48 then
            if i + 1 < n then do {
              x \<leftarrow> read_byte m (p + unat (i + 1));
              Some (if x = 120 \<or> x = 88 then (16, i + 2) else (8, i))
            } else Some (8, i)
          else Some (10, i)
        } else Some (10, i)
      else if base = 16 \<and> i + 1 < n then do {
        c \<leftarrow> read_byte m (p + unat i);
        if c = 48 then do {
          x \<leftarrow> read_byte m (p + unat (i + 1));
          Some (if x = 120 \<or> x = 88 then (base, i + 2) else (base, i))
        } else Some (base, i)
      } else Some (base, i))"

fun parse_digits ::
  "ptr \<Rightarrow> int \<Rightarrow> uint64 \<Rightarrow> size_t \<Rightarrow> nat \<Rightarrow> uint64 \<Rightarrow> bool \<Rightarrow> mem \<Rightarrow> (d4np_status + size_t \<times> uint64 \<times> bool) option" where
  "parse_digits p base limit i 0 acc any m = Some (Inr (i, acc, any))"
| "parse_digits p base limit i (Suc n) acc any m =
     do {
       c \<leftarrow> read_byte m (p + unat i);
       let d = digit_value c;
       if d < 0 \<or> base \<le> d then Some (Inr (i, acc, any))
       else do {
         q \<leftarrow> size_div (limit - of_int d) (of_int base);
         if q < acc then Some (Inl D4NP_ERR_OVERFLOW)
         else parse_digits p base limit (i + 1) n (acc * of_int base + of_int d) True m
       }
     }"

definition d4np_str_parse_int ::
  "d4np_str_view \<Rightarrow> int \<Rightarrow> 64 word option \<Rightarrow> mem \<Rightarrow> (d4np_status \<times> 64 word option) option" where
  "d4np_str_parse_int sv base out m =
     (if out = None \<or> sv_ptr sv = NULL then Some (D4NP_ERR_INVALID_ARGUMENT, out)
      else if base \<noteq> 0 \<and> (base < 2 \<or> 36 < base) then Some (D4NP_ERR_INVALID_ARGUMENT, out)
      else do {
        let p = sv_ptr sv;
        let n = sv_len sv;
        i \<leftarrow> skip_space p 0 (unat n) m;
        if n \<le> i then Some (D4NP_ERR_INVALID_ARGUMENT, out)
        else do {
          c \<leftarrow> read_byte m (p + unat i);
          let negative = (c = 45);
          let i1 = (if c = 43 \<or> c = 45 then i + 1 else i);
          (base1, i2) \<leftarrow> parse_prefix p n base i1 m;
          let limit = (if negative then INT64_MAX + 1 else INT64_MAX);
          r \<leftarrow> parse_digits p base1 limit i2 (unat n - unat i2) 0 False m;
          case r of
            Inl e \<Rightarrow> Some (e, out)
          | Inr (i3, acc, any_digit) \<Rightarrow>
              if \<not> any_digit then Some (D4NP_ERR_INVALID_ARGUMENT, out)
              else do {
                i4 \<leftarrow> skip_space p i3 (unat n - unat i3) m;
                if i4 \<noteq> n then Some (D4NP_ERR_INVALID_ARGUMENT, out)
                else Some (D4NP_OK, Some (if negative then (if acc = INT64_MAX + 1 then INT64_MIN else - acc) else acc))
              }
        }
      })"

text \<open>The loop that trims trailing space: the end index \<open>n\<close> runs down to \<open>i\<close>.\<close>

function trim_end :: "ptr \<Rightarrow> size_t \<Rightarrow> size_t \<Rightarrow> mem \<Rightarrow> size_t option" where
  "trim_end p i n m =
     (if i < n then do { c \<leftarrow> read_byte m (p + unat (n - 1)); if isspace c then trim_end p i (n - 1) m else Some n }
      else Some n)"
  by pat_completeness auto

termination
proof (relation "measure (\<lambda>(p, i, n, m). unat n)")
  fix i n :: size_t
  assume "i < n"
  then have "0 < unat n" by (auto simp: word_less_nat_alt)
  then show "((p, i, n - 1, m), p, i, n, m) \<in> measure (\<lambda>(p, i, n, m). unat n)" for p m
    using unat_sub_exact [of 1 n] by (simp add: word_le_nat_alt)
qed simp

declare trim_end.simps [simp del]

text \<open>\<open>strtod s\<close> is the value, the number of characters consumed and whether \<open>errno\<close> is
  \<open>ERANGE\<close>; \<open>huge\<close> is the comparison with \<open>HUGE_VAL\<close>.\<close>

definition d4np_str_parse_float ::
  "(byte list \<Rightarrow> 'd \<times> nat \<times> bool) \<Rightarrow> ('d \<Rightarrow> bool) \<Rightarrow> d4np_str_view \<Rightarrow> 'd option \<Rightarrow> mem \<Rightarrow> (d4np_status \<times> 'd option) option" where
  "d4np_str_parse_float strtod huge sv out m =
     (case out of
        None \<Rightarrow> Some (D4NP_ERR_INVALID_ARGUMENT, None)
      | Some _ \<Rightarrow>
          if sv_ptr sv = NULL then Some (D4NP_ERR_INVALID_ARGUMENT, out)
          else do {
            i \<leftarrow> skip_space (sv_ptr sv) 0 (unat (sv_len sv)) m;
            n \<leftarrow> trim_end (sv_ptr sv) i (sv_len sv) m;
            let len = n - i;
            if len = 0 then Some (D4NP_ERR_INVALID_ARGUMENT, out)
            else if 128 \<le> len then Some (D4NP_ERR_INVALID_ARGUMENT, out)
            else do {
              buf \<leftarrow> mem_read m (sv_ptr sv + unat i) (unat len);
              let (value, consumed, erange) = strtod buf;
              if consumed \<noteq> unat len then Some (D4NP_ERR_INVALID_ARGUMENT, out)
              else if erange \<and> huge value then Some (D4NP_ERR_OVERFLOW, out)
              else Some (D4NP_OK, Some value)
            }
          })"

section \<open>What the integer parser computes\<close>

definition is_digit :: "int \<Rightarrow> byte \<Rightarrow> bool" where
  "is_digit base c \<longleftrightarrow> 0 \<le> digit_value c \<and> digit_value c < base"

definition digits_val :: "int \<Rightarrow> int \<Rightarrow> byte list \<Rightarrow> int" where
  "digits_val base a ds = foldl (\<lambda>a c. a * base + digit_value c) a ds"

definition spec_sign :: "byte list \<Rightarrow> bool \<times> byte list" where
  "spec_sign bs = (case bs of [] \<Rightarrow> (False, []) | c # cs \<Rightarrow> (c = 45, if c = 43 \<or> c = 45 then cs else bs))"

definition spec_prefix :: "int \<Rightarrow> byte list \<Rightarrow> int \<times> byte list" where
  "spec_prefix base bs =
     (let hex = (case bs of c # x # cs \<Rightarrow> c = 48 \<and> (x = 120 \<or> x = 88) | _ \<Rightarrow> False) in
      if base = 0 then
        if hex then (16, drop 2 bs) else if take 1 bs = [48] then (8, bs) else (10, bs)
      else if base = 16 \<and> hex then (16, drop 2 bs) else (base, bs))"

definition spec_int :: "int \<Rightarrow> byte list \<Rightarrow> d4np_status + int" where
  "spec_int base bs =
     (if dropWhile isspace bs = [] then Inl D4NP_ERR_INVALID_ARGUMENT
      else (let (neg, r1) = spec_sign (dropWhile isspace bs);
                (b, r2) = spec_prefix base r1;
                ds = takeWhile (is_digit b) r2;
                v = digits_val b 0 ds
            in if (if neg then 2 ^ 63 else 2 ^ 63 - 1) < v then Inl D4NP_ERR_OVERFLOW
               else if ds = [] \<or> \<not> list_all isspace (dropWhile (is_digit b) r2) then Inl D4NP_ERR_INVALID_ARGUMENT
               else Inr (if neg then - v else v)))"

section \<open>A cursor in the viewed bytes\<close>

definition cursor :: "mem \<Rightarrow> ptr \<Rightarrow> byte list \<Rightarrow> size_t \<Rightarrow> byte list \<Rightarrow> bool" where
  "cursor m p bs i r \<longleftrightarrow> valid m p (length bs) \<and> peek m p (length bs) = bs \<and> length bs < 2 ^ 63 \<and>
     unat i + length r = length bs \<and> drop (unat i) bs = r"

lemma cursor_Cons:
  assumes "cursor m p bs i (c # r)"
  shows "read_byte m (p + unat i) = Some c" "unat (i + 1) = unat i + 1" "cursor m p bs (i + 1) r"
proof -
  have i: "unat i < length bs" "drop (unat i) bs = c # r" "valid m p (length bs)" "peek m p (length bs) = bs" "length bs < 2 ^ 63"
    using assms by (auto simp: cursor_def)
  have "bytes m (p + unat i) = bs ! unat i" using i(1,4) nth_peek [of "unat i" "length bs" m p] by simp
  also have "\<dots> = c" using i(1,2) by (metis Cons_nth_drop_Suc list.inject)
  finally show "read_byte m (p + unat i) = Some c"
    using i(1,3) by (simp add: read_byte_Some valid_sub)
  show u: "unat (i + 1) = unat i + 1" using i(1,5) unat_add_exact [of i 1] by simp
  have "drop (Suc (unat i)) bs = r" using i(1,2) by (metis Cons_nth_drop_Suc list.inject)
  then show "cursor m p bs (i + 1) r" using assms u by (simp add: cursor_def)
qed

lemma cursor_lt: "cursor m p bs i r \<Longrightarrow> unat n = length bs \<Longrightarrow> i < n \<longleftrightarrow> r \<noteq> []"
  by (auto simp: cursor_def word_less_nat_alt)

lemma cursor_end: "cursor m p bs i r \<Longrightarrow> unat n = length bs \<Longrightarrow> i = n \<longleftrightarrow> r = []"
  by (auto simp: cursor_def word_unat_eq_iff)

lemma cursor_left: "cursor m p bs i r \<Longrightarrow> unat n = length bs \<Longrightarrow> unat n - unat i = length r"
  by (auto simp: cursor_def)

lemma skip_space_ok:
  "cursor m p bs i r \<Longrightarrow> \<exists>i'. skip_space p i (length r) m = Some i' \<and> cursor m p bs i' (dropWhile isspace r)"
proof (induction r arbitrary: i)
  case (Cons c r)
  note c = cursor_Cons [OF Cons.prems]
  then show ?case using Cons.IH [OF c(3)] Cons.prems by auto
qed auto

lemma prefix_ok:
  assumes "cursor m p bs i r" "unat n = length bs"
  shows "\<exists>i'. parse_prefix p n base i m = Some (fst (spec_prefix base r), i') \<and> cursor m p bs i' (snd (spec_prefix base r))"
proof (cases r)
  case Nil
  have "\<not> i < n" "\<not> i + 1 < n"
  proof -
    show "\<not> i < n" using cursor_lt [OF assms] Nil by simp
    have "i = n" using cursor_end [OF assms] Nil by simp
    moreover have "unat n < 2 ^ 63" using assms by (simp add: cursor_def)
    ultimately show "\<not> i + 1 < n" using unat_add_exact [of n 1] by (simp add: word_less_nat_alt)
  qed
  then show ?thesis using assms(1) Nil by (auto simp: parse_prefix_def spec_prefix_def)
next
  case (Cons c r1)
  note c = cursor_Cons [OF assms(1) [unfolded Cons]]
  have lt: "i < n" "i + 1 < n \<longleftrightarrow> r1 \<noteq> []" using cursor_lt [OF assms] cursor_lt [OF c(3) assms(2)] Cons by simp_all
  show ?thesis
  proof (cases r1)
    case Nil
    then show ?thesis using c(1) lt assms(1) Cons by (auto simp: parse_prefix_def spec_prefix_def)
  next
    case (Cons x r2)
    note x = cursor_Cons [OF c(3) [unfolded Cons]]
    have "cursor m p bs (i + 2) r2" using x(3) by (simp add: add.assoc)
    then show ?thesis using c(1) x(1) lt assms(1) \<open>r = c # r1\<close> Cons
      by (auto simp: parse_prefix_def spec_prefix_def Let_def)
  qed
qed

section \<open>The digit loop\<close>

lemma unat_small_int: "0 \<le> d \<Longrightarrow> d < 2 ^ 64 \<Longrightarrow> int (unat (of_int d :: 64 word)) = d"
  by (simp add: unsigned_of_int take_bit_int_eq_self)

lemma digits_val_mono:
  assumes "0 \<le> a" "1 \<le> base" "list_all (is_digit base) ds"
  shows "a \<le> digits_val base a ds"
  using assms
proof (induction ds arbitrary: a)
  case (Cons c ds)
  have "0 \<le> digit_value c" using Cons.prems(3) by (simp add: is_digit_def)
  moreover have "a * 1 \<le> a * base" using Cons.prems(1,2) by (intro mult_left_mono) auto
  ultimately have "a \<le> a * base + digit_value c" by simp
  moreover from this have "a * base + digit_value c \<le> digits_val base (a * base + digit_value c) ds"
    using Cons.prems by (intro Cons.IH) auto
  ultimately show ?case by (simp add: digits_val_def)
qed (simp add: digits_val_def)

text \<open>The guard before each step is exact: it fires when the next value would exceed the limit.\<close>

lemma digit_guard:
  fixes acc limit :: uint64
  assumes "2 \<le> base" "base \<le> 36" "0 \<le> d" "d < base" "2 ^ 63 - 1 \<le> int (unat limit)"
  shows "(limit - of_int d) div of_int base < acc \<longleftrightarrow> int (unat limit) < int (unat acc) * base + d"
proof -
  let ?b = "of_int base :: uint64" and ?d = "of_int d :: uint64"
  have b1: "int (unat ?b) = base" by (rule unat_small_int) (use assms(1,2) in simp_all)
  have d: "int (unat ?d) = d" by (rule unat_small_int) (use assms(2-4) in simp_all)
  have "0 < int (unat ?b)" unfolding b1 using assms(1) by simp
  then have "0 < unat ?b" by linarith
  note b = b1 this
  have "int (unat ?d) \<le> int (unat limit)" unfolding d using assms(2,4,5) by simp
  then have le: "?d \<le> limit" unfolding word_le_nat_alt of_nat_le_iff .
  have "(limit - ?d) div ?b < acc \<longleftrightarrow> (unat limit - unat ?d) div unat ?b < unat acc"
    by (simp add: word_less_nat_alt unat_div_distrib unat_sub_exact [OF le])
  also have "\<dots> \<longleftrightarrow> unat limit - unat ?d < unat acc * unat ?b"
    using less_eq_div_iff_mult_less_eq [OF b(2), of "unat acc" "unat limit - unat ?d"] by (metis not_le)
  also have "\<dots> \<longleftrightarrow> unat limit < unat acc * unat ?b + unat ?d"
    using le by (auto simp: word_le_nat_alt)
  also have "\<dots> \<longleftrightarrow> int (unat limit) < int (unat acc * unat ?b + unat ?d)" by (rule of_nat_less_iff [symmetric])
  also have "int (unat acc * unat ?b + unat ?d) = int (unat acc) * base + d" using b(1) d by simp
  finally show ?thesis .
qed

lemma parse_digits_ok:
  assumes "cursor m p bs i r" "2 \<le> base" "base \<le> 36" "2 ^ 63 - 1 \<le> int (unat limit)" "int (unat limit) \<le> 2 ^ 63"
    "int (unat acc) \<le> int (unat limit)"
  defines "ds \<equiv> takeWhile (is_digit base) r"
  defines "v \<equiv> digits_val base (int (unat acc)) ds"
  shows "(int (unat limit) < v \<and> parse_digits p base limit i (length r) acc any m = Some (Inl D4NP_ERR_OVERFLOW)) \<or>
    (v \<le> int (unat limit) \<and> (\<exists>i'. parse_digits p base limit i (length r) acc any m = Some (Inr (i', of_int v, any \<or> ds \<noteq> [])) \<and>
       cursor m p bs i' (dropWhile (is_digit base) r)))"
  using assms(1,6) unfolding ds_def v_def
proof (induction r arbitrary: i acc any)
  case Nil
  then show ?case by (simp add: digits_val_def)
next
  case (Cons c r)
  note cu = cursor_Cons [OF Cons.prems(1)]
  let ?d = "digit_value c"
  show ?case
  proof (cases "is_digit base c")
    case False
    then have "parse_digits p base limit i (length (c # r)) acc any m = Some (Inr (i, acc, any))"
      using cu(1) by (auto simp: is_digit_def)
    then show ?thesis using Cons.prems False by (simp add: digits_val_def)
  next
    case True
    then have d: "0 \<le> ?d" "?d < base" by (auto simp: is_digit_def)
    let ?a = "int (unat acc) * base + ?d" and ?acc = "acc * of_int base + of_int ?d"
    have b0: "(of_int base :: uint64) \<noteq> 0"
    proof -
      have "int (unat (of_int base :: uint64)) = base" using assms(2,3) by (intro unat_small_int) auto
      then show ?thesis using assms(2) by auto
    qed
    note guard = digit_guard [OF assms(2,3) d assms(4), of acc]
    have red: "parse_digits p base limit i (length (c # r)) acc any m =
        (if int (unat limit) < ?a then Some (Inl D4NP_ERR_OVERFLOW) else parse_digits p base limit (i + 1) (length r) ?acc True m)"
      using cu(1) d b0 guard by (simp add: Let_def)
    have dv: "digits_val base (int (unat acc)) (takeWhile (is_digit base) (c # r)) = digits_val base ?a (takeWhile (is_digit base) r)"
      using True by (simp add: digits_val_def)
    have mono: "?a \<le> digits_val base ?a (takeWhile (is_digit base) r)"
      using assms(2) d by (intro digits_val_mono) (auto simp: list_all_iff dest: set_takeWhileD)
    show ?thesis
    proof (cases "int (unat limit) < ?a")
      case over: True
      then show ?thesis using red mono dv by simp
    next
      case False
      have "?acc = of_int ?a" by simp
      then have ua: "int (unat ?acc) = ?a" using False d assms(2,5) unat_small_int [of ?a] by simp
      have "int (unat ?acc) \<le> int (unat limit)" using ua False by simp
      from Cons.IH [OF cu(3) this, of True] show ?thesis
        unfolding ua dv using red False True by auto
    qed
  qed
qed

lemma limits: "unat INT64_MAX = 2 ^ 63 - 1" "unat (INT64_MAX + 1) = 2 ^ 63" "INT64_MAX + 1 = INT64_MIN"
  by (simp_all add: INT64_MAX_def INT64_MIN_def)

section \<open>The integer parser\<close>

text \<open>The whole view under the cursor.\<close>

lemma view_cursor:
  assumes "wf_mem m" "sv_ok m sv"
  shows "unat (sv_len sv) = length (sv_bytes m sv)" "cursor m (sv_ptr sv) (sv_bytes m sv) 0 (sv_bytes m sv)" "sv_ptr sv \<noteq> NULL"
proof -
  show len: "unat (sv_len sv) = length (sv_bytes m sv)" by (simp add: sv_bytes_def)
  obtain b s where "(b, s) \<in> set (live m)" "b \<le> sv_ptr sv" "sv_ptr sv + unat (sv_len sv) \<le> b + s"
    using assms(2) by (auto simp: sv_ok_def valid_iff)
  then have "unat (sv_len sv) < 2 ^ 63" using wf_block [OF assms(1), of b s] by (simp add: ADDR_LIMIT_def)
  moreover have "valid m (sv_ptr sv) (length (sv_bytes m sv))" "peek m (sv_ptr sv) (length (sv_bytes m sv)) = sv_bytes m sv"
    using assms(2) unfolding len [symmetric] by (simp_all add: sv_ok_def sv_bytes_def)
  ultimately show "cursor m (sv_ptr sv) (sv_bytes m sv) 0 (sv_bytes m sv)" unfolding len by (simp add: cursor_def)
  show "sv_ptr sv \<noteq> NULL" using assms(2) by (simp add: sv_ok_def)
qed

text \<open>The digits and what follows them.\<close>

lemma parse_tail_ok:
  assumes cu: "cursor m p bs i r" and len: "unat n = length bs" and b: "2 \<le> b" "b \<le> 36"
    and limit: "limit = (if neg then INT64_MAX + 1 else INT64_MAX)"
  defines "ds \<equiv> takeWhile (is_digit b) r"
  defines "v \<equiv> digits_val b 0 ds"
  shows "do { res \<leftarrow> parse_digits p b limit i (length r) 0 False m;
      case res of
        Inl e \<Rightarrow> Some (e, Some v0)
      | Inr (i3, acc, any_digit) \<Rightarrow>
          if \<not> any_digit then Some (D4NP_ERR_INVALID_ARGUMENT, Some v0)
          else do {
            i4 \<leftarrow> skip_space p i3 (unat n - unat i3) m;
            if i4 \<noteq> n then Some (D4NP_ERR_INVALID_ARGUMENT, Some v0)
            else Some (D4NP_OK, Some (if neg then (if acc = INT64_MAX + 1 then INT64_MIN else - acc) else acc)) } } =
    Some (if (if neg then 2 ^ 63 else 2 ^ 63 - 1) < v then (D4NP_ERR_OVERFLOW, Some v0)
      else if ds = [] \<or> \<not> list_all isspace (dropWhile (is_digit b) r) then (D4NP_ERR_INVALID_ARGUMENT, Some v0)
      else (D4NP_OK, Some (of_int (if neg then - v else v))))"
proof -
  have "unat limit = (if neg then 2 ^ 63 else 2 ^ 63 - 1)" unfolding limit using limits(1,2) by auto
  then have lim: "int (unat limit) = (if neg then 2 ^ 63 else 2 ^ 63 - 1)" by (cases neg) simp_all
  have pre: "2 ^ 63 - 1 \<le> int (unat limit)" "int (unat limit) \<le> 2 ^ 63" "int (unat (0 :: uint64)) \<le> int (unat limit)"
    unfolding lim by (cases neg; simp)+
  from parse_digits_ok [OF cu b pre, of False]
  consider (over) "int (unat limit) < v" "parse_digits p b limit i (length r) 0 False m = Some (Inl D4NP_ERR_OVERFLOW)"
    | (ok) i3 where "v \<le> int (unat limit)" "parse_digits p b limit i (length r) 0 False m = Some (Inr (i3, of_int v, ds \<noteq> []))"
        "cursor m p bs i3 (dropWhile (is_digit b) r)"
    by (auto simp: v_def ds_def)
  then show ?thesis
  proof cases
    case over
    then show ?thesis unfolding lim by simp
  next
    case ok
    from skip_space_ok [OF ok(3)] obtain i4 where
      i4: "skip_space p i3 (length (dropWhile (is_digit b) r)) m = Some i4"
        "cursor m p bs i4 (dropWhile isspace (dropWhile (is_digit b) r))" by blast
    have e: "i4 = n \<longleftrightarrow> list_all isspace (dropWhile (is_digit b) r)" using cursor_end [OF i4(2) len] by (simp add: list_all_iff)
    have "(of_int v :: uint64) = INT64_MAX + 1 \<Longrightarrow> INT64_MIN = - (of_int v :: uint64)"
      unfolding limits(3) by (simp add: INT64_MIN_def)
    then show ?thesis using ok i4(1) e cursor_left [OF ok(3) len] unfolding lim by simp
  qed
qed

lemma parse_int_ok:
  assumes "wf_mem m" "sv_ok m sv" "base = 0 \<or> 2 \<le> base \<and> base \<le> 36"
  shows "d4np_str_parse_int sv base (Some v0) m =
    Some (case spec_int base (sv_bytes m sv) of Inl e \<Rightarrow> (e, Some v0) | Inr v \<Rightarrow> (D4NP_OK, Some (of_int v)))"
proof -
  define bs where "bs = sv_bytes m sv"
  define p where "p = sv_ptr sv"
  note view = view_cursor [OF assms(1,2), folded bs_def p_def]
  note len = view(1)
  from skip_space_ok [OF view(2)] obtain i where i: "skip_space p 0 (length bs) m = Some i" "cursor m p bs i (dropWhile isspace bs)" by blast
  show ?thesis
  proof (cases "dropWhile isspace bs")
    case Nil
    then show ?thesis using i view(3) assms(3) cursor_lt [OF i(2) len]
      by (simp add: d4np_str_parse_int_def spec_int_def bs_def [symmetric] p_def [symmetric] len not_less [symmetric])
  next
    case (Cons c r)
    note cu = cursor_Cons [OF i(2) [unfolded Cons]]
    define i1 where "i1 = (if c = 43 \<or> c = 45 then i + 1 else i)"
    define neg where "neg = (c = 45)"
    define r1 where "r1 = snd (spec_sign (c # r))"
    have sg: "spec_sign (c # r) = (neg, r1)" "cursor m p bs i1 r1"
      using cu(3) i(2) Cons by (auto simp: spec_sign_def neg_def r1_def i1_def)
    define b where "b = fst (spec_prefix base r1)"
    define r2 where "r2 = snd (spec_prefix base r1)"
    from prefix_ok [OF sg(2) len, of base] obtain i2 where
      i2: "parse_prefix p (sv_len sv) base i1 m = Some (b, i2)" "cursor m p bs i2 r2" by (auto simp: b_def r2_def)
    have b: "2 \<le> b" "b \<le> 36" using assms(3) by (auto simp: b_def spec_prefix_def Let_def)
    have nb: "\<not> (base \<noteq> 0 \<and> (base < 2 \<or> 36 < base))" using assms(3) by auto
    have red: "d4np_str_parse_int sv base (Some v0) m = do {
          r \<leftarrow> parse_digits p b (if neg then INT64_MAX + 1 else INT64_MAX) i2 (length r2) 0 False m;
          case r of
            Inl e \<Rightarrow> Some (e, Some v0)
          | Inr (i3, acc, any_digit) \<Rightarrow>
              if \<not> any_digit then Some (D4NP_ERR_INVALID_ARGUMENT, Some v0)
              else do {
                i4 \<leftarrow> skip_space p i3 (unat (sv_len sv) - unat i3) m;
                if i4 \<noteq> sv_len sv then Some (D4NP_ERR_INVALID_ARGUMENT, Some v0)
                else Some (D4NP_OK, Some (if neg then (if acc = INT64_MAX + 1 then INT64_MIN else - acc) else acc)) } }"
      using i(1) view(3) cursor_lt [OF i(2) len] Cons cu(1) i2(1) cursor_left [OF i2(2) len]
      unfolding d4np_str_parse_int_def if_not_P [OF nb] i1_def neg_def p_def [symmetric] len [symmetric]
      by (simp add: Let_def not_less [symmetric])
    show ?thesis unfolding red parse_tail_ok [OF i2(2) len b refl] bs_def [symmetric] spec_int_def Cons using sg(1)
      by (simp add: Let_def b_def r2_def split: prod.split)
  qed
qed

section \<open>Printed numbers\<close>

definition digit_char :: "nat \<Rightarrow> byte" where
  "digit_char d = of_nat (if d < 10 then 48 + d else 87 + d)"

function show_nat :: "nat \<Rightarrow> nat \<Rightarrow> byte list" where
  "show_nat base n = (if n < base \<or> base < 2 then [digit_char n] else show_nat base (n div base) @ [digit_char (n mod base)])"
  by pat_completeness auto

termination by (relation "measure snd") (auto simp: div_less_dividend)

declare show_nat.simps [simp del]

definition show_int :: "int \<Rightarrow> int \<Rightarrow> byte list" where
  "show_int base v = (if v < 0 then 45 # show_nat (nat base) (nat (- v)) else show_nat (nat base) (nat v))"

lemma digit_value_char: "d < 36 \<Longrightarrow> digit_value (digit_char d) = int d"
proof -
  assume d: "d < 36"
  have u: "unat (of_nat (if d < 10 then 48 + d else 87 + d) :: byte) = (if d < 10 then 48 + d else 87 + d)"
    using d by (auto simp: unsigned_of_nat take_bit_nat_eq_self)
  then have "uint (digit_char d) = (if d < 10 then 48 + int d else 87 + int d)"
    unfolding digit_char_def uint_nat by simp
  then show ?thesis using d u by (auto simp: digit_value_def digit_char_def word_le_nat_alt)
qed

lemma digits_val_append: "digits_val base a (xs @ [c]) = digits_val base a xs * base + digit_value c"
  by (simp add: digits_val_def)

lemma show_nat_val:
  assumes "2 \<le> base" "base \<le> 36"
  shows "digits_val (int base) 0 (show_nat base n) = int n \<and> list_all (is_digit (int base)) (show_nat base n) \<and> show_nat base n \<noteq> []"
  using assms
proof (induction base n rule: show_nat.induct)
  case (1 base n)
  show ?case
  proof (cases "n < base")
    case True
    then have "show_nat base n = [digit_char n]" by (subst show_nat.simps) simp
    then show ?thesis using True 1(2,3) digit_value_char [of n] by (simp add: digits_val_def is_digit_def)
  next
    case False
    then have s: "show_nat base n = show_nat base (n div base) @ [digit_char (n mod base)]"
      using 1(2) by (subst show_nat.simps) simp
    have lt: "n mod base < base" using 1(2) by (intro mod_less_divisor) simp
    have d: "digit_value (digit_char (n mod base)) = int (n mod base)"
      by (rule digit_value_char) (use lt 1(3) in simp)
    have "int (n div base) * int base + int (n mod base) = int n" by (simp flip: of_nat_mult of_nat_add)
    then show ?thesis using 1(1) False 1(2,3) d lt
      unfolding s digits_val_append by (simp add: is_digit_def)
  qed
qed

lemma digit_not_space: "is_digit base c \<Longrightarrow> \<not> isspace c \<and> c \<noteq> 43 \<and> c \<noteq> 45"
  by (auto simp: is_digit_def digit_value_def isspace_def word_le_nat_alt split: if_splits)

lemma space_not_digit: "isspace c \<Longrightarrow> \<not> is_digit base c"
  using digit_not_space by blast

lemma x_not_hex: "is_digit 16 c \<Longrightarrow> c \<noteq> 120 \<and> c \<noteq> 88"
  by (auto simp: is_digit_def digit_value_def)

lemma spec_prefix_digits:
  assumes "2 \<le> base" "list_all (is_digit base) ds" "list_all isspace sp"
  shows "spec_prefix base (ds @ sp) = (base, ds @ sp)"
proof -
  have "\<not> (c = 48 \<and> (x = 120 \<or> x = 88))" if "base = 16" "ds @ sp = c # x # r" for c x r
  proof -
    have "is_digit 16 x \<or> isspace x" using that assms(2,3) by (cases ds; cases "tl ds") auto
    then show ?thesis using x_not_hex [of x] by (auto simp: isspace_def)
  qed
  then show ?thesis using assms(1) by (auto simp: spec_prefix_def Let_def split: list.split)
qed

lemma spec_int_show:
  assumes "2 \<le> base" "base \<le> 36" "- (2 ^ 63) \<le> v" "v < 2 ^ 63" "list_all isspace s1" "list_all isspace s2"
  shows "spec_int base (s1 @ show_int base v @ s2) = Inr v"
proof -
  define ds where "ds = show_nat (nat base) (nat \<bar>v\<bar>)"
  have ds: "digits_val base 0 ds = \<bar>v\<bar>" "list_all (is_digit base) ds" "ds \<noteq> []"
    using show_nat_val [of "nat base" "nat \<bar>v\<bar>"] assms(1,2) by (auto simp: ds_def)
  have sh: "show_int base v = (if v < 0 then 45 # ds else ds)" by (auto simp: show_int_def ds_def)
  obtain c cs where c: "ds = c # cs" using ds(3) by (cases ds) auto
  then have nsp: "\<not> isspace c" "c \<noteq> 43" "c \<noteq> 45" using ds(2) digit_not_space [of base c] by auto
  have s1: "dropWhile isspace (s1 @ show_int base v @ s2) = show_int base v @ s2"
    using assms(5) nsp(1) unfolding sh c by (auto simp: dropWhile_append2 list_all_iff isspace_def)
  have sg: "spec_sign (show_int base v @ s2) = (v < 0, ds @ s2)"
    using nsp unfolding sh c by (auto simp: spec_sign_def)
  have tw: "takeWhile (is_digit base) (ds @ s2) = ds" "dropWhile (is_digit base) (ds @ s2) = s2"
  proof -
    have "takeWhile (is_digit base) s2 = []" "dropWhile (is_digit base) s2 = s2"
      using assms(6) space_not_digit [of _ base] by (cases s2; simp)+
    then show "takeWhile (is_digit base) (ds @ s2) = ds" "dropWhile (is_digit base) (ds @ s2) = s2"
      using ds(2) by (simp_all add: takeWhile_append2 dropWhile_append2 list_all_iff)
  qed
  have ne: "show_int base v @ s2 \<noteq> []" using ds(3) by (auto simp: sh)
  show ?thesis
    unfolding spec_int_def s1 sg using ne spec_prefix_digits [OF assms(1) ds(2) assms(6)] tw ds(1,3) assms(3,4,6)
    by (auto simp: Let_def)
qed

section \<open>Properties\<close>

text \<open>C7: for every readable view and legal base, \<open>d4np_str_parse_int\<close> returns what the exact-arithmetic
  specification gives for the viewed bytes: optional space, sign and prefix, the longest run of digits,
  optional space and nothing else; OVERFLOW exactly when the digits denote a value outside
  \<open>int64_t\<close>, INVALID_ARGUMENT for every other text, and \<open>*out\<close> written only on success.\<close>

theorem parse_int_correct:
  assumes "wf_mem m" "sv_ok m sv" "base = 0 \<or> 2 \<le> base \<and> base \<le> 36"
  shows "d4np_str_parse_int sv base (Some v0) m =
    Some (case spec_int base (sv_bytes m sv) of Inl e \<Rightarrow> (e, Some v0) | Inr v \<Rightarrow> (D4NP_OK, Some (of_int v)))"
  using parse_int_ok [OF assms] .

text \<open>Every \<open>int64_t\<close>, \<open>INT64_MIN\<close> included, printed in any base from 2 to 36 and surrounded by any
  white space, parses back to itself.\<close>

theorem parse_int_roundtrip:
  assumes "wf_mem m" "sv_ok m sv" "2 \<le> base" "base \<le> 36" "- (2 ^ 63) \<le> v" "v < 2 ^ 63"
    "sv_bytes m sv = s1 @ show_int base v @ s2" "list_all isspace s1" "list_all isspace s2"
  shows "\<exists>w. d4np_str_parse_int sv base (Some v0) m = Some (D4NP_OK, Some w) \<and> sint w = v"
proof -
  have "sint (of_int v :: 64 word) = v" using assms(5,6) by (simp add: signed_of_int signed_take_bit_int_eq_self)
  then show ?thesis
    using parse_int_ok [OF assms(1,2), of base v0] assms(3,4,7) spec_int_show [OF assms(3-6,8,9)] by auto
qed

text \<open>The text " -80" in base 16.\<close>

definition parse_ex_mem :: mem where
  "parse_ex_mem = \<lparr>bytes = (\<lambda>a. if a = 16 then 32 else if a = 17 then 45 else if a = 18 then 56 else 48),
     live = [(16, 4)], place = (\<lambda>_. 0), tick = 0\<rparr>"

lemma parse_ex_ok:
  "wf_mem parse_ex_mem" "sv_ok parse_ex_mem \<lparr>sv_ptr = 16, sv_len = 4\<rparr>"
  "sv_bytes parse_ex_mem \<lparr>sv_ptr = 16, sv_len = 4\<rparr> = [32, 45, 56, 48]"
  by (simp_all add: parse_ex_mem_def wf_mem_def ADDR_LIMIT_def sv_ok_def valid_def sv_bytes_def peek_def upt_rec)

lemma show_ex: "show_int 16 (- 128) = [45, 56, 48]"
  by (simp add: show_int_def show_nat.simps digit_char_def)

theorem parse_int_correct_witness:
  "d4np_str_parse_int \<lparr>sv_ptr = 16, sv_len = 4\<rparr> 16 (Some 7) parse_ex_mem = Some (D4NP_OK, Some (- 128))"
proof -
  have "spec_int 16 ([32] @ show_int 16 (- 128) @ []) = Inr (- 128)" by (rule spec_int_show) (simp_all add: isspace_def)
  then have "spec_int 16 [32, 45, 56, 48] = Inr (- 128)" by (simp add: show_ex)
  then show ?thesis using parse_int_correct [OF parse_ex_ok(1,2), of 16 7] by (simp add: parse_ex_ok(3))
qed

theorem parse_int_roundtrip_witness:
  "\<exists>w. d4np_str_parse_int \<lparr>sv_ptr = 16, sv_len = 4\<rparr> 16 (Some 7) parse_ex_mem = Some (D4NP_OK, Some w) \<and> sint w = - 128"
  using parse_int_roundtrip [OF parse_ex_ok(1,2), of 16 "- 128" "[32]" "[]" 7] by (simp add: parse_ex_ok(3) show_ex isspace_def)

end
