(* ===== verification/String_Builder.thy ===== *)
theory String_Builder
  imports Allocator Str_View
begin

text \<open>
  The dynamic string builder (\<open>ds/string_builder.h\<close>, \<open>ds/string_builder.c\<close>): a geometrically growing
  buffer that is NUL-terminated whenever it exists.
\<close>

section \<open>Definitions\<close>

record d4np_string_builder =
  sb_allocator :: "d4np_allocator option"
  sb_data :: ptr
  sb_len :: size_t
  sb_capacity :: size_t

definition D4NP_SB_MIN_CAPACITY :: size_t where
  "D4NP_SB_MIN_CAPACITY = 16"

text \<open>The doubling loop of \<open>sb_ensure\<close>.\<close>

partial_function (option) sb_grow :: "size_t \<Rightarrow> size_t \<Rightarrow> size_t option" where
  "sb_grow newcap needed =
     (if newcap < needed then (if SIZE_MAX div 2 < newcap then Some needed else sb_grow (newcap * 2) needed)
      else Some newcap)"

definition sb_ensure :: "d4np_string_builder \<Rightarrow> size_t \<Rightarrow> mem \<Rightarrow> (d4np_status \<times> d4np_string_builder \<times> mem) option" where
  "sb_ensure sb needed m =
     (if needed \<le> sb_capacity sb then Some (D4NP_OK, sb, m)
      else do {
        newcap \<leftarrow> sb_grow (if sb_capacity sb = 0 then D4NP_SB_MIN_CAPACITY else sb_capacity sb) needed;
        (p, m1) \<leftarrow> d4np_realloc (sb_allocator sb) (sb_data sb) (sb_capacity sb) newcap 1 m;
        if p = NULL then Some (D4NP_ERR_OUT_OF_MEMORY, sb, m1)
        else Some (D4NP_OK, sb\<lparr>sb_data := p, sb_capacity := newcap\<rparr>, m1)
      })"

definition d4np_sb_init ::
  "d4np_string_builder option \<Rightarrow> d4np_allocator option \<Rightarrow> size_t \<Rightarrow> mem \<Rightarrow> (d4np_status \<times> d4np_string_builder option \<times> mem) option" where
  "d4np_sb_init b allocator initial_capacity m =
     (case b of
        None \<Rightarrow> Some (D4NP_ERR_INVALID_ARGUMENT, None, m)
      | Some _ \<Rightarrow>
          (let sb = \<lparr>sb_allocator = Some (allocator_or_default allocator), sb_data = NULL, sb_len = 0, sb_capacity = 0\<rparr> in
           if 0 < initial_capacity then do {
             (rc, sb1, m1) \<leftarrow> sb_ensure sb initial_capacity m;
             if rc \<noteq> D4NP_OK then Some (rc, Some sb1, m1)
             else do { m2 \<leftarrow> mem_write m1 (sb_data sb1) [0]; Some (D4NP_OK, Some sb1, m2) }
           } else Some (D4NP_OK, Some sb, m)))"

definition d4np_sb_destroy :: "d4np_string_builder option \<Rightarrow> mem \<Rightarrow> (d4np_string_builder option \<times> mem) option" where
  "d4np_sb_destroy b m =
     (case b of
        None \<Rightarrow> Some (None, m)
      | Some sb \<Rightarrow>
          if sb_data sb = NULL then Some (Some sb, m)
          else do {
            m1 \<leftarrow> d4np_free (sb_allocator sb) (sb_data sb) (sb_capacity sb) m;
            Some (Some (sb\<lparr>sb_data := NULL, sb_len := 0, sb_capacity := 0\<rparr>), m1)
          })"

definition d4np_sb_reserve ::
  "d4np_string_builder option \<Rightarrow> size_t \<Rightarrow> mem \<Rightarrow> (d4np_status \<times> d4np_string_builder option \<times> mem) option" where
  "d4np_sb_reserve b min_capacity m =
     (case b of
        None \<Rightarrow> Some (D4NP_ERR_INVALID_ARGUMENT, None, m)
      | Some sb \<Rightarrow> do {
          (rc, sb1, m1) \<leftarrow> sb_ensure sb min_capacity m;
          if rc = D4NP_OK \<and> sb_data sb1 \<noteq> NULL \<and> sb_len sb1 = 0
          then do { m2 \<leftarrow> mem_write m1 (sb_data sb1) [0]; Some (rc, Some sb1, m2) }
          else Some (rc, Some sb1, m1)
        })"

definition d4np_sb_append_view ::
  "d4np_string_builder option \<Rightarrow> d4np_str_view \<Rightarrow> mem \<Rightarrow> (d4np_status \<times> d4np_string_builder option \<times> mem) option" where
  "d4np_sb_append_view b view m =
     (case b of
        None \<Rightarrow> Some (D4NP_ERR_INVALID_ARGUMENT, None, m)
      | Some sb \<Rightarrow>
          if sv_len view = 0 then do {
            (rc, sb1, m1) \<leftarrow> sb_ensure sb (sb_len sb + 1) m;
            if rc \<noteq> D4NP_OK then Some (rc, Some sb1, m1)
            else do { m2 \<leftarrow> mem_write m1 (sb_data sb1 + unat (sb_len sb1)) [0]; Some (D4NP_OK, Some sb1, m2) }
          } else if SIZE_MAX - sb_len sb - 1 < sv_len view then Some (D4NP_ERR_OVERFLOW, Some sb, m)
          else do {
            (rc, sb1, m1) \<leftarrow> sb_ensure sb (sb_len sb + sv_len view + 1) m;
            if rc \<noteq> D4NP_OK then Some (rc, Some sb1, m1)
            else do {
              m2 \<leftarrow> memcpy m1 (sb_data sb1 + unat (sb_len sb1)) (sv_ptr view) (unat (sv_len view));
              let sb2 = sb1\<lparr>sb_len := sb_len sb1 + sv_len view\<rparr>;
              m3 \<leftarrow> mem_write m2 (sb_data sb2 + unat (sb_len sb2)) [0];
              Some (D4NP_OK, Some sb2, m3)
            }
          })"

definition d4np_sb_append ::
  "d4np_string_builder option \<Rightarrow> ptr \<Rightarrow> mem \<Rightarrow> (d4np_status \<times> d4np_string_builder option \<times> mem) option" where
  "d4np_sb_append b s m = do { v \<leftarrow> d4np_str_view_from_str s m; d4np_sb_append_view b v m }"

definition d4np_sb_append_char ::
  "d4np_string_builder option \<Rightarrow> byte \<Rightarrow> mem \<Rightarrow> (d4np_status \<times> d4np_string_builder option \<times> mem) option" where
  "d4np_sb_append_char b c m =
     (case b of
        None \<Rightarrow> Some (D4NP_ERR_INVALID_ARGUMENT, None, m)
      | Some sb \<Rightarrow> do {
          (rc, sb1, m1) \<leftarrow> sb_ensure sb (sb_len sb + 2) m;
          if rc \<noteq> D4NP_OK then Some (rc, Some sb1, m1)
          else do {
            m2 \<leftarrow> mem_write m1 (sb_data sb1 + unat (sb_len sb1)) [c];
            let sb2 = sb1\<lparr>sb_len := sb_len sb1 + 1\<rparr>;
            m3 \<leftarrow> mem_write m2 (sb_data sb2 + unat (sb_len sb2)) [0];
            Some (D4NP_OK, Some sb2, m3)
          }
        })"

text \<open>\<open>lit\<close> is the address of the literal \<open>""\<close>.\<close>

definition d4np_sb_cstr :: "ptr \<Rightarrow> d4np_string_builder option \<Rightarrow> ptr" where
  "d4np_sb_cstr lit b = (case b of None \<Rightarrow> lit | Some sb \<Rightarrow> if sb_data sb = NULL then lit else sb_data sb)"

definition d4np_sb_view :: "d4np_string_builder option \<Rightarrow> d4np_str_view" where
  "d4np_sb_view b =
     (case b of
        None \<Rightarrow> d4np_str_view_from_buf NULL 0
      | Some sb \<Rightarrow> if sb_data sb = NULL then d4np_str_view_from_buf NULL 0 else d4np_str_view_from_buf (sb_data sb) (sb_len sb))"

definition d4np_sb_len :: "d4np_string_builder option \<Rightarrow> size_t" where
  "d4np_sb_len b = (case b of None \<Rightarrow> 0 | Some sb \<Rightarrow> sb_len sb)"

definition d4np_sb_clear :: "d4np_string_builder option \<Rightarrow> mem \<Rightarrow> (d4np_string_builder option \<times> mem) option" where
  "d4np_sb_clear b m =
     (case b of
        None \<Rightarrow> Some (None, m)
      | Some sb \<Rightarrow>
          (let sb1 = sb\<lparr>sb_len := 0\<rparr> in
           if sb_data sb1 \<noteq> NULL then do { m1 \<leftarrow> mem_write m (sb_data sb1) [0]; Some (Some sb1, m1) }
           else Some (Some sb1, m)))"

section \<open>Invariant and text\<close>

definition sb_block :: "d4np_string_builder \<Rightarrow> ptr \<times> nat" where
  "sb_block sb = (sb_data sb, unat (sb_capacity sb))"

text \<open>Storage with room for the text and a terminator; a well-formed builder also has the terminator.\<close>

definition sb_room :: "d4np_string_builder \<Rightarrow> mem \<Rightarrow> bool" where
  "sb_room sb m \<longleftrightarrow>
     (if sb_capacity sb = 0 then sb_data sb = NULL \<and> sb_len sb = 0
      else sb_block sb \<in> set (live m) \<and> sb_len sb < sb_capacity sb)"

definition sb_inv :: "d4np_string_builder \<Rightarrow> mem \<Rightarrow> bool" where
  "sb_inv sb m \<longleftrightarrow> sb_room sb m \<and> (sb_capacity sb \<noteq> 0 \<longrightarrow> bytes m (sb_data sb + unat (sb_len sb)) = 0)"

definition sb_text :: "d4np_string_builder \<Rightarrow> mem \<Rightarrow> byte list" where
  "sb_text sb m = peek m (sb_data sb) (unat (sb_len sb))"

lemma sb_grow_ok:
  assumes "c \<noteq> 0"
  shows "\<exists>r. sb_grow c n = Some r \<and> n \<le> r \<and> c \<le> r"
  using assms
proof (induction "unat n - unat c" arbitrary: c rule: less_induct)
  case less
  show ?case
  proof (cases "c < n")
    case False
    then show ?thesis by (subst sb_grow.simps) auto
  next
    case True
    show ?thesis
    proof (cases "SIZE_MAX div 2 < c")
      case big: True
      then show ?thesis using True by (subst sb_grow.simps) auto
    next
      case False
      then have "unat c < 2 ^ 63" unfolding half_SIZE_MAX by simp
      then have d: "unat (c * 2) = unat c * 2" using unat_mult_exact [of c 2] by simp
      have c0: "0 < unat c" using less.prems by (simp add: unat_pos_iff)
      have "c * 2 \<noteq> 0" using d c0 by auto
      moreover have "unat n - unat (c * 2) < unat n - unat c" using d c0 True by (simp add: word_less_nat_alt)
      ultimately obtain r where "sb_grow (c * 2) n = Some r" "n \<le> r" "c * 2 \<le> r" using less.hyps by blast
      moreover have "c \<le> r" using \<open>c * 2 \<le> r\<close> d by (simp add: word_le_nat_alt)
      ultimately show ?thesis using True False by (subst sb_grow.simps) simp
    qed
  qed
qed

lemma sb_room_bound:
  assumes "wf_mem m" "sb_room sb m"
  shows "unat (sb_len sb) < 2 ^ 63"
proof (cases "sb_capacity sb = 0")
  case True
  then show ?thesis using assms(2) by (simp add: sb_room_def)
next
  case False
  then have "unat (sb_capacity sb) < 2 ^ 63" "sb_len sb < sb_capacity sb"
    using assms by (auto simp: sb_room_def sb_block_def dest: block_size_bound)
  then show ?thesis by (simp add: word_less_nat_alt)
qed

text \<open>Writing \<open>xs\<close> behind the text and terminating it, inside the storage.\<close>

lemma sb_block_live: "sb_room sb m \<Longrightarrow> sb_capacity sb \<noteq> 0 \<Longrightarrow> (sb_data sb, unat (sb_capacity sb)) \<in> set (live m)"
  by (simp add: sb_room_def sb_block_def)

lemma sb_put_ok:
  assumes "wf_mem m" "sb_room sb m" "sb_capacity sb \<noteq> 0" "unat (sb_len sb) + length xs < unat (sb_capacity sb)"
    and "unat l = unat (sb_len sb) + length xs"
  defines "m2 \<equiv> poke (poke m (sb_data sb + unat (sb_len sb)) xs) (sb_data sb + unat l) [0]"
  shows "sb_inv (sb\<lparr>sb_len := l\<rparr>) m2" "sb_text (sb\<lparr>sb_len := l\<rparr>) m2 = sb_text sb m @ xs"
    "keeps (set (live m) - {sb_block sb}) m m2" "wf_mem m2" "valid m (sb_data sb + unat (sb_len sb)) (length xs)"
    "valid m (sb_data sb + unat l) 1"
proof -
  note b = sb_block_live [OF assms(2,3)]
  show "sb_inv (sb\<lparr>sb_len := l\<rparr>) m2"
    using assms b by (simp add: sb_inv_def sb_room_def sb_block_def m2_def poke_def word_less_nat_alt)
  show "sb_text (sb\<lparr>sb_len := l\<rparr>) m2 = sb_text sb m @ xs"
    by (auto simp: sb_text_def m2_def list_eq_iff_nth_eq poke_def nth_append assms(5))
  have "keeps (set (live m) - {sb_block sb}) m (poke m (sb_data sb + unat (sb_len sb)) xs)"
    by (rule keeps_poke_outside [OF assms(1) _ b]) (use assms(4) in \<open>auto simp: sb_block_def\<close>)
  moreover have "keeps (set (live m) - {sb_block sb}) (poke m (sb_data sb + unat (sb_len sb)) xs) m2"
    unfolding m2_def using keeps_poke_outside [of "poke m (sb_data sb + unat (sb_len sb)) xs" "sb_data sb" "unat (sb_capacity sb)"
      "{sb_block sb}" "sb_data sb + unat l" "[0]"] b assms(1,4,5) by (simp add: sb_block_def)
  ultimately show "keeps (set (live m) - {sb_block sb}) m m2" by (rule keeps_trans)
  show "wf_mem m2" using assms(1) by (simp add: m2_def)
  show "valid m (sb_data sb + unat (sb_len sb)) (length xs)" "valid m (sb_data sb + unat l) 1"
    by (rule validI [OF b]; use assms(4,5) in simp)+
qed

text \<open>What every operation promises: room made or refused, the rest of the memory kept.\<close>

definition sb_post :: "d4np_allocator \<Rightarrow> d4np_string_builder \<Rightarrow> mem \<Rightarrow> byte list \<Rightarrow> d4np_status \<Rightarrow> d4np_string_builder \<Rightarrow> mem \<Rightarrow> bool" where
  "sb_post A sb m xs rc sb' m' \<longleftrightarrow> wf_mem m' \<and> sb_inv sb' m' \<and> sb_allocator sb' = Some A \<and>
     keeps (set (live m) - {sb_block sb}) m m' \<and> sb_block sb' \<notin> set (live m) - {sb_block sb} \<and>
     (rc = D4NP_OK \<and> sb_text sb' m' = xs \<or>
      rc \<in> {D4NP_ERR_OUT_OF_MEMORY, D4NP_ERR_OVERFLOW} \<and> sb' = sb \<and> sb_text sb' m' = sb_text sb m)"

context allocator_contract
begin

text \<open>Making room keeps the text, and the terminator when there was one.\<close>

lemma sb_ensure_ok:
  assumes "wf_mem m" "sb_inv sb m" "sb_allocator sb = Some A" "sb_len sb < needed"
  shows "\<exists>rc sb' m'. sb_ensure sb needed m = Some (rc, sb', m') \<and> wf_mem m' \<and> sb_allocator sb' = Some A \<and>
    sb_len sb' = sb_len sb \<and> keeps (set (live m) - {sb_block sb}) m m' \<and> sb_block sb' \<notin> set (live m) - {sb_block sb} \<and>
    sb_text sb' m' = sb_text sb m \<and>
    (rc = D4NP_OK \<and> sb_room sb' m' \<and> needed \<le> sb_capacity sb' \<and> sb_capacity sb' \<noteq> 0 \<and>
       (sb_capacity sb \<noteq> 0 \<longrightarrow> sb_inv sb' m') \<or>
     rc = D4NP_ERR_OUT_OF_MEMORY \<and> sb' = sb \<and> sb_inv sb m')"
proof (cases "needed \<le> sb_capacity sb")
  case True
  then have "sb_capacity sb \<noteq> 0" using assms(4) by (auto simp: word_less_nat_alt word_le_nat_alt)
  with True assms show ?thesis by (auto simp: sb_ensure_def sb_inv_def)
next
  case False
  let ?c = "if sb_capacity sb = 0 then D4NP_SB_MIN_CAPACITY else sb_capacity sb"
  have c0: "?c \<noteq> 0" by (simp add: D4NP_SB_MIN_CAPACITY_def)
  obtain r where r: "sb_grow ?c needed = Some r" "needed \<le> r" "?c \<le> r" using sb_grow_ok [OF c0] by blast
  have "0 < unat needed" using assms(4) by (simp add: word_less_nat_alt)
  then have r0: "r \<noteq> 0" using r(2) by (auto simp: word_le_nat_alt)
  have room: "sb_room sb m" using assms(2) by (simp add: sb_inv_def)
  have own: "owned m (sb_data sb) (sb_capacity sb)" using room by (auto simp: sb_room_def owned_def sb_block_def split: if_splits)
  have red: "sb_ensure sb needed m = do { (p, m1) \<leftarrow> d4np_realloc (Some A) (sb_data sb) (sb_capacity sb) r 1 m;
        if p = NULL then Some (D4NP_ERR_OUT_OF_MEMORY, sb, m1)
        else Some (D4NP_OK, sb\<lparr>sb_data := p, sb_capacity := r\<rparr>, m1) }"
    using False r(1) assms(3) by (simp add: sb_ensure_def)
  have p1: "pow2 1" by (auto simp: pow2_def intro: bexI [of _ 0])
  show ?thesis
  proof (cases rule: realloc_cases [OF assms(1) p1 r0 own])
    case (1 m')
    have keep: "sb_text sb m' = sb_text sb m \<and> sb_inv sb m'"
    proof (cases "sb_capacity sb = 0")
      case True
      then show ?thesis using room by (simp add: sb_text_def sb_inv_def sb_room_def)
    next
      case nz: False
      then have b: "(sb_data sb, unat (sb_capacity sb)) \<in> set (live m)" and lt: "unat (sb_len sb) < unat (sb_capacity sb)"
        using room by (auto simp: sb_room_def sb_block_def word_less_nat_alt)
      then show ?thesis using assms(2) nz keeps_peek [OF 1(3) b] keeps_bytes [OF 1(3) b] keeps_live [OF 1(3) b]
        by (simp add: sb_text_def sb_inv_def sb_room_def sb_block_def)
    qed
    then show ?thesis using 1 assms(3) keeps_mono [OF 1(3), of "set (live m) - {sb_block sb}"] by (auto simp: red)
  next
    case (2 q m')
    let ?sb = "sb\<lparr>sb_data := q, sb_capacity := r\<rparr>"
    have lr: "unat (sb_capacity sb) \<le> unat r" using r(3) by (auto simp: word_le_nat_alt split: if_splits)
    have pk: "peek m' q (unat (sb_capacity sb)) = peek m (sb_data sb) (unat (sb_capacity sb))" using 2(8) lr by (simp add: min_def)
    have lt: "sb_capacity sb \<noteq> 0 \<Longrightarrow> unat (sb_len sb) < unat (sb_capacity sb)"
      using room by (simp add: sb_room_def word_less_nat_alt)
    have tx: "sb_text ?sb m' = sb_text sb m"
      using pk lt room by (cases "sb_capacity sb = 0") (auto simp: sb_text_def sb_room_def peek_eq_iff)
    have "sb_len sb < r" using assms(4) r(2) by (rule less_le_trans)
    then have room': "sb_room ?sb m'" using 2(5) r0 by (simp add: sb_room_def sb_block_def)
    moreover have "sb_inv ?sb m'" if "sb_capacity sb \<noteq> 0"
      using room' assms(2) that pk lt [OF that] by (simp add: sb_inv_def peek_eq_iff)
    ultimately show ?thesis using 2 tx assms(3) r(2) r0 by (auto simp: red sb_block_def)
  qed
qed


text \<open>Ensure, then write: the common shape of the appending operations.\<close>

lemma sb_ensure_put:
  assumes "wf_mem m" "sb_inv sb m" "sb_allocator sb = Some A" "unat needed = unat (sb_len sb) + length xs + 1"
    "unat l = unat (sb_len sb) + length xs"
  obtains (oom) m' where "sb_ensure sb needed m = Some (D4NP_ERR_OUT_OF_MEMORY, sb, m')" "sb_post A sb m ys D4NP_ERR_OUT_OF_MEMORY sb m'"
  | (ok) sb' m1 where "sb_ensure sb needed m = Some (D4NP_OK, sb', m1)" "sb_len sb' = sb_len sb" "sb_capacity sb' \<noteq> 0"
      "wf_mem m1" "keeps (set (live m) - {sb_block sb}) m m1" "sb_block sb' \<in> set (live m1)"
      "sb_block sb' \<notin> set (live m) - {sb_block sb}" "unat (sb_len sb') + length xs < unat (sb_capacity sb')"
      "valid m1 (sb_data sb' + unat (sb_len sb)) (length xs)" "valid m1 (sb_data sb' + unat l) 1"
      "sb_post A sb m (sb_text sb m @ xs) D4NP_OK (sb'\<lparr>sb_len := l\<rparr>)
         (poke (poke m1 (sb_data sb' + unat (sb_len sb)) xs) (sb_data sb' + unat l) [0])"
proof -
  have "sb_len sb < needed" using assms(4) by (simp add: word_less_nat_alt)
  from sb_ensure_ok [OF assms(1-3) this] obtain rc sb' m1 where e: "sb_ensure sb needed m = Some (rc, sb', m1)" "wf_mem m1"
      "sb_allocator sb' = Some A" "sb_len sb' = sb_len sb" "keeps (set (live m) - {sb_block sb}) m m1"
      "sb_block sb' \<notin> set (live m) - {sb_block sb}" "sb_text sb' m1 = sb_text sb m"
    and c: "rc = D4NP_OK \<and> sb_room sb' m1 \<and> needed \<le> sb_capacity sb' \<and> sb_capacity sb' \<noteq> 0 \<or>
     rc = D4NP_ERR_OUT_OF_MEMORY \<and> sb' = sb \<and> sb_inv sb m1" by blast
  from c show thesis
  proof (elim disjE conjE)
    assume "rc = D4NP_ERR_OUT_OF_MEMORY" "sb' = sb" "sb_inv sb m1"
    then show thesis using e oom [of m1] by (simp add: sb_post_def)
  next
    assume k: "rc = D4NP_OK" "sb_room sb' m1" "needed \<le> sb_capacity sb'" "sb_capacity sb' \<noteq> 0"
    then have lt: "unat (sb_len sb') + length xs < unat (sb_capacity sb')" using assms(4) e(4) by (simp add: word_le_nat_alt)
    have l: "unat l = unat (sb_len sb') + length xs" using assms(5) e(4) by simp
    note put = sb_put_ok [OF e(2) k(2,4) lt l]
    have "B \<subseteq> set (live m1) - {sb_block sb'}" if "B = set (live m) - {sb_block sb}" for B
      using keeps_subset [OF e(5)] e(6) that by auto
    with put(3) have "keeps (set (live m) - {sb_block sb}) m1
        (poke (poke m1 (sb_data sb' + unat (sb_len sb')) xs) (sb_data sb' + unat l) [0])" by (metis keeps_mono)
    then have "sb_post A sb m (sb_text sb m @ xs) D4NP_OK (sb'\<lparr>sb_len := l\<rparr>)
         (poke (poke m1 (sb_data sb' + unat (sb_len sb)) xs) (sb_data sb' + unat l) [0])"
      using put(1,2,4) e keeps_trans [OF e(5)] by (simp add: sb_post_def sb_block_def)
    then show thesis using ok [of sb' m1] e k put(5,6) lt sb_block_live [OF k(2,4)] by (simp add: sb_block_def)
  qed
qed

lemma sb_append_view_ok:
  assumes "wf_mem m" "sb_inv sb m" "sb_allocator sb = Some A"
    "sv_len v = 0 \<or> outside m {sb_block sb} (sv_ptr v) (unat (sv_len v))"
  shows "\<exists>rc sb' m'. d4np_sb_append_view (Some sb) v m = Some (rc, Some sb', m') \<and>
    sb_post A sb m (sb_text sb m @ sv_bytes m v) rc sb' m'"
proof (cases "sv_len v = 0")
  case True
  have "unat (sb_len sb) < 2 ^ 63" using sb_room_bound assms by (simp add: sb_inv_def)
  then have n: "unat (sb_len sb + 1) = unat (sb_len sb) + length [] + 1" using unat_add_exact [of "sb_len sb" 1] by simp
  have id: "sb'\<lparr>sb_len := sb_len sb\<rparr> = sb'" if "sb_len sb' = sb_len sb" for sb' using that by simp
  show ?thesis
  proof (cases rule: sb_ensure_put [OF assms(1-3) n, where l = "sb_len sb" and ys = "sb_text sb m @ sv_bytes m v", case_names len oom ok])
    case len
    show ?case by simp
  next
    case (oom m')
    then show ?thesis using True by (simp add: d4np_sb_append_view_def)
  next
    case (ok sb' m1)
    then show ?thesis using True id [of sb'] by (simp add: d4np_sb_append_view_def mem_write_Some sv_bytes_def)
  qed
next
  case nz: False
  let ?xs = "sv_bytes m v"
  have bd: "unat (sb_len sb) < 2 ^ 63" using sb_room_bound assms by (simp add: sb_inv_def)
  from nz assms(4) have out: "outside m {sb_block sb} (sv_ptr v) (unat (sv_len v))" by simp
  then obtain b s where "(b, s) \<in> set (live m)" "sv_ptr v + unat (sv_len v) \<le> b + s" "b \<le> sv_ptr v" by (auto simp: outside_def)
  then have vl: "unat (sv_len v) < 2 ^ 63" using block_size_bound [OF assms(1)] by fastforce
  have l: "unat (sb_len sb + sv_len v) = unat (sb_len sb) + length ?xs"
    using unat_add_exact [of "sb_len sb" "sv_len v"] bd vl by (simp add: sv_bytes_def)
  have n: "unat (sb_len sb + sv_len v + 1) = unat (sb_len sb) + length ?xs + 1"
    using unat_add_exact [of "sb_len sb + sv_len v" 1] bd vl l by (simp add: sv_bytes_def)
  have small: "\<not> SIZE_MAX - sb_len sb - 1 < sv_len v"
  proof -
    have "unat (SIZE_MAX - sb_len sb) = 2 ^ 64 - 1 - unat (sb_len sb)"
      using unat_sub_exact [of "sb_len sb" SIZE_MAX] bd by (simp add: word_le_nat_alt)
    then have "unat (SIZE_MAX - sb_len sb - 1) = 2 ^ 64 - 1 - unat (sb_len sb) - 1"
      using unat_sub_exact [of 1 "SIZE_MAX - sb_len sb"] bd by (simp add: word_le_nat_alt)
    then show ?thesis using bd vl by (simp add: word_less_nat_alt)
  qed
  show ?thesis
  proof (cases rule: sb_ensure_put [OF assms(1-3) n l, where ys = "sb_text sb m @ ?xs"])
    case (1 m')
    then show ?thesis using nz small by (simp add: d4np_sb_append_view_def)
  next
    case (2 sb' m1)
    have "outside m1 {sb_block sb'} (sv_ptr v) (unat (sv_len v))"
      using out keeps_subset [OF 2(5)] 2(7) by (fastforce simp: outside_def)
    from memcpy_outside [OF 2(4) this, of "sb_data sb'" "unat (sb_capacity sb')" "sb_data sb' + unat (sb_len sb)"]
    have "memcpy m1 (sb_data sb' + unat (sb_len sb)) (sv_ptr v) (unat (sv_len v)) = Some (poke m1 (sb_data sb' + unat (sb_len sb)) ?xs)"
      using 2(2,6,8) outside_keeps(1) [OF out 2(5)] by (simp add: sb_block_def sv_bytes_def)
    then show ?thesis using 2 nz small by (simp add: d4np_sb_append_view_def mem_write_Some)
  qed
qed

lemma sb_append_char_ok:
  assumes "wf_mem m" "sb_inv sb m" "sb_allocator sb = Some A"
  shows "\<exists>rc sb' m'. d4np_sb_append_char (Some sb) c m = Some (rc, Some sb', m') \<and>
    sb_post A sb m (sb_text sb m @ [c]) rc sb' m'"
proof -
  have bd: "unat (sb_len sb) < 2 ^ 63" using sb_room_bound assms by (simp add: sb_inv_def)
  then have n: "unat (sb_len sb + 2) = unat (sb_len sb) + length [c] + 1" using unat_add_exact [of "sb_len sb" 2] by simp
  have l: "unat (sb_len sb + 1) = unat (sb_len sb) + length [c]" using unat_add_exact [of "sb_len sb" 1] bd by simp
  show ?thesis
  proof (cases rule: sb_ensure_put [OF assms n l, where ys = "sb_text sb m @ [c]"])
    case (1 m')
    then show ?thesis by (simp add: d4np_sb_append_char_def)
  next
    case (2 sb' m1)
    then show ?thesis by (simp add: d4np_sb_append_char_def mem_write_Some)
  qed
qed

lemma sb_clear_ok:
  assumes "wf_mem m" "sb_inv sb m" "sb_allocator sb = Some A"
  shows "\<exists>sb' m'. d4np_sb_clear (Some sb) m = Some (Some sb', m') \<and> sb_post A sb m [] D4NP_OK sb' m'"
proof (cases "sb_capacity sb = 0")
  case True
  then show ?thesis using assms
    by (auto simp: d4np_sb_clear_def sb_post_def sb_inv_def sb_room_def sb_text_def sb_block_def dest: wf_block)
next
  case False
  have room: "sb_room sb m" using assms(2) by (simp add: sb_inv_def)
  note b = sb_block_live [OF room False]
  then have d0: "sb_data sb \<noteq> NULL" using wf_block [OF assms(1)] by blast
  have r0: "sb_room (sb\<lparr>sb_len := 0\<rparr>) m" using room False b by (auto simp: sb_room_def sb_block_def word_less_nat_alt)
  have "0 < unat (sb_capacity sb)" using False by (simp add: unat_pos_iff)
  then have "sb_inv ((sb\<lparr>sb_len := 0\<rparr>)\<lparr>sb_len := 0\<rparr>) (poke (poke m (sb_data sb) []) (sb_data sb) [0])"
      "sb_text ((sb\<lparr>sb_len := 0\<rparr>)\<lparr>sb_len := 0\<rparr>) (poke (poke m (sb_data sb) []) (sb_data sb) [0]) = []"
      "keeps (set (live m) - {sb_block sb}) m (poke (poke m (sb_data sb) []) (sb_data sb) [0])" "valid m (sb_data sb) 1"
    using sb_put_ok [OF assms(1) r0, of "[]" 0] False by (simp_all add: sb_text_def sb_block_def)
  then show ?thesis using assms d0 by (simp add: d4np_sb_clear_def sb_post_def mem_write_Some sb_block_def)
qed

text \<open>Room made for an empty builder is terminated by its caller.\<close>

lemma sb_ensure_terminate:
  assumes "wf_mem m" "sb_inv sb m" "sb_allocator sb = Some A" "sb_len sb = 0" "0 < needed"
  obtains (oom) m' where "sb_ensure sb needed m = Some (D4NP_ERR_OUT_OF_MEMORY, sb, m')"
      "sb_post A sb m (sb_text sb m) D4NP_ERR_OUT_OF_MEMORY sb m'"
  | (ok) sb' m1 where "sb_ensure sb needed m = Some (D4NP_OK, sb', m1)" "sb_len sb' = 0" "sb_data sb' \<noteq> NULL"
      "mem_write m1 (sb_data sb') [0] = Some (poke m1 (sb_data sb') [0])" "needed \<le> sb_capacity sb'"
      "sb_post A sb m (sb_text sb m) D4NP_OK sb' (poke m1 (sb_data sb') [0])"
proof -
  have "sb_len sb < needed" using assms(4,5) by simp
  from sb_ensure_ok [OF assms(1-3) this] obtain rc sb' m1 where e: "sb_ensure sb needed m = Some (rc, sb', m1)" "wf_mem m1"
      "sb_allocator sb' = Some A" "sb_len sb' = sb_len sb" "keeps (set (live m) - {sb_block sb}) m m1"
      "sb_block sb' \<notin> set (live m) - {sb_block sb}" "sb_text sb' m1 = sb_text sb m"
    and c: "rc = D4NP_OK \<and> sb_room sb' m1 \<and> needed \<le> sb_capacity sb' \<and> sb_capacity sb' \<noteq> 0 \<or>
     rc = D4NP_ERR_OUT_OF_MEMORY \<and> sb' = sb \<and> sb_inv sb m1" by blast
  from c show thesis
  proof (elim disjE conjE)
    assume "rc = D4NP_ERR_OUT_OF_MEMORY" "sb' = sb" "sb_inv sb m1"
    then show thesis using e oom [of m1] by (simp add: sb_post_def)
  next
    assume k: "rc = D4NP_OK" "sb_room sb' m1" "needed \<le> sb_capacity sb'" "sb_capacity sb' \<noteq> 0"
    have l0: "sb_len sb' = 0" using e(4) assms(4) by simp
    then have id: "sb'\<lparr>sb_len := 0\<rparr> = sb'" by simp
    have "0 < unat (sb_capacity sb')" using k(4) by (simp add: unat_pos_iff)
    then have put: "sb_inv sb' (poke m1 (sb_data sb') [0])" "keeps (set (live m1) - {sb_block sb'}) m1 (poke m1 (sb_data sb') [0])"
        "valid m1 (sb_data sb') 1"
      using sb_put_ok [OF e(2) k(2,4), of "[]" 0] l0 id by simp_all
    have "set (live m) - {sb_block sb} \<subseteq> set (live m1) - {sb_block sb'}" using keeps_subset [OF e(5)] e(6) by auto
    with put(2) have "keeps (set (live m) - {sb_block sb}) m1 (poke m1 (sb_data sb') [0])" by (rule keeps_mono)
    then have "sb_post A sb m (sb_text sb m) D4NP_OK sb' (poke m1 (sb_data sb') [0])"
      using put(1) e keeps_trans [OF e(5)] l0 assms(4) by (simp add: sb_post_def sb_text_def)
    then show thesis using ok [of sb' m1] e k put(3) l0 wf_block [OF e(2) sb_block_live [OF k(2,4)]] by (simp add: mem_write_Some)
  qed
qed

lemma sb_reserve_ok:
  assumes "wf_mem m" "sb_inv sb m" "sb_allocator sb = Some A"
  shows "\<exists>rc sb' m'. d4np_sb_reserve (Some sb) n m = Some (rc, Some sb', m') \<and>
    sb_post A sb m (sb_text sb m) rc sb' m' \<and> (rc = D4NP_OK \<longrightarrow> n \<le> sb_capacity sb')"
proof -
  have room: "sb_room sb m" using assms(2) by (simp add: sb_inv_def)
  have b: "sb_block sb \<in> set (live m) \<Longrightarrow> sb_data sb \<noteq> NULL" using wf_block [OF assms(1)] by (simp add: sb_block_def)
  consider (empty) "sb_len sb = 0" "n = 0" "sb_capacity sb = 0" | (fit) "n \<le> sb_capacity sb" "sb_capacity sb \<noteq> 0" "sb_len sb \<noteq> 0"
    | (start) "sb_len sb = 0" "0 < n" | (blank) "sb_len sb = 0" "n = 0" "sb_capacity sb \<noteq> 0"
    | (more) "sb_len sb \<noteq> 0" "sb_len sb < n"
    using room by (cases "n = 0"; cases "sb_len sb = 0"; cases "sb_len sb < n")
      (auto simp: sb_room_def word_neq_0_conv split: if_splits)
  then show ?thesis
  proof cases
    case empty
    then show ?thesis using room assms by (simp add: d4np_sb_reserve_def sb_ensure_def sb_post_def sb_room_def)
  next
    case fit
    then show ?thesis using assms by (auto simp: d4np_sb_reserve_def sb_ensure_def sb_post_def)
  next
    case start
    show ?thesis
      by (cases rule: sb_ensure_terminate [OF assms start]) (auto simp: d4np_sb_reserve_def)
  next
    case blank
    then obtain sb' m' where c: "d4np_sb_clear (Some sb) m = Some (Some sb', m')" "sb_post A sb m [] D4NP_OK sb' m'"
      using sb_clear_ok [OF assms] by blast
    moreover have "sb\<lparr>sb_len := 0\<rparr> = sb" using blank by simp
    ultimately show ?thesis using blank b room
      by (auto simp: d4np_sb_reserve_def sb_ensure_def d4np_sb_clear_def sb_room_def sb_text_def split: if_splits bind_splits)
  next
    case more
    then show ?thesis using sb_ensure_ok [OF assms more(2)] room by (auto simp: d4np_sb_reserve_def sb_post_def sb_room_def split: if_splits)
  qed
qed

lemma sb_init_ok:
  assumes "wf_mem m" "allocator_or_default a = A"
  shows "\<exists>rc sb m'. d4np_sb_init (Some b) a n m = Some (rc, Some sb, m') \<and> wf_mem m' \<and> keeps (set (live m)) m m' \<and>
    sb_inv sb m' \<and> sb_allocator sb = Some A \<and> sb_text sb m' = [] \<and> sb_block sb \<notin> set (live m) \<and>
    (rc = D4NP_OK \<and> n \<le> sb_capacity sb \<or> rc = D4NP_ERR_OUT_OF_MEMORY)"
proof -
  let ?sb = "\<lparr>sb_allocator = Some A, sb_data = NULL, sb_len = 0, sb_capacity = 0\<rparr>"
  have inv: "sb_inv ?sb m" "sb_allocator ?sb = Some A" "sb_len ?sb = 0" "sb_text ?sb m = []"
    by (simp_all add: sb_inv_def sb_room_def sb_text_def)
  have fresh: "(0, 0) \<notin> set (live m)" using wf_block [OF assms(1), of 0] by auto
  show ?thesis
  proof (cases "0 < n")
    case False
    then have "n = 0" using word_gt_0 by blast
    then show ?thesis using assms inv fresh by (auto simp: d4np_sb_init_def sb_block_def)
  next
    case True
    show ?thesis
    proof (cases rule: sb_ensure_terminate [OF assms(1) inv(1,2,3) True])
      case (1 m')
      then show ?thesis using True assms(2) fresh by (simp add: d4np_sb_init_def sb_post_def inv(4)) (simp add: sb_block_def)
    next
      case (2 sb' m1)
      then show ?thesis using True assms(2) fresh by (simp add: d4np_sb_init_def sb_post_def inv(4)) (simp add: sb_block_def)
    qed
  qed
qed

lemma sb_destroy_ok:
  assumes "wf_mem m" "sb_inv sb m" "sb_allocator sb = Some A"
  shows "\<exists>sb' m'. d4np_sb_destroy (Some sb) m = Some (Some sb', m') \<and> wf_mem m' \<and> sb_data sb' = NULL \<and> sb_capacity sb' = 0 \<and>
    keeps (set (live m) - {sb_block sb}) m m' \<and> sb_block sb \<notin> set (live m')"
proof (cases "sb_capacity sb = 0")
  case True
  moreover have "(0, 0) \<notin> set (live m)" using wf_block [OF assms(1), of 0] by auto
  ultimately show ?thesis using assms by (auto simp: d4np_sb_destroy_def sb_inv_def sb_room_def sb_block_def)
next
  case False
  have room: "sb_room sb m" using assms(2) by (simp add: sb_inv_def)
  note b = sb_block_live [OF room False]
  then have "sb_data sb \<noteq> NULL" using wf_block [OF assms(1)] by blast
  moreover obtain m' where "d4np_free (Some A) (sb_data sb) (sb_capacity sb) m = Some m'" "wf_mem m'"
      "keeps (set (live m) - {sb_block sb}) m m'" "sb_block sb \<notin> set (live m')"
    unfolding sb_block_def by (rule free_cases [OF assms(1) b])
  ultimately show ?thesis using assms(3) by (simp add: d4np_sb_destroy_def)
qed

end

section \<open>Programs over a builder\<close>

datatype sb_op = Append d4np_str_view | Append_Char byte | Reserve size_t | Clear

fun sb_exec :: "sb_op \<Rightarrow> d4np_string_builder option \<Rightarrow> mem \<Rightarrow> (d4np_status \<times> d4np_string_builder option \<times> mem) option" where
  "sb_exec (Append v) b m = d4np_sb_append_view b v m"
| "sb_exec (Append_Char c) b m = d4np_sb_append_char b c m"
| "sb_exec (Reserve n) b m = d4np_sb_reserve b n m"
| "sb_exec Clear b m = map_option (\<lambda>(b', m'). (D4NP_OK, b', m')) (d4np_sb_clear b m)"

fun sb_run :: "sb_op list \<Rightarrow> d4np_string_builder option \<Rightarrow> mem \<Rightarrow> (d4np_status list \<times> d4np_string_builder option \<times> mem) option" where
  "sb_run [] b m = Some ([], b, m)"
| "sb_run (q # qs) b m = do {
     (rc, b1, m1) \<leftarrow> sb_exec q b m;
     (rcs, b2, m2) \<leftarrow> sb_run qs b1 m1;
     Some (rc # rcs, b2, m2) }"

text \<open>What a builder promises: the text is a byte list, and an operation that reports an error does nothing.\<close>

fun sb_spec :: "mem \<Rightarrow> sb_op \<Rightarrow> byte list \<Rightarrow> byte list" where
  "sb_spec m (Append v) s = s @ sv_bytes m v"
| "sb_spec m (Append_Char c) s = s @ [c]"
| "sb_spec m (Reserve n) s = s"
| "sb_spec m Clear s = []"

definition sb_spec_run :: "mem \<Rightarrow> (sb_op \<times> d4np_status) list \<Rightarrow> byte list \<Rightarrow> byte list" where
  "sb_spec_run m = fold (\<lambda>(q, rc) s. if rc = D4NP_OK then sb_spec m q s else s)"

fun sb_op_ok :: "mem \<Rightarrow> ptr \<times> nat \<Rightarrow> sb_op \<Rightarrow> bool" where
  "sb_op_ok m b (Append v) \<longleftrightarrow> sv_len v = 0 \<or> outside m {b} (sv_ptr v) (unat (sv_len v))"
| "sb_op_ok m b _ \<longleftrightarrow> True"

lemma sb_op_ok_keeps:
  assumes "keeps (set (live m) - {b}) m m'" "b' \<notin> set (live m) - {b}" "sb_op_ok m b q"
  shows "sb_op_ok m' b' q" "sb_spec m' q = sb_spec m q"
proof -
  show "sb_op_ok m' b' q" using assms(2,3) keeps_subset [OF assms(1)] by (cases q) (fastforce simp: outside_def)+
  show "sb_spec m' q = sb_spec m q"
    using outside_keeps(1) [OF _ assms(1)] assms(3) by (cases q) (auto simp: fun_eq_iff sv_bytes_def)
qed

context allocator_contract
begin

lemma sb_exec_ok:
  assumes "wf_mem m" "sb_inv sb m" "sb_allocator sb = Some A" "sb_op_ok m (sb_block sb) q"
  shows "\<exists>rc sb' m'. sb_exec q (Some sb) m = Some (rc, Some sb', m') \<and> sb_post A sb m (sb_spec m q (sb_text sb m)) rc sb' m'"
proof (cases q)
  case (Append v)
  then show ?thesis using sb_append_view_ok [OF assms(1-3), of v] assms(4) by simp
next
  case (Append_Char c)
  then show ?thesis using sb_append_char_ok [OF assms(1-3)] by simp
next
  case (Reserve n)
  then show ?thesis using sb_reserve_ok [OF assms(1-3), of n] by auto
next
  case Clear
  then show ?thesis using sb_clear_ok [OF assms(1-3)] by auto
qed

lemma sb_run_ok:
  assumes "wf_mem m" "sb_inv sb m" "sb_allocator sb = Some A" "\<forall>q \<in> set qs. sb_op_ok m (sb_block sb) q"
  shows "\<exists>rcs sb' m'. sb_run qs (Some sb) m = Some (rcs, Some sb', m') \<and> length rcs = length qs \<and>
    set rcs \<subseteq> {D4NP_OK, D4NP_ERR_OUT_OF_MEMORY, D4NP_ERR_OVERFLOW} \<and> wf_mem m' \<and> sb_inv sb' m' \<and> sb_allocator sb' = Some A \<and>
    keeps (set (live m) - {sb_block sb}) m m' \<and> sb_text sb' m' = sb_spec_run m (zip qs rcs) (sb_text sb m)"
  using assms
proof (induction qs arbitrary: sb m)
  case Nil
  then show ?case by (auto simp: sb_spec_run_def)
next
  case (Cons q qs)
  have "sb_op_ok m (sb_block sb) q" using Cons.prems(4) by simp
  from sb_exec_ok [OF Cons.prems(1-3) this] obtain rc sb1 m1 where
    1: "sb_exec q (Some sb) m = Some (rc, Some sb1, m1)" "sb_post A sb m (sb_spec m q (sb_text sb m)) rc sb1 m1" by blast
  then have p: "wf_mem m1" "sb_inv sb1 m1" "sb_allocator sb1 = Some A" "keeps (set (live m) - {sb_block sb}) m m1"
      "sb_block sb1 \<notin> set (live m) - {sb_block sb}" "rc \<in> {D4NP_OK, D4NP_ERR_OUT_OF_MEMORY, D4NP_ERR_OVERFLOW}"
      "sb_text sb1 m1 = (if rc = D4NP_OK then sb_spec m q (sb_text sb m) else sb_text sb m)"
    by (auto simp: sb_post_def)
  have ok: "\<forall>q \<in> set qs. sb_op_ok m1 (sb_block sb1) q" and eq: "\<forall>q \<in> set qs. sb_spec m1 q = sb_spec m q"
    using sb_op_ok_keeps [OF p(4,5)] Cons.prems(4) by auto
  from Cons.IH [OF p(1-3) ok] obtain rcs sb2 m2 where
    2: "sb_run qs (Some sb1) m1 = Some (rcs, Some sb2, m2)" "length rcs = length qs"
      "set rcs \<subseteq> {D4NP_OK, D4NP_ERR_OUT_OF_MEMORY, D4NP_ERR_OVERFLOW}" "wf_mem m2" "sb_inv sb2 m2" "sb_allocator sb2 = Some A"
      "keeps (set (live m1) - {sb_block sb1}) m1 m2" "sb_text sb2 m2 = sb_spec_run m1 (zip qs rcs) (sb_text sb1 m1)" by blast
  have "sb_spec_run m1 (zip qs rcs) s = sb_spec_run m (zip qs rcs) s" for s
    unfolding sb_spec_run_def by (intro fold_cong) (use eq in \<open>auto simp: fun_eq_iff dest!: set_zip_leftD\<close>)
  moreover have "keeps (set (live m) - {sb_block sb}) m m2"
    using keeps_subset [OF p(4)] p(5) by (intro keeps_trans [OF p(4) keeps_mono [OF 2(7)]]) auto
  ultimately show ?case using 1 2 p by (auto simp: sb_spec_run_def)
qed

end

section \<open>Properties\<close>

text \<open>C22: from a well-formed builder, any sequence of appends (of bytes stored outside the builder's own
  buffer), reservations and clears runs without undefined behaviour for every allocator that keeps
  the contract; the final text is what the successful operations spell, a failed operation changes
  nothing, and every other live object is kept.\<close>

theorem sb_builds_text:
  assumes "allocator_contract A" "wf_mem m" "sb_inv sb m" "sb_allocator sb = Some A" "\<forall>q \<in> set qs. sb_op_ok m (sb_block sb) q"
  shows "\<exists>rcs sb' m'. sb_run qs (Some sb) m = Some (rcs, Some sb', m') \<and> length rcs = length qs \<and>
    set rcs \<subseteq> {D4NP_OK, D4NP_ERR_OUT_OF_MEMORY, D4NP_ERR_OVERFLOW} \<and> wf_mem m' \<and> sb_inv sb' m' \<and> sb_allocator sb' = Some A \<and>
    keeps (set (live m) - {sb_block sb}) m m' \<and> sb_text sb' m' = sb_spec_run m (zip qs rcs) (sb_text sb m)"
  using assms by (rule allocator_contract.sb_run_ok)

definition sb_ex :: d4np_string_builder where
  "sb_ex = \<lparr>sb_allocator = Some d4np_allocator_default, sb_data = NULL, sb_len = 0, sb_capacity = 0\<rparr>"

definition sb_ex_mem :: mem where
  "sb_ex_mem = \<lparr>bytes = (\<lambda>_. 97), live = [(32, 8)], place = (\<lambda>_. 1024), tick = 0\<rparr>"

lemma sb_ex_facts: "wf_mem sb_ex_mem" "sb_inv sb_ex sb_ex_mem" "sb_allocator sb_ex = Some d4np_allocator_default"
  by (simp_all add: wf_mem_def sb_ex_mem_def sb_ex_def sb_inv_def sb_room_def ADDR_LIMIT_def)

theorem sb_builds_text_witness:
  "\<exists>rcs sb' m'. sb_run [Append \<lparr>sv_ptr = 32, sv_len = 2\<rparr>, Append_Char 98] (Some sb_ex) sb_ex_mem = Some (rcs, Some sb', m') \<and>
    (rcs = [D4NP_OK, D4NP_OK] \<longrightarrow> sb_text sb' m' = [97, 97, 98])"
proof -
  have "\<forall>q \<in> set [Append \<lparr>sv_ptr = 32, sv_len = 2\<rparr>, Append_Char 98]. sb_op_ok sb_ex_mem (sb_block sb_ex) q"
    by (simp add: outside_def sb_ex_mem_def sb_ex_def sb_block_def)
  from sb_builds_text [OF default_allocator.allocator_contract_axioms sb_ex_facts this] obtain rcs sb' m' where
    "sb_run [Append \<lparr>sv_ptr = 32, sv_len = 2\<rparr>, Append_Char 98] (Some sb_ex) sb_ex_mem = Some (rcs, Some sb', m')"
    "sb_text sb' m' = sb_spec_run sb_ex_mem (zip [Append \<lparr>sv_ptr = 32, sv_len = 2\<rparr>, Append_Char 98] rcs) (sb_text sb_ex sb_ex_mem)"
    by blast
  moreover have "sb_text sb_ex sb_ex_mem = []" "sv_bytes sb_ex_mem \<lparr>sv_ptr = 32, sv_len = 2\<rparr> = [97, 97]"
    by (simp_all add: sv_bytes_def sb_text_def peek_def sb_ex_mem_def sb_ex_def upt_rec)
  ultimately show ?thesis by (simp add: sb_spec_run_def)
qed

text \<open>\<open>d4np_sb_cstr\<close> of a well-formed builder is always a NUL-terminated string: the text itself when
  it has no zero byte, the empty literal before the first allocation; \<open>d4np_sb_view\<close> always shows
  exactly the text, zero bytes included.\<close>

theorem sb_cstr_terminated:
  assumes "wf_mem m" "sb_inv sb m" "cstr m lit []"
  shows "(0 \<notin> set (sb_text sb m) \<longrightarrow> cstr m (d4np_sb_cstr lit (Some sb)) (sb_text sb m)) \<and>
    (\<exists>n \<le> length (sb_text sb m). strlen (d4np_sb_cstr lit (Some sb)) m = Some n) \<and>
    sv_bytes m (d4np_sb_view (Some sb)) = sb_text sb m \<and> d4np_sb_len (Some sb) = of_nat (length (sb_text sb m))"
proof -
  let ?p = "d4np_sb_cstr lit (Some sb)"
  have room: "sb_room sb m" using assms(2) by (simp add: sb_inv_def)
  have len: "length (sb_text sb m) = unat (sb_len sb)" by (simp add: sb_text_def)
  have null: "sb_data sb = NULL \<longleftrightarrow> sb_capacity sb = 0"
    using room wf_block [OF assms(1) sb_block_live [OF room]] by (cases "sb_capacity sb = 0") (auto simp: sb_room_def)
  have view: "sv_bytes m (d4np_sb_view (Some sb)) = sb_text sb m" "d4np_sb_len (Some sb) = of_nat (length (sb_text sb m))"
    using room null
    by (auto simp: d4np_sb_view_def d4np_str_view_from_buf_def sv_bytes_def sb_text_def sb_room_def d4np_sb_len_def)
  show ?thesis
  proof (cases "sb_capacity sb = 0")
    case True
    then have "?p = lit" "sb_text sb m = []" using room by (simp_all add: d4np_sb_cstr_def sb_room_def sb_text_def)
    then show ?thesis using view assms(3) strlen_cstr [OF assms(3)] by simp
  next
    case False
    note b = sb_block_live [OF room False]
    have p: "?p = sb_data sb" using wf_block [OF assms(1) b] by (simp add: d4np_sb_cstr_def)
    have lt: "unat (sb_len sb) < unat (sb_capacity sb)" using room False by (simp add: sb_room_def word_less_nat_alt)
    have nul: "bytes m (sb_data sb + unat (sb_len sb)) = 0" using assms(2) False by (simp add: sb_inv_def)
    define k where "k = (LEAST i. bytes m (sb_data sb + i) = 0)"
    have k: "bytes m (sb_data sb + k) = 0" "k \<le> unat (sb_len sb)" "\<forall>i < k. bytes m (sb_data sb + i) \<noteq> 0"
      unfolding k_def using LeastI [of "\<lambda>i. bytes m (sb_data sb + i) = 0", OF nul]
        Least_le [of "\<lambda>i. bytes m (sb_data sb + i) = 0", OF nul] not_less_Least by auto
    have "cstr m (sb_data sb) (peek m (sb_data sb) k)"
      using validI [OF b, of "sb_data sb" "k + 1"] k lt peek_append [of m "sb_data sb" k 1]
      by (auto simp: cstr_def in_set_conv_nth peek_Suc)
    then have "strlen ?p m = Some k" using strlen_cstr p by fastforce
    moreover have "cstr m ?p (sb_text sb m)" if "0 \<notin> set (sb_text sb m)"
      using that validI [OF b, of "sb_data sb" "unat (sb_len sb) + 1"] lt nul
        peek_append [of m "sb_data sb" "unat (sb_len sb)" 1] p by (simp add: cstr_def sb_text_def peek_Suc)
    ultimately show ?thesis using view k(2) len by auto
  qed
qed

theorem sb_cstr_terminated_witness:
  "cstr (sb_ex_mem\<lparr>bytes := (\<lambda>_. 0)\<rparr>) (d4np_sb_cstr 33 (Some sb_ex)) []"
proof -
  have "wf_mem (sb_ex_mem\<lparr>bytes := (\<lambda>_. 0)\<rparr>)" "sb_inv sb_ex (sb_ex_mem\<lparr>bytes := (\<lambda>_. 0)\<rparr>)" "cstr (sb_ex_mem\<lparr>bytes := (\<lambda>_. 0)\<rparr>) 33 []"
      "sb_text sb_ex (sb_ex_mem\<lparr>bytes := (\<lambda>_. 0)\<rparr>) = []"
    by (simp_all add: wf_mem_def sb_ex_mem_def sb_ex_def sb_inv_def sb_room_def sb_text_def ADDR_LIMIT_def cstr_Nil valid_def)
  with sb_cstr_terminated [of "sb_ex_mem\<lparr>bytes := (\<lambda>_. 0)\<rparr>" sb_ex 33] show ?thesis by simp
qed

text \<open>For every allocator that keeps the contract, \<open>d4np_sb_init\<close> gives an empty well-formed builder
  with at least the requested capacity (or an empty one and OUT_OF_MEMORY), and destroying it
  returns its buffer and nothing else.\<close>

theorem sb_lifecycle:
  assumes "allocator_contract A" "wf_mem m" "allocator_or_default a = A"
  shows "\<exists>rc sb m1. d4np_sb_init (Some b) a n m = Some (rc, Some sb, m1) \<and> sb_inv sb m1 \<and> sb_text sb m1 = [] \<and>
    (rc = D4NP_OK \<and> n \<le> sb_capacity sb \<or> rc = D4NP_ERR_OUT_OF_MEMORY) \<and>
    (\<exists>sb' m2. d4np_sb_destroy (Some sb) m1 = Some (Some sb', m2) \<and> wf_mem m2 \<and> sb_data sb' = NULL \<and>
       keeps (set (live m)) m m2 \<and> sb_block sb \<notin> set (live m2))"
proof -
  from allocator_contract.sb_init_ok [OF assms] obtain rc sb m1 where
    1: "d4np_sb_init (Some b) a n m = Some (rc, Some sb, m1)" "wf_mem m1" "keeps (set (live m)) m m1" "sb_inv sb m1"
      "sb_allocator sb = Some A" "sb_text sb m1 = []" "sb_block sb \<notin> set (live m)"
      "rc = D4NP_OK \<and> n \<le> sb_capacity sb \<or> rc = D4NP_ERR_OUT_OF_MEMORY" by blast
  from allocator_contract.sb_destroy_ok [OF assms(1) 1(2,4,5)] obtain sb' m2 where
    2: "d4np_sb_destroy (Some sb) m1 = Some (Some sb', m2)" "wf_mem m2" "sb_data sb' = NULL"
      "keeps (set (live m1) - {sb_block sb}) m1 m2" "sb_block sb \<notin> set (live m2)" by blast
  have "keeps (set (live m)) m m2"
    using keeps_subset [OF 1(3)] 1(7) by (intro keeps_trans [OF 1(3) keeps_mono [OF 2(4)]]) auto
  with 1 2 show ?thesis by (intro exI [of _ rc] exI [of _ sb] exI [of _ m1]) auto
qed

theorem sb_lifecycle_witness:
  "\<exists>rc sb m1. d4np_sb_init (Some sb_ex) None 20 sb_ex_mem = Some (rc, Some sb, m1) \<and> sb_text sb m1 = []"
  using sb_lifecycle [OF default_allocator.allocator_contract_axioms sb_ex_facts(1), of None sb_ex 20] by auto

end
