(* ===== verification/Linked_List.thy ===== *)
theory Linked_List
  imports Memory
begin

text \<open>
  The intrusive doubly-linked list (\<open>ds/linked_list.h\<close>, \<open>ds/linked_list.c\<close>). The nodes live in the caller's
  structures, so they are kept in an explicit store from addresses to nodes: an access through a
  pointer that designates no node is undefined (\<open>None\<close>), and aliasing (a list whose neighbours are
  both the sentinel, for instance) is that of the code. The sentinel embedded in the list is the
  node at the address \<open>ll_sentinel\<close>. The list is shown to be a double-ended sequence of nodes with
  removal from the middle.
\<close>

section \<open>Definitions\<close>

record d4np_list_node =
  ln_prev :: ptr
  ln_next :: ptr

record d4np_linked_list =
  ll_sentinel :: ptr
  ll_len :: size_t

type_synonym node_heap = "ptr \<Rightarrow> d4np_list_node option"

definition set_prev :: "ptr \<Rightarrow> ptr \<Rightarrow> node_heap \<Rightarrow> node_heap option" where
  "set_prev p v h = do { n \<leftarrow> h p; Some (h(p \<mapsto> n\<lparr>ln_prev := v\<rparr>)) }"

definition set_next :: "ptr \<Rightarrow> ptr \<Rightarrow> node_heap \<Rightarrow> node_heap option" where
  "set_next p v h = do { n \<leftarrow> h p; Some (h(p \<mapsto> n\<lparr>ln_next := v\<rparr>)) }"

definition link_between :: "ptr \<Rightarrow> ptr \<Rightarrow> ptr \<Rightarrow> node_heap \<Rightarrow> node_heap option" where
  "link_between node prev next h = do {
     h1 \<leftarrow> set_prev node prev h;
     h2 \<leftarrow> set_next node next h1;
     h3 \<leftarrow> set_next prev node h2;
     set_prev next node h3 }"

definition unlink :: "ptr \<Rightarrow> node_heap \<Rightarrow> node_heap option" where
  "unlink node h = do {
     n \<leftarrow> h node;
     h1 \<leftarrow> set_next (ln_prev n) (ln_next n) h;
     n1 \<leftarrow> h1 node;
     h2 \<leftarrow> set_prev (ln_next n1) (ln_prev n1) h1;
     h3 \<leftarrow> set_prev node NULL h2;
     set_next node NULL h3 }"

definition d4np_linked_list_init :: "d4np_linked_list option \<Rightarrow> node_heap \<Rightarrow> (d4np_linked_list option \<times> node_heap) option" where
  "d4np_linked_list_init l h =
     (case l of
        None \<Rightarrow> Some (None, h)
      | Some list \<Rightarrow> do {
          h1 \<leftarrow> set_next (ll_sentinel list) (ll_sentinel list) h;
          h2 \<leftarrow> set_prev (ll_sentinel list) (ll_sentinel list) h1;
          Some (Some (list\<lparr>ll_len := 0\<rparr>), h2) })"

definition d4np_linked_list_push_front ::
  "d4np_linked_list option \<Rightarrow> ptr \<Rightarrow> node_heap \<Rightarrow> (d4np_linked_list option \<times> node_heap) option" where
  "d4np_linked_list_push_front l node h =
     (case l of
        None \<Rightarrow> Some (None, h)
      | Some list \<Rightarrow>
          if node = NULL then Some (Some list, h)
          else do {
            s \<leftarrow> h (ll_sentinel list);
            h1 \<leftarrow> link_between node (ll_sentinel list) (ln_next s) h;
            Some (Some (list\<lparr>ll_len := ll_len list + 1\<rparr>), h1) })"

definition d4np_linked_list_push_back ::
  "d4np_linked_list option \<Rightarrow> ptr \<Rightarrow> node_heap \<Rightarrow> (d4np_linked_list option \<times> node_heap) option" where
  "d4np_linked_list_push_back l node h =
     (case l of
        None \<Rightarrow> Some (None, h)
      | Some list \<Rightarrow>
          if node = NULL then Some (Some list, h)
          else do {
            s \<leftarrow> h (ll_sentinel list);
            h1 \<leftarrow> link_between node (ln_prev s) (ll_sentinel list) h;
            Some (Some (list\<lparr>ll_len := ll_len list + 1\<rparr>), h1) })"

definition d4np_linked_list_pop_front ::
  "d4np_linked_list option \<Rightarrow> node_heap \<Rightarrow> (ptr \<times> d4np_linked_list option \<times> node_heap) option" where
  "d4np_linked_list_pop_front l h =
     (case l of
        None \<Rightarrow> Some (NULL, None, h)
      | Some list \<Rightarrow>
          if ll_len list = 0 then Some (NULL, Some list, h)
          else do {
            s \<leftarrow> h (ll_sentinel list);
            let node = ln_next s;
            h1 \<leftarrow> unlink node h;
            Some (node, Some (list\<lparr>ll_len := ll_len list - 1\<rparr>), h1) })"

definition d4np_linked_list_pop_back ::
  "d4np_linked_list option \<Rightarrow> node_heap \<Rightarrow> (ptr \<times> d4np_linked_list option \<times> node_heap) option" where
  "d4np_linked_list_pop_back l h =
     (case l of
        None \<Rightarrow> Some (NULL, None, h)
      | Some list \<Rightarrow>
          if ll_len list = 0 then Some (NULL, Some list, h)
          else do {
            s \<leftarrow> h (ll_sentinel list);
            let node = ln_prev s;
            h1 \<leftarrow> unlink node h;
            Some (node, Some (list\<lparr>ll_len := ll_len list - 1\<rparr>), h1) })"

definition d4np_linked_list_remove ::
  "d4np_linked_list option \<Rightarrow> ptr \<Rightarrow> node_heap \<Rightarrow> (d4np_linked_list option \<times> node_heap) option" where
  "d4np_linked_list_remove l node h =
     (case l of
        None \<Rightarrow> Some (None, h)
      | Some list \<Rightarrow>
          if node = NULL \<or> ll_len list = 0 then Some (Some list, h)
          else do {
            h1 \<leftarrow> unlink node h;
            Some (Some (list\<lparr>ll_len := ll_len list - 1\<rparr>), h1) })"

definition d4np_linked_list_front :: "d4np_linked_list option \<Rightarrow> node_heap \<Rightarrow> ptr option" where
  "d4np_linked_list_front l h =
     (case l of
        None \<Rightarrow> Some NULL
      | Some list \<Rightarrow> if ll_len list = 0 then Some NULL else do { s \<leftarrow> h (ll_sentinel list); Some (ln_next s) })"

definition d4np_linked_list_back :: "d4np_linked_list option \<Rightarrow> node_heap \<Rightarrow> ptr option" where
  "d4np_linked_list_back l h =
     (case l of
        None \<Rightarrow> Some NULL
      | Some list \<Rightarrow> if ll_len list = 0 then Some NULL else do { s \<leftarrow> h (ll_sentinel list); Some (ln_prev s) })"

definition d4np_linked_list_is_empty :: "d4np_linked_list option \<Rightarrow> bool" where
  "d4np_linked_list_is_empty l = (case l of None \<Rightarrow> True | Some list \<Rightarrow> ll_len list = 0)"

definition d4np_linked_list_len :: "d4np_linked_list option \<Rightarrow> size_t" where
  "d4np_linked_list_len l = (case l of None \<Rightarrow> 0 | Some list \<Rightarrow> ll_len list)"

text \<open>The nodes \<open>D4NP_LIST_FOR_EACH\<close> visits, from \<open>node\<close> until it is back at the sentinel.\<close>

partial_function (option) for_each_from :: "ptr \<Rightarrow> ptr \<Rightarrow> node_heap \<Rightarrow> ptr list option" where
  "for_each_from sentinel node h =
     (if node = sentinel then Some []
      else do { n \<leftarrow> h node; xs \<leftarrow> for_each_from sentinel (ln_next n) h; Some (node # xs) })"

definition D4NP_LIST_FOR_EACH :: "d4np_linked_list \<Rightarrow> node_heap \<Rightarrow> ptr list option" where
  "D4NP_LIST_FOR_EACH list h = do { s \<leftarrow> h (ll_sentinel list); for_each_from (ll_sentinel list) (ln_next s) h }"

section \<open>The links of a circular list\<close>

definition nx :: "node_heap \<Rightarrow> ptr \<Rightarrow> ptr" where
  "nx h p = (case h p of None \<Rightarrow> NULL | Some n \<Rightarrow> ln_next n)"

definition pv :: "node_heap \<Rightarrow> ptr \<Rightarrow> ptr" where
  "pv h p = (case h p of None \<Rightarrow> NULL | Some n \<Rightarrow> ln_prev n)"

text \<open>The pairs of neighbours of the list \<open>xs\<close> anchored at \<open>s\<close>, the sentinel closing the circle.\<close>

definition links :: "ptr \<Rightarrow> ptr list \<Rightarrow> (ptr \<times> ptr) set" where
  "links s xs = set (zip (s # xs) (xs @ [s]))"

definition linked :: "node_heap \<Rightarrow> (ptr \<times> ptr) set \<Rightarrow> bool" where
  "linked h E \<longleftrightarrow> (\<forall>(u, v) \<in> E. u \<in> dom h \<and> v \<in> dom h \<and> nx h u = v \<and> pv h v = u)"

text \<open>\<open>ll_is l h xs\<close>: the list structure \<open>l\<close> holds the nodes \<open>xs\<close>, in this order.\<close>

definition ll_is :: "d4np_linked_list \<Rightarrow> node_heap \<Rightarrow> ptr list \<Rightarrow> bool" where
  "ll_is l h xs \<longleftrightarrow> linked h (links (ll_sentinel l) xs) \<and> distinct (ll_sentinel l # xs) \<and>
     unat (ll_len l) = length xs \<and> NULL \<notin> set xs"

lemma zip_last: "zip (s # xs) (xs @ [b]) = zip (s # xs) xs @ [(last (s # xs), b)]"
  by (induction xs arbitrary: s) auto

lemma zip_first: "zip (a # ys) (ys @ [s]) = (a, hd (ys @ [s])) # zip ys (tl (ys @ [s]))"
  by (cases ys) auto

text \<open>The links around a position, without and with a node there.\<close>

lemma links_app:
  "links s (xs @ ys) = set (zip (s # xs) xs) \<union> {(last (s # xs), hd (ys @ [s]))} \<union> set (zip ys (tl (ys @ [s])))"
  (is "?l = ?r")
proof -
  have "zip (s # xs @ ys) (xs @ ys @ [t]) = zip (s # xs) xs @ zip (last (s # xs) # ys) (ys @ [t])" for t
    by (induction xs arbitrary: s) auto
  then show ?thesis by (auto simp: links_def zip_first)
qed

lemma links_mid:
  "links s (xs @ x # ys) = set (zip (s # xs) xs) \<union> {(last (s # xs), x), (x, hd (ys @ [s]))} \<union> set (zip ys (tl (ys @ [s])))"
  by (auto simp: links_app zip_first)

lemma links_fst: "fst ` links s xs = set (s # xs)" "snd ` links s xs = set (s # xs)"
  by (auto simp: links_def simp flip: set_map)

lemma links_unique:
  assumes "distinct (s # xs)" "(u, v) \<in> links s xs" "(u', v') \<in> links s xs"
  shows "u = u' \<longleftrightarrow> v = v'"
  using assms by (auto simp: links_def in_set_zip nth_eq_iff_index_eq [of "s # xs"] nth_eq_iff_index_eq [of "xs @ [s]"])

section \<open>Splicing\<close>

lemma set_next_ok:
  assumes "p \<in> dom h"
  shows "\<exists>h'. set_next p v h = Some h' \<and> dom h' = dom h \<and> nx h' = (nx h)(p := v) \<and> pv h' = pv h \<and> (\<forall>a. a \<noteq> p \<longrightarrow> h' a = h a)"
  using assms by (intro exI [of _ "h(p \<mapsto> (the (h p))\<lparr>ln_next := v\<rparr>)"]) (auto simp: set_next_def nx_def pv_def fun_eq_iff)

lemma set_prev_ok:
  assumes "p \<in> dom h"
  shows "\<exists>h'. set_prev p v h = Some h' \<and> dom h' = dom h \<and> nx h' = nx h \<and> pv h' = (pv h)(p := v) \<and> (\<forall>a. a \<noteq> p \<longrightarrow> h' a = h a)"
  using assms by (intro exI [of _ "h(p \<mapsto> (the (h p))\<lparr>ln_prev := v\<rparr>)"]) (auto simp: set_prev_def nx_def pv_def fun_eq_iff)

lemma link_between_ok:
  assumes "x \<in> dom h" "p \<in> dom h" "n \<in> dom h"
  shows "\<exists>h'. link_between x p n h = Some h' \<and> dom h' = dom h \<and> nx h' = (nx h)(x := n, p := x) \<and>
    pv h' = (pv h)(x := p, n := x) \<and> (\<forall>a. a \<notin> {x, p, n} \<longrightarrow> h' a = h a)"
proof -
  from set_prev_ok [OF assms(1), of p] obtain h1 where 1: "set_prev x p h = Some h1" "dom h1 = dom h" "nx h1 = nx h"
    "pv h1 = (pv h)(x := p)" "\<forall>a. a \<noteq> x \<longrightarrow> h1 a = h a" by blast
  from set_next_ok [of x h1 n] 1(2) assms(1) obtain h2 where 2: "set_next x n h1 = Some h2" "dom h2 = dom h1"
    "nx h2 = (nx h1)(x := n)" "pv h2 = pv h1" "\<forall>a. a \<noteq> x \<longrightarrow> h2 a = h1 a" by auto
  from set_next_ok [of p h2 x] 1(2) 2(2) assms(2) obtain h3 where 3: "set_next p x h2 = Some h3" "dom h3 = dom h2"
    "nx h3 = (nx h2)(p := x)" "pv h3 = pv h2" "\<forall>a. a \<noteq> p \<longrightarrow> h3 a = h2 a" by auto
  from set_prev_ok [of n h3 x] 1(2) 2(2) 3(2) assms(3) obtain h4 where 4: "set_prev n x h3 = Some h4" "dom h4 = dom h3"
    "nx h4 = nx h3" "pv h4 = (pv h3)(n := x)" "\<forall>a. a \<noteq> n \<longrightarrow> h4 a = h3 a" by auto
  show ?thesis using 1 2 3 4 by (simp add: link_between_def)
qed

lemma node_at: "x \<in> dom h \<Longrightarrow> \<exists>n. h x = Some n \<and> ln_next n = nx h x \<and> ln_prev n = pv h x"
  by (auto simp: nx_def pv_def)

lemma unlink_ok:
  assumes "x \<in> dom h" "nx h x = n" "pv h x = p" "p \<in> dom h" "n \<in> dom h" "x \<noteq> p" "x \<noteq> n"
  shows "\<exists>h'. unlink x h = Some h' \<and> dom h' = dom h \<and> nx h' = (nx h)(p := n, x := NULL) \<and>
    pv h' = (pv h)(n := p, x := NULL) \<and> (\<forall>a. a \<notin> {x, p, n} \<longrightarrow> h' a = h a)"
proof -
  from set_next_ok [OF assms(4), of n] obtain h1 where 1: "set_next p n h = Some h1" "dom h1 = dom h" "pv h1 = pv h"
    "nx h1 = (nx h)(p := n)" "\<forall>a. a \<noteq> p \<longrightarrow> h1 a = h a" by blast
  from set_prev_ok [of n h1 p] 1(2) assms(5) obtain h2 where 2: "set_prev n p h1 = Some h2" "dom h2 = dom h1"
    "nx h2 = nx h1" "pv h2 = (pv h1)(n := p)" "\<forall>a. a \<noteq> n \<longrightarrow> h2 a = h1 a" by auto
  from set_prev_ok [of x h2 NULL] 1(2) 2(2) assms(1) obtain h3 where 3: "set_prev x NULL h2 = Some h3" "dom h3 = dom h2"
    "nx h3 = nx h2" "pv h3 = (pv h2)(x := NULL)" "\<forall>a. a \<noteq> x \<longrightarrow> h3 a = h2 a" by auto
  from set_next_ok [of x h3 NULL] 1(2) 2(2) 3(2) assms(1) obtain h4 where 4: "set_next x NULL h3 = Some h4" "dom h4 = dom h3"
    "nx h4 = (nx h3)(x := NULL)" "pv h4 = pv h3" "\<forall>a. a \<noteq> x \<longrightarrow> h4 a = h3 a" by auto
  from node_at [OF assms(1)] assms(2,3) obtain a where a: "h x = Some a" "ln_next a = n" "ln_prev a = p" by blast
  have "x \<in> dom h1" "nx h1 x = n" "pv h1 x = p" using 1 assms by simp_all
  with node_at [of x h1] obtain b where b: "h1 x = Some b" "ln_next b = n" "ln_prev b = p" by blast
  show ?thesis using 1 2 3 4 a b by (simp add: unlink_def)
qed

text \<open>Inserting a fresh node at a position of the list, and removing the node there.\<close>

lemma linkedD: "linked h E \<Longrightarrow> (u, v) \<in> E \<Longrightarrow> u \<in> dom h \<and> v \<in> dom h \<and> nx h u = v \<and> pv h v = u"
  by (auto simp: linked_def)

lemma links_around:
  assumes "distinct (s # xs @ x # ys)"
  obtains R p n where "p = last (s # xs)" "n = hd (ys @ [s])" "p \<in> set (s # xs @ ys)" "n \<in> set (s # xs @ ys)"
    "links s (xs @ ys) = insert (p, n) R" "links s (xs @ x # ys) = insert (p, x) (insert (x, n) R)"
    "\<forall>(u, v) \<in> R. u \<notin> {p, x} \<and> v \<notin> {n, x}"
proof -
  define p n R where defs: "p = last (s # xs)" "n = hd (ys @ [s])" "R = set (zip (s # xs) xs) \<union> set (zip ys (tl (ys @ [s])))"
  have E: "links s (xs @ ys) = insert (p, n) R" "links s (xs @ x # ys) = insert (p, x) (insert (x, n) R)"
    unfolding links_mid defs unfolding links_app by blast+
  have x: "u \<noteq> x \<and> v \<noteq> x" if "(u, v) \<in> R" for u v
  proof -
    have "u \<in> set (s # xs @ ys)" "v \<in> set (s # xs @ ys)"
      using that E(1) links_fst [of s "xs @ ys"] by (metis fst_conv snd_conv imageI insertCI)+
    with assms show ?thesis by auto
  qed
  have "u \<noteq> p \<and> v \<noteq> n" if "(u, v) \<in> R" for u v
    using links_unique [OF assms, of u v p x] links_unique [OF assms, of u v x n] x [OF that] that E(2) by auto
  moreover have "p \<in> set (s # xs @ ys)" "n \<in> set (s # xs @ ys)" by (cases ys; auto simp: defs)+
  ultimately show thesis using that [OF defs(1,2) _ _ E] x by blast
qed

lemma link_insert:
  assumes "linked h (links s (xs @ ys))" "distinct (s # xs @ x # ys)" "x \<in> dom h"
  shows "\<exists>h'. link_between x (last (s # xs)) (hd (ys @ [s])) h = Some h' \<and> linked h' (links s (xs @ x # ys)) \<and> dom h' = dom h \<and>
    (\<forall>a. a \<notin> set (s # xs @ x # ys) \<longrightarrow> h' a = h a)"
proof -
  obtain R p n where pn: "p = last (s # xs)" "n = hd (ys @ [s])" "p \<in> set (s # xs @ ys)" "n \<in> set (s # xs @ ys)"
    and E: "links s (xs @ ys) = insert (p, n) R" "links s (xs @ x # ys) = insert (p, x) (insert (x, n) R)"
    and R: "\<forall>(u, v) \<in> R. u \<notin> {p, x} \<and> v \<notin> {n, x}" by (rule links_around [OF assms(2)])
  have ne: "x \<noteq> p" "x \<noteq> n" using assms(2) pn(3,4) by auto
  have d: "p \<in> dom h" "n \<in> dom h" using assms(1) by (auto simp: linked_def E)
  from link_between_ok [OF assms(3) d] obtain h' where
    h': "link_between x p n h = Some h'" "dom h' = dom h" "nx h' = (nx h)(x := n, p := x)"
      "pv h' = (pv h)(x := p, n := x)" "\<forall>a. a \<notin> {x, p, n} \<longrightarrow> h' a = h a" by blast
  have "linked h' R" using assms(1) R by (fastforce simp: linked_def E h')
  moreover have "linked h' {(p, x), (x, n)}" using ne d assms(3) by (simp add: linked_def h')
  ultimately have "linked h' (links s (xs @ x # ys))" by (auto simp: linked_def E)
  moreover have "\<forall>a. a \<notin> set (s # xs @ x # ys) \<longrightarrow> h' a = h a" using h'(5) pn(3,4) by auto
  ultimately show ?thesis using h'(1,2) pn(1,2) by blast
qed

lemma link_remove:
  assumes "linked h (links s (xs @ x # ys))" "distinct (s # xs @ x # ys)"
  shows "\<exists>h'. unlink x h = Some h' \<and> linked h' (links s (xs @ ys)) \<and> dom h' = dom h \<and>
    (\<forall>a. a \<notin> set (s # xs @ x # ys) \<longrightarrow> h' a = h a)"
proof -
  obtain R p n where pn: "p = last (s # xs)" "n = hd (ys @ [s])" "p \<in> set (s # xs @ ys)" "n \<in> set (s # xs @ ys)"
    and E: "links s (xs @ ys) = insert (p, n) R" "links s (xs @ x # ys) = insert (p, x) (insert (x, n) R)"
    and R: "\<forall>(u, v) \<in> R. u \<notin> {p, x} \<and> v \<notin> {n, x}" by (rule links_around [OF assms(2)])
  have ne: "x \<noteq> p" "x \<noteq> n" using assms(2) pn(3,4) by auto
  have d: "x \<in> dom h" "nx h x = n" "pv h x = p" "p \<in> dom h" "n \<in> dom h" using assms(1) by (auto simp: linked_def E)
  from unlink_ok [OF d ne] obtain h' where
    h': "unlink x h = Some h'" "dom h' = dom h" "nx h' = (nx h)(p := n, x := NULL)"
      "pv h' = (pv h)(n := p, x := NULL)" "\<forall>a. a \<notin> {x, p, n} \<longrightarrow> h' a = h a" by blast
  have "linked h' R" using assms(1) R by (fastforce simp: linked_def E h')
  moreover have "linked h' {(p, n)}" using ne d by (simp add: linked_def h')
  ultimately have "linked h' (links s (xs @ ys))" by (auto simp: linked_def E)
  moreover have "\<forall>a. a \<notin> set (s # xs @ x # ys) \<longrightarrow> h' a = h a" using h'(5) pn(3,4) by auto
  ultimately show ?thesis using h'(1,2) by blast
qed

section \<open>Operations\<close>

lemma ll_ends:
  assumes "ll_is l h xs"
  shows "\<exists>n. h (ll_sentinel l) = Some n \<and> ln_next n = hd (xs @ [ll_sentinel l]) \<and> ln_prev n = last (ll_sentinel l # xs)"
proof -
  let ?s = "ll_sentinel l"
  have "(?s, hd (xs @ [?s])) \<in> links ?s xs" using links_app [of ?s "[]" xs] by simp
  moreover have "(last (?s # xs), ?s) \<in> links ?s xs" using links_app [of ?s xs "[]"] by simp
  ultimately have "?s \<in> dom h" "nx h ?s = hd (xs @ [?s])" "pv h ?s = last (?s # xs)"
    using assms linkedD [of h "links ?s xs"] unfolding ll_is_def by blast+
  with node_at [of ?s h] show ?thesis by auto
qed

text \<open>Nodes have distinct addresses below the limit of the address space, so the counter never wraps.\<close>

definition heap_ok :: "node_heap \<Rightarrow> bool" where
  "heap_ok h \<longleftrightarrow> dom h \<subseteq> {1..<ADDR_LIMIT}"

lemma ll_count:
  assumes "heap_ok h" "distinct (x # xs)" "set (x # xs) \<subseteq> dom h" "unat n = length xs"
  shows "unat (n + 1 :: size_t) = length (x # xs)"
proof -
  have "card (set (x # xs)) \<le> card {1..<ADDR_LIMIT}"
    using assms(1,3) by (intro card_mono) (auto simp: heap_ok_def)
  then have "length (x # xs) \<le> ADDR_LIMIT - 1" using distinct_card [OF assms(2)] by simp
  then have "unat n < 2 ^ 63" using assms(4) by (simp add: ADDR_LIMIT_def)
  then show ?thesis using unat_add_exact [of n 1] assms(4) by simp
qed

lemma linked_dom:
  assumes "linked h (links s xs)"
  shows "set (s # xs) \<subseteq> dom h"
proof
  fix u assume "u \<in> set (s # xs)"
  then have "u \<in> fst ` links s xs" by (simp only: links_fst)
  then obtain v where "(u, v) \<in> links s xs" by force
  with linkedD [OF assms] show "u \<in> dom h" by blast
qed

lemma ll_insert:
  assumes "heap_ok h" "ll_is l h (xs @ ys)" "x \<in> dom h" "x \<notin> set (ll_sentinel l # xs @ ys)"
  shows "\<exists>h'. link_between x (last (ll_sentinel l # xs)) (hd (ys @ [ll_sentinel l])) h = Some h' \<and>
    ll_is (l\<lparr>ll_len := ll_len l + 1\<rparr>) h' (xs @ x # ys) \<and> dom h' = dom h \<and>
    (\<forall>a. a \<notin> set (ll_sentinel l # xs @ x # ys) \<longrightarrow> h' a = h a)"
proof -
  have l: "linked h (links (ll_sentinel l) (xs @ ys))" "distinct (ll_sentinel l # xs @ ys)" "unat (ll_len l) = length (xs @ ys)"
    "NULL \<notin> set (xs @ ys)" using assms(2) by (simp_all add: ll_is_def)
  have d: "distinct (ll_sentinel l # xs @ x # ys)" using l(2) assms(4) by auto
  have "x \<noteq> NULL" using assms(1,3) by (auto simp: heap_ok_def)
  moreover have "unat (ll_len l + 1) = length (x # xs @ ys)"
    using ll_count [OF assms(1), of x "xs @ ys"] l linked_dom [OF l(1)] assms(3,4) by auto
  ultimately show ?thesis using link_insert [OF l(1) d assms(3)] d l(4) by (auto simp: ll_is_def)
qed

lemma ll_delete:
  assumes "ll_is l h (xs @ x # ys)"
  shows "\<exists>h'. unlink x h = Some h' \<and> ll_is (l\<lparr>ll_len := ll_len l - 1\<rparr>) h' (xs @ ys) \<and> dom h' = dom h \<and>
    (\<forall>a. a \<notin> set (ll_sentinel l # xs @ x # ys) \<longrightarrow> h' a = h a)"
proof -
  have l: "linked h (links (ll_sentinel l) (xs @ x # ys))" "distinct (ll_sentinel l # xs @ x # ys)"
    "unat (ll_len l) = Suc (length (xs @ ys))" using assms by (simp_all add: ll_is_def)
  have "unat (ll_len l - 1) = length (xs @ ys)" using l(3) unat_sub_exact [of 1 "ll_len l"] by (simp add: word_le_nat_alt)
  then show ?thesis using link_remove [OF l(1,2)] assms by (auto simp: ll_is_def)
qed

text \<open>The five operations on the sequence of nodes; \<open>set (N)\<close> are the addresses of the caller's nodes.\<close>

datatype ll_op = Push_Front ptr | Push_Back ptr | Pop_Front | Pop_Back | Remove ptr

fun ll_exec :: "ll_op \<Rightarrow> d4np_linked_list option \<Rightarrow> node_heap \<Rightarrow> (ptr \<times> d4np_linked_list option \<times> node_heap) option" where
  "ll_exec (Push_Front x) l h = map_option (Pair NULL) (d4np_linked_list_push_front l x h)"
| "ll_exec (Push_Back x) l h = map_option (Pair NULL) (d4np_linked_list_push_back l x h)"
| "ll_exec Pop_Front l h = d4np_linked_list_pop_front l h"
| "ll_exec Pop_Back l h = d4np_linked_list_pop_back l h"
| "ll_exec (Remove x) l h = map_option (Pair NULL) (d4np_linked_list_remove l x h)"

fun ll_spec :: "ll_op \<Rightarrow> ptr list \<Rightarrow> ptr \<times> ptr list" where
  "ll_spec (Push_Front x) xs = (NULL, x # xs)"
| "ll_spec (Push_Back x) xs = (NULL, xs @ [x])"
| "ll_spec Pop_Front xs = (case xs of [] \<Rightarrow> (NULL, []) | y # ys \<Rightarrow> (y, ys))"
| "ll_spec Pop_Back xs = (if xs = [] then (NULL, []) else (last xs, butlast xs))"
| "ll_spec (Remove x) xs = (NULL, remove1 x xs)"

fun ll_legal :: "ptr list \<Rightarrow> ll_op \<Rightarrow> ptr list \<Rightarrow> bool" where
  "ll_legal N (Push_Front x) xs \<longleftrightarrow> x \<in> set N \<and> x \<notin> set xs"
| "ll_legal N (Push_Back x) xs \<longleftrightarrow> x \<in> set N \<and> x \<notin> set xs"
| "ll_legal N (Remove x) xs \<longleftrightarrow> x \<in> set xs"
| "ll_legal N _ xs \<longleftrightarrow> True"

fun ll_run :: "ll_op list \<Rightarrow> d4np_linked_list option \<Rightarrow> node_heap \<Rightarrow> (ptr list \<times> d4np_linked_list option \<times> node_heap) option" where
  "ll_run [] l h = Some ([], l, h)"
| "ll_run (q # qs) l h = do {
     (r, l1, h1) \<leftarrow> ll_exec q l h;
     (rs, l2, h2) \<leftarrow> ll_run qs l1 h1;
     Some (r # rs, l2, h2) }"

fun ll_spec_run :: "ll_op list \<Rightarrow> ptr list \<Rightarrow> ptr list \<times> ptr list" where
  "ll_spec_run [] xs = ([], xs)"
| "ll_spec_run (q # qs) xs = (let (r, ys) = ll_spec q xs; (rs, zs) = ll_spec_run qs ys in (r # rs, zs))"

fun ll_legal_run :: "ptr list \<Rightarrow> ll_op list \<Rightarrow> ptr list \<Rightarrow> bool" where
  "ll_legal_run N [] xs \<longleftrightarrow> True"
| "ll_legal_run N (q # qs) xs \<longleftrightarrow> ll_legal N q xs \<and> ll_legal_run N qs (snd (ll_spec q xs))"

definition ll_env :: "ptr list \<Rightarrow> d4np_linked_list \<Rightarrow> node_heap \<Rightarrow> bool" where
  "ll_env N l h \<longleftrightarrow> heap_ok h \<and> set N \<subseteq> dom h \<and> ll_sentinel l \<notin> set N"

lemma ll_len_0: "ll_is l h xs \<Longrightarrow> ll_len l = 0 \<longleftrightarrow> xs = []"
  by (auto simp: ll_is_def unat_eq_0 simp flip: unat_eq_0)

lemma ll_exec_ok:
  assumes "ll_env N l h" "ll_is l h xs" "ll_legal N q xs"
  shows "\<exists>l' h'. ll_exec q (Some l) h = Some (fst (ll_spec q xs), Some l', h') \<and> ll_is l' h' (snd (ll_spec q xs)) \<and>
    ll_sentinel l' = ll_sentinel l \<and> dom h' = dom h \<and> (\<forall>a. a \<notin> {ll_sentinel l} \<union> set xs \<union> set N \<longrightarrow> h' a = h a)"
proof -
  from ll_ends [OF assms(2)] obtain s where s: "h (ll_sentinel l) = Some s" "ln_next s = hd (xs @ [ll_sentinel l])"
    "ln_prev s = last (ll_sentinel l # xs)" by blast
  have ok: "heap_ok h" using assms(1) by (simp add: ll_env_def)
  have nn: "NULL \<notin> dom h" using ok by (auto simp: heap_ok_def)
  note len = ll_len_0 [OF assms(2)]
  show ?thesis
  proof (cases q)
    case (Push_Front x)
    with assms have "x \<in> dom h" "x \<notin> set (ll_sentinel l # [] @ xs)" "x \<noteq> NULL" "x \<in> set N" using nn by (auto simp: ll_env_def)
    with ll_insert [OF ok, of l "[]" xs x] assms(2) s Push_Front show ?thesis by (auto simp: d4np_linked_list_push_front_def)
  next
    case (Push_Back x)
    with assms have "x \<in> dom h" "x \<notin> set (ll_sentinel l # xs @ [])" "x \<noteq> NULL" "x \<in> set N" using nn by (auto simp: ll_env_def)
    with ll_insert [OF ok, of l xs "[]" x] assms(2) s Push_Back show ?thesis by (auto simp: d4np_linked_list_push_back_def)
  next
    case Pop_Front
    show ?thesis
    proof (cases xs)
      case Nil
      with Pop_Front assms(2) len show ?thesis by (auto simp: d4np_linked_list_pop_front_def)
    next
      case (Cons y ys)
      with ll_delete [of l h "[]" y ys] assms(2) s len Pop_Front show ?thesis by (auto simp: d4np_linked_list_pop_front_def)
    qed
  next
    case Pop_Back
    show ?thesis
    proof (cases xs rule: rev_cases)
      case Nil
      with Pop_Back assms(2) len show ?thesis by (auto simp: d4np_linked_list_pop_back_def)
    next
      case (snoc ys y)
      with ll_delete [of l h ys y "[]"] assms(2) s len Pop_Back show ?thesis by (auto simp: d4np_linked_list_pop_back_def)
    qed
  next
    case (Remove x)
    with assms(3) obtain ys zs where "xs = ys @ x # zs" "x \<notin> set ys" using split_list_first by fastforce
    moreover have "x \<noteq> NULL" using Remove assms(2,3) by (metis ll_is_def ll_legal.simps(3))
    ultimately show ?thesis
      using ll_delete [of l h ys x zs] assms(2) s len Remove by (auto simp: d4np_linked_list_remove_def remove1_append)
  qed
qed

lemma ll_run_ok:
  assumes "ll_env N l h" "ll_is l h xs" "set xs \<subseteq> set N" "ll_legal_run N qs xs"
  shows "\<exists>l' h'. ll_run qs (Some l) h = Some (fst (ll_spec_run qs xs), Some l', h') \<and> ll_is l' h' (snd (ll_spec_run qs xs)) \<and>
    (\<forall>a. a \<notin> {ll_sentinel l} \<union> set N \<longrightarrow> h' a = h a)"
  using assms
proof (induction qs arbitrary: l h xs)
  case (Cons q qs)
  then have legal: "ll_legal N q xs" "ll_legal_run N qs (snd (ll_spec q xs))" by simp_all
  from ll_exec_ok [OF Cons.prems(1,2) legal(1)] obtain l1 h1 where
    1: "ll_exec q (Some l) h = Some (fst (ll_spec q xs), Some l1, h1)" "ll_is l1 h1 (snd (ll_spec q xs))"
      "ll_sentinel l1 = ll_sentinel l" "dom h1 = dom h" "\<forall>a. a \<notin> {ll_sentinel l} \<union> set xs \<union> set N \<longrightarrow> h1 a = h a" by blast
  have env: "ll_env N l1 h1" using Cons.prems(1) 1(3,4) by (simp add: ll_env_def heap_ok_def)
  have sub: "set (snd (ll_spec q xs)) \<subseteq> set N"
    using Cons.prems(3) legal(1) by (cases q) (auto dest: in_set_butlastD notin_set_remove1 split: list.splits)
  from Cons.IH [OF env 1(2) sub legal(2)] obtain l2 h2 where
    "ll_run qs (Some l1) h1 = Some (fst (ll_spec_run qs (snd (ll_spec q xs))), Some l2, h2)"
    "ll_is l2 h2 (snd (ll_spec_run qs (snd (ll_spec q xs))))" "\<forall>a. a \<notin> {ll_sentinel l1} \<union> set N \<longrightarrow> h2 a = h1 a" by blast
  moreover have "\<forall>a. a \<notin> {ll_sentinel l} \<union> set N \<longrightarrow> h1 a = h a" using 1(5) Cons.prems(3) by blast
  ultimately show ?case using 1 by (auto simp: split_beta Let_def)
qed auto

lemma for_each_from_ok:
  assumes "linked h (set (zip xs (tl xs @ [s])))" "s \<notin> set xs"
  shows "for_each_from s (hd (xs @ [s])) h = Some xs"
  using assms
proof (induction xs)
  case Nil
  then show ?case by (subst for_each_from.simps) simp
next
  case (Cons x xs)
  have "(x, hd (xs @ [s])) \<in> set (zip (x # xs) (tl (x # xs) @ [s]))" by (cases xs) auto
  with Cons.prems(1) have "x \<in> dom h" "nx h x = hd (xs @ [s])" by (auto simp: linked_def)
  with node_at [of x h] obtain n where n: "h x = Some n" "ln_next n = hd (xs @ [s])" by auto
  have "linked h (set (zip xs (tl xs @ [s])))" using Cons.prems(1) by (cases xs) (auto simp: linked_def)
  with Cons n show ?case by (subst for_each_from.simps) simp
qed

lemma for_each_ok:
  assumes "ll_is l h xs"
  shows "D4NP_LIST_FOR_EACH l h = Some xs"
proof -
  from ll_ends [OF assms] obtain s where s: "h (ll_sentinel l) = Some s" "ln_next s = hd (xs @ [ll_sentinel l])" by blast
  have "set (zip xs (tl xs @ [ll_sentinel l])) \<subseteq> links (ll_sentinel l) xs"
    using zip_first [of "ll_sentinel l" xs "ll_sentinel l"] by (cases xs) (auto simp: links_def)
  then have "linked h (set (zip xs (tl xs @ [ll_sentinel l])))" using assms by (auto simp: ll_is_def linked_def)
  from for_each_from_ok [OF this] assms s show ?thesis by (simp add: D4NP_LIST_FOR_EACH_def ll_is_def)
qed

section \<open>Properties\<close>

text \<open>C23: starting from a list that holds the nodes \<open>xs\<close>, every legal program of pushes at either end, pops
  at either end and removals (a node is pushed only while it is not enrolled, removed only while it
  is) dereferences only existing nodes, returns exactly the nodes the sequence model returns, ends
  with the model's sequence correctly linked in both directions, and writes no node but the sentinel
  and the caller's.\<close>

theorem linked_list_is_a_deque:
  assumes "ll_env N l h" "ll_is l h xs" "set xs \<subseteq> set N" "ll_legal_run N qs xs"
  shows "\<exists>l' h'. ll_run qs (Some l) h = Some (fst (ll_spec_run qs xs), Some l', h') \<and> ll_is l' h' (snd (ll_spec_run qs xs)) \<and>
    (\<forall>a. a \<notin> {ll_sentinel l} \<union> set N \<longrightarrow> h' a = h a)"
  using assms by (rule ll_run_ok)

definition ll_ex :: d4np_linked_list where
  "ll_ex = \<lparr>ll_sentinel = 16, ll_len = 0\<rparr>"

definition ll_ex_heap :: node_heap where
  "ll_ex_heap = [16 \<mapsto> \<lparr>ln_prev = 16, ln_next = 16\<rparr>, 32 \<mapsto> \<lparr>ln_prev = 0, ln_next = 0\<rparr>, 64 \<mapsto> \<lparr>ln_prev = 0, ln_next = 0\<rparr>]"

lemma ll_ex_ok: "ll_env [32, 64] ll_ex ll_ex_heap" "ll_is ll_ex ll_ex_heap []"
  by (auto simp: ll_env_def ll_ex_def ll_ex_heap_def ll_is_def heap_ok_def linked_def links_def nx_def pv_def ADDR_LIMIT_def split: if_splits)

theorem linked_list_is_a_deque_witness:
  "\<exists>l' h'. ll_run [Push_Front 32, Push_Back 64, Pop_Front, Remove 64, Pop_Back] (Some ll_ex) ll_ex_heap =
     Some ([0, 0, 32, 0, 0], Some l', h') \<and> ll_is l' h' []"
proof -
  let ?qs = "[Push_Front 32, Push_Back 64, Pop_Front, Remove 64, Pop_Back]"
  have "ll_legal_run [32, 64] ?qs []" "ll_spec_run ?qs [] = ([0, 0, 32, 0, 0], [])" by simp_all
  with linked_list_is_a_deque [OF ll_ex_ok, of ?qs] show ?thesis by (metis empty_subsetI fst_conv list.set(1) snd_conv)
qed

text \<open>C37: the observers agree with the sequence: front, back, length and emptiness are those of \<open>xs\<close>, and
  \<open>D4NP_LIST_FOR_EACH\<close> terminates, visiting exactly the nodes of \<open>xs\<close> in order. \<open>init\<close> makes any list empty.\<close>

theorem linked_list_observers:
  assumes "ll_is l h xs"
  shows "d4np_linked_list_front (Some l) h = Some (if xs = [] then NULL else hd xs) \<and>
    d4np_linked_list_back (Some l) h = Some (if xs = [] then NULL else last xs) \<and>
    unat (d4np_linked_list_len (Some l)) = length xs \<and> d4np_linked_list_is_empty (Some l) = (xs = []) \<and>
    D4NP_LIST_FOR_EACH l h = Some xs \<and>
    (\<exists>l' h'. d4np_linked_list_init (Some l) h = Some (Some l', h') \<and> ll_is l' h' [])"
proof -
  from ll_ends [OF assms] obtain s where s: "h (ll_sentinel l) = Some s" "ln_next s = hd (xs @ [ll_sentinel l])"
    "ln_prev s = last (ll_sentinel l # xs)" by blast
  have "\<exists>l' h'. d4np_linked_list_init (Some l) h = Some (Some l', h') \<and> ll_is l' h' []"
    using s by (auto simp: d4np_linked_list_init_def set_next_def set_prev_def ll_is_def linked_def links_def nx_def pv_def)
  then show ?thesis using s ll_len_0 [OF assms] for_each_ok [OF assms] assms
    by (auto simp: d4np_linked_list_front_def d4np_linked_list_back_def d4np_linked_list_len_def d4np_linked_list_is_empty_def ll_is_def)
qed

theorem linked_list_observers_witness:
  "D4NP_LIST_FOR_EACH ll_ex ll_ex_heap = Some [] \<and> d4np_linked_list_front (Some ll_ex) ll_ex_heap = Some NULL"
  using linked_list_observers [OF ll_ex_ok(2)] by simp

end
