(* ===== verification/Atomic_Queue.thy ===== *)
theory Atomic_Queue
  imports Allocator Queue
begin

text \<open>
  The unbounded single-producer, single-consumer queue (\<open>concurrency/atomic_queue.h\<close>,
  \<open>concurrency/atomic_queue.c\<close>): a linked list of allocated nodes behind a dummy. A node is a block of
  the memory whose first eight bytes are the link and whose element starts at \<open>D4NP_AQ_DATA_OFFSET\<close>.
  This theory runs one operation after the other and shows that the queue meets the queue contract
  for every allocator; the interleaving of the two threads is the subject of \<open>Atomic_Queue_SPSC\<close>.
\<close>

section \<open>Definitions\<close>

record d4np_atomic_queue =
  aq_allocator :: "d4np_allocator option"
  aq_elem_size :: size_t
  aq_node_size :: size_t
  aq_head :: ptr
  aq_tail :: ptr

text \<open>\<open>sizeof (struct d4np_atomic_queue_node)\<close> is 8, the size of its link.\<close>

definition D4NP_AQ_DATA_OFFSET :: size_t where
  "D4NP_AQ_DATA_OFFSET = ((8 + (MAX_ALIGN - 1)) div MAX_ALIGN) * MAX_ALIGN"

definition node_data :: "ptr \<Rightarrow> ptr" where
  "node_data n = n + unat D4NP_AQ_DATA_OFFSET"

definition node_alloc :: "d4np_atomic_queue \<Rightarrow> mem \<Rightarrow> (ptr \<times> mem) option" where
  "node_alloc q m = do {
     (n, m1) \<leftarrow> d4np_alloc (aq_allocator q) (aq_node_size q) MAX_ALIGN m;
     if n \<noteq> NULL then do { m2 \<leftarrow> store_ptr m1 n NULL; Some (n, m2) } else Some (n, m1) }"

definition d4np_atomic_queue_init ::
  "d4np_atomic_queue option \<Rightarrow> d4np_allocator option \<Rightarrow> size_t \<Rightarrow> mem \<Rightarrow> (d4np_status \<times> d4np_atomic_queue option \<times> mem) option" where
  "d4np_atomic_queue_init qp allocator elem_size m =
     (case qp of
        None \<Rightarrow> Some (D4NP_ERR_INVALID_ARGUMENT, None, m)
      | Some q \<Rightarrow>
          if elem_size = 0 then Some (D4NP_ERR_INVALID_ARGUMENT, Some q, m)
          else if SIZE_MAX - D4NP_AQ_DATA_OFFSET < elem_size then Some (D4NP_ERR_OVERFLOW, Some q, m)
          else do {
            let q1 = q\<lparr>aq_allocator := Some (allocator_or_default allocator), aq_elem_size := elem_size,
                       aq_node_size := D4NP_AQ_DATA_OFFSET + elem_size\<rparr>;
            (dummy, m1) \<leftarrow> node_alloc q1 m;
            if dummy = NULL then Some (D4NP_ERR_OUT_OF_MEMORY, Some q1, m1)
            else Some (D4NP_OK, Some (q1\<lparr>aq_head := dummy, aq_tail := dummy\<rparr>), m1)
          })"

text \<open>The loop of \<open>destroy\<close>.\<close>

partial_function (option) aq_free_from :: "d4np_atomic_queue \<Rightarrow> ptr \<Rightarrow> mem \<Rightarrow> mem option" where
  "aq_free_from q cur m =
     (if cur = NULL then Some m
      else do {
        next \<leftarrow> load_ptr m cur;
        m1 \<leftarrow> d4np_free (aq_allocator q) cur (aq_node_size q) m;
        aq_free_from q next m1 })"

definition d4np_atomic_queue_destroy :: "d4np_atomic_queue option \<Rightarrow> mem \<Rightarrow> (d4np_atomic_queue option \<times> mem) option" where
  "d4np_atomic_queue_destroy qp m =
     (case qp of
        None \<Rightarrow> Some (None, m)
      | Some q \<Rightarrow>
          if aq_head q = NULL then Some (Some q, m)
          else do {
            m1 \<leftarrow> aq_free_from q (aq_head q) m;
            Some (Some (q\<lparr>aq_head := NULL, aq_tail := NULL\<rparr>), m1) })"

definition d4np_atomic_queue_enqueue ::
  "d4np_atomic_queue option \<Rightarrow> ptr \<Rightarrow> mem \<Rightarrow> (bool \<times> d4np_atomic_queue option \<times> mem) option" where
  "d4np_atomic_queue_enqueue qp elem m =
     (case qp of
        None \<Rightarrow> Some (False, None, m)
      | Some q \<Rightarrow>
          if elem = NULL then Some (False, Some q, m)
          else do {
            (n, m1) \<leftarrow> node_alloc q m;
            if n = NULL then Some (False, Some q, m1)
            else do {
              m2 \<leftarrow> memcpy m1 (node_data n) elem (unat (aq_elem_size q));
              m3 \<leftarrow> store_ptr m2 (aq_tail q) n;
              Some (True, Some (q\<lparr>aq_tail := n\<rparr>), m3) } })"

definition d4np_atomic_queue_dequeue ::
  "d4np_atomic_queue option \<Rightarrow> ptr \<Rightarrow> mem \<Rightarrow> (bool \<times> d4np_atomic_queue option \<times> mem) option" where
  "d4np_atomic_queue_dequeue qp out m =
     (case qp of
        None \<Rightarrow> Some (False, None, m)
      | Some q \<Rightarrow> do {
          next \<leftarrow> load_ptr m (aq_head q);
          if next = NULL then Some (False, Some q, m)
          else do {
            m1 \<leftarrow> (if out \<noteq> NULL then memcpy m out (node_data next) (unat (aq_elem_size q)) else Some m);
            m2 \<leftarrow> d4np_free (aq_allocator q) (aq_head q) (aq_node_size q) m1;
            Some (True, Some (q\<lparr>aq_head := next\<rparr>), m2) } })"

definition d4np_atomic_queue_is_empty :: "d4np_atomic_queue option \<Rightarrow> mem \<Rightarrow> bool option" where
  "d4np_atomic_queue_is_empty qp m =
     (case qp of
        None \<Rightarrow> Some True
      | Some q \<Rightarrow> if aq_head q = NULL then Some True else do { next \<leftarrow> load_ptr m (aq_head q); Some (next = NULL) })"

section \<open>Chains of nodes\<close>

text \<open>The nodes reached from \<open>p\<close>.\<close>

partial_function (option) aq_walk :: "ptr \<Rightarrow> mem \<Rightarrow> ptr list option" where
  "aq_walk p m = (if p = NULL then Some [] else do { n \<leftarrow> load_ptr m p; ps \<leftarrow> aq_walk n m; Some (p # ps) })"

definition aq_nodes :: "d4np_atomic_queue \<Rightarrow> mem \<Rightarrow> ptr list" where
  "aq_nodes q m = the (aq_walk (aq_head q) m)"

definition aq_blocks :: "d4np_atomic_queue \<Rightarrow> mem \<Rightarrow> (ptr \<times> nat) set" where
  "aq_blocks q m = (\<lambda>p. (p, unat (aq_node_size q))) ` set (aq_nodes q m)"

definition aq_inv :: "d4np_atomic_queue \<Rightarrow> mem \<Rightarrow> bool" where
  "aq_inv q m \<longleftrightarrow> aq_walk (aq_head q) m = Some (aq_nodes q m) \<and> aq_nodes q m \<noteq> [] \<and> last (aq_nodes q m) = aq_tail q \<and>
     distinct (aq_nodes q m) \<and> aq_blocks q m \<subseteq> set (live m) \<and> aq_elem_size q \<noteq> 0 \<and>
     unat (aq_node_size q) = unat D4NP_AQ_DATA_OFFSET + unat (aq_elem_size q)"

definition aq_elem :: "d4np_atomic_queue \<Rightarrow> mem \<Rightarrow> ptr \<Rightarrow> byte list" where
  "aq_elem q m p = peek m (node_data p) (unat (aq_elem_size q))"

definition aq_elems :: "d4np_atomic_queue \<Rightarrow> mem \<Rightarrow> byte list list" where
  "aq_elems q m = map (aq_elem q m) (tl (aq_nodes q m))"

lemma offset_16 [simp]: "D4NP_AQ_DATA_OFFSET = 16"
  by (simp add: D4NP_AQ_DATA_OFFSET_def MAX_ALIGN_def)

lemma aq_walk_null [simp]: "aq_walk 0 m = Some []"
  by (subst aq_walk.simps) simp

lemma aq_walk_Cons: "aq_walk p m = Some (x # xs) \<longleftrightarrow> p = x \<and> x \<noteq> NULL \<and> (\<exists>n. load_ptr m x = Some n \<and> aq_walk n m = Some xs)"
  by (subst aq_walk.simps) (auto split: bind_splits)

lemma aq_walk_Nil: "aq_walk p m = Some [] \<longleftrightarrow> p = NULL"
  by (subst aq_walk.simps) (auto split: bind_splits)

lemma aq_walk_cong:
  "aq_walk p m = Some ps \<Longrightarrow> \<forall>x \<in> set ps. load_ptr m' x = load_ptr m x \<Longrightarrow> aq_walk p m' = Some ps"
  by (induction ps arbitrary: p) (auto simp: aq_walk_Cons aq_walk_Nil)

text \<open>Linking a terminated node behind the last one.\<close>

lemma aq_walk_snoc:
  assumes "aq_walk p m = Some ps" "ps \<noteq> []" "\<forall>x \<in> set (butlast ps). load_ptr m' x = load_ptr m x"
    "load_ptr m' (last ps) = Some n" "n \<noteq> NULL" "load_ptr m' n = Some NULL"
  shows "aq_walk p m' = Some (ps @ [n])"
  using assms
proof (induction ps arbitrary: p)
  case (Cons x xs)
  show ?case
  proof (cases "xs = []")
    case True
    with Cons.prems show ?thesis by (auto simp: aq_walk_Cons)
  next
    case False
    with Cons show ?thesis by (auto simp: aq_walk_Cons)
  qed
qed simp

lemma load_ptr_keeps:
  assumes "keeps B m m'" "(p, s) \<in> B" "8 \<le> s" "B \<subseteq> set (live m)"
  shows "load_ptr m' p = load_ptr m p"
proof -
  have "valid m' p 8" "valid m p 8" using keeps_valid [OF assms(1,2), of p 8] assms by (auto intro: validI)
  moreover have "peek m' p 8 = peek m p 8" by (rule keeps_peek [OF assms(1,2)]) (use assms in auto)
  ultimately show ?thesis by (simp add: load_ptr_def mem_read_Some)
qed

text \<open>The whole queue survives anything that keeps its nodes.\<close>

lemma aq_keep:
  assumes "aq_inv q m" "keeps (aq_blocks q m) m m'"
  shows "aq_nodes q m' = aq_nodes q m" "aq_inv q m'" "aq_elems q m' = aq_elems q m" "aq_blocks q m' = aq_blocks q m"
proof -
  have k: "(p, unat (aq_node_size q)) \<in> aq_blocks q m" if "p \<in> set (aq_nodes q m)" for p using that by (simp add: aq_blocks_def)
  have s: "unat (aq_node_size q) = 16 + unat (aq_elem_size q)" using assms(1) by (simp add: aq_inv_def)
  have sub: "aq_blocks q m \<subseteq> set (live m)" using assms(1) by (simp add: aq_inv_def)
  have ld: "\<forall>x \<in> set (aq_nodes q m). load_ptr m' x = load_ptr m x"
    using load_ptr_keeps [OF assms(2) k _ sub] s by auto
  have w: "aq_walk (aq_head q) m' = Some (aq_nodes q m)"
    using aq_walk_cong [OF _ ld] assms(1) by (simp add: aq_inv_def)
  then show n: "aq_nodes q m' = aq_nodes q m" by (simp add: aq_nodes_def)
  then show b: "aq_blocks q m' = aq_blocks q m" by (simp add: aq_blocks_def)
  show "aq_inv q m'" using assms(1) keeps_subset [OF assms(2)] w by (simp add: aq_inv_def n b)
  have "aq_elem q m' p = aq_elem q m p" if "p \<in> set (aq_nodes q m)" for p
    unfolding aq_elem_def by (rule keeps_peek [OF assms(2) k [OF that]]) (simp_all add: node_data_def s)
  then show "aq_elems q m' = aq_elems q m"
    by (auto simp: aq_elems_def n dest: list.set_sel(2) intro!: map_cong) (metis list.sel(2) list.set_sel(2) tl_Nil)
qed

lemma aq_node_apart:
  assumes "wf_mem m" "(p, s) \<in> set (live m)" "(q, s) \<in> set (live m)" "p \<noteq> q" "i + n \<le> s" "j + k \<le> s"
  shows "p + i + n \<le> q + j \<or> q + j + k \<le> p + i"
  using blocks_apart [OF assms(1-3), of "p + i" n "q + j" k] assms(4-6) by simp

text \<open>Writing the link of one node leaves every element and every other link alone.\<close>

lemma store_link:
  assumes wf: "wf_mem m" and sub: "\<forall>p \<in> set ps. (p, s) \<in> set (live m)" and t: "t \<in> set ps" and s: "s = 16 + e" and n: "n < 2 ^ 64"
  obtains m' where "store_ptr m t n = Some m'" "wf_mem m'" "load_ptr m' t = Some n" "keeps (set (live m) - {(t, s)}) m m'"
    "live m' = live m" "\<forall>p \<in> set ps. p \<noteq> t \<longrightarrow> load_ptr m' p = load_ptr m p" "\<forall>p \<in> set ps. peek m' (node_data p) e = peek m (node_data p) e"
proof -
  let ?m = "poke m t (le_bytes (of_nat n))"
  have b: "(t, s) \<in> set (live m)" using sub t by simp
  have v: "valid m t 8" by (rule validI [OF b]) (use s in auto)
  show thesis
  proof (rule that)
    show "store_ptr m t n = Some ?m" by (rule store_ptr_Some [OF v])
    show "wf_mem ?m" using wf by simp
    show "load_ptr ?m t = Some n" by (rule load_ptr_poke_same [OF v n])
    show "keeps (set (live m) - {(t, s)}) m ?m" by (rule keeps_poke [OF wf b]) (use s in auto)
    show "live ?m = live m" by simp
    show "\<forall>p \<in> set ps. p \<noteq> t \<longrightarrow> load_ptr ?m p = load_ptr m p"
    proof (intro ballI impI)
      fix p assume "p \<in> set ps" "p \<noteq> t"
      then have "p + 8 \<le> t \<or> t + 8 \<le> p" using aq_node_apart [OF wf _ b, of p 0 8 0 8] sub s by auto
      then show "load_ptr ?m p = load_ptr m p" by (intro load_ptr_poke_other) simp
    qed
    show "\<forall>p \<in> set ps. peek ?m (node_data p) e = peek m (node_data p) e"
    proof
      fix p assume "p \<in> set ps"
      then have "(p, s) \<in> set (live m)" using sub by simp
      then have "p + 16 + e \<le> t \<or> t + 8 \<le> p + 16"
        using aq_node_apart [OF wf _ b, of p 16 e 0 8] s by (cases "p = t") auto
      then show "peek ?m (node_data p) e = peek m (node_data p) e"
        by (intro peek_poke_other) (simp add: node_data_def)
    qed
  qed
qed

lemma outside_mono: "outside m B p n \<Longrightarrow> set (live m) - B \<subseteq> set (live m') - B' \<Longrightarrow> outside m' B' p n"
  unfolding outside_def by blast

context allocator_contract
begin

lemma node_alloc_cases:
  assumes "wf_mem m" "aq_allocator q = Some A" "16 \<le> unat (aq_node_size q)"
  obtains (fail) m' where "node_alloc q m = Some (NULL, m')" "wf_mem m'" "keeps (set (live m)) m m'"
  | (ok) n m' where "node_alloc q m = Some (n, m')" "n \<noteq> NULL" "wf_mem m'" "keeps (set (live m)) m m'"
      "(n, unat (aq_node_size q)) \<in> set (live m')" "(n, unat (aq_node_size q)) \<notin> set (live m)" "load_ptr m' n = Some NULL"
proof (cases rule: alloc_cases [OF assms(1) pow2_MAX_ALIGN, of "aq_node_size q"])
  case (1 m')
  then show thesis using fail [of m'] assms(2) by (simp add: node_alloc_def)
next
  case (2 n m1)
  let ?m = "poke m1 n (le_bytes 0)"
  have v: "valid m1 n 8" by (rule validI [OF 2(5)]) (use assms(3) in auto)
  have "keeps (set (live m)) m1 ?m"
    by (rule keeps_poke [OF 2(3,5)]) (use assms(3) 2(6) keeps_subset [OF 2(4)] in auto)
  then have k: "keeps (set (live m)) m ?m" by (rule keeps_trans [OF 2(4)])
  have "node_alloc q m = Some (n, ?m)" using 2(1,2) assms(2) store_ptr_Some [OF v, of 0] by (simp add: node_alloc_def)
  moreover have "load_ptr ?m n = Some NULL" using load_ptr_poke_same [OF v, of 0] by simp
  ultimately show thesis using ok [of n ?m] 2 k by simp
qed

text \<open>Publishing a node: its link is NULL, and the store to the link of the tail appends it.\<close>

lemma aq_link_ok:
  assumes "wf_mem m" "aq_inv q m" "(n, unat (aq_node_size q)) \<in> set (live m)" "n \<notin> set (aq_nodes q m)" "n \<noteq> NULL" "load_ptr m n = Some NULL"
  shows "\<exists>m'. store_ptr m (aq_tail q) n = Some m' \<and> wf_mem m' \<and> aq_inv (q\<lparr>aq_tail := n\<rparr>) m' \<and>
    keeps (set (live m) - aq_blocks q m) m m' \<and> aq_blocks (q\<lparr>aq_tail := n\<rparr>) m' = insert (n, unat (aq_node_size q)) (aq_blocks q m) \<and>
    aq_elems (q\<lparr>aq_tail := n\<rparr>) m' = aq_elems q m @ [aq_elem q m n]"
proof -
  let ?e = "unat (aq_elem_size q)" and ?s = "unat (aq_node_size q)" and ?ps = "aq_nodes q m" and ?q = "q\<lparr>aq_tail := n\<rparr>"
  have inv: "aq_walk (aq_head q) m = Some ?ps" "?ps \<noteq> []" "last ?ps = aq_tail q" "distinct ?ps" "aq_blocks q m \<subseteq> set (live m)"
    "aq_elem_size q \<noteq> 0" and s: "?s = 16 + ?e" using assms(2) by (simp_all add: aq_inv_def)
  have blk: "\<forall>p \<in> set (?ps @ [n]). (p, ?s) \<in> set (live m)" using inv(5) assms(3) by (auto simp: aq_blocks_def)
  have t: "aq_tail q \<in> set ?ps" using inv(2,3) last_in_set by metis
  then have tt: "aq_tail q \<in> set (?ps @ [n])" by simp
  have nb: "n < 2 ^ 64" using wf_block [OF assms(1,3)] by (simp add: ADDR_LIMIT_def)
  obtain m' where m': "store_ptr m (aq_tail q) n = Some m'" "wf_mem m'" "load_ptr m' (aq_tail q) = Some n"
    "keeps (set (live m) - {(aq_tail q, ?s)}) m m'" "live m' = live m"
    "\<forall>p \<in> set (?ps @ [n]). p \<noteq> aq_tail q \<longrightarrow> load_ptr m' p = load_ptr m p"
    "\<forall>p \<in> set (?ps @ [n]). peek m' (node_data p) ?e = peek m (node_data p) ?e"
    by (rule store_link [OF assms(1) blk tt s nb])
  obtain us where us: "?ps = us @ [aq_tail q]" using inv(2,3) append_butlast_last_id by metis
  have bl: "\<forall>p \<in> set (butlast ?ps). load_ptr m' p = load_ptr m p" using m'(6) inv(4) by (auto simp: us)
  have w: "aq_walk (aq_head q) m' = Some (?ps @ [n])" by (rule aq_walk_snoc [OF inv(1,2) bl]) (use m' inv assms(4-6) t in auto)
  then have nodes: "aq_nodes ?q m' = ?ps @ [n]" by (simp add: aq_nodes_def)
  have "aq_elem ?q m' p = aq_elem q m p" if "p \<in> set (?ps @ [n])" for p using m'(7) that by (auto simp: aq_elem_def)
  then have "aq_elems ?q m' = aq_elems q m @ [aq_elem q m n]" using inv(2) by (auto simp: aq_elems_def nodes dest: list.set_sel(2))
  moreover have "aq_blocks ?q m' = insert (n, ?s) (aq_blocks q m)" by (auto simp: aq_blocks_def nodes)
  moreover have "aq_inv ?q m'" using inv s assms(4) w blk m'(5) by (auto simp: aq_inv_def nodes aq_blocks_def)
  moreover have "keeps (set (live m) - aq_blocks q m) m m'" using t by (intro keeps_mono [OF m'(4)]) (auto simp: aq_blocks_def)
  ultimately show ?thesis using m'(1,2) by blast
qed

lemma aq_enqueue_ok:
  assumes "wf_mem m" "aq_inv q m" "aq_allocator q = Some A" "outside m (aq_blocks q m) x (unat (aq_elem_size q))"
  shows "\<exists>b q' m'. d4np_atomic_queue_enqueue (Some q) x m = Some (b, Some q', m') \<and> wf_mem m' \<and> aq_inv q' m' \<and>
    aq_allocator q' = Some A \<and> aq_elem_size q' = aq_elem_size q \<and> keeps (set (live m) - aq_blocks q m) m m' \<and>
    aq_blocks q' m' \<inter> set (live m) \<subseteq> aq_blocks q m \<and>
    aq_elems q' m' = aq_elems q m @ (if b then [peek m x (unat (aq_elem_size q))] else [])"
proof -
  let ?e = "unat (aq_elem_size q)" and ?s = "unat (aq_node_size q)"
  have inv: "aq_blocks q m \<subseteq> set (live m)" and s: "?s = 16 + ?e" using assms(2) by (simp_all add: aq_inv_def)
  have x0: "x \<noteq> NULL" by (rule valid_nonnull [OF assms(1) outside_valid [OF assms(4)]])
  have s16: "16 \<le> ?s" using s by simp
  show ?thesis
  proof (cases rule: node_alloc_cases [OF assms(1,3) s16])
    case (1 m')
    then have "aq_inv q m'" "aq_elems q m' = aq_elems q m" "aq_blocks q m' = aq_blocks q m"
      using aq_keep [OF assms(2) keeps_mono [OF 1(3) inv]] by auto
    then show ?thesis using 1 x0 assms(3) keeps_mono [OF 1(3), of "set (live m) - aq_blocks q m"]
      by (auto simp: d4np_atomic_queue_enqueue_def)
  next
    case (2 n m1)
    let ?m2 = "poke m1 (node_data n) (peek m x ?e)"
    have "set (live m) - aq_blocks q m \<subseteq> set (live m1) - {(n, ?s)}" using keeps_subset [OF 2(4)] 2(6) by auto
    then have out: "outside m1 {(n, ?s)} x ?e" by (rule outside_mono [OF assms(4)])
    have px: "peek m1 x ?e = peek m x ?e" using outside_keeps(1) [OF assms(4) keeps_mono [OF 2(4)]] by blast
    have "memcpy m1 (node_data n) x ?e = Some (poke m1 (node_data n) (peek m1 x ?e))"
      by (rule memcpy_outside [OF 2(3) out _ 2(5)]) (use s in \<open>auto simp: node_data_def\<close>)
    then have cp: "memcpy m1 (node_data n) x ?e = Some ?m2" by (simp add: px)
    have "keeps (set (live m)) m1 ?m2"
      by (rule keeps_poke [OF 2(3,5)]) (use s keeps_subset [OF 2(4)] 2(6) in \<open>auto simp: node_data_def\<close>)
    then have k2: "keeps (set (live m)) m ?m2" by (rule keeps_trans [OF 2(4)])
    have ln: "load_ptr ?m2 n = Some NULL" using 2(7) load_ptr_poke_other [of n "node_data n"] by (simp add: node_data_def)
    note q2 = aq_keep [OF assms(2) keeps_mono [OF k2 inv]]
    have wf2: "wf_mem ?m2" "(n, ?s) \<in> set (live ?m2)" using 2(3,5) by simp_all
    have nin: "n \<notin> set (aq_nodes q ?m2)" using 2(6) inv q2(1) by (auto simp: aq_blocks_def)
    from aq_link_ok [OF wf2(1) q2(2) wf2(2) nin 2(2) ln] obtain m3 where
      m3: "store_ptr ?m2 (aq_tail q) n = Some m3" "wf_mem m3" "aq_inv (q\<lparr>aq_tail := n\<rparr>) m3" "keeps (set (live ?m2) - aq_blocks q ?m2) ?m2 m3"
        "aq_blocks (q\<lparr>aq_tail := n\<rparr>) m3 = insert (n, ?s) (aq_blocks q ?m2)"
        "aq_elems (q\<lparr>aq_tail := n\<rparr>) m3 = aq_elems q ?m2 @ [aq_elem q ?m2 n]" by blast
    have b2: "aq_blocks q ?m2 = aq_blocks q m" using q2(1) by (simp add: aq_blocks_def)
    have "keeps (set (live m) - aq_blocks q m) m m3"
      by (rule keeps_trans [OF keeps_mono [OF k2] keeps_mono [OF m3(4)]]) (use keeps_subset [OF k2] b2 in auto)
    moreover have "aq_elem q ?m2 n = peek m x ?e" by (simp add: aq_elem_def peek_poke_same)
    moreover have "d4np_atomic_queue_enqueue (Some q) x m = Some (True, Some (q\<lparr>aq_tail := n\<rparr>), m3)"
      using x0 2(1,2) cp m3(1) by (simp add: d4np_atomic_queue_enqueue_def)
    ultimately show ?thesis
      by (intro exI [of _ True] exI [of _ "q\<lparr>aq_tail := n\<rparr>"] exI [of _ m3]) (use m3 b2 q2(3) assms(3) 2(6) in auto)
  qed
qed

lemma aq_dequeue_empty:
  assumes "wf_mem m" "aq_inv q m" "aq_elems q m = []"
  shows "d4np_atomic_queue_dequeue (Some q) out m = Some (False, Some q, m)" "d4np_atomic_queue_is_empty (Some q) m = Some True"
proof -
  obtain h where "aq_nodes q m = [h]" using assms(2,3) by (cases "aq_nodes q m") (auto simp: aq_inv_def aq_elems_def)
  then have "aq_head q \<noteq> NULL" "load_ptr m (aq_head q) = Some NULL" using assms(2) by (auto simp: aq_inv_def aq_walk_Cons aq_walk_Nil)
  then show "d4np_atomic_queue_dequeue (Some q) out m = Some (False, Some q, m)" "d4np_atomic_queue_is_empty (Some q) m = Some True"
    by (simp_all add: d4np_atomic_queue_dequeue_def d4np_atomic_queue_is_empty_def)
qed

lemma aq_dequeue_ok:
  assumes "wf_mem m" "aq_inv q m" "aq_allocator q = Some A" "out = NULL \<or> outside m (aq_blocks q m) out (unat (aq_elem_size q))"
    "aq_elems q m = v # vs"
  shows "\<exists>q' m'. d4np_atomic_queue_dequeue (Some q) out m = Some (True, Some q', m') \<and> wf_mem m' \<and> aq_inv q' m' \<and>
    aq_allocator q' = Some A \<and> aq_elem_size q' = aq_elem_size q \<and> aq_elems q' m' = vs \<and> aq_blocks q' m' \<subseteq> aq_blocks q m \<and>
    (let m1 = (if out = NULL then m else poke m out v) in keeps (set (live m) - {(aq_head q, unat (aq_node_size q))}) m1 m') \<and>
    d4np_atomic_queue_is_empty (Some q) m = Some False"
proof -
  let ?e = "unat (aq_elem_size q)" and ?s = "unat (aq_node_size q)" and ?h = "aq_head q"
  obtain y ys where n: "aq_nodes q m = ?h # y # ys"
    using assms(2,5) by (cases "aq_nodes q m"; cases "tl (aq_nodes q m)") (auto simp: aq_inv_def aq_elems_def aq_walk_Cons)
  have s: "?s = 16 + ?e" using assms(2) by (simp add: aq_inv_def)
  have sub: "aq_blocks q m \<subseteq> set (live m)" using assms(2) by (simp add: aq_inv_def)
  have d: "distinct (?h # y # ys)" and last: "last (y # ys) = aq_tail q" and w: "aq_walk ?h m = Some (?h # y # ys)"
    using assms(2) n by (auto simp: aq_inv_def)
  have ld: "?h \<noteq> NULL" "load_ptr m ?h = Some y" "y \<noteq> NULL" "aq_walk y m = Some (y # ys)" using w by (auto simp: aq_walk_Cons)
  have v: "v = peek m (node_data y) ?e" "vs = map (aq_elem q m) ys" using assms(5) by (auto simp: aq_elems_def n aq_elem_def)
  have yb: "(y, ?s) \<in> set (live m)" "(?h, ?s) \<in> set (live m)" "(y, ?s) \<in> aq_blocks q m" using sub by (auto simp: aq_blocks_def n)
  define m1 where "m1 = (if out = NULL then m else poke m out v)"
  have cp: "(if out \<noteq> NULL then memcpy m out (node_data y) ?e else Some m) = Some m1"
  proof (cases "out = NULL")
    case False
    then have o: "outside m (aq_blocks q m) out ?e" using assms(4) by simp
    have "node_data y + ?e \<le> out \<or> out + ?e \<le> node_data y"
      by (rule outside_apart [OF assms(1) o yb(3,1)]) (use s in \<open>simp_all add: node_data_def\<close>)
    moreover have "valid m (node_data y) ?e" by (rule validI [OF yb(1)]) (use s in \<open>simp_all add: node_data_def\<close>)
    ultimately have "memcpy m out (node_data y) ?e = Some (poke m out v)"
      unfolding v(1) using outside_valid [OF o] by (intro memcpy_Some) auto
    then show ?thesis using False by (simp add: m1_def)
  qed (simp add: m1_def)
  have kq: "keeps (aq_blocks q m) m m1"
    using keeps_poke_out [OF assms(1) _ sub, of out v] assms(4) sub v(1) by (auto simp: m1_def)
  note q1 = aq_keep [OF assms(2) kq]
  have l1: "live m1 = live m" "wf_mem m1" using assms(1) by (simp_all add: m1_def)
  have b1: "(?h, ?s) \<in> set (live m1)" using yb l1 by simp
  obtain m2 where m2: "d4np_free (Some A) ?h (aq_node_size q) m1 = Some m2" "wf_mem m2" "keeps (set (live m1) - {(?h, ?s)}) m1 m2"
    "(?h, ?s) \<notin> set (live m2)" by (rule free_cases [OF l1(2) b1])
  let ?q = "q\<lparr>aq_head := y\<rparr>"
  have "aq_walk ?h m1 = Some (?h # y # ys)" using q1(1,2) n by (simp add: aq_inv_def)
  then have w1: "aq_walk y m1 = Some (y # ys)" by (auto simp: aq_walk_Cons)
  then have n1: "aq_nodes ?q m1 = y # ys" by (simp add: aq_nodes_def)
  have inv1: "aq_inv ?q m1" using q1(2) n1 w1 d last sub by (auto simp: aq_inv_def aq_blocks_def n q1(1))
  have bl1: "aq_blocks ?q m1 = (\<lambda>p. (p, ?s)) ` set (y # ys)" by (simp add: aq_blocks_def n1)
  have "aq_blocks ?q m1 \<subseteq> set (live m1) - {(?h, ?s)}" using inv1 d by (auto simp: aq_inv_def bl1)
  note q2 = aq_keep [OF inv1 keeps_mono [OF m2(3) this]]
  have "aq_elems ?q m2 = map (aq_elem q m1) ys" using q2(3) by (simp add: aq_elems_def n1 aq_elem_def [abs_def])
  also have "\<dots> = tl (aq_elems q m1)" by (simp add: aq_elems_def n q1(1))
  finally have "aq_elems ?q m2 = vs" using q1(3) assms(5) by simp
  moreover have "aq_blocks ?q m2 \<subseteq> aq_blocks q m" by (auto simp: q2(4) bl1) (auto simp: aq_blocks_def n)
  moreover have "d4np_atomic_queue_dequeue (Some q) out m = Some (True, Some ?q, m2)"
    using ld cp m2(1) assms(3) by (simp add: d4np_atomic_queue_dequeue_def)
  ultimately show ?thesis using q2(2) m2(2,3) assms(3) l1(1) ld(1,2,3)
    by (intro exI [of _ ?q] exI [of _ m2]) (simp add: m1_def Let_def d4np_atomic_queue_is_empty_def)
qed

lemma aq_init_ok:
  assumes "wf_mem m" "allocator_or_default a = A" "es \<noteq> 0"
  shows "\<exists>rc q' m'. d4np_atomic_queue_init (Some q) a es m = Some (rc, Some q', m') \<and> wf_mem m' \<and> keeps (set (live m)) m m' \<and>
    (rc = D4NP_OK \<and> aq_inv q' m' \<and> aq_elems q' m' = [] \<and> aq_allocator q' = Some A \<and> aq_elem_size q' = es \<and>
       aq_blocks q' m' \<inter> set (live m) = {} \<or>
     rc \<in> {D4NP_ERR_OVERFLOW, D4NP_ERR_OUT_OF_MEMORY})"
proof (cases "SIZE_MAX - D4NP_AQ_DATA_OFFSET < es")
  case True
  then show ?thesis using assms by (auto simp: d4np_atomic_queue_init_def)
next
  case False
  let ?q = "q\<lparr>aq_allocator := Some A, aq_elem_size := es, aq_node_size := 16 + es\<rparr>"
  have "unat (SIZE_MAX - 16) = 2 ^ 64 - 1 - 16" using unat_sub_exact [of 16 SIZE_MAX] by (simp add: word_le_nat_alt)
  then have u: "unat (16 + es) = 16 + unat es"
    using False unat_add_exact [of 16 es] by (simp add: word_less_nat_alt)
  have q: "aq_allocator ?q = Some A" "16 \<le> unat (aq_node_size ?q)" by (simp_all add: u)
  show ?thesis
  proof (cases rule: node_alloc_cases [OF assms(1) q])
    case (1 m')
    then show ?thesis using False assms by (simp add: d4np_atomic_queue_init_def)
  next
    case (2 n m')
    let ?q' = "?q\<lparr>aq_head := n, aq_tail := n\<rparr>"
    have w: "aq_walk n m' = Some [n]" using 2 by (simp add: aq_walk_Cons)
    then have "aq_nodes ?q' m' = [n]" by (simp add: aq_nodes_def)
    with w 2 assms(3) u have "aq_inv ?q' m' \<and> aq_elems ?q' m' = [] \<and> aq_blocks ?q' m' \<inter> set (live m) = {}"
      by (simp add: aq_inv_def aq_elems_def aq_blocks_def)
    then show ?thesis using 2 False assms by (simp add: d4np_atomic_queue_init_def)
  qed
qed

lemma aq_free_from_ok:
  assumes "wf_mem m" "aq_allocator q = Some A" "aq_walk p m = Some ps" "distinct ps"
    "(\<lambda>p. (p, unat (aq_node_size q))) ` set ps \<subseteq> set (live m)" "8 \<le> unat (aq_node_size q)"
  shows "\<exists>m'. aq_free_from q p m = Some m' \<and> wf_mem m' \<and>
    keeps (set (live m) - (\<lambda>p. (p, unat (aq_node_size q))) ` set ps) m m' \<and>
    set (live m') = set (live m) - (\<lambda>p. (p, unat (aq_node_size q))) ` set ps"
  using assms
proof (induction ps arbitrary: p m)
  case Nil
  then show ?case by (subst aq_free_from.simps) (auto simp: aq_walk_Nil)
next
  case (Cons x xs)
  let ?B = "\<lambda>xs. (\<lambda>p. (p, unat (aq_node_size q))) ` set xs"
  obtain n where n: "p = x" "x \<noteq> NULL" "load_ptr m x = Some n" "aq_walk n m = Some xs" using Cons.prems(3) by (auto simp: aq_walk_Cons)
  have b: "(x, unat (aq_node_size q)) \<in> set (live m)" using Cons.prems(5) by simp
  obtain m1 where m1: "d4np_free (Some A) x (aq_node_size q) m = Some m1" "wf_mem m1"
    "keeps (set (live m) - {(x, unat (aq_node_size q))}) m m1" by (rule free_cases [OF Cons.prems(1) b])
  have sub: "?B xs \<subseteq> set (live m) - {(x, unat (aq_node_size q))}" using Cons.prems(4,5) by auto
  have "\<forall>y \<in> set xs. load_ptr m1 y = load_ptr m y"
    using load_ptr_keeps [OF m1(3) _ Cons.prems(6)] sub by blast
  then have w: "aq_walk n m1 = Some xs" by (rule aq_walk_cong [OF n(4)])
  have "?B xs \<subseteq> set (live m1)" using sub keeps_subset [OF m1(3)] by blast
  with Cons.IH [OF m1(2) Cons.prems(2) w _ _ Cons.prems(6)] Cons.prems(4) obtain m' where
    m': "aq_free_from q n m1 = Some m'" "wf_mem m'" "keeps (set (live m1) - ?B xs) m1 m'" "set (live m') = set (live m1) - ?B xs" by auto
  have "set (live m') = set (live m) - ?B (x # xs)" using m'(4) free_live [OF Cons.prems(1) b m1(1)] by auto
  moreover have "keeps (set (live m) - ?B (x # xs)) m m'"
    using keeps_subset [OF m1(3)] by (intro keeps_trans [OF keeps_mono [OF m1(3)] keeps_mono [OF m'(3)]]) auto
  moreover have "aq_free_from q p m = Some m'" using n m1(1) m'(1) Cons.prems(2) by (subst aq_free_from.simps) simp
  ultimately show ?case using m'(2) by blast
qed

lemma aq_destroy_ok:
  assumes "wf_mem m" "aq_inv q m" "aq_allocator q = Some A"
  shows "\<exists>q' m'. d4np_atomic_queue_destroy (Some q) m = Some (Some q', m') \<and> wf_mem m' \<and> aq_head q' = NULL \<and>
    keeps (set (live m) - aq_blocks q m) m m' \<and> set (live m') = set (live m) - aq_blocks q m"
proof -
  have h: "aq_head q \<noteq> NULL" using assms(2) unfolding aq_inv_def by (metis aq_walk_null option.inject)
  have i: "aq_walk (aq_head q) m = Some (aq_nodes q m)" "distinct (aq_nodes q m)" "8 \<le> unat (aq_node_size q)"
    "(\<lambda>p. (p, unat (aq_node_size q))) ` set (aq_nodes q m) \<subseteq> set (live m)" using assms(2) by (auto simp: aq_inv_def aq_blocks_def)
  from aq_free_from_ok [OF assms(1,3) i(1,2,4,3)] h show ?thesis
    by (auto simp: d4np_atomic_queue_destroy_def aq_blocks_def)
qed

end

section \<open>The queue contract\<close>

type_synonym aq_state = "d4np_atomic_queue \<times> mem"

definition aq_state_ok :: "d4np_allocator \<Rightarrow> ptr \<Rightarrow> aq_state \<Rightarrow> bool" where
  "aq_state_ok A out = (\<lambda>(q, m). wf_mem m \<and> aq_inv q m \<and> aq_allocator q = Some A \<and> outside m (aq_blocks q m) out (unat (aq_elem_size q)))"

definition aq_src :: "ptr \<Rightarrow> aq_state \<Rightarrow> ptr \<Rightarrow> bool" where
  "aq_src out = (\<lambda>(q, m) p. outside m (aq_blocks q m) p (unat (aq_elem_size q)) \<and>
     (p + unat (aq_elem_size q) \<le> out \<or> out + unat (aq_elem_size q) \<le> p))"

definition aq_val :: "aq_state \<Rightarrow> ptr \<Rightarrow> byte list" where
  "aq_val = (\<lambda>(q, m) p. peek m p (unat (aq_elem_size q)))"

definition aq_push :: "aq_state \<Rightarrow> ptr \<Rightarrow> (bool \<times> aq_state) option" where
  "aq_push = (\<lambda>(q, m) p. do { (b, r, m') \<leftarrow> d4np_atomic_queue_enqueue (Some q) p m; q' \<leftarrow> r; Some (b, q', m') })"

definition aq_pop :: "ptr \<Rightarrow> aq_state \<Rightarrow> (byte list option \<times> aq_state) option" where
  "aq_pop out = (\<lambda>(q, m). do { (b, r, m') \<leftarrow> d4np_atomic_queue_dequeue (Some q) out m; q' \<leftarrow> r;
     Some (if b then Some (peek m' out (unat (aq_elem_size q))) else None, q', m') })"

context allocator_contract
begin

lemma aq_push_law:
  assumes "aq_state_ok A out s" "aq_src out s p"
  shows "\<exists>b s'. aq_push s p = Some (b, s') \<and> aq_state_ok A out s' \<and>
    (\<lambda>(q, m). aq_elems q m) s' = (\<lambda>(q, m). aq_elems q m) s @ (if b then [aq_val s p] else []) \<and>
    (\<forall>x. aq_src out s x \<longrightarrow> aq_src out s' x \<and> aq_val s' x = aq_val s x)"
proof -
  obtain q m where s: "s = (q, m)" by (cases s)
  have a: "wf_mem m" "aq_inv q m" "aq_allocator q = Some A" "outside m (aq_blocks q m) out (unat (aq_elem_size q))"
    "outside m (aq_blocks q m) p (unat (aq_elem_size q))" using assms s by (auto simp: aq_state_ok_def aq_src_def)
  from aq_enqueue_ok [OF a(1-3,5)] obtain b q' m' where
    e: "d4np_atomic_queue_enqueue (Some q) p m = Some (b, Some q', m')" "wf_mem m'" "aq_inv q' m'" "aq_allocator q' = Some A"
      "aq_elem_size q' = aq_elem_size q" "keeps (set (live m) - aq_blocks q m) m m'" "aq_blocks q' m' \<inter> set (live m) \<subseteq> aq_blocks q m"
      "aq_elems q' m' = aq_elems q m @ (if b then [peek m p (unat (aq_elem_size q))] else [])" by blast
  have "set (live m) - aq_blocks q m \<subseteq> set (live m') - aq_blocks q' m'" using keeps_subset [OF e(6)] e(7) by blast
  note mono = outside_mono [OF _ this] and same = outside_keeps(1) [OF _ e(6)]
  show ?thesis using e a mono same by (auto simp: s aq_push_def aq_state_ok_def aq_src_def aq_val_def)
qed

lemma aq_pop_law:
  assumes "aq_state_ok A out s"
  shows "\<exists>r s'. aq_pop out s = Some (r, s') \<and> aq_state_ok A out s' \<and>
    (case r of None \<Rightarrow> (\<lambda>(q, m). aq_elems q m) s = [] \<and> (\<lambda>(q, m). aq_elems q m) s' = []
     | Some v \<Rightarrow> (\<lambda>(q, m). aq_elems q m) s = v # (\<lambda>(q, m). aq_elems q m) s') \<and>
    (\<forall>x. aq_src out s x \<longrightarrow> aq_src out s' x \<and> aq_val s' x = aq_val s x)"
proof -
  obtain q m where s: "s = (q, m)" by (cases s)
  let ?e = "unat (aq_elem_size q)"
  have a: "wf_mem m" "aq_inv q m" "aq_allocator q = Some A" "outside m (aq_blocks q m) out ?e"
    using assms s by (auto simp: aq_state_ok_def)
  have out0: "out \<noteq> NULL" by (rule valid_nonnull [OF a(1) outside_valid [OF a(4)]])
  show ?thesis
  proof (cases "aq_elems q m")
    case Nil
    with aq_dequeue_empty [OF a(1,2)] assms show ?thesis by (simp add: s aq_pop_def)
  next
    case (Cons v vs)
    from aq_dequeue_ok [OF a(1-3) _ Cons, of out] a(4) out0 obtain q' m' where
      d: "d4np_atomic_queue_dequeue (Some q) out m = Some (True, Some q', m')" "wf_mem m'" "aq_inv q' m'" "aq_allocator q' = Some A"
        "aq_elem_size q' = aq_elem_size q" "aq_elems q' m' = vs" "aq_blocks q' m' \<subseteq> aq_blocks q m"
        "keeps (set (live m) - {(aq_head q, unat (aq_node_size q))}) (poke m out v) m'" by (auto simp: Let_def)
    have hb: "(aq_head q, unat (aq_node_size q)) \<in> aq_blocks q m"
      using a(2) by (cases "aq_nodes q m") (auto simp: aq_inv_def aq_blocks_def aq_walk_Cons)
    have k: "keeps (set (live (poke m out v)) - aq_blocks q m) (poke m out v) m'"
      by (rule keeps_mono [OF d(8)]) (use hb in auto)
    have lv: "length v = ?e" using Cons by (auto simp: aq_elems_def aq_elem_def)
    have sub: "set (live m) - aq_blocks q m \<subseteq> set (live m') - aq_blocks q' m'" using keeps_subset [OF k] d(7) by auto
    have same: "peek m' x ?e = peek (poke m out v) x ?e" if "outside m (aq_blocks q m) x ?e" for x
      by (rule outside_keeps(1) [OF _ k]) (use that in simp)
    have "peek (poke m out v) x ?e = peek m x ?e" if "x + ?e \<le> out \<or> out + ?e \<le> x" for x
      by (rule peek_poke_other) (use that lv in auto)
    moreover have "peek m' out ?e = v" using same [OF a(4)] lv by (simp add: peek_poke_same)
    ultimately show ?thesis using d same a(4) Cons outside_mono [OF _ sub]
      by (auto simp: s aq_pop_def aq_state_ok_def aq_src_def aq_val_def)
  qed
qed

end

sublocale allocator_contract \<subseteq> aq: fifo "aq_state_ok A out" "\<lambda>(q, m). aq_elems q m" "aq_src out" aq_val aq_push "aq_pop out" for out
  by unfold_locales (rule aq_push_law aq_pop_law; assumption)+

context allocator_contract
begin

lemmas aq_is_fifo = aq.fifo_axioms

end

interpretation default_aq: fifo "aq_state_ok d4np_allocator_default out" "\<lambda>(q, m). aq_elems q m" "aq_src out" aq_val aq_push "aq_pop out" for out
  by (rule default_allocator.aq.fifo_axioms)

section \<open>Properties\<close>

text \<open>C25: for every allocator that keeps the contract, any sequence of enqueues and dequeues on a well-formed
  queue is free of undefined behaviour and delivers the elements it held followed by those it
  accepted, in order and byte for byte; an enqueue is refused only when the allocator has no memory.\<close>

theorem atomic_queue_fifo:
  assumes "allocator_contract A" "aq_state_ok A out (q, m)" "\<forall>p. Push p \<in> set ops \<longrightarrow> aq_src out (q, m) p"
  shows "\<exists>ins outs q' m'. fifo.run aq_val aq_push (aq_pop out) ops (q, m) = Some (ins, outs, q', m') \<and>
    aq_state_ok A out (q', m') \<and> outs @ aq_elems q' m' = aq_elems q m @ ins"
proof -
  have f: "fifo (aq_state_ok A out) (\<lambda>(q, m). aq_elems q m) (aq_src out) aq_val aq_push (aq_pop out)"
    by (rule allocator_contract.aq_is_fifo [OF assms(1)])
  show ?thesis using fifo.run_fifo [OF f assms(2,3)] by auto
qed

definition aq_ex_mem :: mem where
  "aq_ex_mem = \<lparr>bytes = (\<lambda>a. if a = 64 then 7 else 0), live = [(1024, 18), (64, 8)], place = (\<lambda>i. 2048 + 64 * i), tick = 0\<rparr>"

definition aq_ex :: d4np_atomic_queue where
  "aq_ex = \<lparr>aq_allocator = Some d4np_allocator_default, aq_elem_size = 2, aq_node_size = 18, aq_head = 1024, aq_tail = 1024\<rparr>"

lemma aq_ex_load: "load_ptr aq_ex_mem 1024 = Some 0"
  by (simp add: load_ptr_def mem_read_def aq_ex_mem_def valid_def peek_def of_le_bytes_def upt8)

lemma aq_ex_ok: "aq_state_ok d4np_allocator_default 68 (aq_ex, aq_ex_mem)" "aq_src 68 (aq_ex, aq_ex_mem) 64" "aq_elems aq_ex aq_ex_mem = []"
proof -
  have w: "aq_walk (aq_head aq_ex) aq_ex_mem = Some [1024]" using aq_ex_load by (simp add: aq_walk_Cons aq_ex_def)
  then have n: "aq_nodes aq_ex aq_ex_mem = [1024]" by (simp add: aq_nodes_def)
  have m: "wf_mem aq_ex_mem" by (simp add: wf_mem_def aq_ex_mem_def ADDR_LIMIT_def)
  show "aq_state_ok d4np_allocator_default 68 (aq_ex, aq_ex_mem)" "aq_src 68 (aq_ex, aq_ex_mem) 64" "aq_elems aq_ex aq_ex_mem = []"
    using m w by (simp_all add: aq_state_ok_def aq_inv_def n aq_src_def aq_blocks_def outside_def aq_elems_def)
      (simp_all add: aq_ex_def aq_ex_mem_def)
qed

theorem atomic_queue_fifo_witness:
  "\<exists>ins outs q' m'. fifo.run aq_val aq_push (aq_pop 68) [Push 64, Pop, Push 64, Pop, Pop] (aq_ex, aq_ex_mem) = Some (ins, outs, q', m') \<and>
    outs @ aq_elems q' m' = ins"
  using atomic_queue_fifo [OF default_allocator.allocator_contract_axioms aq_ex_ok(1), of "[Push 64, Pop, Push 64, Pop, Pop]"] aq_ex_ok(2,3) by auto

text \<open>For every allocator that keeps the contract, \<open>init\<close> either gives an empty well-formed queue on a fresh
  dummy node or reports OVERFLOW or OUT_OF_MEMORY, and \<open>destroy\<close> terminates and frees every node of a
  queue of any length, each once, and nothing else.\<close>

theorem atomic_queue_lifecycle:
  assumes "allocator_contract A" "wf_mem m" "allocator_or_default a = A" "es \<noteq> 0"
  shows "(\<exists>rc q' m'. d4np_atomic_queue_init (Some q0) a es m = Some (rc, Some q', m') \<and> wf_mem m' \<and> keeps (set (live m)) m m' \<and>
      (rc = D4NP_OK \<and> aq_inv q' m' \<and> aq_elems q' m' = [] \<and> aq_allocator q' = Some A \<and> aq_elem_size q' = es \<and>
         aq_blocks q' m' \<inter> set (live m) = {} \<or>
       rc \<in> {D4NP_ERR_OVERFLOW, D4NP_ERR_OUT_OF_MEMORY})) \<and>
    (aq_inv q m \<and> aq_allocator q = Some A \<longrightarrow>
      (\<exists>q' m'. d4np_atomic_queue_destroy (Some q) m = Some (Some q', m') \<and> wf_mem m' \<and> aq_head q' = NULL \<and>
         keeps (set (live m) - aq_blocks q m) m m' \<and> set (live m') = set (live m) - aq_blocks q m))"
  using allocator_contract.aq_init_ok [OF assms, of q0] allocator_contract.aq_destroy_ok [OF assms(1,2), of q] by blast

theorem atomic_queue_lifecycle_witness:
  "\<exists>rc q' m'. d4np_atomic_queue_init (Some aq_ex) None 2 aq_ex_mem = Some (rc, Some q', m') \<and>
    (rc = D4NP_OK \<longrightarrow> aq_elems q' m' = [])"
  using atomic_queue_lifecycle [OF default_allocator.allocator_contract_axioms, of aq_ex_mem None 2 aq_ex aq_ex] aq_ex_ok(1)
  by (auto simp: aq_state_ok_def)

end
