(* ===== verification/Atomic_Queue_SPSC.thy ===== *)
theory Atomic_Queue_SPSC
  imports Atomic_Queue
begin

text \<open>
  The unbounded queue under concurrency: one producer running \<open>enqueue\<close> and one consumer running
  \<open>dequeue\<close>, interleaved at the accesses to the nodes that \<open>concurrency/atomic_queue.c\<close> makes. Nodes are
  kept in a store that allocation extends and \<open>free\<close> shrinks, so that a use after free is a visible
  event: an access to an address outside the store. The consumer's load of the link may be stale and
  return NULL although the producer has published a node, as the C11 acquire load allows; a non-NULL
  result is the published node, with the element written before the release. The histories
  \<open>as_pushed\<close> and \<open>as_popped\<close> are ghost state.
\<close>

section \<open>States and steps\<close>

record aq_node =
  an_next :: ptr
  an_data :: "byte list"

type_synonym aq_store = "ptr \<Rightarrow> aq_node option"

text \<open>Where each thread is, with the values of its local variables.\<close>

datatype enqueuer = EIdle | ENode "byte list" ptr | EFilled "byte list" ptr | ELinked "byte list" ptr
datatype dequeuer = DIdle | DNext ptr | DCopied ptr "byte list" | DMoved ptr

record aq_spsc =
  as_nodes :: aq_store
  as_head :: ptr
  as_tail :: ptr
  as_prod :: enqueuer
  as_cons :: dequeuer
  as_pushed :: "byte list list"
  as_popped :: "byte list list"

text \<open>
  A step of the producer that has no memory, or of the consumer that sees no node, returns at once and
  is a stuttering step. The garbage \<open>d\<close> in a fresh node is arbitrary.
\<close>

inductive aq_step :: "aq_spsc \<Rightarrow> aq_spsc \<Rightarrow> bool" where
  enq_no_memory: "as_prod s = EIdle \<Longrightarrow> aq_step s s"
| enq_alloc: "as_prod s = EIdle \<Longrightarrow> n \<noteq> NULL \<Longrightarrow> n \<notin> dom (as_nodes s) \<Longrightarrow>
     aq_step s (s\<lparr>as_nodes := (as_nodes s)(n \<mapsto> \<lparr>an_next = NULL, an_data = d\<rparr>), as_prod := ENode e n\<rparr>)"
| enq_copy: "as_prod s = ENode e n \<Longrightarrow> as_nodes s n = Some x \<Longrightarrow>
     aq_step s (s\<lparr>as_nodes := (as_nodes s)(n \<mapsto> x\<lparr>an_data := e\<rparr>), as_prod := EFilled e n\<rparr>)"
| enq_publish: "as_prod s = EFilled e n \<Longrightarrow> as_nodes s (as_tail s) = Some x \<Longrightarrow>
     aq_step s (s\<lparr>as_nodes := (as_nodes s)(as_tail s \<mapsto> x\<lparr>an_next := n\<rparr>), as_prod := ELinked e n, as_pushed := as_pushed s @ [e]\<rparr>)"
| enq_tail: "as_prod s = ELinked e n \<Longrightarrow> aq_step s (s\<lparr>as_tail := n, as_prod := EIdle\<rparr>)"
| deq_empty: "as_cons s = DIdle \<Longrightarrow> aq_step s s"
| deq_load: "as_cons s = DIdle \<Longrightarrow> as_nodes s (as_head s) = Some x \<Longrightarrow> an_next x \<noteq> NULL \<Longrightarrow>
     aq_step s (s\<lparr>as_cons := DNext (an_next x)\<rparr>)"
| deq_copy: "as_cons s = DNext n \<Longrightarrow> as_nodes s n = Some x \<Longrightarrow> aq_step s (s\<lparr>as_cons := DCopied n (an_data x)\<rparr>)"
| deq_head: "as_cons s = DCopied n v \<Longrightarrow>
     aq_step s (s\<lparr>as_head := n, as_cons := DMoved (as_head s), as_popped := as_popped s @ [v]\<rparr>)"
| deq_free: "as_cons s = DMoved old \<Longrightarrow> old \<in> dom (as_nodes s) \<Longrightarrow>
     aq_step s (s\<lparr>as_nodes := (as_nodes s)(old := None), as_cons := DIdle\<rparr>)"

definition aq_start :: "ptr \<Rightarrow> byte list \<Rightarrow> aq_spsc" where
  "aq_start dummy d = \<lparr>as_nodes = [dummy \<mapsto> \<lparr>an_next = NULL, an_data = d\<rparr>], as_head = dummy, as_tail = dummy,
     as_prod = EIdle, as_cons = DIdle, as_pushed = [], as_popped = []\<rparr>"

text \<open>The nodes the next step of each thread dereferences or frees.\<close>

definition enq_touches :: "aq_spsc \<Rightarrow> ptr set" where
  "enq_touches s = (case as_prod s of ENode e n \<Rightarrow> {n} | EFilled e n \<Rightarrow> {as_tail s} | _ \<Rightarrow> {})"

definition deq_touches :: "aq_spsc \<Rightarrow> ptr set" where
  "deq_touches s = (case as_cons s of DIdle \<Rightarrow> {as_head s} | DNext n \<Rightarrow> {n} | DMoved old \<Rightarrow> {old} | _ \<Rightarrow> {})"

section \<open>The invariant\<close>

text \<open>The chain of published nodes behind the head.\<close>

fun aq_chain :: "aq_store \<Rightarrow> ptr \<Rightarrow> ptr list \<Rightarrow> bool" where
  "aq_chain N p [] \<longleftrightarrow> (\<exists>x. N p = Some x \<and> an_next x = NULL)"
| "aq_chain N p (q # qs) \<longleftrightarrow> (\<exists>x. N p = Some x \<and> an_next x = q) \<and> aq_chain N q qs"

definition data_at :: "aq_store \<Rightarrow> ptr \<Rightarrow> byte list" where
  "data_at N p = (case N p of None \<Rightarrow> [] | Some x \<Rightarrow> an_data x)"

definition private_nodes :: "aq_spsc \<Rightarrow> ptr list" where
  "private_nodes s = (case as_prod s of ENode e n \<Rightarrow> [n] | EFilled e n \<Rightarrow> [n] | _ \<Rightarrow> []) @
     (case as_cons s of DMoved old \<Rightarrow> [old] | _ \<Rightarrow> [])"

definition enq_ok :: "aq_spsc \<Rightarrow> ptr list \<Rightarrow> bool" where
  "enq_ok s qs = (case as_prod s of
       EIdle \<Rightarrow> as_tail s = last (as_head s # qs)
     | ENode e n \<Rightarrow> as_tail s = last (as_head s # qs) \<and> aq_chain (as_nodes s) n []
     | EFilled e n \<Rightarrow> as_tail s = last (as_head s # qs) \<and> aq_chain (as_nodes s) n [] \<and> data_at (as_nodes s) n = e
     | ELinked e n \<Rightarrow> n = last (as_head s # qs))"

definition deq_ok :: "aq_spsc \<Rightarrow> ptr list \<Rightarrow> bool" where
  "deq_ok s qs = (case as_cons s of
       DIdle \<Rightarrow> True
     | DNext n \<Rightarrow> qs \<noteq> [] \<and> n = hd qs
     | DCopied n v \<Rightarrow> qs \<noteq> [] \<and> n = hd qs \<and> v = data_at (as_nodes s) n
     | DMoved old \<Rightarrow> True)"

text \<open>Every node of the store is in the chain or private to one thread: nothing leaks.\<close>

definition aq_spsc_inv :: "aq_spsc \<Rightarrow> ptr list \<Rightarrow> bool" where
  "aq_spsc_inv s qs \<longleftrightarrow> aq_chain (as_nodes s) (as_head s) qs \<and> distinct (as_head s # qs @ private_nodes s) \<and>
     dom (as_nodes s) = set (as_head s # qs @ private_nodes s) \<and> NULL \<notin> dom (as_nodes s) \<and>
     enq_ok s qs \<and> deq_ok s qs \<and> as_pushed s = as_popped s @ map (data_at (as_nodes s)) qs"

lemmas aq_state_defs = private_nodes_def enq_ok_def deq_ok_def

lemma aq_chain_cong:
  "aq_chain N p qs \<Longrightarrow> \<forall>x \<in> set (p # qs). N' x = N x \<Longrightarrow> aq_chain N' p qs"
  by (induction qs arbitrary: p) auto

lemma data_at_cong: "N' p = N p \<Longrightarrow> data_at N' p = data_at N p"
  by (simp add: data_at_def)

text \<open>Publishing a node behind the last one.\<close>

lemma aq_chain_snoc:
  "aq_chain N p qs \<Longrightarrow> distinct (p # qs) \<Longrightarrow> n \<notin> set (p # qs) \<Longrightarrow> aq_chain N n [] \<Longrightarrow> N (last (p # qs)) = Some x \<Longrightarrow>
   aq_chain (N(last (p # qs) \<mapsto> x\<lparr>an_next := n\<rparr>)) p (qs @ [n])"
proof (induction qs arbitrary: p)
  case (Cons q qs)
  have l: "last (p # q # qs) = last (q # qs)" by simp
  have "aq_chain (N(last (q # qs) \<mapsto> x\<lparr>an_next := n\<rparr>)) q (qs @ [n])"
    by (rule Cons.IH [OF _ _ _ Cons.prems(4) Cons.prems(5) [unfolded l]]) (use Cons.prems(1-3) in auto)
  moreover have "last (q # qs) \<noteq> p" using Cons.prems(2) by (metis distinct.simps(2) last_in_set list.distinct(1))
  ultimately show ?case using Cons.prems(1) unfolding l append_Cons aq_chain.simps by simp
qed simp

lemma inv_enq_alloc:
  assumes "aq_spsc_inv s qs" "as_prod s = EIdle" "n \<noteq> NULL" "n \<notin> dom (as_nodes s)"
  shows "aq_spsc_inv (s\<lparr>as_nodes := (as_nodes s)(n \<mapsto> \<lparr>an_next = NULL, an_data = d\<rparr>), as_prod := ENode e n\<rparr>) qs"
proof -
  let ?N = "(as_nodes s)(n \<mapsto> \<lparr>an_next = NULL, an_data = d\<rparr>)"
  have i: "aq_chain (as_nodes s) (as_head s) qs" "n \<notin> set (as_head s # qs @ private_nodes s)" using assms by (auto simp: aq_spsc_inv_def)
  have c: "aq_chain ?N (as_head s) qs" by (rule aq_chain_cong [OF i(1)]) (use i(2) in auto)
  have d: "data_at ?N p = data_at (as_nodes s) p" if "p \<in> set qs" for p by (rule data_at_cong) (use i(2) that in auto)
  then have "map (data_at ?N) qs = map (data_at (as_nodes s)) qs" by simp
  then show ?thesis using assms i(2) c d by (auto simp: aq_spsc_inv_def aq_state_defs split: dequeuer.splits)
qed

lemma inv_enq_copy:
  assumes "aq_spsc_inv s qs" "as_prod s = ENode e n" "as_nodes s n = Some x"
  shows "aq_spsc_inv (s\<lparr>as_nodes := (as_nodes s)(n \<mapsto> x\<lparr>an_data := e\<rparr>), as_prod := EFilled e n\<rparr>) qs"
proof -
  let ?N = "(as_nodes s)(n \<mapsto> x\<lparr>an_data := e\<rparr>)"
  have i: "aq_chain (as_nodes s) (as_head s) qs" "n \<notin> set (as_head s # qs)" "n \<in> dom (as_nodes s)" using assms by (auto simp: aq_spsc_inv_def private_nodes_def)
  have c: "aq_chain ?N (as_head s) qs" by (rule aq_chain_cong [OF i(1)]) (use i(2) in auto)
  have d: "data_at ?N p = data_at (as_nodes s) p" if "p \<in> set qs" for p by (rule data_at_cong) (use i(2) that in auto)
  have e: "data_at ?N n = e" by (simp add: data_at_def)
  have dm: "dom ?N = dom (as_nodes s)" using i(3) by auto
  have "map (data_at ?N) qs = map (data_at (as_nodes s)) qs" using d by simp
  then show ?thesis using assms i(2) c d e dm by (auto simp: aq_spsc_inv_def aq_state_defs split: dequeuer.splits)
qed

lemma inv_enq_publish:
  assumes "aq_spsc_inv s qs" "as_prod s = EFilled e n" "as_nodes s (as_tail s) = Some x"
  shows "aq_spsc_inv (s\<lparr>as_nodes := (as_nodes s)(as_tail s \<mapsto> x\<lparr>an_next := n\<rparr>), as_prod := ELinked e n, as_pushed := as_pushed s @ [e]\<rparr>) (qs @ [n])"
proof -
  let ?N = "(as_nodes s)(as_tail s \<mapsto> x\<lparr>an_next := n\<rparr>)"
  have i: "aq_chain (as_nodes s) (as_head s) qs" "distinct (as_head s # qs)" "n \<notin> set (as_head s # qs)"
    "aq_chain (as_nodes s) n []" "as_tail s = last (as_head s # qs)" "data_at (as_nodes s) n = e"
    using assms(1,2) by (auto simp: aq_spsc_inv_def private_nodes_def enq_ok_def)
  have c: "aq_chain ?N (as_head s) (qs @ [n])" using aq_chain_snoc [OF i(1-4)] assms(3) i(5) by simp
  have d: "data_at ?N p = data_at (as_nodes s) p" for p using assms(3) by (simp add: data_at_def)
  have dm: "dom ?N = dom (as_nodes s)" using assms(3) by auto
  have "map (data_at ?N) (qs @ [n]) = map (data_at (as_nodes s)) qs @ [e]" using d i(6) by simp
  then show ?thesis using assms(1,2) i(3) c d dm by (auto simp: aq_spsc_inv_def aq_state_defs split: dequeuer.splits)
qed

lemma inv_deq_head:
  assumes "aq_spsc_inv s qs" "as_cons s = DCopied n v"
  shows "aq_spsc_inv (s\<lparr>as_head := n, as_cons := DMoved (as_head s), as_popped := as_popped s @ [v]\<rparr>) (tl qs)"
proof -
  obtain qs' where q: "qs = n # qs'" "v = data_at (as_nodes s) n"
    using assms by (cases qs) (auto simp: aq_spsc_inv_def deq_ok_def)
  show ?thesis using assms by (auto simp: aq_spsc_inv_def aq_state_defs q split: enqueuer.splits)
qed

lemma inv_deq_free:
  assumes "aq_spsc_inv s qs" "as_cons s = DMoved old"
  shows "aq_spsc_inv (s\<lparr>as_nodes := (as_nodes s)(old := None), as_cons := DIdle\<rparr>) qs"
proof -
  let ?N = "(as_nodes s)(old := None)"
  have i: "aq_chain (as_nodes s) (as_head s) qs" "old \<notin> set (as_head s # qs)" using assms by (auto simp: aq_spsc_inv_def private_nodes_def)
  have c: "aq_chain ?N (as_head s) qs" by (rule aq_chain_cong [OF i(1)]) (use i(2) in auto)
  have d: "data_at ?N p = data_at (as_nodes s) p" if "p \<noteq> old" for p using that by (simp add: data_at_def)
  have "map (data_at ?N) qs = map (data_at (as_nodes s)) qs" by (rule map_cong [OF refl d]) (use i(2) in auto)
  then show ?thesis using assms i(2) c d by (auto simp: aq_spsc_inv_def aq_state_defs split: enqueuer.splits)
qed

lemma inv_deq_load:
  assumes "aq_spsc_inv s qs" "as_cons s = DIdle" "as_nodes s (as_head s) = Some x" "an_next x \<noteq> NULL"
  shows "aq_spsc_inv (s\<lparr>as_cons := DNext (an_next x)\<rparr>) qs"
  using assms by (cases qs) (auto simp: aq_spsc_inv_def aq_state_defs split: enqueuer.splits)

lemma aq_step_inv: "aq_step s s' \<Longrightarrow> aq_spsc_inv s qs \<Longrightarrow> \<exists>qs'. aq_spsc_inv s' qs'"
proof (induction rule: aq_step.induct)
  case (enq_alloc s n d e)
  then show ?case using inv_enq_alloc by blast
next
  case (enq_copy s e n x)
  then show ?case using inv_enq_copy by blast
next
  case (enq_publish s e n x)
  then show ?case using inv_enq_publish by blast
next
  case (deq_load s x)
  then show ?case using inv_deq_load by blast
next
  case (deq_head s n v)
  then show ?case using inv_deq_head by blast
next
  case (deq_free s old)
  then show ?case using inv_deq_free by blast
next
  case (enq_tail s e n)
  then show ?case by (intro exI [of _ qs]) (auto simp: aq_spsc_inv_def aq_state_defs split: dequeuer.splits)
next
  case (deq_copy s n x)
  then show ?case by (intro exI [of _ qs]) (auto simp: aq_spsc_inv_def aq_state_defs data_at_def split: enqueuer.splits)
qed blast+

lemma aq_start_inv: "dummy \<noteq> NULL \<Longrightarrow> aq_spsc_inv (aq_start dummy d) []"
  by (simp add: aq_spsc_inv_def aq_start_def aq_state_defs)

lemma aq_reachable_inv:
  assumes "aq_step\<^sup>*\<^sup>* (aq_start dummy d) s" "dummy \<noteq> NULL"
  shows "\<exists>qs. aq_spsc_inv s qs"
  using assms(1) by (induction rule: rtranclp_induct) (use aq_start_inv [OF assms(2)] aq_step_inv in blast)+

section \<open>Properties\<close>

text \<open>C9: in every interleaving of one producer and one consumer, no step dereferences or frees a node that is
  not allocated (there is no use after free and no double free), no thread touches a node the other
  one is about to free, and no node leaks: the store holds exactly the head, the unread elements, and
  at most one private node per thread.\<close>

theorem aq_spsc_no_use_after_free:
  assumes "aq_step\<^sup>*\<^sup>* (aq_start dummy d) s" "dummy \<noteq> NULL"
  shows "enq_touches s \<subseteq> dom (as_nodes s) \<and> deq_touches s \<subseteq> dom (as_nodes s) \<and>
    (\<forall>old. as_cons s = DMoved old \<longrightarrow> old \<notin> enq_touches s) \<and>
    (\<forall>e n. as_prod s = ENode e n \<longrightarrow> n \<notin> deq_touches s) \<and>
    card (dom (as_nodes s)) = 1 + (length (as_pushed s) - length (as_popped s)) + length (private_nodes s)"
proof -
  obtain qs where i: "aq_spsc_inv s qs" using aq_reachable_inv [OF assms] by blast
  let ?D = "as_head s # qs @ private_nodes s"
  have d: "distinct ?D" "dom (as_nodes s) = set ?D" "enq_ok s qs" "deq_ok s qs"
    "as_pushed s = as_popped s @ map (data_at (as_nodes s)) qs" using i by (auto simp: aq_spsc_inv_def)
  have tail: "as_tail s \<in> set (as_head s # qs)" if "as_prod s = EFilled e n" for e n
    using d(3) that last_in_set [of "as_head s # qs"] by (simp add: enq_ok_def split: if_splits)
  have "enq_touches s \<subseteq> set ?D" using tail by (auto simp: enq_touches_def private_nodes_def split: enqueuer.splits)
  moreover have "deq_touches s \<subseteq> set ?D" using d(4)
    by (cases qs) (auto simp: deq_touches_def deq_ok_def private_nodes_def split: dequeuer.splits)
  moreover have "old \<notin> enq_touches s" if "as_cons s = DMoved old" for old
    using d(1) that tail by (auto simp: enq_touches_def private_nodes_def split: enqueuer.splits)
  moreover have "n \<notin> deq_touches s" if "as_prod s = ENode e n" for e n
    using d(1,4) that by (cases qs) (auto simp: deq_touches_def deq_ok_def private_nodes_def split: dequeuer.splits)
  moreover have "card (dom (as_nodes s)) = 1 + (length (as_pushed s) - length (as_popped s)) + length (private_nodes s)"
    unfolding d(2) distinct_card [OF d(1)] by (simp add: d(5))
  ultimately show ?thesis using d(2) by auto
qed

text \<open>In every interleaving, the elements dequeued are a prefix of the elements enqueued, in order, and
  the rest is in the chain of nodes, so none is lost, duplicated or reordered.\<close>

theorem aq_spsc_fifo:
  assumes "aq_step\<^sup>*\<^sup>* (aq_start dummy d) s" "dummy \<noteq> NULL"
  shows "\<exists>qs. aq_chain (as_nodes s) (as_head s) qs \<and> as_pushed s = as_popped s @ map (data_at (as_nodes s)) qs"
  using aq_reachable_inv [OF assms] by (auto simp: aq_spsc_inv_def)

text \<open>A run in which the consumer frees the dummy between the two writes of an enqueue.\<close>

definition aq_mid :: aq_spsc where
  "aq_mid = \<lparr>as_nodes = [32 \<mapsto> \<lparr>an_next = NULL, an_data = [5]\<rparr>], as_head = 32, as_tail = 16,
     as_prod = ELinked [5] 32, as_cons = DIdle, as_pushed = [[5]], as_popped = [[5]]\<rparr>"

lemma aq_mid_reachable: "aq_step\<^sup>*\<^sup>* (aq_start 16 []) aq_mid"
proof -
  let ?s1 = "(aq_start 16 [])\<lparr>as_nodes := (as_nodes (aq_start 16 []))(32 \<mapsto> \<lparr>an_next = NULL, an_data = []\<rparr>), as_prod := ENode [5] 32\<rparr>"
  have 1: "aq_step (aq_start 16 []) ?s1" by (rule enq_alloc) (simp_all add: aq_start_def)
  let ?s2 = "?s1\<lparr>as_nodes := (as_nodes ?s1)(32 \<mapsto> \<lparr>an_next = NULL, an_data = []\<rparr>\<lparr>an_data := [5]\<rparr>), as_prod := EFilled [5] 32\<rparr>"
  have 2: "aq_step ?s1 ?s2" by (rule enq_copy) simp_all
  let ?s3 = "?s2\<lparr>as_nodes := (as_nodes ?s2)(as_tail ?s2 \<mapsto> \<lparr>an_next = NULL, an_data = []\<rparr>\<lparr>an_next := 32\<rparr>), as_prod := ELinked [5] 32,
    as_pushed := as_pushed ?s2 @ [[5]]\<rparr>"
  have 3: "aq_step ?s2 ?s3" by (rule enq_publish) (simp_all add: aq_start_def)
  let ?s4 = "?s3\<lparr>as_cons := DNext (an_next \<lparr>an_next = 32, an_data = []\<rparr>)\<rparr>"
  have 4: "aq_step ?s3 ?s4" by (rule deq_load) (simp_all add: aq_start_def)
  let ?s5 = "?s4\<lparr>as_cons := DCopied 32 (an_data \<lparr>an_next = 0, an_data = [5]\<rparr>)\<rparr>"
  have 5: "aq_step ?s4 ?s5" by (rule deq_copy) (simp_all add: aq_start_def)
  let ?s6 = "?s5\<lparr>as_head := 32, as_cons := DMoved (as_head ?s5), as_popped := as_popped ?s5 @ [[5]]\<rparr>"
  have 6: "aq_step ?s5 ?s6" by (rule deq_head) simp
  have 7: "aq_step ?s6 (?s6\<lparr>as_nodes := (as_nodes ?s6)(16 := None), as_cons := DIdle\<rparr>)" by (rule deq_free) (auto simp: aq_start_def)
  have "?s6\<lparr>as_nodes := (as_nodes ?s6)(16 := None), as_cons := DIdle\<rparr> = aq_mid" by (simp add: aq_mid_def aq_start_def fun_eq_iff)
  with 7 have "aq_step ?s6 aq_mid" by simp
  with 1 2 3 4 5 6 show ?thesis by (meson converse_rtranclp_into_rtranclp rtranclp.rtrancl_refl)
qed

theorem aq_spsc_no_use_after_free_witness: "deq_touches aq_mid \<subseteq> dom (as_nodes aq_mid)"
  using aq_spsc_no_use_after_free [OF aq_mid_reachable] by simp

theorem aq_spsc_fifo_witness: "\<exists>qs. as_pushed aq_mid = as_popped aq_mid @ map (data_at (as_nodes aq_mid)) qs"
  using aq_spsc_fifo [OF aq_mid_reachable] by auto

end
