(* ===== verification/Threads.thy ===== *)
theory Threads
  imports Memory "HOL-Library.Multiset"
begin

text \<open>
  Shared by the theories of blocking concurrency: a system of threads is a list of program counters
  and a step moves one of them. Global quantities are sums over the threads, so the effect of a
  step on them is the single equation \<open>total_upd\<close>. Mutual exclusion is the same for every lock:
  the owner is the one thread whose program counter lies in a critical section.
\<close>

definition total :: "('pc \<Rightarrow> 'm) \<Rightarrow> 'pc list \<Rightarrow> 'm::comm_monoid_add" where
  "total f pcs = sum_list (map f pcs)"

definition cnt :: "('pc \<Rightarrow> bool) \<Rightarrow> 'pc list \<Rightarrow> nat" where
  "cnt P = total (\<lambda>pc. if P pc then 1 else 0)"

lemma total_upd: "i < length pcs \<Longrightarrow> total f (pcs[i := v]) + f (pcs ! i) = total f pcs + f v"
proof (induction pcs arbitrary: i)
  case (Cons x pcs)
  show ?case
  proof (cases i)
    case 0
    then show ?thesis by (simp add: total_def ac_simps)
  next
    case (Suc j)
    with Cons.IH [of j] Cons.prems have "total f (pcs[j := v]) + f (pcs ! j) = total f pcs + f v" by simp
    then have "f x + (total f (pcs[j := v]) + f (pcs ! j)) = f x + (total f pcs + f v)" by simp
    then show ?thesis using Suc by (simp add: total_def ac_simps)
  qed
qed simp

lemma total_upd_same: "i < length pcs \<Longrightarrow> f v = f (pcs ! i) \<Longrightarrow> total f (pcs[i := v]) = total f pcs"
  unfolding total_def by (metis list_update_id map_update nth_map)

lemma total_cong: "(\<And>pc. pc \<in> set pcs \<Longrightarrow> f pc = g pc) \<Longrightarrow> total f pcs = total g pcs"
  unfolding total_def by (metis map_cong)

lemma cnt_upd: "i < length pcs \<Longrightarrow>
    cnt P (pcs[i := v]) + (if P (pcs ! i) then 1 else 0) = cnt P pcs + (if P v then 1 else 0)"
  unfolding cnt_def by (rule total_upd)

lemma cnt_0: "cnt P pcs = 0 \<longleftrightarrow> (\<forall>pc \<in> set pcs. \<not> P pc)"
  by (induction pcs) (auto simp: cnt_def total_def)

lemma cnt_pos: "i < length pcs \<Longrightarrow> P (pcs ! i) \<Longrightarrow> 0 < cnt P pcs"
  by (metis cnt_0 nth_mem not_gr_zero)

lemma cnt_posD: "0 < cnt P pcs \<Longrightarrow> \<exists>i < length pcs. P (pcs ! i)"
  by (metis cnt_0 in_set_conv_nth less_irrefl)

lemma total_pos: "0 < total f pcs \<Longrightarrow> \<exists>pc \<in> set pcs. 0 < (f pc :: nat)"
  by (induction pcs) (auto simp: total_def)

lemma total_ge: "pc \<in> set pcs \<Longrightarrow> f pc \<le> (total f pcs :: nat)"
  unfolding total_def by (simp add: member_le_sum_list)

lemma cnt_mono: "(\<And>pc. P pc \<Longrightarrow> Q pc) \<Longrightarrow> cnt P pcs \<le> cnt Q pcs"
  by (induction pcs) (auto simp: cnt_def total_def intro: add_mono)

lemma cnt_append: "cnt P (xs @ ys) = cnt P xs + cnt P ys"
  by (simp add: cnt_def total_def)

lemma total_append: "total f (xs @ ys) = total f xs + total f ys"
  by (simp add: total_def)

lemma cnt_replicate: "cnt P (replicate n x) = (if P x then n else 0)"
  by (induction n) (auto simp: cnt_def total_def)

lemma total_replicate_0: "f x = 0 \<Longrightarrow> total f (replicate n x) = 0"
  by (induction n) (auto simp: total_def)

lemma set_upd: "pc \<in> set (pcs[i := v]) \<Longrightarrow> pc = v \<or> pc \<in> set pcs"
  using set_update_subset_insert by fastforce

text \<open>The lock field and the critical sections agree.\<close>

definition mutex_ok :: "('pc \<Rightarrow> bool) \<Rightarrow> nat option \<Rightarrow> 'pc list \<Rightarrow> bool" where
  "mutex_ok holds lock pcs \<longleftrightarrow> (\<forall>i < length pcs. holds (pcs ! i) \<longleftrightarrow> lock = Some i) \<and> (\<forall>i. lock = Some i \<longrightarrow> i < length pcs)"

lemma mutex_acquire:
  "mutex_ok holds None pcs \<Longrightarrow> i < length pcs \<Longrightarrow> holds v \<Longrightarrow> mutex_ok holds (Some i) (pcs[i := v])"
  by (auto simp: mutex_ok_def nth_list_update)

lemma mutex_release:
  "mutex_ok holds (Some i) pcs \<Longrightarrow> i < length pcs \<Longrightarrow> \<not> holds v \<Longrightarrow> mutex_ok holds None (pcs[i := v])"
  by (auto simp: mutex_ok_def nth_list_update)

lemma mutex_keep:
  "mutex_ok holds lock pcs \<Longrightarrow> i < length pcs \<Longrightarrow> holds v = holds (pcs ! i) \<Longrightarrow> mutex_ok holds lock (pcs[i := v])"
  by (auto simp: mutex_ok_def nth_list_update)

lemma mutex_owner: "mutex_ok holds lock pcs \<Longrightarrow> i < length pcs \<Longrightarrow> holds (pcs ! i) \<Longrightarrow> lock = Some i"
  by (simp add: mutex_ok_def)

lemma mutex_exclusion: "mutex_ok holds lock pcs \<Longrightarrow> cnt holds pcs \<le> 1"
proof (cases lock)
  case None
  assume "mutex_ok holds lock pcs"
  with None have "\<forall>pc \<in> set pcs. \<not> holds pc" by (auto simp: mutex_ok_def in_set_conv_nth)
  then show ?thesis using cnt_0 [of holds pcs] by simp
next
  case (Some i)
  assume m: "mutex_ok holds lock pcs"
  then have i: "i < length pcs" using Some by (auto simp: mutex_ok_def)
  have "pcs = take i pcs @ pcs ! i # drop (Suc i) pcs" using i by (simp add: id_take_nth_drop)
  moreover have "\<forall>pc \<in> set (take i pcs). \<not> holds pc" "\<forall>pc \<in> set (drop (Suc i) pcs). \<not> holds pc"
    using m Some by (auto simp: mutex_ok_def in_set_conv_nth)
  then have "cnt holds (take i pcs) = 0" "cnt holds (drop (Suc i) pcs) = 0" by (simp_all add: cnt_0)
  moreover have "cnt holds [pcs ! i] \<le> 1" by (simp add: cnt_def total_def)
  ultimately show ?thesis
    using cnt_append [of holds "take i pcs" "[pcs ! i] @ drop (Suc i) pcs"] cnt_append [of holds "[pcs ! i]" "drop (Suc i) pcs"] by simp
qed

end
