(* ===== verification/Thread_Pool.thy ===== *)
theory Thread_Pool
  imports Threads Allocator
begin

text \<open>
  The thread pool (\<open>concurrency/thread_pool.h\<close>, \<open>concurrency/thread_pool.c\<close>): workers, any number of
  submitting threads and the thread that destroys the pool, as a step relation over a list of program
  counters. The queue is the code's list of task nodes, threaded through a store of nodes that
  allocation extends and \<open>free\<close> shrinks. What a thread does between \<open>d4np_mutex_lock\<close> and
  \<open>d4np_mutex_unlock\<close> is one step, enabled only for the owner of the lock, because nobody else accesses
  the fields the lock guards; the semaphore is its count of permits (\<open>Semaphore\<close> relates the two).
  The histories \<open>tp_accepted\<close>, \<open>tp_taken\<close> and \<open>tp_ran\<close> and the answers \<open>tp_results\<close> of the calls of \<open>submit\<close> are
  ghost state. A task is a pair of a function
  pointer and its argument; it is assumed to return.
\<close>

section \<open>States and steps\<close>

type_synonym task = "ptr \<times> ptr"

record d4np_task_node =
  tn_next :: ptr
  tn_task :: task

type_synonym task_store = "ptr \<Rightarrow> d4np_task_node option"

text \<open>
  Workers (\<open>W\<close>), submitters (\<open>S\<close>) and the destroyer (\<open>D\<close>); the argument is the node the thread holds, for
  \<open>DPost\<close> the number of wake-ups still to be posted.
\<close>

datatype tp_pc =
    WWait | WLock | WHold | WRun ptr | WFree ptr | WDone
  | SIdle | SLock ptr | SHold ptr | SReject ptr | SPost
  | DIdle | DLock | DHold | DPost nat | DDone

record tp =
  tp_nodes :: task_store
  tp_q_head :: ptr
  tp_q_tail :: ptr
  tp_shutting_down :: bool
  tp_thread_count :: nat
  tp_threads :: ptr
  tp_ready :: bool
  tp_lock :: "nat option"
  tp_items :: nat
  tp_pcs :: "tp_pc list"
  tp_accepted :: "task list"
  tp_taken :: "task list"
  tp_ran :: "task list"
  tp_results :: "(nat \<times> d4np_status) list"

fun is_worker :: "tp_pc \<Rightarrow> bool" where
  "is_worker WWait = True"
| "is_worker WLock = True"
| "is_worker WHold = True"
| "is_worker (WRun n) = True"
| "is_worker (WFree n) = True"
| "is_worker WDone = True"
| "is_worker _ = False"

definition at :: "tp \<Rightarrow> nat \<Rightarrow> tp_pc \<Rightarrow> bool" where
  "at s i pc \<longleftrightarrow> i < length (tp_pcs s) \<and> tp_pcs s ! i = pc"

definition goto :: "nat \<Rightarrow> tp_pc \<Rightarrow> tp \<Rightarrow> tp" where
  "goto i pc s = s\<lparr>tp_pcs := (tp_pcs s)[i := pc]\<rparr>"

definition answer :: "nat \<Rightarrow> d4np_status \<Rightarrow> tp \<Rightarrow> tp" where
  "answer i rc s = s\<lparr>tp_results := tp_results s @ [(i, rc)]\<rparr>"

text \<open>Appending a node to the queue, and the loop of \<open>destroy\<close> that frees what is left in it.\<close>

definition tp_append :: "ptr \<Rightarrow> tp \<Rightarrow> tp option" where
  "tp_append node s =
     (if tp_q_tail s \<noteq> NULL
      then do {
        x \<leftarrow> tp_nodes s (tp_q_tail s);
        Some (s\<lparr>tp_nodes := (tp_nodes s)(tp_q_tail s \<mapsto> x\<lparr>tn_next := node\<rparr>), tp_q_tail := node\<rparr>) }
      else Some (s\<lparr>tp_q_head := node, tp_q_tail := node\<rparr>))"

partial_function (option) tp_drain :: "ptr \<Rightarrow> task_store \<Rightarrow> task_store option" where
  "tp_drain node N =
     (if node = NULL then Some N
      else do { x \<leftarrow> N node; tp_drain (tn_next x) (N(node := None)) })"

text \<open>
  A worker's loop. It leaves the loop when it is woken and finds the queue empty.
\<close>

inductive pool_worker :: "tp \<Rightarrow> tp \<Rightarrow> bool" where
  w_wait: "at s i WWait \<Longrightarrow> 0 < tp_items s \<Longrightarrow> pool_worker s (goto i WLock (s\<lparr>tp_items := tp_items s - 1\<rparr>))"
| w_lock: "at s i WLock \<Longrightarrow> tp_lock s = None \<Longrightarrow> pool_worker s (goto i WHold (s\<lparr>tp_lock := Some i\<rparr>))"
| w_exit: "at s i WHold \<Longrightarrow> tp_lock s = Some i \<Longrightarrow> tp_q_head s = NULL \<Longrightarrow>
     pool_worker s (goto i WDone (s\<lparr>tp_lock := None\<rparr>))"
| w_take: "at s i WHold \<Longrightarrow> tp_lock s = Some i \<Longrightarrow> tp_q_head s = n \<Longrightarrow> n \<noteq> NULL \<Longrightarrow> tp_nodes s n = Some x \<Longrightarrow>
     pool_worker s (goto i (WRun n) (s\<lparr>tp_q_head := tn_next x,
       tp_q_tail := (if tn_next x = NULL then NULL else tp_q_tail s), tp_lock := None, tp_taken := tp_taken s @ [tn_task x]\<rparr>))"
| w_run: "at s i (WRun n) \<Longrightarrow> tp_nodes s n = Some x \<Longrightarrow>
     pool_worker s (goto i (WFree n) (s\<lparr>tp_ran := tp_ran s @ [tn_task x]\<rparr>))"
| w_free: "at s i (WFree n) \<Longrightarrow> n \<in> dom (tp_nodes s) \<Longrightarrow>
     pool_worker s (goto i WWait (s\<lparr>tp_nodes := (tp_nodes s)(n := None)\<rparr>))"

text \<open>
  A call of \<open>submit\<close> starts and ends at \<open>SIdle\<close>: at once with an error when the function pointer is NULL
  (\<open>s_invalid\<close>) or no node can be allocated (\<open>s_no_memory\<close>), otherwise through the lock.
\<close>

inductive d4np_thread_pool_submit :: "tp \<Rightarrow> tp \<Rightarrow> bool" where
  s_invalid: "at s i SIdle \<Longrightarrow> fst (t :: task) = NULL \<Longrightarrow> d4np_thread_pool_submit s (answer i D4NP_ERR_INVALID_ARGUMENT s)"
| s_no_memory: "at s i SIdle \<Longrightarrow> fst (t :: task) \<noteq> NULL \<Longrightarrow> d4np_thread_pool_submit s (answer i D4NP_ERR_OUT_OF_MEMORY s)"
| s_alloc: "at s i SIdle \<Longrightarrow> fst t \<noteq> NULL \<Longrightarrow> n \<noteq> NULL \<Longrightarrow> n \<notin> dom (tp_nodes s) \<Longrightarrow>
     d4np_thread_pool_submit s (goto i (SLock n) (s\<lparr>tp_nodes := (tp_nodes s)(n \<mapsto> \<lparr>tn_next = NULL, tn_task = t\<rparr>)\<rparr>))"
| s_lock: "at s i (SLock n) \<Longrightarrow> tp_lock s = None \<Longrightarrow> d4np_thread_pool_submit s (goto i (SHold n) (s\<lparr>tp_lock := Some i\<rparr>))"
| s_reject: "at s i (SHold n) \<Longrightarrow> tp_lock s = Some i \<Longrightarrow> tp_shutting_down s \<Longrightarrow>
     d4np_thread_pool_submit s (goto i (SReject n) (s\<lparr>tp_lock := None\<rparr>))"
| s_free: "at s i (SReject n) \<Longrightarrow> n \<in> dom (tp_nodes s) \<Longrightarrow>
     d4np_thread_pool_submit s (answer i D4NP_ERR_UNSUPPORTED (goto i SIdle (s\<lparr>tp_nodes := (tp_nodes s)(n := None)\<rparr>)))"
| s_append: "at s i (SHold n) \<Longrightarrow> tp_lock s = Some i \<Longrightarrow> \<not> tp_shutting_down s \<Longrightarrow> tp_nodes s n = Some x \<Longrightarrow>
     tp_append n s = Some s1 \<Longrightarrow>
     d4np_thread_pool_submit s (goto i SPost (s1\<lparr>tp_lock := None, tp_accepted := tp_accepted s1 @ [tn_task x]\<rparr>))"
| s_post: "at s i SPost \<Longrightarrow> d4np_thread_pool_submit s (answer i D4NP_OK (goto i SIdle (s\<lparr>tp_items := tp_items s + 1\<rparr>)))"

text \<open>
  The destroying thread; a pool whose handle array is NULL is left alone. Joining is enabled once every
  worker has left its loop; after it the rest of \<open>destroy\<close> runs without interference, in one step: the
  queue is drained, the handle array released, the semaphore and the mutex destroyed (\<open>Thread_Pool_Init\<close> has the release over the byte
  memory).
\<close>

inductive d4np_thread_pool_destroy :: "tp \<Rightarrow> tp \<Rightarrow> bool" where
  d_none: "at s i DIdle \<Longrightarrow> tp_threads s = NULL \<Longrightarrow> d4np_thread_pool_destroy s s"
| d_start: "at s i DIdle \<Longrightarrow> tp_threads s \<noteq> NULL \<Longrightarrow> d4np_thread_pool_destroy s (goto i DLock s)"
| d_lock: "at s i DLock \<Longrightarrow> tp_lock s = None \<Longrightarrow> d4np_thread_pool_destroy s (goto i DHold (s\<lparr>tp_lock := Some i\<rparr>))"
| d_down: "at s i DHold \<Longrightarrow> tp_lock s = Some i \<Longrightarrow>
     d4np_thread_pool_destroy s (goto i (DPost (tp_thread_count s)) (s\<lparr>tp_shutting_down := True, tp_lock := None\<rparr>))"
| d_post: "at s i (DPost (Suc k)) \<Longrightarrow> d4np_thread_pool_destroy s (goto i (DPost k) (s\<lparr>tp_items := tp_items s + 1\<rparr>))"
| d_join: "at s i (DPost 0) \<Longrightarrow> \<forall>pc \<in> set (tp_pcs s). is_worker pc \<longrightarrow> pc = WDone \<Longrightarrow>
     tp_drain (tp_q_head s) (tp_nodes s) = Some N \<Longrightarrow>
     d4np_thread_pool_destroy s (goto i DDone (s\<lparr>tp_nodes := N, tp_q_head := NULL, tp_q_tail := NULL, tp_threads := NULL, tp_ready := False\<rparr>))"

inductive tp_step :: "tp \<Rightarrow> tp \<Rightarrow> bool" where
  worker: "pool_worker s s' \<Longrightarrow> tp_step s s'"
| submit: "d4np_thread_pool_submit s s' \<Longrightarrow> tp_step s s'"
| destroy: "d4np_thread_pool_destroy s s' \<Longrightarrow> tp_step s s'"

definition tp_start :: "ptr \<Rightarrow> nat \<Rightarrow> nat \<Rightarrow> tp" where
  "tp_start handles workers clients = \<lparr>tp_nodes = Map.empty, tp_q_head = NULL, tp_q_tail = NULL, tp_shutting_down = False,
     tp_thread_count = workers, tp_threads = handles, tp_ready = True, tp_lock = None, tp_items = 0,
     tp_pcs = replicate workers WWait @ replicate clients SIdle @ [DIdle],
     tp_accepted = [], tp_taken = [], tp_ran = [], tp_results = []\<rparr>"

text \<open>The rules of the three programs as rules of the system.\<close>

inductive_cases tp_stepE: "tp_step s s'"

lemmas tp_w_wait = tp_step.worker [OF pool_worker.w_wait]
lemmas tp_w_lock = tp_step.worker [OF pool_worker.w_lock]
lemmas tp_w_exit = tp_step.worker [OF pool_worker.w_exit]
lemmas tp_w_take = tp_step.worker [OF pool_worker.w_take]
lemmas tp_w_run = tp_step.worker [OF pool_worker.w_run]
lemmas tp_w_free = tp_step.worker [OF pool_worker.w_free]
lemmas tp_s_alloc = tp_step.submit [OF d4np_thread_pool_submit.s_alloc]
lemmas tp_s_lock = tp_step.submit [OF d4np_thread_pool_submit.s_lock]
lemmas tp_s_reject = tp_step.submit [OF d4np_thread_pool_submit.s_reject]
lemmas tp_s_free = tp_step.submit [OF d4np_thread_pool_submit.s_free]
lemmas tp_s_append = tp_step.submit [OF d4np_thread_pool_submit.s_append]
lemmas tp_s_post = tp_step.submit [OF d4np_thread_pool_submit.s_post]
lemmas tp_d_start = tp_step.destroy [OF d4np_thread_pool_destroy.d_start]
lemmas tp_d_lock = tp_step.destroy [OF d4np_thread_pool_destroy.d_lock]
lemmas tp_d_down = tp_step.destroy [OF d4np_thread_pool_destroy.d_down]
lemmas tp_d_post = tp_step.destroy [OF d4np_thread_pool_destroy.d_post]
lemmas tp_d_join = tp_step.destroy [OF d4np_thread_pool_destroy.d_join]

section \<open>The invariant\<close>

fun tq :: "task_store \<Rightarrow> ptr \<Rightarrow> ptr list \<Rightarrow> bool" where
  "tq N p [] \<longleftrightarrow> p = NULL"
| "tq N p (x # xs) \<longleftrightarrow> p = x \<and> x \<noteq> NULL \<and> (\<exists>nd. N x = Some nd \<and> tq N (tn_next nd) xs)"

definition task_at :: "task_store \<Rightarrow> ptr \<Rightarrow> task" where
  "task_at N p = (case N p of None \<Rightarrow> (NULL, NULL) | Some nd \<Rightarrow> tn_task nd)"

fun held :: "tp_pc \<Rightarrow> ptr multiset" where
  "held (WRun n) = {#n#}"
| "held (WFree n) = {#n#}"
| "held (SLock n) = {#n#}"
| "held (SHold n) = {#n#}"
| "held (SReject n) = {#n#}"
| "held _ = {#}"

fun running :: "task_store \<Rightarrow> tp_pc \<Rightarrow> task multiset" where
  "running N (WRun n) = {#task_at N n#}"
| "running N _ = {#}"

fun holds_lock :: "tp_pc \<Rightarrow> bool" where
  "holds_lock WHold = True"
| "holds_lock (SHold n) = True"
| "holds_lock DHold = True"
| "holds_lock _ = False"

fun woken :: "tp_pc \<Rightarrow> bool" where
  "woken WLock = True"
| "woken WHold = True"
| "woken _ = False"

fun posted :: "nat \<Rightarrow> tp_pc \<Rightarrow> nat" where
  "posted n (DPost k) = n - k"
| "posted n DDone = n"
| "posted n _ = 0"

fun closing :: "nat \<Rightarrow> tp_pc \<Rightarrow> bool" where
  "closing n (DPost k) = (k \<le> n)"
| "closing n DDone = True"
| "closing n _ = False"

definition all_nodes :: "tp \<Rightarrow> ptr list \<Rightarrow> ptr multiset" where
  "all_nodes s qs = mset qs + total held (tp_pcs s)"

text \<open>
  Every permit and every waiting task is accounted for: permits that exist, that a worker has taken
  but not used, or that a submitter still owes, and the workers that have exited, on one side; the
  tasks in the queue and the wake-ups the destroyer has posted on the other.
\<close>

definition permits_ok :: "tp \<Rightarrow> ptr list \<Rightarrow> bool" where
  "permits_ok s qs \<longleftrightarrow> tp_items s + cnt woken (tp_pcs s) + cnt (\<lambda>pc. pc = SPost) (tp_pcs s) + cnt (\<lambda>pc. pc = WDone) (tp_pcs s) =
     length qs + total (posted (tp_thread_count s)) (tp_pcs s)"

definition queue_ok :: "tp \<Rightarrow> ptr list \<Rightarrow> bool" where
  "queue_ok s qs \<longleftrightarrow> tq (tp_nodes s) (tp_q_head s) qs \<and> tp_q_tail s = (if qs = [] then NULL else last qs)"

text \<open>The store holds each of the nodes once and nothing else.\<close>

definition owns :: "ptr multiset \<Rightarrow> task_store \<Rightarrow> bool" where
  "owns M N \<longleftrightarrow> set_mset M = dom N \<and> (\<forall>p. count M p \<le> 1) \<and> NULL \<notin> dom N"

definition nodes_ok :: "tp \<Rightarrow> ptr list \<Rightarrow> bool" where
  "nodes_ok s qs \<longleftrightarrow> owns (all_nodes s qs) (tp_nodes s)"

lemma owns_remove:
  assumes "owns (add_mset n M) N"
  shows "owns M (N(n := None))"
proof -
  have "count M n = 0" using assms unfolding owns_def by (metis Suc_eq_plus1 add_le_same_cancel2 count_add_mset le_zero_eq)
  moreover have "count M p \<le> 1" for p using assms unfolding owns_def by (metis count_add_mset le_SucI not_less_eq_eq)
  moreover have "dom N = insert n (set_mset M)" using assms by (simp add: owns_def)
  ultimately show ?thesis using assms by (auto simp: owns_def simp flip: count_eq_zero_iff)
qed

lemma owns_add:
  assumes "owns M N" "n \<notin> dom N" "n \<noteq> NULL"
  shows "owns (add_mset n M) (N(n \<mapsto> x))"
proof -
  have "count M n = 0" using assms(1,2) by (simp add: owns_def count_eq_zero_iff)
  then have "count (add_mset n M) p \<le> 1" for p using assms(1) by (auto simp: owns_def)
  then show ?thesis using assms by (simp add: owns_def)
qed

lemma owns_upd: "owns M N \<Longrightarrow> n \<in> dom N \<Longrightarrow> owns M (N(n \<mapsto> x))"
  by (simp add: owns_def insert_absorb)

definition history_ok :: "tp \<Rightarrow> ptr list \<Rightarrow> bool" where
  "history_ok s qs \<longleftrightarrow> tp_accepted s = tp_taken s @ map (task_at (tp_nodes s)) qs \<and>
     mset (tp_taken s) = mset (tp_ran s) + total (running (tp_nodes s)) (tp_pcs s)"

definition roles_ok :: "tp \<Rightarrow> ptr list \<Rightarrow> bool" where
  "roles_ok s qs \<longleftrightarrow> cnt is_worker (tp_pcs s) = tp_thread_count s \<and>
     (\<forall>pc \<in> set (tp_pcs s). closing (tp_thread_count s) pc \<longrightarrow> tp_shutting_down s) \<and>
     (\<forall>k. DPost k \<in> set (tp_pcs s) \<longrightarrow> k \<le> tp_thread_count s) \<and>
     (WDone \<in> set (tp_pcs s) \<longrightarrow> tp_shutting_down s \<and> qs = [])"

definition tp_inv :: "tp \<Rightarrow> ptr list \<Rightarrow> bool" where
  "tp_inv s qs \<longleftrightarrow> queue_ok s qs \<and> nodes_ok s qs \<and> history_ok s qs \<and> permits_ok s qs \<and> roles_ok s qs \<and>
     mutex_ok holds_lock (tp_lock s) (tp_pcs s)"

lemmas tp_inv_parts = queue_ok_def nodes_ok_def history_ok_def permits_ok_def roles_ok_def

lemma goto_simps [simp]:
  "tp_nodes (goto i pc s) = tp_nodes s" "tp_q_head (goto i pc s) = tp_q_head s" "tp_q_tail (goto i pc s) = tp_q_tail s"
  "tp_shutting_down (goto i pc s) = tp_shutting_down s" "tp_thread_count (goto i pc s) = tp_thread_count s"
  "tp_lock (goto i pc s) = tp_lock s" "tp_items (goto i pc s) = tp_items s" "tp_pcs (goto i pc s) = (tp_pcs s)[i := pc]"
  "tp_accepted (goto i pc s) = tp_accepted s" "tp_taken (goto i pc s) = tp_taken s" "tp_ran (goto i pc s) = tp_ran s"
  "tp_threads (goto i pc s) = tp_threads s" "tp_ready (goto i pc s) = tp_ready s" "tp_results (goto i pc s) = tp_results s"
  by (simp_all add: goto_def)

lemma answer_simps [simp]:
  "tp_nodes (answer i rc s) = tp_nodes s" "tp_q_head (answer i rc s) = tp_q_head s" "tp_q_tail (answer i rc s) = tp_q_tail s"
  "tp_shutting_down (answer i rc s) = tp_shutting_down s" "tp_thread_count (answer i rc s) = tp_thread_count s"
  "tp_lock (answer i rc s) = tp_lock s" "tp_items (answer i rc s) = tp_items s" "tp_pcs (answer i rc s) = tp_pcs s"
  "tp_accepted (answer i rc s) = tp_accepted s" "tp_taken (answer i rc s) = tp_taken s" "tp_ran (answer i rc s) = tp_ran s"
  "tp_threads (answer i rc s) = tp_threads s" "tp_ready (answer i rc s) = tp_ready s"
  "tp_results (answer i rc s) = tp_results s @ [(i, rc)]"
  by (simp_all add: answer_def)

lemma tp_inv_answer [simp]: "tp_inv (answer i rc s) qs = tp_inv s qs"
  by (simp add: tp_inv_def tp_inv_parts all_nodes_def)

section \<open>Every step keeps the invariant\<close>

text \<open>The effect of moving one thread on each sum.\<close>

lemma permits_move:
  assumes "permits_ok s qs" "at s i old" "tp_pcs s' = (tp_pcs s)[i := v]" "tp_thread_count s' = tp_thread_count s"
    and "tp_items s' + of_bool (woken v) + of_bool (v = SPost) + of_bool (v = WDone) + length qs + posted (tp_thread_count s) old =
      tp_items s + of_bool (woken old) + of_bool (old = SPost) + of_bool (old = WDone) + length qs' + posted (tp_thread_count s) v"
  shows "permits_ok s' qs'"
proof -
  have i: "i < length (tp_pcs s)" and o: "tp_pcs s ! i = old" using assms(2) by (auto simp: at_def)
  note u = cnt_upd [OF i, of woken v] cnt_upd [OF i, of "\<lambda>pc. pc = SPost" v] cnt_upd [OF i, of "\<lambda>pc. pc = WDone" v]
    total_upd [OF i, of "posted (tp_thread_count s)" v]
  show ?thesis using assms(1,5) u unfolding permits_ok_def assms(3,4) o of_bool_def by linarith
qed

lemma nodes_move:
  assumes "at s i old" "tp_pcs s' = (tp_pcs s)[i := v]"
  shows "all_nodes s' qs' + (mset qs + held old) = all_nodes s qs + (mset qs' + held v)"
  using total_upd [of i "tp_pcs s" held v] assms by (auto simp: all_nodes_def at_def ac_simps)

lemma roles_move:
  assumes "roles_ok s qs" "at s i old" "tp_pcs s' = (tp_pcs s)[i := v]" "tp_thread_count s' = tp_thread_count s"
    and "is_worker v = is_worker old" "tp_shutting_down s \<longrightarrow> tp_shutting_down s'" "closing (tp_thread_count s) v \<longrightarrow> tp_shutting_down s'"
    and "\<forall>k. v = DPost k \<longrightarrow> k \<le> tp_thread_count s" "v = WDone \<longrightarrow> tp_shutting_down s' \<and> qs' = []"
    and "tp_shutting_down s \<and> qs = [] \<longrightarrow> qs' = []"
  shows "roles_ok s' qs'"
proof -
  have i: "i < length (tp_pcs s)" and o: "tp_pcs s ! i = old" using assms(2) by (auto simp: at_def)
  have "cnt is_worker (tp_pcs s') = cnt is_worker (tp_pcs s)" using cnt_upd [OF i, of is_worker v] assms(3,5) o by simp
  moreover have "pc = v \<or> pc \<in> set (tp_pcs s)" if "pc \<in> set (tp_pcs s')" for pc using set_upd that assms(3) by metis
  ultimately show ?thesis using assms unfolding roles_ok_def by metis
qed

lemma running_move:
  assumes "at s i old" "tp_pcs s' = (tp_pcs s)[i := v]" "\<forall>n. WRun n \<in> set (tp_pcs s) \<longrightarrow> task_at (tp_nodes s') n = task_at (tp_nodes s) n"
  shows "total (running (tp_nodes s')) (tp_pcs s') + running (tp_nodes s') old =
    total (running (tp_nodes s)) (tp_pcs s) + running (tp_nodes s') v"
proof -
  have "total (running (tp_nodes s')) (tp_pcs s) = total (running (tp_nodes s)) (tp_pcs s)"
  proof (rule total_cong)
    fix pc assume "pc \<in> set (tp_pcs s)"
    then show "running (tp_nodes s') pc = running (tp_nodes s) pc"
      using assms(3) by (cases pc rule: tp_pc.exhaust) simp_all
  qed
  then show ?thesis using total_upd [of i "tp_pcs s" "running (tp_nodes s')" v] assms(1,2) by (auto simp: at_def)
qed

text \<open>Steps that only move a thread, take or give a permit, or pass the lock.\<close>

lemma simple_move:
  assumes inv: "tp_inv s qs" and at: "at s i old" and pcs: "tp_pcs s' = (tp_pcs s)[i := v]"
    and same: "tp_nodes s' = tp_nodes s" "tp_q_head s' = tp_q_head s" "tp_q_tail s' = tp_q_tail s" "tp_thread_count s' = tp_thread_count s"
      "tp_accepted s' = tp_accepted s" "tp_taken s' = tp_taken s" "tp_ran s' = tp_ran s"
    and loc: "held v = held old" "\<And>N. running N v = running N old" "is_worker v = is_worker old"
    and items: "tp_items s' + of_bool (woken v) + of_bool (v = SPost) + of_bool (v = WDone) + posted (tp_thread_count s) old =
      tp_items s + of_bool (woken old) + of_bool (old = SPost) + of_bool (old = WDone) + posted (tp_thread_count s) v"
    and down: "tp_shutting_down s \<longrightarrow> tp_shutting_down s'" "closing (tp_thread_count s) v \<longrightarrow> tp_shutting_down s'"
      "\<forall>k. v = DPost k \<longrightarrow> k \<le> tp_thread_count s" "v = WDone \<longrightarrow> tp_shutting_down s' \<and> qs = []"
    and lock: "mutex_ok holds_lock (tp_lock s') (tp_pcs s')"
  shows "tp_inv s' qs"
proof -
  have p: "queue_ok s qs" "nodes_ok s qs" "history_ok s qs" "permits_ok s qs" "roles_ok s qs" using inv by (simp_all add: tp_inv_def)
  have i: "i < length (tp_pcs s)" "tp_pcs s ! i = old" using at by (simp_all add: at_def)
  have "all_nodes s' qs = all_nodes s qs" using nodes_move [OF at pcs, of qs qs] loc(1) by simp
  then have "nodes_ok s' qs" using p(2) same by (simp add: nodes_ok_def)
  moreover have "total (running N) (tp_pcs s') = total (running N) (tp_pcs s)" for N
    using total_upd_same [OF i(1), of "running N" v] loc(2) i(2) pcs by simp
  then have "history_ok s' qs" using p(3) same by (simp add: history_ok_def)
  moreover have "permits_ok s' qs" by (rule permits_move [OF p(4) at pcs same(4)]) (use items in simp)
  moreover have "roles_ok s' qs" by (rule roles_move [OF p(5) at pcs same(4) loc(3) down]) simp
  moreover have "queue_ok s' qs" using p(1) same by (simp add: queue_ok_def)
  ultimately show ?thesis using lock by (simp add: tp_inv_def)
qed

lemma dpost_down:
  assumes "roles_ok s qs" "at s i (DPost k)"
  shows "k \<le> tp_thread_count s" "tp_shutting_down s"
proof -
  have m: "DPost k \<in> set (tp_pcs s)" using assms(2) nth_mem unfolding at_def by metis
  then show k: "k \<le> tp_thread_count s" using assms(1) by (simp add: roles_ok_def)
  then have "closing (tp_thread_count s) (DPost k)" by simp
  with m show "tp_shutting_down s" using assms(1) unfolding roles_ok_def by blast
qed

lemma tq_head: "tq N p qs \<Longrightarrow> p \<noteq> NULL \<longleftrightarrow> qs \<noteq> []"
  by (cases qs) auto

text \<open>A worker that wakes to an empty queue has been woken by the destroyer.\<close>

lemma exit_only_after_shutdown:
  assumes "tp_inv s qs" "at s i WHold" "qs = []"
  shows "tp_shutting_down s"
proof -
  have p: "permits_ok s qs" "roles_ok s qs" using assms(1) by (simp_all add: tp_inv_def)
  have "0 < cnt woken (tp_pcs s)" by (rule cnt_pos [of i]) (use assms(2) in \<open>auto simp: at_def\<close>)
  then have "0 < total (posted (tp_thread_count s)) (tp_pcs s)" using p(1) assms(3) by (simp add: permits_ok_def)
  from total_pos [OF this] obtain pc where pc: "pc \<in> set (tp_pcs s)" "0 < posted (tp_thread_count s) pc" by blast
  then have "closing (tp_thread_count s) pc" using p(2) by (cases pc rule: tp_pc.exhaust) (simp_all add: roles_ok_def)
  then show ?thesis using p(2) pc(1) by (auto simp: roles_ok_def)
qed

lemma held_in:
  assumes "nodes_ok s qs" "at s i pc" "held pc = {#n#}"
  shows "n \<in> dom (tp_nodes s)" "n \<notin> set qs" "\<And>j pc'. at s j pc' \<Longrightarrow> held pc' = {#n#} \<Longrightarrow> j = i"
proof -
  have i: "i < length (tp_pcs s)" "tp_pcs s ! i = pc" using assms(2) by (simp_all add: at_def)
  have a: "total held (tp_pcs s) = total held ((tp_pcs s)[i := SIdle]) + {#n#}"
    using total_upd [OF i(1), of held SIdle] i(2) assms(3) by simp
  have c: "count (all_nodes s qs) n \<le> 1" using assms(1) by (simp add: nodes_ok_def owns_def)
  have "n \<in># all_nodes s qs" using a by (simp add: all_nodes_def)
  then show "n \<in> dom (tp_nodes s)" using assms(1) by (simp add: nodes_ok_def owns_def)
  have "count (mset qs) n = 0" using c a by (simp add: all_nodes_def)
  then show "n \<notin> set qs" by (metis count_eq_zero_iff set_mset_mset)
  fix j pc' assume j: "at s j pc'" "held pc' = {#n#}"
  show "j = i"
  proof (rule ccontr)
    assume "j \<noteq> i"
    then have "total held ((tp_pcs s)[i := SIdle]) = total held ((tp_pcs s)[i := SIdle, j := SIdle]) + {#n#}"
      using total_upd [of j "(tp_pcs s)[i := SIdle]" held SIdle] j by (simp add: at_def)
    then show False using c a by (simp add: all_nodes_def)
  qed
qed

lemma running_in:
  assumes "nodes_ok s qs" "WRun n \<in> set (tp_pcs s)"
  shows "n \<in> dom (tp_nodes s)" "\<And>j pc. at s j pc \<Longrightarrow> held pc = {#n#} \<Longrightarrow> pc = WRun n"
proof -
  from assms(2) obtain i where i: "at s i (WRun n)" by (auto simp: in_set_conv_nth at_def)
  show "n \<in> dom (tp_nodes s)" using held_in(1) [OF assms(1) i] by simp
  show "pc = WRun n" if "at s j pc" "held pc = {#n#}" for j pc
    using held_in(3) [OF assms(1) i _ that] that i by (simp add: at_def)
qed

lemma inv_take:
  assumes "tp_inv s qs" "at s i WHold" "tp_lock s = Some i" "tp_q_head s = n" "n \<noteq> NULL" "tp_nodes s n = Some x"
  shows "tp_inv (goto i (WRun n) (s\<lparr>tp_q_head := tn_next x, tp_q_tail := (if tn_next x = NULL then NULL else tp_q_tail s),
    tp_lock := None, tp_taken := tp_taken s @ [tn_task x]\<rparr>)) (tl qs)" (is "tp_inv ?s _")
proof -
  have p: "queue_ok s qs" "nodes_ok s qs" "history_ok s qs" "permits_ok s qs" "roles_ok s qs" "mutex_ok holds_lock (tp_lock s) (tp_pcs s)"
    using assms(1) by (simp_all add: tp_inv_def)
  obtain qs' where qs: "qs = n # qs'" "tq (tp_nodes s) (tn_next x) qs'"
    using p(1) assms(4-6) by (cases qs) (auto simp: queue_ok_def)
  have pcs: "tp_pcs ?s = (tp_pcs s)[i := WRun n]" by simp
  have "all_nodes ?s qs' = all_nodes s qs" using nodes_move [OF assms(2) pcs, of qs' qs] by (simp add: qs)
  then have "nodes_ok ?s qs'" using p(2) by (simp add: nodes_ok_def)
  moreover have "queue_ok ?s qs'" using p(1) qs tq_head [OF qs(2)] by (auto simp: queue_ok_def)
  moreover have "task_at (tp_nodes s) n = tn_task x" using assms(6) by (simp add: task_at_def)
  then have "history_ok ?s qs'" using p(3) running_move [OF assms(2) pcs] by (simp add: history_ok_def qs(1))
  moreover have "permits_ok ?s qs'" by (rule permits_move [OF p(4) assms(2) pcs]) (simp_all add: qs(1))
  moreover have "roles_ok ?s qs'" by (rule roles_move [OF p(5) assms(2) pcs]) (simp_all add: qs(1))
  moreover have "mutex_ok holds_lock (tp_lock ?s) (tp_pcs ?s)"
    using mutex_release [of holds_lock i "tp_pcs s" "WRun n"] p(6) assms(2,3) by (simp add: at_def)
  ultimately show ?thesis by (simp add: tp_inv_def qs(1))
qed

lemma inv_run:
  assumes "tp_inv s qs" "at s i (WRun n)" "tp_nodes s n = Some x"
  shows "tp_inv (goto i (WFree n) (s\<lparr>tp_ran := tp_ran s @ [tn_task x]\<rparr>)) qs" (is "tp_inv ?s _")
proof -
  have p: "queue_ok s qs" "nodes_ok s qs" "history_ok s qs" "permits_ok s qs" "roles_ok s qs" "mutex_ok holds_lock (tp_lock s) (tp_pcs s)"
    using assms(1) by (simp_all add: tp_inv_def)
  have pcs: "tp_pcs ?s = (tp_pcs s)[i := WFree n]" by simp
  have "all_nodes ?s qs = all_nodes s qs" using nodes_move [OF assms(2) pcs, of qs qs] by simp
  then have "nodes_ok ?s qs" using p(2) by (simp add: nodes_ok_def)
  moreover have "queue_ok ?s qs" using p(1) by (simp add: queue_ok_def)
  moreover have "task_at (tp_nodes s) n = tn_task x" using assms(3) by (simp add: task_at_def)
  then have "history_ok ?s qs" using p(3) running_move [OF assms(2) pcs] by (simp add: history_ok_def)
  moreover have "permits_ok ?s qs" by (rule permits_move [OF p(4) assms(2) pcs]) simp_all
  moreover have "roles_ok ?s qs" by (rule roles_move [OF p(5) assms(2) pcs]) simp_all
  moreover have "mutex_ok holds_lock (tp_lock ?s) (tp_pcs ?s)"
    using mutex_keep [OF p(6)] assms(2) by (simp add: at_def)
  ultimately show ?thesis by (simp add: tp_inv_def)
qed

lemma tq_cong: "tq N p qs \<Longrightarrow> \<forall>q \<in> set qs. N' q = N q \<Longrightarrow> tq N' p qs"
  by (induction qs arbitrary: p) auto

text \<open>Freeing the node a thread holds: a worker after the task has run, a submitter after a rejection.\<close>

lemma inv_free:
  assumes "tp_inv s qs" "at s i old" "old = WFree n \<and> v = WWait \<or> old = SReject n \<and> v = SIdle"
  shows "tp_inv (goto i v (s\<lparr>tp_nodes := (tp_nodes s)(n := None)\<rparr>)) qs" (is "tp_inv ?s _")
proof -
  have p: "queue_ok s qs" "nodes_ok s qs" "history_ok s qs" "permits_ok s qs" "roles_ok s qs" "mutex_ok holds_lock (tp_lock s) (tp_pcs s)"
    using assms(1) by (simp_all add: tp_inv_def)
  have pcs: "tp_pcs ?s = (tp_pcs s)[i := v]" by simp
  have h: "held old = {#n#}" "held v = {#}" using assms(3) by auto
  note n = held_in [OF p(2) assms(2) h(1)]
  have a: "all_nodes s qs = add_mset n (all_nodes ?s qs)" using nodes_move [OF assms(2) pcs, of qs qs] h by simp
  have "nodes_ok ?s qs" using p(2) owns_remove unfolding nodes_ok_def a by simp
  moreover have "queue_ok ?s qs" using p(1) n(2) tq_cong [of "tp_nodes s" "tp_q_head s" qs "tp_nodes ?s"] by (auto simp: queue_ok_def)
  moreover have t: "task_at (tp_nodes ?s) q = task_at (tp_nodes s) q" if "q \<noteq> n" for q using that by (simp add: task_at_def)
  moreover have "\<forall>q. WRun q \<in> set (tp_pcs s) \<longrightarrow> q \<noteq> n" using running_in(2) [OF p(2) _ assms(2)] h(1) assms(3) by blast
  then have "total (running (tp_nodes ?s)) (tp_pcs ?s) = total (running (tp_nodes s)) (tp_pcs s)"
    using running_move [OF assms(2) pcs] t assms(3) by auto
  moreover have "map (task_at (tp_nodes ?s)) qs = map (task_at (tp_nodes s)) qs" by (rule map_cong [OF refl t]) (use n(2) in auto)
  ultimately have "nodes_ok ?s qs" "queue_ok ?s qs" "history_ok ?s qs" using p(3) by (simp_all add: history_ok_def)
  moreover have "permits_ok ?s qs" by (rule permits_move [OF p(4) assms(2) pcs]) (use assms(3) in auto)
  moreover have "roles_ok ?s qs" by (rule roles_move [OF p(5) assms(2) pcs]) (use assms(3) in auto)
  moreover have "mutex_ok holds_lock (tp_lock ?s) (tp_pcs ?s)"
    using mutex_keep [OF p(6), of i v] assms(2,3) by (auto simp: at_def)
  ultimately show ?thesis by (simp add: tp_inv_def)
qed

lemma inv_alloc:
  assumes "tp_inv s qs" "at s i SIdle" "n \<noteq> NULL" "n \<notin> dom (tp_nodes s)"
  shows "tp_inv (goto i (SLock n) (s\<lparr>tp_nodes := (tp_nodes s)(n \<mapsto> \<lparr>tn_next = NULL, tn_task = t\<rparr>)\<rparr>)) qs" (is "tp_inv ?s _")
proof -
  have p: "queue_ok s qs" "nodes_ok s qs" "history_ok s qs" "permits_ok s qs" "roles_ok s qs" "mutex_ok holds_lock (tp_lock s) (tp_pcs s)"
    using assms(1) by (simp_all add: tp_inv_def)
  have pcs: "tp_pcs ?s = (tp_pcs s)[i := SLock n]" by simp
  have d: "set qs \<subseteq> dom (tp_nodes s)" using p(2) by (auto simp: nodes_ok_def owns_def all_nodes_def)
  then have nq: "n \<notin> set qs" using assms(4) by blast
  have "all_nodes ?s qs = add_mset n (all_nodes s qs)" using nodes_move [OF assms(2) pcs, of qs qs] by simp
  then have "nodes_ok ?s qs" using owns_add [OF p(2) [unfolded nodes_ok_def] assms(4,3)] by (simp add: nodes_ok_def)
  moreover have "queue_ok ?s qs" using p(1) nq tq_cong [of "tp_nodes s" "tp_q_head s" qs "tp_nodes ?s"] by (auto simp: queue_ok_def)
  moreover have t: "task_at (tp_nodes ?s) q = task_at (tp_nodes s) q" if "q \<noteq> n" for q using that by (simp add: task_at_def)
  moreover have "\<forall>q. WRun q \<in> set (tp_pcs s) \<longrightarrow> q \<noteq> n" using running_in(1) [OF p(2)] assms(4) by blast
  then have "total (running (tp_nodes ?s)) (tp_pcs ?s) = total (running (tp_nodes s)) (tp_pcs s)"
    using running_move [OF assms(2) pcs] t by auto
  moreover have "map (task_at (tp_nodes ?s)) qs = map (task_at (tp_nodes s)) qs" by (rule map_cong [OF refl t]) (use nq in auto)
  ultimately have "nodes_ok ?s qs" "queue_ok ?s qs" "history_ok ?s qs" using p(3) by (simp_all add: history_ok_def)
  moreover have "permits_ok ?s qs" by (rule permits_move [OF p(4) assms(2) pcs]) simp_all
  moreover have "roles_ok ?s qs" by (rule roles_move [OF p(5) assms(2) pcs]) simp_all
  moreover have "mutex_ok holds_lock (tp_lock ?s) (tp_pcs ?s)" using mutex_keep [OF p(6)] assms(2) by (simp add: at_def)
  ultimately show ?thesis by (simp add: tp_inv_def)
qed

lemma tq_snoc:
  "tq N p qs \<Longrightarrow> distinct qs \<Longrightarrow> qs \<noteq> [] \<Longrightarrow> n \<notin> set qs \<Longrightarrow> N n = Some y \<Longrightarrow> tn_next y = NULL \<Longrightarrow> n \<noteq> NULL \<Longrightarrow> N (last qs) = Some x \<Longrightarrow>
   tq (N(last qs \<mapsto> x\<lparr>tn_next := n\<rparr>)) p (qs @ [n])"
proof (induction qs arbitrary: p)
  case (Cons q qs)
  show ?case
  proof (cases "qs = []")
    case True
    with Cons.prems show ?thesis by auto
  next
    case False
    from Cons.prems(1) obtain nd where nd: "p = q" "q \<noteq> NULL" "N q = Some nd" "tq N (tn_next nd) qs" by auto
    have "last qs \<noteq> q" using Cons.prems(2) False last_in_set by fastforce
    moreover have "tq (N(last qs \<mapsto> x\<lparr>tn_next := n\<rparr>)) (tn_next nd) (qs @ [n])"
      by (rule Cons.IH [OF nd(4)]) (use Cons.prems False in auto)
    ultimately show ?thesis unfolding last_ConsR [OF False] append_Cons tq.simps using nd(1-3) by auto
  qed
qed simp

text \<open>The nodes submitters hold are not linked to anything.\<close>

definition fresh_ok :: "tp \<Rightarrow> bool" where
  "fresh_ok s \<longleftrightarrow> (\<forall>n. SLock n \<in> set (tp_pcs s) \<or> SHold n \<in> set (tp_pcs s) \<longrightarrow> (\<exists>x. tp_nodes s n = Some x \<and> tn_next x = NULL))"

lemma append_ok:
  assumes "queue_ok s qs" "nodes_ok s qs" "at s i (SHold n)" "tp_nodes s n = Some y" "tn_next y = NULL" "tp_append n s = Some s1"
  shows "tq (tp_nodes s1) (tp_q_head s1) (qs @ [n])" "tp_q_tail s1 = n" "\<And>q. task_at (tp_nodes s1) q = task_at (tp_nodes s) q"
    "dom (tp_nodes s1) = dom (tp_nodes s)" "tp_pcs s1 = tp_pcs s" "tp_accepted s1 = tp_accepted s" "tp_taken s1 = tp_taken s" "tp_ran s1 = tp_ran s"
    "tp_items s1 = tp_items s" "tp_thread_count s1 = tp_thread_count s" "tp_shutting_down s1 = tp_shutting_down s"
    "\<And>q. q \<notin> set qs \<Longrightarrow> tp_nodes s1 q = tp_nodes s q"
proof -
  note h = held_in [OF assms(2,3), of n, simplified]
  have n0: "n \<noteq> NULL" using h(1) assms(2) unfolding nodes_ok_def owns_def by (metis domI)
  have dist: "distinct qs"
  proof (rule ccontr)
    assume "\<not> distinct qs"
    then obtain q where "1 < count (mset qs) q" by (metis distinct_count_atmost_1 count_eq_zero_iff less_one linorder_neqE_nat set_mset_mset)
    then have "1 < count (all_nodes s qs) q" by (simp add: all_nodes_def)
    then show False using assms(2) by (metis nodes_ok_def owns_def not_le)
  qed
  have q: "tq (tp_nodes s) (tp_q_head s) qs" "tp_q_tail s = (if qs = [] then NULL else last qs)" using assms(1) by (simp_all add: queue_ok_def)
  have "tq (tp_nodes s1) (tp_q_head s1) (qs @ [n]) \<and> tp_q_tail s1 = n \<and> (\<forall>q. task_at (tp_nodes s1) q = task_at (tp_nodes s) q) \<and>
    dom (tp_nodes s1) = dom (tp_nodes s) \<and> tp_pcs s1 = tp_pcs s \<and> tp_accepted s1 = tp_accepted s \<and> tp_taken s1 = tp_taken s \<and> tp_ran s1 = tp_ran s \<and>
    tp_items s1 = tp_items s \<and> tp_thread_count s1 = tp_thread_count s \<and> tp_shutting_down s1 = tp_shutting_down s \<and>
    (\<forall>q. q \<notin> set qs \<longrightarrow> tp_nodes s1 q = tp_nodes s q)"
  proof (cases "qs = []")
    case True
    then have "s1 = s\<lparr>tp_q_head := n, tp_q_tail := n\<rparr>" using assms(6) q(2) by (simp add: tp_append_def)
    then show ?thesis using True assms(4,5) n0 by simp
  next
    case False
    have "last qs \<in> dom (tp_nodes s)" using assms(2) False by (auto simp: nodes_ok_def owns_def all_nodes_def)
    then obtain x where x: "tp_nodes s (last qs) = Some x" by blast
    have "last qs \<noteq> NULL" using x assms(2) unfolding nodes_ok_def owns_def by (metis domI)
    then have s1: "s1 = s\<lparr>tp_nodes := (tp_nodes s)(last qs \<mapsto> x\<lparr>tn_next := n\<rparr>), tp_q_tail := n\<rparr>"
      using assms(6) q(2) False x by (simp add: tp_append_def)
    have "tq (tp_nodes s1) (tp_q_head s1) (qs @ [n])"
      using tq_snoc [OF q(1) dist False h(2) assms(4,5) n0 x] by (simp add: s1)
    then show ?thesis using x False by (auto simp: s1 task_at_def)
  qed
  then show "tq (tp_nodes s1) (tp_q_head s1) (qs @ [n])" "tp_q_tail s1 = n" "\<And>q. task_at (tp_nodes s1) q = task_at (tp_nodes s) q"
    "dom (tp_nodes s1) = dom (tp_nodes s)" "tp_pcs s1 = tp_pcs s" "tp_accepted s1 = tp_accepted s" "tp_taken s1 = tp_taken s" "tp_ran s1 = tp_ran s"
    "tp_items s1 = tp_items s" "tp_thread_count s1 = tp_thread_count s" "tp_shutting_down s1 = tp_shutting_down s"
    "\<And>q. q \<notin> set qs \<Longrightarrow> tp_nodes s1 q = tp_nodes s q"
    by simp_all
qed

lemma inv_append:
  assumes "tp_inv s qs" "at s i (SHold n)" "tp_lock s = Some i" "\<not> tp_shutting_down s" "tp_nodes s n = Some x" "tn_next x = NULL"
    "tp_append n s = Some s1"
  shows "tp_inv (goto i SPost (s1\<lparr>tp_lock := None, tp_accepted := tp_accepted s1 @ [tn_task x]\<rparr>)) (qs @ [n])" (is "tp_inv ?s _")
proof -
  have p: "queue_ok s qs" "nodes_ok s qs" "history_ok s qs" "permits_ok s qs" "roles_ok s qs" "mutex_ok holds_lock (tp_lock s) (tp_pcs s)"
    using assms(1) by (simp_all add: tp_inv_def)
  note a = append_ok [OF p(1,2) assms(2,5-7)]
  have pcs: "tp_pcs ?s = (tp_pcs s)[i := SPost]" by (simp add: a)
  have "all_nodes ?s (qs @ [n]) = all_nodes s qs" using nodes_move [OF assms(2) pcs, of "qs @ [n]" qs] by simp
  then have "nodes_ok ?s (qs @ [n])" using p(2) a(4) by (simp add: nodes_ok_def owns_def)
  moreover have "queue_ok ?s (qs @ [n])" using a(1,2) by (simp add: queue_ok_def)
  moreover have "task_at (tp_nodes s) n = tn_task x" using assms(5) by (simp add: task_at_def)
  then have "history_ok ?s (qs @ [n])" using p(3) running_move [OF assms(2) pcs] a(3) by (simp add: history_ok_def a)
  moreover have "permits_ok ?s (qs @ [n])" by (rule permits_move [OF p(4) assms(2) pcs]) (simp_all add: a)
  moreover have "roles_ok ?s (qs @ [n])" by (rule roles_move [OF p(5) assms(2) pcs]) (use assms(4) in \<open>simp_all add: a\<close>)
  moreover have "mutex_ok holds_lock (tp_lock ?s) (tp_pcs ?s)"
    using mutex_release [of holds_lock i "tp_pcs s" SPost] p(6) assms(2,3) by (simp add: at_def a)
  ultimately show ?thesis by (simp add: tp_inv_def)
qed

lemma workers_done:
  assumes "roles_ok s qs" "0 < tp_thread_count s" "\<forall>pc \<in> set (tp_pcs s). is_worker pc \<longrightarrow> pc = WDone"
  shows "qs = []"
proof -
  have "0 < cnt is_worker (tp_pcs s)" using assms(1,2) by (simp add: roles_ok_def)
  then obtain pc where "pc \<in> set (tp_pcs s)" "is_worker pc" by (metis cnt_0 less_numeral_extra(3))
  with assms(1,3) show ?thesis by (auto simp: roles_ok_def)
qed

lemma inv_join:
  assumes "tp_inv s qs" "0 < tp_thread_count s" "at s i (DPost 0)" "\<forall>pc \<in> set (tp_pcs s). is_worker pc \<longrightarrow> pc = WDone"
    "tp_drain (tp_q_head s) (tp_nodes s) = Some N"
  shows "N = tp_nodes s \<and> qs = [] \<and> tp_inv (goto i DDone (s\<lparr>tp_nodes := N, tp_q_head := NULL, tp_q_tail := NULL, tp_threads := NULL, tp_ready := False\<rparr>)) []"
proof -
  have p: "queue_ok s qs" "roles_ok s qs" "mutex_ok holds_lock (tp_lock s) (tp_pcs s)" using assms(1) by (simp_all add: tp_inv_def)
  have qs: "qs = []" by (rule workers_done [OF p(2) assms(2,4)])
  then have h: "tp_q_head s = NULL" "tp_q_tail s = NULL" using p(1) by (simp_all add: queue_ok_def)
  then have N: "N = tp_nodes s" using assms(5) by (simp add: tp_drain.simps)
  note d = dpost_down [OF p(2) assms(3)]
  have "tp_inv (goto i DDone (s\<lparr>tp_nodes := N, tp_q_head := NULL, tp_q_tail := NULL, tp_threads := NULL, tp_ready := False\<rparr>)) qs"
    by (rule simple_move [OF assms(1,3), where v = DDone]) (use N h d mutex_keep [OF p(3), of i DDone] assms(3) in \<open>auto simp: at_def\<close>)
  then show ?thesis using N qs by simp
qed

text \<open>The rest of the steps.\<close>

definition tp_good :: "tp \<Rightarrow> bool" where
  "tp_good s \<longleftrightarrow> (\<exists>qs. tp_inv s qs) \<and> fresh_ok s \<and> 0 < tp_thread_count s"

lemma tp_good_answer [simp]: "tp_good (answer i rc s) = tp_good s"
  by (simp add: tp_good_def fresh_ok_def)

lemma lock_steps:
  assumes "tp_inv s qs" "at s i old" "tp_lock s = None" "(old, v) = (WLock, WHold) \<or> (\<exists>n. (old, v) = (SLock n, SHold n)) \<or> (old, v) = (DLock, DHold)"
  shows "tp_inv (goto i v (s\<lparr>tp_lock := Some i\<rparr>)) qs"
proof -
  have "mutex_ok holds_lock None (tp_pcs s)" using assms(1,3) by (simp add: tp_inv_def)
  then have "mutex_ok holds_lock (Some i) ((tp_pcs s)[i := v])"
    by (rule mutex_acquire) (use assms(2,4) in \<open>auto simp: at_def\<close>)
  then show ?thesis by (intro simple_move [OF assms(1,2), where v = v]) (use assms(4) in auto)
qed

lemma inv_exit:
  assumes "tp_inv s qs" "at s i WHold" "tp_lock s = Some i" "tp_q_head s = NULL"
  shows "tp_inv (goto i WDone (s\<lparr>tp_lock := None\<rparr>)) qs"
proof -
  have qs: "qs = []" using assms(1,4) tq_head unfolding tp_inv_def queue_ok_def by metis
  have "mutex_ok holds_lock None ((tp_pcs s)[i := WDone])"
    using mutex_release [of holds_lock i "tp_pcs s" WDone] assms by (simp add: tp_inv_def at_def)
  then show ?thesis
    using exit_only_after_shutdown [OF assms(1,2) qs] qs by (intro simple_move [OF assms(1,2), where v = WDone]) auto
qed

lemma inv_unlocked_moves:
  assumes "tp_inv s qs" "at s i old"
  shows "old = WWait \<Longrightarrow> 0 < tp_items s \<Longrightarrow> tp_inv (goto i WLock (s\<lparr>tp_items := tp_items s - 1\<rparr>)) qs"
    "old = SPost \<Longrightarrow> tp_inv (goto i SIdle (s\<lparr>tp_items := tp_items s + 1\<rparr>)) qs"
    "old = DIdle \<Longrightarrow> tp_inv (goto i DLock s) qs"
    "old = DPost (Suc k) \<Longrightarrow> tp_inv (goto i (DPost k) (s\<lparr>tp_items := tp_items s + 1\<rparr>)) qs"
proof -
  have m: "mutex_ok holds_lock (tp_lock s) ((tp_pcs s)[i := v])" if "holds_lock v = holds_lock old" for v
    using mutex_keep [of holds_lock "tp_lock s" "tp_pcs s" i v] assms that by (simp add: tp_inv_def at_def)
  have r: "roles_ok s qs" using assms(1) by (simp add: tp_inv_def)
  show "tp_inv (goto i WLock (s\<lparr>tp_items := tp_items s - 1\<rparr>)) qs" if "old = WWait" "0 < tp_items s"
    by (rule simple_move [OF assms, where v = WLock]) (use m that in auto)
  show "tp_inv (goto i SIdle (s\<lparr>tp_items := tp_items s + 1\<rparr>)) qs" if "old = SPost"
    by (rule simple_move [OF assms, where v = SIdle]) (use m that in auto)
  show "tp_inv (goto i DLock s) qs" if "old = DIdle"
    by (rule simple_move [OF assms, where v = DLock]) (use m that in auto)
  show "tp_inv (goto i (DPost k) (s\<lparr>tp_items := tp_items s + 1\<rparr>)) qs" if o: "old = DPost (Suc k)"
  proof -
    have "Suc k \<le> tp_thread_count s" "tp_shutting_down s" using dpost_down [OF r] assms(2) o by simp_all
    then show ?thesis by (intro simple_move [OF assms, where v = "DPost k"]) (use m o in auto)
  qed
qed

lemma inv_locked_moves:
  assumes "tp_inv s qs" "at s i old" "tp_lock s = Some i"
  shows "old = SHold n \<Longrightarrow> tp_inv (goto i (SReject n) (s\<lparr>tp_lock := None\<rparr>)) qs"
    "old = DHold \<Longrightarrow> tp_inv (goto i (DPost (tp_thread_count s)) (s\<lparr>tp_shutting_down := True, tp_lock := None\<rparr>)) qs"
proof -
  have m: "mutex_ok holds_lock None ((tp_pcs s)[i := v])" if "\<not> holds_lock v" for v
    using mutex_release [of holds_lock i "tp_pcs s" v] assms that by (simp add: tp_inv_def at_def)
  show "tp_inv (goto i (SReject n) (s\<lparr>tp_lock := None\<rparr>)) qs" if "old = SHold n"
    by (rule simple_move [OF assms(1,2), where v = "SReject n"]) (use m that in auto)
  show "tp_inv (goto i (DPost (tp_thread_count s)) (s\<lparr>tp_shutting_down := True, tp_lock := None\<rparr>)) qs" if "old = DHold"
    by (rule simple_move [OF assms(1,2), where v = "DPost (tp_thread_count s)"]) (use m that in auto)
qed

lemma fresh_move:
  assumes "fresh_ok s" "tp_pcs s' = (tp_pcs s)[i := v]"
    "\<forall>n. v = SLock n \<or> v = SHold n \<longrightarrow> (\<exists>x. tp_nodes s' n = Some x \<and> tn_next x = NULL)"
    "\<forall>n. SLock n \<in> set (tp_pcs s) \<or> SHold n \<in> set (tp_pcs s) \<longrightarrow> tp_nodes s' n = tp_nodes s n"
  shows "fresh_ok s'"
  unfolding fresh_ok_def
proof (intro allI impI)
  fix n assume "SLock n \<in> set (tp_pcs s') \<or> SHold n \<in> set (tp_pcs s')"
  then have "(v = SLock n \<or> v = SHold n) \<or> SLock n \<in> set (tp_pcs s) \<or> SHold n \<in> set (tp_pcs s)"
    using set_upd [of _ "tp_pcs s" i v] unfolding assms(2) by metis
  then show "\<exists>x. tp_nodes s' n = Some x \<and> tn_next x = NULL"
    using assms(1,3,4) unfolding fresh_ok_def by metis
qed

lemma fresh_at:
  assumes "fresh_ok s" "at s i (SLock n) \<or> at s i (SHold n)"
  shows "\<exists>x. tp_nodes s n = Some x \<and> tn_next x = NULL"
proof -
  have "SLock n \<in> set (tp_pcs s) \<or> SHold n \<in> set (tp_pcs s)" using assms(2) nth_mem unfolding at_def by metis
  with assms(1) show ?thesis unfolding fresh_ok_def by blast
qed

lemma submitter_holds:
  assumes "SLock n \<in> set (tp_pcs s) \<or> SHold n \<in> set (tp_pcs s)"
  obtains j pc where "at s j pc" "held pc = {#n#}" "pc = SLock n \<or> pc = SHold n"
  using assms that unfolding in_set_conv_nth at_def by (metis held.simps(3,4))

lemma submitter_other:
  assumes "nodes_ok s qs" "at s i old" "held old = {#k#}" "old \<noteq> SLock k" "old \<noteq> SHold k"
    "SLock m \<in> set (tp_pcs s) \<or> SHold m \<in> set (tp_pcs s)"
  shows "m \<noteq> k"
proof
  assume "m = k"
  obtain j pc where j: "at s j pc" "held pc = {#m#}" "pc = SLock m \<or> pc = SHold m" by (rule submitter_holds [OF assms(6)])
  have "j = i" using held_in(3) [OF assms(1-3), of j pc] j \<open>m = k\<close> by simp
  then have "pc = old" using j(1) assms(2) by (simp add: at_def)
  then show False using j(3) assms(4,5) \<open>m = k\<close> by blast
qed

lemma worker_good:
  assumes "pool_worker s s'" "tp_good s"
  shows "tp_good s'"
proof -
  obtain qs where inv: "tp_inv s qs" and fr: "fresh_ok s" and n: "0 < tp_thread_count s" using assms(2) by (auto simp: tp_good_def)
  have nodes: "nodes_ok s qs" using inv by (simp add: tp_inv_def)
  from assms(1) show ?thesis
  proof cases
    case (w_wait i)
    then show ?thesis using inv_unlocked_moves(1) [OF inv w_wait(2)] n fresh_move [OF fr, of s' i WLock] by (auto simp: tp_good_def)
  next
    case (w_lock i)
    then show ?thesis using lock_steps [OF inv w_lock(2,3), of WHold] n fresh_move [OF fr, of s' i WHold] by (auto simp: tp_good_def)
  next
    case (w_exit i)
    then show ?thesis using inv_exit [OF inv w_exit(2-4)] n fresh_move [OF fr, of s' i WDone] by (auto simp: tp_good_def)
  next
    case (w_take i k x)
    then show ?thesis using inv_take [OF inv w_take(2-6)] n fresh_move [OF fr, of s' i "WRun k"] by (auto simp: tp_good_def)
  next
    case (w_run i k x)
    then show ?thesis using inv_run [OF inv w_run(2,3)] n fresh_move [OF fr, of s' i "WFree k"] by (auto simp: tp_good_def)
  next
    case (w_free i k)
    have "tp_nodes s' m = tp_nodes s m" if "SLock m \<in> set (tp_pcs s) \<or> SHold m \<in> set (tp_pcs s)" for m
      using submitter_other [OF nodes w_free(2) _ _ _ that, of k] w_free(1) by simp
    then show ?thesis using inv_free [OF inv w_free(2), of k WWait] w_free n fresh_move [OF fr, of s' i WWait] by (auto simp: tp_good_def)
  qed
qed

lemma submit_good:
  assumes "d4np_thread_pool_submit s s'" "tp_good s"
  shows "tp_good s'"
proof -
  obtain qs where inv: "tp_inv s qs" and fr: "fresh_ok s" and n: "0 < tp_thread_count s" using assms(2) by (auto simp: tp_good_def)
  have nodes: "nodes_ok s qs" using inv by (simp add: tp_inv_def)
  from assms(1) show ?thesis
  proof cases
    case (s_invalid i t)
    then show ?thesis using assms(2) by simp
  next
    case (s_no_memory i t)
    then show ?thesis using assms(2) by simp
  next
    case (s_alloc i t k)
    have "tp_nodes s' m = tp_nodes s m" if "SLock m \<in> set (tp_pcs s) \<or> SHold m \<in> set (tp_pcs s)" for m
      using fr that s_alloc(1,5) by (auto simp: fresh_ok_def)
    then show ?thesis using inv_alloc [OF inv s_alloc(2,4,5), of t] s_alloc(1) n fresh_move [OF fr, of s' i "SLock k"] by (auto simp: tp_good_def)
  next
    case (s_lock i k)
    then show ?thesis using lock_steps [OF inv s_lock(2,3), of "SHold k"] n fresh_move [OF fr, of s' i "SHold k"] fresh_at [OF fr, of i k]
      by (auto simp: tp_good_def)
  next
    case (s_reject i k)
    then show ?thesis using inv_locked_moves(1) [OF inv s_reject(2,3)] n fresh_move [OF fr, of s' i "SReject k"] by (auto simp: tp_good_def)
  next
    case (s_free i k)
    have "tp_nodes s' m = tp_nodes s m" if "SLock m \<in> set (tp_pcs s) \<or> SHold m \<in> set (tp_pcs s)" for m
      using submitter_other [OF nodes s_free(2) _ _ _ that, of k] s_free(1) by simp
    then show ?thesis using inv_free [OF inv s_free(2), of k SIdle] s_free n fresh_move [OF fr, of s' i SIdle] by (auto simp: tp_good_def)
  next
    case (s_append i k x s1)
    obtain y where "tp_nodes s k = Some y" "tn_next y = NULL" using fresh_at [OF fr] s_append(2) by blast
    with s_append(5) have x: "tn_next x = NULL" by simp
    have "queue_ok s qs" using inv by (simp add: tp_inv_def)
    note q = append_ok [OF this nodes s_append(2,5) x s_append(6)]
    have "tp_nodes s1 m = tp_nodes s m" if "SLock m \<in> set (tp_pcs s) \<or> SHold m \<in> set (tp_pcs s)" for m
      using submitter_holds [OF that] held_in(2) [OF nodes] q(12) by metis
    then show ?thesis using inv_append [OF inv s_append(2-5) x s_append(6)] s_append(1) n q fresh_move [OF fr, of s' i SPost]
      by (auto simp: tp_good_def)
  next
    case (s_post i)
    then show ?thesis using inv_unlocked_moves(2) [OF inv s_post(2)] n fresh_move [OF fr, of s' i SIdle] by (auto simp: tp_good_def)
  qed
qed

lemma destroy_good:
  assumes "d4np_thread_pool_destroy s s'" "tp_good s"
  shows "tp_good s'"
proof -
  obtain qs where inv: "tp_inv s qs" and fr: "fresh_ok s" and n: "0 < tp_thread_count s" using assms(2) by (auto simp: tp_good_def)
  from assms(1) show ?thesis
  proof cases
    case (d_none i)
    then show ?thesis using assms(2) by simp
  next
    case (d_start i)
    then show ?thesis using inv_unlocked_moves(3) [OF inv d_start(2)] n fresh_move [OF fr, of s' i DLock] by (auto simp: tp_good_def)
  next
    case (d_lock i)
    then show ?thesis using lock_steps [OF inv d_lock(2,3), of DHold] n fresh_move [OF fr, of s' i DHold] by (auto simp: tp_good_def)
  next
    case (d_down i)
    then show ?thesis using inv_locked_moves(2) [OF inv d_down(2,3)] n fresh_move [OF fr, of s' i "DPost (tp_thread_count s)"] by (auto simp: tp_good_def)
  next
    case (d_post i k)
    then show ?thesis using inv_unlocked_moves(4) [OF inv d_post(2)] n fresh_move [OF fr, of s' i "DPost k"] by (auto simp: tp_good_def)
  next
    case (d_join i N)
    then show ?thesis using inv_join [OF inv n d_join(2-4)] n fresh_move [OF fr, of s' i DDone] by (auto simp: tp_good_def)
  qed
qed

lemma tp_step_good: "tp_step s s' \<Longrightarrow> tp_good s \<Longrightarrow> tp_good s'"
  by (auto elim!: tp_stepE intro: worker_good submit_good destroy_good)

lemma tp_start_good: "0 < workers \<Longrightarrow> tp_good (tp_start handles workers clients)"
proof -
  assume w: "0 < workers"
  let ?s = "tp_start handles workers clients"
  have pcs: "tp_pcs ?s = replicate workers WWait @ replicate clients SIdle @ [DIdle]" by (simp add: tp_start_def)
  have "total held (tp_pcs ?s) = {#}" "total (running N) (tp_pcs ?s) = {#}" "total (posted workers) (tp_pcs ?s) = 0" for N
    by (simp_all add: pcs total_append total_replicate_0) (simp_all add: total_def)
  moreover have "cnt woken (tp_pcs ?s) = 0" "cnt (\<lambda>pc. pc = SPost) (tp_pcs ?s) = 0" "cnt (\<lambda>pc. pc = WDone) (tp_pcs ?s) = 0"
    by (auto simp: cnt_0 pcs)
  moreover have "cnt is_worker (tp_pcs ?s) = workers" by (simp add: pcs cnt_append cnt_replicate) (simp add: cnt_def total_def)
  moreover have "mutex_ok holds_lock None (tp_pcs ?s)"
    by (auto simp: mutex_ok_def pcs nth_append)
  ultimately have "tp_inv ?s []"
    by (auto simp: tp_inv_def tp_inv_parts all_nodes_def owns_def pcs) (auto simp: tp_start_def)
  moreover have "fresh_ok ?s" by (auto simp: fresh_ok_def pcs)
  ultimately show ?thesis using w by (auto simp: tp_good_def tp_start_def)
qed

lemma tp_reachable_good: "tp_step\<^sup>*\<^sup>* (tp_start handles workers clients) s \<Longrightarrow> 0 < workers \<Longrightarrow> tp_good s"
  by (induction rule: rtranclp_induct) (auto intro: tp_start_good tp_step_good)

text \<open>Once the destroyer has joined the workers, they stay stopped.\<close>

definition done_ok :: "tp \<Rightarrow> bool" where
  "done_ok s \<longleftrightarrow> (DDone \<in> set (tp_pcs s) \<longrightarrow> (\<forall>pc \<in> set (tp_pcs s). is_worker pc \<longrightarrow> pc = WDone))"

lemma done_ok_answer [simp]: "done_ok (answer i rc s) = done_ok s"
  by (simp add: done_ok_def)

lemma done_move:
  assumes "done_ok s" "at s i old" "tp_pcs s' = (tp_pcs s)[i := v]" "old \<noteq> WDone" "is_worker v = is_worker old" "v \<noteq> DDone"
  shows "done_ok s'"
  unfolding done_ok_def
proof (intro impI ballI)
  fix pc assume d: "DDone \<in> set (tp_pcs s')" and pc: "pc \<in> set (tp_pcs s')" "is_worker pc"
  have "DDone \<in> set (tp_pcs s)" using d set_upd [of DDone "tp_pcs s" i v] assms(3,6) by metis
  then have w: "\<forall>pc \<in> set (tp_pcs s). is_worker pc \<longrightarrow> pc = WDone" using assms(1) by (simp add: done_ok_def)
  have "old \<in> set (tp_pcs s)" using assms(2) nth_mem unfolding at_def by metis
  then have "\<not> is_worker v" using w assms(4,5) by blast
  then show "pc = WDone" using pc set_upd [of pc "tp_pcs s" i v] assms(3) w by metis
qed

lemma worker_done: "pool_worker s s' \<Longrightarrow> done_ok s \<Longrightarrow> done_ok s'"
  by (induction rule: pool_worker.induct) (auto intro: done_move)

lemma submit_done: "d4np_thread_pool_submit s s' \<Longrightarrow> done_ok s \<Longrightarrow> done_ok s'"
proof (induction rule: d4np_thread_pool_submit.induct)
  case (s_append s i n x s1)
  have "tp_pcs s1 = tp_pcs s" using s_append.hyps(5) by (auto simp: tp_append_def split: if_splits bind_splits)
  then show ?case using done_move [OF s_append.prems s_append.hyps(1)] by simp
qed (auto intro: done_move)

lemma destroy_done: "d4np_thread_pool_destroy s s' \<Longrightarrow> done_ok s \<Longrightarrow> done_ok s'"
proof (induction rule: d4np_thread_pool_destroy.induct)
  case (d_join s i N)
  then show ?case using set_upd [of _ "tp_pcs s" i DDone] by (fastforce simp: done_ok_def)
qed (auto intro: done_move)

lemma tp_step_done: "tp_step s s' \<Longrightarrow> done_ok s \<Longrightarrow> done_ok s'"
  by (auto elim!: tp_stepE intro: worker_done submit_done destroy_done)

lemma tp_reachable_done: "tp_step\<^sup>*\<^sup>* (tp_start handles workers clients) s \<Longrightarrow> done_ok s"
proof (induction rule: rtranclp_induct)
  case base
  show ?case by (auto simp: done_ok_def tp_start_def)
qed (rule tp_step_done)

lemma joined_all_ran:
  assumes "tp_step\<^sup>*\<^sup>* (tp_start handles workers clients) s" "0 < workers" "DDone \<in> set (tp_pcs s)"
  shows "mset (tp_ran s) = mset (tp_accepted s) \<and> tp_q_head s = NULL \<and> dom (tp_nodes s) = set_mset (total held (tp_pcs s))"
proof -
  have "tp_good s" by (rule tp_reachable_good [OF assms(1,2)])
  then obtain qs where inv: "tp_inv s qs" and n: "0 < tp_thread_count s" by (auto simp: tp_good_def)
  have h: "roles_ok s qs" using inv by (simp add: tp_inv_def)
  have w: "\<forall>pc \<in> set (tp_pcs s). is_worker pc \<longrightarrow> pc = WDone" using tp_reachable_done [OF assms(1)] assms(3) by (simp add: done_ok_def)
  then have qs: "qs = []" by (rule workers_done [OF h n])
  have "running (tp_nodes s) pc = {#}" if "pc \<in> set (tp_pcs s)" for pc using w that by (cases pc rule: tp_pc.exhaust) auto
  then have "total (running (tp_nodes s)) (tp_pcs s) = total (\<lambda>_. {#}) (tp_pcs s)" by (rule total_cong)
  also have "\<dots> = {#}" by (simp add: total_def)
  finally show ?thesis using inv qs by (simp add: tp_inv_def history_ok_def nodes_ok_def owns_def all_nodes_def queue_ok_def)
qed

text \<open>There is one destroyer, so the wake-ups posted are at most one for each worker; when they have all been used, no
  permit is left and no submitter owes one.\<close>

fun is_destroyer :: "tp_pc \<Rightarrow> bool" where
  "is_destroyer DIdle = True"
| "is_destroyer DLock = True"
| "is_destroyer DHold = True"
| "is_destroyer (DPost k) = True"
| "is_destroyer DDone = True"
| "is_destroyer _ = False"

definition single_destroyer :: "tp \<Rightarrow> bool" where
  "single_destroyer s \<longleftrightarrow> cnt is_destroyer (tp_pcs s) = 1"

lemma single_destroyer_answer [simp]: "single_destroyer (answer i rc s) = single_destroyer s"
  by (simp add: single_destroyer_def)

lemma destroyer_move: "single_destroyer s \<Longrightarrow> at s i old \<Longrightarrow> tp_pcs s' = (tp_pcs s)[i := v] \<Longrightarrow> is_destroyer v = is_destroyer old \<Longrightarrow>
    single_destroyer s'"
  using cnt_upd [of i "tp_pcs s" is_destroyer v] by (auto simp: single_destroyer_def at_def split: if_splits)

lemma append_pcs: "tp_append n s = Some s1 \<Longrightarrow> tp_pcs s1 = tp_pcs s \<and> tp_results s1 = tp_results s \<and> tp_accepted s1 = tp_accepted s \<and>
    tp_shutting_down s1 = tp_shutting_down s"
  by (auto simp: tp_append_def split: if_splits bind_splits)

lemma single_destroyer_step: "tp_step s s' \<Longrightarrow> single_destroyer s \<Longrightarrow> single_destroyer s'"
proof (elim tp_stepE)
  show "single_destroyer s'" if "single_destroyer s" "pool_worker s s'"
    using that(2,1) by (induction rule: pool_worker.induct) (auto intro: destroyer_move)
  show "single_destroyer s'" if "single_destroyer s" "d4np_thread_pool_destroy s s'"
    using that(2,1) by (induction rule: d4np_thread_pool_destroy.induct) (auto intro: destroyer_move)
  show "single_destroyer s'" if "single_destroyer s" "d4np_thread_pool_submit s s'"
    using that(2,1)
  proof (induction rule: d4np_thread_pool_submit.induct)
    case (s_append s i n x s1)
    show ?case using destroyer_move [OF s_append.prems s_append.hyps(1), of _ SPost] append_pcs [OF s_append.hyps(5)] by simp
  qed (auto intro: destroyer_move)
qed

lemma single_destroyer_reachable: "tp_step\<^sup>*\<^sup>* (tp_start handles workers clients) s \<Longrightarrow> single_destroyer s"
proof (induction rule: rtranclp_induct)
  case base
  show ?case by (simp add: single_destroyer_def tp_start_def cnt_append cnt_replicate) (simp add: cnt_def total_def)
qed (rule single_destroyer_step)

lemma posted_le: "total (posted n) pcs \<le> n * cnt is_destroyer pcs"
proof (induction pcs)
  case (Cons pc pcs)
  have "posted n pc \<le> (if is_destroyer pc then n else 0)" by (cases pc) auto
  with Cons.IH show ?case by (auto simp: total_def cnt_def)
qed (simp add: total_def)

lemma joined_all_posted:
  assumes "tp_step\<^sup>*\<^sup>* (tp_start handles workers clients) s" "0 < workers" "DDone \<in> set (tp_pcs s)"
  shows "SPost \<notin> set (tp_pcs s) \<and> tp_items s = 0"
proof -
  have "tp_good s" by (rule tp_reachable_good [OF assms(1,2)])
  then obtain qs where inv: "tp_inv s qs" and n: "0 < tp_thread_count s" by (auto simp: tp_good_def)
  have h: "roles_ok s qs" "permits_ok s qs" using inv by (simp_all add: tp_inv_def)
  have w: "\<forall>pc \<in> set (tp_pcs s). is_worker pc \<longrightarrow> pc = WDone" using tp_reachable_done [OF assms(1)] assms(3) by (simp add: done_ok_def)
  then have "qs = []" by (rule workers_done [OF h(1) n])
  moreover have "cnt (\<lambda>pc. pc = WDone) (tp_pcs s) = cnt is_worker (tp_pcs s)"
    unfolding cnt_def using w by (intro total_cong) auto
  moreover have "total (posted (tp_thread_count s)) (tp_pcs s) \<le> tp_thread_count s"
    using posted_le [of "tp_thread_count s" "tp_pcs s"] single_destroyer_reachable [OF assms(1)] by (simp add: single_destroyer_def)
  ultimately have "tp_items s + cnt (\<lambda>pc. pc = SPost) (tp_pcs s) = 0" using h by (simp add: permits_ok_def roles_ok_def)
  then show ?thesis by (auto simp: cnt_0)
qed

section \<open>The answers of submit\<close>

definition answered :: "d4np_status \<Rightarrow> tp \<Rightarrow> nat" where
  "answered rc s = length (filter (\<lambda>(_, r). r = rc) (tp_results s))"

fun is_reject :: "tp_pc \<Rightarrow> bool" where
  "is_reject (SReject n) = True"
| "is_reject _ = False"

definition rejecting :: "tp \<Rightarrow> bool" where
  "rejecting s \<longleftrightarrow> 0 < answered D4NP_ERR_UNSUPPORTED s \<or> (\<exists>pc \<in> set (tp_pcs s). is_reject pc)"

definition results_ok :: "tp \<Rightarrow> bool" where
  "results_ok s \<longleftrightarrow> answered D4NP_OK s + cnt (\<lambda>pc. pc = SPost) (tp_pcs s) = length (tp_accepted s) \<and>
     (rejecting s \<longrightarrow> tp_shutting_down s)"

lemma answered_simps [simp]:
  "answered rc (goto i pc s) = answered rc s"
  "answered rc (answer i r s) = answered rc s + of_bool (r = rc)"
  by (simp_all add: answered_def)

lemma results_move:
  assumes "results_ok s" "at s i old" "tp_pcs s' = (tp_pcs s)[i := v]"
    "answered D4NP_OK s' + of_bool (v = SPost) + length (tp_accepted s) = answered D4NP_OK s + of_bool (old = SPost) + length (tp_accepted s')"
    "tp_shutting_down s \<longrightarrow> tp_shutting_down s'" "is_reject v \<longrightarrow> tp_shutting_down s'"
    "answered D4NP_ERR_UNSUPPORTED s' = answered D4NP_ERR_UNSUPPORTED s \<or> is_reject old"
  shows "results_ok s'"
proof -
  have i: "i < length (tp_pcs s)" "tp_pcs s ! i = old" using assms(2) by (simp_all add: at_def)
  then have "old \<in> set (tp_pcs s)" using nth_mem by blast
  then have "rejecting s' \<longrightarrow> rejecting s \<or> is_reject v"
    using assms(7) set_upd [of _ "tp_pcs s" i v] unfolding rejecting_def assms(3) by metis
  then show ?thesis
    using assms(1,4-6) cnt_upd [OF i(1), of "\<lambda>pc. pc = SPost" v] i(2)
    unfolding results_ok_def assms(3) of_bool_def by (auto split: if_splits)
qed

lemma worker_results: "pool_worker s s' \<Longrightarrow> results_ok s \<Longrightarrow> results_ok s'"
  by (induction rule: pool_worker.induct) (auto simp: answered_def intro: results_move)

lemma submit_results: "d4np_thread_pool_submit s s' \<Longrightarrow> results_ok s \<Longrightarrow> results_ok s'"
proof (induction rule: d4np_thread_pool_submit.induct)
  case (s_append s i n x s1)
  show ?case by (rule results_move [OF s_append.prems s_append.hyps(1), where v = SPost]) (use append_pcs [OF s_append.hyps(5)] in \<open>simp_all add: answered_def\<close>)
next
  case (s_invalid s i t)
  then show ?case by (simp add: results_ok_def rejecting_def)
next
  case (s_no_memory s i t)
  then show ?case by (simp add: results_ok_def rejecting_def)
qed (auto simp: answered_def intro: results_move)

lemma destroy_results: "d4np_thread_pool_destroy s s' \<Longrightarrow> results_ok s \<Longrightarrow> results_ok s'"
  by (induction rule: d4np_thread_pool_destroy.induct) (auto simp: answered_def intro: results_move)

lemma tp_reachable_results: "tp_step\<^sup>*\<^sup>* (tp_start handles workers clients) s \<Longrightarrow> results_ok s"
proof (induction rule: rtranclp_induct)
  case base
  have "cnt (\<lambda>pc. pc = SPost) (tp_pcs (tp_start handles workers clients)) = 0" by (auto simp: cnt_0 tp_start_def)
  then show ?case by (auto simp: results_ok_def rejecting_def answered_def tp_start_def)
qed (auto elim!: tp_stepE intro: worker_results submit_results destroy_results)

text \<open>Once the pool is shutting down it stays so and accepts nothing.\<close>

lemma shut_stays:
  assumes "tp_step s s'" "tp_shutting_down s"
  shows "tp_shutting_down s' \<and> tp_accepted s' = tp_accepted s"
  using assms
  by (auto elim!: tp_stepE pool_worker.cases d4np_thread_pool_submit.cases d4np_thread_pool_destroy.cases)

lemma shut_forever: "tp_step\<^sup>*\<^sup>* s s' \<Longrightarrow> tp_shutting_down s \<Longrightarrow> tp_shutting_down s' \<and> tp_accepted s' = tp_accepted s"
proof (induction rule: rtranclp_induct)
  case (step s1 s2)
  then show ?case using shut_stays [of s1 s2] by simp
qed simp

section \<open>The nodes a thread accesses\<close>

text \<open>The task nodes that the next step of a thread reads, writes or frees: a worker that holds the lock takes the head of the
  queue (\<open>node->next\<close>), then calls the function stored in its node and frees it; a submitter that holds the lock links its
  node behind the last one (\<open>q_tail->next\<close>), and frees the node when it was rejected.\<close>

fun touches :: "tp \<Rightarrow> tp_pc \<Rightarrow> ptr set" where
  "touches s WHold = {tp_q_head s} - {NULL}"
| "touches s (WRun n) = {n}"
| "touches s (WFree n) = {n}"
| "touches s (SHold n) = (if tp_shutting_down s then {} else insert n ({tp_q_tail s} - {NULL}))"
| "touches s (SReject n) = {n}"
| "touches s _ = {}"

lemma queue_nodes:
  assumes "tp_inv s qs"
  shows "set qs \<subseteq> dom (tp_nodes s)" "distinct qs" "tp_q_head s \<noteq> NULL \<longrightarrow> tp_q_head s \<in> set qs" "tp_q_tail s \<noteq> NULL \<longrightarrow> tp_q_tail s \<in> set qs"
proof -
  have p: "nodes_ok s qs" "queue_ok s qs" using assms by (simp_all add: tp_inv_def)
  show "set qs \<subseteq> dom (tp_nodes s)" using p(1) by (auto simp: nodes_ok_def owns_def all_nodes_def)
  have "count (mset qs) p \<le> 1" for p
    using p(1) unfolding nodes_ok_def owns_def all_nodes_def count_union by (meson add_leD1)
  then show "distinct qs" by (simp add: distinct_count_atmost_1 le_Suc_eq count_eq_zero_iff)
  show "tp_q_head s \<noteq> NULL \<longrightarrow> tp_q_head s \<in> set qs" using p(2) by (cases qs rule: list.exhaust) (auto simp: queue_ok_def)
  show "tp_q_tail s \<noteq> NULL \<longrightarrow> tp_q_tail s \<in> set qs" using p(2) by (simp add: queue_ok_def)
qed

text \<open>What a thread accesses is in the queue or its own.\<close>

lemma touches_cases:
  assumes "tp_inv s qs" "n \<in> touches s pc"
  shows "n \<in> set qs \<or> held pc = {#n#}"
  using queue_nodes(3,4) [OF assms(1)] assms(2) by (cases pc rule: tp_pc.exhaust) (auto split: if_splits)

lemma touches_live:
  assumes "tp_inv s qs" "at s i pc"
  shows "touches s pc \<subseteq> dom (tp_nodes s)"
proof
  fix n assume "n \<in> touches s pc"
  from touches_cases [OF assms(1) this] show "n \<in> dom (tp_nodes s)"
    using queue_nodes(1) [OF assms(1)] held_in(1) [OF _ assms(2)] assms(1) by (auto simp: tp_inv_def)
qed

lemma held_untouched:
  assumes "tp_inv s qs" "at s i pc" "held pc = {#n#}" "at s j pc'" "i \<noteq> j"
  shows "n \<notin> touches s pc'"
proof
  assume "n \<in> touches s pc'"
  from touches_cases [OF assms(1) this] show False
    using held_in(2,3) [OF _ assms(2,3)] assms(1,4,5) by (auto simp: tp_inv_def)
qed

lemma drain_queue: "tq N p qs \<Longrightarrow> distinct qs \<Longrightarrow> tp_drain p N = Some (N |` (- set qs))"
proof (induction qs arbitrary: p N)
  case Nil
  then show ?case by (simp add: tp_drain.simps)
next
  case (Cons q qs)
  then obtain x where x: "p = q" "q \<noteq> NULL" "N q = Some x" "tq N (tn_next x) qs" by auto
  have "tq (N(q := None)) (tn_next x) qs" using Cons.prems(2) by (intro tq_cong [OF x(4)]) auto
  then have "tp_drain (tn_next x) (N(q := None)) = Some (N(q := None) |` (- set qs))" by (rule Cons.IH) (use Cons.prems(2) in simp)
  moreover have "N(q := None) |` (- set qs) = N |` (- set (q # qs))" by (auto simp: restrict_map_def fun_eq_iff)
  ultimately show ?case using x(1-3) by (subst tp_drain.simps) simp
qed

section \<open>Properties\<close>

text \<open>C1: in every interleaving of the workers, any number of submitters and the destroying thread, tasks are
  taken from the queue in the order in which they were accepted and each accepted task is run at most
  once. No task node is used after it is freed: every node that the next step of a thread reads, writes or frees is allocated,
  the node a thread holds, and so may free, is accessed by no other thread, and the loop of \<open>destroy\<close> that frees what is left in the queue
  would meet allocated nodes only. Once \<open>d4np_thread_pool_destroy\<close> has joined the workers every accepted task has been run
  exactly once and no task node is left but those that submitters hold: the graceful drain.\<close>

theorem thread_pool_exactly_once:
  assumes "tp_step\<^sup>*\<^sup>* (tp_start handles workers clients) s" "0 < workers"
  shows "mset (tp_ran s) \<subseteq># mset (tp_taken s) \<and> (\<exists>rest. tp_accepted s = tp_taken s @ rest) \<and>
    (\<forall>i pc. at s i pc \<longrightarrow> touches s pc \<subseteq> dom (tp_nodes s)) \<and>
    (\<forall>i pc n j pc'. at s i pc \<and> held pc = {#n#} \<and> at s j pc' \<and> i \<noteq> j \<longrightarrow> n \<notin> touches s pc' \<and> held pc' \<noteq> {#n#}) \<and>
    (\<exists>N. tp_drain (tp_q_head s) (tp_nodes s) = Some N) \<and>
    (DDone \<in> set (tp_pcs s) \<longrightarrow> mset (tp_ran s) = mset (tp_accepted s) \<and>
       tp_q_head s = NULL \<and> dom (tp_nodes s) = set_mset (total held (tp_pcs s)))"
proof -
  obtain qs where inv: "tp_inv s qs" using tp_reachable_good [OF assms] by (auto simp: tp_good_def)
  then have p: "history_ok s qs" "nodes_ok s qs" "queue_ok s qs" by (simp_all add: tp_inv_def)
  have "\<forall>i pc n j pc'. at s i pc \<and> held pc = {#n#} \<and> at s j pc' \<and> i \<noteq> j \<longrightarrow> n \<notin> touches s pc' \<and> held pc' \<noteq> {#n#}"
    using held_untouched [OF inv] held_in(3) [OF p(2)] by blast
  moreover have "\<exists>N. tp_drain (tp_q_head s) (tp_nodes s) = Some N"
    using drain_queue queue_nodes(2) [OF inv] p(3) by (auto simp: queue_ok_def)
  ultimately show ?thesis using joined_all_ran [OF assms] touches_live [OF inv] p(1) by (simp add: history_ok_def)
qed

text \<open>C17: the answers of \<open>submit\<close> are truthful in every interleaving: the calls that returned \<open>D4NP_OK\<close>, with those
  that are about to, are as many as the accepted tasks; \<open>D4NP_ERR_UNSUPPORTED\<close> is returned only when the
  pool is shutting down, and from then on nothing is accepted; and when \<open>destroy\<close> has joined the workers no accepting call
  is left that would still use the semaphore.\<close>

theorem thread_pool_submit_answers:
  assumes "tp_step\<^sup>*\<^sup>* (tp_start handles workers clients) s" "0 < workers"
  shows "answered D4NP_OK s + cnt (\<lambda>pc. pc = SPost) (tp_pcs s) = length (tp_accepted s) \<and>
    (0 < answered D4NP_ERR_UNSUPPORTED s \<longrightarrow> tp_shutting_down s) \<and>
    (tp_shutting_down s \<longrightarrow> (\<forall>s'. tp_step\<^sup>*\<^sup>* s s' \<longrightarrow> tp_accepted s' = tp_accepted s)) \<and>
    (DDone \<in> set (tp_pcs s) \<longrightarrow> answered D4NP_OK s = length (tp_accepted s) \<and> tp_items s = 0)"
proof -
  have r: "results_ok s" by (rule tp_reachable_results [OF assms(1)])
  have j: "cnt (\<lambda>pc. pc = SPost) (tp_pcs s) = 0" "tp_items s = 0" if "DDone \<in> set (tp_pcs s)"
    using joined_all_posted [OF assms that] by (auto simp: cnt_0)
  show ?thesis
  proof (intro conjI impI allI)
    show "answered D4NP_OK s + cnt (\<lambda>pc. pc = SPost) (tp_pcs s) = length (tp_accepted s)" using r by (simp add: results_ok_def)
    show "tp_shutting_down s" if "0 < answered D4NP_ERR_UNSUPPORTED s" using r that by (simp add: results_ok_def rejecting_def)
    show "tp_accepted s' = tp_accepted s" if "tp_shutting_down s" "tp_step\<^sup>*\<^sup>* s s'" for s' using shut_forever [OF that(2,1)] by blast
    show "answered D4NP_OK s = length (tp_accepted s)" "tp_items s = 0" if "DDone \<in> set (tp_pcs s)"
      using r j [OF that] by (simp_all add: results_ok_def)
  qed
qed

text \<open>The pool's lock excludes: at most one thread is inside a critical section, only the owner is, and
  every node a thread is about to read, link, run or free is allocated and held by no other thread.\<close>

theorem thread_pool_exclusion:
  assumes "tp_step\<^sup>*\<^sup>* (tp_start handles workers clients) s" "0 < workers"
  shows "cnt holds_lock (tp_pcs s) \<le> 1 \<and> (\<forall>i pc. at s i pc \<and> holds_lock pc \<longrightarrow> tp_lock s = Some i) \<and>
    (\<forall>i pc n. at s i pc \<and> held pc = {#n#} \<longrightarrow> n \<in> dom (tp_nodes s) \<and>
       (\<forall>j pc'. at s j pc' \<and> held pc' = {#n#} \<longrightarrow> j = i)) \<and>
    (tp_q_head s \<noteq> NULL \<longrightarrow> tp_q_head s \<in> dom (tp_nodes s) \<and> tp_q_tail s \<in> dom (tp_nodes s))"
proof -
  obtain qs where inv: "tp_inv s qs" using tp_reachable_good [OF assms] by (auto simp: tp_good_def)
  have p: "mutex_ok holds_lock (tp_lock s) (tp_pcs s)" "nodes_ok s qs" "queue_ok s qs" using inv by (simp_all add: tp_inv_def)
  have "tp_q_head s \<noteq> NULL \<longrightarrow> tp_q_head s \<in> dom (tp_nodes s) \<and> tp_q_tail s \<in> dom (tp_nodes s)"
    using p(3) queue_nodes(1) [OF inv] tq_head last_in_set by (cases qs rule: list.exhaust) (fastforce simp: queue_ok_def)+
  moreover have "\<forall>i pc. at s i pc \<and> holds_lock pc \<longrightarrow> tp_lock s = Some i" using mutex_owner [OF p(1)] by (auto simp: at_def)
  ultimately show ?thesis using mutex_exclusion [OF p(1)] held_in(1,3) [OF p(2)] by blast
qed

text \<open>A pool of one worker, one submitter: the destroyer starts while a task waits without its permit.\<close>

definition tp_mid :: tp where
  "tp_mid = (tp_start 16 1 1)\<lparr>tp_nodes := [64 \<mapsto> \<lparr>tn_next = NULL, tn_task = (1, 2)\<rparr>], tp_q_head := 64, tp_q_tail := 64,
     tp_shutting_down := True, tp_pcs := [WWait, SPost, DPost 1], tp_accepted := [(1, 2)]\<rparr>"

lemma tp_mid_reachable: "tp_step\<^sup>*\<^sup>* (tp_start 16 1 1) tp_mid"
proof -
  let ?s0 = "tp_start 16 1 1"
  let ?N = "(tp_nodes ?s0)(64 \<mapsto> \<lparr>tn_next = NULL, tn_task = (1, 2)\<rparr>)"
  let ?s1 = "goto 1 (SLock 64) (?s0\<lparr>tp_nodes := ?N\<rparr>)"
  have 1: "tp_step ?s0 ?s1" by (rule tp_s_alloc) (simp_all add: at_def tp_start_def)
  let ?s2 = "goto 1 (SHold 64) (?s1\<lparr>tp_lock := Some 1\<rparr>)"
  have 2: "tp_step ?s1 ?s2" by (rule tp_s_lock) (simp_all add: at_def tp_start_def)
  let ?s3 = "?s2\<lparr>tp_q_head := 64, tp_q_tail := 64\<rparr>"
  let ?s4 = "goto 1 SPost (?s3\<lparr>tp_lock := None, tp_accepted := tp_accepted ?s3 @ [tn_task \<lparr>tn_next = NULL, tn_task = (1, 2)\<rparr>]\<rparr>)"
  have 3: "tp_step ?s2 ?s4" by (rule tp_s_append) (simp_all add: at_def tp_start_def tp_append_def)
  let ?s5 = "goto 2 DLock ?s4"
  have 4: "tp_step ?s4 ?s5" by (rule tp_d_start) (simp_all add: at_def tp_start_def)
  let ?s6 = "goto 2 DHold (?s5\<lparr>tp_lock := Some 2\<rparr>)"
  have 5: "tp_step ?s5 ?s6" by (rule tp_d_lock) (simp_all add: at_def tp_start_def)
  have 6: "tp_step ?s6 (goto 2 (DPost (tp_thread_count ?s6)) (?s6\<lparr>tp_shutting_down := True, tp_lock := None\<rparr>))"
    by (rule tp_d_down) (simp_all add: at_def tp_start_def)
  have "goto 2 (DPost (tp_thread_count ?s6)) (?s6\<lparr>tp_shutting_down := True, tp_lock := None\<rparr>) = tp_mid"
    by (simp add: tp_mid_def tp_start_def goto_def)
  with 6 have "tp_step ?s6 tp_mid" by simp
  with 1 2 3 4 5 show ?thesis by (meson converse_rtranclp_into_rtranclp rtranclp.rtrancl_refl)
qed

text \<open>The run goes on: the submitter posts, the worker takes the task, runs it, frees its node, is woken once more and leaves; the
  destroyer joins it.\<close>

definition tp_busy :: tp where
  "tp_busy = tp_mid\<lparr>tp_q_head := NULL, tp_q_tail := NULL, tp_pcs := [WRun 64, SIdle, DPost 1], tp_taken := [(1, 2)],
     tp_results := [(1, D4NP_OK)]\<rparr>"

definition tp_over :: tp where
  "tp_over = tp_busy\<lparr>tp_nodes := Map.empty, tp_threads := NULL, tp_ready := False, tp_pcs := [WDone, SIdle, DDone], tp_ran := [(1, 2)]\<rparr>"

lemma tp_busy_reachable: "tp_step\<^sup>*\<^sup>* (tp_start 16 1 1) tp_busy"
proof -
  let ?s1 = "answer 1 D4NP_OK (goto 1 SIdle (tp_mid\<lparr>tp_items := tp_items tp_mid + 1\<rparr>))"
  have 1: "tp_step tp_mid ?s1" by (rule tp_s_post) (simp add: at_def tp_mid_def)
  let ?s2 = "goto 0 WLock (?s1\<lparr>tp_items := tp_items ?s1 - 1\<rparr>)"
  have 2: "tp_step ?s1 ?s2" by (rule tp_w_wait) (simp_all add: at_def tp_mid_def)
  let ?s3 = "goto 0 WHold (?s2\<lparr>tp_lock := Some 0\<rparr>)"
  have 3: "tp_step ?s2 ?s3" by (rule tp_w_lock) (simp_all add: at_def tp_mid_def tp_start_def)
  let ?x = "\<lparr>tn_next = NULL, tn_task = (1, 2)\<rparr>"
  have "tp_step ?s3 (goto 0 (WRun 64) (?s3\<lparr>tp_q_head := tn_next ?x, tp_q_tail := (if tn_next ?x = NULL then NULL else tp_q_tail ?s3),
      tp_lock := None, tp_taken := tp_taken ?s3 @ [tn_task ?x]\<rparr>))"
    by (rule tp_w_take) (simp_all add: at_def tp_mid_def tp_start_def)
  also have "(goto 0 (WRun 64) (?s3\<lparr>tp_q_head := tn_next ?x, tp_q_tail := (if tn_next ?x = NULL then NULL else tp_q_tail ?s3),
      tp_lock := None, tp_taken := tp_taken ?s3 @ [tn_task ?x]\<rparr>)) = tp_busy"
    by (simp add: tp_busy_def tp_mid_def tp_start_def goto_def answer_def)
  finally show ?thesis using tp_mid_reachable 1 2 3 by (meson rtranclp.rtrancl_into_rtrancl)
qed

lemma tp_over_reachable: "tp_step\<^sup>*\<^sup>* (tp_start 16 1 1) tp_over"
proof -
  let ?x = "\<lparr>tn_next = NULL, tn_task = (1, 2)\<rparr>"
  let ?s1 = "goto 0 (WFree 64) (tp_busy\<lparr>tp_ran := tp_ran tp_busy @ [tn_task ?x]\<rparr>)"
  have 1: "tp_step tp_busy ?s1" by (rule tp_w_run) (simp_all add: at_def tp_busy_def tp_mid_def)
  let ?s2 = "goto 0 WWait (?s1\<lparr>tp_nodes := (tp_nodes ?s1)(64 := None)\<rparr>)"
  have 2: "tp_step ?s1 ?s2" by (rule tp_w_free) (simp_all add: at_def tp_busy_def tp_mid_def)
  let ?s3 = "goto 2 (DPost 0) (?s2\<lparr>tp_items := tp_items ?s2 + 1\<rparr>)"
  have 3: "tp_step ?s2 ?s3" by (rule tp_d_post) (simp add: at_def tp_busy_def)
  let ?s4 = "goto 0 WLock (?s3\<lparr>tp_items := tp_items ?s3 - 1\<rparr>)"
  have 4: "tp_step ?s3 ?s4" by (rule tp_w_wait) (simp_all add: at_def tp_busy_def)
  let ?s5 = "goto 0 WHold (?s4\<lparr>tp_lock := Some 0\<rparr>)"
  have 5: "tp_step ?s4 ?s5" by (rule tp_w_lock) (simp_all add: at_def tp_busy_def tp_mid_def tp_start_def)
  let ?s6 = "goto 0 WDone (?s5\<lparr>tp_lock := None\<rparr>)"
  have 6: "tp_step ?s5 ?s6" by (rule tp_w_exit) (simp_all add: at_def tp_busy_def)
  have "tp_step ?s6 (goto 2 DDone (?s6\<lparr>tp_nodes := tp_nodes ?s6, tp_q_head := NULL, tp_q_tail := NULL, tp_threads := NULL, tp_ready := False\<rparr>))"
    by (rule tp_d_join) (simp_all add: at_def tp_busy_def tp_drain.simps)
  also have "(goto 2 DDone (?s6\<lparr>tp_nodes := tp_nodes ?s6, tp_q_head := NULL, tp_q_tail := NULL, tp_threads := NULL, tp_ready := False\<rparr>)) = tp_over"
    by (simp add: tp_over_def tp_busy_def tp_mid_def tp_start_def goto_def)
  finally show ?thesis using tp_busy_reachable 1 2 3 4 5 6 by (meson rtranclp.rtrancl_into_rtrancl)
qed

theorem thread_pool_exactly_once_witness:
  "(\<exists>rest. tp_accepted tp_mid = tp_taken tp_mid @ rest) \<and> (\<exists>N. tp_drain 64 (tp_nodes tp_mid) = Some N) \<and>
   touches tp_busy (WRun 64) \<subseteq> dom (tp_nodes tp_busy) \<and>
   mset (tp_ran tp_over) = {#(1, 2)#} \<and> dom (tp_nodes tp_over) = {}"
proof -
  have b: "at tp_busy 0 (WRun 64)" by (simp add: at_def tp_busy_def)
  have h: "tp_q_head tp_mid = 64" by (simp add: tp_mid_def)
  have e: "DDone \<in> set (tp_pcs tp_over)" "total held (tp_pcs tp_over) = {#}" "tp_accepted tp_over = [(1, 2)]"
    by (simp_all add: tp_over_def tp_busy_def tp_mid_def total_def)
  note mid = thread_pool_exactly_once [OF tp_mid_reachable zero_less_one, unfolded h]
  note busy = thread_pool_exactly_once [OF tp_busy_reachable zero_less_one]
  note over = thread_pool_exactly_once [OF tp_over_reachable zero_less_one, unfolded e(2,3)]
  have "touches tp_busy (WRun 64) \<subseteq> dom (tp_nodes tp_busy)" using busy b by blast
  moreover have "mset (tp_ran tp_over) = mset [(1, 2)] \<and> dom (tp_nodes tp_over) = set_mset {#}" using over e(1) by blast
  ultimately show ?thesis using mid by simp
qed

theorem thread_pool_submit_answers_witness:
  "answered D4NP_OK tp_mid + cnt (\<lambda>pc. pc = SPost) (tp_pcs tp_mid) = 1 \<and> tp_accepted ` {s'. tp_step\<^sup>*\<^sup>* tp_mid s'} \<subseteq> {[(1, 2)]}"
  using thread_pool_submit_answers [OF tp_mid_reachable] by (auto simp: tp_mid_def)

theorem thread_pool_exclusion_witness: "cnt holds_lock (tp_pcs tp_mid) \<le> 1"
  using thread_pool_exclusion [OF tp_mid_reachable] by simp

end
