(* ===== verification/Mutex.thy ===== *)
theory Mutex
  imports Status Prelude
begin

text \<open>
  The mutex (\<open>concurrency/mutex.h\<close>, \<open>concurrency/mutex.c\<close>), both branches: a thin layer over a
  \<open>pthread_mutex_t\<close>, whose documented state is whether it is initialised and which thread owns it, or over
  a \<open>CRITICAL_SECTION\<close>, which counts in addition how often its owner has entered it.
  Threads are numbered. A call that has to wait is \<open>Blocks\<close>; using an uninitialised mutex, locking it
  twice from one thread, unlocking it from a thread that does not own it, destroying it while it is
  locked and a failed \<open>assert\<close> are undefined (\<open>None\<close>). The result of \<open>pthread_mutex_init\<close> is an argument.
\<close>

section \<open>Definitions\<close>

record d4np_mutex =
  mx_ready :: bool
  mx_owner :: "nat option"

datatype 'a outcome = Returns 'a | Blocks

definition d4np_mutex_init :: "int \<Rightarrow> d4np_mutex option \<Rightarrow> d4np_status \<times> d4np_mutex option" where
  "d4np_mutex_init rc m =
     (case m of
        None \<Rightarrow> (D4NP_ERR_INVALID_ARGUMENT, None)
      | Some mx \<Rightarrow>
          if rc = 0 then (D4NP_OK, Some \<lparr>mx_ready = True, mx_owner = None\<rparr>) else (D4NP_ERR_INTERNAL, Some mx))"

definition d4np_mutex_destroy :: "d4np_mutex option \<Rightarrow> d4np_mutex option option" where
  "d4np_mutex_destroy m =
     (case m of
        None \<Rightarrow> Some None
      | Some mx \<Rightarrow> if mx_ready mx \<and> mx_owner mx = None then Some (Some (mx\<lparr>mx_ready := False\<rparr>)) else None)"

definition d4np_mutex_lock :: "nat \<Rightarrow> d4np_mutex option \<Rightarrow> d4np_mutex outcome option" where
  "d4np_mutex_lock t m =
     (case m of
        None \<Rightarrow> None
      | Some mx \<Rightarrow>
          if \<not> mx_ready mx then None
          else case mx_owner mx of
            None \<Rightarrow> Some (Returns (mx\<lparr>mx_owner := Some t\<rparr>))
          | Some u \<Rightarrow> if u = t then None else Some Blocks)"

definition d4np_mutex_unlock :: "nat \<Rightarrow> d4np_mutex option \<Rightarrow> d4np_mutex option" where
  "d4np_mutex_unlock t m =
     (case m of
        None \<Rightarrow> None
      | Some mx \<Rightarrow> if mx_ready mx \<and> mx_owner mx = Some t then Some (mx\<lparr>mx_owner := None\<rparr>) else None)"

definition d4np_mutex_trylock :: "nat \<Rightarrow> d4np_mutex option \<Rightarrow> (bool \<times> d4np_mutex option) option" where
  "d4np_mutex_trylock t m =
     (case m of
        None \<Rightarrow> Some (False, None)
      | Some mx \<Rightarrow>
          if \<not> mx_ready mx then None
          else if mx_owner mx = None then Some (True, Some (mx\<lparr>mx_owner := Some t\<rparr>))
          else Some (False, Some mx))"

text \<open>The branch for Windows. \<open>InitializeCriticalSection\<close> does not fail.\<close>

record d4np_mutex_win32 =
  cs_ready :: bool
  cs_owner :: "nat option"
  cs_depth :: nat

definition d4np_mutex_init_win32 :: "d4np_mutex_win32 option \<Rightarrow> d4np_status \<times> d4np_mutex_win32 option" where
  "d4np_mutex_init_win32 m =
     (case m of
        None \<Rightarrow> (D4NP_ERR_INVALID_ARGUMENT, None)
      | Some cs \<Rightarrow> (D4NP_OK, Some \<lparr>cs_ready = True, cs_owner = None, cs_depth = 0\<rparr>))"

definition d4np_mutex_destroy_win32 :: "d4np_mutex_win32 option \<Rightarrow> d4np_mutex_win32 option option" where
  "d4np_mutex_destroy_win32 m =
     (case m of
        None \<Rightarrow> Some None
      | Some cs \<Rightarrow> if cs_ready cs \<and> cs_owner cs = None then Some (Some (cs\<lparr>cs_ready := False\<rparr>)) else None)"

definition d4np_mutex_lock_win32 :: "nat \<Rightarrow> d4np_mutex_win32 option \<Rightarrow> d4np_mutex_win32 outcome option" where
  "d4np_mutex_lock_win32 t m =
     (case m of
        None \<Rightarrow> None
      | Some cs \<Rightarrow>
          if \<not> cs_ready cs then None
          else if cs_owner cs = None \<or> cs_owner cs = Some t
          then Some (Returns (cs\<lparr>cs_owner := Some t, cs_depth := cs_depth cs + 1\<rparr>))
          else Some Blocks)"

definition d4np_mutex_unlock_win32 :: "nat \<Rightarrow> d4np_mutex_win32 option \<Rightarrow> d4np_mutex_win32 option" where
  "d4np_mutex_unlock_win32 t m =
     (case m of
        None \<Rightarrow> None
      | Some cs \<Rightarrow>
          if cs_ready cs \<and> cs_owner cs = Some t
          then Some (cs\<lparr>cs_depth := cs_depth cs - 1, cs_owner := (if cs_depth cs \<le> 1 then None else Some t)\<rparr>)
          else None)"

definition d4np_mutex_trylock_win32 :: "nat \<Rightarrow> d4np_mutex_win32 option \<Rightarrow> (bool \<times> d4np_mutex_win32 option) option" where
  "d4np_mutex_trylock_win32 t m =
     (case m of
        None \<Rightarrow> Some (False, None)
      | Some cs \<Rightarrow>
          if \<not> cs_ready cs then None
          else if cs_owner cs = None \<or> cs_owner cs = Some t
          then Some (True, Some (cs\<lparr>cs_owner := Some t, cs_depth := cs_depth cs + 1\<rparr>))
          else Some (False, Some cs))"

section \<open>The lock contract\<close>

text \<open>
  What a client of a lock relies on. Clients run sequences of operations; an operation that would
  block is refused. At every point of such a run the owner is the thread of the last grant that has
  not been released, so two threads never hold the lock together.
\<close>

locale lock_contract =
  fixes ready :: "'m \<Rightarrow> bool" and owner :: "'m \<Rightarrow> nat option"
    and lock :: "nat \<Rightarrow> 'm \<Rightarrow> 'm outcome option" and trylock :: "nat \<Rightarrow> 'm \<Rightarrow> (bool \<times> 'm) option"
    and unlock :: "nat \<Rightarrow> 'm \<Rightarrow> 'm option"
  assumes lock_free: "ready m \<Longrightarrow> owner m = None \<Longrightarrow> \<exists>m'. lock t m = Some (Returns m') \<and> ready m' \<and> owner m' = Some t"
    and lock_busy: "ready m \<Longrightarrow> owner m = Some u \<Longrightarrow> u \<noteq> t \<Longrightarrow> lock t m = Some Blocks"
    and try_free: "ready m \<Longrightarrow> owner m = None \<Longrightarrow> \<exists>m'. trylock t m = Some (True, m') \<and> ready m' \<and> owner m' = Some t"
    and try_busy: "ready m \<Longrightarrow> owner m = Some u \<Longrightarrow> u \<noteq> t \<Longrightarrow> trylock t m = Some (False, m)"
    and unlock_own: "ready m \<Longrightarrow> owner m = Some t \<Longrightarrow> \<exists>m'. unlock t m = Some m' \<and> ready m' \<and> owner m' = None"
begin

lemma grant_needs_free:
  assumes "ready m" "lock t m = Some (Returns m') \<or> trylock t m = Some (True, m')" "owner m \<noteq> Some t"
  shows "owner m = None \<and> owner m' = Some t"
proof (cases "owner m")
  case None
  then show ?thesis using assms lock_free [OF assms(1) None, of t] try_free [OF assms(1) None, of t] by auto
next
  case (Some u)
  then show ?thesis using assms lock_busy [OF assms(1) Some, of t] try_busy [OF assms(1) Some, of t] by auto
qed

lemma handover:
  assumes "ready m" "owner m = Some u" "u \<noteq> t"
  shows "lock t m = Some Blocks \<and> trylock t m = Some (False, m) \<and>
    (\<exists>m1 m2. unlock u m = Some m1 \<and> lock t m1 = Some (Returns m2) \<and> ready m2 \<and> owner m2 = Some t)"
  using lock_busy [OF assms] try_busy [OF assms] unlock_own [OF assms(1,2)] lock_free by metis

end

definition mutex_trylock :: "nat \<Rightarrow> d4np_mutex \<Rightarrow> (bool \<times> d4np_mutex) option" where
  "mutex_trylock t mx = do { (b, m) \<leftarrow> d4np_mutex_trylock t (Some mx); mx' \<leftarrow> m; Some (b, mx') }"

interpretation mutex: lock_contract mx_ready mx_owner "\<lambda>t mx. d4np_mutex_lock t (Some mx)" mutex_trylock "\<lambda>t mx. d4np_mutex_unlock t (Some mx)"
  by unfold_locales (auto simp: d4np_mutex_lock_def d4np_mutex_unlock_def d4np_mutex_trylock_def mutex_trylock_def)

text \<open>On Windows the contract holds as long as no thread enters the section a second time.\<close>

definition cs_single :: "d4np_mutex_win32 \<Rightarrow> bool" where
  "cs_single cs \<longleftrightarrow> cs_ready cs \<and> cs_depth cs = (if cs_owner cs = None then 0 else 1)"

definition mutex_trylock_win32 :: "nat \<Rightarrow> d4np_mutex_win32 \<Rightarrow> (bool \<times> d4np_mutex_win32) option" where
  "mutex_trylock_win32 t cs = do { (b, m) \<leftarrow> d4np_mutex_trylock_win32 t (Some cs); cs' \<leftarrow> m; Some (b, cs') }"

interpretation critical_section: lock_contract cs_single cs_owner "\<lambda>t cs. d4np_mutex_lock_win32 t (Some cs)" mutex_trylock_win32
    "\<lambda>t cs. d4np_mutex_unlock_win32 t (Some cs)"
  by unfold_locales
    (auto simp: d4np_mutex_lock_win32_def d4np_mutex_unlock_win32_def d4np_mutex_trylock_win32_def mutex_trylock_win32_def cs_single_def)

section \<open>Properties\<close>

text \<open>Where the platforms differ: to its owner the POSIX lock refuses a second grant, whereas a critical section
  gives it, and stays locked when the owner releases it once. The header calls the lock non-recursive.\<close>

theorem mutex_recursive_on_windows:
  assumes "mx_ready mx" "mx_owner mx = Some t" "cs_single cs" "cs_owner cs = Some t"
  shows "d4np_mutex_trylock t (Some mx) = Some (False, Some mx) \<and>
    (\<exists>c1 c2. d4np_mutex_trylock_win32 t (Some cs) = Some (True, Some c1) \<and> d4np_mutex_unlock_win32 t (Some c1) = Some c2 \<and>
       (\<forall>u. u \<noteq> t \<longrightarrow> d4np_mutex_lock_win32 u (Some c2) = Some Blocks))"
  using assms
  by (auto simp: d4np_mutex_trylock_def d4np_mutex_trylock_win32_def d4np_mutex_unlock_win32_def d4np_mutex_lock_win32_def cs_single_def)

text \<open>Used without a second entry, the branch for Windows hands the lock from thread to thread as the other does.\<close>

theorem mutex_win32_excludes:
  assumes "cs_single cs" "cs_owner cs = Some u" "u \<noteq> t"
  shows "d4np_mutex_lock_win32 t (Some cs) = Some Blocks \<and>
    (\<exists>c1 c2. d4np_mutex_unlock_win32 u (Some cs) = Some c1 \<and> d4np_mutex_lock_win32 t (Some c1) = Some (Returns c2) \<and>
       cs_single c2 \<and> cs_owner c2 = Some t)"
  using critical_section.handover [OF assms] by blast

text \<open>A freshly initialised mutex is free; while one thread owns it, every other thread's lock waits and
  trylock fails without changing it; once the owner unlocks, a waiting thread gets it. A lock is
  granted only when it was free.\<close>

theorem mutex_excludes:
  assumes "mx_ready mx" "mx_owner mx = Some u" "u \<noteq> t"
  shows "d4np_mutex_lock t (Some mx) = Some Blocks \<and> d4np_mutex_trylock t (Some mx) = Some (False, Some mx) \<and>
    (\<exists>m1 m2. d4np_mutex_unlock u (Some mx) = Some m1 \<and> d4np_mutex_lock t (Some m1) = Some (Returns m2) \<and> mx_owner m2 = Some t) \<and>
    (\<forall>m m' v. mx_ready m \<and> mx_owner m \<noteq> Some v \<and> d4np_mutex_lock v (Some m) = Some (Returns m') \<longrightarrow> mx_owner m = None) \<and>
    d4np_mutex_init 0 (Some mx0) = (D4NP_OK, Some \<lparr>mx_ready = True, mx_owner = None\<rparr>)"
proof (intro conjI allI impI)
  note h = mutex.handover [OF assms]
  show "d4np_mutex_lock t (Some mx) = Some Blocks" using h by blast
  show "d4np_mutex_trylock t (Some mx) = Some (False, Some mx)" using assms by (simp add: d4np_mutex_trylock_def)
  show "\<exists>m1 m2. d4np_mutex_unlock u (Some mx) = Some m1 \<and> d4np_mutex_lock t (Some m1) = Some (Returns m2) \<and> mx_owner m2 = Some t"
    using h by blast
  show "mx_owner m = None" if "mx_ready m \<and> mx_owner m \<noteq> Some v \<and> d4np_mutex_lock v (Some m) = Some (Returns m')" for m m' v
    using mutex.grant_needs_free [of m v m'] that by blast
qed (simp add: d4np_mutex_init_def)

theorem mutex_excludes_witness:
  "d4np_mutex_lock 2 (Some \<lparr>mx_ready = True, mx_owner = Some 1\<rparr>) = Some Blocks"
  using mutex_excludes [of "\<lparr>mx_ready = True, mx_owner = Some 1\<rparr>" 1 2] by simp

end
