(* ===== verification/Semaphore.thy ===== *)
theory Semaphore
  imports Threads Mutex
begin

text \<open>
  The counting semaphore (\<open>concurrency/semaphore.h\<close>, \<open>concurrency/semaphore.c\<close>), POSIX branch: a mutex, a
  condition variable and an \<open>unsigned long\<close> counter. Any number of threads run \<open>wait\<close>, \<open>trywait\<close> and \<open>post\<close>,
  interleaved at every access: taking and releasing the mutex, testing and changing the counter,
  going to sleep (which releases the mutex in the same step, as \<open>pthread_cond_wait\<close> does), signalling
  (which wakes one sleeper if there is one) and waking up spuriously (which POSIX allows). The number
  of permits handed out and posted is ghost state.
\<close>

section \<open>Definitions\<close>

record d4np_semaphore =
  sem_mutex :: d4np_mutex
  sem_cond_ready :: bool
  sem_count :: uint64

text \<open>The results of \<open>pthread_mutex_init\<close> and \<open>pthread_cond_init\<close> are arguments.\<close>

definition d4np_semaphore_init :: "int \<Rightarrow> int \<Rightarrow> d4np_semaphore option \<Rightarrow> 32 word \<Rightarrow> d4np_status \<times> d4np_semaphore option" where
  "d4np_semaphore_init mrc crc s initial_count =
     (case s of
        None \<Rightarrow> (D4NP_ERR_INVALID_ARGUMENT, None)
      | Some p \<Rightarrow>
          if mrc \<noteq> 0 then (D4NP_ERR_INTERNAL, Some p)
          else let p1 = p\<lparr>sem_mutex := \<lparr>mx_ready = True, mx_owner = None\<rparr>\<rparr> in
            if crc \<noteq> 0 then (D4NP_ERR_INTERNAL, Some (p1\<lparr>sem_mutex := (sem_mutex p1)\<lparr>mx_ready := False\<rparr>\<rparr>))
            else (D4NP_OK, Some (p1\<lparr>sem_cond_ready := True, sem_count := ucast initial_count\<rparr>)))"

definition d4np_semaphore_destroy :: "d4np_semaphore option \<Rightarrow> d4np_semaphore option" where
  "d4np_semaphore_destroy s =
     (case s of
        None \<Rightarrow> None
      | Some p \<Rightarrow> Some (p\<lparr>sem_cond_ready := False, sem_mutex := (sem_mutex p)\<lparr>mx_ready := False\<rparr>\<rparr>))"

text \<open>Program counters: outside, in \<open>wait\<close>, in \<open>trywait\<close> (with its result) and in \<open>post\<close>.\<close>

datatype sem_pc =
    Outside
  | Wait_Lock | Wait_Test | Wait_Asleep | Wait_Woken | Wait_Unlock
  | Try_Lock | Try_Test | Try_Unlock bool
  | Post_Lock | Post_Inc | Post_Signal | Post_Unlock

record sem_sys =
  ss_count :: uint64
  ss_lock :: "nat option"
  ss_pcs :: "sem_pc list"
  ss_initial :: nat
  ss_taken :: nat
  ss_posted :: nat

definition sat :: "sem_sys \<Rightarrow> nat \<Rightarrow> sem_pc \<Rightarrow> bool" where
  "sat s i pc \<longleftrightarrow> i < length (ss_pcs s) \<and> ss_pcs s ! i = pc"

definition sgo :: "nat \<Rightarrow> sem_pc \<Rightarrow> sem_sys \<Rightarrow> sem_sys" where
  "sgo i pc s = s\<lparr>ss_pcs := (ss_pcs s)[i := pc]\<rparr>"

inductive sem_step :: "sem_sys \<Rightarrow> sem_sys \<Rightarrow> bool" where
  call: "sat s i Outside \<Longrightarrow> pc \<in> {Wait_Lock, Try_Lock, Post_Lock} \<Longrightarrow> sem_step s (sgo i pc s)"
| wait_lock: "sat s i Wait_Lock \<Longrightarrow> ss_lock s = None \<Longrightarrow> sem_step s (sgo i Wait_Test (s\<lparr>ss_lock := Some i\<rparr>))"
| wait_sleep: "sat s i Wait_Test \<Longrightarrow> ss_lock s = Some i \<Longrightarrow> ss_count s = 0 \<Longrightarrow> sem_step s (sgo i Wait_Asleep (s\<lparr>ss_lock := None\<rparr>))"
| wait_spurious: "sat s i Wait_Asleep \<Longrightarrow> sem_step s (sgo i Wait_Woken s)"
| wait_relock: "sat s i Wait_Woken \<Longrightarrow> ss_lock s = None \<Longrightarrow> sem_step s (sgo i Wait_Test (s\<lparr>ss_lock := Some i\<rparr>))"
| wait_take: "sat s i Wait_Test \<Longrightarrow> ss_lock s = Some i \<Longrightarrow> ss_count s \<noteq> 0 \<Longrightarrow>
     sem_step s (sgo i Wait_Unlock (s\<lparr>ss_count := ss_count s - 1, ss_taken := ss_taken s + 1\<rparr>))"
| wait_unlock: "sat s i Wait_Unlock \<Longrightarrow> ss_lock s = Some i \<Longrightarrow> sem_step s (sgo i Outside (s\<lparr>ss_lock := None\<rparr>))"
| try_lock: "sat s i Try_Lock \<Longrightarrow> ss_lock s = None \<Longrightarrow> sem_step s (sgo i Try_Test (s\<lparr>ss_lock := Some i\<rparr>))"
| try_take: "sat s i Try_Test \<Longrightarrow> ss_lock s = Some i \<Longrightarrow> 0 < ss_count s \<Longrightarrow>
     sem_step s (sgo i (Try_Unlock True) (s\<lparr>ss_count := ss_count s - 1, ss_taken := ss_taken s + 1\<rparr>))"
| try_fail: "sat s i Try_Test \<Longrightarrow> ss_lock s = Some i \<Longrightarrow> \<not> 0 < ss_count s \<Longrightarrow> sem_step s (sgo i (Try_Unlock False) s)"
| try_unlock: "sat s i (Try_Unlock ok) \<Longrightarrow> ss_lock s = Some i \<Longrightarrow> sem_step s (sgo i Outside (s\<lparr>ss_lock := None\<rparr>))"
| post_lock: "sat s i Post_Lock \<Longrightarrow> ss_lock s = None \<Longrightarrow> sem_step s (sgo i Post_Inc (s\<lparr>ss_lock := Some i\<rparr>))"
| post_inc: "sat s i Post_Inc \<Longrightarrow> ss_lock s = Some i \<Longrightarrow>
     sem_step s (sgo i Post_Signal (s\<lparr>ss_count := ss_count s + 1, ss_posted := ss_posted s + 1\<rparr>))"
| post_wake: "sat s i Post_Signal \<Longrightarrow> ss_lock s = Some i \<Longrightarrow> sat s j Wait_Asleep \<Longrightarrow>
     sem_step s (sgo i Post_Unlock (sgo j Wait_Woken s))"
| post_nobody: "sat s i Post_Signal \<Longrightarrow> ss_lock s = Some i \<Longrightarrow> Wait_Asleep \<notin> set (ss_pcs s) \<Longrightarrow> sem_step s (sgo i Post_Unlock s)"
| post_unlock: "sat s i Post_Unlock \<Longrightarrow> ss_lock s = Some i \<Longrightarrow> sem_step s (sgo i Outside (s\<lparr>ss_lock := None\<rparr>))"

definition sem_start :: "32 word \<Rightarrow> nat \<Rightarrow> sem_sys" where
  "sem_start initial_count threads = \<lparr>ss_count = ucast initial_count, ss_lock = None, ss_pcs = replicate threads Outside,
     ss_initial = unat initial_count, ss_taken = 0, ss_posted = 0\<rparr>"

section \<open>Invariants\<close>

fun sem_holds :: "sem_pc \<Rightarrow> bool" where
  "sem_holds Wait_Test = True"
| "sem_holds Wait_Unlock = True"
| "sem_holds Try_Test = True"
| "sem_holds (Try_Unlock ok) = True"
| "sem_holds Post_Inc = True"
| "sem_holds Post_Signal = True"
| "sem_holds Post_Unlock = True"
| "sem_holds _ = False"

text \<open>Threads that are about to look at the counter or to wake a sleeper.\<close>

fun attentive :: "sem_pc \<Rightarrow> bool" where
  "attentive Wait_Test = True"
| "attentive Wait_Woken = True"
| "attentive Post_Signal = True"
| "attentive _ = False"

definition sem_count_ok :: "sem_sys \<Rightarrow> bool" where
  "sem_count_ok s \<longleftrightarrow> (ss_initial s + ss_posted s < 2 ^ 64 \<longrightarrow> unat (ss_count s) + ss_taken s = ss_initial s + ss_posted s)"

definition sem_awake_ok :: "sem_sys \<Rightarrow> bool" where
  "sem_awake_ok s \<longleftrightarrow> (Wait_Asleep \<in> set (ss_pcs s) \<longrightarrow> unat (ss_count s) \<le> cnt attentive (ss_pcs s))"

definition sem_inv :: "sem_sys \<Rightarrow> bool" where
  "sem_inv s \<longleftrightarrow> mutex_ok sem_holds (ss_lock s) (ss_pcs s) \<and> sem_count_ok s \<and> sem_awake_ok s"

lemma sgo_simps [simp]:
  "ss_count (sgo i pc s) = ss_count s" "ss_lock (sgo i pc s) = ss_lock s" "ss_pcs (sgo i pc s) = (ss_pcs s)[i := pc]"
  "ss_initial (sgo i pc s) = ss_initial s" "ss_taken (sgo i pc s) = ss_taken s" "ss_posted (sgo i pc s) = ss_posted s"
  by (simp_all add: sgo_def)

text \<open>Moving a thread that neither falls asleep nor stops paying attention.\<close>

lemma awake_move:
  assumes "sem_awake_ok s" "sat s i old" "ss_pcs s' = (ss_pcs s)[i := pc]" "pc \<noteq> Wait_Asleep"
    "unat (ss_count s') + of_bool (attentive old) \<le> unat (ss_count s) + of_bool (attentive pc)"
  shows "sem_awake_ok s'"
proof -
  have i: "i < length (ss_pcs s)" "ss_pcs s ! i = old" using assms(2) by (simp_all add: sat_def)
  have "Wait_Asleep \<in> set (ss_pcs s)" if "Wait_Asleep \<in> set (ss_pcs s')"
    using that set_upd [of Wait_Asleep "ss_pcs s" i pc] assms(3,4) by auto
  then show ?thesis using assms(1,5) cnt_upd [OF i(1), of attentive pc] i(2)
    unfolding sem_awake_ok_def assms(3) by (auto simp: of_bool_def split: if_splits)
qed

lemma unat_dec: "w \<noteq> 0 \<Longrightarrow> unat (w - 1 :: uint64) = unat w - 1"
  using unat_sub_exact [of 1 w] by (simp add: word_le_nat_alt Suc_le_eq unat_pos_iff)

lemma unat_inc: "unat (w + 1 :: uint64) \<le> unat w + 1"
  by (metis unat_1 unat_plus_if_size add_le_mono1 diff_le_self le_refl nat_add_left_cancel_le)

text \<open>How a step may change the counter, relative to the histories.\<close>

lemma count_same:
  "sem_count_ok s \<Longrightarrow> ss_count s' = ss_count s \<Longrightarrow> ss_initial s' = ss_initial s \<Longrightarrow> ss_taken s' = ss_taken s \<Longrightarrow>
   ss_posted s' = ss_posted s \<Longrightarrow> sem_count_ok s'"
  by (simp add: sem_count_ok_def)

lemma count_take:
  "sem_count_ok s \<Longrightarrow> ss_count s \<noteq> 0 \<Longrightarrow> ss_count s' = ss_count s - 1 \<Longrightarrow> ss_initial s' = ss_initial s \<Longrightarrow>
   ss_taken s' = ss_taken s + 1 \<Longrightarrow> ss_posted s' = ss_posted s \<Longrightarrow> sem_count_ok s'"
  using unat_pos_iff [of "ss_count s"] by (auto simp: sem_count_ok_def unat_dec)

lemma count_post:
  assumes "sem_count_ok s" "ss_count s' = ss_count s + 1" "ss_initial s' = ss_initial s" "ss_taken s' = ss_taken s" "ss_posted s' = ss_posted s + 1"
  shows "sem_count_ok s'"
  unfolding sem_count_ok_def
proof
  assume b: "ss_initial s' + ss_posted s' < 2 ^ 64"
  then have e: "unat (ss_count s) + ss_taken s = ss_initial s + ss_posted s" using assms by (simp add: sem_count_ok_def)
  then have "unat (ss_count s) + unat (1 :: uint64) < 2 ^ 64" using b assms(3,5) by simp
  from unat_add_exact [OF this] show "unat (ss_count s') + ss_taken s' = ss_initial s' + ss_posted s'" using e assms by simp
qed

lemma lock_moves:
  assumes "mutex_ok sem_holds (ss_lock s) (ss_pcs s)" "sat s i old"
  shows "ss_lock s = None \<Longrightarrow> sem_holds pc \<Longrightarrow> mutex_ok sem_holds (Some i) ((ss_pcs s)[i := pc])"
    "ss_lock s = Some i \<Longrightarrow> \<not> sem_holds pc \<Longrightarrow> mutex_ok sem_holds None ((ss_pcs s)[i := pc])"
    "sem_holds pc = sem_holds old \<Longrightarrow> mutex_ok sem_holds (ss_lock s) ((ss_pcs s)[i := pc])"
  using mutex_acquire [of sem_holds "ss_pcs s" i pc] mutex_release [of sem_holds i "ss_pcs s" pc]
    mutex_keep [of sem_holds "ss_lock s" "ss_pcs s" i pc] assms by (auto simp: sat_def)

lemma sem_moveI:
  assumes "sem_inv s" "sat s i old" "ss_pcs s' = (ss_pcs s)[i := pc]" "pc \<noteq> Wait_Asleep"
    "unat (ss_count s') + of_bool (attentive old) \<le> unat (ss_count s) + of_bool (attentive pc)"
    "mutex_ok sem_holds (ss_lock s') (ss_pcs s')" "sem_count_ok s'"
  shows "sem_inv s'"
  using awake_move [of s i old s' pc] assms by (simp add: sem_inv_def)

lemma sem_inv_sleep:
  assumes "sem_inv s" "sat s i Wait_Test" "ss_lock s = Some i" "ss_count s = 0"
  shows "sem_inv (sgo i Wait_Asleep (s\<lparr>ss_lock := None\<rparr>))"
  using assms lock_moves(2) [of s i Wait_Test Wait_Asleep] by (simp add: sem_inv_def sem_awake_ok_def sem_count_ok_def)

lemma sem_inv_nobody:
  assumes "sem_inv s" "sat s i Post_Signal" "Wait_Asleep \<notin> set (ss_pcs s)"
  shows "sem_inv (sgo i Post_Unlock s)"
proof -
  have "Wait_Asleep \<notin> set ((ss_pcs s)[i := Post_Unlock])" using set_upd [of Wait_Asleep "ss_pcs s" i Post_Unlock] assms(3) by auto
  then show ?thesis
    using assms lock_moves(3) [of s i Post_Signal Post_Unlock] by (simp add: sem_inv_def sem_awake_ok_def sem_count_ok_def)
qed

lemma sem_inv_wake:
  assumes "sem_inv s" "sat s i Post_Signal" "sat s j Wait_Asleep"
  shows "sem_inv (sgo i Post_Unlock (sgo j Wait_Woken s))"
proof -
  let ?s1 = "sgo j Wait_Woken s" and ?s = "sgo i Post_Unlock (sgo j Wait_Woken s)"
  have ij: "i \<noteq> j" using assms(2,3) by (auto simp: sat_def)
  then have at: "sat ?s1 i Post_Signal" using assms(2) by (simp add: sat_def)
  have m: "mutex_ok sem_holds (ss_lock s) (ss_pcs s)" "sem_count_ok s" "sem_awake_ok s" using assms(1) by (simp_all add: sem_inv_def)
  have m1: "mutex_ok sem_holds (ss_lock ?s1) (ss_pcs ?s1)" using lock_moves(3) [OF m(1) assms(3), of Wait_Woken] by simp
  have m2: "mutex_ok sem_holds (ss_lock ?s) (ss_pcs ?s)" using lock_moves(3) [OF m1 at, of Post_Unlock] by simp
  have l: "i < length (ss_pcs s)" "j < length (ss_pcs s)" "ss_pcs s ! i = Post_Signal" "ss_pcs s ! j = Wait_Asleep"
    using assms(2,3) by (simp_all add: sat_def)
  have c: "cnt attentive (ss_pcs ?s) = cnt attentive (ss_pcs s)"
    using cnt_upd [OF l(2), of attentive Wait_Woken] cnt_upd [of i "ss_pcs ?s1" attentive Post_Unlock] l ij by simp
  have "Wait_Asleep \<in> set (ss_pcs s)" using l(2,4) nth_mem by metis
  then have "sem_awake_ok ?s" using m(3) c by (simp add: sem_awake_ok_def)
  then show ?thesis using m2 m(2) by (simp add: sem_inv_def sem_count_ok_def)
qed

lemma sem_invD: "sem_inv s \<Longrightarrow> mutex_ok sem_holds (ss_lock s) (ss_pcs s)" "sem_inv s \<Longrightarrow> sem_count_ok s" "sem_inv s \<Longrightarrow> sem_awake_ok s"
  by (simp_all add: sem_inv_def)

lemma sem_inv_acquire:
  assumes "sem_inv s" "sat s i old" "ss_lock s = None" "sem_holds pc" "attentive old \<longrightarrow> attentive pc"
  shows "sem_inv (sgo i pc (s\<lparr>ss_lock := Some i\<rparr>))" (is "sem_inv ?s")
proof (rule sem_moveI [OF assms(1,2)])
  show "ss_pcs ?s = (ss_pcs s)[i := pc]" by simp
  show "mutex_ok sem_holds (ss_lock ?s) (ss_pcs ?s)"
    using lock_moves(1) [OF sem_invD(1) [OF assms(1)] assms(2,3,4)] by simp
  show "sem_count_ok ?s" by (rule count_same [OF sem_invD(2) [OF assms(1)]]) simp_all
  show "pc \<noteq> Wait_Asleep" using assms(4) by auto
  show "unat (ss_count ?s) + of_bool (attentive old) \<le> unat (ss_count s) + of_bool (attentive pc)" using assms(5) by simp
qed

lemma sem_inv_release:
  assumes "sem_inv s" "sat s i old" "ss_lock s = Some i" "\<not> sem_holds pc" "attentive old \<longrightarrow> attentive pc" "pc \<noteq> Wait_Asleep"
  shows "sem_inv (sgo i pc (s\<lparr>ss_lock := None\<rparr>))" (is "sem_inv ?s")
proof (rule sem_moveI [OF assms(1,2) _ assms(6)])
  show "ss_pcs ?s = (ss_pcs s)[i := pc]" by simp
  show "mutex_ok sem_holds (ss_lock ?s) (ss_pcs ?s)"
    using lock_moves(2) [OF sem_invD(1) [OF assms(1)] assms(2,3,4)] by simp
  show "sem_count_ok ?s" by (rule count_same [OF sem_invD(2) [OF assms(1)]]) simp_all
  show "unat (ss_count ?s) + of_bool (attentive old) \<le> unat (ss_count s) + of_bool (attentive pc)" using assms(5) by simp
qed

lemma sem_inv_keep:
  assumes "sem_inv s" "sat s i old" "sem_holds pc = sem_holds old" "attentive old \<longrightarrow> attentive pc" "pc \<noteq> Wait_Asleep"
  shows "sem_inv (sgo i pc s)" (is "sem_inv ?s")
proof (rule sem_moveI [OF assms(1,2) _ assms(5)])
  show "ss_pcs ?s = (ss_pcs s)[i := pc]" by simp
  show "mutex_ok sem_holds (ss_lock ?s) (ss_pcs ?s)"
    using lock_moves(3) [OF sem_invD(1) [OF assms(1)] assms(2,3)] by simp
  show "sem_count_ok ?s" by (rule count_same [OF sem_invD(2) [OF assms(1)]]) simp_all
  show "unat (ss_count ?s) + of_bool (attentive old) \<le> unat (ss_count s) + of_bool (attentive pc)" using assms(4) by simp
qed

lemma sem_inv_take:
  assumes "sem_inv s" "sat s i old" "ss_count s \<noteq> 0" "sem_holds pc = sem_holds old" "pc \<noteq> Wait_Asleep"
  shows "sem_inv (sgo i pc (s\<lparr>ss_count := ss_count s - 1, ss_taken := ss_taken s + 1\<rparr>))" (is "sem_inv ?s")
proof (rule sem_moveI [OF assms(1,2) _ assms(5)])
  show "ss_pcs ?s = (ss_pcs s)[i := pc]" by simp
  have "0 < unat (ss_count s)" using assms(3) by (simp only: unat_pos_iff) simp
  moreover have "unat (ss_count ?s) = unat (ss_count s) - 1" using unat_dec [OF assms(3)] by simp
  ultimately have "unat (ss_count ?s) + 1 \<le> unat (ss_count s)" by linarith
  moreover have "of_bool (attentive old) \<le> (1::nat)" by simp
  ultimately show "unat (ss_count ?s) + of_bool (attentive old) \<le> unat (ss_count s) + of_bool (attentive pc)"
    by linarith
  show "mutex_ok sem_holds (ss_lock ?s) (ss_pcs ?s)"
    using lock_moves(3) [OF sem_invD(1) [OF assms(1)] assms(2,4)] by simp
  show "sem_count_ok ?s" by (rule count_take [OF sem_invD(2) [OF assms(1)] assms(3)]) simp_all
qed

lemma sem_inv_inc:
  assumes "sem_inv s" "sat s i Post_Inc"
  shows "sem_inv (sgo i Post_Signal (s\<lparr>ss_count := ss_count s + 1, ss_posted := ss_posted s + 1\<rparr>))" (is "sem_inv ?s")
proof (rule sem_moveI [OF assms])
  show "ss_pcs ?s = (ss_pcs s)[i := Post_Signal]" by simp
  show "unat (ss_count ?s) + of_bool (attentive Post_Inc) \<le> unat (ss_count s) + of_bool (attentive Post_Signal)"
    using unat_inc [of "ss_count s"] by simp
  show "mutex_ok sem_holds (ss_lock ?s) (ss_pcs ?s)"
    using lock_moves(3) [OF sem_invD(1) [OF assms(1)] assms(2), of Post_Signal] by simp
  show "sem_count_ok ?s" by (rule count_post [OF sem_invD(2) [OF assms(1)]]) simp_all
qed simp

lemma sem_step_inv: "sem_step s s' \<Longrightarrow> sem_inv s \<Longrightarrow> sem_inv s'"
proof (induction rule: sem_step.induct)
  case (call s i pc)
  then show ?case by (intro sem_inv_keep [of s i Outside pc]) auto
next
  case (wait_lock s i)
  then show ?case by (intro sem_inv_acquire [of s i Wait_Lock]) simp_all
next
  case (wait_sleep s i)
  then show ?case by (intro sem_inv_sleep)
next
  case (wait_spurious s i)
  then show ?case by (intro sem_inv_keep [of s i Wait_Asleep]) simp_all
next
  case (wait_relock s i)
  then show ?case by (intro sem_inv_acquire [of s i Wait_Woken]) simp_all
next
  case (wait_take s i)
  then show ?case by (intro sem_inv_take [of s i Wait_Test]) simp_all
next
  case (wait_unlock s i)
  then show ?case by (intro sem_inv_release [of s i Wait_Unlock]) simp_all
next
  case (try_lock s i)
  then show ?case by (intro sem_inv_acquire [of s i Try_Lock]) simp_all
next
  case (try_take s i)
  then show ?case by (intro sem_inv_take [of s i Try_Test]) (simp_all add: word_gt_0)
next
  case (try_fail s i)
  then show ?case by (intro sem_inv_keep [of s i Try_Test]) simp_all
next
  case (try_unlock s i ok)
  then show ?case by (intro sem_inv_release [of s i "Try_Unlock ok"]) simp_all
next
  case (post_lock s i)
  then show ?case by (intro sem_inv_acquire [of s i Post_Lock]) simp_all
next
  case (post_inc s i)
  then show ?case by (intro sem_inv_inc)
next
  case (post_wake s i j)
  then show ?case by (intro sem_inv_wake)
next
  case (post_nobody s i)
  then show ?case by (intro sem_inv_nobody)
next
  case (post_unlock s i)
  then show ?case by (intro sem_inv_release [of s i Post_Unlock]) simp_all
qed

lemma unat_widen: "unat (ucast (c :: 32 word) :: uint64) = unat c"
  using unsigned_less [of c, where 'a = nat] by (simp add: unsigned_ucast_eq take_bit_nat_eq_self)

lemma sem_start_inv: "sem_inv (sem_start c n)"
proof -
  have "mutex_ok sem_holds None (replicate n Outside)" by (auto simp: mutex_ok_def)
  then show ?thesis by (simp add: sem_inv_def sem_start_def sem_count_ok_def sem_awake_ok_def unat_widen)
qed

lemma sem_reachable_inv: "sem_step\<^sup>*\<^sup>* (sem_start c n) s \<Longrightarrow> sem_inv s"
  by (induction rule: rtranclp_induct) (auto intro: sem_start_inv sem_step_inv)

lemma sem_initial: "sem_step\<^sup>*\<^sup>* (sem_start c n) s \<Longrightarrow> ss_initial s = unat c"
proof (induction rule: rtranclp_induct)
  case (step s s')
  then show ?case by (auto elim: sem_step.cases)
qed (simp add: sem_start_def)

text \<open>
  The counter abstracts the semaphore: seen from outside, every step leaves the permits alone, takes
  one of at least one, or adds one. This is the semaphore the thread pool is modelled with.
\<close>

inductive permit_step :: "nat \<Rightarrow> nat \<Rightarrow> bool" where
  permit_idle: "permit_step n n"
| permit_take: "0 < n \<Longrightarrow> permit_step n (n - 1)"
| permit_post: "permit_step n (n + 1)"

inductive_simps permit_step_iff: "permit_step n n'"

lemma sem_step_permits:
  assumes "sem_step s s'" "unat (ss_count s) + 1 < 2 ^ 64"
  shows "permit_step (unat (ss_count s)) (unat (ss_count s'))"
proof -
  have post: "unat (ss_count s + 1) = unat (ss_count s) + 1" using unat_add_exact [of "ss_count s" 1] assms(2) by simp
  have "ss_count s' = ss_count s \<or> ss_count s \<noteq> 0 \<and> ss_count s' = ss_count s - 1 \<or> ss_count s' = ss_count s + 1"
    using assms(1) by cases (simp_all add: word_gt_0)
  then show ?thesis using post unat_dec [of "ss_count s"] unat_pos_iff [of "ss_count s"] by (auto simp: permit_step_iff)
qed

section \<open>Properties\<close>

text \<open>In every interleaving of any number of threads, the permits handed out by \<open>wait\<close> and \<open>trywait\<close> never
  exceed the initial count plus the permits posted, the counter is exactly the difference (as long
  as fewer than \<open>2 ^ 64\<close> permits exist), and at most one thread is inside the critical section.\<close>

theorem semaphore_counts:
  assumes "sem_step\<^sup>*\<^sup>* (sem_start c n) s" "unat c + ss_posted s < 2 ^ 64"
  shows "unat (ss_count s) + ss_taken s = unat c + ss_posted s \<and> ss_taken s \<le> unat c + ss_posted s \<and> cnt sem_holds (ss_pcs s) \<le> 1"
proof -
  have inv: "mutex_ok sem_holds (ss_lock s) (ss_pcs s)" "sem_count_ok s" using sem_reachable_inv [OF assms(1)] by (simp_all add: sem_inv_def)
  then have "unat (ss_count s) + ss_taken s = unat c + ss_posted s" using assms(2) sem_initial [OF assms(1)] by (simp add: sem_count_ok_def)
  then show ?thesis using mutex_exclusion [OF inv(1)] by simp
qed

text \<open>C8: no wake-up is lost: whenever the mutex is free, permits are available and some thread sleeps in
  \<open>wait\<close>, at least as many sleepers have already been woken as there are permits; such a thread can
  take a permit at once, whatever happened before.\<close>

theorem semaphore_no_lost_wakeup:
  assumes "sem_step\<^sup>*\<^sup>* (sem_start c n) s" "ss_lock s = None" "ss_count s \<noteq> 0" "Wait_Asleep \<in> set (ss_pcs s)"
  shows "unat (ss_count s) \<le> cnt (\<lambda>pc. pc = Wait_Woken) (ss_pcs s) \<and>
    (\<exists>i s'. sat s i Wait_Woken \<and> sem_step\<^sup>*\<^sup>* s s' \<and> sat s' i Wait_Unlock \<and> ss_taken s' = ss_taken s + 1)"
proof -
  have inv: "mutex_ok sem_holds None (ss_pcs s)" "sem_awake_ok s"
    using sem_reachable_inv [OF assms(1)] assms(2) by (simp_all add: sem_inv_def)
  have "attentive pc = (pc = Wait_Woken)" if "pc \<in> set (ss_pcs s)" for pc
  proof -
    have "\<not> sem_holds pc" using inv(1) that by (auto simp: mutex_ok_def in_set_conv_nth)
    then show ?thesis by (cases pc rule: sem_pc.exhaust) simp_all
  qed
  then have "cnt attentive (ss_pcs s) = cnt (\<lambda>pc. pc = Wait_Woken) (ss_pcs s)"
    unfolding cnt_def by (intro total_cong) simp
  then have le: "unat (ss_count s) \<le> cnt (\<lambda>pc. pc = Wait_Woken) (ss_pcs s)" using inv(2) assms(4) by (simp add: sem_awake_ok_def)
  moreover have "0 < unat (ss_count s)" using assms(3) by (simp add: unat_pos_iff)
  ultimately have "0 < cnt (\<lambda>pc. pc = Wait_Woken) (ss_pcs s)" by simp
  from cnt_posD [OF this] obtain i where "i < length (ss_pcs s)" "ss_pcs s ! i = Wait_Woken" by blast
  then have i: "sat s i Wait_Woken" unfolding sat_def by blast
  let ?s1 = "sgo i Wait_Test (s\<lparr>ss_lock := Some i\<rparr>)"
  let ?s2 = "sgo i Wait_Unlock (?s1\<lparr>ss_count := ss_count ?s1 - 1, ss_taken := ss_taken ?s1 + 1\<rparr>)"
  have s1: "sem_step s ?s1" using i assms(2) by (rule sem_step.wait_relock)
  have s2: "sem_step ?s1 ?s2" by (rule sem_step.wait_take) (use i assms(3) in \<open>simp_all add: sat_def\<close>)
  have "sem_step\<^sup>*\<^sup>* s ?s2" by (rule rtranclp.rtrancl_into_rtrancl [OF r_into_rtranclp [where r = sem_step, OF s1] s2])
  moreover have "sat ?s2 i Wait_Unlock" using i by (simp add: sat_def)
  moreover have "ss_taken ?s2 = ss_taken s + 1" by simp
  ultimately have "\<exists>s'. sem_step\<^sup>*\<^sup>* s s' \<and> sat s' i Wait_Unlock \<and> ss_taken s' = ss_taken s + 1" by (intro exI conjI)
  with le i show ?thesis by blast
qed

text \<open>Two threads asleep, a third posts once: the state just after its operation.\<close>

definition sem_mid :: sem_sys where
  "sem_mid = \<lparr>ss_count = 1, ss_lock = None, ss_pcs = [Wait_Woken, Wait_Asleep, Outside], ss_initial = 0, ss_taken = 0, ss_posted = 1\<rparr>"

lemma sem_mid_reachable: "sem_step\<^sup>*\<^sup>* (sem_start 0 3) sem_mid"
proof -
  let ?S = "\<lambda>c l pcs p. \<lparr>ss_count = c, ss_lock = l, ss_pcs = pcs, ss_initial = 0, ss_taken = 0, ss_posted = p\<rparr>"
  let ?s0 = "?S 0 None [Outside, Outside, Outside] 0" and ?s1 = "?S 0 None [Wait_Lock, Outside, Outside] 0"
  let ?s2 = "?S 0 (Some 0) [Wait_Test, Outside, Outside] 0" and ?s3 = "?S 0 None [Wait_Asleep, Outside, Outside] 0"
  let ?s4 = "?S 0 None [Wait_Asleep, Wait_Lock, Outside] 0" and ?s5 = "?S 0 (Some 1) [Wait_Asleep, Wait_Test, Outside] 0"
  let ?s6 = "?S 0 None [Wait_Asleep, Wait_Asleep, Outside] 0" and ?s7 = "?S 0 None [Wait_Asleep, Wait_Asleep, Post_Lock] 0"
  let ?s8 = "?S 0 (Some 2) [Wait_Asleep, Wait_Asleep, Post_Inc] 0" and ?s9 = "?S 1 (Some 2) [Wait_Asleep, Wait_Asleep, Post_Signal] 1"
  let ?s10 = "?S 1 (Some 2) [Wait_Woken, Wait_Asleep, Post_Unlock] 1"
  have "sem_start 0 3 = ?s0" by (simp add: sem_start_def eval_nat_numeral)
  moreover have "sem_step ?s0 ?s1" using sem_step.call [of ?s0 0 Wait_Lock] by (simp add: sat_def sgo_def)
  moreover have "sem_step ?s1 ?s2" using sem_step.wait_lock [of ?s1 0] by (simp add: sat_def sgo_def)
  moreover have "sem_step ?s2 ?s3" using sem_step.wait_sleep [of ?s2 0] by (simp add: sat_def sgo_def)
  moreover have "sem_step ?s3 ?s4" using sem_step.call [of ?s3 1 Wait_Lock] by (simp add: sat_def sgo_def)
  moreover have "sem_step ?s4 ?s5" using sem_step.wait_lock [of ?s4 1] by (simp add: sat_def sgo_def)
  moreover have "sem_step ?s5 ?s6" using sem_step.wait_sleep [of ?s5 1] by (simp add: sat_def sgo_def)
  moreover have "sem_step ?s6 ?s7" using sem_step.call [of ?s6 2 Post_Lock] by (simp add: sat_def sgo_def)
  moreover have "sem_step ?s7 ?s8" using sem_step.post_lock [of ?s7 2] by (simp add: sat_def sgo_def)
  moreover have "sem_step ?s8 ?s9" using sem_step.post_inc [of ?s8 2] by (simp add: sat_def sgo_def)
  moreover have "sem_step ?s9 ?s10" using sem_step.post_wake [of ?s9 2 0] by (simp add: sat_def sgo_def)
  moreover have "sem_step ?s10 sem_mid" using sem_step.post_unlock [of ?s10 2] by (simp add: sat_def sgo_def sem_mid_def)
  ultimately show ?thesis by (metis (no_types, lifting) converse_rtranclp_into_rtranclp rtranclp.rtrancl_refl)
qed

theorem semaphore_counts_witness: "unat (ss_count sem_mid) + ss_taken sem_mid = 1"
  using semaphore_counts [OF sem_mid_reachable] by (simp add: sem_mid_def)

theorem semaphore_no_lost_wakeup_witness: "\<exists>i s'. sat sem_mid i Wait_Woken \<and> sem_step\<^sup>*\<^sup>* sem_mid s' \<and> ss_taken s' = 1"
proof -
  have "ss_lock sem_mid = None" "ss_count sem_mid \<noteq> 0" "Wait_Asleep \<in> set (ss_pcs sem_mid)" "ss_taken sem_mid = 0" by (simp_all add: sem_mid_def)
  with semaphore_no_lost_wakeup [OF sem_mid_reachable] show ?thesis by auto
qed

end
