(* ===== verification/Thread_Pool_Init.thy ===== *)
theory Thread_Pool_Init
  imports Thread_Pool Semaphore
begin

text \<open>
  Starting the pool (\<open>d4np_thread_pool_init\<close>, \<open>d4np_thread_pool_thread_count\<close> of
  \<open>concurrency/thread_pool.c\<close>): the fields, the lock, the semaphore, the array of thread handles and the
  threads themselves, with the roll-back when a thread cannot be started. What the operating system
  answers (\<open>pthread_mutex_init\<close>, \<open>pthread_cond_init\<close>, \<open>pthread_create\<close>) is an argument. Before \<open>init\<close> returns nobody
  can submit, so the workers wait on the semaphore and a worker that gets a permit finds an empty
  queue and exits: joining a worker uses up one permit, and hangs (\<open>None\<close>) when there is none.
  A thread handle takes 8 bytes (\<open>pthread_t\<close> on Linux x86-64).
\<close>

section \<open>Definitions\<close>

record d4np_thread_pool =
  pl_allocator :: "d4np_allocator option"
  pl_threads :: ptr
  pl_thread_count :: size_t
  pl_lock :: d4np_mutex
  pl_items :: d4np_semaphore
  pl_q_head :: ptr
  pl_q_tail :: ptr
  pl_shutting_down :: bool

text \<open>The threads of the platform: \<open>pthread_create\<close> returns a code and stores the identifier, \<open>CreateThread\<close> returns a handle
  or NULL.\<close>

datatype thread_answer = Pthread_Create int ptr | Create_Thread ptr

definition pool_spawn :: "int \<Rightarrow> ptr \<Rightarrow> ptr option" where
  "pool_spawn rc t = (if rc = 0 then Some t else None)"

definition pool_spawn_win32 :: "ptr \<Rightarrow> ptr option" where
  "pool_spawn_win32 h = (if h = NULL then None else Some h)"

fun spawn_worker :: "thread_answer \<Rightarrow> ptr option" where
  "spawn_worker (Pthread_Create rc t) = pool_spawn rc t"
| "spawn_worker (Create_Thread h) = pool_spawn_win32 h"

text \<open>The answers of the operating system: return codes for the mutex and for the two parts of the
  semaphore, and for each thread what creating it gave.\<close>

record pool_platform =
  os_mutex_rc :: int
  os_sem_mutex_rc :: int
  os_sem_cond_rc :: int
  os_thread :: "nat \<Rightarrow> thread_answer"

abbreviation os_spawn :: "pool_platform \<Rightarrow> nat \<Rightarrow> ptr option" where
  "os_spawn os i \<equiv> spawn_worker (os_thread os i)"

definition sem_post :: "d4np_semaphore \<Rightarrow> d4np_semaphore" where
  "sem_post s = s\<lparr>sem_count := sem_count s + 1\<rparr>"

text \<open>The loop that starts the workers: how many were started, which run, and the memory.\<close>

function start_workers :: "(nat \<Rightarrow> ptr option) \<Rightarrow> ptr \<Rightarrow> nat \<Rightarrow> nat \<Rightarrow> ptr list \<Rightarrow> mem \<Rightarrow> (nat \<times> ptr list \<times> mem) option" where
  "start_workers spawn handles i n started m =
     (if i < n
      then case spawn i of
          None \<Rightarrow> Some (i, started, m)
        | Some h \<Rightarrow> do {
            m1 \<leftarrow> store_ptr m (handles + 8 * i) h;
            start_workers spawn handles (Suc i) n (started @ [h]) m1 }
      else Some (n, started, m))"
  by pat_completeness auto
termination by (relation "measure (\<lambda>(_, _, i, n, _, _). n - i)") auto

declare start_workers.simps [simp del]

text \<open>\<open>pool_join\<close>, alone and for the handles \<open>k, \<dots>, i - 1\<close>: the worker uses up a permit and is gone, and so is its handle
  (\<open>pthread_join\<close> and \<open>CloseHandle\<close> alike release it).\<close>

definition pool_join :: "ptr \<Rightarrow> d4np_semaphore \<Rightarrow> ptr list \<Rightarrow> (d4np_semaphore \<times> ptr list) option" where
  "pool_join h items started =
     (if h \<in> set started \<and> sem_count items \<noteq> 0
      then Some (items\<lparr>sem_count := sem_count items - 1\<rparr>, remove1 h started) else None)"

function join_workers :: "ptr \<Rightarrow> nat \<Rightarrow> nat \<Rightarrow> d4np_semaphore \<Rightarrow> ptr list \<Rightarrow> mem \<Rightarrow> (d4np_semaphore \<times> ptr list) option" where
  "join_workers handles k i items started m =
     (if k < i
      then do {
        h \<leftarrow> load_ptr m (handles + 8 * k);
        (items1, started1) \<leftarrow> pool_join h items started;
        join_workers handles (Suc k) i items1 started1 m }
      else Some (items, started))"
  by pat_completeness auto
termination by (relation "measure (\<lambda>(_, k, i, _, _, _). i - k)") auto

declare join_workers.simps [simp del]

text \<open>The roll-back: the lock is taken and released by the initialising thread, here thread 0.\<close>

definition roll_back ::
  "d4np_thread_pool \<Rightarrow> size_t \<Rightarrow> nat \<Rightarrow> ptr list \<Rightarrow> mem \<Rightarrow> (d4np_thread_pool \<times> ptr list \<times> mem) option" where
  "roll_back pool thread_count i started m =
     (case d4np_mutex_lock 0 (Some (pl_lock pool)) of
        Some (Returns l) \<Rightarrow> do {
          l1 \<leftarrow> d4np_mutex_unlock 0 (Some l);
          (items, left) \<leftarrow> join_workers (pl_threads pool) 0 i ((sem_post ^^ i) (pl_items pool)) started m;
          m1 \<leftarrow> d4np_free (pl_allocator pool) (pl_threads pool) (thread_count * 8) m;
          items1 \<leftarrow> d4np_semaphore_destroy (Some items);
          l2 \<leftarrow> d4np_mutex_destroy (Some l1);
          Some (pool\<lparr>pl_thread_count := of_nat i, pl_shutting_down := True, pl_threads := NULL,
            pl_items := items1, pl_lock := the l2\<rparr>, left, m1) }
      | _ \<Rightarrow> None)"

definition d4np_thread_pool_init ::
  "pool_platform \<Rightarrow> d4np_thread_pool option \<Rightarrow> d4np_allocator option \<Rightarrow> size_t \<Rightarrow> mem \<Rightarrow>
   (d4np_status \<times> d4np_thread_pool option \<times> ptr list \<times> mem) option" where
  "d4np_thread_pool_init os pool allocator thread_count m =
     (case pool of
        None \<Rightarrow> Some (D4NP_ERR_INVALID_ARGUMENT, None, [], m)
      | Some p0 \<Rightarrow>
          if thread_count = 0 then Some (D4NP_ERR_INVALID_ARGUMENT, Some p0, [], m)
          else if SIZE_MAX div 8 < thread_count then Some (D4NP_ERR_OVERFLOW, Some p0, [], m)
          else let al = Some (allocator_or_default allocator);
                   p1 = p0\<lparr>pl_allocator := al, pl_thread_count := thread_count, pl_q_head := NULL, pl_q_tail := NULL,
                           pl_shutting_down := False, pl_threads := NULL\<rparr>
            in case d4np_mutex_init (os_mutex_rc os) (Some (pl_lock p1)) of
                 (D4NP_OK, Some l) \<Rightarrow>
                   (case d4np_semaphore_init (os_sem_mutex_rc os) (os_sem_cond_rc os) (Some (pl_items p1)) 0 of
                      (D4NP_OK, Some s) \<Rightarrow> do {
                        (threads, m1) \<leftarrow> d4np_alloc al (thread_count * 8) 8 m;
                        let p2 = p1\<lparr>pl_lock := l, pl_items := s, pl_threads := threads\<rparr>;
                        if threads = NULL
                        then do {
                          s1 \<leftarrow> d4np_semaphore_destroy (Some s);
                          l1 \<leftarrow> d4np_mutex_destroy (Some l);
                          Some (D4NP_ERR_OUT_OF_MEMORY, Some (p2\<lparr>pl_items := s1, pl_lock := the l1\<rparr>), [], m1) }
                        else do {
                          (i, started, m2) \<leftarrow> start_workers (os_spawn os) threads 0 (unat thread_count) [] m1;
                          if i < unat thread_count
                          then do {
                            (p3, left, m3) \<leftarrow> roll_back p2 thread_count i started m2;
                            Some (D4NP_ERR_INTERNAL, Some p3, left, m3) }
                          else Some (D4NP_OK, Some p2, started, m2) } }
                    | (_, Some s) \<Rightarrow> do {
                        l1 \<leftarrow> d4np_mutex_destroy (Some l);
                        Some (D4NP_ERR_INTERNAL, Some (p1\<lparr>pl_items := s, pl_lock := the l1\<rparr>), [], m) }
                    | _ \<Rightarrow> None)
               | (_, Some l) \<Rightarrow> Some (D4NP_ERR_INTERNAL, Some (p1\<lparr>pl_lock := l\<rparr>), [], m)
               | _ \<Rightarrow> None)"

text \<open>The end of \<open>d4np_thread_pool_destroy\<close>, after the workers are joined and the queue is drained: in \<open>Thread_Pool\<close> part of the
  last step of the destroyer, here with the memory the handle array is in.\<close>

definition pool_release :: "d4np_thread_pool \<Rightarrow> mem \<Rightarrow> (d4np_thread_pool \<times> mem) option" where
  "pool_release pool m = do {
     let p1 = pool\<lparr>pl_q_head := NULL, pl_q_tail := NULL\<rparr>;
     m1 \<leftarrow> d4np_free (pl_allocator p1) (pl_threads p1) (pl_thread_count p1 * 8) m;
     let p2 = p1\<lparr>pl_threads := NULL\<rparr>;
     items \<leftarrow> d4np_semaphore_destroy (Some (pl_items p2));
     l \<leftarrow> d4np_mutex_destroy (Some (pl_lock p2));
     Some (p2\<lparr>pl_items := items, pl_lock := the l\<rparr>, m1) }"

definition d4np_thread_pool_thread_count :: "d4np_thread_pool option \<Rightarrow> size_t" where
  "d4np_thread_pool_thread_count pool = (case pool of Some p \<Rightarrow> pl_thread_count p | None \<Rightarrow> 0)"

text \<open>The system of threads a started pool is, with the threads of its clients.\<close>

definition pool_system :: "d4np_thread_pool \<Rightarrow> ptr list \<Rightarrow> nat \<Rightarrow> tp" where
  "pool_system p started clients = \<lparr>tp_nodes = Map.empty, tp_q_head = pl_q_head p, tp_q_tail = pl_q_tail p,
     tp_shutting_down = pl_shutting_down p, tp_thread_count = unat (d4np_thread_pool_thread_count (Some p)),
     tp_threads = pl_threads p, tp_ready = (mx_ready (pl_lock p) \<and> sem_cond_ready (pl_items p)), tp_lock = mx_owner (pl_lock p),
     tp_items = unat (sem_count (pl_items p)),
     tp_pcs = replicate (length started) WWait @ replicate clients SIdle @ [DIdle],
     tp_accepted = [], tp_taken = [], tp_ran = [], tp_results = []\<rparr>"

lemma pow2_8: "pow2 8"
  unfolding pow2_def by (intro bexI [of _ 3]) simp_all

section \<open>The loops\<close>

text \<open>The handles the operating system returned are in the array.\<close>

definition handles_at :: "mem \<Rightarrow> ptr \<Rightarrow> ptr list \<Rightarrow> bool" where
  "handles_at m p hs \<longleftrightarrow> (\<forall>k < length hs. load_ptr m (p + 8 * k) = Some (hs ! k))"

definition spawn_ok :: "(nat \<Rightarrow> ptr option) \<Rightarrow> bool" where
  "spawn_ok spawn \<longleftrightarrow> (\<forall>i h. spawn i = Some h \<longrightarrow> h < 2 ^ 64)"

lemma handles_at_store:
  assumes "handles_at m p hs" "valid m (p + 8 * length hs) 8" "h < 2 ^ 64"
  shows "handles_at (poke m (p + 8 * length hs) (le_bytes (of_nat h))) p (hs @ [h])"
  unfolding handles_at_def
proof (intro allI impI)
  fix k assume "k < length (hs @ [h])"
  then consider "k < length hs" | "k = length hs" by force
  then show "load_ptr (poke m (p + 8 * length hs) (le_bytes (of_nat h))) (p + 8 * k) = Some ((hs @ [h]) ! k)"
  proof cases
    case 1
    then show ?thesis using assms(1) by (simp add: load_ptr_poke_other handles_at_def nth_append)
  next
    case 2
    then show ?thesis using assms(2,3) by (simp add: load_ptr_poke_same)
  qed
qed

lemma start_workers_ok:
  assumes "wf_mem m" "(p, 8 * n) \<in> set (live m)" "handles_at m p hs" "length hs = i" "i \<le> n" "spawn_ok spawn"
    "\<forall>k < i. spawn k = Some (hs ! k)"
  shows "\<exists>j hs' m'. start_workers spawn p i n hs m = Some (j, hs', m') \<and> j \<le> n \<and> length hs' = j \<and> handles_at m' p hs' \<and>
    live m' = live m \<and> wf_mem m' \<and> keeps (set (live m) - {(p, 8 * n)}) m m' \<and>
    (j < n \<longrightarrow> spawn j = None) \<and> (\<forall>k < j. spawn k = Some (hs' ! k))"
  using assms
proof (induction "n - i" arbitrary: i hs m)
  case 0
  then show ?case by (auto simp: start_workers.simps)
next
  case (Suc d)
  then have i: "i < n" by simp
  show ?case
  proof (cases "spawn i")
    case None
    then show ?thesis using i Suc.prems by (auto simp: start_workers.simps)
  next
    case (Some h)
    let ?m = "poke m (p + 8 * i) (le_bytes (of_nat h))"
    have v: "valid m (p + 8 * i) 8" using Suc.prems(2) by (rule validI) (use i in simp_all)
    have h: "h < 2 ^ 64" using Suc.prems(6) Some by (simp add: spawn_ok_def)
    have ha: "handles_at ?m p (hs @ [h])" using handles_at_store [OF Suc.prems(3), of h] v h Suc.prems(4) by simp
    have k: "keeps (set (live m) - {(p, 8 * n)}) m ?m"
      using keeps_poke_outside [OF Suc.prems(1), of p "8 * n" "{(p, 8 * n)}" "p + 8 * i" "le_bytes (of_nat h)"] Suc.prems(2) i by simp
    have sp: "\<forall>k < Suc i. spawn k = Some ((hs @ [h]) ! k)" using Suc.prems(4,7) Some by (auto simp: nth_append less_Suc_eq)
    have "d = n - Suc i" using Suc.hyps(2) by simp
    from Suc.hyps(1) [OF this, of ?m "hs @ [h]"] Suc.prems i ha sp obtain j hs' m' where
      r: "start_workers spawn p (Suc i) n (hs @ [h]) ?m = Some (j, hs', m')" "j \<le> n" "length hs' = j" "handles_at m' p hs'"
        "live m' = live m" "wf_mem m'" "keeps (set (live m) - {(p, 8 * n)}) ?m m'" "j < n \<longrightarrow> spawn j = None"
        "\<forall>k < j. spawn k = Some (hs' ! k)" by auto
    have "start_workers spawn p i n hs m = Some (j, hs', m')"
      using i Some v r(1) by (subst start_workers.simps) (simp add: store_ptr_Some)
    then show ?thesis using r keeps_trans [OF k r(7)] by blast
  qed
qed

lemma posts: "sem_count ((sem_post ^^ k) s) = sem_count s + of_nat k" "sem_mutex ((sem_post ^^ k) s) = sem_mutex s"
  by (induction k) (simp_all add: sem_post_def)

text \<open>With a permit for each worker every join returns.\<close>

lemma join_workers_ok:
  assumes "handles_at m p hs" "k \<le> length hs" "sem_count s = of_nat (length hs - k)" "length hs < 2 ^ 64"
  shows "join_workers p k (length hs) s (drop k hs) m = Some (s\<lparr>sem_count := 0\<rparr>, [])"
  using assms(2,3)
proof (induction "length hs - k" arbitrary: k s)
  case 0
  then show ?case by (simp add: join_workers.simps)
next
  case (Suc d)
  then have k: "k < length hs" by simp
  have h: "load_ptr m (p + 8 * k) = Some (hs ! k)" using assms(1) k by (simp add: handles_at_def)
  have c: "sem_count s = of_nat (Suc d)" using Suc by simp
  have "Suc d < 2 ^ 64" using Suc.hyps(2) assms(4) by simp
  then have nz: "sem_count s \<noteq> 0" unfolding c by (metis unat_of_nat_small unat_0 nat.distinct(1))
  have e: "drop k hs = hs ! k # drop (Suc k) hs" using k by (simp add: Cons_nth_drop_Suc)
  have "join_workers p (Suc k) (length hs) (s\<lparr>sem_count := sem_count s - 1\<rparr>) (drop (Suc k) hs) m =
      Some (s\<lparr>sem_count := sem_count s - 1\<rparr>\<lparr>sem_count := 0\<rparr>, [])"
    by (rule Suc.hyps(1)) (use Suc.hyps(2) k c in auto)
  then show ?case using k h nz by (subst join_workers.simps) (simp add: e pool_join_def)
qed

lemma roll_back_ok:
  assumes "allocator_contract A" "wf_mem m" "(pl_threads p, unat (n * 8)) \<in> set (live m)" "handles_at m (pl_threads p) hs"
    "length hs < 2 ^ 64" "pl_allocator p = Some A" "pl_lock p = \<lparr>mx_ready = True, mx_owner = None\<rparr>" "sem_count (pl_items p) = 0"
  shows "\<exists>p' m'. roll_back p n (length hs) hs m = Some (p', [], m') \<and> wf_mem m' \<and> pl_threads p' = NULL \<and>
    \<not> mx_ready (pl_lock p') \<and> \<not> mx_ready (sem_mutex (pl_items p')) \<and> \<not> sem_cond_ready (pl_items p') \<and>
    keeps (set (live m) - {(pl_threads p, unat (n * 8))}) m m' \<and> set (live m') = set (live m) - {(pl_threads p, unat (n * 8))}"
proof -
  let ?s = "(sem_post ^^ length hs) (pl_items p)"
  have j: "join_workers (pl_threads p) 0 (length hs) ?s hs m = Some (?s\<lparr>sem_count := 0\<rparr>, [])"
    using join_workers_ok [OF assms(4), of 0 ?s] assms(5,8) by (simp add: posts)
  from allocator_contract.free_cases [OF assms(1-3)] obtain m' where
    f: "d4np_free (Some A) (pl_threads p) (n * 8) m = Some m'" "wf_mem m'" "keeps (set (live m) - {(pl_threads p, unat (n * 8))}) m m'" by blast
  show ?thesis
    using j f assms(6,7) allocator_contract.free_live [OF assms(1-3) f(1)]
    by (simp add: roll_back_def d4np_mutex_lock_def d4np_mutex_unlock_def d4np_semaphore_destroy_def d4np_mutex_destroy_def)
qed

text \<open>No primitive of the pool is initialised that was not before.\<close>

definition no_new_primitive :: "d4np_thread_pool \<Rightarrow> d4np_thread_pool \<Rightarrow> bool" where
  "no_new_primitive p0 p \<longleftrightarrow> (mx_ready (pl_lock p) \<longrightarrow> mx_ready (pl_lock p0)) \<and>
     (mx_ready (sem_mutex (pl_items p)) \<longrightarrow> mx_ready (sem_mutex (pl_items p0))) \<and>
     (sem_cond_ready (pl_items p) \<longrightarrow> sem_cond_ready (pl_items p0))"

text \<open>The platform primitives came up: what is left of \<open>init\<close>.\<close>

definition pool_fresh :: "d4np_thread_pool \<Rightarrow> d4np_allocator \<Rightarrow> size_t \<Rightarrow> ptr \<Rightarrow> d4np_thread_pool" where
  "pool_fresh p0 A n threads = p0\<lparr>pl_allocator := Some A, pl_thread_count := n, pl_q_head := NULL, pl_q_tail := NULL,
     pl_shutting_down := False, pl_lock := \<lparr>mx_ready = True, mx_owner = None\<rparr>,
     pl_items := (pl_items p0)\<lparr>sem_mutex := \<lparr>mx_ready = True, mx_owner = None\<rparr>, sem_cond_ready := True, sem_count := 0\<rparr>,
     pl_threads := threads\<rparr>"

lemma init_ready:
  assumes "n \<noteq> 0" "n \<le> SIZE_MAX div 8" "os_mutex_rc os = 0" "os_sem_mutex_rc os = 0" "os_sem_cond_rc os = 0"
    "d4np_alloc (Some A) (n * 8) 8 m = Some (q, m1)" "q \<noteq> NULL"
    "start_workers (os_spawn os) q 0 (unat n) [] m1 = Some (i, started, m2)"
  shows "d4np_thread_pool_init os (Some p0) (Some A) n m =
    (if i < unat n
     then map_option (\<lambda>(p3, left, m3). (D4NP_ERR_INTERNAL, Some p3, left, m3)) (roll_back (pool_fresh p0 A n q) n i started m2)
     else Some (D4NP_OK, Some (pool_fresh p0 A n q), started, m2))"
  using assms by (cases "roll_back (pool_fresh p0 A n q) n i started m2")
    (simp_all add: d4np_thread_pool_init_def d4np_mutex_init_def d4np_semaphore_init_def pool_fresh_def Let_def leD case_prod_unfold)

lemma init_early:
  assumes "n \<noteq> 0" "SIZE_MAX div 8 < n \<or> os_mutex_rc os \<noteq> 0 \<or> os_sem_mutex_rc os \<noteq> 0 \<or> os_sem_cond_rc os \<noteq> 0"
  shows "\<exists>rc p. d4np_thread_pool_init os (Some p0) (Some A) n m = Some (rc, Some p, [], m) \<and>
    (rc = D4NP_ERR_OVERFLOW \<or> rc = D4NP_ERR_INTERNAL \<and> pl_threads p = NULL) \<and> no_new_primitive p0 p"
  using assms by (auto simp: no_new_primitive_def d4np_thread_pool_init_def d4np_mutex_init_def d4np_semaphore_init_def d4np_mutex_destroy_def Let_def)

lemma init_no_memory:
  assumes "n \<noteq> 0" "n \<le> SIZE_MAX div 8" "os_mutex_rc os = 0" "os_sem_mutex_rc os = 0" "os_sem_cond_rc os = 0"
    "d4np_alloc (Some A) (n * 8) 8 m = Some (NULL, m1)"
  shows "\<exists>p. d4np_thread_pool_init os (Some p0) (Some A) n m = Some (D4NP_ERR_OUT_OF_MEMORY, Some p, [], m1) \<and> pl_threads p = NULL \<and>
    no_new_primitive p0 p"
  using assms by (simp add: no_new_primitive_def d4np_thread_pool_init_def d4np_mutex_init_def d4np_semaphore_init_def d4np_mutex_destroy_def
      d4np_semaphore_destroy_def Let_def leD)

text \<open>The case in which the handle array is there.\<close>

lemma init_started:
  assumes "allocator_contract A" "n \<noteq> 0" "spawn_ok (os_spawn os)" "n \<le> SIZE_MAX div 8" "os_mutex_rc os = 0" "os_sem_mutex_rc os = 0"
    "os_sem_cond_rc os = 0" "d4np_alloc (Some A) (n * 8) 8 m = Some (q, m1)" "q \<noteq> NULL" "wf_mem m1" "(q, 8 * unat n) \<in> set (live m1)"
  shows "\<exists>rc p started m'. d4np_thread_pool_init os (Some p0) (Some A) n m = Some (rc, Some p, started, m') \<and> wf_mem m' \<and>
    keeps (set (live m1) - {(q, 8 * unat n)}) m1 m' \<and>
    (if rc = D4NP_OK
     then p = pool_fresh p0 A n q \<and> length started = unat n \<and> handles_at m' q started \<and> live m' = live m1 \<and>
       (\<forall>k < unat n. os_spawn os k = Some (started ! k))
     else rc = D4NP_ERR_INTERNAL \<and> started = [] \<and> pl_threads p = NULL \<and> set (live m') = set (live m1) - {(q, 8 * unat n)} \<and>
       no_new_primitive p0 p)"
proof -
  have u: "unat (n * 8) = 8 * unat n"
    using size_mult_guard [of 8 n] assms(4) unat_mult_exact [of n 8] by simp
  have "handles_at m1 q []" by (simp add: handles_at_def)
  from start_workers_ok [OF assms(10,11) this _ _ assms(3)] obtain i hs m2 where
    w: "start_workers (os_spawn os) q 0 (unat n) [] m1 = Some (i, hs, m2)" "i \<le> unat n" "length hs = i" "handles_at m2 q hs"
      "live m2 = live m1" "wf_mem m2" "keeps (set (live m1) - {(q, 8 * unat n)}) m1 m2"
      "\<forall>k < i. os_spawn os k = Some (hs ! k)" by auto
  note r = init_ready [OF assms(2,4-9) w(1)]
  show ?thesis
  proof (cases "i < unat n")
    case False
    then show ?thesis using r w by simp
  next
    case True
    have "length hs < 2 ^ 64" using w(2,3) unsigned_less [of n, where 'a = nat] by simp
    then obtain p' m' where b: "roll_back (pool_fresh p0 A n q) n (length hs) hs m2 = Some (p', [], m')" "wf_mem m'" "pl_threads p' = NULL"
        "\<not> mx_ready (pl_lock p') \<and> \<not> mx_ready (sem_mutex (pl_items p')) \<and> \<not> sem_cond_ready (pl_items p')"
        "keeps (set (live m2) - {(q, 8 * unat n)}) m2 m'" "set (live m') = set (live m2) - {(q, 8 * unat n)}"
      using roll_back_ok [OF assms(1) w(6), of "pool_fresh p0 A n q" n hs] w(4,5) u assms(11) by (auto simp: pool_fresh_def)
    then have "keeps (set (live m1) - {(q, 8 * unat n)}) m1 m'" using keeps_trans [OF w(7)] w(5) by simp
    then show ?thesis using True r w(3,5) b by (simp add: no_new_primitive_def)
  qed
qed

lemma pool_fresh_system:
  assumes "length started = unat n"
  shows "pool_system (pool_fresh p0 A n q) started clients = tp_start q (unat n) clients"
  using assms by (simp add: pool_system_def pool_fresh_def tp_start_def d4np_thread_pool_thread_count_def)

text \<open>What a success of \<open>init\<close> says.\<close>

lemma init_success:
  assumes "allocator_contract A" "wf_mem m" "spawn_ok (os_spawn os)"
    "d4np_thread_pool_init os (Some p0) (Some A) n m = Some (D4NP_OK, Some p, started, m')"
  shows "\<exists>q. p = pool_fresh p0 A n q \<and> length started = unat n \<and> 0 < unat n \<and> unat n < 2 ^ 61 \<and> unat (n * 8) = 8 * unat n \<and>
    (q, 8 * unat n) \<in> set (live m')"
proof -
  have n0: "n \<noteq> 0" using assms(4) by (auto simp: d4np_thread_pool_init_def)
  have ok: "n \<le> SIZE_MAX div 8" "os_mutex_rc os = 0" "os_sem_mutex_rc os = 0" "os_sem_cond_rc os = 0"
    using init_early [OF n0, of os p0 A m] assms(4) by force+
  have u: "unat (n * 8) = 8 * unat n" using size_mult_guard [of 8 n] ok(1) unat_mult_exact [of n 8] by simp
  from allocator_contract.alloc_any [OF assms(1,2) pow2_8, of "n * 8"] obtain q m1 where
    a: "d4np_alloc (Some A) (n * 8) 8 m = Some (q, m1)" "wf_mem m1" "q \<noteq> NULL \<longrightarrow> (q, 8 * unat n) \<in> set (live m1)" unfolding u by blast
  have "q \<noteq> NULL" using init_no_memory [OF n0 ok, of A m m1 p0] a(1) assms(4) by auto
  with init_started [OF assms(1) n0 assms(3) ok a(1) _ a(2), of p0] a(3) assms(4)
  have "p = pool_fresh p0 A n q \<and> length started = unat n \<and> (q, 8 * unat n) \<in> set (live m')" by auto
  moreover have "unat n < 2 ^ 61" using ok(1) by (simp add: word_le_nat_alt unat_div SIZE_MAX_unat)
  ultimately show ?thesis using n0 u by (auto simp: unat_gt_0)
qed

section \<open>Properties\<close>

text \<open>C19: starting a pool either yields exactly the system of threads that the rest of the development
  starts from, \<open>n\<close> workers, one for each thread the operating system created, with their handles in a fresh array, an empty queue, a free lock and no permits, or it
  fails and leaves nothing behind: no running thread, no handle array, neither the pool's mutex nor the mutex and the condition
  variable of its semaphore initialised unless they were before the call, and
  every object of the caller as it was. It never hangs in the roll-back.\<close>

theorem thread_pool_init_outcome:
  assumes "allocator_contract A" "wf_mem m" "n \<noteq> 0" "spawn_ok (os_spawn os)"
  shows "\<exists>rc p started m'. d4np_thread_pool_init os (Some p0) (Some A) n m = Some (rc, Some p, started, m') \<and> wf_mem m' \<and>
    keeps (set (live m)) m m' \<and>
    (if rc = D4NP_OK
     then pool_system p started clients = tp_start (pl_threads p) (unat n) clients \<and> length started = unat n \<and>
       handles_at m' (pl_threads p) started \<and> (pl_threads p, 8 * unat n) \<in> set (live m') \<and> (pl_threads p, 8 * unat n) \<notin> set (live m) \<and>
       (\<forall>k < unat n. os_spawn os k = Some (started ! k))
     else rc \<in> {D4NP_ERR_OVERFLOW, D4NP_ERR_INTERNAL, D4NP_ERR_OUT_OF_MEMORY} \<and> started = [] \<and>
       (rc \<noteq> D4NP_ERR_OVERFLOW \<longrightarrow> pl_threads p = NULL) \<and>
       (mx_ready (pl_lock p) \<longrightarrow> mx_ready (pl_lock p0)) \<and>
       (mx_ready (sem_mutex (pl_items p)) \<longrightarrow> mx_ready (sem_mutex (pl_items p0))) \<and>
       (sem_cond_ready (pl_items p) \<longrightarrow> sem_cond_ready (pl_items p0)) \<and>
       (\<forall>q m1. d4np_alloc (Some A) (n * 8) 8 m = Some (q, m1) \<longrightarrow> set (live m') \<subseteq> set (live m) \<union> (set (live m1) - {(q, 8 * unat n)})))"
proof (cases "SIZE_MAX div 8 < n \<or> os_mutex_rc os \<noteq> 0 \<or> os_sem_mutex_rc os \<noteq> 0 \<or> os_sem_cond_rc os \<noteq> 0")
  case True
  from init_early [OF assms(3) this] show ?thesis using assms(2) by (fastforce simp: no_new_primitive_def)
next
  case False
  then have ok: "n \<le> SIZE_MAX div 8" "os_mutex_rc os = 0" "os_sem_mutex_rc os = 0" "os_sem_cond_rc os = 0" by auto
  have u: "unat (n * 8) = 8 * unat n" using size_mult_guard [of 8 n] ok(1) unat_mult_exact [of n 8] by simp
  from allocator_contract.alloc_any [OF assms(1,2) pow2_8, of "n * 8"] obtain q m1 where
    a: "d4np_alloc (Some A) (n * 8) 8 m = Some (q, m1)" "wf_mem m1" "keeps (set (live m)) m m1"
      "q \<noteq> NULL \<longrightarrow> (q, 8 * unat n) \<in> set (live m1) \<and> (q, 8 * unat n) \<notin> set (live m)" unfolding u by blast
  show ?thesis
  proof (cases "q = NULL")
    case True
    then have "(q, 8 * unat n) \<notin> set (live m1)" using wf_block [OF a(2)] by auto
    with init_no_memory [OF assms(3) ok, of A m m1 p0] True a show ?thesis by (fastforce simp: no_new_primitive_def)
  next
    case False
    from init_started [OF assms(1,3,4) ok a(1) False a(2)] a(4) False obtain rc p started m' where
      i: "d4np_thread_pool_init os (Some p0) (Some A) n m = Some (rc, Some p, started, m')" "wf_mem m'"
        "keeps (set (live m1) - {(q, 8 * unat n)}) m1 m'"
        "if rc = D4NP_OK then p = pool_fresh p0 A n q \<and> length started = unat n \<and> handles_at m' q started \<and> live m' = live m1 \<and>
           (\<forall>k < unat n. os_spawn os k = Some (started ! k))
         else rc = D4NP_ERR_INTERNAL \<and> started = [] \<and> pl_threads p = NULL \<and> set (live m') = set (live m1) - {(q, 8 * unat n)} \<and>
           no_new_primitive p0 p" by blast
    have "keeps (set (live m)) m m'"
      using a(3,4) False by (intro keeps_trans [OF a(3)] keeps_mono [OF i(3)]) (use keeps_subset [OF a(3)] in blast)
    moreover have "pl_threads (pool_fresh p0 A n q) = q" by (simp add: pool_fresh_def)
    ultimately show ?thesis using i a(1,4) False pool_fresh_system by (cases "rc = D4NP_OK") (auto simp: no_new_primitive_def)
  qed
qed

text \<open>Three workers are wanted, the third thread cannot be started.\<close>

definition tpool_ex :: d4np_thread_pool where
  "tpool_ex = \<lparr>pl_allocator = None, pl_threads = 7, pl_thread_count = 0, pl_lock = \<lparr>mx_ready = False, mx_owner = None\<rparr>,
     pl_items = \<lparr>sem_mutex = \<lparr>mx_ready = False, mx_owner = None\<rparr>, sem_cond_ready = False, sem_count = 0\<rparr>,
     pl_q_head = 0, pl_q_tail = 0, pl_shutting_down = True\<rparr>"

definition os_ex :: pool_platform where
  "os_ex = \<lparr>os_mutex_rc = 0, os_sem_mutex_rc = 0, os_sem_cond_rc = 0, os_thread = (\<lambda>i. Pthread_Create (if i < 2 then 0 else 11) (100 + i))\<rparr>"

definition tpool_ex_mem :: mem where
  "tpool_ex_mem = \<lparr>bytes = (\<lambda>_. 0), live = [], place = (\<lambda>_. 4096), tick = 0\<rparr>"

theorem thread_pool_init_outcome_witness:
  "\<exists>rc p m'. d4np_thread_pool_init os_ex (Some tpool_ex) (Some d4np_allocator_default) 3 tpool_ex_mem = Some (rc, Some p, [], m') \<and>
     rc \<noteq> D4NP_OK \<and> \<not> mx_ready (pl_lock p) \<and> \<not> mx_ready (sem_mutex (pl_items p)) \<and> \<not> sem_cond_ready (pl_items p) \<and> live m' = []"
proof -
  have os: "wf_mem tpool_ex_mem" "spawn_ok (os_spawn os_ex)" "os_spawn os_ex 2 = None"
    by (auto simp: tpool_ex_mem_def wf_mem_def spawn_ok_def os_ex_def pool_spawn_def split: if_splits)
  have al: "d4np_alloc (Some d4np_allocator_default) (3 * 8) 8 tpool_ex_mem = Some (4096, tpool_ex_mem\<lparr>tick := 1, live := [(4096, 24)]\<rparr>)"
    by (simp add: d4np_alloc_def d4np_allocator_default_def default_alloc_def align_ok_def malloc_def tpool_ex_mem_def placeable_def ADDR_LIMIT_def
        MAX_ALIGN_def)
  have un: "\<not> mx_ready (pl_lock tpool_ex)" "\<not> mx_ready (sem_mutex (pl_items tpool_ex))" "\<not> sem_cond_ready (pl_items tpool_ex)" "live tpool_ex_mem = []"
    by (simp_all add: tpool_ex_def tpool_ex_mem_def)
  have three: "(3 :: size_t) \<noteq> 0" by simp
  from thread_pool_init_outcome [OF default_allocator.allocator_contract_axioms os(1) three os(2), of tpool_ex 1] obtain rc p started m' where
    r: "d4np_thread_pool_init os_ex (Some tpool_ex) (Some d4np_allocator_default) 3 tpool_ex_mem = Some (rc, Some p, started, m')"
    and ok: "rc = D4NP_OK \<Longrightarrow> \<forall>k < unat (3 :: size_t). os_spawn os_ex k = Some (started ! k)"
    and err: "rc \<noteq> D4NP_OK \<Longrightarrow> started = [] \<and> \<not> mx_ready (pl_lock p) \<and> \<not> mx_ready (sem_mutex (pl_items p)) \<and> \<not> sem_cond_ready (pl_items p)"
      "rc \<noteq> D4NP_OK \<Longrightarrow> set (live m') \<subseteq> set (live tpool_ex_mem) \<union> ({(4096, 24)} - {(4096, 8 * unat (3 :: size_t))})"
    using al un by (fastforce split: if_splits)
  have "rc \<noteq> D4NP_OK" using ok os(3) by force
  with r err un(4) show ?thesis by auto
qed

text \<open>What a successful \<open>init\<close> acquired, the end of \<open>destroy\<close> gives back: from any later memory that still holds the array, when nobody holds the
  lock, it returns the handle array and nothing else, destroys the pool's mutex and its semaphore, and leaves a pool that a
  second \<open>destroy\<close> ignores.\<close>

theorem thread_pool_release_returns:
  assumes "allocator_contract A" "wf_mem m" "spawn_ok (os_spawn os)"
    "d4np_thread_pool_init os (Some p0) (Some A) n m = Some (D4NP_OK, Some p, started, m')"
    "wf_mem m2" "keeps {(pl_threads p, 8 * unat n)} m' m2"
  shows "\<exists>p' m3. pool_release p m2 = Some (p', m3) \<and> wf_mem m3 \<and> set (live m3) = set (live m2) - {(pl_threads p, 8 * unat n)} \<and>
    keeps (set (live m3)) m2 m3 \<and> pl_threads p' = NULL \<and> pl_q_head p' = NULL \<and>
    \<not> mx_ready (pl_lock p') \<and> \<not> mx_ready (sem_mutex (pl_items p')) \<and> \<not> sem_cond_ready (pl_items p')"
proof -
  from init_success [OF assms(1-4)] obtain q where q: "p = pool_fresh p0 A n q" "unat (n * 8) = 8 * unat n" "(q, 8 * unat n) \<in> set (live m')" by blast
  then have "(q, unat (n * 8)) \<in> set (live m2)" using keeps_live [OF assms(6)] by (simp add: pool_fresh_def)
  from allocator_contract.free_cases [OF assms(1,5) this] allocator_contract.free_live [OF assms(1,5) this] obtain m3 where
    f: "d4np_free (Some A) q (n * 8) m2 = Some m3" "wf_mem m3" "keeps (set (live m2) - {(q, 8 * unat n)}) m2 m3"
      "set (live m3) = set (live m2) - {(q, 8 * unat n)}" unfolding q(2) by metis
  then show ?thesis using q(1)
    by (simp add: pool_release_def pool_fresh_def d4np_semaphore_destroy_def d4np_mutex_destroy_def)
qed

end
