(* ===== verification/Thread_Pool_Progress.thy ===== *)
theory Thread_Pool_Progress
  imports Thread_Pool
begin

text \<open>
  The pool comes to rest. Every step of a thread that is inside a call, or of a worker, lowers a measure, so
  the threads stop by themselves unless new calls arrive; and once \<open>d4np_thread_pool_destroy\<close> has raised
  \<open>shutting_down\<close>, they can only stop with the destroyer finished.
\<close>

section \<open>Progress after shutdown\<close>

text \<open>The work left: permits that exist or are owed, and the steps each thread still makes on its own.\<close>

fun owed :: "nat \<Rightarrow> tp_pc \<Rightarrow> nat" where
  "owed n SPost = 1"
| "owed n DLock = n"
| "owed n DHold = n"
| "owed n (DPost k) = k"
| "owed n _ = 0"

fun weight :: "nat \<Rightarrow> tp_pc \<Rightarrow> nat" where
  "weight n WLock = 5"
| "weight n WHold = 4"
| "weight n (WRun p) = 3"
| "weight n (WFree p) = 2"
| "weight n (SLock p) = 9"
| "weight n (SHold p) = 8"
| "weight n (SReject p) = 1"
| "weight n SPost = 1"
| "weight n DLock = n + 3"
| "weight n DHold = n + 2"
| "weight n (DPost k) = k + 1"
| "weight n _ = 0"

definition work :: "tp \<Rightarrow> nat" where
  "work s = 6 * (tp_items s + total (owed (tp_thread_count s)) (tp_pcs s)) + total (weight (tp_thread_count s)) (tp_pcs s)"

lemma work_move:
  assumes "at s j old" "tp_pcs s' = (tp_pcs s)[j := v]" "tp_thread_count s' = tp_thread_count s"
    "6 * tp_items s' + 6 * owed (tp_thread_count s) v + weight (tp_thread_count s) v <
     6 * tp_items s + 6 * owed (tp_thread_count s) old + weight (tp_thread_count s) old"
  shows "work s' < work s"
proof -
  have j: "j < length (tp_pcs s)" "tp_pcs s ! j = old" using assms(1) by (simp_all add: at_def)
  show ?thesis
    using total_upd [OF j(1), of "owed (tp_thread_count s)" v] total_upd [OF j(1), of "weight (tp_thread_count s)" v] assms(4)
    unfolding work_def assms(2,3) j(2) distrib_left by linarith
qed

text \<open>
  A step of a worker, or of a thread that is already inside a call: everything but the start of a new call.
\<close>

definition tp_continues :: "tp \<Rightarrow> tp \<Rightarrow> bool" where
  "tp_continues s s' \<longleftrightarrow> tp_step s s' \<and>
     (\<exists>i old v. at s i old \<and> old \<noteq> SIdle \<and> old \<noteq> DIdle \<and> v \<noteq> old \<and> tp_pcs s' = (tp_pcs s)[i := v])"

lemma same_pcs_upd: "at s i old \<Longrightarrow> at s j old' \<Longrightarrow> v \<noteq> old \<Longrightarrow> (tp_pcs s)[i := v] = (tp_pcs s)[j := v'] \<Longrightarrow> i = j"
  unfolding at_def by (metis nth_list_update_eq nth_list_update_neq)

lemma no_move: "at s i old \<Longrightarrow> v \<noteq> old \<Longrightarrow> tp_pcs s \<noteq> (tp_pcs s)[i := v]"
  unfolding at_def by (metis nth_list_update_eq)

lemma continues_from:
  assumes "tp_continues s s'" "at s i old" "tp_pcs s' = (tp_pcs s)[i := v]"
  shows "old \<noteq> SIdle \<and> old \<noteq> DIdle"
proof -
  obtain j old' v' where j: "at s j old'" "old' \<noteq> SIdle" "old' \<noteq> DIdle" "v' \<noteq> old'" "tp_pcs s' = (tp_pcs s)[j := v']"
    using assms(1) by (auto simp: tp_continues_def)
  have "j = i" using same_pcs_upd [OF j(1) assms(2) j(4), of v] j(5) assms(3) by simp
  then show ?thesis using j(1-3) assms(2) by (simp add: at_def)
qed

lemma work_worker: "pool_worker s s' \<Longrightarrow> work s' < work s"
  by (induction rule: pool_worker.induct) (erule work_move, simp, simp, simp)+

lemma work_destroy: "d4np_thread_pool_destroy s s' \<Longrightarrow> tp_continues s s' \<Longrightarrow> work s' < work s"
proof (induction rule: d4np_thread_pool_destroy.induct)
  case (d_none s i)
  then show ?case by (auto simp: tp_continues_def dest: no_move)
next
  case (d_start s i)
  then show ?case using continues_from [OF d_start.prems d_start.hyps(1), of DLock] by simp
qed (erule work_move, simp, simp, simp)+

lemma work_submit: "d4np_thread_pool_submit s s' \<Longrightarrow> tp_continues s s' \<Longrightarrow> work s' < work s"
proof (induction rule: d4np_thread_pool_submit.induct)
  case (s_invalid s i t)
  then show ?case by (auto simp: tp_continues_def dest: no_move)
next
  case (s_no_memory s i t)
  then show ?case by (auto simp: tp_continues_def dest: no_move)
next
  case (s_alloc s i t n)
  then show ?case using continues_from [OF s_alloc.prems s_alloc.hyps(1), of "SLock n"] by simp
next
  case (s_append s i n x s1)
  have "tp_pcs s1 = tp_pcs s" "tp_thread_count s1 = tp_thread_count s" "tp_items s1 = tp_items s"
    using s_append.hyps(5) by (auto simp: tp_append_def split: if_splits bind_splits)
  then show ?case by (intro work_move [OF s_append.hyps(1), where v = SPost]) simp_all
qed (erule work_move, simp, simp, simp)+

lemma work_continues: "tp_continues s s' \<Longrightarrow> work s' < work s"
proof -
  assume c: "tp_continues s s'"
  then have "tp_step s s'" by (simp add: tp_continues_def)
  then show "work s' < work s" using work_worker work_submit [OF _ c] work_destroy [OF _ c] by (auto elim: tp_stepE)
qed

text \<open>The destroyer has announced the shutdown.\<close>

fun announced :: "tp_pc \<Rightarrow> bool" where
  "announced (DPost k) = True"
| "announced DDone = True"
| "announced _ = False"

definition closer :: "tp \<Rightarrow> nat \<Rightarrow> bool" where
  "closer s i \<longleftrightarrow> i < length (tp_pcs s) \<and> announced (tp_pcs s ! i)"

lemma closer_answer [simp]: "closer (answer i rc s) j = closer s j"
  by (simp add: closer_def)

lemma closer_move: "closer s i \<Longrightarrow> at s j old \<Longrightarrow> tp_pcs s' = (tp_pcs s)[j := v] \<Longrightarrow> announced old \<longrightarrow> announced v \<Longrightarrow> closer s' i"
  by (auto simp: closer_def at_def nth_list_update)

lemma step_closer:
  assumes "tp_step s s'" "closer s i"
  shows "closer s' i"
  using assms(1)
proof (rule tp_stepE)
  show ?thesis if "pool_worker s s'" using that assms(2) by (induction rule: pool_worker.induct) (auto intro: closer_move)
  show ?thesis if "d4np_thread_pool_destroy s s'"
    using that assms(2) by (induction rule: d4np_thread_pool_destroy.induct) (auto intro: closer_move)
  show ?thesis if "d4np_thread_pool_submit s s'"
    using that assms(2)
  proof (induction rule: d4np_thread_pool_submit.induct)
    case (s_append s i n x s1)
    then show ?case using closer_move [OF s_append.prems s_append.hyps(1), of _ SPost] append_pcs [OF s_append.hyps(5)] by simp
  qed (auto intro: closer_move)
qed

lemma continueI:
  assumes "at s j old" "old \<noteq> SIdle" "old \<noteq> DIdle" "tp_step s s'" "tp_pcs s' = (tp_pcs s)[j := v]" "v \<noteq> old"
  shows "\<exists>s'. tp_continues s s'"
  using assms by (auto simp: tp_continues_def)

text \<open>Whoever holds the lock during the shutdown can give it back, touching nothing but its own place, the queue and the lock.\<close>

lemma holder_releases:
  assumes "tp_good s" "tp_shutting_down s" "tp_lock s = Some j"
  shows "\<exists>s' old v. at s j old \<and> holds_lock old \<and> tp_step s s' \<and> tp_pcs s' = (tp_pcs s)[j := v] \<and> \<not> holds_lock v \<and> v \<noteq> DDone \<and>
    tp_lock s' = None \<and> tp_items s' = tp_items s \<and> tp_nodes s' = tp_nodes s"
proof -
  obtain qs where inv: "tp_inv s qs" using assms(1) by (auto simp: tp_good_def)
  have j: "j < length (tp_pcs s)" "holds_lock (tp_pcs s ! j)" using inv assms(3) by (auto simp: tp_inv_def mutex_ok_def)
  then have *: "at s j WHold \<or> (\<exists>n. at s j (SHold n)) \<or> at s j DHold"
    by (cases "tp_pcs s ! j") (auto simp: at_def)
  have r: ?thesis if "at s j old" "holds_lock old" "tp_step s s'" "tp_pcs s' = (tp_pcs s)[j := v]" "\<not> holds_lock v" "v \<noteq> DDone"
    "tp_lock s' = None" "tp_items s' = tp_items s" "tp_nodes s' = tp_nodes s" for s' old v using that by blast
  from * consider (w) "at s j WHold" | (s) n where "at s j (SHold n)" | (d) "at s j DHold" by blast
  then show ?thesis
  proof cases
    case w
    show ?thesis
    proof (cases "tp_q_head s = NULL")
      case True
      show ?thesis by (rule r [where v = "WDone", OF w _ tp_w_exit [OF w assms(3) True]]) simp_all
    next
      case False
      then obtain x where x: "tp_nodes s (tp_q_head s) = Some x"
        using inv tq_head by (cases qs) (auto simp: tp_inv_def queue_ok_def)
      show ?thesis by (rule r [where v = "WRun (tp_q_head s)", OF w _ tp_w_take [OF w assms(3) refl False x]]) simp_all
    qed
  next
    case (s n)
    show ?thesis by (rule r [where v = "SReject n", OF s _ tp_s_reject [OF s assms(3,2)]]) simp_all
  next
    case d
    show ?thesis by (rule r [where v = "DPost (tp_thread_count s)", OF d _ tp_d_down [OF d assms(3)]]) simp_all
  qed
qed

lemma progress_holder:
  assumes "tp_good s" "tp_shutting_down s" "tp_lock s = Some j"
  shows "\<exists>s'. tp_continues s s'"
proof -
  obtain s' old v where h: "at s j old" "holds_lock old" "tp_step s s'" "tp_pcs s' = (tp_pcs s)[j := v]" "\<not> holds_lock v"
    using holder_releases [OF assms] by blast
  show ?thesis by (rule continueI [OF h(1) _ _ h(3,4)]) (use h(2,5) in auto)
qed

lemma progress_busy:
  assumes "tp_good s" "tp_lock s = None" "at s j pc" "pc \<notin> {WWait, WDone, SIdle, DIdle, DDone}" "\<forall>k. pc \<noteq> DPost k"
  shows "\<exists>s'. tp_continues s s'"
proof -
  obtain qs where inv: "tp_inv s qs" using assms(1) by (auto simp: tp_good_def)
  have "\<not> holds_lock pc" using inv assms(2,3) by (auto simp: tp_inv_def mutex_ok_def at_def)
  have held: "\<exists>x. tp_nodes s n = Some x" if "held pc = {#n#}" for n
    using held_in(1) [OF _ assms(3) that] inv by (auto simp: tp_inv_def)
  have go: "tp_step s s' \<Longrightarrow> tp_pcs s' = (tp_pcs s)[j := v] \<Longrightarrow> v \<noteq> pc \<Longrightarrow> ?thesis" for s' v
    by (rule continueI [OF assms(3)]) (use assms(4) in auto)
  show ?thesis
  proof (cases pc)
    case WLock
    show ?thesis by (rule go [OF tp_w_lock [OF _ assms(2)], of j]) (use assms(3) WLock in auto)
  next
    case (WRun n)
    then obtain x where x: "tp_nodes s n = Some x" using held [of n] by auto
    show ?thesis by (rule go [OF tp_w_run [OF _ x], of j]) (use assms(3) WRun in auto)
  next
    case (WFree n)
    show ?thesis by (rule go [OF tp_w_free, of j n]) (use assms(3) WFree held [of n] in auto)
  next
    case (SLock n)
    show ?thesis by (rule go [OF tp_s_lock [OF _ assms(2)], of j n]) (use assms(3) SLock in auto)
  next
    case (SReject n)
    show ?thesis by (rule go [OF tp_s_free, of j n]) (use assms(3) SReject held [of n] in auto)
  next
    case SPost
    show ?thesis by (rule go [OF tp_s_post, of j]) (use assms(3) SPost in auto)
  next
    case DLock
    show ?thesis by (rule go [OF tp_d_lock [OF _ assms(2)], of j]) (use assms(3) DLock in auto)
  qed (use assms(4,5) \<open>\<not> holds_lock pc\<close> in auto)
qed

text \<open>When all wake-ups have been posted and the threads are at rest, a worker that still waits has a permit to wake up on.\<close>

lemma permit_left:
  assumes "tp_inv s qs" "at s i (DPost 0)" "at s j WWait"
    "\<forall>pc \<in> set (tp_pcs s). pc \<in> {WWait, WDone, SIdle, DIdle, DDone} \<or> (\<exists>m. pc = DPost m)"
  shows "0 < tp_items s"
proof -
  have p: "permits_ok s qs" "roles_ok s qs" using assms(1) by (simp_all add: tp_inv_def)
  have "cnt woken (tp_pcs s) = 0" "cnt (\<lambda>pc. pc = SPost) (tp_pcs s) = 0" using assms(4) by (auto simp: cnt_0)
  moreover have "j < length (tp_pcs s)" "tp_pcs s ! j = WWait" using assms(3) by (simp_all add: at_def)
  then have "cnt (\<lambda>pc. pc = WDone) (tp_pcs s) < cnt is_worker (tp_pcs s)"
    using cnt_upd [of j "tp_pcs s" is_worker SIdle] cnt_upd [of j "tp_pcs s" "\<lambda>pc. pc = WDone" SIdle]
      cnt_mono [of "\<lambda>pc. pc = WDone" is_worker "(tp_pcs s)[j := SIdle]"] by simp
  moreover have "DPost 0 \<in> set (tp_pcs s)" using assms(2) nth_mem unfolding at_def by metis
  from total_ge [OF this, of "posted (tp_thread_count s)"] have "tp_thread_count s \<le> total (posted (tp_thread_count s)) (tp_pcs s)" by simp
  ultimately show ?thesis using p by (simp add: permits_ok_def roles_ok_def)
qed

text \<open>When nobody is busy, the destroyer posts or joins, or a worker wakes up.\<close>

lemma progress_quiet:
  assumes "tp_good s" "at s i (DPost k)"
    "\<forall>pc \<in> set (tp_pcs s). pc \<in> {WWait, WDone, SIdle, DIdle, DDone} \<or> (\<exists>m. pc = DPost m)"
  shows "\<exists>s'. tp_continues s s'"
proof -
  obtain qs where inv: "tp_inv s qs" and n: "0 < tp_thread_count s" using assms(1) by (auto simp: tp_good_def)
  have p: "roles_ok s qs" "queue_ok s qs" using inv by (simp_all add: tp_inv_def)
  show ?thesis
  proof (cases k)
    case (Suc m)
    show ?thesis by (rule continueI [OF assms(2) _ _ tp_d_post [OF assms(2) [unfolded Suc]]]) (use Suc in auto)
  next
    case 0
    note d0 = assms(2) [unfolded 0]
    show ?thesis
    proof (cases "\<forall>pc \<in> set (tp_pcs s). is_worker pc \<longrightarrow> pc = WDone")
      case True
      have "tp_q_head s = NULL" using workers_done [OF p(1) n True] p(2) by (simp add: queue_ok_def)
      then have "tp_drain (tp_q_head s) (tp_nodes s) = Some (tp_nodes s)" by (simp add: tp_drain.simps)
      from continueI [OF d0 _ _ tp_d_join [OF d0 True this]] show ?thesis by simp
    next
      case False
      then obtain pc where pc: "pc \<in> set (tp_pcs s)" "is_worker pc" "pc \<noteq> WDone" by blast
      with assms(3) have "pc = WWait" by fastforce
      with pc(1) obtain j where j: "at s j WWait" by (auto simp: in_set_conv_nth at_def)
      show ?thesis
        by (rule continueI [OF j _ _ tp_w_wait [OF j permit_left [OF inv d0 j assms(3)]]]) auto
    qed
  qed
qed

lemma progress:
  assumes "tp_good s" "at s i (DPost k)"
  shows "\<exists>s'. tp_continues s s'"
proof -
  obtain qs where inv: "tp_inv s qs" using assms(1) by (auto simp: tp_good_def)
  have down: "tp_shutting_down s" using dpost_down(2) [of s qs] inv assms(2) by (simp add: tp_inv_def)
  show ?thesis
  proof (cases "tp_lock s")
    case (Some j)
    then show ?thesis by (rule progress_holder [OF assms(1) down])
  next
    case None
    show ?thesis
    proof (cases "\<forall>pc \<in> set (tp_pcs s). pc \<in> {WWait, WDone, SIdle, DIdle, DDone} \<or> (\<exists>m. pc = DPost m)")
      case True
      then show ?thesis by (rule progress_quiet [OF assms])
    next
      case False
      then obtain j where "at s j (tp_pcs s ! j)" "tp_pcs s ! j \<notin> {WWait, WDone, SIdle, DIdle, DDone}" "\<forall>m. tp_pcs s ! j \<noteq> DPost m"
        by (auto simp: in_set_conv_nth at_def)
      then show ?thesis by (rule progress_busy [OF assms(1) None])
    qed
  qed
qed

lemma continues_bounded: "(tp_continues ^^ n) s s' \<Longrightarrow> n + work s' \<le> work s"
proof (induction n arbitrary: s')
  case (Suc n)
  then obtain s1 where "(tp_continues ^^ n) s s1" "tp_continues s1 s'" by auto
  then show ?case using Suc.IH [of s1] work_continues [of s1 s'] by simp
qed simp

section \<open>Properties\<close>

text \<open>Shutdown completes under every schedule. Once \<open>d4np_thread_pool_destroy\<close> has set \<open>shutting_down\<close> and released
  the lock, the workers and the calls under way can make at most \<open>work s\<close> more steps, and when none of them can make
  a step the destroyer has joined every worker and every accepted task has been run.\<close>

theorem thread_pool_shutdown_completes:
  assumes "tp_step\<^sup>*\<^sup>* (tp_start handles workers clients) s" "0 < workers" "at s i (DPost k)"
  shows "(\<forall>n s'. (tp_continues ^^ n) s s' \<longrightarrow> n \<le> work s) \<and>
    (\<forall>s'. tp_continues\<^sup>*\<^sup>* s s' \<and> (\<nexists>s''. tp_continues s' s'') \<longrightarrow> at s' i DDone \<and> mset (tp_ran s') = mset (tp_accepted s'))"
proof (intro conjI allI impI)
  show "n \<le> work s" if "(tp_continues ^^ n) s s'" for n s' using continues_bounded [OF that] by simp
  fix s' assume r: "tp_continues\<^sup>*\<^sup>* s s' \<and> (\<nexists>s''. tp_continues s' s'')"
  then have steps: "tp_step\<^sup>*\<^sup>* s s'" by (auto simp: tp_continues_def elim: rtranclp_mono [THEN predicate2D, rotated])
  then have reach: "tp_step\<^sup>*\<^sup>* (tp_start handles workers clients) s'" using assms(1) by (meson rtranclp_trans)
  have "closer s i" using assms(3) by (simp add: closer_def at_def)
  with steps have c: "closer s' i" by (induction rule: rtranclp_induct) (auto intro: step_closer)
  have "\<not> at s' i (DPost m)" for m using progress [OF tp_reachable_good [OF reach assms(2)]] r by blast
  with c show d: "at s' i DDone" by (cases "tp_pcs s' ! i") (auto simp: closer_def at_def)
  then have "DDone \<in> set (tp_pcs s')" using nth_mem unfolding at_def by metis
  then show "mset (tp_ran s') = mset (tp_accepted s')" using joined_all_ran [OF reach assms(2)] by blast
qed

theorem thread_pool_shutdown_completes_witness: "{n. \<exists>s'. (tp_continues ^^ n) tp_mid s'} \<subseteq> {..15}"
proof -
  have "at tp_mid 2 (DPost 1)" by (simp add: at_def tp_mid_def)
  moreover have "work tp_mid = 15" by (simp add: work_def tp_mid_def tp_start_def total_def)
  ultimately show ?thesis using thread_pool_shutdown_completes [OF tp_mid_reachable, of 2 1] by auto
qed

end
