(* ===== verification/Thread_Pool_Semaphore.thy ===== *)
theory Thread_Pool_Semaphore
  imports Thread_Pool_Progress Semaphore
begin

text \<open>
  The thread pool on its semaphore. \<open>Thread_Pool\<close> treats \<open>d4np_semaphore_wait\<close> and \<open>d4np_semaphore_post\<close> as one
  step on a count of permits; here the same pool runs on the semaphore of \<open>Semaphore\<close>, where a wait and a post
  are many steps of a mutex, a condition variable and a 64-bit counter, interleaved with everything else. The
  composed system refines the pool, the semaphore is idle when \<open>destroy\<close> destroys it, and the shutdown
  completes under every schedule, without spurious wake-ups to help it.
\<close>

section \<open>The composed system\<close>

text \<open>Who is about to post, and the effect of a post on the pool.\<close>

fun owes :: "tp_pc \<Rightarrow> bool" where
  "owes SPost = True"
| "owes (DPost k) = (k \<noteq> 0)"
| "owes _ = False"

definition post_done :: "nat \<Rightarrow> tp \<Rightarrow> tp" where
  "post_done i p =
     (let p1 = p\<lparr>tp_items := tp_items p + 1\<rparr>
      in case tp_pcs p ! i of DPost k \<Rightarrow> goto i (DPost (k - 1)) p1 | _ \<Rightarrow> answer i D4NP_OK (goto i SIdle p1))"

text \<open>A thread leaves its place in the pool only when it is not inside the semaphore; nodes have addresses.\<close>

definition pool_local :: "tp \<Rightarrow> sem_sys \<Rightarrow> tp \<Rightarrow> bool" where
  "pool_local p q p' \<longleftrightarrow> tp_items p' = tp_items p \<and> dom (tp_nodes p') \<subseteq> {..<ADDR_LIMIT} \<and>
     (\<forall>i < length (tp_pcs p). tp_pcs p' ! i \<noteq> tp_pcs p ! i \<longrightarrow> sat q i Outside)"

text \<open>A step inside the semaphore that leaves the counter alone: no new call, and sleepers wake by a signal only.\<close>

definition silent :: "sem_sys \<Rightarrow> sem_sys \<Rightarrow> bool" where
  "silent q q' \<longleftrightarrow> ss_count q' = ss_count q \<and> (\<forall>i. sat q i Outside \<longrightarrow> sat q' i Outside) \<and>
     (\<forall>i. sat q i Wait_Asleep \<and> \<not> sat q' i Wait_Asleep \<longrightarrow> (\<exists>j. sat q j Post_Signal \<and> sat q' j Post_Unlock))"

inductive pool_advance :: "tp \<times> sem_sys \<Rightarrow> tp \<times> sem_sys \<Rightarrow> bool" where
  pa_local: "tp_continues p p' \<Longrightarrow> pool_local p q p' \<Longrightarrow> pool_advance (p, q) (p', q)"
| pa_wait: "at p i WWait \<Longrightarrow> sat q i Outside \<Longrightarrow> pool_advance (p, q) (p, sgo i Wait_Lock q)"
| pa_post: "at p i pc \<Longrightarrow> owes pc \<Longrightarrow> sat q i Outside \<Longrightarrow> pool_advance (p, q) (p, sgo i Post_Lock q)"
| pa_inside: "sem_step q q' \<Longrightarrow> silent q q' \<Longrightarrow> pool_advance (p, q) (p, q')"
| pa_take: "sat q i Wait_Test \<Longrightarrow> ss_lock q = Some i \<Longrightarrow> ss_count q \<noteq> 0 \<Longrightarrow>
     pool_advance (p, q) (goto i WLock (p\<lparr>tp_items := tp_items p - 1\<rparr>),
       sgo i Wait_Unlock (q\<lparr>ss_count := ss_count q - 1, ss_taken := ss_taken q + 1\<rparr>))"
| pa_inc: "sat q i Post_Inc \<Longrightarrow> ss_lock q = Some i \<Longrightarrow>
     pool_advance (p, q) (post_done i p, sgo i Post_Signal (q\<lparr>ss_count := ss_count q + 1, ss_posted := ss_posted q + 1\<rparr>))"

text \<open>New calls of clients and spurious wake-ups come from outside.\<close>

inductive pool_sem_step :: "tp \<times> sem_sys \<Rightarrow> tp \<times> sem_sys \<Rightarrow> bool" where
  ps_advance: "pool_advance x x' \<Longrightarrow> pool_sem_step x x'"
| ps_client: "tp_step p p' \<Longrightarrow> pool_local p q p' \<Longrightarrow> pool_sem_step (p, q) (p', q)"
| ps_spurious: "sat q i Wait_Asleep \<Longrightarrow> pool_sem_step (p, q) (p, sgo i Wait_Woken q)"

inductive_cases pool_sem_stepE: "pool_sem_step x x'"
inductive_cases pool_advanceE: "pool_advance (p, q) x'"

definition pool_sem_start :: "ptr \<Rightarrow> nat \<Rightarrow> nat \<Rightarrow> tp \<times> sem_sys" where
  "pool_sem_start handles workers clients = (tp_start handles workers clients, sem_start 0 (workers + clients + 1))"

section \<open>The invariant\<close>

text \<open>Where a thread is in the semaphore determines where it is in the pool.\<close>

fun link :: "tp_pc \<Rightarrow> sem_pc \<Rightarrow> bool" where
  "link pc Outside = True"
| "link pc Wait_Lock = (pc = WWait)"
| "link pc Wait_Test = (pc = WWait)"
| "link pc Wait_Asleep = (pc = WWait)"
| "link pc Wait_Woken = (pc = WWait)"
| "link pc Wait_Unlock = (pc = WLock)"
| "link pc Post_Lock = owes pc"
| "link pc Post_Inc = owes pc"
| "link pc Post_Signal = (pc = SIdle \<or> (\<exists>k. pc = DPost k))"
| "link pc Post_Unlock = (pc = SIdle \<or> (\<exists>k. pc = DPost k))"
| "link pc _ = False"

definition linked :: "tp \<Rightarrow> sem_sys \<Rightarrow> bool" where
  "linked p q \<longleftrightarrow> length (ss_pcs q) = length (tp_pcs p) \<and> (\<forall>i < length (tp_pcs p). link (tp_pcs p ! i) (ss_pcs q ! i))"

definition posting_ok :: "sem_sys \<Rightarrow> bool" where
  "posting_ok q \<longleftrightarrow> (\<forall>i. sat q i Post_Signal \<or> sat q i Post_Unlock \<longrightarrow> ss_count q \<noteq> 0)"

definition pool_sem_inv :: "tp \<Rightarrow> tp \<times> sem_sys \<Rightarrow> bool" where
  "pool_sem_inv s0 = (\<lambda>(p, q). tp_step\<^sup>*\<^sup>* s0 p \<and> sem_inv q \<and> linked p q \<and> posting_ok q \<and>
     tp_items p = unat (ss_count q) \<and> dom (tp_nodes p) \<subseteq> {..<ADDR_LIMIT})"

lemma linked_at: "linked p q \<Longrightarrow> sat q i sp \<Longrightarrow> at p i (tp_pcs p ! i) \<and> link (tp_pcs p ! i) sp"
  by (auto simp: linked_def sat_def at_def)

lemma linked_sat: "linked p q \<Longrightarrow> at p i pc \<Longrightarrow> sat q i (ss_pcs q ! i) \<and> link pc (ss_pcs q ! i)"
  by (auto simp: linked_def sat_def at_def)

lemma linked_move:
  assumes "linked p q" "tp_pcs p' = (tp_pcs p)[i := pc]" "ss_pcs q' = (ss_pcs q)[i := sp]" "link pc sp"
  shows "linked p' q'"
  unfolding linked_def
proof (intro conjI allI impI)
  show "length (ss_pcs q') = length (tp_pcs p')" using assms(1-3) by (simp add: linked_def)
  fix j assume "j < length (tp_pcs p')"
  then show "link (tp_pcs p' ! j) (ss_pcs q' ! j)" using assms by (cases "j = i") (simp_all add: linked_def)
qed

lemma linked_sem:
  assumes "linked p q" "sat q i old" "ss_pcs q' = (ss_pcs q)[i := sp]" "link (tp_pcs p ! i) sp"
  shows "linked p q'"
  using linked_move [OF assms(1) _ assms(3,4), of p] by simp

text \<open>Silent steps keep the link.\<close>

lemma silent_linked:
  assumes "sem_step q q'" "silent q q'" "linked p q"
  shows "linked p q'"
proof -
  have L: "link (tp_pcs p ! i) sp" if "sat q i sp" for i sp using linked_at [OF assms(3) that] by blast
  have out: "\<not> (sat q i Outside \<and> sat q' i sp)" if "sp \<noteq> Outside" for i sp using assms(2) that by (auto simp: silent_def sat_def)
  from assms(1) show ?thesis
  proof cases
    case (call i pc)
    then have "sat q' i pc" by (auto simp: sat_def)
    with out [of pc i] call show ?thesis by auto
  next
    case (wait_take i)
    then show ?thesis using assms(2) by (simp add: silent_def)
  next
    case (post_inc i)
    then show ?thesis using assms(2) by (simp add: silent_def)
  next
    case (try_take i)
    then show ?thesis using assms(2) by (simp add: silent_def)
  next
    case (post_wake i j)
    then have "linked p (sgo j Wait_Woken q)" using linked_sem [OF assms(3) post_wake(4)] L [OF post_wake(4)] by simp
    moreover have "sat (sgo j Wait_Woken q) i Post_Signal" using post_wake(2,4) by (cases "i = j") (simp_all add: sat_def)
    ultimately show ?thesis using linked_sem L [OF post_wake(2)] post_wake(1) by simp
  qed (use L linked_sem [OF assms(3)] in \<open>fastforce\<close>)+
qed

text \<open>A silent step keeps \<open>posting_ok\<close>: who signals or unlocks had already posted.\<close>

lemma posting_move:
  assumes "posting_ok q" "sat q i old" "ss_pcs q' = (ss_pcs q)[i := sp]"
    "ss_count q' = ss_count q" "sp \<noteq> Post_Signal" "sp = Post_Unlock \<longrightarrow> old = Post_Signal"
  shows "posting_ok q'"
  unfolding posting_ok_def
proof (intro allI impI)
  fix j assume j: "sat q' j Post_Signal \<or> sat q' j Post_Unlock"
  show "ss_count q' \<noteq> 0"
  proof (cases "j = i")
    case True
    then have "old = Post_Signal" using j assms(2,3,5,6) by (auto simp: sat_def)
    then show ?thesis using assms(1,2,4) by (auto simp: posting_ok_def)
  next
    case False
    then have "sat q j Post_Signal \<or> sat q j Post_Unlock" using j assms(3) by (simp add: sat_def)
    then show ?thesis using assms(1,4) by (auto simp: posting_ok_def)
  qed
qed

lemma silent_posting:
  assumes "sem_step q q'" "silent q q'" "posting_ok q"
  shows "posting_ok q'"
  using assms(1)
proof cases
  case (wait_take i)
  then show ?thesis using assms(2) by (simp add: silent_def)
next
  case (post_inc i)
  then show ?thesis using assms(2) by (simp add: silent_def)
next
  case (try_take i)
  then show ?thesis using assms(2) by (simp add: silent_def)
next
  case (post_wake i j)
  have "posting_ok (sgo j Wait_Woken q)" by (rule posting_move [OF assms(3) post_wake(4), where sp = Wait_Woken]) simp_all
  moreover have "sat (sgo j Wait_Woken q) i Post_Signal" using post_wake(2,4) by (cases "i = j") (simp_all add: sat_def)
  ultimately show ?thesis unfolding post_wake(1) by (rule posting_move [where sp = Post_Unlock]) simp_all
qed (use posting_move [OF assms(3)] in \<open>fastforce\<close>)+

section \<open>The counter of the semaphore is the count of permits\<close>

lemma thread_count_const: "tp_step\<^sup>*\<^sup>* (tp_start handles workers clients) p \<Longrightarrow> tp_thread_count p = workers"
proof (induction rule: rtranclp_induct)
  case base
  show ?case by (simp add: tp_start_def)
next
  case (step p p')
  have "tp_thread_count p' = tp_thread_count p" using step.hyps(2)
    by (auto simp: tp_append_def elim!: tp_stepE pool_worker.cases d4np_thread_pool_submit.cases d4np_thread_pool_destroy.cases
      split: if_splits bind_splits)
  with step.IH show ?case by simp
qed

text \<open>Each permit stands for a queued node or for a worker to be woken, so the counter cannot wrap around.\<close>

lemma items_bound:
  assumes "tp_step\<^sup>*\<^sup>* (tp_start handles workers clients) p" "0 < workers" "workers < 2 ^ 61" "dom (tp_nodes p) \<subseteq> {..<ADDR_LIMIT}"
  shows "tp_items p < 2 ^ 64"
proof -
  obtain qs where inv: "tp_inv p qs" using tp_reachable_good [OF assms(1,2)] by (auto simp: tp_good_def)
  have p: "permits_ok p qs" "nodes_ok p qs" using inv by (simp_all add: tp_inv_def)
  have "count (mset qs) x \<le> 1" for x
    using p(2) unfolding nodes_ok_def owns_def all_nodes_def by (metis add_leD1 count_union)
  then have "distinct qs" by (metis distinct_count_atmost_1 le_antisym less_one not_le count_mset_0_iff One_nat_def Suc_leI count_greater_zero_iff set_mset_mset)
  then have l: "length qs = card (set qs)" by (simp add: distinct_card)
  have "set qs \<subseteq> dom (tp_nodes p)" using p(2) by (auto simp: nodes_ok_def owns_def all_nodes_def)
  then have "set qs \<subseteq> {..<ADDR_LIMIT}" using assms(4) by (rule subset_trans)
  then have "card (set qs) \<le> card {..<ADDR_LIMIT}" by (intro card_mono) simp_all
  then have "length qs \<le> 2 ^ 63" using l by (simp add: ADDR_LIMIT_def)
  moreover have "total (posted (tp_thread_count p)) (tp_pcs p) \<le> workers"
    using posted_le [of "tp_thread_count p" "tp_pcs p"] single_destroyer_reachable [OF assms(1)] thread_count_const [OF assms(1)]
    by (simp add: single_destroyer_def)
  ultimately show ?thesis using p(1) assms(3) by (simp add: permits_ok_def)
qed

lemma post_done_step:
  assumes "at p i pc" "owes pc"
  shows "tp_step p (post_done i p)" "tp_items (post_done i p) = tp_items p + 1" "tp_nodes (post_done i p) = tp_nodes p"
    "\<exists>v. tp_pcs (post_done i p) = (tp_pcs p)[i := v] \<and> (v = SIdle \<or> (\<exists>k. v = DPost k))"
proof -
  have i: "tp_pcs p ! i = pc" using assms(1) by (simp add: at_def)
  from assms(2) consider (s) "pc = SPost" | (d) k where "pc = DPost (Suc k)" by (cases pc) (auto simp: gr0_conv_Suc)
  then have "tp_step p (post_done i p) \<and> tp_items (post_done i p) = tp_items p + 1 \<and> tp_nodes (post_done i p) = tp_nodes p \<and>
      (\<exists>v. tp_pcs (post_done i p) = (tp_pcs p)[i := v] \<and> (v = SIdle \<or> (\<exists>k. v = DPost k)))"
  proof cases
    case s
    then show ?thesis using tp_s_post [of p i] assms(1) i by (auto simp: post_done_def Let_def)
  next
    case d
    then show ?thesis using tp_d_post [of p i k] assms(1) i by (auto simp: post_done_def Let_def)
  qed
  then show "tp_step p (post_done i p)" "tp_items (post_done i p) = tp_items p + 1" "tp_nodes (post_done i p) = tp_nodes p"
    "\<exists>v. tp_pcs (post_done i p) = (tp_pcs p)[i := v] \<and> (v = SIdle \<or> (\<exists>k. v = DPost k))" by blast+
qed

lemma work_post_done:
  assumes "at p i pc" "owes pc"
  shows "work (post_done i p) < work p"
proof -
  have i: "tp_pcs p ! i = pc" using assms(1) by (simp add: at_def)
  from assms(2) consider (s) "pc = SPost" | (d) k where "pc = DPost (Suc k)" by (cases pc) (auto simp: gr0_conv_Suc)
  then show ?thesis
  proof cases
    case s
    then show ?thesis using i by (intro work_move [OF assms(1), where v = SIdle]) (simp_all add: post_done_def Let_def)
  next
    case (d k)
    then show ?thesis using i by (intro work_move [OF assms(1), where v = "DPost k"]) (simp_all add: post_done_def Let_def)
  qed
qed

section \<open>Every step keeps the invariant\<close>

lemma tp_move_inv:
  assumes "tp_step p p'" "pool_local p q p'" "pool_sem_inv s0 (p, q)"
  shows "pool_sem_inv s0 (p', q)"
proof -
  have "length (tp_pcs p') = length (tp_pcs p)"
    using assms(1) append_pcs
    by (auto elim!: tp_stepE pool_worker.cases d4np_thread_pool_submit.cases d4np_thread_pool_destroy.cases)
  moreover have "linked p q" using assms(3) by (simp add: pool_sem_inv_def)
  ultimately have "linked p' q" using assms(2) by (fastforce simp: linked_def pool_local_def sat_def)
  then show ?thesis using assms by (auto simp: pool_sem_inv_def pool_local_def intro: rtranclp.rtrancl_into_rtrancl)
qed

lemma take_inv:
  assumes "pool_sem_inv s0 (p, q)" "sat q i Wait_Test" "ss_lock q = Some i" "ss_count q \<noteq> 0"
  shows "pool_sem_inv s0 (goto i WLock (p\<lparr>tp_items := tp_items p - 1\<rparr>),
    sgo i Wait_Unlock (q\<lparr>ss_count := ss_count q - 1, ss_taken := ss_taken q + 1\<rparr>))" (is "pool_sem_inv s0 (?p, ?q)")
proof -
  have inv: "tp_step\<^sup>*\<^sup>* s0 p" "sem_inv q" "linked p q" "posting_ok q" "tp_items p = unat (ss_count q)" "dom (tp_nodes p) \<subseteq> {..<ADDR_LIMIT}"
    using assms(1) by (simp_all add: pool_sem_inv_def)
  have w: "at p i WWait" using linked_at [OF inv(3) assms(2)] by (auto simp: at_def)
  have "0 < tp_items p" using assms(4) inv(5) unat_pos_iff [of "ss_count q"] by simp
  then have "tp_step p ?p" using w by (intro tp_w_wait)
  moreover have "sem_inv ?q" by (rule sem_step_inv [OF sem_step.wait_take [OF assms(2-4)] inv(2)])
  moreover have "linked ?p ?q" by (rule linked_move [OF inv(3), where i = i and pc = WLock and sp = Wait_Unlock]) simp_all
  moreover have "tp_items ?p = unat (ss_count ?q)" using inv(5) unat_dec [OF assms(4)] by simp
  moreover have "posting_ok ?q"
  proof -
    have "\<not> sat ?q j Post_Signal \<and> \<not> sat ?q j Post_Unlock" for j
    proof (cases "j = i")
      case False
      then have "\<not> sem_holds (ss_pcs q ! j)" if "j < length (ss_pcs q)" using sem_invD(1) [OF inv(2)] assms(3) that by (auto simp: mutex_ok_def)
      then show ?thesis using False by (auto simp: sat_def)
    qed (use assms(2) in \<open>simp add: sat_def\<close>)
    then show ?thesis by (simp add: posting_ok_def)
  qed
  ultimately show ?thesis using inv(1,6) by (auto simp: pool_sem_inv_def intro: rtranclp.rtrancl_into_rtrancl)
qed

lemma inc_inv:
  assumes "pool_sem_inv (tp_start handles workers clients) (p, q)" "0 < workers" "workers < 2 ^ 61" "sat q i Post_Inc" "ss_lock q = Some i"
  shows "pool_sem_inv (tp_start handles workers clients) (post_done i p,
    sgo i Post_Signal (q\<lparr>ss_count := ss_count q + 1, ss_posted := ss_posted q + 1\<rparr>))" (is "pool_sem_inv ?s0 (?p, ?q)")
proof -
  have inv: "tp_step\<^sup>*\<^sup>* ?s0 p" "sem_inv q" "linked p q" "posting_ok q" "tp_items p = unat (ss_count q)" "dom (tp_nodes p) \<subseteq> {..<ADDR_LIMIT}"
    using assms(1) by (simp_all add: pool_sem_inv_def)
  have o: "at p i (tp_pcs p ! i)" "owes (tp_pcs p ! i)" using linked_at [OF inv(3) assms(4)] by simp_all
  note d = post_done_step [OF o]
  have reach: "tp_step\<^sup>*\<^sup>* ?s0 ?p" using inv(1) d(1) by (rule rtranclp.rtrancl_into_rtrancl)
  have "tp_items p + 1 < 2 ^ 64" using items_bound [OF reach assms(2,3)] d(2,3) inv(6) by simp
  then have c: "unat (ss_count ?q) = tp_items ?p" using unat_add_exact [of "ss_count q" 1] inv(5) d(2) by simp
  then have nz: "ss_count ?q \<noteq> 0" using d(2) by (metis Suc_eq_plus1 nat.distinct(1) unat_0)
  obtain v where v: "tp_pcs ?p = (tp_pcs p)[i := v]" "v = SIdle \<or> (\<exists>k. v = DPost k)" using d(4) by blast
  have "linked ?p ?q" by (rule linked_move [OF inv(3) v(1)]) (use v(2) in auto)
  moreover have "sem_inv ?q" by (rule sem_step_inv [OF sem_step.post_inc [OF assms(4,5)] inv(2)])
  moreover have "posting_ok ?q" using nz by (simp add: posting_ok_def)
  ultimately show ?thesis using reach c d(3) inv(6) by (simp add: pool_sem_inv_def)
qed

lemma call_inv:
  assumes "pool_sem_inv s0 (p, q)" "sat q i old" "sem_step q (sgo i sp q)" "link (tp_pcs p ! i) sp" "sp \<noteq> Post_Signal" "sp \<noteq> Post_Unlock"
  shows "pool_sem_inv s0 (p, sgo i sp q)"
proof -
  have inv: "sem_inv q" "linked p q" "posting_ok q" using assms(1) by (simp_all add: pool_sem_inv_def)
  have "sem_inv (sgo i sp q)" by (rule sem_step_inv [OF assms(3) inv(1)])
  moreover have "linked p (sgo i sp q)" by (rule linked_sem [OF inv(2) assms(2) _ assms(4)]) simp
  moreover have "posting_ok (sgo i sp q)" by (rule posting_move [OF inv(3) assms(2), where sp = sp]) (use assms(5,6) in simp_all)
  ultimately show ?thesis using assms(1) by (simp add: pool_sem_inv_def)
qed

lemma advance_inv:
  assumes "pool_advance x x'" "pool_sem_inv (tp_start handles workers clients) x" "0 < workers" "workers < 2 ^ 61"
  shows "pool_sem_inv (tp_start handles workers clients) x'"
  using assms
proof (induction rule: pool_advance.induct)
  case (pa_local p p' q)
  then show ?case using tp_move_inv [of p p' q] by (auto simp: tp_continues_def)
next
  case (pa_wait p i q)
  then show ?case by (intro call_inv [of _ p q i Outside] sem_step.call) (auto simp: at_def)
next
  case (pa_post p i pc q)
  then show ?case by (intro call_inv [of _ p q i Outside] sem_step.call) (auto simp: at_def)
next
  case (pa_inside q q' p)
  then have "sem_inv q'" "linked p q'" "posting_ok q'" "ss_count q' = ss_count q"
    using sem_step_inv silent_linked silent_posting by (auto simp: pool_sem_inv_def silent_def)
  then show ?case using pa_inside.prems(1) by (simp add: pool_sem_inv_def)
next
  case (pa_take q i p)
  show ?case using pa_take.prems(1) pa_take.hyps by (rule take_inv)
next
  case (pa_inc q i p)
  show ?case using pa_inc.prems pa_inc.hyps by (intro inc_inv)
qed

lemma pool_sem_step_inv:
  assumes "pool_sem_step x x'" "pool_sem_inv (tp_start handles workers clients) x" "0 < workers" "workers < 2 ^ 61"
  shows "pool_sem_inv (tp_start handles workers clients) x'"
  using assms
proof (induction rule: pool_sem_step.induct)
  case (ps_spurious q i p)
  have "linked p q" using ps_spurious.prems(1) by (simp add: pool_sem_inv_def)
  then have "link (tp_pcs p ! i) Wait_Asleep" using linked_at [OF _ ps_spurious.hyps] by blast
  then show ?case by (intro call_inv [OF ps_spurious.prems(1) ps_spurious.hyps] sem_step.wait_spurious ps_spurious.hyps) simp_all
qed (blast intro: advance_inv tp_move_inv)+

lemma pool_sem_start_inv: "pool_sem_inv (tp_start handles workers clients) (pool_sem_start handles workers clients)"
proof -
  let ?n = "workers + clients + 1" and ?p = "tp_start handles workers clients"
  have pcs: "ss_pcs (sem_start 0 ?n) = replicate ?n Outside" "length (tp_pcs ?p) = ?n" by (simp_all add: sem_start_def tp_start_def)
  have out: "ss_pcs (sem_start 0 ?n) ! i = Outside" if "i < ?n" for i unfolding pcs(1) using that by (rule nth_replicate)
  then have "linked ?p (sem_start 0 ?n)" using pcs by (simp add: linked_def del: replicate_Suc)
  moreover have "\<not> sat (sem_start 0 ?n) i Post_Signal \<and> \<not> sat (sem_start 0 ?n) i Post_Unlock" for i
    using out [of i] pcs(1) by (auto simp: sat_def simp del: replicate_Suc)
  then have "posting_ok (sem_start 0 ?n)" by (simp add: posting_ok_def)
  ultimately show ?thesis using sem_start_inv [of 0 ?n] by (simp add: pool_sem_inv_def pool_sem_start_def) (simp add: sem_start_def tp_start_def)
qed

lemma pool_sem_reachable:
  assumes "pool_sem_step\<^sup>*\<^sup>* (pool_sem_start handles workers clients) x" "0 < workers" "workers < 2 ^ 61"
  shows "pool_sem_inv (tp_start handles workers clients) x"
  using assms(1) by (induction rule: rtranclp_induct) (auto intro: pool_sem_start_inv pool_sem_step_inv assms(2,3))

section \<open>The semaphore is idle when it is destroyed\<close>

lemma one_destroyer:
  assumes "single_destroyer p" "at p i pc" "is_destroyer pc" "at p j pc'" "is_destroyer pc'"
  shows "i = j"
proof (rule ccontr)
  assume ne: "i \<noteq> j"
  have l: "i < length (tp_pcs p)" "j < length (tp_pcs p)" using assms(2,4) by (simp_all add: at_def)
  have "cnt is_destroyer ((tp_pcs p)[i := SIdle]) = 0"
    using cnt_upd [OF l(1), of is_destroyer SIdle] assms(1-3) by (simp add: single_destroyer_def at_def)
  moreover have "0 < cnt is_destroyer ((tp_pcs p)[i := SIdle])"
    by (rule cnt_pos [of j]) (use l ne assms(4,5) in \<open>simp_all add: at_def\<close>)
  ultimately show False by simp
qed

lemma idle_when_joined:
  assumes "pool_sem_inv (tp_start handles workers clients) (p, q)" "0 < workers" "DDone \<in> set (tp_pcs p)" "i < length (ss_pcs q)"
  shows "ss_pcs q ! i = Outside"
proof -
  have inv: "tp_step\<^sup>*\<^sup>* (tp_start handles workers clients) p" "linked p q" "posting_ok q" "tp_items p = unat (ss_count q)"
    using assms(1) by (simp_all add: pool_sem_inv_def)
  have s: "sat q i (ss_pcs q ! i)" using assms(4) by (simp add: sat_def)
  note l = linked_at [OF inv(2) s]
  then have m: "tp_pcs p ! i \<in> set (tp_pcs p)" by (simp add: at_def)
  have w: "is_worker (tp_pcs p ! i) \<Longrightarrow> tp_pcs p ! i = WDone" using tp_reachable_done [OF inv(1)] assms(3) m by (simp add: done_ok_def)
  obtain d where d: "at p d DDone" using assms(3) by (auto simp: in_set_conv_nth at_def)
  have no_post: "\<not> owes (tp_pcs p ! i)"
  proof
    assume o: "owes (tp_pcs p ! i)"
    have "tp_pcs p ! i \<noteq> SPost" using joined_all_posted [OF inv(1) assms(2,3)] m by auto
    with o have "is_destroyer (tp_pcs p ! i)" "tp_pcs p ! i \<noteq> DDone" by (cases "tp_pcs p ! i"; simp)+
    with one_destroyer [OF single_destroyer_reachable [OF inv(1)] conjunct1 [OF l] _ d] d show False by (simp add: at_def)
  qed
  have "ss_count q = 0" using joined_all_posted [OF inv(1) assms(2,3)] inv(4) by (metis unat_eq_zero)
  then have "\<not> (sat q i Post_Signal \<or> sat q i Post_Unlock)" using inv(3) by (auto simp: posting_ok_def)
  then show ?thesis using l w no_post s by (cases "ss_pcs q ! i") (auto simp: at_def)
qed

section \<open>Progress\<close>

lemma drain_dom: "tp_drain n N = Some N' \<Longrightarrow> dom N' \<subseteq> dom N"
  by (erule tp_drain.raw_induct [rotated]) (fastforce split: if_splits simp: bind_eq_Some_conv)

lemma continues_dom: "tp_continues p p' \<Longrightarrow> dom (tp_nodes p') \<subseteq> dom (tp_nodes p)"
proof -
  assume c: "tp_continues p p'"
  have alloc: False if "at p i SIdle" "tp_pcs p' = (tp_pcs p)[i := SLock n]" for i n
  proof -
    from c obtain j old v where j: "at p j old" "old \<noteq> SIdle" "v \<noteq> old" "tp_pcs p' = (tp_pcs p)[j := v]" by (auto simp: tp_continues_def)
    have "j = i" by (rule same_pcs_upd [OF j(1) that(1) j(3) trans [OF j(4) [symmetric] that(2)]])
    then show False using j(1,2) that(1) by (simp add: at_def)
  qed
  have "tp_step p p'" using c by (simp add: tp_continues_def)
  then show "dom (tp_nodes p') \<subseteq> dom (tp_nodes p)"
    using alloc drain_dom
    by (auto simp: tp_append_def elim!: tp_stepE pool_worker.cases d4np_thread_pool_submit.cases d4np_thread_pool_destroy.cases
      split: if_splits bind_splits) blast+
qed

text \<open>A step of the pool that does not touch the count leaves waiting workers alone; one that does is a wait or a post.\<close>

lemma continues_cases:
  assumes "tp_continues p p'"
  obtains (same) "tp_items p' = tp_items p" "\<And>j. at p j WWait \<Longrightarrow> tp_pcs p' ! j = WWait"
  | (wait) i where "at p i WWait" "0 < tp_items p"
  | (post) i pc where "at p i pc" "owes pc"
proof -
  have keep: "tp_pcs p' ! j = WWait" if "at p j WWait" "at p i old" "old \<noteq> WWait" "tp_pcs p' = (tp_pcs p)[i := v]" for i j old v
    using that by (cases "i = j") (auto simp: at_def)
  have other: thesis if "tp_items p' = tp_items p" "at p i old" "old \<noteq> WWait" "\<exists>v. tp_pcs p' = (tp_pcs p)[i := v]" for i old
    using same that keep [OF _ that(2,3)] by blast
  have stay: thesis if "tp_items p' = tp_items p" "tp_pcs p' = tp_pcs p"
    using same that by (simp add: at_def)
  have "tp_step p p'" using assms by (simp add: tp_continues_def)
  then show thesis
  proof (rule tp_stepE)
    assume "pool_worker p p'"
    then show thesis
    proof cases
      case (w_wait i)
      then show thesis using wait by blast
    qed (rule other; force)+
  next
    assume "d4np_thread_pool_submit p p'"
    then show thesis
    proof cases
      case (s_post i)
      then show thesis using post by auto
    next
      case (s_append i n x s1)
      have "tp_items s1 = tp_items p" using s_append(6) by (auto simp: tp_append_def split: if_splits bind_splits)
      then show thesis using s_append append_pcs [OF s_append(6)] by (intro other [of i "SHold n"]) auto
    next
      case (s_invalid i t)
      then show thesis by (intro stay) simp_all
    next
      case (s_no_memory i t)
      then show thesis by (intro stay) simp_all
    qed (rule other; force)+
  next
    assume "d4np_thread_pool_destroy p p'"
    then show thesis
    proof cases
      case (d_post i k)
      then show thesis using post [of i "DPost (Suc k)"] by auto
    next
      case (d_none i)
      then show thesis by (intro stay) simp_all
    qed (rule other; force)+
  qed
qed

text \<open>Whoever holds the mutex of the semaphore can go on.\<close>

lemma silentI:
  assumes "sem_step q (sgo i sp q1)" "sat q i old" "ss_pcs q1 = ss_pcs q" "ss_count q1 = ss_count q" "old \<noteq> Outside" "old \<noteq> Wait_Asleep"
  shows "pool_advance (p, q) (p, sgo i sp q1)"
proof (rule pa_inside [OF assms(1)])
  have "sat (sgo i sp q1) j pc" if "sat q j pc" "pc \<noteq> old" for j pc using that assms(2,3) by (cases "j = i") (auto simp: sat_def)
  then show "silent q (sgo i sp q1)" using assms(4-6) unfolding silent_def by auto
qed

lemma holder_advances:
  assumes "sem_inv q" "linked p q" "ss_lock q = Some j"
  shows "\<exists>x. pool_advance (p, q) x"
proof -
  have j: "j < length (ss_pcs q)" "sem_holds (ss_pcs q ! j)" using sem_invD(1) [OF assms(1)] assms(3) by (auto simp: mutex_ok_def)
  then have s: "sat q j (ss_pcs q ! j)" by (simp add: sat_def)
  have l: "link (tp_pcs p ! j) (ss_pcs q ! j)" using linked_at [OF assms(2) s] by blast
  show ?thesis
  proof (cases "ss_pcs q ! j")
    case Wait_Test
    then show ?thesis using s assms(3) sem_step.wait_sleep [of q j] pa_take [of q j p] silentI [of q j Wait_Asleep _ Wait_Test p]
      by (cases "ss_count q = 0") fastforce+
  next
    case Wait_Unlock
    then show ?thesis using s assms(3) silentI [OF sem_step.wait_unlock, of q j Wait_Unlock p] by auto
  next
    case Post_Inc
    then show ?thesis using s assms(3) pa_inc [of q j p] by auto
  next
    case Post_Unlock
    then show ?thesis using s assms(3) silentI [OF sem_step.post_unlock, of q j Post_Unlock p] by auto
  next
    case Post_Signal
    show ?thesis
    proof (cases "Wait_Asleep \<in> set (ss_pcs q)")
      case False
      then show ?thesis using s Post_Signal assms(3) silentI [OF sem_step.post_nobody, of q j Post_Signal p] by auto
    next
      case True
      then obtain k where k: "sat q k Wait_Asleep" by (auto simp: in_set_conv_nth sat_def)
      let ?q = "sgo j Post_Unlock (sgo k Wait_Woken q)"
      have "sem_step q ?q" using s Post_Signal assms(3) k by (intro sem_step.post_wake) simp_all
      moreover have "sat ?q j Post_Unlock" using s by (simp add: sat_def)
      moreover have "sat ?q i Outside" if "sat q i Outside" for i
        using that s k Post_Signal by (cases "i = j"; cases "i = k") (simp_all add: sat_def)
      ultimately have "silent q ?q" using s Post_Signal unfolding silent_def by auto
      with \<open>sem_step q ?q\<close> show ?thesis by (blast intro: pa_inside)
    qed
  qed (use j l in auto)
qed

text \<open>When the mutex is free, whoever is at its door takes it.\<close>

lemma door_advances:
  assumes "ss_lock q = None" "sat q j sp" "sp \<in> {Wait_Lock, Wait_Woken, Post_Lock}"
  shows "\<exists>x. pool_advance (p, q) x"
  using assms silentI [OF sem_step.wait_lock, of q j Wait_Lock p] silentI [OF sem_step.wait_relock, of q j Wait_Woken p]
    silentI [OF sem_step.post_lock, of q j Post_Lock p] by fastforce

lemma quiet_advances:
  assumes "sem_inv q" "linked p q" "tp_items p = unat (ss_count q)" "dom (tp_nodes p) \<subseteq> {..<ADDR_LIMIT}"
    "\<forall>sp \<in> set (ss_pcs q). sp = Outside \<or> sp = Wait_Asleep" "tp_continues p p'"
  shows "\<exists>x. pool_advance (p, q) x"
proof -
  have rest: "sat q i Outside" if "at p i pc" "pc \<noteq> WWait" for i pc
    using linked_sat [OF assms(2) that(1)] assms(5) that(2) by (fastforce simp: sat_def)
  from assms(6) show ?thesis
  proof (cases rule: continues_cases)
    case same
    have "sat q i Outside" if "i < length (tp_pcs p)" "tp_pcs p' ! i \<noteq> tp_pcs p ! i" for i
      using rest [of i "tp_pcs p ! i"] same(2) [of i] that by (cases "tp_pcs p ! i = WWait") (auto simp: at_def)
    then have "pool_local p q p'" using same(1) continues_dom [OF assms(6)] assms(4) by (auto simp: pool_local_def)
    with assms(6) show ?thesis by (blast intro: pa_local)
  next
    case (post i pc)
    then have "pc \<noteq> WWait" by auto
    with rest post pa_post show ?thesis by blast
  next
    case (wait i)
    have s: "sat q i (ss_pcs q ! i)" using linked_sat [OF assms(2) wait(1)] by blast
    have "ss_pcs q ! i \<noteq> Wait_Asleep"
    proof
      assume "ss_pcs q ! i = Wait_Asleep"
      then have "Wait_Asleep \<in> set (ss_pcs q)" using s unfolding sat_def by (metis nth_mem)
      moreover have "cnt attentive (ss_pcs q) = 0" using assms(5) by (auto simp: cnt_0)
      ultimately show False using sem_invD(3) [OF assms(1)] wait(2) assms(3) by (simp add: sem_awake_ok_def)
    qed
    then have "sat q i Outside" using s assms(5) by (auto simp: sat_def)
    with wait(1) show ?thesis by (blast intro: pa_wait)
  qed
qed

lemma pool_sem_progress:
  assumes "pool_sem_inv (tp_start handles workers clients) (p, q)" "0 < workers" "at p i (DPost k)"
  shows "\<exists>x. pool_advance (p, q) x"
proof -
  have inv: "tp_step\<^sup>*\<^sup>* (tp_start handles workers clients) p" "sem_inv q" "linked p q" "tp_items p = unat (ss_count q)"
      "dom (tp_nodes p) \<subseteq> {..<ADDR_LIMIT}"
    using assms(1) by (simp_all add: pool_sem_inv_def)
  show ?thesis
  proof (cases "ss_lock q")
    case (Some j)
    then show ?thesis by (rule holder_advances [OF inv(2,3)])
  next
    case None
    show ?thesis
    proof (cases "\<forall>sp \<in> set (ss_pcs q). sp = Outside \<or> sp = Wait_Asleep")
      case True
      obtain p' where "tp_continues p p'" using progress [OF tp_reachable_good [OF inv(1) assms(2)] assms(3)] by blast
      then show ?thesis by (rule quiet_advances [OF inv(2-5) True])
    next
      case False
      then obtain j where j: "sat q j (ss_pcs q ! j)" "ss_pcs q ! j \<noteq> Outside" "ss_pcs q ! j \<noteq> Wait_Asleep"
        by (auto simp: in_set_conv_nth sat_def)
      have "\<not> sem_holds (ss_pcs q ! j)" using sem_invD(1) [OF inv(2)] None j(1) by (auto simp: mutex_ok_def sat_def)
      moreover have "link (tp_pcs p ! j) (ss_pcs q ! j)" using linked_at [OF inv(3) j(1)] by blast
      ultimately have "ss_pcs q ! j \<in> {Wait_Lock, Wait_Woken, Post_Lock}" using j(2,3) by (cases "ss_pcs q ! j") auto
      then show ?thesis by (rule door_advances [OF None j(1)])
    qed
  qed
qed

section \<open>Termination\<close>

text \<open>The steps a thread still makes inside the semaphore before its next step in the pool; a signal pays for the thread it wakes.\<close>

fun sem_weight :: "tp_pc \<Rightarrow> sem_pc \<Rightarrow> nat" where
  "sem_weight pc Outside = (if pc = WWait then 6 else if owes pc then 20 else 0)"
| "sem_weight pc Wait_Lock = 5"
| "sem_weight pc Wait_Woken = 5"
| "sem_weight pc Wait_Test = 4"
| "sem_weight pc Wait_Unlock = 1"
| "sem_weight pc Post_Lock = 19"
| "sem_weight pc Post_Inc = 18"
| "sem_weight pc Post_Signal = 27"
| "sem_weight pc Post_Unlock = 21"
| "sem_weight pc _ = 0"

definition sem_total :: "tp \<Rightarrow> sem_sys \<Rightarrow> nat" where
  "sem_total p q = total (\<lambda>(pc, sp). sem_weight pc sp) (zip (tp_pcs p) (ss_pcs q))"

definition sem_work :: "tp \<times> sem_sys \<Rightarrow> nat" where
  "sem_work = (\<lambda>(p, q). 30 * work p + sem_total p q)"

lemma sem_total_move:
  assumes "linked p q" "i < length (tp_pcs p)" "tp_pcs p' = (tp_pcs p)[i := pc]" "ss_pcs q' = (ss_pcs q)[i := sp]"
  shows "sem_total p' q' + sem_weight (tp_pcs p ! i) (ss_pcs q ! i) = sem_total p q + sem_weight pc sp"
proof -
  have l: "i < length (zip (tp_pcs p) (ss_pcs q))" using assms(1,2) by (simp add: linked_def)
  have "zip (tp_pcs p') (ss_pcs q') = (zip (tp_pcs p) (ss_pcs q))[i := (pc, sp)]" unfolding assms(3,4) by (simp add: update_zip)
  then show ?thesis using total_upd [OF l, of "\<lambda>(pc, sp). sem_weight pc sp" "(pc, sp)"] l by (simp add: sem_total_def)
qed

lemma sem_total_less:
  assumes "linked p q" "sat q i old" "ss_pcs q' = (ss_pcs q)[i := sp]" "sem_weight (tp_pcs p ! i) sp < sem_weight (tp_pcs p ! i) old"
  shows "sem_total p q' < sem_total p q"
proof -
  have "i < length (tp_pcs p)" "ss_pcs q ! i = old" using assms(1,2) by (simp_all add: linked_def sat_def)
  then show ?thesis using sem_total_move [OF assms(1), of i p "tp_pcs p ! i" q' sp] assms(3,4) by simp
qed

lemma silent_weight:
  assumes "sem_step q q'" "silent q q'" "linked p q"
  shows "sem_total p q' < sem_total p q"
proof -
  have L: "link (tp_pcs p ! i) sp" if "sat q i sp" for i sp using linked_at [OF assms(3) that] by blast
  from assms(1) show ?thesis
  proof cases
    case (call i pc)
    then have "sat q' i pc" "sat q i Outside" by (auto simp: sat_def)
    then have "pc = Outside" using assms(2) by (auto simp: silent_def sat_def)
    with call(3) show ?thesis by simp
  next
    case (wait_spurious i)
    then have "sat q i Wait_Asleep" "\<not> sat q' i Wait_Asleep" by (auto simp: sat_def)
    then obtain j where "sat q j Post_Signal" "sat q' j Post_Unlock" using assms(2) unfolding silent_def by blast
    then show ?thesis using wait_spurious by (cases "i = j") (auto simp: sat_def)
  next
    case (wait_take i)
    then show ?thesis using assms(2) by (simp add: silent_def)
  next
    case (post_inc i)
    then show ?thesis using assms(2) by (simp add: silent_def)
  next
    case (try_take i)
    then show ?thesis using assms(2) by (simp add: silent_def)
  next
    case (wait_unlock i)
    then show ?thesis using L [OF wait_unlock(2)] by (intro sem_total_less [OF assms(3) wait_unlock(2), where sp = Outside]) simp_all
  next
    case (post_unlock i)
    then show ?thesis using L [OF post_unlock(2)] by (intro sem_total_less [OF assms(3) post_unlock(2), where sp = Outside]) auto
  next
    case (post_wake i j)
    let ?q = "sgo j Wait_Woken q"
    have ij: "i \<noteq> j" using post_wake(2,4) by (auto simp: sat_def)
    have l: "i < length (tp_pcs p)" "j < length (tp_pcs p)" "ss_pcs q ! i = Post_Signal" "ss_pcs q ! j = Wait_Asleep"
      using assms(3) post_wake(2,4) by (simp_all add: linked_def sat_def)
    have "linked p ?q" by (rule linked_sem [OF assms(3) post_wake(4), where sp = Wait_Woken]) (use L [OF post_wake(4)] in simp_all)
    from sem_total_move [OF this l(1), of p "tp_pcs p ! i" q' Post_Unlock] sem_total_move [OF assms(3) l(2), of p "tp_pcs p ! j" ?q Wait_Woken]
    show ?thesis using post_wake(1) l ij by simp
  qed (use L sem_total_less [OF assms(3)] in \<open>fastforce\<close>)+
qed

lemma advance_decreases:
  assumes "pool_advance x x'" "pool_sem_inv s0 x"
  shows "sem_work x' < sem_work x"
  using assms
proof (induction rule: pool_advance.induct)
  case (pa_local p p' q)
  have l: "linked p q" using pa_local.prems by (simp add: pool_sem_inv_def)
  from pa_local.hyps(1) obtain i old v where i: "at p i old" "v \<noteq> old" "tp_pcs p' = (tp_pcs p)[i := v]" by (auto simp: tp_continues_def)
  then have o: "sat q i Outside" using pa_local.hyps(2) by (auto simp: pool_local_def at_def)
  then have "ss_pcs q = (ss_pcs q)[i := Outside]" by (metis list_update_id sat_def)
  then have "sem_total p' q \<le> sem_total p q + 20"
    using sem_total_move [OF l, of i p' v q Outside] i o by (auto simp: at_def sat_def split: if_splits)
  then show ?case using work_continues [OF pa_local.hyps(1)] by (simp add: sem_work_def)
next
  case (pa_wait p i q)
  then show ?case using sem_total_less [of p q i Outside "sgo i Wait_Lock q" Wait_Lock] by (simp add: sem_work_def pool_sem_inv_def at_def)
next
  case (pa_post p i pc q)
  then have "pc \<noteq> WWait" by auto
  then show ?case using pa_post sem_total_less [of p q i Outside "sgo i Post_Lock q" Post_Lock]
    by (simp add: sem_work_def pool_sem_inv_def at_def)
next
  case (pa_inside q q' p)
  then show ?case using silent_weight by (simp add: sem_work_def pool_sem_inv_def)
next
  case (pa_take q i p)
  let ?p = "goto i WLock (p\<lparr>tp_items := tp_items p - 1\<rparr>)"
  let ?q = "sgo i Wait_Unlock (q\<lparr>ss_count := ss_count q - 1, ss_taken := ss_taken q + 1\<rparr>)"
  have l: "linked p q" and c: "tp_items p = unat (ss_count q)" using pa_take.prems by (simp_all add: pool_sem_inv_def)
  have w: "at p i WWait" using linked_at [OF l pa_take.hyps(1)] by (auto simp: at_def)
  have "0 < tp_items p" using c pa_take.hyps(3) unat_pos_iff [of "ss_count q"] by simp
  then have "work ?p < work p" by (intro work_worker pool_worker.w_wait w)
  moreover have "sem_total ?p ?q \<le> sem_total p q"
    using sem_total_move [OF l, of i ?p WLock ?q Wait_Unlock] w pa_take.hyps(1) by (simp add: at_def sat_def)
  ultimately show ?case by (simp add: sem_work_def)
next
  case (pa_inc q i p)
  let ?q = "sgo i Post_Signal (q\<lparr>ss_count := ss_count q + 1, ss_posted := ss_posted q + 1\<rparr>)"
  have l: "linked p q" using pa_inc.prems by (simp add: pool_sem_inv_def)
  have o: "at p i (tp_pcs p ! i)" "owes (tp_pcs p ! i)" using linked_at [OF l pa_inc.hyps(1)] by simp_all
  obtain v where v: "tp_pcs (post_done i p) = (tp_pcs p)[i := v]" using post_done_step(4) [OF o] by blast
  have "work (post_done i p) < work p" by (rule work_post_done [OF o])
  moreover have "sem_total (post_done i p) ?q \<le> sem_total p q + 9"
    using sem_total_move [OF l, of i "post_done i p" v ?q Post_Signal] v o(1) pa_inc.hyps(1) by (simp add: at_def sat_def)
  ultimately show ?case by (simp add: sem_work_def)
qed

lemma advance_bounded:
  assumes "(pool_advance ^^ n) x x'" "pool_sem_inv (tp_start handles workers clients) x" "0 < workers" "workers < 2 ^ 61"
  shows "n + sem_work x' \<le> sem_work x \<and> pool_sem_inv (tp_start handles workers clients) x'"
  using assms(1)
proof (induction n arbitrary: x')
  case 0
  then show ?case using assms(2) by simp
next
  case (Suc n)
  then obtain x1 where x1: "(pool_advance ^^ n) x x1" "pool_advance x1 x'" by auto
  from Suc.IH [OF x1(1)] have i: "n + sem_work x1 \<le> sem_work x" "pool_sem_inv (tp_start handles workers clients) x1" by simp_all
  show ?case using i(1) advance_decreases [OF x1(2) i(2)] advance_inv [OF x1(2) i(2) assms(3,4)] by simp
qed

lemma advance_closer:
  assumes "pool_advance x x'" "pool_sem_inv s0 x" "closer (fst x) i"
  shows "closer (fst x') i"
  using assms
proof (induction rule: pool_advance.induct)
  case (pa_local p p' q)
  then show ?case using step_closer [of p p' i] by (auto simp: tp_continues_def)
next
  case (pa_take q j p)
  have "linked p q" using pa_take.prems by (simp add: pool_sem_inv_def)
  then have "at p j WWait" using linked_at [OF _ pa_take.hyps(1)] by (auto simp: at_def)
  then show ?case using closer_move [of p i j WWait _ WLock] pa_take.prems(2) by simp
next
  case (pa_inc q j p)
  have "linked p q" using pa_inc.prems by (simp add: pool_sem_inv_def)
  then have "tp_step p (post_done j p)" using linked_at [OF _ pa_inc.hyps(1)] post_done_step(1) [of p j] by auto
  then show ?case using step_closer pa_inc.prems(2) by simp
qed simp_all

lemma advance_star:
  assumes "pool_advance\<^sup>*\<^sup>* x x'" "pool_sem_inv (tp_start handles workers clients) x" "closer (fst x) i" "0 < workers" "workers < 2 ^ 61"
  shows "pool_sem_inv (tp_start handles workers clients) x' \<and> closer (fst x') i"
  using assms(1)
proof (induction rule: rtranclp_induct)
  case base
  then show ?case using assms(2,3) by blast
next
  case (step x1 x2)
  then show ?case using advance_closer [of x1 x2] advance_inv [OF step.hyps(2) _ assms(4,5)] by blast
qed

section \<open>Properties\<close>

text \<open>The pool over the real semaphore behaves as the pool over a count of permits: in every interleaving of the
  steps inside waits and posts with everything else, the state of the pool is one \<open>Thread_Pool\<close> reaches, the
  64-bit counter is exactly the number of permits and does not wrap, and once \<open>destroy\<close> has joined the workers
  no thread is inside the semaphore it is about to destroy, and every accepted task has run.\<close>

theorem thread_pool_on_semaphore:
  assumes "pool_sem_step\<^sup>*\<^sup>* (pool_sem_start handles workers clients) (p, q)" "0 < workers" "workers < 2 ^ 61"
  shows "tp_step\<^sup>*\<^sup>* (tp_start handles workers clients) p \<and> tp_items p = unat (ss_count q) \<and>
    (DDone \<in> set (tp_pcs p) \<longrightarrow> set (ss_pcs q) \<subseteq> {Outside} \<and> ss_lock q = None \<and> mset (tp_ran p) = mset (tp_accepted p))"
proof -
  have inv: "pool_sem_inv (tp_start handles workers clients) (p, q)" by (rule pool_sem_reachable [OF assms])
  then have r: "tp_step\<^sup>*\<^sup>* (tp_start handles workers clients) p" "tp_items p = unat (ss_count q)" "mutex_ok sem_holds (ss_lock q) (ss_pcs q)"
    using sem_invD(1) by (auto simp: pool_sem_inv_def)
  have "set (ss_pcs q) \<subseteq> {Outside} \<and> ss_lock q = None" if "DDone \<in> set (tp_pcs p)"
    using idle_when_joined [OF inv assms(2) that] r(3) by (cases "ss_lock q") (auto simp: mutex_ok_def in_set_conv_nth)
  then show ?thesis using r(1,2) joined_all_ran [OF r(1) assms(2)] by blast
qed

text \<open>Over the real semaphore too the shutdown completes under every schedule, and without the help of spurious
  wake-ups: the threads can make at most \<open>sem_work\<close> more steps, and when none can make one the destroyer has
  joined every worker, every accepted task has been run and the semaphore is idle.\<close>

theorem thread_pool_on_semaphore_shuts_down:
  assumes "pool_sem_step\<^sup>*\<^sup>* (pool_sem_start handles workers clients) (p, q)" "0 < workers" "workers < 2 ^ 61" "at p i (DPost k)"
  shows "(\<forall>n x. (pool_advance ^^ n) (p, q) x \<longrightarrow> n \<le> sem_work (p, q)) \<and>
    (\<forall>p' q'. pool_advance\<^sup>*\<^sup>* (p, q) (p', q') \<and> (\<nexists>x. pool_advance (p', q') x) \<longrightarrow>
       at p' i DDone \<and> mset (tp_ran p') = mset (tp_accepted p') \<and> set (ss_pcs q') \<subseteq> {Outside})"
proof (intro conjI allI impI)
  have inv: "pool_sem_inv (tp_start handles workers clients) (p, q)" by (rule pool_sem_reachable [OF assms(1-3)])
  show "n \<le> sem_work (p, q)" if "(pool_advance ^^ n) (p, q) x" for n x using advance_bounded [OF that inv assms(2,3)] by simp
  fix p' q' assume r: "pool_advance\<^sup>*\<^sup>* (p, q) (p', q') \<and> (\<nexists>x. pool_advance (p', q') x)"
  have "closer (fst (p, q)) i" using assms(4) by (simp add: closer_def at_def)
  from advance_star [OF conjunct1 [OF r] inv this assms(2,3)]
  have c: "pool_sem_inv (tp_start handles workers clients) (p', q') \<and> closer (fst (p', q')) i" .
  have "\<not> at p' i (DPost m)" for m using pool_sem_progress [OF conjunct1 [OF c] assms(2)] r by blast
  with c show d: "at p' i DDone" by (cases "tp_pcs p' ! i") (auto simp: closer_def at_def)
  then have m: "DDone \<in> set (tp_pcs p')" using nth_mem unfolding at_def by metis
  have "tp_step\<^sup>*\<^sup>* (tp_start handles workers clients) p'" using c by (simp add: pool_sem_inv_def)
  then show "mset (tp_ran p') = mset (tp_accepted p')" using joined_all_ran [OF _ assms(2) m] by blast
  show "set (ss_pcs q') \<subseteq> {Outside}" using idle_when_joined [OF conjunct1 [OF c] assms(2) m] by (auto simp: in_set_conv_nth)
qed

text \<open>One worker, no task: the destroyer has announced the shutdown and is about to post.\<close>

definition ps_mid :: "tp \<times> sem_sys" where
  "ps_mid = ((tp_start 16 1 0)\<lparr>tp_shutting_down := True, tp_pcs := [WWait, DPost 1]\<rparr>, sem_start 0 2)"

lemma ps_mid_reachable: "pool_sem_step\<^sup>*\<^sup>* (pool_sem_start 16 1 0) ps_mid"
proof -
  let ?q = "sem_start 0 2" and ?p0 = "tp_start 16 1 0"
  let ?p1 = "goto 1 DLock ?p0"
  let ?p2 = "goto 1 DHold (?p1\<lparr>tp_lock := Some 1\<rparr>)"
  let ?p3 = "goto 1 (DPost (tp_thread_count ?p2)) (?p2\<lparr>tp_shutting_down := True, tp_lock := None\<rparr>)"
  have out: "sat ?q i Outside" if "i < 2" for i using that by (auto simp: sat_def sem_start_def less_2_cases_iff)
  have loc: "pool_local p ?q p'" if "tp_items p' = tp_items p" "tp_nodes p' = Map.empty" "length (tp_pcs p) = 2" for p p'
    using that out by (simp add: pool_local_def)
  have "tp_step ?p0 ?p1" by (rule tp_d_start) (simp_all add: at_def tp_start_def)
  then have 1: "pool_sem_step (?p0, ?q) (?p1, ?q)" by (rule ps_client) (rule loc; simp add: tp_start_def)
  have "tp_step ?p1 ?p2" by (rule tp_d_lock) (simp_all add: at_def tp_start_def)
  then have 2: "pool_sem_step (?p1, ?q) (?p2, ?q)" by (rule ps_client) (rule loc; simp add: tp_start_def)
  have "tp_step ?p2 ?p3" by (rule tp_d_down) (simp_all add: at_def tp_start_def)
  then have 3: "pool_sem_step (?p2, ?q) (?p3, ?q)" by (rule ps_client) (rule loc; simp add: tp_start_def)
  have "pool_sem_start 16 1 0 = (?p0, ?q)" by (simp add: pool_sem_start_def eval_nat_numeral)
  moreover have "ps_mid = (?p3, ?q)" by (simp add: ps_mid_def tp_start_def goto_def)
  ultimately show ?thesis using 1 2 3 by (metis converse_rtranclp_into_rtranclp rtranclp.rtrancl_refl)
qed

theorem thread_pool_on_semaphore_witness: "tp_items (fst ps_mid) = unat (ss_count (snd ps_mid))"
  using thread_pool_on_semaphore [of 16 1 0 "fst ps_mid" "snd ps_mid"] ps_mid_reachable by simp

theorem thread_pool_on_semaphore_shuts_down_witness: "{n. \<exists>x. (pool_advance ^^ n) ps_mid x} \<subseteq> {..266}"
proof -
  have "at (fst ps_mid) 1 (DPost 1)" by (simp add: at_def ps_mid_def)
  moreover have "sem_work ps_mid = 266"
    by (simp add: sem_work_def sem_total_def work_def ps_mid_def tp_start_def sem_start_def total_def eval_nat_numeral)
  ultimately show ?thesis
    using thread_pool_on_semaphore_shuts_down [of 16 1 0 "fst ps_mid" "snd ps_mid" 1 1] ps_mid_reachable by auto
qed

end
