(* ===== verification/Permits.thy ===== *)
theory Permits
  imports Mutex
begin

text \<open>
  The contract of the library's counting semaphores. Callers wait for a permit, try to take one or post one; the
  reference is a bare counter with a ceiling. A semaphore that meets the contract answers every
  sequence of calls as the counter does, so any two of them with the same count and ceiling
  are interchangeable. A call that has to wait is recorded as such and leaves the state alone.
\<close>

section \<open>Definitions\<close>

datatype permit_call = Wait | Try_Wait | Post

datatype permit_answer = Taken | Refused | Waiting | Posted

fun counter_call :: "nat \<Rightarrow> permit_call \<Rightarrow> nat \<Rightarrow> permit_answer \<times> nat" where
  "counter_call limit Wait n = (if 0 < n then (Taken, n - 1) else (Waiting, n))"
| "counter_call limit Try_Wait n = (if 0 < n then (Taken, n - 1) else (Refused, n))"
| "counter_call limit Post n = (Posted, if n < limit then n + 1 else n)"

fun counter_run :: "nat \<Rightarrow> permit_call list \<Rightarrow> nat \<Rightarrow> permit_answer list \<times> nat" where
  "counter_run limit [] n = ([], n)"
| "counter_run limit (c # cs) n =
     (let (a, n1) = counter_call limit c n; (as, n2) = counter_run limit cs n1 in (a # as, n2))"

text \<open>A sequence of calls of an implementation.\<close>

fun permit_do ::
  "('s \<Rightarrow> 's outcome option) \<Rightarrow> ('s \<Rightarrow> (bool \<times> 's) option) \<Rightarrow> ('s \<Rightarrow> 's option) \<Rightarrow> permit_call \<Rightarrow> 's \<Rightarrow> (permit_answer \<times> 's) option" where
  "permit_do w t p Wait s = do { r \<leftarrow> w s; Some (case r of Returns s1 \<Rightarrow> (Taken, s1) | Blocks \<Rightarrow> (Waiting, s)) }"
| "permit_do w t p Try_Wait s = do { (b, s1) \<leftarrow> t s; Some (if b then Taken else Refused, s1) }"
| "permit_do w t p Post s = do { s1 \<leftarrow> p s; Some (Posted, s1) }"

fun permit_run ::
  "('s \<Rightarrow> 's outcome option) \<Rightarrow> ('s \<Rightarrow> (bool \<times> 's) option) \<Rightarrow> ('s \<Rightarrow> 's option) \<Rightarrow> permit_call list \<Rightarrow> 's \<Rightarrow> (permit_answer list \<times> 's) option" where
  "permit_run w t p [] s = Some ([], s)"
| "permit_run w t p (c # cs) s = do { (a, s1) \<leftarrow> permit_do w t p c s; (as, s2) \<leftarrow> permit_run w t p cs s1; Some (a # as, s2) }"

section \<open>The contract\<close>

locale permit_contract =
  fixes ok :: "'s \<Rightarrow> bool" and permits :: "'s \<Rightarrow> nat" and limit :: nat
    and wait :: "'s \<Rightarrow> 's outcome option" and trywait :: "'s \<Rightarrow> (bool \<times> 's) option" and post :: "'s \<Rightarrow> 's option"
  assumes wait_law: "ok s \<Longrightarrow> if 0 < permits s then \<exists>s'. wait s = Some (Returns s') \<and> ok s' \<and> permits s' = permits s - 1
      else wait s = Some Blocks"
    and trywait_law: "ok s \<Longrightarrow> \<exists>s'. trywait s = Some (0 < permits s, s') \<and> ok s' \<and> permits s' = permits s - 1"
    and post_law: "ok s \<Longrightarrow> \<exists>s'. post s = Some s' \<and> ok s' \<and> permits s' = (if permits s < limit then permits s + 1 else permits s)"
begin

lemma call_refines:
  assumes "ok s"
  shows "\<exists>s'. permit_do wait trywait post c s = Some (fst (counter_call limit c (permits s)), s') \<and> ok s' \<and>
    permits s' = snd (counter_call limit c (permits s))"
proof (cases c)
  case Wait
  then show ?thesis using wait_law [OF assms] assms by (cases "0 < permits s") auto
next
  case Try_Wait
  then show ?thesis using trywait_law [OF assms] by auto
next
  case Post
  then show ?thesis using post_law [OF assms] by auto
qed

lemma run_refines:
  assumes "ok s"
  shows "\<exists>s'. permit_run wait trywait post cs s = Some (fst (counter_run limit cs (permits s)), s') \<and> ok s' \<and>
    permits s' = snd (counter_run limit cs (permits s))"
  using assms
proof (induction cs arbitrary: s)
  case (Cons c cs)
  from call_refines [OF Cons.prems, of c] obtain s1 where
    s1: "permit_do wait trywait post c s = Some (fst (counter_call limit c (permits s)), s1)" "ok s1"
      "permits s1 = snd (counter_call limit c (permits s))" by blast
  from Cons.IH [OF s1(2)] s1 show ?case by (auto simp: Let_def split: prod.splits)
qed simp

end

text \<open>What the reference counter guarantees: permits are conserved as long as the ceiling is not reached, and
  a call waits only when no permit is left.\<close>

definition answers :: "permit_answer \<Rightarrow> permit_answer list \<Rightarrow> nat" where
  "answers a as = length (filter ((=) a) as)"

lemma counter_run_conserves:
  assumes "counter_run limit cs n = (as, n')" "n + answers Posted as \<le> limit"
  shows "n' + answers Taken as = n + answers Posted as"
  using assms
proof (induction cs arbitrary: n as)
  case (Cons c cs)
  obtain a n1 where a: "counter_call limit c n = (a, n1)" by fastforce
  obtain bs where b: "counter_run limit cs n1 = (bs, n')" "as = a # bs" using Cons.prems(1) a by (auto split: prod.splits)
  have "n1 + answers Posted bs \<le> limit \<and> n1 + answers Taken [a] = n + answers Posted [a]"
    using a b(2) Cons.prems(2) by (cases c) (auto simp: answers_def split: if_splits)
  then show ?case using Cons.IH [OF b(1)] b(2) by (auto simp: answers_def split: if_splits)
qed (simp add: answers_def)

text \<open>Below their ceilings two counters answer alike.\<close>

lemma counter_run_below:
  assumes "n + count_list cs Post \<le> limit" "n + count_list cs Post \<le> limit'"
  shows "counter_run limit cs n = counter_run limit' cs n"
  using assms
proof (induction cs arbitrary: n)
  case (Cons c cs)
  have "counter_call limit c n = counter_call limit' c n" using Cons.prems by (cases c) simp_all
  moreover have "snd (counter_call limit' c n) + count_list cs Post \<le> n + count_list (c # cs) Post" by (cases c) simp_all
  ultimately show ?case using Cons.IH [of "snd (counter_call limit' c n)"] Cons.prems by (simp add: case_prod_unfold Let_def)
qed simp

end
