(* ===== verification/Named_Semaphore.thy ===== *)
theory Named_Semaphore
  imports Permits Memory
begin

text \<open>
  The named semaphore shared between processes (\<open>concurrency/named_semaphore.h\<close>,
  \<open>concurrency/named_semaphore.c\<close>), POSIX branch. The operating system keeps the names and, for
  each object, its count; a handle of a process refers to an object, which survives the removal of its name.
  Each library call is one step on that state: the kernel's \<open>sem_*\<close> operations are atomic. Which \<open>sem_open\<close>
  calls the system refuses and which attempts of a wait are interrupted by a signal are arguments.
  Histories per object (initial, taken, posted) are ghost state.
\<close>

section \<open>Definitions\<close>

text \<open>\<open>SEM_VALUE_MAX\<close> is the platform's: it differs between Linux and macOS.\<close>

record nsem_sys =
  SEM_VALUE_MAX :: "32 word"
  ns_names :: "byte list \<Rightarrow> nat option"
  ns_next :: nat
  ns_count :: "nat \<Rightarrow> nat"
  ns_handles :: "nat \<Rightarrow> nat option"
  ns_initial :: "nat \<Rightarrow> nat"
  ns_taken :: "nat \<Rightarrow> nat"
  ns_posted :: "nat \<Rightarrow> nat"

text \<open>\<open>snprintf(buf, bufsz, "/%s", name)\<close> and the test for truncation: the name for the system, if it fits.\<close>

definition d4np_nsem_name :: "nat \<Rightarrow> ptr \<Rightarrow> mem \<Rightarrow> byte list option option" where
  "d4np_nsem_name bufsz name m = do {
     len \<leftarrow> strlen name m;
     bs \<leftarrow> mem_read m name len;
     let n = len + 1;
     Some (if 0 < n \<and> n < bufsz then Some (47 # bs) else None) }"

text \<open>\<open>sem_open\<close> with \<open>O_CREAT\<close>: attach to the object of that name or create it.\<close>

definition sem_open :: "(byte list \<Rightarrow> bool) \<Rightarrow> byte list \<Rightarrow> nat \<Rightarrow> nsem_sys \<Rightarrow> nat option \<times> nsem_sys" where
  "sem_open refused path count s =
     (if refused path then (None, s)
      else case ns_names s path of
          Some ob \<Rightarrow> (Some ob, s)
        | None \<Rightarrow> let ob = ns_next s
            in (Some ob, s\<lparr>ns_names := (ns_names s)(path \<mapsto> ob), ns_next := ob + 1, ns_count := (ns_count s)(ob := count),
                  ns_initial := (ns_initial s)(ob := count), ns_taken := (ns_taken s)(ob := 0), ns_posted := (ns_posted s)(ob := 0)\<rparr>))"

text \<open>The first argument is the caller's handle, \<open>None\<close> for a NULL pointer.\<close>

definition d4np_named_semaphore_open ::
  "(byte list \<Rightarrow> bool) \<Rightarrow> nat option \<Rightarrow> ptr \<Rightarrow> 32 word \<Rightarrow> mem \<Rightarrow> nsem_sys \<Rightarrow> (d4np_status \<times> nsem_sys) option" where
  "d4np_named_semaphore_open refused h name initial_count m s =
     (case h of
        None \<Rightarrow> Some (D4NP_ERR_INVALID_ARGUMENT, s)
      | Some hnd \<Rightarrow>
          if name = NULL then Some (D4NP_ERR_INVALID_ARGUMENT, s)
          else do {
            c \<leftarrow> read_byte m name;
            if c = 0 \<or> SEM_VALUE_MAX s < initial_count then Some (D4NP_ERR_INVALID_ARGUMENT, s)
            else do {
              path \<leftarrow> d4np_nsem_name 32 name m;
              case path of
                None \<Rightarrow> Some (D4NP_ERR_INVALID_ARGUMENT, s)
              | Some pt \<Rightarrow>
                  (case sem_open refused pt (unat initial_count) s of
                     (None, s1) \<Rightarrow> Some (D4NP_ERR_INTERNAL, s1)
                   | (Some ob, s1) \<Rightarrow> Some (D4NP_OK, s1\<lparr>ns_handles := (ns_handles s1)(hnd \<mapsto> ob)\<rparr>)) } })"

definition d4np_named_semaphore_close :: "nat option \<Rightarrow> nsem_sys \<Rightarrow> nsem_sys option" where
  "d4np_named_semaphore_close h s =
     (case h of
        None \<Rightarrow> Some s
      | Some hnd \<Rightarrow> (case ns_handles s hnd of None \<Rightarrow> None | Some ob \<Rightarrow> Some (s\<lparr>ns_handles := (ns_handles s)(hnd := None)\<rparr>)))"

text \<open>\<open>unlink_fails\<close>: the system refuses for another reason than a missing name (\<open>ENOENT\<close>).\<close>

definition d4np_named_semaphore_unlink :: "bool \<Rightarrow> ptr \<Rightarrow> mem \<Rightarrow> nsem_sys \<Rightarrow> (d4np_status \<times> nsem_sys) option" where
  "d4np_named_semaphore_unlink unlink_fails name m s =
     (if name = NULL then Some (D4NP_ERR_INVALID_ARGUMENT, s)
      else do {
        c \<leftarrow> read_byte m name;
        if c = 0 then Some (D4NP_ERR_INVALID_ARGUMENT, s)
        else do {
          path \<leftarrow> d4np_nsem_name 32 name m;
          case path of
            None \<Rightarrow> Some (D4NP_ERR_INVALID_ARGUMENT, s)
          | Some pt \<Rightarrow>
              if unlink_fails \<and> ns_names s pt \<noteq> None then Some (D4NP_ERR_INTERNAL, s)
              else Some (D4NP_OK, s\<lparr>ns_names := (ns_names s)(pt := None)\<rparr>) } })"

definition take_permit :: "nat \<Rightarrow> nsem_sys \<Rightarrow> nsem_sys" where
  "take_permit ob s = s\<lparr>ns_count := (ns_count s)(ob := ns_count s ob - 1), ns_taken := (ns_taken s)(ob := ns_taken s ob + 1)\<rparr>"

text \<open>The retry loops: attempt \<open>k\<close> is interrupted when \<open>intr k\<close>; a call that waits for a permit is \<open>Blocks\<close>.\<close>

partial_function (option) wait_loop :: "(nat \<Rightarrow> bool) \<Rightarrow> nat \<Rightarrow> nat \<Rightarrow> nsem_sys \<Rightarrow> nsem_sys outcome option" where
  "wait_loop intr k ob s =
     (if intr k then wait_loop intr (k + 1) ob s
      else if 0 < ns_count s ob then Some (Returns (take_permit ob s)) else Some Blocks)"

partial_function (option) trywait_loop :: "(nat \<Rightarrow> bool) \<Rightarrow> nat \<Rightarrow> nat \<Rightarrow> nsem_sys \<Rightarrow> (bool \<times> nsem_sys) option" where
  "trywait_loop intr k ob s =
     (if intr k then trywait_loop intr (k + 1) ob s
      else if 0 < ns_count s ob then Some (True, take_permit ob s) else Some (False, s))"

definition d4np_named_semaphore_wait :: "(nat \<Rightarrow> bool) \<Rightarrow> nat option \<Rightarrow> nsem_sys \<Rightarrow> nsem_sys outcome option" where
  "d4np_named_semaphore_wait intr h s =
     (case h of None \<Rightarrow> None | Some hnd \<Rightarrow> (case ns_handles s hnd of None \<Rightarrow> None | Some ob \<Rightarrow> wait_loop intr 0 ob s))"

definition d4np_named_semaphore_trywait :: "(nat \<Rightarrow> bool) \<Rightarrow> nat option \<Rightarrow> nsem_sys \<Rightarrow> (bool \<times> nsem_sys) option" where
  "d4np_named_semaphore_trywait intr h s =
     (case h of None \<Rightarrow> Some (False, s) | Some hnd \<Rightarrow> (case ns_handles s hnd of None \<Rightarrow> None | Some ob \<Rightarrow> trywait_loop intr 0 ob s))"

text \<open>\<open>sem_post\<close> fails at the maximal value; the code ignores that.\<close>

definition d4np_named_semaphore_post :: "nat option \<Rightarrow> nsem_sys \<Rightarrow> nsem_sys option" where
  "d4np_named_semaphore_post h s =
     (case h of
        None \<Rightarrow> None
      | Some hnd \<Rightarrow>
          (case ns_handles s hnd of
             None \<Rightarrow> None
           | Some ob \<Rightarrow>
               Some (if ns_count s ob < unat (SEM_VALUE_MAX s)
                     then s\<lparr>ns_count := (ns_count s)(ob := ns_count s ob + 1), ns_posted := (ns_posted s)(ob := ns_posted s ob + 1)\<rparr>
                     else s)))"

section \<open>The processes together\<close>

text \<open>The calls of all processes, in any order; a wait that would block does not take place.\<close>

inductive nsem_step :: "(byte list \<Rightarrow> bool) \<Rightarrow> mem \<Rightarrow> nsem_sys \<Rightarrow> nsem_sys \<Rightarrow> bool" for refused m where
  ns_open: "d4np_named_semaphore_open refused h name c m s = Some (rc, s') \<Longrightarrow> nsem_step refused m s s'"
| ns_close: "d4np_named_semaphore_close h s = Some s' \<Longrightarrow> nsem_step refused m s s'"
| ns_unlink: "d4np_named_semaphore_unlink e name m s = Some (rc, s') \<Longrightarrow> nsem_step refused m s s'"
| ns_wait: "d4np_named_semaphore_wait intr h s = Some (Returns s') \<Longrightarrow> nsem_step refused m s s'"
| ns_trywait: "d4np_named_semaphore_trywait intr h s = Some (b, s') \<Longrightarrow> nsem_step refused m s s'"
| ns_post: "d4np_named_semaphore_post h s = Some s' \<Longrightarrow> nsem_step refused m s s'"

definition nsem_start :: "32 word \<Rightarrow> nsem_sys" where
  "nsem_start v = \<lparr>SEM_VALUE_MAX = v, ns_names = Map.empty, ns_next = 0, ns_count = (\<lambda>_. 0), ns_handles = Map.empty, ns_initial = (\<lambda>_. 0),
     ns_taken = (\<lambda>_. 0), ns_posted = (\<lambda>_. 0)\<rparr>"

text \<open>Every object's permits are accounted for, and names and handles refer to objects that exist.\<close>

definition nsem_inv :: "nsem_sys \<Rightarrow> bool" where
  "nsem_inv s \<longleftrightarrow> (\<forall>ob. ns_count s ob + ns_taken s ob = ns_initial s ob + ns_posted s ob \<and> ns_count s ob \<le> unat (SEM_VALUE_MAX s)) \<and>
     (\<forall>p ob. ns_names s p = Some ob \<longrightarrow> ob < ns_next s) \<and> (\<forall>h ob. ns_handles s h = Some ob \<longrightarrow> ob < ns_next s)"

lemma wait_loop_ok:
  assumes "\<not> intr (k + d)"
  shows "wait_loop intr k ob s = Some (if 0 < ns_count s ob then Returns (take_permit ob s) else Blocks)"
  using assms
proof (induction d arbitrary: k)
  case 0
  then show ?case by (simp add: wait_loop.simps [of intr k])
next
  case (Suc d)
  then show ?case using Suc.IH [of "Suc k"] by (simp add: wait_loop.simps [of intr k])
qed

lemma trywait_loop_ok:
  assumes "\<not> intr (k + d)"
  shows "trywait_loop intr k ob s = Some (if 0 < ns_count s ob then (True, take_permit ob s) else (False, s))"
  using assms
proof (induction d arbitrary: k)
  case 0
  then show ?case by (simp add: trywait_loop.simps [of intr k])
next
  case (Suc d)
  then show ?case using Suc.IH [of "Suc k"] by (simp add: trywait_loop.simps [of intr k])
qed

text \<open>Whatever the interruptions, a loop that returns has taken a permit or (for trywait) changed nothing.\<close>

lemma wait_loop_result:
  assumes "wait_loop intr k ob s = Some r"
  shows "r = (if 0 < ns_count s ob then Returns (take_permit ob s) else Blocks)"
proof (rule wait_loop.raw_induct [where P = "\<lambda>intr k ob s r. r = (if 0 < ns_count s ob then Returns (take_permit ob s) else Blocks)", OF _ assms])
  fix f i k ob s y
  assume ih: "\<And>i k ob s y. f i k ob s = Some y \<Longrightarrow> y = (if 0 < ns_count s ob then Returns (take_permit ob s) else Blocks)"
    and e: "(if i k then f i (k + 1) ob s else if 0 < ns_count s ob then Some (Returns (take_permit ob s)) else Some Blocks) = Some y"
  show "y = (if 0 < ns_count s ob then Returns (take_permit ob s) else Blocks)"
  proof (cases "i k")
    case True
    then have "f i (k + 1) ob s = Some y" using e by simp
    from ih [OF this] show ?thesis .
  next
    case False
    then show ?thesis using e by (auto split: if_splits)
  qed
qed

lemma trywait_loop_result:
  assumes "trywait_loop intr k ob s = Some r"
  shows "r = (if 0 < ns_count s ob then (True, take_permit ob s) else (False, s))"
proof (rule trywait_loop.raw_induct [where P = "\<lambda>intr k ob s r. r = (if 0 < ns_count s ob then (True, take_permit ob s) else (False, s))", OF _ assms])
  fix f i k ob s y
  assume ih: "\<And>i k ob s y. f i k ob s = Some y \<Longrightarrow> y = (if 0 < ns_count s ob then (True, take_permit ob s) else (False, s))"
    and e: "(if i k then f i (k + 1) ob s else if 0 < ns_count s ob then Some (True, take_permit ob s) else Some (False, s)) = Some y"
  show "y = (if 0 < ns_count s ob then (True, take_permit ob s) else (False, s))"
  proof (cases "i k")
    case True
    then have "f i (k + 1) ob s = Some y" using e by simp
    from ih [OF this] show ?thesis .
  next
    case False
    then show ?thesis using e by (auto split: if_splits)
  qed
qed

lemma take_permit_inv:
  assumes "nsem_inv s" "0 < ns_count s ob"
  shows "nsem_inv (take_permit ob s)"
proof -
  have e: "ns_count s x + ns_taken s x = ns_initial s x + ns_posted s x" "ns_count s x \<le> unat (SEM_VALUE_MAX s)" for x
    using assms(1) by (simp_all add: nsem_inv_def)
  have "ns_count s ob - 1 + (ns_taken s ob + 1) = ns_initial s ob + ns_posted s ob" "ns_count s ob - 1 \<le> unat (SEM_VALUE_MAX s)"
    using e [of ob] assms(2) by linarith+
  then show ?thesis using assms(1) e by (simp add: nsem_inv_def take_permit_def)
qed

lemma sem_open_inv:
  assumes "nsem_inv s" "sem_open refused p c s = (r, s1)" "c \<le> unat (SEM_VALUE_MAX s)"
  shows "nsem_inv s1 \<and> (\<forall>ob. r = Some ob \<longrightarrow> ob < ns_next s1)"
  using assms by (auto simp: sem_open_def nsem_inv_def Let_def less_Suc_eq split: if_splits option.splits)

lemma open_inv:
  assumes "d4np_named_semaphore_open refused h name c m s = Some (rc, s')" "nsem_inv s"
  shows "nsem_inv s'"
proof (cases "s' = s")
  case False
  with assms(1) obtain hnd p r s1 where o: "unat c \<le> unat (SEM_VALUE_MAX s)" "sem_open refused p (unat c) s = (r, s1)"
      "s' = (case r of None \<Rightarrow> s1 | Some ob \<Rightarrow> s1\<lparr>ns_handles := (ns_handles s1)(hnd \<mapsto> ob)\<rparr>)"
    by (auto simp: d4np_named_semaphore_open_def word_less_nat_alt not_less split: option.splits if_splits prod.splits bind_splits)
  from sem_open_inv [OF assms(2) o(2,1)] o(3) show ?thesis by (auto simp: nsem_inv_def split: option.splits)
qed (use assms in simp)

lemma nsem_step_inv: "nsem_step refused m s s' \<Longrightarrow> nsem_inv s \<Longrightarrow> nsem_inv s'"
proof (induction rule: nsem_step.induct)
  case (ns_open h name c s rc s')
  then show ?case by (rule open_inv)
next
  case (ns_close h s s')
  then show ?case by (auto simp: d4np_named_semaphore_close_def nsem_inv_def split: option.splits if_splits)
next
  case (ns_unlink e name s rc s')
  then show ?case by (auto simp: d4np_named_semaphore_unlink_def nsem_inv_def split: option.splits if_splits bind_splits)
next
  case (ns_wait intr h s s')
  then show ?case using take_permit_inv
    by (auto simp: d4np_named_semaphore_wait_def split: option.splits if_splits dest!: wait_loop_result)
next
  case (ns_trywait intr h s b s')
  then show ?case using take_permit_inv
    by (auto simp: d4np_named_semaphore_trywait_def split: option.splits if_splits dest!: trywait_loop_result)
next
  case (ns_post h s s')
  then show ?case by (auto simp: d4np_named_semaphore_post_def nsem_inv_def split: option.splits if_splits)
qed

lemma nsem_reachable_inv: "(nsem_step refused m)\<^sup>*\<^sup>* (nsem_start v) s \<Longrightarrow> nsem_inv s"
proof (induction rule: rtranclp_induct)
  case base
  show ?case by (simp add: nsem_inv_def nsem_start_def)
qed (rule nsem_step_inv)

text \<open>The calls through one handle meet the contract of a counting semaphore, when each attempt is interrupted
  \<open>i\<close> times before it gets through.\<close>

interpretation nsem: permit_contract "\<lambda>s. ns_handles s h = Some ob \<and> SEM_VALUE_MAX s = v" "\<lambda>s. ns_count s ob" "unat v"
    "d4np_named_semaphore_wait (\<lambda>k. k < i) (Some h)" "d4np_named_semaphore_trywait (\<lambda>k. k < i) (Some h)"
    "d4np_named_semaphore_post (Some h)" for h ob v i
  using wait_loop_ok [of "\<lambda>k. k < i" 0 i] trywait_loop_ok [of "\<lambda>k. k < i" 0 i]
  by unfold_locales
    (auto simp: d4np_named_semaphore_wait_def d4np_named_semaphore_trywait_def d4np_named_semaphore_post_def take_permit_def)

text \<open>A name in memory: its bytes, and its first byte, which tells whether it is empty.\<close>

lemma key_read: "cstr m name key \<Longrightarrow> mem_read m name (length key) = Some key"
  using valid_sub [of m name "length key + 1" name "length key"] cstr_peek by (auto simp: cstr_def mem_read_Some)

lemma key_first: "cstr m name key \<Longrightarrow> \<exists>b. read_byte m name = Some b \<and> (b = 0 \<longleftrightarrow> key = [])"
  by (cases key) (auto simp: cstr_Nil read_byte_Some dest!: cstr_Cons)

lemma nsem_name_ok: "cstr m name key \<Longrightarrow> d4np_nsem_name 32 name m = Some (if length key \<le> 30 then Some (47 # key) else None)"
  using strlen_cstr key_read by (auto simp: d4np_nsem_name_def)

lemma open_posix_ok:
  assumes "cstr m name key" "name \<noteq> NULL" "key \<noteq> []" "length key \<le> 30" "c \<le> SEM_VALUE_MAX s" "ns_names s (47 # key) = None"
  shows "\<exists>s' ob. d4np_named_semaphore_open (\<lambda>_. False) (Some h) name c m s = Some (D4NP_OK, s') \<and>
    ns_handles s' h = Some ob \<and> ns_count s' ob = unat c \<and> SEM_VALUE_MAX s' = SEM_VALUE_MAX s"
  using key_first [OF assms(1)] nsem_name_ok [OF assms(1)] assms(2-6)
  by (auto simp: d4np_named_semaphore_open_def sem_open_def Let_def not_less [symmetric])

section \<open>Properties\<close>

text \<open>C28: in every sequence of calls of any number of processes each semaphore hands out exactly the permits it
  had: those taken are the initial ones plus the posted ones minus the count. A wait returns only with a permit, however
  often signals interrupt it: as soon as one attempt is not interrupted it takes a permit if there is one and waits otherwise, and \<open>trywait\<close> reports which.\<close>

theorem named_semaphore_conserves:
  assumes "(nsem_step refused m)\<^sup>*\<^sup>* (nsem_start v) s" "ns_handles s h = Some ob" "\<not> intr k"
  shows "ns_count s ob + ns_taken s ob = ns_initial s ob + ns_posted s ob \<and>
    d4np_named_semaphore_wait intr (Some h) s = Some (if 0 < ns_count s ob then Returns (take_permit ob s) else Blocks) \<and>
    d4np_named_semaphore_trywait intr (Some h) s = Some (if 0 < ns_count s ob then (True, take_permit ob s) else (False, s))"
proof -
  show ?thesis
    using wait_loop_ok [of intr 0 k] trywait_loop_ok [of intr 0 k] assms(3) nsem_reachable_inv [OF assms(1)] assms(2)
    by (simp add: nsem_inv_def d4np_named_semaphore_wait_def d4np_named_semaphore_trywait_def)
qed

text \<open>Opening the same name twice, from any two processes, gives the same semaphore, with the count of whoever came first; a
  name of 31 characters or more, an empty one and a count above the maximum are refused without any effect.\<close>

theorem named_semaphore_shared:
  assumes "cstr m name key" "name \<noteq> NULL" "\<not> refused (47 # key)" "c \<le> SEM_VALUE_MAX s" "c' \<le> SEM_VALUE_MAX s" "h \<noteq> h'"
    "ns_names s (47 # key) = None"
  shows "(if 1 \<le> length key \<and> length key \<le> 30
     then \<exists>s1 s2 ob. d4np_named_semaphore_open refused (Some h) name c m s = Some (D4NP_OK, s1) \<and>
       d4np_named_semaphore_open refused (Some h') name c' m s1 = Some (D4NP_OK, s2) \<and>
       ns_handles s2 h = Some ob \<and> ns_handles s2 h' = Some ob \<and> ns_count s2 ob = unat c
     else d4np_named_semaphore_open refused (Some h) name c m s = Some (D4NP_ERR_INVALID_ARGUMENT, s))"
  using nsem_name_ok [OF assms(1)] key_first [OF assms(1)] assms(2-7)
  by (auto simp: d4np_named_semaphore_open_def sem_open_def Let_def Suc_le_eq not_less [symmetric] split: if_splits)

text \<open>The name is passed on as it is: a key with a slash in it reaches the system with two slashes, although
  the comment on \<open>d4np_nsem_name\<close> says there is a single one.\<close>

lemma nsem_name_keeps_slashes: "d4np_nsem_name 32 100 \<lparr>bytes = (\<lambda>p. [97, 47, 98, 0] ! (p - 100)), live = [(100, 4)], place = (\<lambda>_. 0), tick = 0\<rparr> =
    Some (Some [47, 97, 47, 98])"
proof -
  let ?m = "\<lparr>bytes = (\<lambda>p. [97, 47, 98, 0] ! (p - 100)), live = [(100, 4)], place = (\<lambda>_. 0), tick = 0\<rparr>"
  have c: "cstr ?m 100 [97, 47, 98]" by (simp add: cstr_def valid_def peek_def upt_rec)
  from strlen_cstr [OF this] show ?thesis by (simp add: d4np_nsem_name_def mem_read_def valid_def peek_def upt_rec)
qed

definition nsem_ex_mem :: mem where
  "nsem_ex_mem = \<lparr>bytes = (\<lambda>p. [107, 0] ! (p - 100)), live = [(100, 2)], place = (\<lambda>_. 0), tick = 0\<rparr>"

lemma nsem_ex_key: "cstr nsem_ex_mem 100 [107]"
  by (simp add: cstr_def nsem_ex_mem_def valid_def peek_def upt_rec)

theorem named_semaphore_shared_witness:
  "\<exists>s1 s2. d4np_named_semaphore_open (\<lambda>_. False) (Some 0) 100 3 nsem_ex_mem (nsem_start 32767) = Some (D4NP_OK, s1) \<and>
     d4np_named_semaphore_open (\<lambda>_. False) (Some 1) 100 9 nsem_ex_mem s1 = Some (D4NP_OK, s2) \<and> ns_handles s2 0 = ns_handles s2 1"
  using named_semaphore_shared [OF nsem_ex_key, of "\<lambda>_. False" 3 "nsem_start 32767" 9 0 1] by (auto simp: nsem_start_def)

definition nsem_ex :: nsem_sys where
  "nsem_ex = (nsem_start 32767)\<lparr>ns_names := [[47, 107] \<mapsto> 0], ns_next := 1, ns_count := (\<lambda>_. 0)(0 := 3), ns_initial := (\<lambda>_. 0)(0 := 3),
     ns_handles := [0 \<mapsto> 0]\<rparr>"

lemma nsem_ex_reachable: "(nsem_step (\<lambda>_. False) nsem_ex_mem)\<^sup>*\<^sup>* (nsem_start 32767) nsem_ex"
proof -
  have "strlen 100 nsem_ex_mem = Some 1" using strlen_cstr [OF nsem_ex_key] by simp
  then have "d4np_nsem_name 32 100 nsem_ex_mem = Some (Some [47, 107])"
    by (simp add: d4np_nsem_name_def mem_read_def nsem_ex_mem_def valid_def peek_def)
  moreover have "read_byte nsem_ex_mem 100 = Some 107" by (simp add: read_byte_def mem_read_def nsem_ex_mem_def valid_def peek_def)
  ultimately have "d4np_named_semaphore_open (\<lambda>_. False) (Some 0) 100 3 nsem_ex_mem (nsem_start 32767) = Some (D4NP_OK, nsem_ex)"
    by (simp add: d4np_named_semaphore_open_def sem_open_def Let_def nsem_ex_def nsem_start_def fun_eq_iff)
  then show ?thesis by (intro r_into_rtranclp nsem_step.ns_open)
qed

theorem named_semaphore_conserves_witness:
  "d4np_named_semaphore_wait (\<lambda>k. k < 5) (Some 0) nsem_ex = Some (Returns (take_permit 0 nsem_ex))"
proof -
  have "ns_handles nsem_ex 0 = Some 0" "ns_count nsem_ex 0 = 3" by (simp_all add: nsem_ex_def)
  with named_semaphore_conserves [OF nsem_ex_reachable, of 0 0 "\<lambda>k. k < 5" 5] show ?thesis by simp
qed

end
