(* ===== verification/Semaphore_Win32.thy ===== *)
theory Semaphore_Win32
  imports Named_Semaphore Semaphore
begin

text \<open>
  The Windows branches of the counting semaphore (\<open>concurrency/semaphore.c\<close>) and of the named one
  (\<open>concurrency/named_semaphore.c\<close>). Both keep a \<open>HANDLE\<close> in the opaque storage of the caller's structure and
  hand every call to the system, whose documented state is: the semaphore objects with their counts, the
  open handles and the names. An object is reclaimed, with its name, when its last handle is closed.
  The structures of all processes are numbered; \<open>None\<close> as the structure is a NULL pointer. A handle that is
  not open is misuse and undefined. Whether the system refuses to create an object is an argument. The histories per
  object are ghost state.
\<close>

section \<open>Definitions\<close>

text \<open>\<open>LONG\<close> has 32 bits.\<close>

definition LONG_MAX :: nat where
  "LONG_MAX = 2147483647"

record win_sys =
  win_names :: "byte list \<Rightarrow> nat option"
  win_next :: nat
  win_next_handle :: nat
  win_count :: "nat \<Rightarrow> nat"
  win_max :: "nat \<Rightarrow> nat"
  win_open :: "(nat \<times> nat) list"
  win_opaque :: "nat \<Rightarrow> nat"
  win_initial :: "nat \<Rightarrow> nat"
  win_taken :: "nat \<Rightarrow> nat"
  win_posted :: "nat \<Rightarrow> nat"

text \<open>The system calls. Handle 0 is \<open>NULL\<close>.\<close>

definition new_handle :: "nat \<Rightarrow> win_sys \<Rightarrow> nat \<times> win_sys" where
  "new_handle ob s = (win_next_handle s,
     s\<lparr>win_open := (win_next_handle s, ob) # win_open s, win_next_handle := win_next_handle s + 1\<rparr>)"

text \<open>\<open>CreateSemaphore\<close> refuses a maximum of zero and an initial count above the maximum; both are ignored when the name exists.\<close>

definition CreateSemaphore :: "bool \<Rightarrow> nat \<Rightarrow> nat \<Rightarrow> byte list option \<Rightarrow> win_sys \<Rightarrow> nat \<times> win_sys" where
  "CreateSemaphore fails initial maximum name s =
     (if fails \<or> maximum = 0 \<or> maximum < initial then (0, s)
      else case Option.bind name (win_names s) of
        Some ob \<Rightarrow> new_handle ob s
      | None \<Rightarrow>
          (let ob = win_next s in
           new_handle ob (s\<lparr>win_next := ob + 1, win_count := (win_count s)(ob := initial), win_max := (win_max s)(ob := maximum),
             win_initial := (win_initial s)(ob := initial), win_taken := (win_taken s)(ob := 0), win_posted := (win_posted s)(ob := 0),
             win_names := (case name of None \<Rightarrow> win_names s | Some nm \<Rightarrow> (win_names s)(nm \<mapsto> ob))\<rparr>)))"

definition CloseHandle :: "nat \<Rightarrow> win_sys \<Rightarrow> win_sys option" where
  "CloseHandle h s = do {
     ob \<leftarrow> map_of (win_open s) h;
     let rest = filter (\<lambda>(g, _). g \<noteq> h) (win_open s);
     Some (s\<lparr>win_open := rest,
       win_names := (if ob \<in> snd ` set rest then win_names s else (\<lambda>nm. if win_names s nm = Some ob then None else win_names s nm))\<rparr>) }"

text \<open>\<open>WaitForSingleObject\<close> without a time limit and with the limit 0, \<open>ReleaseSemaphore\<close> of one permit.\<close>

definition win_take :: "nat \<Rightarrow> win_sys \<Rightarrow> win_sys" where
  "win_take ob s = s\<lparr>win_count := (win_count s)(ob := win_count s ob - 1), win_taken := (win_taken s)(ob := win_taken s ob + 1)\<rparr>"

definition WaitForSingleObject_INFINITE :: "nat \<Rightarrow> win_sys \<Rightarrow> win_sys outcome option" where
  "WaitForSingleObject_INFINITE h s = do {
     ob \<leftarrow> map_of (win_open s) h;
     Some (if 0 < win_count s ob then Returns (win_take ob s) else Blocks) }"

definition WaitForSingleObject_0 :: "nat \<Rightarrow> win_sys \<Rightarrow> (bool \<times> win_sys) option" where
  "WaitForSingleObject_0 h s = do {
     ob \<leftarrow> map_of (win_open s) h;
     Some (if 0 < win_count s ob then (True, win_take ob s) else (False, s)) }"

definition ReleaseSemaphore :: "nat \<Rightarrow> win_sys \<Rightarrow> (bool \<times> win_sys) option" where
  "ReleaseSemaphore h s = do {
     ob \<leftarrow> map_of (win_open s) h;
     Some (if win_count s ob < win_max s ob
           then (True, s\<lparr>win_count := (win_count s)(ob := win_count s ob + 1), win_posted := (win_posted s)(ob := win_posted s ob + 1)\<rparr>)
           else (False, s)) }"

text \<open>The semaphore of one process.\<close>

definition d4np_semaphore_init_win32 :: "bool \<Rightarrow> nat option \<Rightarrow> 32 word \<Rightarrow> win_sys \<Rightarrow> d4np_status \<times> win_sys" where
  "d4np_semaphore_init_win32 fails s initial_count w =
     (case s of
        None \<Rightarrow> (D4NP_ERR_INVALID_ARGUMENT, w)
      | Some loc \<Rightarrow>
          if LONG_MAX < unat initial_count then (D4NP_ERR_INVALID_ARGUMENT, w)
          else let (h, w1) = CreateSemaphore fails (unat initial_count) LONG_MAX None w in
            if h = 0 then (D4NP_ERR_INTERNAL, w1)
            else (D4NP_OK, w1\<lparr>win_opaque := (win_opaque w1)(loc := h)\<rparr>))"

definition d4np_semaphore_destroy_win32 :: "nat option \<Rightarrow> win_sys \<Rightarrow> win_sys option" where
  "d4np_semaphore_destroy_win32 s w = (case s of None \<Rightarrow> Some w | Some loc \<Rightarrow> CloseHandle (win_opaque w loc) w)"

definition d4np_semaphore_wait_win32 :: "nat option \<Rightarrow> win_sys \<Rightarrow> win_sys outcome option" where
  "d4np_semaphore_wait_win32 s w = (case s of None \<Rightarrow> None | Some loc \<Rightarrow> WaitForSingleObject_INFINITE (win_opaque w loc) w)"

definition d4np_semaphore_trywait_win32 :: "nat option \<Rightarrow> win_sys \<Rightarrow> (bool \<times> win_sys) option" where
  "d4np_semaphore_trywait_win32 s w = (case s of None \<Rightarrow> Some (False, w) | Some loc \<Rightarrow> WaitForSingleObject_0 (win_opaque w loc) w)"

definition d4np_semaphore_post_win32 :: "nat option \<Rightarrow> win_sys \<Rightarrow> win_sys option" where
  "d4np_semaphore_post_win32 s w =
     (case s of None \<Rightarrow> None | Some loc \<Rightarrow> do { (ok, w1) \<leftarrow> ReleaseSemaphore (win_opaque w loc) w; Some w1 })"

text \<open>The named semaphore. \<open>CreateSemaphoreA\<close> reads the name up to its terminator.\<close>

definition d4np_named_semaphore_open_win32 ::
  "bool \<Rightarrow> nat option \<Rightarrow> ptr \<Rightarrow> 32 word \<Rightarrow> mem \<Rightarrow> win_sys \<Rightarrow> (d4np_status \<times> win_sys) option" where
  "d4np_named_semaphore_open_win32 fails s name initial_count m w =
     (case s of
        None \<Rightarrow> Some (D4NP_ERR_INVALID_ARGUMENT, w)
      | Some loc \<Rightarrow>
          if name = NULL then Some (D4NP_ERR_INVALID_ARGUMENT, w)
          else do {
            c \<leftarrow> read_byte m name;
            if c = 0 \<or> LONG_MAX < unat initial_count then Some (D4NP_ERR_INVALID_ARGUMENT, w)
            else do {
              len \<leftarrow> strlen name m;
              key \<leftarrow> mem_read m name len;
              let (h, w1) = CreateSemaphore fails (unat initial_count) LONG_MAX (Some key) w;
              Some (if h = 0 then (D4NP_ERR_INTERNAL, w1) else (D4NP_OK, w1\<lparr>win_opaque := (win_opaque w1)(loc := h)\<rparr>)) } })"

definition d4np_named_semaphore_close_win32 :: "nat option \<Rightarrow> win_sys \<Rightarrow> win_sys option" where
  "d4np_named_semaphore_close_win32 s w = (case s of None \<Rightarrow> Some w | Some loc \<Rightarrow> CloseHandle (win_opaque w loc) w)"

definition d4np_named_semaphore_unlink_win32 :: "ptr \<Rightarrow> mem \<Rightarrow> d4np_status option" where
  "d4np_named_semaphore_unlink_win32 name m =
     (if name = NULL then Some D4NP_ERR_INVALID_ARGUMENT
      else do { c \<leftarrow> read_byte m name; Some (if c = 0 then D4NP_ERR_INVALID_ARGUMENT else D4NP_OK) })"

definition d4np_named_semaphore_wait_win32 :: "nat option \<Rightarrow> win_sys \<Rightarrow> win_sys outcome option" where
  "d4np_named_semaphore_wait_win32 s w = (case s of None \<Rightarrow> None | Some loc \<Rightarrow> WaitForSingleObject_INFINITE (win_opaque w loc) w)"

definition d4np_named_semaphore_trywait_win32 :: "nat option \<Rightarrow> win_sys \<Rightarrow> (bool \<times> win_sys) option" where
  "d4np_named_semaphore_trywait_win32 s w = (case s of None \<Rightarrow> Some (False, w) | Some loc \<Rightarrow> WaitForSingleObject_0 (win_opaque w loc) w)"

definition d4np_named_semaphore_post_win32 :: "nat option \<Rightarrow> win_sys \<Rightarrow> win_sys option" where
  "d4np_named_semaphore_post_win32 s w =
     (case s of None \<Rightarrow> None | Some loc \<Rightarrow> do { (ok, w1) \<leftarrow> ReleaseSemaphore (win_opaque w loc) w; Some w1 })"

section \<open>The processes together\<close>

text \<open>The calls of all processes in any order; a wait that would block does not take place.\<close>

inductive win_step :: "mem \<Rightarrow> win_sys \<Rightarrow> win_sys \<Rightarrow> bool" for m where
  ws_init: "d4np_semaphore_init_win32 fails l c w = (rc, w') \<Longrightarrow> win_step m w w'"
| ws_destroy: "d4np_semaphore_destroy_win32 l w = Some w' \<Longrightarrow> win_step m w w'"
| ws_wait: "d4np_semaphore_wait_win32 l w = Some (Returns w') \<Longrightarrow> win_step m w w'"
| ws_trywait: "d4np_semaphore_trywait_win32 l w = Some (b, w') \<Longrightarrow> win_step m w w'"
| ws_post: "d4np_semaphore_post_win32 l w = Some w' \<Longrightarrow> win_step m w w'"
| ws_open_named: "d4np_named_semaphore_open_win32 fails l name c m w = Some (rc, w') \<Longrightarrow> win_step m w w'"
| ws_close_named: "d4np_named_semaphore_close_win32 l w = Some w' \<Longrightarrow> win_step m w w'"
| ws_wait_named: "d4np_named_semaphore_wait_win32 l w = Some (Returns w') \<Longrightarrow> win_step m w w'"
| ws_trywait_named: "d4np_named_semaphore_trywait_win32 l w = Some (b, w') \<Longrightarrow> win_step m w w'"
| ws_post_named: "d4np_named_semaphore_post_win32 l w = Some w' \<Longrightarrow> win_step m w w'"

definition win_start :: win_sys where
  "win_start = \<lparr>win_names = Map.empty, win_next = 0, win_next_handle = 1, win_count = (\<lambda>_. 0), win_max = (\<lambda>_. 0), win_open = [], win_opaque = (\<lambda>_. 0),
     win_initial = (\<lambda>_. 0), win_taken = (\<lambda>_. 0), win_posted = (\<lambda>_. 0)\<rparr>"

text \<open>Permits are accounted for; handles are distinct and refer to objects that exist; a name stands for an
  object that somebody has open.\<close>

definition win_permits_ok :: "win_sys \<Rightarrow> bool" where
  "win_permits_ok w \<longleftrightarrow> (\<forall>ob. win_count w ob + win_taken w ob = win_initial w ob + win_posted w ob \<and> win_count w ob \<le> win_max w ob)"

definition win_handles_ok :: "win_sys \<Rightarrow> bool" where
  "win_handles_ok w \<longleftrightarrow> (\<forall>h ob. (h, ob) \<in> set (win_open w) \<longrightarrow> 0 < h \<and> h < win_next_handle w \<and> ob < win_next w) \<and>
     0 < win_next_handle w \<and> distinct (map fst (win_open w))"

definition win_names_ok :: "win_sys \<Rightarrow> bool" where
  "win_names_ok w \<longleftrightarrow> (\<forall>nm ob. win_names w nm = Some ob \<longrightarrow> (\<exists>h. (h, ob) \<in> set (win_open w)))"

definition win_inv :: "win_sys \<Rightarrow> bool" where
  "win_inv w \<longleftrightarrow> win_permits_ok w \<and> win_handles_ok w \<and> win_names_ok w"

lemma win_inv_opaque [simp]: "win_inv (w\<lparr>win_opaque := f\<rparr>) = win_inv w"
  by (simp add: win_inv_def win_permits_ok_def win_handles_ok_def win_names_ok_def)

text \<open>A handle on an object that exists; the object may just have been given a name.\<close>

lemma new_handle_inv:
  assumes "win_permits_ok w" "win_handles_ok w" "ob < win_next w"
    "\<And>nm ob'. win_names w nm = Some ob' \<Longrightarrow> ob' = ob \<or> (\<exists>h. (h, ob') \<in> set (win_open w))"
  shows "win_inv (snd (new_handle ob w))"
proof -
  have "win_permits_ok (snd (new_handle ob w))" using assms(1) by (simp add: win_permits_ok_def new_handle_def)
  moreover have "win_handles_ok (snd (new_handle ob w))"
    using assms(2,3) by (fastforce simp: win_handles_ok_def new_handle_def less_Suc_eq)
  moreover have "win_names_ok (snd (new_handle ob w))" using assms(4) by (fastforce simp: win_names_ok_def new_handle_def)
  ultimately show ?thesis by (simp add: win_inv_def)
qed

lemma CreateSemaphore_inv:
  assumes "win_inv w" "CreateSemaphore fails initial maximum name w = (h, w')"
  shows "win_inv w'"
proof (cases "fails \<or> maximum = 0 \<or> maximum < initial")
  case True
  then show ?thesis using assms by (simp add: CreateSemaphore_def)
next
  case ok: False
  show ?thesis
  proof (cases "Option.bind name (win_names w)")
    case (Some ob)
    then obtain nm where "win_names w nm = Some ob" by (auto simp: bind_eq_Some_conv)
    then have "ob < win_next w" using assms(1) unfolding win_inv_def win_names_ok_def win_handles_ok_def by blast
    then have "win_inv (snd (new_handle ob w))" using assms(1) by (intro new_handle_inv) (auto simp: win_inv_def win_names_ok_def)
    then show ?thesis using assms(2) ok Some by (auto simp: CreateSemaphore_def)
  next
    case None
    let ?N = "case name of None \<Rightarrow> win_names w | Some nm \<Rightarrow> (win_names w)(nm \<mapsto> win_next w)"
    let ?w = "w\<lparr>win_next := win_next w + 1, win_count := (win_count w)(win_next w := initial),
        win_max := (win_max w)(win_next w := maximum), win_initial := (win_initial w)(win_next w := initial),
        win_taken := (win_taken w)(win_next w := 0), win_posted := (win_posted w)(win_next w := 0), win_names := ?N\<rparr>"
    have "win_inv (snd (new_handle (win_next w) ?w))"
    proof (rule new_handle_inv)
      show "win_permits_ok ?w" using assms(1) ok by (simp add: win_inv_def win_permits_ok_def)
      show "win_handles_ok ?w" using assms(1) by (auto simp: win_inv_def win_handles_ok_def less_Suc_eq)
      show "ob' = win_next w \<or> (\<exists>h. (h, ob') \<in> set (win_open ?w))" if "win_names ?w nm = Some ob'" for nm ob'
        using that assms(1) by (auto simp: win_inv_def win_names_ok_def split: option.splits if_splits)
    qed simp
    then show ?thesis using assms(2) ok None by (auto simp: CreateSemaphore_def Let_def)
  qed
qed

lemma CloseHandle_inv:
  assumes "win_inv w" "CloseHandle h w = Some w'"
  shows "win_inv w'"
proof -
  let ?rest = "filter (\<lambda>(g, _). g \<noteq> h) (win_open w)"
  obtain ob where ob: "map_of (win_open w) h = Some ob"
    "w' = w\<lparr>win_open := ?rest, win_names := (if ob \<in> snd ` set ?rest then win_names w
       else (\<lambda>nm. if win_names w nm = Some ob then None else win_names w nm))\<rparr>"
    using assms(2) by (auto simp: CloseHandle_def bind_eq_Some_conv Let_def)
  have "(g, ob') \<in> set ?rest" if "(g, ob') \<in> set (win_open w)" "ob' \<noteq> ob" for g ob'
  proof -
    have "map_of (win_open w) g = Some ob'" using that(1) assms(1) by (simp add: win_inv_def win_handles_ok_def)
    then show ?thesis using that ob(1) by auto
  qed
  then have "win_names_ok w'" using assms(1) by (fastforce simp: ob(2) win_inv_def win_names_ok_def)
  moreover have "win_permits_ok w'" "win_handles_ok w'"
    using assms(1) by (auto simp: ob(2) win_inv_def win_permits_ok_def win_handles_ok_def distinct_map_filter)
  ultimately show ?thesis by (simp add: win_inv_def)
qed

lemma win_take_inv:
  assumes "win_inv w" "0 < win_count w ob"
  shows "win_inv (win_take ob w)"
proof -
  obtain n where n: "win_count w ob = Suc n" using assms(2) by (cases "win_count w ob") auto
  have p: "win_count w x + win_taken w x = win_initial w x + win_posted w x" "win_count w x \<le> win_max w x" for x
    using assms(1) by (simp_all add: win_inv_def win_permits_ok_def)
  have "win_permits_ok (win_take ob w)" using p p [of ob] n by (simp add: win_permits_ok_def win_take_def)
  then show ?thesis using assms(1) by (simp add: win_inv_def win_take_def win_handles_ok_def win_names_ok_def)
qed

lemma wait_infinite_inv: "win_inv w \<Longrightarrow> WaitForSingleObject_INFINITE h w = Some (Returns w') \<Longrightarrow> win_inv w'"
  by (auto simp: WaitForSingleObject_INFINITE_def bind_eq_Some_conv win_take_inv split: if_splits)

lemma wait_zero_inv: "win_inv w \<Longrightarrow> WaitForSingleObject_0 h w = Some (b, w') \<Longrightarrow> win_inv w'"
  by (auto simp: WaitForSingleObject_0_def bind_eq_Some_conv win_take_inv split: if_splits)

lemma release_inv: "win_inv w \<Longrightarrow> ReleaseSemaphore h w = Some (b, w') \<Longrightarrow> win_inv w'"
  by (auto simp: ReleaseSemaphore_def bind_eq_Some_conv win_inv_def win_permits_ok_def win_handles_ok_def win_names_ok_def split: if_splits)

lemmas win_call_defs = d4np_semaphore_destroy_win32_def d4np_semaphore_wait_win32_def
  d4np_semaphore_trywait_win32_def d4np_semaphore_post_win32_def
  d4np_named_semaphore_close_win32_def d4np_named_semaphore_wait_win32_def d4np_named_semaphore_trywait_win32_def
  d4np_named_semaphore_post_win32_def

lemma init_win32_inv: "win_inv w \<Longrightarrow> d4np_semaphore_init_win32 fails l c w = (rc, w') \<Longrightarrow> win_inv w'"
  by (auto simp: d4np_semaphore_init_win32_def Let_def not_less split: option.splits if_splits prod.splits dest: CreateSemaphore_inv)

lemma open_win32_inv:
  assumes "win_inv w" "d4np_named_semaphore_open_win32 fails l name c m w = Some (rc, w')"
  shows "win_inv w'"
proof -
  have create: "win_inv (snd (CreateSemaphore fails (unat c) LONG_MAX nm w))" for nm
    by (rule CreateSemaphore_inv [OF assms(1) prod.collapse [symmetric]])
  show ?thesis using assms create
    by (auto simp: d4np_named_semaphore_open_win32_def Let_def not_less bind_eq_Some_conv case_prod_unfold split: option.splits if_splits)
qed

lemma win_step_inv: "win_step m w w' \<Longrightarrow> win_inv w \<Longrightarrow> win_inv w'"
  by (induction rule: win_step.induct)
    (auto simp: win_call_defs bind_eq_Some_conv split: option.splits
      intro: init_win32_inv open_win32_inv CloseHandle_inv wait_infinite_inv wait_zero_inv release_inv)

lemma win_reachable_inv: "(win_step m)\<^sup>*\<^sup>* win_start w \<Longrightarrow> win_inv w"
proof (induction rule: rtranclp_induct)
  case base
  show ?case by (simp add: win_inv_def win_permits_ok_def win_handles_ok_def win_names_ok_def win_start_def)
qed (rule win_step_inv)

section \<open>The contract\<close>

interpretation win_sem: permit_contract "\<lambda>w. map_of (win_open w) (win_opaque w loc) = Some ob \<and> win_max w ob = mx" "\<lambda>w. win_count w ob" mx
    "d4np_semaphore_wait_win32 (Some loc)" "d4np_semaphore_trywait_win32 (Some loc)" "d4np_semaphore_post_win32 (Some loc)" for loc ob mx
  by unfold_locales
    (auto simp: win_call_defs WaitForSingleObject_INFINITE_def WaitForSingleObject_0_def ReleaseSemaphore_def win_take_def)

interpretation win_named: permit_contract "\<lambda>w. map_of (win_open w) (win_opaque w loc) = Some ob \<and> win_max w ob = mx" "\<lambda>w. win_count w ob" mx
    "d4np_named_semaphore_wait_win32 (Some loc)" "d4np_named_semaphore_trywait_win32 (Some loc)" "d4np_named_semaphore_post_win32 (Some loc)"
    for loc ob mx
  by unfold_locales
    (auto simp: win_call_defs WaitForSingleObject_INFINITE_def WaitForSingleObject_0_def ReleaseSemaphore_def win_take_def)

text \<open>Opening attaches to the object of that name, or makes one with the given count.\<close>

lemma open_win32_ok:
  assumes "cstr m name key" "name \<noteq> NULL" "key \<noteq> []" "unat c \<le> LONG_MAX" "0 < win_next_handle w"
  shows "\<exists>w' ob. d4np_named_semaphore_open_win32 False (Some loc) name c m w = Some (D4NP_OK, w') \<and>
    map_of (win_open w') (win_opaque w' loc) = Some ob \<and> win_names w' key = Some ob \<and>
    (case win_names w key of Some ob' \<Rightarrow> ob = ob' \<and> win_count w' ob = win_count w ob 
     | None \<Rightarrow> ob = win_next w \<and> win_count w' ob = unat c \<and> win_max w' ob = LONG_MAX)"
  using key_first [OF assms(1)] key_read [OF assms(1)] strlen_cstr [OF assms(1)] assms(2-5)
  by (auto simp: d4np_named_semaphore_open_win32_def CreateSemaphore_def new_handle_def LONG_MAX_def Let_def split: option.splits)

lemma init_win32_ok:
  assumes "unat c \<le> LONG_MAX" "0 < win_next_handle w"
  shows "\<exists>w'. d4np_semaphore_init_win32 False (Some loc) c w = (D4NP_OK, w') \<and> map_of (win_open w') (win_opaque w' loc) = Some (win_next w) \<and>
    win_count w' (win_next w) = unat c \<and> win_max w' (win_next w) = LONG_MAX"
  using assms by (simp add: d4np_semaphore_init_win32_def CreateSemaphore_def new_handle_def LONG_MAX_def Let_def)

text \<open>Closing keeps the names of an object exactly as long as another handle refers to it.\<close>

lemma CloseHandle_ok:
  assumes "map_of (win_open w) h = Some ob"
  shows "\<exists>w1. CloseHandle h w = Some w1 \<and> win_count w1 = win_count w \<and> win_next w1 = win_next w \<and>
    (\<forall>nm. win_names w nm = Some ob \<longrightarrow> win_names w1 nm = (if \<exists>g. g \<noteq> h \<and> (g, ob) \<in> set (win_open w) then Some ob else None))"
proof -
  have "ob \<in> snd ` set (filter (\<lambda>(g, _). g \<noteq> h) (win_open w)) \<longleftrightarrow> (\<exists>g. g \<noteq> h \<and> (g, ob) \<in> set (win_open w))" by force
  then show ?thesis using assms by (auto simp: CloseHandle_def Let_def)
qed

section \<open>Properties\<close>

text \<open>C29: a key that no process has open, opened on a POSIX system and on Windows with the same count, gives semaphores that count alike: on each platform every
  sequence of waits, attempts and posts is answered as by a counter with that initial value and the platform's ceiling, \<open>SEM_VALUE_MAX\<close> there and
  the \<open>LONG_MAX\<close> handed to \<open>CreateSemaphoreA\<close> here, however often signals interrupt the POSIX calls. As long as the posts stay below both
  ceilings, and always when the ceilings are equal, the two answer alike, so that programs cannot tell the platforms apart.\<close>

theorem named_semaphore_platforms_agree:
  assumes "cstr m name key" "name \<noteq> NULL" "key \<noteq> []" "length key \<le> 30" "c \<le> SEM_VALUE_MAX s" "unat c \<le> LONG_MAX"
    "ns_names s (47 # key) = None" "win_names w key = None" "win_inv w"
  shows "\<exists>s1 w1. d4np_named_semaphore_open (\<lambda>_. False) (Some h) name c m s = Some (D4NP_OK, s1) \<and>
    d4np_named_semaphore_open_win32 False (Some loc) name c m w = Some (D4NP_OK, w1) \<and>
    (\<forall>cs i. \<exists>as bs s2 w2. permit_run (d4np_named_semaphore_wait (\<lambda>k. k < i) (Some h)) (d4np_named_semaphore_trywait (\<lambda>k. k < i) (Some h))
         (d4np_named_semaphore_post (Some h)) cs s1 = Some (as, s2) \<and>
       permit_run (d4np_named_semaphore_wait_win32 (Some loc)) (d4np_named_semaphore_trywait_win32 (Some loc))
         (d4np_named_semaphore_post_win32 (Some loc)) cs w1 = Some (bs, w2) \<and>
       as = fst (counter_run (unat (SEM_VALUE_MAX s)) cs (unat c)) \<and> bs = fst (counter_run LONG_MAX cs (unat c)) \<and>
       (unat c + count_list cs Post \<le> min (unat (SEM_VALUE_MAX s)) LONG_MAX \<or> unat (SEM_VALUE_MAX s) = LONG_MAX \<longrightarrow> as = bs))"
proof -
  have "0 < win_next_handle w" using assms(9) by (simp add: win_inv_def win_handles_ok_def)
  then obtain w1 ob where w1: "d4np_named_semaphore_open_win32 False (Some loc) name c m w = Some (D4NP_OK, w1)"
      "map_of (win_open w1) (win_opaque w1 loc) = Some ob \<and> win_max w1 ob = LONG_MAX" "win_count w1 ob = unat c"
    using open_win32_ok [OF assms(1-3), of c w loc] assms(6,8) by auto
  obtain s1 ob' where s1: "d4np_named_semaphore_open (\<lambda>_. False) (Some h) name c m s = Some (D4NP_OK, s1)"
      "ns_handles s1 h = Some ob' \<and> SEM_VALUE_MAX s1 = SEM_VALUE_MAX s" "ns_count s1 ob' = unat c"
    using open_posix_ok [OF assms(1-5,7), of h] by blast
  have "counter_run (unat (SEM_VALUE_MAX s)) cs (unat c) = counter_run LONG_MAX cs (unat c)"
    if "unat c + count_list cs Post \<le> min (unat (SEM_VALUE_MAX s)) LONG_MAX \<or> unat (SEM_VALUE_MAX s) = LONG_MAX" for cs
    using that counter_run_below [of "unat c" cs] by auto
  then show ?thesis using w1 s1 nsem.run_refines [OF s1(2)] win_named.run_refines [OF w1(2)] by fastforce
qed

text \<open>On Windows an object lives as long as somebody has it open: after one process closes it, the name still
  stands for it, with its count, exactly when another handle on it is open, and otherwise the next opener starts a new
  one with a count of its own. In every history of calls its permits are conserved.\<close>

theorem named_semaphore_win32_lifetime:
  assumes "(win_step m)\<^sup>*\<^sup>* win_start w" "win_names w key = Some ob" "map_of (win_open w) (win_opaque w loc) = Some ob"
    "cstr m name key" "name \<noteq> NULL" "key \<noteq> []" "unat c \<le> LONG_MAX"
  shows "win_count w ob + win_taken w ob = win_initial w ob + win_posted w ob \<and>
    (\<exists>w1 w2 ob'. d4np_named_semaphore_close_win32 (Some loc) w = Some w1 \<and>
       d4np_named_semaphore_open_win32 False (Some loc') name c m w1 = Some (D4NP_OK, w2) \<and>
       map_of (win_open w2) (win_opaque w2 loc') = Some ob' \<and>
       (if \<exists>h. h \<noteq> win_opaque w loc \<and> (h, ob) \<in> set (win_open w) then ob' = ob \<and> win_count w2 ob' = win_count w ob
        else ob' \<noteq> ob \<and> win_count w2 ob' = unat c))"
proof -
  have inv: "win_inv w" by (rule win_reachable_inv [OF assms(1)])
  let ?h = "win_opaque w loc"
  obtain w1 where w1: "CloseHandle ?h w = Some w1" "win_count w1 = win_count w" "win_next w1 = win_next w"
      "win_names w1 key = (if \<exists>h. h \<noteq> ?h \<and> (h, ob) \<in> set (win_open w) then Some ob else None)"
    using CloseHandle_ok [OF assms(3)] assms(2) by auto
  have "win_inv w1" by (rule CloseHandle_inv [OF inv w1(1)])
  then have "0 < win_next_handle w1" by (simp add: win_inv_def win_handles_ok_def)
  note o = open_win32_ok [OF assms(4-7) this, of loc']
  have "ob < win_next w" using inv map_of_SomeD [OF assms(3)] unfolding win_inv_def win_handles_ok_def by blast
  moreover have "win_count w ob + win_taken w ob = win_initial w ob + win_posted w ob" using inv by (simp add: win_inv_def win_permits_ok_def)
  ultimately show ?thesis using o w1 by (auto simp: d4np_named_semaphore_close_win32_def split: if_splits)
qed

text \<open>The semaphore of one process on Windows is such a counter as well, from \<open>init\<close> on; a count above the ceiling is refused.\<close>

theorem semaphore_win32_counts:
  assumes "win_inv w"
  shows "\<exists>rc w1. d4np_semaphore_init_win32 False (Some loc) c w = (rc, w1) \<and>
    (if LONG_MAX < unat c then rc = D4NP_ERR_INVALID_ARGUMENT \<and> w1 = w
     else rc = D4NP_OK \<and> (\<forall>cs. \<exists>w2 ob. permit_run (d4np_semaphore_wait_win32 (Some loc)) (d4np_semaphore_trywait_win32 (Some loc))
       (d4np_semaphore_post_win32 (Some loc)) cs w1 = Some (fst (counter_run LONG_MAX cs (unat c)), w2) \<and>
       map_of (win_open w2) (win_opaque w2 loc) = Some ob \<and> win_count w2 ob = snd (counter_run LONG_MAX cs (unat c)) \<and>
       d4np_semaphore_destroy_win32 (Some loc) w2 \<noteq> None))"
proof (cases "LONG_MAX < unat c")
  case True
  then show ?thesis by (simp add: d4np_semaphore_init_win32_def)
next
  case False
  have "0 < win_next_handle w" using assms by (simp add: win_inv_def win_handles_ok_def)
  then obtain w1 ob where w1: "d4np_semaphore_init_win32 False (Some loc) c w = (D4NP_OK, w1)"
      "map_of (win_open w1) (win_opaque w1 loc) = Some ob \<and> win_max w1 ob = LONG_MAX" "win_count w1 ob = unat c"
    using init_win32_ok [of c w loc] False by auto
  have "\<exists>w2 ob. permit_run (d4np_semaphore_wait_win32 (Some loc)) (d4np_semaphore_trywait_win32 (Some loc))
       (d4np_semaphore_post_win32 (Some loc)) cs w1 = Some (fst (counter_run LONG_MAX cs (unat c)), w2) \<and>
       map_of (win_open w2) (win_opaque w2 loc) = Some ob \<and> win_count w2 ob = snd (counter_run LONG_MAX cs (unat c)) \<and>
       d4np_semaphore_destroy_win32 (Some loc) w2 \<noteq> None" for cs
  proof -
    obtain w2 where w2: "permit_run (d4np_semaphore_wait_win32 (Some loc)) (d4np_semaphore_trywait_win32 (Some loc))
        (d4np_semaphore_post_win32 (Some loc)) cs w1 = Some (fst (counter_run LONG_MAX cs (unat c)), w2)"
      "map_of (win_open w2) (win_opaque w2 loc) = Some ob" "win_count w2 ob = snd (counter_run LONG_MAX cs (unat c))"
      using win_sem.run_refines [OF w1(2), of cs] w1(3) by auto
    then show ?thesis using CloseHandle_ok [OF w2(2)] by (auto simp: d4np_semaphore_destroy_win32_def)
  qed
  then show ?thesis using w1(1) False by auto
qed

text \<open>Both platforms start empty; the key \<open>"k"\<close> is opened with one permit, which is taken, waited for, posted and taken again.\<close>

theorem named_semaphore_platforms_agree_witness:
  "\<exists>s1 w1 s2 w2. d4np_named_semaphore_open (\<lambda>_. False) (Some 0) 100 1 nsem_ex_mem (nsem_start 32767) = Some (D4NP_OK, s1) \<and>
     d4np_named_semaphore_open_win32 False (Some 0) 100 1 nsem_ex_mem win_start = Some (D4NP_OK, w1) \<and>
     permit_run (d4np_named_semaphore_wait (\<lambda>k. k < 2) (Some 0)) (d4np_named_semaphore_trywait (\<lambda>k. k < 2) (Some 0))
       (d4np_named_semaphore_post (Some 0)) [Wait, Try_Wait, Wait, Post, Try_Wait] s1 = Some ([Taken, Refused, Waiting, Posted, Taken], s2) \<and>
     permit_run (d4np_named_semaphore_wait_win32 (Some 0)) (d4np_named_semaphore_trywait_win32 (Some 0))
       (d4np_named_semaphore_post_win32 (Some 0)) [Wait, Try_Wait, Wait, Post, Try_Wait] w1 = Some ([Taken, Refused, Waiting, Posted, Taken], w2)"
proof -
  let ?cs = "[Wait, Try_Wait, Wait, Post, Try_Wait]" and ?as = "[Taken, Refused, Waiting, Posted, Taken]"
  have r: "fst (counter_run LONG_MAX ?cs (unat (1 :: 32 word))) = ?as" by (simp add: LONG_MAX_def)
  have l: "unat (1 :: 32 word) + count_list ?cs Post \<le> min (unat (SEM_VALUE_MAX (nsem_start 32767))) LONG_MAX"
    by (simp add: nsem_start_def LONG_MAX_def)
  have p: "(1 :: 32 word) \<le> SEM_VALUE_MAX (nsem_start 32767)" "unat (1 :: 32 word) \<le> LONG_MAX" "ns_names (nsem_start 32767) [47, 107] = None"
    "win_names win_start [107] = None" "win_inv win_start" "(100 :: ptr) \<noteq> NULL" "[107 :: byte] \<noteq> []" "length [107 :: byte] \<le> 30"
    by (simp_all add: nsem_start_def win_start_def LONG_MAX_def win_inv_def win_permits_ok_def win_handles_ok_def win_names_ok_def)
  from named_semaphore_platforms_agree [OF nsem_ex_key p(6-8,1-5), of 0 0] obtain s1 w1 where
    o: "d4np_named_semaphore_open (\<lambda>_. False) (Some 0) 100 1 nsem_ex_mem (nsem_start 32767) = Some (D4NP_OK, s1)"
      "d4np_named_semaphore_open_win32 False (Some 0) 100 1 nsem_ex_mem win_start = Some (D4NP_OK, w1)"
    and a: "\<forall>cs i. \<exists>as bs s2 w2. permit_run (d4np_named_semaphore_wait (\<lambda>k. k < i) (Some 0)) (d4np_named_semaphore_trywait (\<lambda>k. k < i) (Some 0))
         (d4np_named_semaphore_post (Some 0)) cs s1 = Some (as, s2) \<and>
       permit_run (d4np_named_semaphore_wait_win32 (Some 0)) (d4np_named_semaphore_trywait_win32 (Some 0))
         (d4np_named_semaphore_post_win32 (Some 0)) cs w1 = Some (bs, w2) \<and>
       as = fst (counter_run (unat (SEM_VALUE_MAX (nsem_start 32767))) cs (unat (1 :: 32 word))) \<and> bs = fst (counter_run LONG_MAX cs (unat (1 :: 32 word))) \<and>
       (unat (1 :: 32 word) + count_list cs Post \<le> min (unat (SEM_VALUE_MAX (nsem_start 32767))) LONG_MAX \<or>
        unat (SEM_VALUE_MAX (nsem_start 32767)) = LONG_MAX \<longrightarrow> as = bs)"
    by blast
  from spec [OF spec [OF a, of ?cs], of 2] l r show ?thesis using o by metis
qed

text \<open>One process has opened the key with three permits and closes it: the next opener gets its own nine.\<close>

definition win_ex :: win_sys where
  "win_ex = snd (the (d4np_named_semaphore_open_win32 False (Some 0) 100 3 nsem_ex_mem win_start))"

lemma win_ex_open: "d4np_named_semaphore_open_win32 False (Some 0) 100 3 nsem_ex_mem win_start = Some (D4NP_OK, win_ex)"
  "win_names win_ex [107] = Some 0" "map_of (win_open win_ex) (win_opaque win_ex 0) = Some 0" "win_open win_ex = [(1, 0)]" "win_opaque win_ex 0 = 1"
proof -
  have "read_byte nsem_ex_mem 100 = Some 107" by (simp add: read_byte_def mem_read_def nsem_ex_mem_def valid_def peek_def)
  moreover have "mem_read nsem_ex_mem 100 1 = Some [107]" using key_read [OF nsem_ex_key] by simp
  moreover have "strlen 100 nsem_ex_mem = Some 1" using strlen_cstr [OF nsem_ex_key] by simp
  ultimately have "d4np_named_semaphore_open_win32 False (Some 0) 100 3 nsem_ex_mem win_start =
      Some (let (h, w1) = CreateSemaphore False 3 LONG_MAX (Some [107]) win_start in (D4NP_OK, w1\<lparr>win_opaque := (win_opaque w1)(0 := h)\<rparr>))"
    by (simp add: d4np_named_semaphore_open_win32_def LONG_MAX_def CreateSemaphore_def new_handle_def Let_def win_start_def)
  then show "d4np_named_semaphore_open_win32 False (Some 0) 100 3 nsem_ex_mem win_start = Some (D4NP_OK, win_ex)"
    "win_names win_ex [107] = Some 0" "map_of (win_open win_ex) (win_opaque win_ex 0) = Some 0" "win_open win_ex = [(1, 0)]" "win_opaque win_ex 0 = 1"
    by (simp_all add: win_ex_def CreateSemaphore_def new_handle_def LONG_MAX_def Let_def win_start_def)
qed

theorem named_semaphore_win32_lifetime_witness:
  "\<exists>w1 w2 ob'. d4np_named_semaphore_close_win32 (Some 0) win_ex = Some w1 \<and>
     d4np_named_semaphore_open_win32 False (Some 0) 100 9 nsem_ex_mem w1 = Some (D4NP_OK, w2) \<and> win_count w2 ob' = 9 \<and> ob' \<noteq> 0"
proof -
  have "(win_step nsem_ex_mem)\<^sup>*\<^sup>* win_start win_ex" using win_step.ws_open_named [OF win_ex_open(1)] by (rule r_into_rtranclp)
  from named_semaphore_win32_lifetime [OF this win_ex_open(2,3) nsem_ex_key, of 9 0] show ?thesis
    by (auto simp: LONG_MAX_def win_ex_open)
qed

end
