(* ===== verification/Thread_Pool_Win32.thy ===== *)
theory Thread_Pool_Win32
  imports Thread_Pool_Semaphore Semaphore_Win32
begin

text \<open>
  The thread pool on the Windows semaphore (\<open>concurrency/thread_pool.c\<close> with the Windows branch of
  \<open>concurrency/semaphore.c\<close>). A wait and a post are single calls of the system there, but the system counts no further
  than \<open>LONG_MAX\<close> and \<open>d4np_semaphore_post\<close> ignores a refused release. The pool is run on any semaphore that meets
  \<open>permit_contract\<close> and can be closed, with \<open>tp_items\<close> as the number of permits an unbounded counter would hold:
  tasks are still run exactly once; the shutdown completes as long as the counter has room for every post; and
  once a post has been lost, \<open>d4np_thread_pool_destroy\<close> never returns.
\<close>

section \<open>The pool on a semaphore of single calls\<close>

text \<open>The step in which \<open>destroy\<close> joins the workers, and then destroys the semaphore.\<close>

definition joins :: "tp \<Rightarrow> tp \<Rightarrow> bool" where
  "joins p p' \<longleftrightarrow> DDone \<notin> set (tp_pcs p) \<and> DDone \<in> set (tp_pcs p')"

inductive pool_advance_on ::
  "('s \<Rightarrow> 's outcome option) \<Rightarrow> ('s \<Rightarrow> 's option) \<Rightarrow> ('s \<Rightarrow> 's option) \<Rightarrow> tp \<times> 's \<Rightarrow> tp \<times> 's \<Rightarrow> bool" for wait post close where
  po_local: "tp_continues p p' \<Longrightarrow> tp_items p' = tp_items p \<Longrightarrow> \<not> joins p p' \<Longrightarrow> pool_advance_on wait post close (p, w) (p', w)"
| po_wait: "at p i WWait \<Longrightarrow> wait w = Some (Returns w') \<Longrightarrow>
     pool_advance_on wait post close (p, w) (goto i WLock (p\<lparr>tp_items := tp_items p - 1\<rparr>), w')"
| po_post: "at p i pc \<Longrightarrow> owes pc \<Longrightarrow> post w = Some w' \<Longrightarrow> pool_advance_on wait post close (p, w) (post_done i p, w')"
| po_join: "tp_continues p p' \<Longrightarrow> joins p p' \<Longrightarrow> close w = Some w' \<Longrightarrow> pool_advance_on wait post close (p, w) (p', w')"

inductive pool_step_on ::
  "('s \<Rightarrow> 's outcome option) \<Rightarrow> ('s \<Rightarrow> 's option) \<Rightarrow> ('s \<Rightarrow> 's option) \<Rightarrow> tp \<times> 's \<Rightarrow> tp \<times> 's \<Rightarrow> bool" for wait post close where
  on_advance: "pool_advance_on wait post close x x' \<Longrightarrow> pool_step_on wait post close x x'"
| on_client: "tp_step p p' \<Longrightarrow> tp_items p' = tp_items p \<Longrightarrow> \<not> joins p p' \<Longrightarrow> pool_step_on wait post close (p, w) (p', w)"

text \<open>The Windows pool, whose semaphore is in the structure at \<open>loc\<close>.\<close>

definition pool_advance_win32 :: "nat \<Rightarrow> tp \<times> win_sys \<Rightarrow> tp \<times> win_sys \<Rightarrow> bool" where
  "pool_advance_win32 loc = pool_advance_on (d4np_semaphore_wait_win32 (Some loc)) (d4np_semaphore_post_win32 (Some loc))
     (d4np_semaphore_destroy_win32 (Some loc))"

definition pool_step_win32 :: "nat \<Rightarrow> tp \<times> win_sys \<Rightarrow> tp \<times> win_sys \<Rightarrow> bool" where
  "pool_step_win32 loc = pool_step_on (d4np_semaphore_wait_win32 (Some loc)) (d4np_semaphore_post_win32 (Some loc))
     (d4np_semaphore_destroy_win32 (Some loc))"

definition pool_start_win32 :: "nat \<Rightarrow> ptr \<Rightarrow> nat \<Rightarrow> nat \<Rightarrow> win_sys \<Rightarrow> tp \<times> win_sys" where
  "pool_start_win32 loc handles workers clients w =
     (tp_start handles workers clients, snd (d4np_semaphore_init_win32 False (Some loc) 0 w))"

section \<open>Steps of the pool\<close>

lemma post_done_continues:
  assumes "at p i pc" "owes pc"
  shows "tp_continues p (post_done i p)"
proof -
  have i: "tp_pcs p ! i = pc" using assms(1) by (simp add: at_def)
  have "\<exists>v. v \<noteq> pc \<and> tp_pcs (post_done i p) = (tp_pcs p)[i := v]"
    using assms(2) i by (intro exI [of _ "case pc of DPost k \<Rightarrow> DPost (k - 1) | _ \<Rightarrow> SIdle"]) (cases pc; auto simp: post_done_def Let_def)
  moreover have "pc \<noteq> SIdle" "pc \<noteq> DIdle" using assms(2) by auto
  ultimately show ?thesis using post_done_step(1) [OF assms] assms(1) unfolding tp_continues_def by blast
qed

text \<open>What a step does to the permits: it leaves them, takes one, or posts one.\<close>

lemma tp_step_items:
  assumes "tp_step p p'" "tp_items p' \<noteq> tp_items p"
  shows "\<exists>i pc v. at p i pc \<and> tp_pcs p' = (tp_pcs p)[i := v] \<and> v \<noteq> DDone \<and> (pc = WWait \<and> 0 < tp_items p \<or> owes pc)"
  using assms(1)
proof (rule tp_stepE)
  assume "pool_worker p p'"
  then show ?thesis
  proof cases
    case (w_wait i)
    then show ?thesis by (intro exI [of _ i] exI [of _ WWait] exI [of _ WLock]) simp
  qed (use assms(2) in auto)
next
  assume "d4np_thread_pool_submit p p'"
  then show ?thesis
  proof cases
    case (s_append i n x s1)
    then have "tp_items s1 = tp_items p" by (auto simp: tp_append_def split: if_splits bind_splits)
    with s_append assms(2) show ?thesis by simp
  next
    case (s_post i)
    then show ?thesis by (intro exI [of _ i] exI [of _ SPost] exI [of _ SIdle]) simp
  qed (use assms(2) in auto)
next
  assume "d4np_thread_pool_destroy p p'"
  then show ?thesis
  proof cases
    case (d_post i k)
    then show ?thesis by (intro exI [of _ i] exI [of _ "DPost (Suc k)"] exI [of _ "DPost k"]) simp
  qed (use assms(2) in auto)
qed

text \<open>While the pool shuts down, the posts to come are those already owed.\<close>

definition posts_due :: "tp \<Rightarrow> nat" where
  "posts_due p = tp_items p + total (owed (tp_thread_count p)) (tp_pcs p)"

lemma due_answer [simp]: "posts_due (answer i rc p) = posts_due p"
  by (simp add: posts_due_def)

lemma due_move:
  assumes "at p j old" "tp_pcs p' = (tp_pcs p)[j := v]" "tp_thread_count p' = tp_thread_count p"
    "tp_items p' + owed (tp_thread_count p) v \<le> tp_items p + owed (tp_thread_count p) old"
  shows "posts_due p' \<le> posts_due p"
proof -
  have j: "j < length (tp_pcs p)" "tp_pcs p ! j = old" using assms(1) by (simp_all add: at_def)
  show ?thesis using total_upd [OF j(1), of "owed (tp_thread_count p)" v] assms(4) unfolding posts_due_def assms(2,3) j(2) by linarith
qed

lemma due_worker: "pool_worker p p' \<Longrightarrow> posts_due p' \<le> posts_due p"
  by (induction rule: pool_worker.induct) (erule due_move, simp, simp, simp)+

lemma due_submit: "d4np_thread_pool_submit p p' \<Longrightarrow> tp_shutting_down p \<Longrightarrow> posts_due p' \<le> posts_due p"
proof (induction rule: d4np_thread_pool_submit.induct)
  case (s_append s i n x s1)
  then show ?case by simp
qed (simp only: due_answer order.refl | erule due_move, simp, simp, simp)+

lemma due_destroy: "d4np_thread_pool_destroy p p' \<Longrightarrow> tp_continues p p' \<Longrightarrow> posts_due p' \<le> posts_due p"
proof (induction rule: d4np_thread_pool_destroy.induct)
  case (d_start s i)
  then show ?case using continues_from [OF d_start.prems d_start.hyps(1), of DLock] by simp
qed (simp | erule due_move, simp, simp, simp)+

lemma due_continues: "tp_continues p p' \<Longrightarrow> tp_shutting_down p \<Longrightarrow> posts_due p' \<le> posts_due p"
proof -
  assume c: "tp_continues p p'" "tp_shutting_down p"
  then have "tp_step p p'" by (simp add: tp_continues_def)
  then show "posts_due p' \<le> posts_due p" using due_worker due_submit [OF _ c(2)] due_destroy [OF _ c(1)] by (auto elim: tp_stepE)
qed

lemma done_stays:
  assumes "tp_step p p'" "DDone \<in> set (tp_pcs p)"
  shows "DDone \<in> set (tp_pcs p')"
proof -
  have k: "DDone \<in> set ((tp_pcs p)[i := v])" if "at p i old" "old \<noteq> DDone" for i old v
  proof -
    obtain j where "j < length (tp_pcs p)" "tp_pcs p ! j = DDone" using assms(2) by (auto simp: in_set_conv_nth)
    then show ?thesis using that unfolding at_def by (metis length_list_update nth_list_update_neq nth_mem)
  qed
  show ?thesis using assms k append_pcs
    by (auto elim!: tp_stepE pool_worker.cases d4np_thread_pool_submit.cases d4np_thread_pool_destroy.cases)
qed

lemma join_items: "tp_step p p' \<Longrightarrow> joins p p' \<Longrightarrow> tp_items p' = tp_items p"
  using tp_step_items [of p p'] set_upd [of DDone "tp_pcs p"] unfolding joins_def by metis

lemma append_possible:
  assumes "tp_good p"
  shows "\<exists>p'. tp_append n p = Some p'"
proof -
  obtain qs where "tp_inv p qs" using assms by (auto simp: tp_good_def)
  then have q: "queue_ok p qs" "nodes_ok p qs" by (simp_all add: tp_inv_def)
  have "set qs \<subseteq> dom (tp_nodes p)" using q(2) by (auto simp: nodes_ok_def owns_def all_nodes_def)
  then have "qs \<noteq> [] \<longrightarrow> last qs \<in> dom (tp_nodes p)" using last_in_set by blast
  then have "tp_q_tail p \<noteq> NULL \<longrightarrow> tp_q_tail p \<in> dom (tp_nodes p)" using q(1) by (simp add: queue_ok_def)
  then show ?thesis by (auto simp: tp_append_def)
qed

section \<open>The contract of the semaphore\<close>

text \<open>The invariant: the pool is in a state it reaches on an unbounded semaphore, which has at least the permits of this one; the
  semaphore is usable until the destroyer has joined the workers.\<close>

definition pool_on_inv :: "('s \<Rightarrow> bool) \<Rightarrow> ('s \<Rightarrow> nat) \<Rightarrow> tp \<Rightarrow> tp \<times> 's \<Rightarrow> bool" where
  "pool_on_inv ok permits s0 = (\<lambda>(p, w). tp_step\<^sup>*\<^sup>* s0 p \<and> permits w \<le> tp_items p \<and> (DDone \<in> set (tp_pcs p) \<or> ok w))"

locale closable_permits = permit_contract +
  fixes close :: "'a \<Rightarrow> 'a option"
  assumes close_law: "ok s \<Longrightarrow> \<exists>s'. close s = Some s' \<and> permits s' = permits s"
begin

lemma usable:
  assumes "pool_on_inv ok permits (tp_start handles workers clients) (p, w)" "0 < workers" "at p i pc" "pc = WWait \<or> owes pc"
  shows "ok w"
proof (rule ccontr)
  assume "\<not> ok w"
  then have d: "DDone \<in> set (tp_pcs p)" and r: "tp_step\<^sup>*\<^sup>* (tp_start handles workers clients) p"
    using assms(1) by (simp_all add: pool_on_inv_def)
  have pc: "pc \<in> set (tp_pcs p)" using assms(3) nth_mem unfolding at_def by metis
  have "pc \<noteq> WWait" using tp_reachable_done [OF r] d pc by (auto simp: done_ok_def)
  moreover have "pc \<noteq> SPost" using joined_all_posted [OF r assms(2) d] pc by blast
  moreover obtain j where j: "at p j DDone" using d by (auto simp: in_set_conv_nth at_def)
  have "pc \<noteq> DPost k" for k using one_destroyer [OF single_destroyer_reachable [OF r] assms(3) _ j] assms(3) j by (auto simp: at_def)
  ultimately show False using assms(4) by (cases pc) auto
qed

text \<open>Every step on the semaphore is a step of the pool on unbounded permits, one that goes on if it goes on here.\<close>

lemma advance_continues:
  assumes "pool_advance_on wait post close x x'" "pool_on_inv ok permits (tp_start handles workers clients) x" "0 < workers"
  shows "tp_continues (fst x) (fst x')"
  using assms(1,2)
proof (induction rule: pool_advance_on.induct)
  case (po_wait p i w w')
  have o: "ok w" by (rule usable [OF po_wait.prems assms(3) po_wait.hyps(1)]) simp
  have "0 < permits w" using wait_law [OF o] po_wait.hyps(2) by (simp split: if_splits)
  then have "0 < tp_items p" using po_wait.prems by (simp add: pool_on_inv_def)
  from tp_w_wait [OF po_wait.hyps(1) this] show ?case using po_wait.hyps(1) unfolding tp_continues_def by force
next
  case (po_post p i pc w w')
  then show ?case using post_done_continues by simp
qed simp_all

lemma advance_on_inv:
  assumes "pool_advance_on wait post close x x'" "pool_on_inv ok permits (tp_start handles workers clients) x" "0 < workers"
  shows "pool_on_inv ok permits (tp_start handles workers clients) x'"
proof -
  have "tp_step (fst x) (fst x')" using advance_continues [OF assms] by (simp add: tp_continues_def)
  then have r: "tp_step\<^sup>*\<^sup>* (tp_start handles workers clients) (fst x')"
    using assms(2) by (auto simp: pool_on_inv_def case_prod_unfold intro: rtranclp.rtrancl_into_rtrancl)
  from assms(1,2) r show ?thesis
  proof (induction rule: pool_advance_on.induct)
    case (po_local p p' w)
    have "DDone \<in> set (tp_pcs p')" if "DDone \<in> set (tp_pcs p)" using done_stays po_local.hyps(1) that by (auto simp: tp_continues_def)
    then show ?case using po_local by (auto simp: pool_on_inv_def)
  next
    case (po_wait p i w w')
    have "ok w" by (rule usable [OF po_wait.prems(1) assms(3) po_wait.hyps(1)]) simp
    then have "ok w' \<and> permits w' = permits w - 1" using wait_law [of w] po_wait.hyps(2) by (auto split: if_splits)
    then show ?case using po_wait.prems by (auto simp: pool_on_inv_def)
  next
    case (po_post p i pc w w')
    have "ok w" by (rule usable [OF po_post.prems(1) assms(3) po_post.hyps(1)]) (simp add: po_post.hyps(2))
    then have "ok w' \<and> permits w' \<le> permits w + 1" using post_law [of w] po_post.hyps(3) by (auto split: if_splits)
    then show ?case using po_post.prems post_done_step(2) [OF po_post.hyps(1,2)] by (simp add: pool_on_inv_def)
  next
    case (po_join p p' w w')
    then have "ok w" by (simp add: pool_on_inv_def joins_def)
    then have "permits w' = permits w" using close_law [of w] po_join.hyps(3) by auto
    moreover have "permits w \<le> tp_items p" using po_join.prems by (simp add: pool_on_inv_def)
    moreover have "tp_items p' = tp_items p" by (rule join_items) (use po_join.hyps in \<open>auto simp: tp_continues_def\<close>)
    ultimately show ?case using po_join by (simp add: pool_on_inv_def joins_def)
  qed
qed

lemma step_on_inv:
  assumes "pool_step_on wait post close x x'" "pool_on_inv ok permits (tp_start handles workers clients) x" "0 < workers"
  shows "pool_on_inv ok permits (tp_start handles workers clients) x'"
  using assms(1,2)
proof (induction rule: pool_step_on.induct)
  case (on_advance x x')
  then show ?case using advance_on_inv [OF _ _ assms(3)] by blast
next
  case (on_client p p' w)
  then show ?case using done_stays [of p p'] by (auto simp: pool_on_inv_def intro: rtranclp.rtrancl_into_rtrancl)
qed

lemma steps_on_inv:
  assumes "(pool_step_on wait post close)\<^sup>*\<^sup>* x x'" "pool_on_inv ok permits (tp_start handles workers clients) x" "0 < workers"
  shows "pool_on_inv ok permits (tp_start handles workers clients) x'"
  using assms(1) by (induction rule: rtranclp_induct) (auto intro: assms(2) step_on_inv [OF _ _ assms(3)])

text \<open>A lost post stays lost.\<close>

lemma lost_stays:
  assumes "pool_step_on wait post close x x'" "pool_on_inv ok permits (tp_start handles workers clients) x" "0 < workers"
    "permits (snd x) < tp_items (fst x)"
  shows "permits (snd x') < tp_items (fst x')"
  using assms(1)
proof cases
  case on_advance
  from on_advance assms(2,4) show ?thesis
  proof (induction rule: pool_advance_on.induct)
    case (po_wait p i w w')
    have "ok w" by (rule usable [OF po_wait.prems(1) assms(3) po_wait.hyps(1)]) simp
    then have "permits w' = permits w - 1 \<and> 0 < permits w" using wait_law [of w] po_wait.hyps(2) by (auto split: if_splits)
    then show ?case using po_wait.prems by auto
  next
    case (po_post p i pc w w')
    have "ok w" by (rule usable [OF po_post.prems(1) assms(3) po_post.hyps(1)]) (simp add: po_post.hyps(2))
    then have "permits w' \<le> permits w + 1" using post_law [of w] po_post.hyps(3) by (auto split: if_splits)
    then show ?case using po_post.prems post_done_step(2) [OF po_post.hyps(1,2)] by simp
  next
    case (po_join p p' w w')
    then have "ok w" by (simp add: pool_on_inv_def joins_def)
    then have "permits w' = permits w" using close_law [of w] po_join.hyps(3) by auto
    moreover have "tp_items p' = tp_items p" by (rule join_items) (use po_join.hyps in \<open>auto simp: tp_continues_def\<close>)
    ultimately show ?case using po_join.prems by simp
  qed simp
next
  case (on_client p p' w)
  then show ?thesis using assms(4) by simp
qed

lemma lost_never_done:
  assumes "(pool_step_on wait post close)\<^sup>*\<^sup>* x x'" "pool_on_inv ok permits (tp_start handles workers clients) x" "0 < workers"
    "permits (snd x) < tp_items (fst x)"
  shows "DDone \<notin> set (tp_pcs (fst x'))"
proof -
  have "pool_on_inv ok permits (tp_start handles workers clients) x' \<and> permits (snd x') < tp_items (fst x')"
    using assms(1)
  proof (induction rule: rtranclp_induct)
    case (step y z)
    then show ?case using step_on_inv [OF step.hyps(2) _ assms(3)] lost_stays [OF step.hyps(2) _ assms(3)] by blast
  qed (use assms(2,4) in simp)
  then show ?thesis using joined_all_posted [OF _ assms(3)] by (auto simp: pool_on_inv_def case_prod_unfold)
qed

text \<open>While there is room for every permit, none is lost, and what the pool can do it can do on this semaphore.\<close>

lemma kept:
  assumes "pool_step_on wait post close x x'" "pool_on_inv ok permits (tp_start handles workers clients) x" "0 < workers"
    "permits (snd x) = tp_items (fst x)" "tp_items (fst x') \<le> limit"
  shows "permits (snd x') = tp_items (fst x')"
  using assms(1)
proof cases
  case on_advance
  from on_advance assms(2,4,5) show ?thesis
  proof (induction rule: pool_advance_on.induct)
    case (po_wait p i w w')
    have "ok w" by (rule usable [OF po_wait.prems(1) assms(3) po_wait.hyps(1)]) simp
    then have "permits w' = permits w - 1" using wait_law [of w] po_wait.hyps(2) by (auto split: if_splits)
    then show ?case using po_wait.prems by simp
  next
    case (po_post p i pc w w')
    have "ok w" by (rule usable [OF po_post.prems(1) assms(3) po_post.hyps(1)]) (simp add: po_post.hyps(2))
    then show ?case using po_post.prems post_law [of w] po_post.hyps(3) post_done_step(2) [OF po_post.hyps(1,2)] by auto
  next
    case (po_join p p' w w')
    then have "ok w" by (simp add: pool_on_inv_def joins_def)
    then have "permits w' = permits w" using close_law [of w] po_join.hyps(3) by auto
    moreover have "tp_items p' = tp_items p" by (rule join_items) (use po_join.hyps in \<open>auto simp: tp_continues_def\<close>)
    ultimately show ?case using po_join.prems by simp
  qed simp
next
  case (on_client p p' w)
  then show ?thesis using assms(4) by simp
qed

lemma advance_possible:
  assumes "tp_continues p p'" "pool_on_inv ok permits (tp_start handles workers clients) (p, w)" "0 < workers" "permits w = tp_items p"
  shows "\<exists>x. pool_advance_on wait post close (p, w) x"
proof (cases "tp_items p' = tp_items p")
  case True
  show ?thesis
  proof (cases "joins p p'")
    case True
    then have "ok w" using assms(2) by (simp add: pool_on_inv_def joins_def)
    then obtain w' where "close w = Some w'" using close_law by blast
    from po_join [where close = close, OF assms(1) True this] show ?thesis by (rule exI)
  next
    case False
    from po_local [OF assms(1) True this] show ?thesis by (rule exI)
  qed
next
  case False
  then obtain i pc where i: "at p i pc" "pc = WWait \<and> 0 < tp_items p \<or> owes pc"
    using tp_step_items [of p p'] assms(1) by (auto simp: tp_continues_def)
  have o: "ok w" by (rule usable [OF assms(2,3) i(1)]) (use i(2) in blast)
  from i(2) show ?thesis
  proof
    assume w: "pc = WWait \<and> 0 < tp_items p"
    then obtain w' where "wait w = Some (Returns w')" using wait_law [OF o] assms(4) by auto
    from po_wait [where wait = wait, OF _ this, of p i] show ?thesis using i(1) w by blast
  next
    assume "owes pc"
    obtain w' where "post w = Some w'" using post_law [OF o] by blast
    from po_post [where post = post, OF i(1) \<open>owes pc\<close> this] show ?thesis by (rule exI)
  qed
qed

lemma advance_on_bounded:
  assumes "(pool_advance_on wait post close ^^ n) x x'" "pool_on_inv ok permits (tp_start handles workers clients) x" "0 < workers"
  shows "n + work (fst x') \<le> work (fst x) \<and> pool_on_inv ok permits (tp_start handles workers clients) x'"
  using assms(1)
proof (induction n arbitrary: x')
  case 0
  then show ?case using assms(2) by simp
next
  case (Suc n)
  then obtain x1 where x1: "(pool_advance_on wait post close ^^ n) x x1" "pool_advance_on wait post close x1 x'" by auto
  from Suc.IH [OF x1(1)] have i: "n + work (fst x1) \<le> work (fst x)" "pool_on_inv ok permits (tp_start handles workers clients) x1" by simp_all
  show ?case using i(1) work_continues [OF advance_continues [OF x1(2) i(2) assms(3)]] advance_on_inv [OF x1(2) i(2) assms(3)] by simp
qed

text \<open>The states after the shutdown was announced, with room for the posts that are due.\<close>

definition roomy :: "nat \<Rightarrow> tp \<times> 'a \<Rightarrow> bool" where
  "roomy i x \<longleftrightarrow> closer (fst x) i \<and> tp_shutting_down (fst x) \<and> permits (snd x) = tp_items (fst x) \<and> posts_due (fst x) \<le> limit"

lemma advance_roomy:
  assumes "pool_advance_on wait post close x x'" "pool_on_inv ok permits (tp_start handles workers clients) x" "0 < workers" "roomy i x"
  shows "roomy i x'"
proof -
  have c: "tp_continues (fst x) (fst x')" by (rule advance_continues [OF assms(1-3)])
  then have st: "tp_step (fst x) (fst x')" by (simp add: tp_continues_def)
  have r: "closer (fst x) i" "tp_shutting_down (fst x)" "permits (snd x) = tp_items (fst x)" "posts_due (fst x) \<le> limit"
    using assms(4) by (simp_all add: roomy_def)
  have d: "posts_due (fst x') \<le> limit" using due_continues [OF c r(2)] r(4) by simp
  then have "tp_items (fst x') \<le> limit" by (simp add: posts_due_def)
  then have "permits (snd x') = tp_items (fst x')" by (rule kept [OF on_advance [OF assms(1)] assms(2,3) r(3)])
  moreover have "tp_shutting_down (fst x')" using shut_forever [OF r_into_rtranclp [of tp_step, OF st] r(2)] by blast
  ultimately show ?thesis using d step_closer [OF st r(1)] by (simp add: roomy_def)
qed

lemma completes:
  assumes "pool_on_inv ok permits (tp_start handles workers clients) (p, w)" "0 < workers" "at p i (DPost k)"
    "permits w = tp_items p" "posts_due p \<le> limit"
    "(pool_advance_on wait post close)\<^sup>*\<^sup>* (p, w) (p', w')" "\<nexists>x. pool_advance_on wait post close (p', w') x"
  shows "at p' i DDone \<and> mset (tp_ran p') = mset (tp_accepted p')"
proof -
  have good: "tp_good p" by (rule tp_reachable_good [OF _ assms(2), of handles clients]) (use assms(1) in \<open>simp add: pool_on_inv_def\<close>)
  then have "tp_shutting_down p" using dpost_down(2) [OF _ assms(3)] by (auto simp: tp_good_def tp_inv_def)
  then have r: "roomy i (p, w)" using assms(3-5) by (simp add: roomy_def closer_def at_def)
  have "pool_on_inv ok permits (tp_start handles workers clients) (p', w') \<and> roomy i (p', w')"
    using assms(6)
  proof (induction rule: rtranclp_induct)
    case (step y z)
    then show ?case using advance_on_inv [OF step.hyps(2) _ assms(2)] advance_roomy [OF step.hyps(2) _ assms(2)] by blast
  qed (use assms(1) r in simp)
  then have i: "pool_on_inv ok permits (tp_start handles workers clients) (p', w')" "permits w' = tp_items p'" "closer p' i"
    by (simp_all add: roomy_def)
  have reach: "tp_step\<^sup>*\<^sup>* (tp_start handles workers clients) p'" using i(1) by (simp add: pool_on_inv_def)
  have "\<not> tp_continues p' p''" for p'' using advance_possible [OF _ i(1) assms(2) i(2)] assms(7) by blast
  then have "\<not> at p' i (DPost m)" for m using progress [OF tp_reachable_good [OF reach assms(2)]] by blast
  with i(3) have d: "at p' i DDone" by (cases "tp_pcs p' ! i") (auto simp: closer_def at_def)
  then have "DDone \<in> set (tp_pcs p')" using nth_mem unfolding at_def by metis
  then show ?thesis using d joined_all_ran [OF reach assms(2)] by blast
qed

text \<open>One more task is submitted while the only worker sleeps.\<close>

lemma submit_one:
  assumes "pool_on_inv ok permits (tp_start handles 1 1) (p, w)" "tp_pcs p = [WWait, SIdle, DIdle]" "tp_lock p = None"
    "\<not> tp_shutting_down p" "a \<noteq> NULL" "a \<notin> dom (tp_nodes p)"
  shows "\<exists>p' w'. (pool_step_on wait post close)\<^sup>*\<^sup>* (p, w) (p', w') \<and> tp_pcs p' = [WWait, SIdle, DIdle] \<and> tp_lock p' = None \<and>
    \<not> tp_shutting_down p' \<and> tp_items p' = tp_items p + 1 \<and> dom (tp_nodes p') = insert a (dom (tp_nodes p)) \<and>
    (permits w \<le> limit \<longrightarrow> permits w' \<le> limit)"
proof -
  let ?x = "\<lparr>tn_next = NULL, tn_task = (1, 0)\<rparr>"
  let ?p1 = "goto 1 (SLock a) (p\<lparr>tp_nodes := (tp_nodes p)(a \<mapsto> ?x)\<rparr>)"
  let ?p2 = "goto 1 (SHold a) (?p1\<lparr>tp_lock := Some 1\<rparr>)"
  have s1: "tp_step p ?p1" using tp_s_alloc [of p 1 "(1, 0)" a] assms(2,5,6) by (simp add: at_def)
  have s2: "tp_step ?p1 ?p2" using tp_s_lock [of ?p1 1 a] assms(2,3) by (simp add: at_def)
  have "tp_step\<^sup>*\<^sup>* (tp_start handles 1 1) ?p2" using assms(1) s1 s2 by (auto simp: pool_on_inv_def intro: rtranclp.rtrancl_into_rtrancl)
  from tp_reachable_good [OF this] have g: "tp_good ?p2" by simp
  obtain p3 where p3: "tp_append a ?p2 = Some p3" using append_possible [OF g] by blast
  let ?p4 = "goto 1 SPost (p3\<lparr>tp_lock := None, tp_accepted := tp_accepted p3 @ [(1, 0)]\<rparr>)"
  have e3: "tp_pcs p3 = tp_pcs ?p2" "tp_items p3 = tp_items p" "dom (tp_nodes p3) = insert a (dom (tp_nodes p))" "tp_shutting_down p3 = tp_shutting_down p"
    using p3 by (auto simp: tp_append_def split: if_splits bind_splits)
  have s3: "tp_step ?p2 ?p4" using tp_s_append [of ?p2 1 a ?x p3] assms(2,4) p3 by (simp add: at_def)
  have "ok w" using assms(1,2) by (simp add: pool_on_inv_def)
  then obtain w' where w': "post w = Some w'" "permits w' = (if permits w < limit then permits w + 1 else permits w)" using post_law by blast
  have o: "at ?p4 1 SPost" using e3(1) assms(2) by (simp add: at_def)
  have c: "pool_step_on wait post close (p, w) (?p1, w)" "pool_step_on wait post close (?p1, w) (?p2, w)" "pool_step_on wait post close (?p2, w) (?p4, w)"
    using on_client [OF s1] on_client [OF s2] on_client [OF s3] assms(2) e3 by (simp_all add: joins_def)
  have "pool_step_on wait post close (?p4, w) (post_done 1 ?p4, w')" by (rule on_advance [OF po_post [where post = post, OF o _ w'(1)]]) simp
  with c have "(pool_step_on wait post close)\<^sup>*\<^sup>* (p, w) (post_done 1 ?p4, w')" by (meson converse_rtranclp_into_rtranclp rtranclp.rtrancl_refl)
  moreover have "post_done 1 ?p4 = answer 1 D4NP_OK (goto 1 SIdle (?p4\<lparr>tp_items := tp_items ?p4 + 1\<rparr>))"
    using o by (simp add: post_done_def at_def Let_def)
  ultimately show ?thesis using e3 assms(2,4) w'(2) by (intro exI [of _ "post_done 1 ?p4"] exI [of _ w']) simp
qed

lemma submit_many:
  assumes "pool_on_inv ok permits (tp_start handles 1 1) (tp_start handles 1 1, w0)" "permits w0 \<le> limit"
  shows "\<exists>p w. (pool_step_on wait post close)\<^sup>*\<^sup>* (tp_start handles 1 1, w0) (p, w) \<and> tp_pcs p = [WWait, SIdle, DIdle] \<and> tp_lock p = None \<and>
    \<not> tp_shutting_down p \<and> tp_items p = n \<and> permits w \<le> limit"
proof (induction n)
  case 0
  show ?case by (rule exI [of _ "tp_start handles 1 1"], rule exI [of _ w0]) (use assms(2) in \<open>simp add: tp_start_def\<close>)
next
  case (Suc n)
  then obtain p w where p: "(pool_step_on wait post close)\<^sup>*\<^sup>* (tp_start handles 1 1, w0) (p, w)" "tp_pcs p = [WWait, SIdle, DIdle]"
    "tp_lock p = None" "\<not> tp_shutting_down p" "tp_items p = n" "permits w \<le> limit" by auto
  have i: "pool_on_inv ok permits (tp_start handles 1 1) (p, w)" by (rule steps_on_inv [OF p(1) assms(1)]) simp
  have "tp_good p" by (rule tp_reachable_good [of handles 1 1]) (use i in \<open>simp_all add: pool_on_inv_def\<close>)
  then have "finite (dom (tp_nodes p))" by (auto simp: tp_good_def tp_inv_def nodes_ok_def owns_def dest: sym)
  then obtain a where a: "a \<noteq> NULL" "a \<notin> dom (tp_nodes p)" using ex_new_if_finite [of "insert NULL (dom (tp_nodes p))"] infinite_UNIV_nat by auto
  from submit_one [OF i p(2-4) a] obtain p' w' where n: "(pool_step_on wait post close)\<^sup>*\<^sup>* (p, w) (p', w')"
    "tp_pcs p' = [WWait, SIdle, DIdle]" "tp_lock p' = None" "\<not> tp_shutting_down p'" "tp_items p' = tp_items p + 1" "permits w' \<le> limit" using p(6) by auto
  then show ?case using rtranclp_trans [OF p(1) n(1)] n p(5) by (intro exI [of _ p'] exI [of _ w']) simp
qed

end

text \<open>The Windows semaphore from its creation on.\<close>

interpretation win_pool: closable_permits "\<lambda>w. map_of (win_open w) (win_opaque w loc) = Some ob \<and> win_max w ob = LONG_MAX" "\<lambda>w. win_count w ob" LONG_MAX
    "d4np_semaphore_wait_win32 (Some loc)" "d4np_semaphore_trywait_win32 (Some loc)" "d4np_semaphore_post_win32 (Some loc)"
    "d4np_semaphore_destroy_win32 (Some loc)" for loc ob
  by unfold_locales (use CloseHandle_ok in \<open>fastforce simp: d4np_semaphore_destroy_win32_def\<close>)

lemma pool_start_win32_inv:
  assumes "win_inv w0"
  shows "pool_on_inv (\<lambda>w. map_of (win_open w) (win_opaque w loc) = Some (win_next w0) \<and> win_max w (win_next w0) = LONG_MAX) (\<lambda>w. win_count w (win_next w0))
    (tp_start handles workers clients) (pool_start_win32 loc handles workers clients w0)"
proof -
  have "0 < win_next_handle w0" using assms by (simp add: win_inv_def win_handles_ok_def)
  then show ?thesis using init_win32_ok [of 0 w0 loc] by (auto simp: pool_on_inv_def pool_start_win32_def tp_start_def)
qed

lemma pool_win32_reachable:
  assumes "(pool_step_win32 loc)\<^sup>*\<^sup>* (pool_start_win32 loc handles workers clients w0) x" "win_inv w0" "0 < workers"
  shows "pool_on_inv (\<lambda>w. map_of (win_open w) (win_opaque w loc) = Some (win_next w0) \<and> win_max w (win_next w0) = LONG_MAX) (\<lambda>w. win_count w (win_next w0))
    (tp_start handles workers clients) x"
  by (rule win_pool.steps_on_inv [OF assms(1) [unfolded pool_step_win32_def] pool_start_win32_inv [OF assms(2)] assms(3)])

text \<open>Runs in which the system's ceiling is respected: at no moment are more permits out than \<open>LONG_MAX\<close>.\<close>

definition pool_fits_win32 :: "nat \<Rightarrow> tp \<times> win_sys \<Rightarrow> tp \<times> win_sys \<Rightarrow> bool" where
  "pool_fits_win32 loc x x' \<longleftrightarrow> pool_step_win32 loc x x' \<and> tp_items (fst x') \<le> LONG_MAX"

lemma pool_fits_exact:
  assumes "(pool_fits_win32 loc)\<^sup>*\<^sup>* (pool_start_win32 loc handles workers clients w0) x" "win_inv w0" "0 < workers"
  shows "(pool_step_win32 loc)\<^sup>*\<^sup>* (pool_start_win32 loc handles workers clients w0) x \<and> win_count (snd x) (win_next w0) = tp_items (fst x)"
  using assms(1)
proof (induction rule: rtranclp_induct)
  case base
  show ?case using pool_start_win32_inv [OF assms(2), of loc handles workers clients] by (simp add: pool_on_inv_def pool_start_win32_def tp_start_def)
next
  case (step y z)
  then have y: "(pool_step_win32 loc)\<^sup>*\<^sup>* (pool_start_win32 loc handles workers clients w0) y" "win_count (snd y) (win_next w0) = tp_items (fst y)"
    and z: "pool_step_win32 loc y z" "tp_items (fst z) \<le> LONG_MAX" by (simp_all add: pool_fits_win32_def)
  show ?case
    using win_pool.kept [OF z(1) [unfolded pool_step_win32_def] pool_win32_reachable [OF y(1) assms(2,3)] assms(3) y(2) z(2)] y(1) z(1) by simp
qed

section \<open>Properties\<close>

text \<open>C30: on the Windows semaphore the pool does nothing it would not do on an unbounded one, even if posts are lost at the ceiling:
  every state of it is one \<open>Thread_Pool\<close> reaches, the system has at most the permits the pool has posted, the handle is
  open whenever a thread is about to wait or post, and when \<open>destroy\<close> has joined the workers every accepted task has run.\<close>

theorem thread_pool_on_win32:
  assumes "(pool_step_win32 loc)\<^sup>*\<^sup>* (pool_start_win32 loc handles workers clients w0) (p, w)" "win_inv w0" "0 < workers"
  shows "tp_step\<^sup>*\<^sup>* (tp_start handles workers clients) p \<and> win_count w (win_next w0) \<le> tp_items p \<and>
    (\<forall>i pc. at p i pc \<and> (pc = WWait \<or> owes pc) \<longrightarrow> map_of (win_open w) (win_opaque w loc) = Some (win_next w0)) \<and>
    (DDone \<in> set (tp_pcs p) \<longrightarrow> mset (tp_ran p) = mset (tp_accepted p))"
proof -
  note inv = pool_win32_reachable [OF assms]
  then have r: "tp_step\<^sup>*\<^sup>* (tp_start handles workers clients) p" "win_count w (win_next w0) \<le> tp_items p" by (simp_all add: pool_on_inv_def)
  show ?thesis using r win_pool.usable [OF inv assms(3)] joined_all_ran [OF r(1) assms(3)] by blast
qed

text \<open>C16: with room below the ceiling the shutdown completes on Windows too, under every schedule: if so far no more than \<open>LONG_MAX\<close>
  permits were out at once and the posts still due fit as well, the threads can make at most \<open>work p\<close> more steps, and when
  none can make one the destroyer has joined every worker and every accepted task has run.\<close>

theorem thread_pool_win32_shuts_down:
  assumes "(pool_fits_win32 loc)\<^sup>*\<^sup>* (pool_start_win32 loc handles workers clients w0) (p, w)" "win_inv w0" "0 < workers"
    "at p i (DPost k)" "posts_due p \<le> LONG_MAX"
  shows "(\<forall>n x. (pool_advance_win32 loc ^^ n) (p, w) x \<longrightarrow> n \<le> work p) \<and>
    (\<forall>p' w'. (pool_advance_win32 loc)\<^sup>*\<^sup>* (p, w) (p', w') \<and> (\<nexists>x. pool_advance_win32 loc (p', w') x) \<longrightarrow>
       at p' i DDone \<and> mset (tp_ran p') = mset (tp_accepted p'))"
proof (intro conjI allI impI)
  from pool_fits_exact [OF assms(1-3)]
  have e: "(pool_step_win32 loc)\<^sup>*\<^sup>* (pool_start_win32 loc handles workers clients w0) (p, w)" "win_count w (win_next w0) = tp_items p" by simp_all
  note inv = pool_win32_reachable [OF e(1) assms(2,3)]
  show "n \<le> work p" if "(pool_advance_win32 loc ^^ n) (p, w) x" for n x
    using win_pool.advance_on_bounded [OF that [unfolded pool_advance_win32_def] inv assms(3)] by simp
  fix p' w' assume r: "(pool_advance_win32 loc)\<^sup>*\<^sup>* (p, w) (p', w') \<and> (\<nexists>x. pool_advance_win32 loc (p', w') x)"
  note c = win_pool.completes [OF inv assms(3,4) e(2) assms(5) conjunct1 [OF r, unfolded pool_advance_win32_def]
    conjunct2 [OF r, unfolded pool_advance_win32_def]]
  show "at p' i DDone" "mset (tp_ran p') = mset (tp_accepted p')" using c by simp_all
qed

text \<open>Beyond the ceiling \<open>d4np_thread_pool_destroy\<close> hangs: with one worker and \<open>LONG_MAX + 1\<close> tasks submitted before it wakes up, one
  post is refused by the system, \<open>d4np_semaphore_post\<close> does not notice, and whatever happens afterwards the destroyer never finishes.\<close>

theorem thread_pool_win32_can_hang:
  "\<exists>p w. (pool_step_win32 loc)\<^sup>*\<^sup>* (pool_start_win32 loc handles 1 1 win_start) (p, w) \<and> tp_items p = LONG_MAX + 1 \<and> \<not> tp_shutting_down p \<and>
     (\<forall>x. (pool_step_win32 loc)\<^sup>*\<^sup>* (p, w) x \<longrightarrow> DDone \<notin> set (tp_pcs (fst x)))"
proof -
  have w: "win_inv win_start" by (rule win_reachable_inv) simp
  obtain w0 where w0: "pool_start_win32 loc handles 1 1 win_start = (tp_start handles 1 1, w0)" by (simp add: pool_start_win32_def)
  note inv = pool_start_win32_inv [OF w, of loc handles 1 1, unfolded w0]
  have "win_count w0 (win_next win_start) \<le> LONG_MAX" using inv by (simp add: pool_on_inv_def tp_start_def)
  from win_pool.submit_many [OF inv this, of "LONG_MAX + 1"] obtain p w where
    p: "(pool_step_win32 loc)\<^sup>*\<^sup>* (pool_start_win32 loc handles 1 1 win_start) (p, w)" "\<not> tp_shutting_down p" "tp_items p = LONG_MAX + 1"
      "win_count w (win_next win_start) \<le> LONG_MAX"
    unfolding pool_step_win32_def w0 by blast
  have "DDone \<notin> set (tp_pcs (fst x))" if "(pool_step_win32 loc)\<^sup>*\<^sup>* (p, w) x" for x
    by (rule win_pool.lost_never_done [OF that [unfolded pool_step_win32_def] pool_win32_reachable [OF p(1) \<open>win_inv win_start\<close>]])
      (use p(3,4) in simp_all)
  with p(1-3) show ?thesis by blast
qed

text \<open>One worker, no task: the destroyer has announced the shutdown and is about to post.\<close>

definition win_mid :: "tp \<times> win_sys" where
  "win_mid = (fst ps_mid, snd (pool_start_win32 0 16 1 0 win_start))"

lemma win_mid_reachable: "(pool_fits_win32 0)\<^sup>*\<^sup>* (pool_start_win32 0 16 1 0 win_start) win_mid"
proof -
  let ?w = "snd (pool_start_win32 0 16 1 0 win_start)" and ?p0 = "tp_start 16 1 0"
  let ?p1 = "goto 1 DLock ?p0"
  let ?p2 = "goto 1 DHold (?p1\<lparr>tp_lock := Some 1\<rparr>)"
  let ?p3 = "goto 1 (DPost (tp_thread_count ?p2)) (?p2\<lparr>tp_shutting_down := True, tp_lock := None\<rparr>)"
  have c: "pool_fits_win32 0 (p, ?w) (p', ?w)" if "tp_step p p'" "tp_items p' = tp_items p" "tp_items p = 0" "DDone \<notin> set (tp_pcs p')" for p p'
    using on_client [OF that(1,2)] that(2-4) by (simp add: pool_fits_win32_def pool_step_win32_def joins_def)
  have "tp_step ?p0 ?p1" by (rule tp_d_start) (simp_all add: at_def tp_start_def)
  then have 1: "pool_fits_win32 0 (?p0, ?w) (?p1, ?w)" by (rule c) (simp_all add: tp_start_def)
  have "tp_step ?p1 ?p2" by (rule tp_d_lock) (simp_all add: at_def tp_start_def)
  then have 2: "pool_fits_win32 0 (?p1, ?w) (?p2, ?w)" by (rule c) (simp_all add: tp_start_def)
  have "tp_step ?p2 ?p3" by (rule tp_d_down) (simp_all add: at_def tp_start_def)
  then have 3: "pool_fits_win32 0 (?p2, ?w) (?p3, ?w)" by (rule c) (simp_all add: tp_start_def)
  have "pool_start_win32 0 16 1 0 win_start = (?p0, ?w)" by (simp add: pool_start_win32_def)
  moreover have "win_mid = (?p3, ?w)" by (simp add: win_mid_def ps_mid_def tp_start_def goto_def)
  ultimately show ?thesis using 1 2 3 by (metis converse_rtranclp_into_rtranclp rtranclp.rtrancl_refl)
qed

theorem thread_pool_on_win32_witness: "win_count (snd win_mid) 0 \<le> tp_items (fst win_mid)"
proof -
  have w: "win_inv win_start" by (rule win_reachable_inv) simp
  have "(pool_step_win32 0)\<^sup>*\<^sup>* (pool_start_win32 0 16 1 0 win_start) win_mid" using pool_fits_exact [OF win_mid_reachable w] by simp
  then show ?thesis using thread_pool_on_win32 [of 0 16 1 0 win_start "fst win_mid" "snd win_mid"] w by (simp add: win_start_def)
qed

theorem thread_pool_win32_shuts_down_witness: "{n. \<exists>x. (pool_advance_win32 0 ^^ n) win_mid x} \<subseteq> {..8}"
proof -
  have "win_inv win_start" by (rule win_reachable_inv) simp
  moreover have "at (fst win_mid) 1 (DPost 1)" by (simp add: at_def win_mid_def ps_mid_def)
  moreover have "posts_due (fst win_mid) \<le> LONG_MAX" "work (fst win_mid) = 8"
    by (simp_all add: posts_due_def work_def win_mid_def ps_mid_def tp_start_def total_def LONG_MAX_def)
  ultimately show ?thesis using thread_pool_win32_shuts_down [of 0 16 1 0 win_start "fst win_mid" "snd win_mid" 1 1] win_mid_reachable by auto
qed

end
