(* ===== verification/Lock_Client.thy ===== *)
theory Lock_Client
  imports Mutex
begin

text \<open>
  Clients of a lock. \<open>Thread_Pool\<close> and \<open>Log\<close> keep the owner of their mutex in a field of their state and
  make an acquiring step wait until it is free. Here such a system runs on a lock proper, \<open>d4np_mutex_lock\<close>,
  \<open>d4np_mutex_unlock\<close> and the others of \<open>concurrency/mutex.c\<close>: a thread that reaches its lock call may try at any time, a
  release is a call of unlock, and the lock is created and destroyed when the client does so. The laws of
  \<open>lock_client\<close> are enough for the two systems to agree, and for the calls that are undefined to be known.
\<close>

section \<open>A client on a lock\<close>

text \<open>
  The parameters of the client: its steps, the owner it believes in, whether its lock exists, and the state after thread
  \<open>i\<close> returns from the lock call it stands at. Those of the lock: lock, unlock, creation and destruction.
\<close>

inductive locked_step ::
  "('s \<Rightarrow> 's \<Rightarrow> bool) \<Rightarrow> ('s \<Rightarrow> nat option) \<Rightarrow> ('s \<Rightarrow> bool) \<Rightarrow> (nat \<Rightarrow> 's \<Rightarrow> 's option) \<Rightarrow>
   (nat \<Rightarrow> 'm \<Rightarrow> 'm outcome option) \<Rightarrow> (nat \<Rightarrow> 'm \<Rightarrow> 'm option) \<Rightarrow> ('m \<Rightarrow> 'm option) \<Rightarrow> ('m \<Rightarrow> 'm option) \<Rightarrow>
   's \<times> 'm \<Rightarrow> 's \<times> 'm \<Rightarrow> bool"
  for step own live acquire lock unlock create destroy where
  lk_acquire: "acquire i s = Some s' \<Longrightarrow> lock i m = Some (Returns m') \<Longrightarrow>
     locked_step step own live acquire lock unlock create destroy (s, m) (s', m')"
| lk_release: "step s s' \<Longrightarrow> own s = Some i \<Longrightarrow> own s' = None \<Longrightarrow> unlock i m = Some m' \<Longrightarrow>
     locked_step step own live acquire lock unlock create destroy (s, m) (s', m')"
| lk_local: "step s s' \<Longrightarrow> own s' = own s \<Longrightarrow> live s' = live s \<Longrightarrow>
     locked_step step own live acquire lock unlock create destroy (s, m) (s', m)"
| lk_create: "step s s' \<Longrightarrow> \<not> live s \<Longrightarrow> live s' \<Longrightarrow> create m = Some m' \<Longrightarrow>
     locked_step step own live acquire lock unlock create destroy (s, m) (s', m')"
| lk_destroy: "step s s' \<Longrightarrow> live s \<Longrightarrow> \<not> live s' \<Longrightarrow> destroy m = Some m' \<Longrightarrow>
     locked_step step own live acquire lock unlock create destroy (s, m) (s', m')"

text \<open>A thread is about to make a call on the lock that is undefined.\<close>

inductive lock_fault ::
  "('s \<Rightarrow> 's \<Rightarrow> bool) \<Rightarrow> ('s \<Rightarrow> nat option) \<Rightarrow> ('s \<Rightarrow> bool) \<Rightarrow> (nat \<Rightarrow> 's \<Rightarrow> 's option) \<Rightarrow>
   (nat \<Rightarrow> 'm \<Rightarrow> 'm outcome option) \<Rightarrow> (nat \<Rightarrow> 'm \<Rightarrow> 'm option) \<Rightarrow> ('m \<Rightarrow> 'm option) \<Rightarrow> 's \<times> 'm \<Rightarrow> bool"
  for step own live acquire lock unlock destroy where
  fault_acquire: "acquire i s = Some s' \<Longrightarrow> lock i m = None \<Longrightarrow> lock_fault step own live acquire lock unlock destroy (s, m)"
| fault_release: "step s s' \<Longrightarrow> own s = Some i \<Longrightarrow> own s' = None \<Longrightarrow> unlock i m = None \<Longrightarrow>
     lock_fault step own live acquire lock unlock destroy (s, m)"
| fault_destroy: "step s s' \<Longrightarrow> live s \<Longrightarrow> \<not> live s' \<Longrightarrow> destroy m = None \<Longrightarrow>
     lock_fault step own live acquire lock unlock destroy (s, m)"

text \<open>The invariant of the composed system: while the lock exists, its owner is the one the client believes in; otherwise
  nobody owns it and every lock call is undefined.\<close>

definition lock_agree ::
  "('m \<Rightarrow> bool) \<Rightarrow> ('m \<Rightarrow> nat option) \<Rightarrow> (nat \<Rightarrow> 'm \<Rightarrow> 'm outcome option) \<Rightarrow> ('s \<Rightarrow> nat option) \<Rightarrow> ('s \<Rightarrow> bool) \<Rightarrow> ('s \<Rightarrow> bool) \<Rightarrow>
   's \<times> 'm \<Rightarrow> bool" where
  "lock_agree ready owner lock own live ok x \<longleftrightarrow> ok (fst x) \<and>
     (if live (fst x) then ready (snd x) \<and> owner (snd x) = own (fst x) else own (fst x) = None \<and> (\<forall>t. lock t (snd x) = None))"

lemma agreeD:
  assumes "lock_agree ready owner lock own live ok (s, m)"
  shows "ok s" "live s \<Longrightarrow> ready m \<and> owner m = own s" "\<not> live s \<Longrightarrow> own s = None \<and> (\<forall>t. lock t m = None)"
  using assms by (simp_all add: lock_agree_def)

section \<open>The life of a lock\<close>

locale lock_lifecycle = lock_contract ready owner lock trylock unlock
  for ready :: "'m \<Rightarrow> bool" and owner and lock and trylock and unlock +
  fixes create :: "'m \<Rightarrow> 'm option" and destroy :: "'m \<Rightarrow> 'm option"
  assumes create_law: "\<exists>m'. create m = Some m' \<and> ready m' \<and> owner m' = None"
    and destroy_free: "ready m \<Longrightarrow> owner m = None \<Longrightarrow> \<exists>m'. destroy m = Some m' \<and> (\<forall>t. lock t m' = None)"
    and destroy_held: "ready m \<Longrightarrow> owner m = Some u \<Longrightarrow> destroy m = None"

text \<open>What a client promises: it starts no lock call while it owns the lock, and its own account of the owner changes only by
  acquiring and releasing.\<close>

locale lock_client = lock_lifecycle ready owner lock trylock unlock create destroy
  for ready :: "'m \<Rightarrow> bool" and owner and lock and trylock and unlock and create and destroy +
  fixes step :: "'s \<Rightarrow> 's \<Rightarrow> bool" and own :: "'s \<Rightarrow> nat option" and live :: "'s \<Rightarrow> bool"
    and acquire :: "nat \<Rightarrow> 's \<Rightarrow> 's option" and inv :: "'s \<Rightarrow> bool"
  assumes step_inv: "step s s' \<Longrightarrow> inv s \<Longrightarrow> inv s'"
    and acquire_step: "inv s \<Longrightarrow> acquire i s = Some s' \<Longrightarrow> own s = None \<Longrightarrow> step s s'"
    and acquire_own: "acquire i s = Some s' \<Longrightarrow> own s' = Some i \<and> live s' = live s"
    and acquire_other: "inv s \<Longrightarrow> acquire i s = Some s' \<Longrightarrow> own s \<noteq> Some i"
    and step_kinds: "inv s \<Longrightarrow> step s s' \<Longrightarrow>
      own s' = own s \<or> own s \<noteq> None \<and> own s' = None \<and> live s' = live s \<or> (\<exists>i. own s = None \<and> acquire i s = Some s')"
begin

abbreviation agree :: "'s \<times> 'm \<Rightarrow> bool" where
  "agree \<equiv> lock_agree ready owner lock own live inv"

lemmas agree_def = lock_agree_def [of ready owner lock own live inv]

lemmas ls_acquire = locked_step.lk_acquire [where step = step and own = own and live = live and acquire = acquire and lock = lock and unlock = unlock
    and create = create and destroy = destroy]
lemmas ls_release = locked_step.lk_release [where step = step and own = own and live = live and acquire = acquire and lock = lock and unlock = unlock
    and create = create and destroy = destroy]
lemmas ls_local = locked_step.lk_local [where step = step and own = own and live = live and acquire = acquire and lock = lock and unlock = unlock
    and create = create and destroy = destroy]
lemmas ls_create = locked_step.lk_create [where step = step and own = own and live = live and acquire = acquire and lock = lock and unlock = unlock
    and create = create and destroy = destroy]
lemmas ls_destroy = locked_step.lk_destroy [where step = step and own = own and live = live and acquire = acquire and lock = lock and unlock = unlock
    and create = create and destroy = destroy]

lemma acquire_free:
  assumes "agree (s, m)" "acquire i s = Some s'" "lock i m = Some (Returns m')"
  shows "step s s' \<and> live s \<and> own s = None \<and> owner m' = Some i \<and> ready m'"
proof -
  have inv: "inv s" and l: "live s" using assms(1,3) by (auto simp: agree_def split: if_splits)
  have m: "ready m" "owner m = own s" using assms(1) l by (simp_all add: agree_def)
  have o: "owner m \<noteq> Some i" using acquire_other [OF inv assms(2)] m(2) by simp
  then have n: "owner m = None" using grant_needs_free [OF m(1) disjI1 [OF assms(3)] o] by simp
  then show ?thesis using acquire_step [OF inv assms(2)] lock_free [OF m(1) n, of i] assms(3) m(2) l by auto
qed

lemma locked_refines:
  assumes "locked_step step own live acquire lock unlock create destroy x x'" "agree x"
  shows "step (fst x) (fst x') \<and> agree x'"
  using assms
proof (induction rule: locked_step.induct)
  case (lk_acquire i s s' m m')
  note f = acquire_free [OF lk_acquire.prems lk_acquire.hyps]
  then have "inv s'" using step_inv lk_acquire.prems by (auto simp: agree_def)
  then show ?case using f acquire_own [OF lk_acquire.hyps(1)] by (simp add: agree_def)
next
  case (lk_release s s' i m m')
  have inv: "inv s" "inv s'" using lk_release step_inv by (auto simp: agree_def)
  have l: "live s" "ready m" "owner m = Some i" using lk_release.prems lk_release.hyps(2) by (auto simp: agree_def split: if_splits)
  have "live s'" using step_kinds [OF inv(1) lk_release.hyps(1)] l(1) lk_release.hyps(2,3) by auto
  then show ?case using unlock_own [OF l(2,3)] lk_release.hyps inv(2) by (auto simp: agree_def)
next
  case (lk_local s s' m)
  then show ?case using step_inv by (auto simp: agree_def)
next
  case (lk_create s s' m m')
  have inv: "inv s" "inv s'" and n: "own s = None" using lk_create step_inv by (auto simp: agree_def)
  have "own s' = None" using step_kinds [OF inv(1) lk_create.hyps(1)] lk_create.hyps(2,3) n acquire_own by metis
  then show ?case using create_law [of m] lk_create.hyps inv(2) by (auto simp: agree_def)
next
  case (lk_destroy s s' m m')
  have inv: "inv s" "inv s'" and m: "ready m" "owner m = own s" using lk_destroy step_inv by (auto simp: agree_def)
  have n: "owner m = None" using destroy_held [OF m(1)] lk_destroy.hyps(4) by (cases "owner m") auto
  then have "own s' = None" using step_kinds [OF inv(1) lk_destroy.hyps(1)] lk_destroy.hyps(2,3) m(2) acquire_own by metis
  then show ?case using destroy_free [OF m(1) n] lk_destroy.hyps inv(2) by (auto simp: agree_def)
qed

lemma locked_runs_refine:
  assumes "(locked_step step own live acquire lock unlock create destroy)\<^sup>*\<^sup>* x x'" "agree x"
  shows "step\<^sup>*\<^sup>* (fst x) (fst x') \<and> agree x'"
  using assms(1)
proof (induction rule: rtranclp_induct)
  case (step y z)
  then show ?case using locked_refines [OF step.hyps(2)] by (auto intro: rtranclp.rtrancl_into_rtrancl)
qed (simp add: assms(2))

lemma locked_bounded:
  assumes "(locked_step step own live acquire lock unlock create destroy ^^ n) x x'" "agree x"
  shows "(step ^^ n) (fst x) (fst x') \<and> agree x'"
  using assms(1)
proof (induction n arbitrary: x')
  case (Suc n)
  then obtain y where y: "(locked_step step own live acquire lock unlock create destroy ^^ n) x y"
      "locked_step step own live acquire lock unlock create destroy y x'" by auto
  then show ?case using Suc.IH [OF y(1)] locked_refines [OF y(2)] by auto
qed (simp add: assms(2))

text \<open>The lock stands in the way of no step the client can make, but for a destruction under an owner and a lock call on a lock that does not exist.\<close>

lemma locked_possible:
  assumes "agree (s, m)" "step s s'" "live s \<Longrightarrow> \<not> live s' \<Longrightarrow> own s = None" "\<not> live s \<Longrightarrow> own s' = None"
  shows "\<exists>m'. locked_step step own live acquire lock unlock create destroy (s, m) (s', m')"
proof -
  have inv: "inv s" using assms(1) by (simp add: agree_def)
  consider (same) "own s' = own s" "live s' = live s" | (create) "\<not> live s" "live s'" | (destroy) "live s" "\<not> live s'"
    | (release) i where "own s = Some i" "own s' = None" | (acquire) i where "live s" "own s = None" "acquire i s = Some s'"
    using step_kinds [OF inv assms(2)] acquire_own assms(4) by (metis not_None_eq)
  then show ?thesis
  proof cases
    case same
    then show ?thesis using ls_local [OF assms(2)] by blast
  next
    case create
    then show ?thesis using ls_create [OF assms(2)] create_law by blast
  next
    case destroy
    then show ?thesis using ls_destroy [OF assms(2)] destroy_free [of m] assms(1,3) by (auto simp: agree_def)
  next
    case (release i)
    have "ready m \<and> owner m = Some i" using assms(1) release(1) by (auto simp: agree_def split: if_splits)
    then show ?thesis using ls_release [OF assms(2) release] unlock_own by blast
  next
    case (acquire i)
    then have "ready m \<and> owner m = None" using assms(1) by (simp add: agree_def)
    then show ?thesis using ls_acquire [OF acquire(3)] lock_free by blast
  qed
qed

lemma runs_inv: "step\<^sup>*\<^sup>* s s' \<Longrightarrow> inv s \<Longrightarrow> inv s'"
  by (induction rule: rtranclp_induct) (auto intro: step_inv)

lemma locked_runs_complete:
  assumes "step\<^sup>*\<^sup>* s s'" "agree (s, m)" "good s'"
    "\<And>y z. inv y \<Longrightarrow> step y z \<Longrightarrow> good z \<Longrightarrow> good y \<and> (live y \<and> \<not> live z \<longrightarrow> own y = None) \<and> (\<not> live y \<longrightarrow> own z = None)"
  shows "\<exists>m'. (locked_step step own live acquire lock unlock create destroy)\<^sup>*\<^sup>* (s, m) (s', m')"
  using assms(1,3)
proof (induction rule: rtranclp_induct)
  case (step y z)
  have "inv y" using runs_inv [OF step.hyps(1)] assms(2) by (simp add: agree_def)
  note k = assms(4) [OF this step.hyps(2) step.prems]
  with step.IH obtain m1 where m1: "(locked_step step own live acquire lock unlock create destroy)\<^sup>*\<^sup>* (s, m) (y, m1)" by blast
  then have "agree (y, m1)" using locked_runs_refine assms(2) by blast
  from locked_possible [OF this step.hyps(2)] k obtain m2 where
    "locked_step step own live acquire lock unlock create destroy (y, m1) (z, m2)" by blast
  with m1 show ?case by (blast intro: rtranclp.rtrancl_into_rtrancl)
qed blast

text \<open>Which calls are undefined: exactly those two.\<close>

lemma fault_cases:
  assumes "agree (s, m)"
  shows "lock_fault step own live acquire lock unlock destroy (s, m) \<longleftrightarrow>
    (\<exists>i s'. \<not> live s \<and> acquire i s = Some s') \<or> (\<exists>s'. step s s' \<and> live s \<and> \<not> live s' \<and> own s \<noteq> None)" (is "_ = ?R")
proof
  assume "lock_fault step own live acquire lock unlock destroy (s, m)"
  then show ?R
  proof cases
    case (fault_acquire i s')
    have "\<not> live s"
    proof
      assume "live s"
      then have m: "ready m" "owner m \<noteq> Some i" using assms acquire_other [OF _ fault_acquire(1)] by (auto simp: agree_def)
      then show False using lock_free [OF m(1), of i] lock_busy [OF m(1), of _ i] fault_acquire(2) by (cases "owner m") auto
    qed
    then show ?thesis using fault_acquire by blast
  next
    case (fault_release s' i)
    then have "ready m \<and> owner m = Some i" using assms by (auto simp: agree_def split: if_splits)
    then show ?thesis using unlock_own [of m i] fault_release by auto
  next
    case (fault_destroy s')
    then have "owner m \<noteq> None \<and> owner m = own s" using assms destroy_free [of m] by (auto simp: agree_def)
    then show ?thesis using fault_destroy(1-3) by metis
  qed
next
  assume ?R
  then show "lock_fault step own live acquire lock unlock destroy (s, m)"
    using assms destroy_held [of m] by (auto simp: agree_def intro: fault_acquire fault_destroy)
qed

end

section \<open>The two locks\<close>

text \<open>Creation that succeeds, and destruction, as the clients see them.\<close>

definition mutex_create :: "int \<Rightarrow> d4np_mutex \<Rightarrow> d4np_mutex option" where
  "mutex_create rc m = snd (d4np_mutex_init rc (Some m))"

definition mutex_destroy :: "d4np_mutex \<Rightarrow> d4np_mutex option" where
  "mutex_destroy m = Option.bind (d4np_mutex_destroy (Some m)) id"

definition mutex_create_win32 :: "d4np_mutex_win32 \<Rightarrow> d4np_mutex_win32 option" where
  "mutex_create_win32 m = snd (d4np_mutex_init_win32 (Some m))"

definition mutex_destroy_win32 :: "d4np_mutex_win32 \<Rightarrow> d4np_mutex_win32 option" where
  "mutex_destroy_win32 m = Option.bind (d4np_mutex_destroy_win32 (Some m)) id"

abbreviation mutex_lock :: "nat \<Rightarrow> d4np_mutex \<Rightarrow> d4np_mutex outcome option" where
  "mutex_lock t m \<equiv> d4np_mutex_lock t (Some m)"

abbreviation mutex_unlock :: "nat \<Rightarrow> d4np_mutex \<Rightarrow> d4np_mutex option" where
  "mutex_unlock t m \<equiv> d4np_mutex_unlock t (Some m)"

abbreviation mutex_lock_win32 :: "nat \<Rightarrow> d4np_mutex_win32 \<Rightarrow> d4np_mutex_win32 outcome option" where
  "mutex_lock_win32 t m \<equiv> d4np_mutex_lock_win32 t (Some m)"

abbreviation mutex_unlock_win32 :: "nat \<Rightarrow> d4np_mutex_win32 \<Rightarrow> d4np_mutex_win32 option" where
  "mutex_unlock_win32 t m \<equiv> d4np_mutex_unlock_win32 t (Some m)"

interpretation mutex_life: lock_lifecycle mx_ready mx_owner mutex_lock mutex_trylock mutex_unlock "mutex_create 0" mutex_destroy
  by unfold_locales (auto simp: mutex_create_def mutex_destroy_def d4np_mutex_init_def d4np_mutex_destroy_def d4np_mutex_lock_def)

interpretation section_life: lock_lifecycle cs_single cs_owner mutex_lock_win32 mutex_trylock_win32 mutex_unlock_win32
    mutex_create_win32 mutex_destroy_win32
  by unfold_locales
    (auto simp: mutex_create_win32_def mutex_destroy_win32_def d4np_mutex_init_win32_def d4np_mutex_destroy_win32_def
      d4np_mutex_lock_win32_def cs_single_def)

lemma unusable_destroyed: "\<forall>t. mutex_lock t m = None \<Longrightarrow> \<not> mx_ready m"
  by (auto simp: d4np_mutex_lock_def split: if_splits option.splits) (metis n_not_Suc_n option.exhaust)

end
