(* ===== verification/Thread_Pool_Lock.thy ===== *)
theory Thread_Pool_Lock
  imports Thread_Pool_Win32 Lock_Client
begin

text \<open>
  The thread pool on its lock. The pool of \<open>Thread_Pool_Semaphore\<close> and that of \<open>Thread_Pool_Win32\<close> guard the queue with the
  field \<open>tp_lock\<close>; here \<open>pool->lock\<close> is the mutex of \<open>concurrency/mutex.c\<close>, in both branches. The pool then behaves as
  before, the lock calls are defined, and the shutdown ends, with one exception that is stated exactly: a
  \<open>d4np_thread_pool_submit\<close> that has not returned when \<open>d4np_thread_pool_destroy\<close> destroys the mutex.
\<close>

section \<open>The pool as a client of a lock\<close>

text \<open>The calls of \<open>d4np_mutex_lock\<close> in \<open>pool_worker\<close>, \<open>submit\<close> and \<open>destroy\<close> return; the mutex is destroyed at the end of \<open>destroy\<close>.\<close>

fun enters :: "tp_pc \<Rightarrow> tp_pc option" where
  "enters WLock = Some WHold"
| "enters (SLock n) = Some (SHold n)"
| "enters DLock = Some DHold"
| "enters _ = None"

definition pool_acquire :: "nat \<Rightarrow> tp \<Rightarrow> tp option" where
  "pool_acquire i p =
     (if i < length (tp_pcs p) then map_option (\<lambda>pc. goto i pc (p\<lparr>tp_lock := Some i\<rparr>)) (enters (tp_pcs p ! i)) else None)"

definition pool_live :: "tp \<Rightarrow> bool" where
  "pool_live p \<longleftrightarrow> DDone \<notin> set (tp_pcs p)"

text \<open>The pool on the POSIX semaphore, which a thread has left before it calls \<open>d4np_mutex_lock\<close>.\<close>

definition sem_acquire :: "nat \<Rightarrow> tp \<times> sem_sys \<Rightarrow> (tp \<times> sem_sys) option" where
  "sem_acquire i = (\<lambda>(p, q). if sat q i Outside then map_option (\<lambda>p'. (p', q)) (pool_acquire i p) else None)"

definition pool_locked_step :: "(tp \<times> sem_sys) \<times> d4np_mutex \<Rightarrow> (tp \<times> sem_sys) \<times> d4np_mutex \<Rightarrow> bool" where
  "pool_locked_step = locked_step pool_sem_step (tp_lock \<circ> fst) (pool_live \<circ> fst) sem_acquire mutex_lock mutex_unlock (mutex_create 0) mutex_destroy"

definition pool_locked_advance :: "(tp \<times> sem_sys) \<times> d4np_mutex \<Rightarrow> (tp \<times> sem_sys) \<times> d4np_mutex \<Rightarrow> bool" where
  "pool_locked_advance = locked_step pool_advance (tp_lock \<circ> fst) (pool_live \<circ> fst) sem_acquire mutex_lock mutex_unlock (mutex_create 0) mutex_destroy"

definition pool_lock_fault :: "(tp \<times> sem_sys) \<times> d4np_mutex \<Rightarrow> bool" where
  "pool_lock_fault = lock_fault pool_sem_step (tp_lock \<circ> fst) (pool_live \<circ> fst) sem_acquire mutex_lock mutex_unlock mutex_destroy"

definition pool_locked_start :: "ptr \<Rightarrow> nat \<Rightarrow> nat \<Rightarrow> (tp \<times> sem_sys) \<times> d4np_mutex" where
  "pool_locked_start handles workers clients = (pool_sem_start handles workers clients, \<lparr>mx_ready = True, mx_owner = None\<rparr>)"

text \<open>The pool on Windows.\<close>

definition win_acquire :: "nat \<Rightarrow> tp \<times> win_sys \<Rightarrow> (tp \<times> win_sys) option" where
  "win_acquire i = (\<lambda>(p, w). map_option (\<lambda>p'. (p', w)) (pool_acquire i p))"

definition pool_locked_step_win32 :: "nat \<Rightarrow> (tp \<times> win_sys) \<times> d4np_mutex_win32 \<Rightarrow> (tp \<times> win_sys) \<times> d4np_mutex_win32 \<Rightarrow> bool" where
  "pool_locked_step_win32 loc = locked_step (pool_step_win32 loc) (tp_lock \<circ> fst) (pool_live \<circ> fst) win_acquire
     mutex_lock_win32 mutex_unlock_win32 mutex_create_win32 mutex_destroy_win32"

definition pool_lock_fault_win32 :: "nat \<Rightarrow> (tp \<times> win_sys) \<times> d4np_mutex_win32 \<Rightarrow> bool" where
  "pool_lock_fault_win32 loc = lock_fault (pool_step_win32 loc) (tp_lock \<circ> fst) (pool_live \<circ> fst) win_acquire
     mutex_lock_win32 mutex_unlock_win32 mutex_destroy_win32"

definition pool_locked_start_win32 :: "nat \<Rightarrow> ptr \<Rightarrow> nat \<Rightarrow> nat \<Rightarrow> win_sys \<Rightarrow> (tp \<times> win_sys) \<times> d4np_mutex_win32" where
  "pool_locked_start_win32 loc handles workers clients w =
     (pool_start_win32 loc handles workers clients w, \<lparr>cs_ready = True, cs_owner = None, cs_depth = 0\<rparr>)"

section \<open>The laws of the client\<close>

lemma acquire_iff: "pool_acquire i p = Some p' \<longleftrightarrow> (\<exists>old pc. at p i old \<and> enters old = Some pc \<and> p' = goto i pc (p\<lparr>tp_lock := Some i\<rparr>))"
  by (auto simp: pool_acquire_def at_def)

lemma enters_cases:
  assumes "enters old = Some pc"
  shows "\<not> holds_lock old" "holds_lock pc" "old \<noteq> pc" "old \<notin> {SIdle, DIdle, DDone}" "pc \<noteq> DDone"
  using assms by (cases old; auto)+

lemma acquire_tp_step:
  assumes "pool_acquire i p = Some p'" "tp_lock p = None"
  shows "tp_step p p'"
proof -
  obtain old pc where o: "at p i old" "enters old = Some pc" "p' = goto i pc (p\<lparr>tp_lock := Some i\<rparr>)" using assms(1) by (auto simp: acquire_iff)
  from o(2) show ?thesis using o(1,3) tp_w_lock [OF _ assms(2)] tp_s_lock [OF _ assms(2)] tp_d_lock [OF _ assms(2)] by (cases old) auto
qed

lemma acquire_continues:
  assumes "pool_acquire i p = Some p'" "tp_lock p = None"
  shows "tp_continues p p'"
proof -
  obtain old pc where o: "at p i old" "enters old = Some pc" "p' = goto i pc (p\<lparr>tp_lock := Some i\<rparr>)" using assms(1) by (auto simp: acquire_iff)
  then have "tp_pcs p' = (tp_pcs p)[i := pc]" by simp
  then show ?thesis using o(1) enters_cases [OF o(2)] acquire_tp_step [OF assms] unfolding tp_continues_def
    by (intro conjI exI [of _ i] exI [of _ old] exI [of _ pc]) auto
qed

lemma live_move:
  assumes "at p i old" "tp_pcs p' = (tp_pcs p)[i := v]" "old \<noteq> DDone" "v \<noteq> DDone"
  shows "pool_live p' = pool_live p"
proof -
  have i: "i < length (tp_pcs p)" "tp_pcs p ! i = old" using assms(1) by (simp_all add: at_def)
  have "cnt (\<lambda>pc. pc = DDone) (tp_pcs p') = cnt (\<lambda>pc. pc = DDone) (tp_pcs p)"
    using cnt_upd [OF i(1), of "\<lambda>pc. pc = DDone" v] i(2) assms(2-4) by simp
  moreover have "pool_live s \<longleftrightarrow> cnt (\<lambda>pc. pc = DDone) (tp_pcs s) = 0" for s by (auto simp: pool_live_def cnt_0)
  ultimately show ?thesis by simp
qed

lemma acquire_live:
  assumes "pool_acquire i p = Some p'"
  shows "tp_lock p' = Some i \<and> pool_live p' = pool_live p"
proof -
  obtain old pc where o: "at p i old" "enters old = Some pc" "p' = goto i pc (p\<lparr>tp_lock := Some i\<rparr>)" using assms by (auto simp: acquire_iff)
  then show ?thesis using live_move [OF o(1), of p' pc] enters_cases [OF o(2)] by simp
qed

lemma acquire_keeps: "pool_acquire i p = Some p' \<Longrightarrow> tp_nodes p' = tp_nodes p \<and> tp_items p' = tp_items p \<and> (\<forall>j. j \<noteq> i \<longrightarrow> tp_pcs p' ! j = tp_pcs p ! j)"
  by (auto simp: acquire_iff)

lemma good_lock: "tp_good p \<Longrightarrow> mutex_ok holds_lock (tp_lock p) (tp_pcs p)"
  by (auto simp: tp_good_def tp_inv_def)

lemma acquire_not_owner: "tp_good p \<Longrightarrow> pool_acquire i p = Some p' \<Longrightarrow> tp_lock p \<noteq> Some i"
  using good_lock [of p] enters_cases(1) by (auto simp: acquire_iff mutex_ok_def at_def)

text \<open>What a step of the pool does to the lock.\<close>

lemma tp_step_lock:
  assumes "tp_step p p'"
  shows "tp_lock p' = tp_lock p \<or> tp_lock p \<noteq> None \<and> tp_lock p' = None \<and> pool_live p' = pool_live p \<or>
    (\<exists>i. tp_lock p = None \<and> pool_acquire i p = Some p')"
proof -
  have rel: ?thesis if "at p i old" "old \<noteq> DDone" "tp_lock p = Some j" "tp_lock p' = None" "tp_pcs p' = (tp_pcs p)[i := v]" "v \<noteq> DDone" for i j old v
    using live_move [OF that(1,5,2,6)] that(3,4) by simp
  have acq: ?thesis if "at p i old" "enters old = Some v" "tp_lock p = None" "p' = goto i v (p\<lparr>tp_lock := Some i\<rparr>)" for i old v
    using that acquire_iff [of i p p'] by blast
  from assms show ?thesis
  proof (rule tp_stepE)
    assume "pool_worker p p'"
    then show ?thesis
    proof cases
      case (w_lock i)
      then show ?thesis by (intro acq [of i WLock]) simp_all
    next
      case (w_exit i)
      then show ?thesis by (intro rel [of i WHold i WDone]) simp_all
    next
      case (w_take i n x)
      then show ?thesis by (intro rel [of i WHold i "WRun n"]) simp_all
    qed simp_all
  next
    assume "d4np_thread_pool_submit p p'"
    then show ?thesis
    proof cases
      case (s_lock i n)
      then show ?thesis by (intro acq [of i "SLock n"]) simp_all
    next
      case (s_reject i n)
      then show ?thesis by (intro rel [of i "SHold n" i "SReject n"]) simp_all
    next
      case (s_append i n x s1)
      then show ?thesis using append_pcs [OF s_append(6)] by (intro rel [of i "SHold n" i SPost]) simp_all
    qed simp_all
  next
    assume "d4np_thread_pool_destroy p p'"
    then show ?thesis
    proof cases
      case (d_lock i)
      then show ?thesis by (intro acq [of i DLock]) simp_all
    next
      case (d_down i)
      then show ?thesis by (intro rel [of i DHold i "DPost (tp_thread_count p)"]) simp_all
    qed simp_all
  qed
qed

text \<open>The invariants of the clients, with the bounds on the number of workers.\<close>

definition sem_client_ok :: "ptr \<Rightarrow> nat \<Rightarrow> nat \<Rightarrow> tp \<times> sem_sys \<Rightarrow> bool" where
  "sem_client_ok handles workers clients x \<longleftrightarrow> 0 < workers \<and> workers < 2 ^ 61 \<and> pool_sem_inv (tp_start handles workers clients) x"

definition win_client_ok :: "nat \<Rightarrow> nat \<Rightarrow> ptr \<Rightarrow> nat \<Rightarrow> nat \<Rightarrow> tp \<times> win_sys \<Rightarrow> bool" where
  "win_client_ok loc ob handles workers clients x \<longleftrightarrow> 0 < workers \<and>
     pool_on_inv (\<lambda>w. map_of (win_open w) (win_opaque w loc) = Some ob \<and> win_max w ob = LONG_MAX) (\<lambda>w. win_count w ob) (tp_start handles workers clients) x"

lemma sem_client_good: "sem_client_ok handles workers clients x \<Longrightarrow> tp_good (fst x)"
  by (auto simp: sem_client_ok_def pool_sem_inv_def case_prod_unfold intro: tp_reachable_good)

lemma win_client_good: "win_client_ok loc ob handles workers clients x \<Longrightarrow> tp_good (fst x)"
  by (auto simp: win_client_ok_def pool_on_inv_def case_prod_unfold intro: tp_reachable_good)

lemma post_done_lock [simp]: "tp_lock (post_done i p) = tp_lock p"
  by (simp add: post_done_def Let_def split: tp_pc.splits)

lemma sem_acquire_iff: "sem_acquire i (p, q) = Some x' \<longleftrightarrow> sat q i Outside \<and> (\<exists>p'. pool_acquire i p = Some p' \<and> x' = (p', q))"
  by (auto simp: sem_acquire_def)

lemma win_acquire_iff: "win_acquire i (p, w) = Some x' \<longleftrightarrow> (\<exists>p'. pool_acquire i p = Some p' \<and> x' = (p', w))"
  by (auto simp: win_acquire_def)

lemma local_acquire:
  assumes "pool_acquire i p = Some p'" "pool_local p q p'" "linked p q"
  shows "sem_acquire i (p, q) = Some (p', q)"
proof -
  obtain old pc where o: "at p i old" "enters old = Some pc" "p' = goto i pc (p\<lparr>tp_lock := Some i\<rparr>)" using assms(1) by (auto simp: acquire_iff)
  then have "sat q i Outside" using assms(2) enters_cases(3) [OF o(2)] by (auto simp: pool_local_def at_def)
  then show ?thesis using assms(1) by (simp add: sem_acquire_iff)
qed

lemma acquire_local:
  assumes "sem_acquire i (p, q) = Some (p', q)" "dom (tp_nodes p) \<subseteq> {..<ADDR_LIMIT}"
  shows "pool_local p q p'"
  using assms acquire_keeps [of i p p'] unfolding sem_acquire_iff pool_local_def by auto

lemma acquire_advance:
  assumes "sem_acquire i x = Some x'" "sem_client_ok handles workers clients x" "tp_lock (fst x) = None"
  shows "pool_advance x x'"
proof -
  obtain p q where x: "x = (p, q)" by (cases x)
  obtain p' where p': "pool_acquire i p = Some p'" "x' = (p', q)" using assms(1) by (auto simp: x sem_acquire_iff)
  have "dom (tp_nodes p) \<subseteq> {..<ADDR_LIMIT}" using assms(2) by (simp add: x sem_client_ok_def pool_sem_inv_def)
  then have "pool_local p q p'" using acquire_local assms(1) by (simp add: x p'(2))
  then show ?thesis using pa_local acquire_continues [OF p'(1)] assms(3) by (simp add: x p'(2))
qed

text \<open>A step of the pool on its semaphore is one of the pool, or leaves the lock and the destroyer alone.\<close>

lemma sem_step_kinds:
  assumes "pool_sem_step x x'" "sem_client_ok handles workers clients x"
  shows "(tp_lock \<circ> fst) x' = (tp_lock \<circ> fst) x \<or>
    (tp_lock \<circ> fst) x \<noteq> None \<and> (tp_lock \<circ> fst) x' = None \<and> (pool_live \<circ> fst) x' = (pool_live \<circ> fst) x \<or>
    (\<exists>i. (tp_lock \<circ> fst) x = None \<and> sem_acquire i x = Some x')"
proof -
  have l: "linked (fst x) (snd x)" using assms(2) by (simp add: sem_client_ok_def pool_sem_inv_def case_prod_unfold)
  have k: ?thesis if "tp_step (fst x) p'" "pool_local (fst x) (snd x) p'" "x' = (p', snd x)" for p'
    using tp_step_lock [OF that(1)] local_acquire [OF _ that(2) l] that(3) by auto
  from assms(1) show ?thesis
  proof cases
    case ps_advance
    then show ?thesis
    proof cases
      case (pa_local p p' q)
      then show ?thesis using k [of p'] by (simp add: tp_continues_def)
    qed simp_all
  next
    case (ps_client p p' q)
    then show ?thesis using k [of p'] by simp
  qed simp
qed

lemma advance_is_step: "pool_advance x x' \<Longrightarrow> pool_sem_step x x'"
  by (rule ps_advance)

interpretation sem_lock: lock_client mx_ready mx_owner mutex_lock mutex_trylock mutex_unlock "mutex_create 0" mutex_destroy
    pool_sem_step "tp_lock \<circ> fst" "pool_live \<circ> fst" sem_acquire "sem_client_ok handles workers clients" for handles workers clients
proof unfold_locales
  fix x x' i
  show "pool_sem_step x x' \<Longrightarrow> sem_client_ok handles workers clients x \<Longrightarrow> sem_client_ok handles workers clients x'"
    using pool_sem_step_inv by (auto simp: sem_client_ok_def)
  show "sem_client_ok handles workers clients x \<Longrightarrow> sem_acquire i x = Some x' \<Longrightarrow> (tp_lock \<circ> fst) x = None \<Longrightarrow> pool_sem_step x x'"
    using acquire_advance [of i x x'] by (simp add: ps_advance)
  show "(tp_lock \<circ> fst) x' = Some i \<and> (pool_live \<circ> fst) x' = (pool_live \<circ> fst) x" if "sem_acquire i x = Some x'"
    using that acquire_live by (cases x) (auto simp: sem_acquire_iff)
  show "(tp_lock \<circ> fst) x \<noteq> Some i" if "sem_client_ok handles workers clients x" "sem_acquire i x = Some x'"
    using that acquire_not_owner [OF sem_client_good [OF that(1)]] by (cases x) (auto simp: sem_acquire_iff)
qed (rule sem_step_kinds)

interpretation sem_lock_advance: lock_client mx_ready mx_owner mutex_lock mutex_trylock mutex_unlock "mutex_create 0" mutex_destroy
    pool_advance "tp_lock \<circ> fst" "pool_live \<circ> fst" sem_acquire "sem_client_ok handles workers clients" for handles workers clients
proof unfold_locales
  fix x x' i
  show "pool_advance x x' \<Longrightarrow> sem_client_ok handles workers clients x \<Longrightarrow> sem_client_ok handles workers clients x'"
    by (rule sem_lock.step_inv [OF advance_is_step])
  show "sem_client_ok handles workers clients x \<Longrightarrow> sem_acquire i x = Some x' \<Longrightarrow> (tp_lock \<circ> fst) x = None \<Longrightarrow> pool_advance x x'"
    using acquire_advance by auto
qed (rule sem_lock.acquire_own sem_lock.acquire_other sem_lock.step_kinds, (assumption | rule advance_is_step)+)+

lemma win_step_kinds:
  assumes "pool_step_win32 loc x x'" "win_client_ok loc ob handles workers clients x"
  shows "(tp_lock \<circ> fst) x' = (tp_lock \<circ> fst) x \<or>
    (tp_lock \<circ> fst) x \<noteq> None \<and> (tp_lock \<circ> fst) x' = None \<and> (pool_live \<circ> fst) x' = (pool_live \<circ> fst) x \<or>
    (\<exists>i. (tp_lock \<circ> fst) x = None \<and> win_acquire i x = Some x')"
proof -
  have k: ?thesis if "tp_step (fst x) p'" "x' = (p', snd x)" for p'
    using tp_step_lock [OF that(1)] that(2) by (cases x) (auto simp: win_acquire_iff)
  have j: ?thesis if "tp_step (fst x) (fst x')" "joins (fst x) (fst x')"
    using tp_step_lock [OF that(1)] acquire_live that(2) by (auto simp: joins_def pool_live_def)
  from assms(1) show ?thesis unfolding pool_step_win32_def
  proof cases
    case on_advance
    then show ?thesis
    proof cases
      case (po_local p p' w)
      then show ?thesis using k [of p'] by (simp add: tp_continues_def)
    next
      case (po_join p p' w w')
      then show ?thesis using j by (simp add: tp_continues_def)
    qed simp_all
  next
    case (on_client p p' w)
    then show ?thesis using k [of p'] by simp
  qed
qed

interpretation win_lock: lock_client cs_single cs_owner mutex_lock_win32 mutex_trylock_win32 mutex_unlock_win32 mutex_create_win32 mutex_destroy_win32
    "pool_step_win32 loc" "tp_lock \<circ> fst" "pool_live \<circ> fst" win_acquire "win_client_ok loc ob handles workers clients"
  for loc ob handles workers clients
proof unfold_locales
  fix x x' i
  show "pool_step_win32 loc x x' \<Longrightarrow> win_client_ok loc ob handles workers clients x \<Longrightarrow> win_client_ok loc ob handles workers clients x'"
    using win_pool.step_on_inv by (auto simp: win_client_ok_def pool_step_win32_def)
  show "pool_step_win32 loc x x'" if a: "win_client_ok loc ob handles workers clients x" "win_acquire i x = Some x'" "(tp_lock \<circ> fst) x = None"
  proof -
    obtain p w p' where x: "x = (p, w)" "x' = (p', w)" "pool_acquire i p = Some p'" using a(2) by (cases x) (auto simp: win_acquire_iff)
    have "\<not> joins p p'" using acquire_live [OF x(3)] by (auto simp: joins_def pool_live_def)
    then show ?thesis using acquire_tp_step [OF x(3)] acquire_keeps [OF x(3)] a(3) unfolding x(1,2) pool_step_win32_def
      by (intro on_client) (simp_all add: x(1))
  qed
  show "(tp_lock \<circ> fst) x' = Some i \<and> (pool_live \<circ> fst) x' = (pool_live \<circ> fst) x" if "win_acquire i x = Some x'"
    using that acquire_live by (cases x) (auto simp: win_acquire_iff)
  show "(tp_lock \<circ> fst) x \<noteq> Some i" if "win_client_ok loc ob handles workers clients x" "win_acquire i x = Some x'"
    using that acquire_not_owner [OF win_client_good [OF that(1)]] by (cases x) (auto simp: win_acquire_iff)
qed (rule win_step_kinds)

section \<open>Which lock calls are undefined\<close>

text \<open>A call of \<open>submit\<close> is still at its lock call, or between it and the unlock, when the destroyer is done with the workers.\<close>

definition late_submit :: "tp \<Rightarrow> bool" where
  "late_submit p \<longleftrightarrow> (\<exists>i n. at p i (SLock n) \<and> DDone \<in> set (tp_pcs p)) \<or>
     (\<exists>i n d. at p i (SHold n) \<and> at p d (DPost 0) \<and> set (filter is_worker (tp_pcs p)) \<subseteq> {WDone})"

lemma join_step:
  assumes "tp_step p p'" "pool_live p" "\<not> pool_live p'"
  shows "\<exists>d. at p d (DPost 0) \<and> set (filter is_worker (tp_pcs p)) \<subseteq> {WDone}"
  using assms(1)
proof (rule tp_stepE)
  assume "pool_worker p p'"
  then show ?thesis by cases (use assms(2,3) in \<open>auto simp: pool_live_def dest!: set_upd\<close>)
next
  assume "d4np_thread_pool_submit p p'"
  then show ?thesis
  proof cases
    case (s_append i n x s1)
    then show ?thesis using append_pcs [OF s_append(6)] assms(2,3) by (auto simp: pool_live_def dest!: set_upd)
  qed (use assms(2,3) in \<open>auto simp: pool_live_def dest!: set_upd\<close>)
next
  assume "d4np_thread_pool_destroy p p'"
  then show ?thesis
  proof cases
    case (d_join i N)
    then show ?thesis by (intro exI [of _ i]) auto
  qed (use assms(2,3) in \<open>auto simp: pool_live_def dest!: set_upd\<close>)
qed

lemma late_acquire:
  assumes "tp_step\<^sup>*\<^sup>* (tp_start handles workers clients) p" "\<not> pool_live p" "pool_acquire i p = Some p'"
  shows "late_submit p"
proof -
  obtain old pc where o: "at p i old" "enters old = Some pc" using assms(3) by (auto simp: acquire_iff)
  have d: "DDone \<in> set (tp_pcs p)" using assms(2) by (simp add: pool_live_def)
  then obtain j where j: "at p j DDone" by (auto simp: in_set_conv_nth at_def)
  have "old \<noteq> DLock" using one_destroyer [OF single_destroyer_reachable [OF assms(1)] o(1) _ j] o(1) j by (auto simp: at_def)
  moreover have "old \<in> set (tp_pcs p)" using o(1) nth_mem unfolding at_def by metis
  then have "old \<noteq> WLock" using tp_reachable_done [OF assms(1)] d by (auto simp: done_ok_def)
  ultimately obtain n where "old = SLock n" using o(2) by (cases old) auto
  then show ?thesis using o(1) d by (auto simp: late_submit_def)
qed

lemma late_join:
  assumes "tp_step\<^sup>*\<^sup>* (tp_start handles workers clients) p" "0 < workers" "tp_step p p'" "pool_live p" "\<not> pool_live p'" "tp_lock p = Some i"
  shows "late_submit p"
proof -
  obtain d where d: "at p d (DPost 0)" "set (filter is_worker (tp_pcs p)) \<subseteq> {WDone}" using join_step [OF assms(3-5)] by blast
  have i: "i < length (tp_pcs p)" "holds_lock (tp_pcs p ! i)"
    using good_lock [OF tp_reachable_good [OF assms(1,2)]] assms(6) by (auto simp: mutex_ok_def)
  then have a: "at p i (tp_pcs p ! i)" by (simp add: at_def)
  have "tp_pcs p ! i \<noteq> DHold" using one_destroyer [OF single_destroyer_reachable [OF assms(1)] a _ d(1)] d(1) by (auto simp: at_def)
  moreover have "tp_pcs p ! i \<noteq> WHold" using d(2) nth_mem [OF i(1)] by auto
  ultimately obtain n where "tp_pcs p ! i = SHold n" using i(2) by (cases "tp_pcs p ! i") auto
  then show ?thesis using a d by (auto simp: late_submit_def)
qed

lemma sem_step_pool:
  assumes "pool_sem_step x x'" "sem_client_ok handles workers clients x" "(pool_live \<circ> fst) x" "\<not> (pool_live \<circ> fst) x'"
  shows "tp_step (fst x) (fst x')"
  using assms(1)
proof cases
  case ps_advance
  then show ?thesis
  proof cases
    case (pa_take q i p)
    have "linked p q" using assms(2) pa_take(1) by (simp add: sem_client_ok_def pool_sem_inv_def)
    then have "at p i WWait" using linked_at [OF _ pa_take(3)] by (auto simp: at_def)
    then show ?thesis using live_move [of p i WWait "fst x'" WLock] pa_take(1,2) assms(3,4) by simp
  next
    case (pa_inc q i p)
    have "linked p q" using assms(2) pa_inc(1) by (simp add: sem_client_ok_def pool_sem_inv_def)
    then show ?thesis using linked_at [OF _ pa_inc(3)] post_done_step(1) [of p i] pa_inc(1,2) by auto
  qed (use assms(3,4) in \<open>simp_all add: tp_continues_def\<close>)
qed (use assms(3,4) in simp_all)

lemma sem_client_reach: "sem_client_ok handles workers clients x \<Longrightarrow> tp_step\<^sup>*\<^sup>* (tp_start handles workers clients) (fst x) \<and> 0 < workers"
  by (simp add: sem_client_ok_def pool_sem_inv_def case_prod_unfold)

lemma win_client_reach: "win_client_ok loc ob handles workers clients x \<Longrightarrow> tp_step\<^sup>*\<^sup>* (tp_start handles workers clients) (fst x) \<and> 0 < workers"
  by (simp add: win_client_ok_def pool_on_inv_def case_prod_unfold)

lemma sem_fault_late:
  assumes "sem_lock.agree handles workers clients (x, m)" "pool_lock_fault (x, m)"
  shows "late_submit (fst x)"
proof -
  have inv: "sem_client_ok handles workers clients x" using assms(1) by (simp add: lock_agree_def)
  note r = conjunct1 [OF sem_client_reach [OF inv]] conjunct2 [OF sem_client_reach [OF inv]]
  from assms(2) consider (acquire) i x' where "\<not> pool_live (fst x)" "sem_acquire i x = Some x'"
    | (join) x' where "pool_sem_step x x'" "pool_live (fst x)" "\<not> pool_live (fst x')" "tp_lock (fst x) \<noteq> None"
    unfolding pool_lock_fault_def sem_lock.fault_cases [OF assms(1)] by auto
  then show ?thesis
  proof cases
    case (acquire i x')
    then obtain p' where "pool_acquire i (fst x) = Some p'" by (cases x) (auto simp: sem_acquire_iff)
    then show ?thesis by (rule late_acquire [OF r(1) acquire(1)])
  next
    case (join x')
    then have "tp_step (fst x) (fst x')" using sem_step_pool [OF join(1) inv] by simp
    then show ?thesis using late_join [OF r _ join(2,3)] join(4) by blast
  qed
qed

lemma win_step_pool:
  assumes "pool_step_win32 loc x x'" "(pool_live \<circ> fst) x" "\<not> (pool_live \<circ> fst) x'"
  shows "tp_step (fst x) (fst x')"
  using assms(1) unfolding pool_step_win32_def
proof cases
  case on_advance
  then show ?thesis
  proof cases
    case (po_wait p i w w')
    then show ?thesis using live_move [of p i WWait "fst x'" WLock] assms(2,3) by simp
  next
    case (po_post p i pc w w')
    then show ?thesis using post_done_step(1) by simp
  qed (simp_all add: tp_continues_def)
qed simp

lemma win_fault_late:
  assumes "win_lock.agree loc ob handles workers clients (x, m)" "pool_lock_fault_win32 loc (x, m)"
  shows "late_submit (fst x)"
proof -
  have inv: "win_client_ok loc ob handles workers clients x" using assms(1) by (simp add: lock_agree_def)
  note r = conjunct1 [OF win_client_reach [OF inv]] conjunct2 [OF win_client_reach [OF inv]]
  from assms(2) consider (acquire) i x' where "\<not> pool_live (fst x)" "win_acquire i x = Some x'"
    | (join) x' where "pool_step_win32 loc x x'" "pool_live (fst x)" "\<not> pool_live (fst x')" "tp_lock (fst x) \<noteq> None"
    unfolding pool_lock_fault_win32_def win_lock.fault_cases [OF assms(1)] by auto
  then show ?thesis
  proof cases
    case (acquire i x')
    then obtain p' where "pool_acquire i (fst x) = Some p'" by (cases x) (auto simp: win_acquire_iff)
    then show ?thesis by (rule late_acquire [OF r(1) acquire(1)])
  next
    case (join x')
    then have "tp_step (fst x) (fst x')" using win_step_pool [OF join(1)] by simp
    then show ?thesis using late_join [OF r _ join(2,3)] join(4) by blast
  qed
qed

section \<open>Reachable states\<close>

lemma pool_locked_start_agree:
  "0 < workers \<Longrightarrow> workers < 2 ^ 61 \<Longrightarrow> sem_lock.agree handles workers clients (pool_locked_start handles workers clients)"
  using pool_sem_start_inv [of handles workers clients]
  by (auto simp: lock_agree_def pool_locked_start_def sem_client_ok_def pool_sem_start_def pool_live_def tp_start_def)

lemma pool_locked_reachable:
  assumes "pool_locked_step\<^sup>*\<^sup>* (pool_locked_start handles workers clients) (x, m)" "0 < workers" "workers < 2 ^ 61"
  shows "pool_sem_step\<^sup>*\<^sup>* (pool_sem_start handles workers clients) x \<and> sem_lock.agree handles workers clients (x, m)"
  using sem_lock.locked_runs_refine [OF assms(1) [unfolded pool_locked_step_def] pool_locked_start_agree [OF assms(2,3)]]
  by (simp add: pool_locked_start_def)

lemma pool_locked_reachable_win32:
  assumes "(pool_locked_step_win32 loc)\<^sup>*\<^sup>* (pool_locked_start_win32 loc handles workers clients w0) (x, m)" "win_inv w0" "0 < workers"
  shows "(pool_step_win32 loc)\<^sup>*\<^sup>* (pool_start_win32 loc handles workers clients w0) x \<and>
    win_lock.agree loc (win_next w0) handles workers clients (x, m)"
proof -
  have "win_lock.agree loc (win_next w0) handles workers clients (pool_locked_start_win32 loc handles workers clients w0)"
    using pool_start_win32_inv [OF assms(2), of loc handles workers clients] assms(3)
    by (auto simp: lock_agree_def pool_locked_start_win32_def win_client_ok_def pool_start_win32_def pool_live_def tp_start_def cs_single_def)
  from win_lock.locked_runs_refine [OF assms(1) [unfolded pool_locked_step_win32_def] this]
  show ?thesis by (simp add: pool_locked_start_win32_def)
qed

text \<open>During the shutdown the lock never stops the pool: its holder can give it back, and when it is free every step is possible.\<close>

lemma pool_locked_progress:
  assumes "sem_lock.agree handles workers clients ((p, q), m)" "at p i (DPost k)"
  shows "\<exists>y. pool_locked_advance ((p, q), m) y"
proof -
  have inv: "sem_client_ok handles workers clients (p, q)" using assms(1) by (simp add: lock_agree_def)
  then have s: "pool_sem_inv (tp_start handles workers clients) (p, q)" "0 < workers" "tp_good p"
    using sem_client_good [OF inv] by (auto simp: sem_client_ok_def)
  have r: "tp_step\<^sup>*\<^sup>* (tp_start handles workers clients) p" "linked p q" "dom (tp_nodes p) \<subseteq> {..<ADDR_LIMIT}" using s(1) by (simp_all add: pool_sem_inv_def)
  have l: "pool_live p"
    using one_destroyer [OF single_destroyer_reachable [OF r(1)] assms(2)] assms(2) by (auto simp: pool_live_def in_set_conv_nth at_def)
  have go: ?thesis if "pool_advance (p, q) x" "tp_lock p = None \<or> pool_live (fst x)" for x
  proof -
    have "\<exists>m'. pool_locked_advance ((p, q), m) (x, m')" unfolding pool_locked_advance_def
      by (rule sem_lock_advance.locked_possible [OF assms(1) that(1)]) (use that(2) l in auto)
    then show ?thesis by blast
  qed
  show ?thesis
  proof (cases "tp_lock p")
    case None
    then show ?thesis using go pool_sem_progress [OF s(1,2) assms(2)] by blast
  next
    case (Some j)
    obtain qs where "roles_ok p qs" using s(3) by (auto simp: tp_good_def tp_inv_def)
    from dpost_down(2) [OF this assms(2)] have "tp_shutting_down p" .
    from holder_releases [OF s(3) this Some] obtain p' old v where
      h: "at p j old" "holds_lock old" "tp_step p p'" "tp_pcs p' = (tp_pcs p)[j := v]" "\<not> holds_lock v" "v \<noteq> DDone"
        "tp_items p' = tp_items p" "tp_nodes p' = tp_nodes p" by blast
    have "link old (ss_pcs q ! j)" "sat q j (ss_pcs q ! j)" using linked_sat [OF r(2) h(1)] by simp_all
    then have "sat q j Outside" using h(2) by (cases old; cases "ss_pcs q ! j") auto
    then have "pool_local p q p'" using h(4,7,8) r(3) nth_list_update_neq unfolding pool_local_def by metis
    moreover have o: "old \<noteq> SIdle" "old \<noteq> DIdle" "old \<noteq> DDone" "v \<noteq> old" using h(2,5) by auto
    then have "tp_continues p p'" using h(1,3,4) unfolding tp_continues_def by blast
    ultimately have "pool_advance (p, q) (p', q)" by (intro pa_local)
    then show ?thesis by (rule go) (use live_move [OF h(1,4) o(3) h(6)] l in simp)
  qed
qed

text \<open>Without new calls nobody comes to the lock of \<open>submit\<close>.\<close>

fun submitting :: "tp_pc \<Rightarrow> bool" where
  "submitting (SLock n) = True"
| "submitting (SHold n) = True"
| "submitting _ = False"

definition no_submit :: "tp \<Rightarrow> bool" where
  "no_submit p \<longleftrightarrow> \<not> list_ex submitting (tp_pcs p)"

lemma at_in: "at p i pc \<Longrightarrow> pc \<in> set (tp_pcs p)"
  by (auto simp: at_def)

lemma no_submit_at: "no_submit p \<Longrightarrow> at p i pc \<Longrightarrow> \<not> submitting pc"
  by (auto simp: no_submit_def list_ex_iff dest: at_in)

lemma no_submit_late: "no_submit p \<Longrightarrow> \<not> late_submit p"
  unfolding late_submit_def using no_submit_at submitting.simps(1,2) by blast

lemma no_submit_move: "no_submit p \<Longrightarrow> tp_pcs p' = (tp_pcs p)[i := v] \<Longrightarrow> \<not> submitting v \<Longrightarrow> no_submit p'"
  using set_upd [of _ "tp_pcs p" i v] unfolding no_submit_def list_ex_iff by metis

lemma no_submit_continues:
  assumes "tp_continues p p'" "no_submit p"
  shows "no_submit p'"
proof -
  have "tp_step p p'" using assms(1) by (simp add: tp_continues_def)
  then show ?thesis
  proof (rule tp_stepE)
    assume "pool_worker p p'"
    then show ?thesis by cases (rule no_submit_move [OF assms(2)], simp, simp)+
  next
    assume "d4np_thread_pool_submit p p'"
    then show ?thesis
    proof cases
      case (s_alloc i t n)
      then show ?thesis using continues_from [OF assms(1) s_alloc(2), of "SLock n"] by simp
    next
      case (s_lock i n)
      then show ?thesis using no_submit_at [OF assms(2) s_lock(2)] by simp
    next
      case (s_append i n x s1)
      then show ?thesis using no_submit_at [OF assms(2) s_append(2)] by simp
    qed ((rule no_submit_move [OF assms(2)], simp, simp) | (use assms(2) in \<open>simp add: no_submit_def\<close>))+
  next
    assume "d4np_thread_pool_destroy p p'"
    then show ?thesis
    proof cases
      case (d_none i)
      then show ?thesis using assms(2) by simp
    qed (rule no_submit_move [OF assms(2)], simp, simp)+
  qed
qed

lemma no_submit_advance:
  assumes "pool_advance x x'" "sem_client_ok handles workers clients x" "no_submit (fst x)"
  shows "no_submit (fst x')"
  using assms(1)
proof cases
  case (pa_local p p' q)
  then show ?thesis using no_submit_continues assms(3) by simp
next
  case (pa_take q i p)
  then show ?thesis using no_submit_move [of p "fst x'" i WLock] assms(3) by auto
next
  case (pa_inc q i p)
  have "linked p q" using assms(2) pa_inc(1) by (simp add: sem_client_ok_def pool_sem_inv_def)
  then have "tp_continues p (post_done i p)" using linked_at [OF _ pa_inc(3)] post_done_continues [of p i] by auto
  then show ?thesis using no_submit_continues assms(3) pa_inc(1,2) by simp
qed (use assms(3) in simp_all)

lemma advance_runs_no_submit:
  assumes "pool_locked_advance\<^sup>*\<^sup>* y y'" "sem_lock.agree handles workers clients y" "no_submit (fst (fst y))"
  shows "sem_lock.agree handles workers clients y' \<and> no_submit (fst (fst y'))"
  using assms(1)
proof (induction rule: rtranclp_induct)
  case (step y1 y2)
  have inv: "sem_client_ok handles workers clients (fst y1)" using step.IH by (simp add: lock_agree_def)
  from sem_lock_advance.locked_refines [OF step.hyps(2) [unfolded pool_locked_advance_def]] step.IH
  have "pool_advance (fst y1) (fst y2) \<and> sem_lock.agree handles workers clients y2" by blast
  then show ?case using no_submit_advance [OF _ inv] step.IH by blast
qed (rule conjI [OF assms(2,3)])

lemma pool_locked_bounded:
  assumes "sem_lock.agree handles workers clients ((p, q), m)" "(pool_locked_advance ^^ n) ((p, q), m) y"
  shows "n \<le> sem_work (p, q)"
proof -
  have inv: "pool_sem_inv (tp_start handles workers clients) (p, q)" "0 < workers" "workers < 2 ^ 61"
    using assms(1) by (simp_all add: lock_agree_def sem_client_ok_def)
  show ?thesis using sem_lock_advance.locked_bounded [OF assms(2) [unfolded pool_locked_advance_def] assms(1)] advance_bounded [OF _ inv] by fastforce
qed

lemma pool_locked_completes:
  assumes "sem_lock.agree handles workers clients ((p, q), m)" "at p i (DPost k)"
    "pool_locked_advance\<^sup>*\<^sup>* ((p, q), m) ((p', q'), m')" "\<nexists>y. pool_locked_advance ((p', q'), m') y"
  shows "at p' i DDone \<and> mset (tp_ran p') = mset (tp_accepted p') \<and> \<not> mx_ready m'"
proof -
  have inv: "pool_sem_inv (tp_start handles workers clients) (p, q)" "0 < workers" "workers < 2 ^ 61"
    using assms(1) by (simp_all add: lock_agree_def sem_client_ok_def)
  from sem_lock_advance.locked_runs_refine [OF assms(3) [unfolded pool_locked_advance_def] assms(1)]
  have s: "pool_advance\<^sup>*\<^sup>* (p, q) (p', q')" "sem_lock.agree handles workers clients ((p', q'), m')" by simp_all
  have "closer (fst (p, q)) i" using assms(2) by (simp add: closer_def at_def)
  from advance_star [OF s(1) inv(1) this inv(2,3)] have c: "pool_sem_inv (tp_start handles workers clients) (p', q')" "closer p' i" by simp_all
  have "\<not> at p' i (DPost j)" for j using pool_locked_progress [OF s(2)] assms(4) by blast
  with c(2) have d: "at p' i DDone" by (cases "tp_pcs p' ! i") (auto simp: closer_def at_def)
  have "tp_step\<^sup>*\<^sup>* (tp_start handles workers clients) p'" using c(1) by (simp add: pool_sem_inv_def)
  then have "mset (tp_ran p') = mset (tp_accepted p')" using joined_all_ran [OF _ inv(2) at_in [OF d]] by blast
  moreover have "\<not> mx_ready m'" using s(2) at_in [OF d] unusable_destroyed by (simp add: lock_agree_def pool_live_def)
  ultimately show ?thesis using d by blast
qed

section \<open>Properties\<close>

text \<open>C14: on a real mutex and a real semaphore the pool behaves as \<open>Thread_Pool\<close> says: every state is one reached there, the 64-bit counter is
  the number of permits, the owner of \<open>pool->lock\<close> is the thread in a critical section, and it stays initialised until \<open>destroy\<close> ends. Every lock, unlock and destroy is defined,
  unless a call of \<open>submit\<close> is still before or inside its critical section when \<open>destroy\<close> has seen the workers stop.\<close>

theorem thread_pool_on_mutex:
  assumes "pool_locked_step\<^sup>*\<^sup>* (pool_locked_start handles workers clients) ((p, q), m)" "0 < workers" "workers < 2 ^ 61"
  shows "tp_step\<^sup>*\<^sup>* (tp_start handles workers clients) p \<and> pool_sem_step\<^sup>*\<^sup>* (pool_sem_start handles workers clients) (p, q) \<and>
    tp_items p = unat (ss_count q) \<and>
    (if DDone \<in> set (tp_pcs p) then \<not> mx_ready m \<and> cnt holds_lock (tp_pcs p) = 0 \<and> set (ss_pcs q) \<subseteq> {Outside}
     else mx_ready m \<and> mx_owner m = tp_lock p \<and> (\<forall>i. mx_owner m = Some i \<longleftrightarrow> i < length (tp_pcs p) \<and> holds_lock (tp_pcs p ! i))) \<and>
    (pool_lock_fault ((p, q), m) \<longrightarrow> late_submit p)"
proof -
  from pool_locked_reachable [OF assms] have r: "pool_sem_step\<^sup>*\<^sup>* (pool_sem_start handles workers clients) (p, q)"
    and ag: "sem_lock.agree handles workers clients ((p, q), m)" by simp_all
  have cl: "sem_client_ok handles workers clients (p, q)" using ag by (simp add: lock_agree_def)
  then have inv: "pool_sem_inv (tp_start handles workers clients) (p, q)" by (simp add: sem_client_ok_def)
  from good_lock [OF sem_client_good [OF cl]] have ok: "mutex_ok holds_lock (tp_lock p) (tp_pcs p)" by simp
  have "cnt holds_lock (tp_pcs p) = 0" if "tp_lock p = None" using ok that by (auto simp: cnt_0 mutex_ok_def in_set_conv_nth)
  moreover have "tp_lock p = Some i \<longleftrightarrow> i < length (tp_pcs p) \<and> holds_lock (tp_pcs p ! i)" for i using ok by (auto simp: mutex_ok_def)
  moreover have "if pool_live p then mx_ready m \<and> mx_owner m = tp_lock p else tp_lock p = None \<and> \<not> mx_ready m"
    using ag unusable_destroyed [of m] by (simp add: lock_agree_def split: if_splits)
  moreover have "pool_lock_fault ((p, q), m) \<longrightarrow> late_submit p" using sem_fault_late [OF ag] by simp
  moreover have "set (ss_pcs q) \<subseteq> {Outside}" if "DDone \<in> set (tp_pcs p)" using idle_when_joined [OF inv assms(2) that] by (auto simp: in_set_conv_nth)
  moreover have "tp_step\<^sup>*\<^sup>* (tp_start handles workers clients) p" "tp_items p = unat (ss_count q)" using inv by (simp_all add: pool_sem_inv_def)
  ultimately show ?thesis using r by (simp add: pool_live_def split: if_splits)
qed

text \<open>And the shutdown ends on them, under every schedule: the threads make at most \<open>sem_work\<close> more steps, waiting for the lock included, and
  when none can make one, \<open>destroy\<close> has returned, every accepted task has run and the mutex is destroyed. If no call of \<open>submit\<close> is
  in progress when \<open>destroy\<close> posts, no lock call on the way is undefined.\<close>

theorem thread_pool_on_mutex_shuts_down:
  assumes "pool_locked_step\<^sup>*\<^sup>* (pool_locked_start handles workers clients) ((p, q), m)" "0 < workers" "workers < 2 ^ 61" "at p i (DPost k)"
  shows "(\<forall>n y. (pool_locked_advance ^^ n) ((p, q), m) y \<longrightarrow> n \<le> sem_work (p, q)) \<and>
    (\<forall>p' q' m'. pool_locked_advance\<^sup>*\<^sup>* ((p, q), m) ((p', q'), m') \<and> (\<nexists>y. pool_locked_advance ((p', q'), m') y) \<longrightarrow>
       at p' i DDone \<and> mset (tp_ran p') = mset (tp_accepted p') \<and> \<not> mx_ready m') \<and>
    (no_submit p \<longrightarrow> (\<forall>y. pool_locked_advance\<^sup>*\<^sup>* ((p, q), m) y \<longrightarrow> \<not> pool_lock_fault y))"
proof -
  from pool_locked_reachable [OF assms(1-3)] have ag: "sem_lock.agree handles workers clients ((p, q), m)" by simp
  have "\<not> pool_lock_fault y" if "no_submit p" "pool_locked_advance\<^sup>*\<^sup>* ((p, q), m) y" for y
    using advance_runs_no_submit [OF that(2) ag] that(1) sem_fault_late [of handles workers clients "fst y" "snd y"] no_submit_late by auto
  then show ?thesis using pool_locked_bounded [OF ag] pool_locked_completes [OF ag assms(4)] by blast
qed

text \<open>The same agreement on Windows, where the lock is a critical section that no thread enters twice.\<close>

theorem thread_pool_on_critical_section:
  assumes "(pool_locked_step_win32 loc)\<^sup>*\<^sup>* (pool_locked_start_win32 loc handles workers clients w0) ((p, w), cs)" "win_inv w0" "0 < workers"
  shows "(pool_step_win32 loc)\<^sup>*\<^sup>* (pool_start_win32 loc handles workers clients w0) (p, w) \<and>
    (DDone \<notin> set (tp_pcs p) \<longrightarrow> cs_ready cs \<and> cs_owner cs = tp_lock p \<and> cs_depth cs \<le> 1) \<and>
    (pool_lock_fault_win32 loc ((p, w), cs) \<longrightarrow> late_submit p)"
proof -
  from pool_locked_reachable_win32 [OF assms] have r: "(pool_step_win32 loc)\<^sup>*\<^sup>* (pool_start_win32 loc handles workers clients w0) (p, w)"
    and ag: "win_lock.agree loc (win_next w0) handles workers clients ((p, w), cs)" by simp_all
  then show ?thesis using win_fault_late [OF ag] by (auto simp: lock_agree_def pool_live_def cs_single_def split: if_splits)
qed

text \<open>Until \<open>destroy\<close> has joined the workers the lock takes nothing away: whatever the pool reaches on its semaphore, it reaches on the lock too.\<close>

lemma dead_stays:
  assumes "sem_client_ok handles workers clients x" "pool_sem_step x x'" "(pool_live \<circ> fst) x'"
  shows "(pool_live \<circ> fst) x"
proof -
  have step: "(pool_live \<circ> fst) x" if "tp_step (fst x) (fst x')" using done_stays [OF that] assms(3) by (auto simp: pool_live_def)
  have l: "linked (fst x) (snd x)" using assms(1) by (simp add: sem_client_ok_def pool_sem_inv_def case_prod_unfold)
  from assms(2) show ?thesis
  proof cases
    case ps_advance
    then show ?thesis
    proof cases
      case (pa_take q i p)
      then have "at p i WWait" using linked_at [of p q i Wait_Test] l by (auto simp: at_def)
      then show ?thesis using live_move [of p i WWait "fst x'" WLock] pa_take(1,2) assms(3) by simp
    next
      case (pa_inc q i p)
      then show ?thesis using linked_at [of p q i Post_Inc] l post_done_step(1) [of p i] by (intro step) auto
    qed (use step assms(3) in \<open>simp_all add: tp_continues_def\<close>)
  qed (use step assms(3) in simp_all)
qed

lemma pool_locked_complete:
  assumes "pool_sem_step\<^sup>*\<^sup>* (pool_sem_start handles workers clients) x" "0 < workers" "workers < 2 ^ 61" "pool_live (fst x)"
  shows "\<exists>m. pool_locked_step\<^sup>*\<^sup>* (pool_locked_start handles workers clients) (x, m)"
  unfolding pool_locked_step_def pool_locked_start_def
proof (rule sem_lock.locked_runs_complete [OF assms(1), where good = "pool_live \<circ> fst"])
  show "sem_lock.agree handles workers clients (pool_sem_start handles workers clients, \<lparr>mx_ready = True, mx_owner = None\<rparr>)"
    using pool_locked_start_agree [OF assms(2,3), of handles clients] by (simp add: pool_locked_start_def)
  show "(pool_live \<circ> fst) x" using assms(4) by simp
qed (use dead_stays in blast)

section \<open>A submission that races with the destruction\<close>

text \<open>One worker, one client, one destroyer. The client has allocated its node at address 8 and waits for the lock; the destroyer
  raises \<open>shutting_down\<close> and posts; the worker wakes up, finds the queue empty and leaves; then the client gets the lock.\<close>

definition race_pool :: "bool \<Rightarrow> nat option \<Rightarrow> nat \<Rightarrow> tp_pc list \<Rightarrow> tp" where
  "race_pool down lock items pcs = (tp_start 16 1 1)\<lparr>tp_nodes := [8 \<mapsto> \<lparr>tn_next = NULL, tn_task = (1, 0)\<rparr>],
     tp_shutting_down := down, tp_lock := lock, tp_items := items, tp_pcs := pcs\<rparr>"

definition race_sem :: "uint64 \<Rightarrow> nat option \<Rightarrow> sem_pc list \<Rightarrow> nat \<Rightarrow> nat \<Rightarrow> sem_sys" where
  "race_sem c lock pcs tk po =
     \<lparr>ss_count = c, ss_lock = lock, ss_pcs = pcs, ss_initial = 0, ss_taken = tk, ss_posted = po\<rparr>"

definition race_state :: "tp \<times> sem_sys" where
  "race_state = (race_pool True (Some 1) 0 [WDone, SHold 8, DPost 0], race_sem 0 None [Outside, Outside, Outside] 1 1)"

lemmas race_defs = race_pool_def race_sem_def at_def sat_def goto_def sgo_def

lemma race_client:
  assumes "tp_step p p'" "tp_items p' = tp_items p" "dom (tp_nodes p') \<subseteq> {8}" "length (tp_pcs p) = 3"
  shows "pool_sem_step (p, race_sem c None [Outside, Outside, Outside] a b) (p', race_sem c None [Outside, Outside, Outside] a b)"
proof (rule ps_client [OF assms(1)])
  have "i < 3 \<Longrightarrow> sat (race_sem c None [Outside, Outside, Outside] a b) i Outside" for i
    by (auto simp: sat_def race_sem_def less_Suc_eq numeral_3_eq_3)
  moreover have "{8 :: nat} \<subseteq> {..<ADDR_LIMIT}" by (simp add: ADDR_LIMIT_def)
  ultimately show "pool_local p (race_sem c None [Outside, Outside, Outside] a b) p'" using assms(2-4) by (auto simp: pool_local_def)
qed

lemma race_begins: "pool_sem_step\<^sup>*\<^sup>* (pool_sem_start 16 1 1)
  (race_pool True None 0 [WWait, SLock 8, DPost 1], race_sem 0 None [Outside, Outside, Outside] 0 0)"
proof -
  let ?q = "race_sem 0 None [Outside, Outside, Outside] 0 0"
  have start: "pool_sem_start 16 1 1 = (tp_start 16 1 1, ?q)" by (simp add: pool_sem_start_def sem_start_def race_sem_def eval_nat_numeral)
  have "tp_step (tp_start 16 1 1) (race_pool False None 0 [WWait, SLock 8, DIdle])"
    using tp_s_alloc [of "tp_start 16 1 1" 1 "(1, 0)" 8] by (simp add: race_defs tp_start_def)
  from race_client [OF this] have 1: "pool_sem_step (pool_sem_start 16 1 1) (race_pool False None 0 [WWait, SLock 8, DIdle], ?q)"
    unfolding start by (simp add: race_defs tp_start_def)
  have "tp_step (race_pool False None 0 [WWait, SLock 8, DIdle]) (race_pool False None 0 [WWait, SLock 8, DLock])"
    using tp_d_start [of "race_pool False None 0 [WWait, SLock 8, DIdle]" 2] by (simp add: race_defs tp_start_def)
  from race_client [OF this] have 2: "pool_sem_step (race_pool False None 0 [WWait, SLock 8, DIdle], ?q) (race_pool False None 0 [WWait, SLock 8, DLock], ?q)"
    by (simp add: race_pool_def tp_start_def)
  have "tp_step (race_pool False None 0 [WWait, SLock 8, DLock]) (race_pool False (Some 2) 0 [WWait, SLock 8, DHold])"
    using tp_d_lock [of "race_pool False None 0 [WWait, SLock 8, DLock]" 2] by (simp add: race_defs tp_start_def)
  from race_client [OF this] have 3: "pool_sem_step (race_pool False None 0 [WWait, SLock 8, DLock], ?q) (race_pool False (Some 2) 0 [WWait, SLock 8, DHold], ?q)"
    by (simp add: race_pool_def tp_start_def)
  have "tp_step (race_pool False (Some 2) 0 [WWait, SLock 8, DHold]) (race_pool True None 0 [WWait, SLock 8, DPost 1])"
    using tp_d_down [of "race_pool False (Some 2) 0 [WWait, SLock 8, DHold]" 2] by (simp add: race_defs tp_start_def)
  from race_client [OF this] have 4: "pool_sem_step (race_pool False (Some 2) 0 [WWait, SLock 8, DHold], ?q) (race_pool True None 0 [WWait, SLock 8, DPost 1], ?q)"
    by (simp add: race_pool_def tp_start_def)
  show ?thesis using 1 2 3 4 by (meson converse_rtranclp_into_rtranclp rtranclp.rtrancl_refl)
qed

text \<open>The destroyer's post and the worker's wait, each of them alone inside the semaphore.\<close>

lemma race_posts: "pool_sem_step\<^sup>*\<^sup>* (race_pool True None 0 [WWait, SLock 8, DPost 1], race_sem 0 None [Outside, Outside, Outside] 0 0)
  (race_pool True None 1 [WWait, SLock 8, DPost 0], race_sem 1 None [Outside, Outside, Outside] 0 1)"
proof -
  let ?p = "race_pool True None 0 [WWait, SLock 8, DPost 1]" and ?p' = "race_pool True None 1 [WWait, SLock 8, DPost 0]"
  let ?q = "\<lambda>c l pc k. race_sem c l [Outside, Outside, pc] 0 k"
  have 1: "pool_sem_step (?p, ?q 0 None Outside 0) (?p, ?q 0 None Post_Lock 0)"
    using pa_post [of ?p 2 "DPost 1" "?q 0 None Outside 0"] by (intro ps_advance) (simp add: race_defs)
  have 2: "pool_sem_step (?p, ?q 0 None Post_Lock 0) (?p, ?q 0 (Some 2) Post_Inc 0)"
    using silentI [OF sem_step.post_lock, of "?q 0 None Post_Lock 0" 2 Post_Lock ?p] by (intro ps_advance) (simp add: race_defs)
  have 3: "pool_sem_step (?p, ?q 0 (Some 2) Post_Inc 0) (?p', ?q 1 (Some 2) Post_Signal 1)"
    using pa_inc [of "?q 0 (Some 2) Post_Inc 0" 2 ?p] by (intro ps_advance) (simp add: race_defs post_done_def)
  have 4: "pool_sem_step (?p', ?q 1 (Some 2) Post_Signal 1) (?p', ?q 1 (Some 2) Post_Unlock 1)"
    using silentI [OF sem_step.post_nobody, of "?q 1 (Some 2) Post_Signal 1" 2 Post_Signal ?p'] by (intro ps_advance) (simp add: race_defs)
  have 5: "pool_sem_step (?p', ?q 1 (Some 2) Post_Unlock 1) (?p', ?q 1 None Outside 1)"
    using silentI [OF sem_step.post_unlock, of "?q 1 (Some 2) Post_Unlock 1" 2 Post_Unlock ?p'] by (intro ps_advance) (simp add: race_defs)
  show ?thesis using 1 2 3 4 5 by (meson converse_rtranclp_into_rtranclp rtranclp.rtrancl_refl)
qed

lemma race_wakes: "pool_sem_step\<^sup>*\<^sup>* (race_pool True None 1 [WWait, SLock 8, DPost 0], race_sem 1 None [Outside, Outside, Outside] 0 1)
  (race_pool True None 0 [WLock, SLock 8, DPost 0], race_sem 0 None [Outside, Outside, Outside] 1 1)"
proof -
  let ?p = "race_pool True None 1 [WWait, SLock 8, DPost 0]" and ?p' = "race_pool True None 0 [WLock, SLock 8, DPost 0]"
  let ?q = "\<lambda>c l pc k. race_sem c l [pc, Outside, Outside] k 1"
  have 1: "pool_sem_step (?p, ?q 1 None Outside 0) (?p, ?q 1 None Wait_Lock 0)"
    using pa_wait [of ?p 0 "?q 1 None Outside 0"] by (intro ps_advance) (simp add: race_defs)
  have 2: "pool_sem_step (?p, ?q 1 None Wait_Lock 0) (?p, ?q 1 (Some 0) Wait_Test 0)"
    using silentI [OF sem_step.wait_lock, of "?q 1 None Wait_Lock 0" 0 Wait_Lock ?p] by (intro ps_advance) (simp add: race_defs)
  have 3: "pool_sem_step (?p, ?q 1 (Some 0) Wait_Test 0) (?p', ?q 0 (Some 0) Wait_Unlock 1)"
    using pa_take [of "?q 1 (Some 0) Wait_Test 0" 0 ?p] by (intro ps_advance) (simp add: race_defs)
  have 4: "pool_sem_step (?p', ?q 0 (Some 0) Wait_Unlock 1) (?p', ?q 0 None Outside 1)"
    using silentI [OF sem_step.wait_unlock, of "?q 0 (Some 0) Wait_Unlock 1" 0 Wait_Unlock ?p'] by (intro ps_advance) (simp add: race_defs)
  show ?thesis using 1 2 3 4 by (meson converse_rtranclp_into_rtranclp rtranclp.rtrancl_refl)
qed

lemma race_ends: "pool_sem_step\<^sup>*\<^sup>* (race_pool True None 0 [WLock, SLock 8, DPost 0], race_sem 0 None [Outside, Outside, Outside] 1 1) race_state"
proof -
  let ?q = "race_sem 0 None [Outside, Outside, Outside] 1 1"
  have "tp_step (race_pool True None 0 [WLock, SLock 8, DPost 0]) (race_pool True (Some 0) 0 [WHold, SLock 8, DPost 0])"
    using tp_w_lock [of "race_pool True None 0 [WLock, SLock 8, DPost 0]" 0] by (simp add: race_defs tp_start_def)
  from race_client [OF this] have 1: "pool_sem_step (race_pool True None 0 [WLock, SLock 8, DPost 0], ?q) (race_pool True (Some 0) 0 [WHold, SLock 8, DPost 0], ?q)"
    by (simp add: race_pool_def tp_start_def)
  have "tp_step (race_pool True (Some 0) 0 [WHold, SLock 8, DPost 0]) (race_pool True None 0 [WDone, SLock 8, DPost 0])"
    using tp_w_exit [of "race_pool True (Some 0) 0 [WHold, SLock 8, DPost 0]" 0] by (simp add: race_defs tp_start_def)
  from race_client [OF this] have 2: "pool_sem_step (race_pool True (Some 0) 0 [WHold, SLock 8, DPost 0], ?q) (race_pool True None 0 [WDone, SLock 8, DPost 0], ?q)"
    by (simp add: race_pool_def tp_start_def)
  have "tp_step (race_pool True None 0 [WDone, SLock 8, DPost 0]) (race_pool True (Some 1) 0 [WDone, SHold 8, DPost 0])"
    using tp_s_lock [of "race_pool True None 0 [WDone, SLock 8, DPost 0]" 1] by (simp add: race_defs tp_start_def)
  from race_client [OF this] have 3: "pool_sem_step (race_pool True None 0 [WDone, SLock 8, DPost 0], ?q) race_state"
    unfolding race_state_def by (simp add: race_pool_def tp_start_def)
  show ?thesis using 1 2 3 by (meson converse_rtranclp_into_rtranclp rtranclp.rtrancl_refl)
qed

text \<open>There the destroyer joins the worker and destroys the mutex, which the client still owns.\<close>

lemma race_joins: "pool_sem_step race_state (race_pool True (Some 1) 0 [WDone, SHold 8, DDone]\<lparr>tp_threads := NULL, tp_ready := False\<rparr>, snd race_state)"
proof -
  let ?p = "race_pool True (Some 1) 0 [WDone, SHold 8, DPost 0]"
  have "tp_drain (tp_q_head ?p) (tp_nodes ?p) = Some (tp_nodes ?p)" by (simp add: race_pool_def tp_start_def tp_drain.simps)
  from tp_d_join [OF _ _ this, of 2] have "tp_step ?p (race_pool True (Some 1) 0 [WDone, SHold 8, DDone]\<lparr>tp_threads := NULL, tp_ready := False\<rparr>)"
    by (simp add: race_defs tp_start_def)
  from race_client [OF this, of 0 1 1] show ?thesis unfolding race_state_def by (simp add: race_pool_def tp_start_def)
qed

text \<open>\<open>concurrency/thread_pool.h\<close> calls \<open>submit\<close> thread-safe and says that submitting after the shutdown has begun is rejected. But the client
  that is about to be rejected still holds the lock, and nothing makes \<open>destroy\<close> wait for it: a run reaches a state in which destroying the
  mutex is undefined.\<close>

theorem thread_pool_submit_races_destroy:
  "\<exists>m. pool_locked_step\<^sup>*\<^sup>* (pool_locked_start 16 1 1) (race_state, m) \<and> mx_owner m = Some 1 \<and> mutex_destroy m = None \<and> pool_lock_fault (race_state, m)"
proof -
  have run: "pool_sem_step\<^sup>*\<^sup>* (pool_sem_start 16 1 1) race_state"
    using race_begins race_posts race_wakes race_ends by (meson rtranclp_trans)
  have live: "(pool_live \<circ> fst) race_state" by (simp add: race_state_def race_pool_def pool_live_def)
  obtain m where m: "pool_locked_step\<^sup>*\<^sup>* (pool_locked_start 16 1 1) (race_state, m)"
    using pool_locked_complete [OF run] live by auto
  then have ag: "sem_lock.agree 16 1 1 (race_state, m)" using pool_locked_reachable [of 16 1 1 race_state m] by simp
  have own: "tp_lock (fst race_state) = Some 1" by (simp add: race_state_def race_pool_def)
  then have mo: "mx_ready m" "mx_owner m = Some 1" using ag live by (simp_all add: lock_agree_def)
  have "\<not> (pool_live \<circ> fst) (race_pool True (Some 1) 0 [WDone, SHold 8, DDone]\<lparr>tp_threads := NULL, tp_ready := False\<rparr>, snd race_state)"
    by (simp add: pool_live_def race_pool_def)
  then have "pool_lock_fault (race_state, m)"
    unfolding pool_lock_fault_def sem_lock.fault_cases [OF ag] using race_joins live own by auto
  then show ?thesis using m mo by (auto simp: mutex_destroy_def d4np_mutex_destroy_def)
qed

text \<open>Without the client: the destroyer has announced the shutdown and is about to post.\<close>

lemma locked_mid_reachable: "\<exists>m. pool_locked_step\<^sup>*\<^sup>* (pool_locked_start 16 1 0) (ps_mid, m)"
  by (rule pool_locked_complete [OF ps_mid_reachable]) (simp_all add: ps_mid_def pool_live_def)

theorem thread_pool_on_mutex_witness: "\<exists>m. pool_locked_step\<^sup>*\<^sup>* (pool_locked_start 16 1 0) (ps_mid, m) \<and> mx_ready m \<and> mx_owner m = None"
proof -
  obtain m where m: "pool_locked_step\<^sup>*\<^sup>* (pool_locked_start 16 1 0) ((fst ps_mid, snd ps_mid), m)" using locked_mid_reachable by auto
  from thread_pool_on_mutex [OF m] have "mx_ready m \<and> mx_owner m = tp_lock (fst ps_mid)" by (simp add: ps_mid_def)
  then show ?thesis using m by (auto simp: ps_mid_def tp_start_def)
qed

theorem thread_pool_on_mutex_shuts_down_witness:
  "\<exists>m. pool_locked_step\<^sup>*\<^sup>* (pool_locked_start 16 1 0) (ps_mid, m) \<and> {n. \<exists>y. (pool_locked_advance ^^ n) (ps_mid, m) y} \<subseteq> {..266} \<and>
     {y. pool_locked_advance\<^sup>*\<^sup>* (ps_mid, m) y} \<inter> {y. pool_lock_fault y} = {}"
proof -
  obtain m where m: "pool_locked_step\<^sup>*\<^sup>* (pool_locked_start 16 1 0) ((fst ps_mid, snd ps_mid), m)" using locked_mid_reachable by auto
  have a: "at (fst ps_mid) 1 (DPost 1)" by (simp add: at_def ps_mid_def)
  have w: "sem_work (fst ps_mid, snd ps_mid) = 266"
    by (simp add: sem_work_def sem_total_def work_def ps_mid_def tp_start_def sem_start_def total_def eval_nat_numeral)
  have n: "no_submit (fst ps_mid)" by (simp add: no_submit_def ps_mid_def)
  from thread_pool_on_mutex_shuts_down [OF m _ _ a] w n show ?thesis using m by (intro exI [of _ m]) auto
qed

end
