(* ===== verification/Semaphore_Lock.thy ===== *)
theory Semaphore_Lock
  imports Semaphore Lock_Client
begin

text \<open>
  The POSIX semaphore on its mutex. \<open>Semaphore\<close> keeps the owner of \<open>p->mutex\<close> in a field; here it is a mutex with the
  state \<open>Mutex\<close> gives a \<open>pthread_mutex_t\<close>. A call of \<open>pthread_cond_wait\<close> gives the mutex back when it falls asleep and
  takes it again when it wakes up. The two systems reach the same states, and every call on the mutex is defined.
\<close>

section \<open>The semaphore as a client of a lock\<close>

fun sem_enters :: "sem_pc \<Rightarrow> sem_pc option" where
  "sem_enters Wait_Lock = Some Wait_Test"
| "sem_enters Wait_Woken = Some Wait_Test"
| "sem_enters Try_Lock = Some Try_Test"
| "sem_enters Post_Lock = Some Post_Inc"
| "sem_enters _ = None"

definition sem_mutex_acquire :: "nat \<Rightarrow> sem_sys \<Rightarrow> sem_sys option" where
  "sem_mutex_acquire i q =
     (if i < length (ss_pcs q) then map_option (\<lambda>pc. sgo i pc (q\<lparr>ss_lock := Some i\<rparr>)) (sem_enters (ss_pcs q ! i)) else None)"

definition sem_locked_step :: "sem_sys \<times> d4np_mutex \<Rightarrow> sem_sys \<times> d4np_mutex \<Rightarrow> bool" where
  "sem_locked_step =
     locked_step sem_step ss_lock (\<lambda>_. True) sem_mutex_acquire mutex_lock mutex_unlock (mutex_create 0) mutex_destroy"

definition sem_lock_fault :: "sem_sys \<times> d4np_mutex \<Rightarrow> bool" where
  "sem_lock_fault = lock_fault sem_step ss_lock (\<lambda>_. True) sem_mutex_acquire mutex_lock mutex_unlock mutex_destroy"

definition sem_locked_start :: "32 word \<Rightarrow> nat \<Rightarrow> sem_sys \<times> d4np_mutex" where
  "sem_locked_start c n = (sem_start c n, \<lparr>mx_ready = True, mx_owner = None\<rparr>)"

section \<open>The laws of the client\<close>

lemma sem_mutex_iff:
  "sem_mutex_acquire i q = Some q' \<longleftrightarrow> (\<exists>old pc. sat q i old \<and> sem_enters old = Some pc \<and> q' = sgo i pc (q\<lparr>ss_lock := Some i\<rparr>))"
  by (auto simp: sem_mutex_acquire_def sat_def)

lemma sem_enters_cases: "sem_enters old = Some pc \<Longrightarrow> \<not> sem_holds old \<and> old \<noteq> Outside \<and> old \<noteq> Wait_Asleep"
  by (cases old) auto

lemma sem_mutex_step:
  assumes "sem_mutex_acquire i q = Some q'" "ss_lock q = None"
  shows "sem_step q q'"
proof -
  obtain old pc where o: "sat q i old" "sem_enters old = Some pc" "q' = sgo i pc (q\<lparr>ss_lock := Some i\<rparr>)" using assms(1) by (auto simp: sem_mutex_iff)
  from o(2) show ?thesis
    using o(1,3) sem_step.wait_lock [OF _ assms(2)] sem_step.wait_relock [OF _ assms(2)] sem_step.try_lock [OF _ assms(2)] sem_step.post_lock [OF _ assms(2)]
    by (cases old) auto
qed

lemma sem_mutex_other:
  assumes "sem_inv q" "sem_mutex_acquire i q = Some q'"
  shows "ss_lock q \<noteq> Some i"
  using sem_invD(1) [OF assms(1)] assms(2) sem_enters_cases by (auto simp: sem_mutex_iff mutex_ok_def sat_def)

lemma sem_mutex_kinds:
  assumes "sem_step q q'"
  shows "ss_lock q' = ss_lock q \<or> ss_lock q \<noteq> None \<and> ss_lock q' = None \<or> (\<exists>i. ss_lock q = None \<and> sem_mutex_acquire i q = Some q')"
proof -
  have acq: ?thesis if "sat q i old" "sem_enters old = Some pc" "ss_lock q = None" "q' = sgo i pc (q\<lparr>ss_lock := Some i\<rparr>)" for i old pc
    using that sem_mutex_iff [of i q q'] by blast
  from assms show ?thesis
  proof cases
    case (wait_lock i)
    then show ?thesis by (intro acq [of i Wait_Lock]) simp_all
  next
    case (wait_relock i)
    then show ?thesis by (intro acq [of i Wait_Woken]) simp_all
  next
    case (try_lock i)
    then show ?thesis by (intro acq [of i Try_Lock]) simp_all
  next
    case (post_lock i)
    then show ?thesis by (intro acq [of i Post_Lock]) simp_all
  qed simp_all
qed

interpretation sem_mutex: lock_client mx_ready mx_owner mutex_lock mutex_trylock mutex_unlock "mutex_create 0" mutex_destroy
    sem_step ss_lock "\<lambda>_. True" sem_mutex_acquire sem_inv
proof unfold_locales
  show "ss_lock s' = ss_lock s \<or> ss_lock s \<noteq> None \<and> ss_lock s' = None \<and> True = True \<or> (\<exists>i. ss_lock s = None \<and> sem_mutex_acquire i s = Some s')"
    if "sem_inv s" "sem_step s s'" for s s' using sem_mutex_kinds [OF that(2)] by simp
qed (blast intro: sem_step_inv sem_mutex_step | rule sem_mutex_other, assumption+ | force simp: sem_mutex_iff)+

section \<open>Properties\<close>

text \<open>On a real mutex the semaphore reaches exactly the states of \<open>Semaphore\<close>, sleeping and waking included; the owner of the
  mutex is the thread inside, and every call on the mutex is defined in every interleaving.\<close>

theorem semaphore_on_mutex:
  "(sem_step\<^sup>*\<^sup>* (sem_start c n) q \<longleftrightarrow> (\<exists>m. sem_locked_step\<^sup>*\<^sup>* (sem_locked_start c n) (q, m))) \<and>
   (\<forall>m. sem_locked_step\<^sup>*\<^sup>* (sem_locked_start c n) (q, m) \<longrightarrow> mx_ready m \<and> mx_owner m = ss_lock q \<and> \<not> sem_lock_fault (q, m))"
proof -
  have start: "sem_mutex.agree (sem_locked_start c n)"
    using sem_start_inv [of c n] by (simp add: lock_agree_def sem_locked_start_def) (simp add: sem_start_def)
  have ag: "sem_step\<^sup>*\<^sup>* (sem_start c n) q \<and> sem_mutex.agree (q, m)" if "sem_locked_step\<^sup>*\<^sup>* (sem_locked_start c n) (q, m)" for m
    using sem_mutex.locked_runs_refine [OF that [unfolded sem_locked_step_def] start] by (simp add: sem_locked_start_def)
  have "mx_ready m \<and> mx_owner m = ss_lock q \<and> \<not> sem_lock_fault (q, m)" if "sem_locked_step\<^sup>*\<^sup>* (sem_locked_start c n) (q, m)" for m
    using sem_mutex.fault_cases [OF conjunct2 [OF ag [OF that]]] ag [OF that] by (simp add: lock_agree_def sem_lock_fault_def)
  moreover have "\<exists>m. sem_locked_step\<^sup>*\<^sup>* (sem_locked_start c n) (q, m)" if "sem_step\<^sup>*\<^sup>* (sem_start c n) q"
    using sem_mutex.locked_runs_complete [OF that start [unfolded sem_locked_start_def], where good = "\<lambda>_. True"]
    by (simp add: sem_locked_step_def sem_locked_start_def)
  ultimately show ?thesis using ag by blast
qed

theorem semaphore_on_mutex_witness:
  "\<exists>m. sem_locked_step\<^sup>*\<^sup>* (sem_locked_start 0 3) (sem_mid, m) \<and> mx_ready m \<and> mx_owner m = None \<and> \<not> sem_lock_fault (sem_mid, m)"
  using semaphore_on_mutex [of 0 3 sem_mid] sem_mid_reachable by (auto simp: sem_mid_def)

end
