(* ===== verification/Thread_Pool_Stack.thy ===== *)
theory Thread_Pool_Stack
  imports Thread_Pool_Lock Semaphore_Lock
begin

text \<open>
  The thread pool on everything it is built of: the pool of \<open>Thread_Pool_Lock\<close>, already on its own mutex, with the mutex inside
  its POSIX semaphore as a mutex too. It is the same step from an owner field to a lock, taken a second time: the composed
  system of \<open>Thread_Pool_Lock\<close> is itself a client. No call on the mutex of the semaphore is ever undefined, its destruction
  included, and the shutdown still ends.
\<close>

section \<open>The composed system\<close>

type_synonym pool_stack = "((tp \<times> sem_sys) \<times> d4np_mutex) \<times> d4np_mutex"

definition inner_own :: "(tp \<times> sem_sys) \<times> d4np_mutex \<Rightarrow> nat option" where
  "inner_own y = ss_lock (snd (fst y))"

definition inner_live :: "(tp \<times> sem_sys) \<times> d4np_mutex \<Rightarrow> bool" where
  "inner_live y \<longleftrightarrow> pool_live (fst (fst y))"

definition inner_acquire :: "nat \<Rightarrow> (tp \<times> sem_sys) \<times> d4np_mutex \<Rightarrow> ((tp \<times> sem_sys) \<times> d4np_mutex) option" where
  "inner_acquire i = (\<lambda>((p, q), m). map_option (\<lambda>q'. ((p, q'), m)) (sem_mutex_acquire i q))"

definition pool_stack_step :: "pool_stack \<Rightarrow> pool_stack \<Rightarrow> bool" where
  "pool_stack_step = locked_step pool_locked_step inner_own inner_live inner_acquire mutex_lock mutex_unlock (mutex_create 0) mutex_destroy"

definition pool_stack_advance :: "pool_stack \<Rightarrow> pool_stack \<Rightarrow> bool" where
  "pool_stack_advance = locked_step pool_locked_advance inner_own inner_live inner_acquire mutex_lock mutex_unlock (mutex_create 0) mutex_destroy"

definition inner_fault :: "pool_stack \<Rightarrow> bool" where
  "inner_fault = lock_fault pool_locked_step inner_own inner_live inner_acquire mutex_lock mutex_unlock mutex_destroy"

definition pool_stack_start :: "ptr \<Rightarrow> nat \<Rightarrow> nat \<Rightarrow> pool_stack" where
  "pool_stack_start handles workers clients = (pool_locked_start handles workers clients, \<lparr>mx_ready = True, mx_owner = None\<rparr>)"

section \<open>The laws of the client\<close>

lemma inner_iff: "inner_acquire i y = Some y' \<longleftrightarrow> (\<exists>q'. sem_mutex_acquire i (snd (fst y)) = Some q' \<and> y' = ((fst (fst y), q'), snd y))"
  by (auto simp: inner_acquire_def case_prod_unfold)

lemma agree_parts:
  assumes "sem_lock.agree handles workers clients y"
  shows "pool_sem_inv (tp_start handles workers clients) (fst y)" "0 < workers" "workers < 2 ^ 61" "sem_inv (snd (fst y))"
  using assms by (auto simp: lock_agree_def sem_client_ok_def pool_sem_inv_def case_prod_unfold)

text \<open>Taking the mutex is a step inside the semaphore that the pool does not see.\<close>

lemma inner_acquire_advance:
  assumes "inner_acquire i y = Some y'" "inner_own y = None"
  shows "pool_locked_advance y y'"
proof -
  obtain p q m q' where y: "y = ((p, q), m)" "y' = ((p, q'), m)" "sem_mutex_acquire i q = Some q'"
    using assms(1) by (cases y) (auto simp: inner_iff)
  have s: "sem_step q q'" using sem_mutex_step [OF y(3)] assms(2) by (simp add: y inner_own_def)
  obtain old pc where o: "sat q i old" "sem_enters old = Some pc" "q' = sgo i pc (q\<lparr>ss_lock := Some i\<rparr>)" using y(3) by (auto simp: sem_mutex_iff)
  have "pool_advance (p, q) (p, q')" unfolding o(3)
    by (rule silentI [OF s [unfolded o(3)] o(1)]) (use sem_enters_cases [OF o(2)] in simp_all)
  then show ?thesis unfolding y(1,2) pool_locked_advance_def by (rule lk_local) simp_all
qed

lemma advance_locked_step: "pool_locked_advance y y' \<Longrightarrow> pool_locked_step y y'"
  unfolding pool_locked_advance_def pool_locked_step_def
  by (induction rule: locked_step.induct) (blast intro: locked_step.intros advance_is_step)+

text \<open>A step of the pool that changes the owner inside the semaphore changes nothing else but the semaphore.\<close>

lemma sem_part:
  assumes "pool_sem_step x x'"
  shows "ss_lock (snd x') = ss_lock (snd x) \<or> fst x' = fst x \<and> sem_step (snd x) (snd x')"
  using assms
proof cases
  case ps_advance
  then show ?thesis by cases simp_all
qed simp_all

lemma outer_lock_stays:
  assumes "pool_locked_step y y'" "fst (fst y') = fst (fst y)"
  shows "snd y' = snd y"
  using assms(1) unfolding pool_locked_step_def
proof cases
  case (lk_acquire i x x' m m')
  obtain p q where x: "x = (p, q)" by (cases x)
  obtain p' where p': "pool_acquire i p = Some p'" "x' = (p', q)" using lk_acquire(3) by (auto simp: x sem_acquire_iff)
  then obtain old pc where o: "at p i old" "enters old = Some pc" "p' = goto i pc (p\<lparr>tp_lock := Some i\<rparr>)" by (auto simp: acquire_iff)
  have "p' = p" using assms(2) lk_acquire(1,2) by (simp add: x p'(2))
  then have "tp_pcs p = (tp_pcs p)[i := pc]" using o(3) goto_simps(8) by (metis tp.simps(10) tp.surjective tp.update_convs(8))
  then show ?thesis using no_move [OF o(1), of pc] enters_cases(3) [OF o(2)] by simp
qed (use assms(2) in auto)

lemma inner_kinds:
  assumes "sem_lock.agree handles workers clients y" "pool_locked_step y y'"
  shows "inner_own y' = inner_own y \<or> inner_own y \<noteq> None \<and> inner_own y' = None \<and> inner_live y' = inner_live y \<or>
    (\<exists>i. inner_own y = None \<and> inner_acquire i y = Some y')"
proof -
  have "pool_sem_step (fst y) (fst y')" using sem_lock.locked_refines [OF assms(2) [unfolded pool_locked_step_def] assms(1)] by blast
  from sem_part [OF this] show ?thesis
  proof
    assume c: "fst (fst y') = fst (fst y) \<and> sem_step (snd (fst y)) (snd (fst y'))"
    then have "y' = ((fst (fst y), snd (fst y')), snd y)" using outer_lock_stays [OF assms(2)] by (simp add: prod_eq_iff)
    then show ?thesis using sem_mutex_kinds [OF conjunct2 [OF c]] c by (auto simp: inner_own_def inner_live_def inner_iff)
  qed (simp add: inner_own_def)
qed

interpretation stack: lock_client mx_ready mx_owner mutex_lock mutex_trylock mutex_unlock "mutex_create 0" mutex_destroy
    pool_locked_step inner_own inner_live inner_acquire "sem_lock.agree handles workers clients" for handles workers clients
proof unfold_locales
  fix y y' i
  show "sem_lock.agree handles workers clients y'" if "pool_locked_step y y'" "sem_lock.agree handles workers clients y"
    using sem_lock.locked_refines [OF that(1) [unfolded pool_locked_step_def] that(2)] by blast
  show "pool_locked_step y y'" if "sem_lock.agree handles workers clients y" "inner_acquire i y = Some y'" "inner_own y = None"
    by (rule advance_locked_step [OF inner_acquire_advance [OF that(2,3)]])
  show "inner_own y' = Some i \<and> inner_live y' = inner_live y" if "inner_acquire i y = Some y'"
    using that by (auto simp: inner_iff inner_own_def inner_live_def sem_mutex_iff)
  show "inner_own y \<noteq> Some i" if "sem_lock.agree handles workers clients y" "inner_acquire i y = Some y'"
    using sem_mutex_other [OF agree_parts(4) [OF that(1)]] that(2) by (auto simp: inner_iff inner_own_def)
qed (rule inner_kinds)

interpretation stack_advance: lock_client mx_ready mx_owner mutex_lock mutex_trylock mutex_unlock "mutex_create 0" mutex_destroy
    pool_locked_advance inner_own inner_live inner_acquire "sem_lock.agree handles workers clients" for handles workers clients
proof unfold_locales
  fix y y' i
  show "pool_locked_advance y y' \<Longrightarrow> sem_lock.agree handles workers clients y \<Longrightarrow> sem_lock.agree handles workers clients y'"
    by (rule stack.step_inv [OF advance_locked_step])
  show "sem_lock.agree handles workers clients y \<Longrightarrow> inner_acquire i y = Some y' \<Longrightarrow> inner_own y = None \<Longrightarrow> pool_locked_advance y y'"
    by (rule inner_acquire_advance)
qed (rule stack.acquire_own stack.acquire_other stack.step_kinds, (assumption | rule advance_locked_step)+)+

section \<open>The mutex of the semaphore is never misused\<close>

text \<open>Once the workers are joined nobody is inside the semaphore, and nobody was when they were.\<close>

lemma joined_outside:
  assumes "sem_lock.agree handles workers clients y" "\<not> inner_live y"
  shows "set (ss_pcs (snd (fst y))) \<subseteq> {Outside}" "inner_own y = None"
proof -
  obtain p q m where y: "y = ((p, q), m)" by (metis prod.exhaust)
  note i = agree_parts [OF assms(1), unfolded y fst_conv snd_conv]
  have d: "DDone \<in> set (tp_pcs p)" using assms(2) by (simp add: y inner_live_def pool_live_def)
  have o: "ss_pcs q ! k = Outside" if "k < length (ss_pcs q)" for k by (rule idle_when_joined [OF i(1,2) d that])
  then show "set (ss_pcs (snd (fst y))) \<subseteq> {Outside}" by (auto simp: y in_set_conv_nth)
  show "inner_own y = None" using sem_invD(1) [OF i(4)] o by (cases "ss_lock q") (auto simp: y inner_own_def mutex_ok_def)
qed

lemma join_inner_free:
  assumes "sem_lock.agree handles workers clients y" "pool_locked_step y y'" "inner_live y" "\<not> inner_live y'"
  shows "inner_own y = None"
proof -
  have "sem_lock.agree handles workers clients y'" using stack.step_inv [OF assms(2,1)] .
  then have "inner_own y' = None" using joined_outside(2) assms(4) by blast
  then show ?thesis using inner_kinds [OF assms(1,2)] assms(3,4) by auto
qed

lemma inner_never_faults:
  assumes "stack.agree handles workers clients (y, sm)"
  shows "\<not> inner_fault (y, sm)"
proof -
  have ag: "sem_lock.agree handles workers clients y" by (rule agreeD(1) [OF assms])
  have "inner_acquire i y \<noteq> Some y'" if n: "\<not> inner_live y" for i y'
  proof
    assume "inner_acquire i y = Some y'"
    then obtain old pc where o: "sat (snd (fst y)) i old" "sem_enters old = Some pc" by (auto simp: inner_iff sem_mutex_iff)
    then have "old \<in> set (ss_pcs (snd (fst y)))" using nth_mem unfolding sat_def by metis
    then have "old = Outside" using joined_outside(1) [OF ag n] by auto
    then show False using o(2) by simp
  qed
  then show ?thesis unfolding inner_fault_def stack.fault_cases [OF assms] using join_inner_free [OF ag] by metis
qed

lemma pool_stack_reachable:
  assumes "pool_stack_step\<^sup>*\<^sup>* (pool_stack_start handles workers clients) (y, sm)" "0 < workers" "workers < 2 ^ 61"
  shows "pool_locked_step\<^sup>*\<^sup>* (pool_locked_start handles workers clients) y \<and> stack.agree handles workers clients (y, sm)"
proof -
  have "stack.agree handles workers clients (pool_stack_start handles workers clients)"
    using pool_locked_start_agree [OF assms(2,3), of handles clients]
    unfolding lock_agree_def [of mx_ready mx_owner mutex_lock inner_own inner_live] pool_stack_start_def
    by (simp add: inner_own_def inner_live_def pool_locked_start_def pool_sem_start_def sem_start_def pool_live_def tp_start_def)
  from stack.locked_runs_refine [OF assms(1) [unfolded pool_stack_step_def] this] show ?thesis by (simp add: pool_stack_start_def)
qed

lemma inner_dead_stays:
  assumes "sem_lock.agree handles workers clients y" "pool_locked_step y y'" "\<not> inner_live y"
  shows "\<not> inner_live y'"
proof -
  obtain x m where y: "y = (x, m)" by (cases y)
  have "sem_client_ok handles workers clients x" using agreeD(1) [OF assms(1) [unfolded y]] .
  moreover have "pool_sem_step (fst y) (fst y')" using sem_lock.locked_refines [OF assms(2) [unfolded pool_locked_step_def] assms(1)] by blast
  ultimately show ?thesis using dead_stays [of handles workers clients x "fst y'"] assms(3) by (auto simp: y inner_live_def)
qed

lemma pool_stack_complete:
  assumes "pool_locked_step\<^sup>*\<^sup>* (pool_locked_start handles workers clients) y" "0 < workers" "workers < 2 ^ 61"
  shows "\<exists>sm. pool_stack_step\<^sup>*\<^sup>* (pool_stack_start handles workers clients) (y, sm)"
  unfolding pool_stack_step_def pool_stack_start_def
proof (rule stack.locked_runs_complete [OF assms(1), where good = "\<lambda>_. True"])
  show "stack.agree handles workers clients (pool_locked_start handles workers clients, \<lparr>mx_ready = True, mx_owner = None\<rparr>)"
    using pool_stack_reachable [of handles workers clients "pool_locked_start handles workers clients"] assms(2,3) by (simp add: pool_stack_start_def)
  show "True \<and> (inner_live y \<and> \<not> inner_live z \<longrightarrow> inner_own y = None) \<and> (\<not> inner_live y \<longrightarrow> inner_own z = None)"
    if "sem_lock.agree handles workers clients y" "pool_locked_step y z" for y z
    using join_inner_free [OF that] inner_dead_stays [OF that] joined_outside(2) [OF stack.step_inv [OF that(2,1)]] by blast
qed simp

text \<open>What the pool can do during its shutdown it can do on this mutex too.\<close>

lemma pool_stack_possible:
  assumes "stack.agree handles workers clients (y, sm)" "pool_locked_advance y y'"
  shows "\<exists>sm'. pool_stack_advance (y, sm) (y', sm')"
proof -
  note ag = agreeD(1) [OF assms(1)] and s = advance_locked_step [OF assms(2)]
  show ?thesis unfolding pool_stack_advance_def
    by (rule stack_advance.locked_possible [OF assms])
      (use join_inner_free [OF ag s] inner_dead_stays [OF ag s] joined_outside(2) [OF stack.step_inv [OF s ag]] in blast)+
qed

lemma pool_stack_bounded:
  assumes "stack.agree handles workers clients (((p, q), m), sm)" "(pool_stack_advance ^^ n) (((p, q), m), sm) z"
  shows "n \<le> sem_work (p, q)"
proof -
  have "(pool_locked_advance ^^ n) ((p, q), m) (fst z)"
    using stack_advance.locked_bounded [OF assms(2) [unfolded pool_stack_advance_def] assms(1)] by simp
  then show ?thesis by (rule pool_locked_bounded [OF agreeD(1) [OF assms(1)]])
qed

lemma pool_stack_completes:
  assumes "stack.agree handles workers clients (((p, q), m), sm)" "at p i (DPost k)"
    "pool_stack_advance\<^sup>*\<^sup>* (((p, q), m), sm) (((p', q'), m'), sm')" "\<nexists>z. pool_stack_advance (((p', q'), m'), sm') z"
  shows "at p' i DDone \<and> mset (tp_ran p') = mset (tp_accepted p') \<and> \<not> mx_ready m' \<and> \<not> mx_ready sm'"
proof -
  note ag = agreeD(1) [OF assms(1)]
  from stack_advance.locked_runs_refine [OF assms(3) [unfolded pool_stack_advance_def] assms(1)]
  have r: "pool_locked_advance\<^sup>*\<^sup>* ((p, q), m) ((p', q'), m')" "stack.agree handles workers clients (((p', q'), m'), sm')" by simp_all
  have "\<nexists>y. pool_locked_advance ((p', q'), m') y" using pool_stack_possible [OF r(2)] assms(4) by blast
  from pool_locked_completes [OF ag assms(2) r(1) this]
  have d: "at p' i DDone \<and> mset (tp_ran p') = mset (tp_accepted p') \<and> \<not> mx_ready m'" .
  then have "\<not> inner_live ((p', q'), m')" using at_in by (auto simp: inner_live_def pool_live_def)
  then have "\<not> mx_ready sm'" using agreeD(3) [OF r(2)] unusable_destroyed by blast
  then show ?thesis using d by blast
qed

lemma pool_stack_lock:
  assumes "stack.agree handles workers clients (((p, q), m), sm)"
  shows "if DDone \<in> set (tp_pcs p) then \<not> mx_ready sm \<and> \<not> mx_ready m else mx_ready sm \<and> mx_owner sm = ss_lock q \<and> mx_ready m \<and> mx_owner m = tp_lock p"
proof -
  note o = agreeD [OF agreeD(1) [OF assms]] and i = agreeD [OF assms]
  have l: "inner_live ((p, q), m) = (pool_live \<circ> fst) (p, q)" by (simp add: inner_live_def)
  show ?thesis
  proof (cases "DDone \<in> set (tp_pcs p)")
    case True
    then have "\<not> (pool_live \<circ> fst) (p, q)" by (simp add: pool_live_def)
    then show ?thesis using o(3) i(3) l True unusable_destroyed by simp
  next
    case False
    then have "(pool_live \<circ> fst) (p, q)" by (simp add: pool_live_def)
    then show ?thesis using o(2) i(2) l False by (simp add: inner_own_def)
  qed
qed

text \<open>Without a call of \<open>submit\<close> in progress, no lock call of the shutdown is undefined.\<close>

lemma pool_stack_safe:
  assumes "stack.agree handles workers clients (((p, q), m), sm)" "no_submit p" "pool_stack_advance\<^sup>*\<^sup>* (((p, q), m), sm) z"
  shows "\<not> pool_lock_fault (fst z)" "\<not> inner_fault z"
proof -
  note ag = agreeD(1) [OF assms(1)]
  from stack_advance.locked_runs_refine [OF assms(3) [unfolded pool_stack_advance_def] assms(1)]
  have r: "pool_locked_advance\<^sup>*\<^sup>* ((p, q), m) (fst z)" "stack.agree handles workers clients z" by simp_all
  have "no_submit (fst (fst (fst z)))" "sem_lock.agree handles workers clients (fst z)"
    using advance_runs_no_submit [OF r(1) ag] assms(2) by simp_all
  then show "\<not> pool_lock_fault (fst z)"
    using sem_fault_late [of handles workers clients "fst (fst z)" "snd (fst z)"] no_submit_late by auto
  show "\<not> inner_fault z" using inner_never_faults [of handles workers clients "fst z" "snd z"] r(2) by simp
qed

section \<open>Properties\<close>

text \<open>C15: with the mutex of the semaphore as a real mutex as well, the pool reaches exactly the states of \<open>Thread_Pool_Lock\<close>; both mutexes are
  initialised until \<open>destroy\<close> ends and owned by the thread inside their critical section; and no call on the mutex of the
  semaphore is ever undefined, neither the last unlock of a post nor the destruction that follows the join.\<close>

theorem thread_pool_on_its_primitives:
  assumes "0 < workers" "workers < 2 ^ 61"
  shows "(pool_locked_step\<^sup>*\<^sup>* (pool_locked_start handles workers clients) ((p, q), m) \<longleftrightarrow>
      (\<exists>sm. pool_stack_step\<^sup>*\<^sup>* (pool_stack_start handles workers clients) (((p, q), m), sm))) \<and>
    (\<forall>sm. pool_stack_step\<^sup>*\<^sup>* (pool_stack_start handles workers clients) (((p, q), m), sm) \<longrightarrow> \<not> inner_fault (((p, q), m), sm) \<and>
      (if DDone \<in> set (tp_pcs p) then \<not> mx_ready sm \<and> \<not> mx_ready m
       else mx_ready sm \<and> mx_owner sm = ss_lock q \<and> mx_ready m \<and> mx_owner m = tp_lock p))"
proof -
  have "\<not> inner_fault (((p, q), m), sm) \<and>
      (if DDone \<in> set (tp_pcs p) then \<not> mx_ready sm \<and> \<not> mx_ready m
       else mx_ready sm \<and> mx_owner sm = ss_lock q \<and> mx_ready m \<and> mx_owner m = tp_lock p)"
    if "pool_stack_step\<^sup>*\<^sup>* (pool_stack_start handles workers clients) (((p, q), m), sm)" for sm
    using inner_never_faults pool_stack_lock pool_stack_reachable [OF that assms] by blast
  then show ?thesis using pool_stack_reachable [OF _ assms] pool_stack_complete [OF _ assms] by blast
qed

lemma stack_mid_reachable: "\<exists>m sm. pool_stack_step\<^sup>*\<^sup>* (pool_stack_start 16 1 0) ((ps_mid, m), sm)"
proof -
  obtain m where "pool_locked_step\<^sup>*\<^sup>* (pool_locked_start 16 1 0) (ps_mid, m)" using locked_mid_reachable by blast
  from pool_stack_complete [OF this] show ?thesis by auto
qed

theorem thread_pool_on_its_primitives_witness:
  "\<exists>m sm. pool_stack_step\<^sup>*\<^sup>* (pool_stack_start 16 1 0) ((ps_mid, m), sm) \<and> mx_ready sm \<and> mx_owner sm = None \<and> \<not> inner_fault ((ps_mid, m), sm)"
proof -
  obtain m sm where r: "pool_stack_step\<^sup>*\<^sup>* (pool_stack_start 16 1 0) (((fst ps_mid, snd ps_mid), m), sm)" using stack_mid_reachable by auto
  have "\<not> inner_fault (((fst ps_mid, snd ps_mid), m), sm) \<and> mx_ready sm \<and> mx_owner sm = ss_lock (snd ps_mid)"
    using thread_pool_on_its_primitives [of 1 16 0 "fst ps_mid" "snd ps_mid" m] r by (simp add: ps_mid_def)
  then show ?thesis using r by (auto simp: ps_mid_def sem_start_def)
qed

end
