(* ===== verification/Path.thy ===== *)
theory Path
  imports Memory
begin

text \<open>
  Joining path segments (\<open>io/path.h\<close>, \<open>io/path.c\<close>), for both platforms: on Windows \<open>'/'\<close> and \<open>'\\'\<close> are
  separators and \<open>'\\'\<close> is inserted, elsewhere both are \<open>'/'\<close>. The output
  position \<open>w\<close> and the running total are natural numbers: both stay below the sum of the lengths of the
  segments, which are objects in memory, plus one.
\<close>

section \<open>Definitions\<close>

text \<open>The configurations \<open>_WIN32\<close> chooses between.\<close>

datatype platform = Win32 | Posix

fun SEP :: "platform \<Rightarrow> byte" where
  "SEP Win32 = 92"
| "SEP Posix = 47"

fun path_is_sep :: "platform \<Rightarrow> byte \<Rightarrow> bool" where
  "path_is_sep Win32 c = (c = 47 \<or> c = 92)"
| "path_is_sep Posix c = (c = 47)"

text \<open>The two loops that drop separators.\<close>

fun drop_trailing :: "platform \<Rightarrow> ptr \<Rightarrow> nat \<Rightarrow> mem \<Rightarrow> nat option" where
  "drop_trailing os a 0 m = Some 0"
| "drop_trailing os a (Suc alen) m =
     do { c \<leftarrow> read_byte m (a + alen); if path_is_sep os c then drop_trailing os a alen m else Some (Suc alen) }"

function drop_leading :: "platform \<Rightarrow> ptr \<Rightarrow> nat \<Rightarrow> nat \<Rightarrow> mem \<Rightarrow> nat option" where
  "drop_leading os b bstart blen m =
     (if bstart < blen
      then do { c \<leftarrow> read_byte m (b + bstart); if path_is_sep os c then drop_leading os b (Suc bstart) blen m else Some bstart }
      else Some bstart)"
  by pat_completeness auto
termination by (relation "measure (\<lambda>(_, _, bstart, blen, _). blen - bstart)") auto

declare drop_leading.simps [simp del]

text \<open>\<open>D4NP_PUT\<close> and the copying loops over it; the state is \<open>(w, total, memory)\<close>.\<close>

type_synonym put_state = "nat \<times> nat \<times> mem"

definition D4NP_PUT :: "ptr \<Rightarrow> size_t \<Rightarrow> byte \<Rightarrow> put_state \<Rightarrow> put_state option" where
  "D4NP_PUT out out_size ch = (\<lambda>(w, total, m).
     if out \<noteq> NULL \<and> w + 1 < unat out_size
     then do { m1 \<leftarrow> mem_write m (out + w) [ch]; Some (w + 1, total + 1, m1) }
     else Some (w, total + 1, m))"

fun put_all :: "ptr \<Rightarrow> size_t \<Rightarrow> ptr \<Rightarrow> nat \<Rightarrow> put_state \<Rightarrow> put_state option" where
  "put_all out out_size p 0 st = Some st"
| "put_all out out_size p (Suc k) st =
     do { c \<leftarrow> read_byte (snd (snd st)) p; st1 \<leftarrow> D4NP_PUT out out_size c st; put_all out out_size (p + 1) k st1 }"

text \<open>A NULL segment is the empty string: none of its bytes is read.\<close>

definition seg_len :: "ptr \<Rightarrow> mem \<Rightarrow> nat option" where
  "seg_len p m = (if p = NULL then Some 0 else strlen p m)"

definition d4np_path_combine :: "platform \<Rightarrow> ptr \<Rightarrow> size_t \<Rightarrow> ptr \<Rightarrow> ptr \<Rightarrow> mem \<Rightarrow> (nat \<times> mem) option" where
  "d4np_path_combine os out out_size a b m = do {
     a_full \<leftarrow> seg_len a m;
     alen \<leftarrow> drop_trailing os a a_full m;
     blen \<leftarrow> seg_len b m;
     bstart \<leftarrow> drop_leading os b 0 blen m;
     let bcount = blen - bstart;
     let a_is_root = 0 < a_full \<and> alen = 0;
     st \<leftarrow> (if a_is_root
           then do { st1 \<leftarrow> D4NP_PUT out out_size (SEP os) (0, 0, m); put_all out out_size (b + bstart) bcount st1 }
           else do {
             st1 \<leftarrow> put_all out out_size a alen (0, 0, m);
             st2 \<leftarrow> (if 0 < alen \<and> 0 < bcount then D4NP_PUT out out_size (SEP os) st1 else Some st1);
             put_all out out_size (b + bstart) bcount st2 });
     let (w, total, m1) = st;
     m2 \<leftarrow> (if out \<noteq> NULL \<and> 0 < out_size then mem_write m1 (out + w) [0] else Some m1);
     Some (total, m2)
   }"

section \<open>Specification\<close>

definition rstrip :: "platform \<Rightarrow> byte list \<Rightarrow> byte list" where
  "rstrip os s = rev (dropWhile (path_is_sep os) (rev s))"

definition path_join :: "platform \<Rightarrow> byte list \<Rightarrow> byte list \<Rightarrow> byte list" where
  "path_join os a b =
     (let l = rstrip os a; r = dropWhile (path_is_sep os) b
      in if a \<noteq> [] \<and> l = [] then SEP os # r else if l \<noteq> [] \<and> r \<noteq> [] then l @ SEP os # r else l @ r)"

text \<open>A segment as the caller passes it.\<close>

definition segment :: "mem \<Rightarrow> ptr \<Rightarrow> byte list \<Rightarrow> bool" where
  "segment m p s \<longleftrightarrow> p = NULL \<and> s = [] \<or> p \<noteq> NULL \<and> cstr m p s"

text \<open>The buffer is absent, or an object that does not overlap the segment.\<close>

definition buffer_apart :: "ptr \<Rightarrow> size_t \<Rightarrow> ptr \<Rightarrow> byte list \<Rightarrow> bool" where
  "buffer_apart out out_size p s \<longleftrightarrow> out = NULL \<or> out + unat out_size \<le> p \<or> p + length s < out"

section \<open>The loops\<close>

lemma SEP_nonzero [simp]: "SEP os \<noteq> 0"
  by (cases os) simp_all

lemma segment_len: "segment m p s \<Longrightarrow> seg_len p m = Some (length s)"
  by (auto simp: segment_def seg_len_def strlen_cstr)

lemma segment_read: "segment m p s \<Longrightarrow> i < length s \<Longrightarrow> read_byte m (p + i) = Some (s ! i)"
  by (auto simp: segment_def cstr_def read_byte_Some valid_sub nth_append dest: arg_cong [where f = "\<lambda>x. x ! i"])

lemma rstrip_snoc: "rstrip os (s @ [c]) = (if path_is_sep os c then rstrip os s else s @ [c])"
  by (simp add: rstrip_def)

lemma drop_trailing_ok:
  assumes "\<And>i. i < length s \<Longrightarrow> read_byte m (p + i) = Some (s ! i)"
  shows "drop_trailing os p (length s) m = Some (length (rstrip os s))"
  using assms
proof (induction s rule: rev_induct)
  case Nil
  then show ?case by (simp add: rstrip_def)
next
  case (snoc c s)
  have "read_byte m (p + i) = Some (s ! i)" if "i < length s" for i using snoc.prems [of i] that by (simp add: nth_append)
  with snoc.IH have "drop_trailing os p (length s) m = Some (length (rstrip os s))" by blast
  then show ?case using snoc.prems [of "length s"] by (simp add: rstrip_snoc)
qed

lemma drop_leading_ok:
  assumes "\<And>i. i < length s \<Longrightarrow> read_byte m (p + i) = Some (s ! i)" "k \<le> length s"
  shows "\<exists>j. drop_leading os p k (length s) m = Some j \<and> j \<le> length s \<and> drop j s = dropWhile (path_is_sep os) (drop k s)"
  using assms(2)
proof (induction "length s - k" arbitrary: k)
  case 0
  then show ?case by (simp add: drop_leading.simps)
next
  case (Suc d)
  then have k: "k < length s" by simp
  have e: "drop k s = s ! k # drop (Suc k) s" using k by (simp add: Cons_nth_drop_Suc)
  show ?case
  proof (cases "path_is_sep os (s ! k)")
    case True
    then show ?thesis using Suc.hyps(1) [of "Suc k"] Suc.hyps(2) k assms(1) [OF k] e by (simp add: drop_leading.simps [of os p k])
  next
    case False
    then show ?thesis using k assms(1) [OF k] e by (simp add: drop_leading.simps [of os p k])
  qed
qed

text \<open>The state after the bytes \<open>xs\<close> have been put: what fits has been written.\<close>

definition put_after :: "ptr \<Rightarrow> size_t \<Rightarrow> mem \<Rightarrow> byte list \<Rightarrow> put_state" where
  "put_after out out_size m xs =
     (let w = (if out = NULL then 0 else min (length xs) (unat out_size - 1)) in (w, length xs, poke m out (take w xs)))"

lemma put_step:
  assumes "out = NULL \<or> valid m out (unat out_size)"
  shows "D4NP_PUT out out_size c (put_after out out_size m xs) = Some (put_after out out_size m (xs @ [c]))"
proof (cases "out \<noteq> NULL \<and> length xs + 1 < unat out_size")
  case True
  have "valid m (out + length xs) 1" using assms True by (auto intro: valid_sub)
  then show ?thesis using True
    by (auto simp: D4NP_PUT_def put_after_def Let_def mem_write_Some poke_snoc min_def)
next
  case False
  then show ?thesis by (auto simp: D4NP_PUT_def put_after_def Let_def min_def)
qed

lemma put_all_ok:
  assumes "out = NULL \<or> valid m out (unat out_size)" "\<And>i. i < length s \<Longrightarrow> read_byte m (p + i) = Some (s ! i)"
    "buffer_apart out out_size p s"
  shows "put_all out out_size p (length s) (put_after out out_size m xs) = Some (put_after out out_size m (xs @ s))"
  using assms(2,3)
proof (induction s arbitrary: p xs)
  case (Cons c s)
  let ?m = "snd (snd (put_after out out_size m xs))"
  have "bytes ?m p = bytes m p"
    using Cons.prems(2) by (auto simp: put_after_def Let_def buffer_apart_def intro!: bytes_poke_other)
  moreover have "valid ?m p 1 = valid m p 1" by (simp add: put_after_def Let_def)
  ultimately have r: "read_byte ?m p = Some c" using Cons.prems(1) [of 0] by (auto simp: read_byte_def mem_read_def peek_def split: if_splits)
  have "read_byte m (p + 1 + i) = Some (s ! i)" if "i < length s" for i using Cons.prems(1) [of "Suc i"] that by simp
  moreover have "buffer_apart out out_size (p + 1) s" using Cons.prems(2) by (auto simp: buffer_apart_def)
  ultimately have "put_all out out_size (p + 1) (length s) (put_after out out_size m (xs @ [c])) =
      Some (put_after out out_size m ((xs @ [c]) @ s))" by (rule Cons.IH)
  then show ?case using r put_step [OF assms(1), of c xs] by simp
qed simp

lemma put_start: "put_after out out_size m [] = (0, 0, m)"
  by (simp add: put_after_def)

lemma path_combine_core:
  assumes "segment m a sa" "segment m b sb" "out = NULL \<or> valid m out (unat out_size)"
    "buffer_apart out out_size a sa" "buffer_apart out out_size b sb"
  shows "d4np_path_combine os out out_size a b m =
    (let (w, total, m1) = put_after out out_size m (path_join os sa sb) in
     do { m2 \<leftarrow> (if out \<noteq> NULL \<and> 0 < out_size then mem_write m1 (out + w) [0] else Some m1); Some (total, m2) })"
proof -
  note ra = segment_read [OF assms(1)] and rb = segment_read [OF assms(2)]
  have ta: "drop_trailing os a (length sa) m = Some (length (rstrip os sa))" by (rule drop_trailing_ok) (rule ra)
  from drop_leading_ok [of sb m b 0 os, OF rb] obtain j where
    j: "drop_leading os b 0 (length sb) m = Some j" "j \<le> length sb" "drop j sb = dropWhile (path_is_sep os) sb" by auto
  let ?l = "rstrip os sa" and ?r = "dropWhile (path_is_sep os) sb"
  have lr: "length sb - j = length ?r" using j(3) length_drop [of j sb] by simp
  obtain rest where sa: "sa = ?l @ rest" unfolding rstrip_def
    by (metis rev_append rev_rev_ident takeWhile_dropWhile_id)
  have l: "put_all out out_size a (length ?l) (put_after out out_size m xs) = Some (put_after out out_size m (xs @ ?l))" for xs
  proof (rule put_all_ok [OF assms(3)])
    show "read_byte m (a + i) = Some (?l ! i)" if "i < length ?l" for i
      using ra [of i] that sa nth_append [of ?l rest i] by (metis length_append trans_less_add1)
    show "buffer_apart out out_size a ?l" using assms(4) arg_cong [OF sa, of length] by (auto simp: buffer_apart_def)
  qed
  have r: "put_all out out_size (b + j) (length ?r) (put_after out out_size m xs) = Some (put_after out out_size m (xs @ ?r))" for xs
  proof (rule put_all_ok [OF assms(3)])
    show "read_byte m (b + j + i) = Some (?r ! i)" if "i < length ?r" for i
    proof -
      have "?r ! i = sb ! (j + i)" using nth_drop [OF j(2), of i] j(3) by simp
      then show ?thesis using rb [of "j + i"] that lr by (simp add: add.assoc)
    qed
    show "buffer_apart out out_size (b + j) ?r" using assms(5) lr j(2) by (auto simp: buffer_apart_def)
  qed
  have s: "D4NP_PUT out out_size (SEP os) (put_after out out_size m xs) = Some (put_after out out_size m (xs @ [SEP os]))" for xs
    by (rule put_step [OF assms(3)])
  have e: "0 < length x \<longleftrightarrow> x \<noteq> []" for x :: "byte list" by simp
  show ?thesis
    unfolding d4np_path_combine_def segment_len [OF assms(1)] segment_len [OF assms(2)] put_start [of out out_size m, symmetric]
    by (simp add: ta j(1) lr l r s Let_def path_join_def)
qed

section \<open>Properties\<close>

text \<open>C33: \<open>d4np_path_combine\<close> returns the length of the join of the two segments (trailing separators of the left
  and leading separators of the right dropped, exactly one separator between two non-empty parts,
  a root kept), whatever the size of the buffer; a buffer of \<open>n > 0\<close> bytes receives the first \<open>n - 1\<close> bytes of
  it and a terminator; nothing else is written, and with no buffer nothing at all.\<close>

theorem path_combine_joins:
  assumes "wf_mem m" "segment m a sa" "segment m b sb" "out = NULL \<or> outside m B out (unat out_size)" "B \<subseteq> set (live m)"
    "buffer_apart out out_size a sa" "buffer_apart out out_size b sb"
  shows "\<exists>m'. d4np_path_combine os out out_size a b m = Some (length (path_join os sa sb), m') \<and> wf_mem m' \<and> keeps B m m' \<and>
    (if out \<noteq> NULL \<and> 0 < out_size then cstr m' out (take (unat out_size - 1) (path_join os sa sb)) else m' = m)"
proof -
  have v: "out = NULL \<or> valid m out (unat out_size)" using assms(4) outside_valid by blast
  let ?j = "path_join os sa sb" and ?w = "min (length (path_join os sa sb)) (unat out_size - 1)"
  note core = path_combine_core [OF assms(2,3) v assms(6,7)]
  show ?thesis
  proof (cases "out \<noteq> NULL \<and> 0 < out_size")
    case False
    have "take ?w ?j = []" if "out_size = 0" using that by simp
    then show ?thesis using core False assms(1,5) by (auto simp: put_after_def Let_def word_gt_0)
  next
    case True
    then have n: "0 < unat out_size" by (simp add: unat_pos_iff word_gt_0)
    let ?t = "take ?w ?j"
    have lt: "length ?t = ?w" "?w + 1 \<le> unat out_size" using n by simp_all
    have vw: "valid m (out + ?w) 1" "valid m out (?w + 1)" using v True lt(2) by (auto intro: valid_sub)
    have "d4np_path_combine os out out_size a b m = Some (length ?j, poke (poke m out ?t) (out + ?w) [0])"
      using core True vw by (simp add: put_after_def Let_def mem_write_Some)
    also have "poke (poke m out ?t) (out + ?w) [0] = poke m out (?t @ [0])" using poke_snoc [of m out ?t 0] lt(1) by simp
    finally have e: "d4np_path_combine os out out_size a b m = Some (length ?j, poke m out (?t @ [0]))" .
    have o: "outside m B out (length (?t @ [0]))" using outside_le [of m B out "unat out_size"] assms(4) True lt by simp
    have "0 \<notin> set sa" "0 \<notin> set sb" using assms(2,3) by (auto simp: segment_def cstr_def)
    then have "0 \<notin> set ?j" by (auto simp: path_join_def Let_def rstrip_def dest: set_dropWhileD)
    then have "0 \<notin> set ?t" by (meson in_set_takeD)
    then have "cstr (poke m out (?t @ [0])) out ?t" using vw(2) lt(1) peek_poke_same [of "?w + 1" "?t @ [0]" m out] by (simp add: cstr_def)
    moreover have "?t = take (unat out_size - 1) ?j" by (simp add: min_def)
    ultimately show ?thesis using e True assms(1) keeps_poke_out [OF assms(1) o assms(5)] by auto
  qed
qed

text \<open>\<open>"usr//"\<close> and \<open>"/lib"\<close> into a buffer of six bytes, which holds five and the terminator.\<close>

definition path_ex_mem :: mem where
  "path_ex_mem = \<lparr>bytes = (\<lambda>p. if p < 200 then [117, 115, 114, 47, 47, 0] ! (p - 100) else [47, 108, 105, 98, 0] ! (p - 200)),
     live = [(100, 6), (200, 5), (300, 6)], place = (\<lambda>_. 0), tick = 0\<rparr>"

theorem path_combine_joins_witness:
  "\<exists>m'. d4np_path_combine Posix 300 6 100 200 path_ex_mem = Some (7, m') \<and> cstr m' 300 [117, 115, 114, 47, 108]"
proof -
  have s: "segment path_ex_mem 100 [117, 115, 114, 47, 47]" "segment path_ex_mem 200 [47, 108, 105, 98]"
    by (simp_all add: segment_def cstr_def path_ex_mem_def valid_def peek_def upt_rec)
  have j: "path_join Posix [117, 115, 114, 47, 47] [47, 108, 105, 98] = [117, 115, 114, 47, 108, 105, 98]"
    by (simp add: path_join_def rstrip_def )
  have "wf_mem path_ex_mem" "outside path_ex_mem {(100, 6), (200, 5)} 300 6" "{(100, 6), (200, 5)} \<subseteq> set (live path_ex_mem)"
    by (simp_all add: wf_mem_def path_ex_mem_def ADDR_LIMIT_def outside_def)
  with path_combine_joins [OF _ s, of 300 "{(100, 6), (200, 5)}" 6] obtain m' where
    r: "d4np_path_combine Posix 300 6 100 200 path_ex_mem = Some (length (path_join Posix [117, 115, 114, 47, 47] [47, 108, 105, 98]), m')"
      "cstr m' 300 (take 5 (path_join Posix [117, 115, 114, 47, 47] [47, 108, 105, 98]))"
    by (auto simp: buffer_apart_def)
  have "length (path_join Posix [117, 115, 114, 47, 47] [47, 108, 105, 98]) = 7" by (simp add: j)
  with r show ?thesis by (simp add: j)
qed

end
