(* ===== verification/File_Read.thy ===== *)
theory File_Read
  imports Status Allocator
begin

text \<open>
  Reading a whole file (\<open>d4np_file_read_all\<close> of \<open>io/file.h\<close>, \<open>io/file.c\<close>). A stream opened for reading is
  the bytes it will still deliver and whether it then reports an error instead of the end of the file;
  \<open>fread\<close> delivers as many of the bytes as asked for, fewer only at the end or before the error. What \<open>fopen\<close>
  answers is an argument, and the number of streams left open is part of the result.
\<close>

section \<open>Definitions\<close>

record stream =
  st_data :: "byte list"
  st_error :: bool

definition D4NP_FILE_CHUNK :: size_t where
  "D4NP_FILE_CHUNK = 65536"

text \<open>\<open>fread(buf, 1, n, f)\<close>: the number of bytes delivered, the stream and the memory.\<close>

definition fread :: "ptr \<Rightarrow> size_t \<Rightarrow> stream \<Rightarrow> mem \<Rightarrow> (size_t \<times> stream \<times> mem) option" where
  "fread buf n f m =
     (let chunk = take (unat n) (st_data f)
      in do { m1 \<leftarrow> mem_write m buf chunk; Some (of_nat (length chunk), f\<lparr>st_data := drop (unat n) (st_data f)\<rparr>, m1) })"

definition ferror :: "stream \<Rightarrow> bool" where
  "ferror f \<longleftrightarrow> st_data f = [] \<and> st_error f"

text \<open>The streams that are open are counted: \<open>fopen\<close> opens one, \<open>fclose\<close> closes it.\<close>

definition fclose_stream :: "nat \<Rightarrow> nat" where
  "fclose_stream streams = streams - 1"

text \<open>The growth of the buffer at the top of the loop: an error, with the buffer freed and the stream closed, or the buffer and its capacity.\<close>

definition read_grow ::
  "d4np_allocator option \<Rightarrow> nat \<Rightarrow> ptr \<Rightarrow> size_t \<Rightarrow> size_t \<Rightarrow> mem \<Rightarrow> ((d4np_status + ptr \<times> size_t) \<times> nat \<times> mem) option" where
  "read_grow al streams buf cap len m =
     (if len = cap
      then do {
        let ncap = (if cap = 0 then D4NP_FILE_CHUNK else cap * 2);
        (nb, m1) \<leftarrow> d4np_realloc al buf cap ncap MAX_ALIGN m;
        if nb = NULL
        then do { m2 \<leftarrow> d4np_free al buf cap m1; Some (Inl D4NP_ERR_OUT_OF_MEMORY, fclose_stream streams, m2) }
        else Some (Inr (nb, ncap), streams, m1) }
      else Some (Inr (buf, cap), streams, m))"

text \<open>The loop: an error with nothing held and the stream closed, or the buffer, its capacity and the length at the end of the file.\<close>

partial_function (option) read_loop ::
  "d4np_allocator option \<Rightarrow> stream \<Rightarrow> nat \<Rightarrow> ptr \<Rightarrow> size_t \<Rightarrow> size_t \<Rightarrow> mem \<Rightarrow>
   ((d4np_status + ptr \<times> size_t \<times> size_t) \<times> nat \<times> mem) option" where
  "read_loop al f streams buf cap len m = do {
     (r, open1, m1) \<leftarrow> read_grow al streams buf cap len m;
     case r of
       Inl e \<Rightarrow> Some (Inl e, open1, m1)
     | Inr bc \<Rightarrow> do {
         (got, f1, m2) \<leftarrow> fread (fst bc + unat len) (snd bc - len) f m1;
         if got = 0
         then if ferror f1
              then do { m3 \<leftarrow> d4np_free al (fst bc) (snd bc) m2; Some (Inl D4NP_ERR_IO, fclose_stream open1, m3) }
              else Some (Inr (fst bc, snd bc, len + got), open1, m2)
         else read_loop al f1 open1 (fst bc) (snd bc) (len + got) m2 } }"

text \<open>
  The result: the status, what was stored through \<open>out_data\<close> and \<open>out_size\<close> (if anything), the number of
  streams left open, the memory.
\<close>

definition d4np_file_read_all ::
  "(ptr \<Rightarrow> stream option) \<Rightarrow> ptr \<Rightarrow> d4np_allocator option \<Rightarrow> ptr \<Rightarrow> ptr \<Rightarrow> mem \<Rightarrow>
   (d4np_status \<times> (ptr \<times> size_t) option \<times> nat \<times> mem) option" where
  "d4np_file_read_all fopen path allocator out_data out_size m =
     (if path = NULL \<or> out_data = NULL \<or> out_size = NULL then Some (D4NP_ERR_INVALID_ARGUMENT, None, 0, m)
      else let al = Some (allocator_or_default allocator)
        in case fopen path of
             None \<Rightarrow> Some (D4NP_ERR_IO, None, 0, m)
           | Some f \<Rightarrow> do {
               (r, open1, m1) \<leftarrow> read_loop al f 1 NULL 0 0 m;
               case r of
                 Inl e \<Rightarrow> Some (e, None, open1, m1)
               | Inr bcl \<Rightarrow>
                   let buf = fst bcl; cap = fst (snd bcl); len = snd (snd bcl); streams = fclose_stream open1
                   in if len = 0
                      then do { m2 \<leftarrow> d4np_free al buf cap m1; Some (D4NP_OK, Some (NULL, 0), streams, m2) }
                      else do {
                        (shrunk, m2) \<leftarrow> d4np_realloc al buf cap len MAX_ALIGN m1;
                        let buf = (if shrunk \<noteq> NULL then shrunk else buf);
                        Some (D4NP_OK, Some (buf, len), streams, m2) } })"

section \<open>The loop\<close>

text \<open>
  Between iterations the loop owns at most one block, of \<open>cap\<close> bytes, which starts with the bytes read so far,
  and has touched nothing else of the memory it started with.
\<close>

definition rd_inv :: "mem \<Rightarrow> mem \<Rightarrow> ptr \<Rightarrow> size_t \<Rightarrow> size_t \<Rightarrow> byte list \<Rightarrow> bool" where
  "rd_inv m0 m buf cap len pre \<longleftrightarrow> wf_mem m \<and> keeps (set (live m0)) m0 m \<and> len \<le> cap \<and> unat len = length pre \<and>
     peek m buf (length pre) = pre \<and>
     (buf = NULL \<and> cap = 0 \<and> set (live m) = set (live m0) \<or>
      (buf, unat cap) \<notin> set (live m0) \<and> set (live m) = insert (buf, unat cap) (set (live m0)))"

lemma rd_owned: "rd_inv m0 m buf cap len pre \<Longrightarrow> owned m buf cap"
  by (auto simp: rd_inv_def owned_def)

lemma rd_rest:
  assumes "rd_inv m0 m buf cap len pre"
  shows "set (live m) - {(buf, unat cap)} = set (live m0)"
proof -
  have "(NULL, unat cap) \<notin> set (live m)" using assms wf_block [of m NULL] by (auto simp: rd_inv_def)
  then show ?thesis using assms by (auto simp: rd_inv_def)
qed

context frugal_allocator
begin

text \<open>Giving up at any point leaves exactly the memory there was.\<close>

lemma rd_give_up:
  assumes "rd_inv m0 m buf cap len pre"
  shows "\<exists>m'. d4np_free (Some A) buf cap m = Some m' \<and> wf_mem m' \<and> keeps (set (live m0)) m0 m' \<and> set (live m') = set (live m0)"
proof -
  have wf: "wf_mem m" and k: "keeps (set (live m0)) m0 m" using assms by (simp_all add: rd_inv_def)
  have "buf = NULL \<or> (buf, unat cap) \<in> set (live m)" using assms by (auto simp: rd_inv_def)
  from free_exact [OF wf this] obtain m' where
    "d4np_free (Some A) buf cap m = Some m'" "wf_mem m'" "keeps (set (live m0)) m m'" "set (live m') = set (live m0)"
    unfolding rd_rest [OF assms] by blast
  then show ?thesis using keeps_trans [OF k] by blast
qed

lemma rd_realloc:
  assumes "rd_inv m0 m buf cap len pre" "new \<noteq> 0" "len \<le> new"
  shows "\<exists>q m'. d4np_realloc (Some A) buf cap new MAX_ALIGN m = Some (q, m') \<and>
    (if q = NULL then rd_inv m0 m' buf cap len pre else rd_inv m0 m' q new len pre)"
proof -
  have wf: "wf_mem m" and k: "keeps (set (live m0)) m0 m" and p: "len \<le> cap" "unat len = length pre" "peek m buf (length pre) = pre"
    using assms(1) by (simp_all add: rd_inv_def)
  show ?thesis
  proof (cases rule: realloc_exact [OF wf pow2_MAX_ALIGN assms(2) rd_owned [OF assms(1)], case_names fail ok])
    case (fail m')
    have "peek m' buf (length pre) = peek m buf (length pre)"
    proof (cases "buf = NULL")
      case True
      then have "cap = 0" using assms(1) wf_block [OF wf, of NULL] by (auto simp: rd_inv_def)
      then show ?thesis using p by simp
    next
      case False
      then have "(buf, unat cap) \<in> set (live m)" using assms(1) by (auto simp: rd_inv_def)
      then show ?thesis using keeps_peek [OF fail(3), of buf "unat cap" buf "length pre"] p(1,2) by (simp add: word_le_nat_alt)
    qed
    moreover have "keeps (set (live m0)) m0 m'" by (rule keeps_trans [OF k keeps_mono [OF fail(3) keeps_subset [OF k]]])
    ultimately have "rd_inv m0 m' buf cap len pre" using assms(1) fail by (simp add: rd_inv_def)
    with fail(1) show ?thesis by auto
  next
    case (ok q m')
    have "length pre \<le> min (unat cap) (unat new)" using p(1,2) assms(3) by (simp add: word_le_nat_alt)
    then have "peek m' q (length pre) = peek m buf (length pre)"
      using arg_cong [OF ok(7), of "take (length pre)"] by (simp add: take_peek min_absorb1)
    moreover have "keeps (set (live m0)) m0 m'" using keeps_trans [OF k] ok(4) unfolding rd_rest [OF assms(1)] .
    ultimately have "rd_inv m0 m' q new len pre" using ok p assms(3) unfolding rd_rest [OF assms(1)] by (auto simp: rd_inv_def)
    with ok(1,2) show ?thesis by auto
  qed
qed

lemma read_grow_ok:
  assumes "rd_inv m0 m buf cap len pre"
  shows "\<exists>m'. read_grow (Some A) n buf cap len m = Some (Inl D4NP_ERR_OUT_OF_MEMORY, n - 1, m') \<and> wf_mem m' \<and> keeps (set (live m0)) m0 m' \<and>
      set (live m') = set (live m0) \<or>
    (\<exists>b c. read_grow (Some A) n buf cap len m = Some (Inr (b, c), n, m') \<and> rd_inv m0 m' b c len pre \<and> len < c \<and> b \<noteq> NULL)"
proof (cases "len = cap")
  case False
  have "len < cap" using assms False by (auto simp: rd_inv_def)
  moreover have "buf \<noteq> NULL"
  proof
    assume "buf = NULL"
    then have "cap = 0" using assms wf_block [of m NULL "unat cap"] by (auto simp: rd_inv_def)
    then show False using \<open>len < cap\<close> by simp
  qed
  ultimately show ?thesis using assms False by (auto simp: read_grow_def)
next
  case True
  let ?n = "if cap = 0 then D4NP_FILE_CHUNK else cap * 2"
  have n: "?n \<noteq> 0" "len < ?n"
  proof -
    have "unat ?n = (if cap = 0 then 65536 else unat cap * 2)"
    proof (cases "cap = 0")
      case False
      then have "(buf, unat cap) \<in> set (live m)" "wf_mem m" using assms by (auto simp: rd_inv_def)
      then have "unat cap * unat (2 :: size_t) < 2 ^ 64" using block_size_bound by fastforce
      then show ?thesis using unat_mult_exact [of cap 2] False by simp
    qed (simp add: D4NP_FILE_CHUNK_def)
    then have "unat len < unat ?n" using True unat_pos_iff [of cap] by auto
    then show "len < ?n" by (simp add: word_less_nat_alt)
    then show "?n \<noteq> 0" by auto
  qed
  from rd_realloc [OF assms n(1)] n(2) obtain q m1 where
    q: "d4np_realloc (Some A) buf cap ?n MAX_ALIGN m = Some (q, m1)"
      "if q = NULL then rd_inv m0 m1 buf cap len pre else rd_inv m0 m1 q ?n len pre" by force
  show ?thesis
  proof (cases "q = NULL")
    case True
    with q(2) have "rd_inv m0 m1 buf cap len pre" by simp
    from rd_give_up [OF this] q(1) True \<open>len = cap\<close> show ?thesis by (auto simp: read_grow_def fclose_stream_def Let_def)
  next
    case False
    with q n(2) \<open>len = cap\<close> show ?thesis by (auto simp: read_grow_def fclose_stream_def Let_def)
  qed
qed

text \<open>One \<open>fread\<close> into the free part of the buffer.\<close>

lemma fread_ok:
  assumes "rd_inv m0 m b c len pre" "len < c" "b \<noteq> NULL"
  defines "k \<equiv> unat (c - len)"
  shows "\<exists>m'. fread (b + unat len) (c - len) f m = Some (of_nat (length (take k (st_data f))), f\<lparr>st_data := drop k (st_data f)\<rparr>, m') \<and>
    rd_inv m0 m' b c (len + of_nat (length (take k (st_data f)))) (pre @ take k (st_data f)) \<and> 0 < k"
proof -
  let ?ch = "take k (st_data f)"
  have wf: "wf_mem m" and kp: "keeps (set (live m0)) m0 m" and p: "unat len = length pre" "peek m b (length pre) = pre"
    using assms(1) by (simp_all add: rd_inv_def)
  have blk: "(b, unat c) \<in> set (live m)" "(b, unat c) \<notin> set (live m0)" using assms(1,3) by (auto simp: rd_inv_def)
  have k: "k = unat c - length pre" "length pre < unat c"
    using unat_sub_exact [of len c] assms(2) p(1) by (simp_all add: k_def word_less_nat_alt word_le_nat_alt)
  have ch: "length pre + length ?ch \<le> unat c" using k by simp
  have v: "valid m (b + length pre) (length ?ch)" using blk(1) by (rule validI) (use ch in simp_all)
  let ?m = "poke m (b + length pre) ?ch"
  have f: "fread (b + unat len) (c - len) f m = Some (of_nat (length ?ch), f\<lparr>st_data := drop k (st_data f)\<rparr>, ?m)"
    unfolding fread_def Let_def p(1) k_def [symmetric] using v by (simp add: mem_write_Some)
  have "unat (of_nat (length ?ch) :: size_t) = length ?ch"
    by (rule unat_of_nat_small) (use ch unsigned_less [of c, where 'a = nat] in simp)
  then have l: "unat (len + of_nat (length ?ch)) = length (pre @ ?ch)"
    using unat_add_exact [of len "of_nat (length ?ch)"] p(1) ch unsigned_less [of c, where 'a = nat] by simp
  have "peek ?m b (length pre) = pre" using p(2) by (simp add: peek_poke_other)
  moreover have "peek ?m (b + length pre) (length ?ch) = ?ch" by (rule peek_poke_same) simp
  ultimately have pk: "peek ?m b (length (pre @ ?ch)) = pre @ ?ch" using peek_append [of ?m b "length pre" "length ?ch"] by simp
  have "keeps (set (live m0)) m ?m"
    using keeps_poke [OF wf blk(1), of "b + length pre" ?ch "set (live m0)"] ch blk(2) keeps_subset [OF kp] by auto
  then have "keeps (set (live m0)) m0 ?m" by (rule keeps_trans [OF kp])
  then have "rd_inv m0 ?m b c (len + of_nat (length ?ch)) (pre @ ?ch)"
    using assms(1) l pk ch by (simp add: rd_inv_def word_le_nat_alt)
  with f k show ?thesis by auto
qed

text \<open>The loop returns for every stream, with everything the stream delivers or with an error and nothing held.\<close>

lemma read_loop_ok:
  assumes "rd_inv m0 m buf cap len pre"
  shows "\<exists>m'. (\<exists>e. read_loop (Some A) f n buf cap len m = Some (Inl e, n - 1, m') \<and> wf_mem m' \<and> keeps (set (live m0)) m0 m' \<and>
      set (live m') = set (live m0) \<and> (e = D4NP_ERR_OUT_OF_MEMORY \<or> e = D4NP_ERR_IO \<and> st_error f)) \<or>
    (\<exists>b c l. read_loop (Some A) f n buf cap len m = Some (Inr (b, c, l), n, m') \<and> rd_inv m0 m' b c l (pre @ st_data f) \<and> \<not> st_error f)"
  using assms
proof (induction "length (st_data f)" arbitrary: f buf cap len pre m rule: less_induct)
  case less
  from read_grow_ok [OF less.prems, of n] obtain m1 where
    "read_grow (Some A) n buf cap len m = Some (Inl D4NP_ERR_OUT_OF_MEMORY, n - 1, m1) \<and> wf_mem m1 \<and> keeps (set (live m0)) m0 m1 \<and>
      set (live m1) = set (live m0) \<or>
     (\<exists>b c. read_grow (Some A) n buf cap len m = Some (Inr (b, c), n, m1) \<and> rd_inv m0 m1 b c len pre \<and> len < c \<and> b \<noteq> NULL)" by blast
  then show ?case
  proof (elim disjE exE conjE)
    assume "read_grow (Some A) n buf cap len m = Some (Inl D4NP_ERR_OUT_OF_MEMORY, n - 1, m1)" "wf_mem m1" "keeps (set (live m0)) m0 m1"
      "set (live m1) = set (live m0)"
    then show ?thesis by (subst (1 2) read_loop.simps) simp
  next
    fix b c assume g: "read_grow (Some A) n buf cap len m = Some (Inr (b, c), n, m1)" "rd_inv m0 m1 b c len pre" "len < c" "b \<noteq> NULL"
    let ?k = "unat (c - len)"
    let ?ch = "take ?k (st_data f)" and ?f = "f\<lparr>st_data := drop ?k (st_data f)\<rparr>"
    from fread_ok [OF g(2-4), of f] obtain m2 where
      r: "fread (b + unat len) (c - len) f m1 = Some (of_nat (length ?ch), ?f, m2)"
        "rd_inv m0 m2 b c (len + of_nat (length ?ch)) (pre @ ?ch)" "0 < ?k" by blast
    show ?thesis
    proof (cases "st_data f = []")
      case True
      with r(2) have i: "rd_inv m0 m2 b c len pre" by simp
      have s: "read_loop (Some A) f n buf cap len m = (if st_error f
          then do { m3 \<leftarrow> d4np_free (Some A) b c m2; Some (Inl D4NP_ERR_IO, n - 1, m3) } else Some (Inr (b, c, len), n, m2))"
        using g(1) r(1) True by (subst read_loop.simps) (simp add: ferror_def fclose_stream_def)
      show ?thesis using rd_give_up [OF i] i s True by (cases "st_error f") auto
    next
      case False
      have lc: "length ?ch \<le> unat c" using r(2) unsigned_less by (auto simp: rd_inv_def word_le_nat_alt)
      have "(of_nat (length ?ch) :: size_t) \<noteq> 0"
      proof
        assume "(of_nat (length ?ch) :: size_t) = 0"
        then have "unat (of_nat (length ?ch) :: size_t) = 0" by simp
        moreover have "unat (of_nat (length ?ch) :: size_t) = length ?ch"
          by (rule unat_of_nat_small) (use lc unsigned_less [of c, where 'a = nat] in simp)
        ultimately show False using False r(3) by (auto simp: min_def split: if_splits)
      qed
      then have s: "read_loop (Some A) f n buf cap len m = read_loop (Some A) ?f n b c (len + of_nat (length ?ch)) m2"
        using g(1) r(1) by (subst read_loop.simps) simp
      have "length (st_data ?f) < length (st_data f)" using False r(3) by simp
      from less.hyps [OF this r(2)] show ?thesis unfolding s by (simp add: append.assoc)
    qed
  qed
qed

text \<open>The trimming at the end: the bytes stay in one block, whose size is the length unless it failed.\<close>

lemma read_trim:
  assumes "rd_inv m0 m b c l data" "data \<noteq> []"
  shows "\<exists>q m' p n. d4np_realloc (Some A) b c l MAX_ALIGN m = Some (q, m') \<and> p = (if q \<noteq> NULL then q else b) \<and> l \<noteq> 0 \<and>
    (p, n) \<notin> set (live m0) \<and> set (live m') = insert (p, n) (set (live m0)) \<and> unat l \<le> n \<and> unat l = length data \<and>
    wf_mem m' \<and> keeps (set (live m0)) m0 m' \<and> peek m' p (unat l) = data"
proof -
  have ul: "unat l = length data" using assms(1) by (simp add: rd_inv_def)
  with assms(2) have l: "l \<noteq> 0" by auto
  from rd_realloc [OF assms(1) l] obtain q m' where
    q: "d4np_realloc (Some A) b c l MAX_ALIGN m = Some (q, m')"
      "if q = NULL then rd_inv m0 m' b c l data else rd_inv m0 m' q l l data" by auto
  then obtain p n where i: "rd_inv m0 m' p n l data" "p = (if q \<noteq> NULL then q else b)" by (auto split: if_splits)
  have "p \<noteq> NULL"
  proof
    assume "p = NULL"
    then have "n = 0" using i(1) wf_block [of m' NULL] by (auto simp: rd_inv_def)
    then show False using i(1) l by (simp add: rd_inv_def)
  qed
  then have "(p, unat n) \<notin> set (live m0)" "set (live m') = insert (p, unat n) (set (live m0))" "unat l \<le> unat n" "wf_mem m'"
      "keeps (set (live m0)) m0 m'" "peek m' p (unat l) = data"
    using i(1) ul by (auto simp: rd_inv_def word_le_nat_alt)
  with q(1) i(2) l ul show ?thesis by blast
qed

end

lemma read_all_cases:
  assumes "frugal_allocator A" "wf_mem m" "path \<noteq> NULL" "out_data \<noteq> NULL" "out_size \<noteq> NULL" "fopen path = Some f"
  shows "\<exists>rc out m'. d4np_file_read_all fopen path (Some A) out_data out_size m = Some (rc, out, 0, m') \<and> wf_mem m' \<and>
    keeps (set (live m)) m m' \<and>
    (rc = D4NP_OK \<and> \<not> st_error f \<and> st_data f = [] \<and> out = Some (NULL, 0) \<and> set (live m') = set (live m) \<or>
     rc = D4NP_OK \<and> \<not> st_error f \<and> st_data f \<noteq> [] \<and>
       (\<exists>p l n. out = Some (p, l) \<and> unat l = length (st_data f) \<and> peek m' p (unat l) = st_data f \<and>
          unat l \<le> n \<and> (p, n) \<notin> set (live m) \<and> set (live m') = insert (p, n) (set (live m))) \<or>
     (rc = D4NP_ERR_OUT_OF_MEMORY \<or> rc = D4NP_ERR_IO \<and> st_error f) \<and> out = None \<and> set (live m') = set (live m))"
proof -
  have i0: "rd_inv m m NULL 0 0 []" using assms(2) by (simp add: rd_inv_def)
  have red: "d4np_file_read_all fopen path (Some A) out_data out_size m = do {
       (r, open1, m1) \<leftarrow> read_loop (Some A) f 1 NULL 0 0 m;
       case r of
         Inl e \<Rightarrow> Some (e, None, open1, m1)
       | Inr bcl \<Rightarrow> if snd (snd bcl) = 0
           then do { m2 \<leftarrow> d4np_free (Some A) (fst bcl) (fst (snd bcl)) m1; Some (D4NP_OK, Some (NULL, 0), open1 - 1, m2) }
           else do { (shrunk, m2) \<leftarrow> d4np_realloc (Some A) (fst bcl) (fst (snd bcl)) (snd (snd bcl)) MAX_ALIGN m1;
             Some (D4NP_OK, Some (if shrunk \<noteq> NULL then shrunk else fst bcl, snd (snd bcl)), open1 - 1, m2) } }"
    unfolding d4np_file_read_all_def Let_def allocator_or_default_simps fclose_stream_def using assms(3-6) by simp
  from frugal_allocator.read_loop_ok [OF assms(1) i0, of f 1] consider
    (err) e m1 where "read_loop (Some A) f 1 NULL 0 0 m = Some (Inl e, 0, m1)" "wf_mem m1" "keeps (set (live m)) m m1"
      "set (live m1) = set (live m)" "e = D4NP_ERR_OUT_OF_MEMORY \<or> e = D4NP_ERR_IO \<and> st_error f"
    | (ok) b c l m1 where "read_loop (Some A) f 1 NULL 0 0 m = Some (Inr (b, c, l), 1, m1)" "rd_inv m m1 b c l (st_data f)" "\<not> st_error f"
    by auto
  then show ?thesis
  proof cases
    case err
    then show ?thesis unfolding red by auto
  next
    case ok
    show ?thesis
    proof (cases "st_data f = []")
      case True
      then have "l = 0" using ok(2) by (simp add: rd_inv_def unsigned_eq_0_iff)
      with frugal_allocator.rd_give_up [OF assms(1) ok(2)] ok(1,3) True show ?thesis unfolding red by auto
    next
      case False
      from frugal_allocator.read_trim [OF assms(1) ok(2) this] obtain q m2 p n where
        p: "d4np_realloc (Some A) b c l MAX_ALIGN m1 = Some (q, m2)" "p = (if q \<noteq> NULL then q else b)" "l \<noteq> 0"
          "(p, n) \<notin> set (live m) \<and> set (live m2) = insert (p, n) (set (live m)) \<and> unat l \<le> n \<and> unat l = length (st_data f) \<and>
           wf_mem m2 \<and> keeps (set (live m)) m m2 \<and> peek m2 p (unat l) = st_data f" by blast
      have "d4np_file_read_all fopen path (Some A) out_data out_size m = Some (D4NP_OK, Some (p, l), 0, m2)"
        unfolding red using ok(1) p(1-3) by simp
      with p(4) ok(3) False show ?thesis by blast
    qed
  qed
qed

section \<open>Properties\<close>

text \<open>C20: for every stream and every allocator that keeps the contract, \<open>d4np_file_read_all\<close> returns: with all bytes
  of the file in a fresh block and nothing else allocated, with \<open>{NULL, 0}\<close> for an empty file, or with
  OUT_OF_MEMORY or IO and not one byte more in use than before; the stream is closed, and no other
  object changes. The block has the size reported unless the final trimming failed.\<close>

theorem file_read_all_outcome:
  assumes "frugal_allocator A" "wf_mem m" "path \<noteq> NULL" "out_data \<noteq> NULL" "out_size \<noteq> NULL" "fopen path = Some f"
  shows "\<exists>rc out m'. d4np_file_read_all fopen path (Some A) out_data out_size m = Some (rc, out, 0, m') \<and> wf_mem m' \<and>
    keeps (set (live m)) m m' \<and>
    (rc = D4NP_OK \<and> \<not> st_error f \<and> st_data f = [] \<and> out = Some (NULL, 0) \<and> set (live m') = set (live m) \<or>
     rc = D4NP_OK \<and> \<not> st_error f \<and> st_data f \<noteq> [] \<and>
       (\<exists>p l n. out = Some (p, l) \<and> unat l = length (st_data f) \<and> peek m' p (unat l) = st_data f \<and>
          unat l \<le> n \<and> (p, n) \<notin> set (live m) \<and> set (live m') = insert (p, n) (set (live m))) \<or>
     (rc = D4NP_ERR_OUT_OF_MEMORY \<or> rc = D4NP_ERR_IO \<and> st_error f) \<and> out = None \<and> set (live m') = set (live m))"
  using assms by (rule read_all_cases)

definition read_ex_mem :: mem where
  "read_ex_mem = \<lparr>bytes = (\<lambda>_. 0), live = [(64, 8)], place = (\<lambda>_. 4096), tick = 0\<rparr>"

theorem file_read_all_outcome_witness:
  "\<exists>rc out m'. d4np_file_read_all (\<lambda>_. Some \<lparr>st_data = [1, 2, 3], st_error = False\<rparr>) 64 (Some d4np_allocator_default) 128 136 read_ex_mem =
     Some (rc, out, 0, m') \<and> (rc \<noteq> D4NP_OK \<longrightarrow> rc = D4NP_ERR_OUT_OF_MEMORY)"
proof -
  have "wf_mem read_ex_mem" by (simp add: wf_mem_def read_ex_mem_def ADDR_LIMIT_def)
  from file_read_all_outcome [OF default_frugal.frugal_allocator_axioms this, of 64 128 136 "\<lambda>_. Some \<lparr>st_data = [1, 2, 3], st_error = False\<rparr>"]
  show ?thesis by auto
qed

text \<open>The trimming at the end may fail; then the block is larger than the size reported, and freeing it with
  that size, as the header asks, is not freeing the block that was allocated.\<close>

definition tight_mem :: mem where
  "tight_mem = \<lparr>bytes = (\<lambda>_. 0), live = [], place = (\<lambda>t. if t = 0 then 4096 else 0), tick = 0\<rparr>"

lemma file_read_all_untrimmed:
  "\<exists>m'. d4np_file_read_all (\<lambda>_. Some \<lparr>st_data = [7], st_error = False\<rparr>) 64 None 128 136 tight_mem = Some (D4NP_OK, Some (4096, 1), 0, m') \<and>
     live m' = [(4096, 65536)]"
proof -
  let ?f = "\<lparr>st_data = [7], st_error = False\<rparr> :: stream" and ?D = "Some d4np_allocator_default"
  let ?m1 = "tight_mem\<lparr>tick := 1, live := [(4096, 65536)]\<rparr>"
  let ?m2 = "poke ?m1 4096 [7]"
  have g: "read_grow ?D 1 NULL 0 0 tight_mem = Some (Inr (4096, 65536), 1, ?m1)"
    by (simp add: read_grow_def d4np_realloc_def d4np_allocator_default_def default_realloc_def align_ok_def realloc_def malloc_def
        tight_mem_def placeable_def ADDR_LIMIT_def D4NP_FILE_CHUNK_def Let_def)
  have r1: "fread 4096 65536 ?f ?m1 = Some (1, ?f\<lparr>st_data := []\<rparr>, ?m2)"
    by (simp add: fread_def Let_def mem_write_def valid_def)
  have g2: "read_grow ?D 1 4096 65536 1 ?m2 = Some (Inr (4096, 65536), 1, ?m2)" by (simp add: read_grow_def)
  have r2: "fread 4097 65535 (?f\<lparr>st_data := []\<rparr>) ?m2 = Some (0, ?f\<lparr>st_data := []\<rparr>, ?m2)"
    by (simp add: fread_def Let_def mem_write_def valid_def)
  have "read_loop ?D (?f\<lparr>st_data := []\<rparr>) 1 4096 65536 1 ?m2 = Some (Inr (4096, 65536, 1), 1, ?m2)"
    using g2 r2 by (subst read_loop.simps) (simp add: ferror_def)
  then have l: "read_loop ?D ?f 1 NULL 0 0 tight_mem = Some (Inr (4096, 65536, 1), 1, ?m2)"
    using g r1 by (subst read_loop.simps) simp
  have s: "d4np_realloc ?D 4096 65536 1 MAX_ALIGN ?m2 = Some (NULL, ?m2\<lparr>tick := 2\<rparr>)"
    by (simp add: d4np_realloc_def d4np_allocator_default_def default_realloc_def align_ok_def realloc_def placeable_def Let_def)
      (simp add: tight_mem_def)
  show ?thesis using l s by (simp add: d4np_file_read_all_def fclose_stream_def Let_def)
qed

end
