(* ===== verification/File_Write.thy ===== *)
theory File_Write
  imports Status Memory
begin

text \<open>
  Writing a whole file (\<open>d4np_file_write_all\<close>, \<open>file_sync\<close> of \<open>io/file.h\<close>, \<open>io/file.c\<close>), POSIX branch. The
  file system is a directory from names to inodes and, for each inode, the contents a reader sees and
  the contents that are certain to be on the disk, which are unknown between a write and \<open>fsync\<close>. After a crash the
  directory may be any version since the last one known to be on the disk. The answers of the operating system (whether a
  call fails, how much of the data has reached the file) are an argument. The function is modelled
  by the sequence of states the file system goes through, so that readers and crashes in the middle are covered.
\<close>

section \<open>The file system\<close>

type_synonym fname = "byte list"

record file_system =
  fs_dir :: "fname \<Rightarrow> nat option"
  fs_disk_dirs :: "(fname \<Rightarrow> nat option) list"
  fs_cached :: "nat \<Rightarrow> byte list option"
  fs_stable :: "nat \<Rightarrow> byte list option"

definition set_dir :: "(fname \<Rightarrow> nat option) \<Rightarrow> file_system \<Rightarrow> file_system" where
  "set_dir d fs = fs\<lparr>fs_dir := d, fs_disk_dirs := d # fs_disk_dirs fs\<rparr>"

lemma set_dir_simps [simp]:
  "fs_dir (set_dir d fs) = d" "fs_disk_dirs (set_dir d fs) = d # fs_disk_dirs fs" "fs_cached (set_dir d fs) = fs_cached fs"
  "fs_stable (set_dir d fs) = fs_stable fs"
  by (simp_all add: set_dir_def)

definition set_cached :: "nat \<Rightarrow> byte list \<Rightarrow> file_system \<Rightarrow> file_system" where
  "set_cached i bs fs = fs\<lparr>fs_cached := (fs_cached fs)(i \<mapsto> bs), fs_stable := (fs_stable fs)(i := None)\<rparr>"

text \<open>\<open>fopen(name, "wb")\<close>: truncates an existing file, creates a new one on a free inode.\<close>

definition fopen_wb :: "nat \<Rightarrow> fname \<Rightarrow> file_system \<Rightarrow> nat \<times> file_system" where
  "fopen_wb ino name fs =
     (case fs_dir fs name of
        Some i \<Rightarrow> (i, set_cached i [] fs)
      | None \<Rightarrow> (ino, set_cached ino [] (set_dir ((fs_dir fs)(name \<mapsto> ino)) fs)))"

definition fsync_file :: "nat \<Rightarrow> file_system \<Rightarrow> file_system" where
  "fsync_file i fs = fs\<lparr>fs_stable := (fs_stable fs)(i := fs_cached fs i)\<rparr>"

definition rename_file :: "fname \<Rightarrow> fname \<Rightarrow> file_system \<Rightarrow> file_system" where
  "rename_file old new fs = set_dir ((fs_dir fs)(new := fs_dir fs old, old := None)) fs"

definition remove_file :: "fname \<Rightarrow> file_system \<Rightarrow> file_system" where
  "remove_file name fs = set_dir ((fs_dir fs)(name := None)) fs"

section \<open>Definitions\<close>

record write_os =
  os_open :: bool
  os_ino :: nat
  os_spill :: nat
  os_written :: size_t
  os_flush_rc :: int
  os_sync_rc :: int
  os_close_rc :: int
  os_rename_rc :: int
  os_remove_rc :: int

text \<open>The characters of \<open>".tmp"\<close>; with the terminator \<open>sizeof(".tmp")\<close> is 5, and the buffer has 4096 bytes.\<close>

definition dot_tmp :: fname where
  "dot_tmp = [46, 116, 109, 112]"

definition drop_temp :: "write_os \<Rightarrow> fname \<Rightarrow> file_system \<Rightarrow> file_system" where
  "drop_temp os tmp fs = (if os_remove_rc os = 0 then remove_file tmp fs else fs)"

definition file_sync :: "write_os \<Rightarrow> nat \<Rightarrow> file_system \<Rightarrow> int \<times> file_system" where
  "file_sync os i fs = (os_sync_rc os, if os_sync_rc os = 0 then fsync_file i fs else fs)"

text \<open>Filling the temporary file: \<open>s1\<close> after \<open>fopen\<close>, \<open>s2\<close> while \<open>fwrite\<close> fills the stream's buffer and passes some of it
  on, \<open>s3\<close> after \<open>fflush\<close>, \<open>s4\<close> after \<open>fsync\<close>. Whether the file is complete and closed, and the states on the way.\<close>

definition fill_temp :: "write_os \<Rightarrow> fname \<Rightarrow> size_t \<Rightarrow> byte list \<Rightarrow> file_system \<Rightarrow> bool \<times> file_system list" where
  "fill_temp os tmp sz bs s0 =
     (let (i, s1) = fopen_wb (os_ino os) tmp s0;
          s2 = set_cached i (take (os_spill os) bs) s1
      in if 0 < sz \<and> os_written os \<noteq> sz then (False, [s0, s1, s2, drop_temp os tmp s2])
         else let s3 = (if os_flush_rc os = 0 then set_cached i bs s2 else s2);
                  (sync_rc, s4) = (if os_flush_rc os = 0 then file_sync os i s3 else (0, s3))
           in if os_flush_rc os \<noteq> 0 \<or> sync_rc \<noteq> 0 then (False, [s0, s1, s2, s3, drop_temp os tmp s4])
              else if os_close_rc os \<noteq> 0 then (False, [s0, s1, s2, s3, s4, drop_temp os tmp s4])
              else (True, [s0, s1, s2, s3, s4]))"

text \<open>The replacement of the target by the temporary file.\<close>

definition write_temp :: "write_os \<Rightarrow> fname \<Rightarrow> fname \<Rightarrow> size_t \<Rightarrow> byte list \<Rightarrow> file_system \<Rightarrow> d4np_status \<times> file_system list" where
  "write_temp os path tmp sz bs s0 =
     (let (filled, tr) = fill_temp os tmp sz bs s0
      in if \<not> filled then (D4NP_ERR_IO, tr)
         else if os_rename_rc os \<noteq> 0 then (D4NP_ERR_IO, tr @ [drop_temp os tmp (last tr)])
         else (D4NP_OK, tr @ [rename_file tmp path (last tr)]))"

definition d4np_file_write_all ::
  "write_os \<Rightarrow> ptr \<Rightarrow> ptr \<Rightarrow> size_t \<Rightarrow> mem \<Rightarrow> file_system \<Rightarrow> (d4np_status \<times> file_system list) option" where
  "d4np_file_write_all os path data sz m fs =
     (if path = NULL \<or> 0 < sz \<and> data = NULL then Some (D4NP_ERR_INVALID_ARGUMENT, [fs])
      else do {
        plen \<leftarrow> strlen path m;
        if 4096 < plen + 5 then Some (D4NP_ERR_INVALID_ARGUMENT, [fs])
        else do {
          name \<leftarrow> mem_read m path plen;
          if \<not> os_open os then Some (D4NP_ERR_IO, [fs])
          else do {
            bs \<leftarrow> (if 0 < sz then mem_read m data (unat sz) else Some []);
            Some (write_temp os name (name @ dot_tmp) sz bs fs) } } })"

section \<open>What readers and crashes see\<close>

definition contents :: "file_system \<Rightarrow> fname \<Rightarrow> byte list option" where
  "contents fs n = (case fs_dir fs n of None \<Rightarrow> None | Some i \<Rightarrow> fs_cached fs i)"

text \<open>After a crash: no file, a file with unknown contents, or a file with the given contents.\<close>

datatype after_crash = Absent | Garbage | Holds "byte list"

definition on_disk :: "file_system \<Rightarrow> fname \<Rightarrow> (fname \<Rightarrow> nat option) \<Rightarrow> after_crash" where
  "on_disk fs n d = (case d n of None \<Rightarrow> Absent | Some i \<Rightarrow> (case fs_stable fs i of None \<Rightarrow> Garbage | Some bs \<Rightarrow> Holds bs))"

definition crash_contents :: "file_system \<Rightarrow> fname \<Rightarrow> after_crash set" where
  "crash_contents fs n = on_disk fs n ` set (fs_disk_dirs fs)"

text \<open>A file system at rest: everything is on the disk, no inode has two names, the inode offered is free.\<close>

definition at_rest :: "file_system \<Rightarrow> nat \<Rightarrow> bool" where
  "at_rest fs ino \<longleftrightarrow> fs_disk_dirs fs = [fs_dir fs] \<and> inj_on (fs_dir fs) (dom (fs_dir fs)) \<and>
     ino \<notin> ran (fs_dir fs) \<and> (\<forall>i \<in> ran (fs_dir fs). fs_cached fs i \<noteq> None \<and> fs_stable fs i = fs_cached fs i)"

text \<open>States in which only the temporary name and its inode have been touched.\<close>

definition only_temp :: "file_system \<Rightarrow> fname \<Rightarrow> nat \<Rightarrow> file_system \<Rightarrow> bool" where
  "only_temp fs tmp i s \<longleftrightarrow> fs_disk_dirs s \<noteq> [] \<and> (\<forall>n. n \<noteq> tmp \<longrightarrow> fs_dir s n = fs_dir fs n) \<and>
     (\<forall>d \<in> set (fs_disk_dirs s). \<forall>n. n \<noteq> tmp \<longrightarrow> d n = fs_dir fs n) \<and>
     (\<forall>j. j \<noteq> i \<longrightarrow> fs_cached s j = fs_cached fs j \<and> fs_stable s j = fs_stable fs j)"

lemma only_temp_ops:
  assumes "only_temp fs tmp i s"
  shows "only_temp fs tmp i (set_cached i bs s)" "only_temp fs tmp i (fsync_file i s)" "only_temp fs tmp i (remove_file tmp s)"
    "only_temp fs tmp i (set_dir ((fs_dir s)(tmp := x)) s)" "only_temp fs tmp i (drop_temp os tmp s)"
  using assms by (auto simp: only_temp_def set_cached_def fsync_file_def remove_file_def drop_temp_def)

lemma only_temp_view:
  assumes "only_temp fs tmp i s" "n \<noteq> tmp" "fs_dir fs n \<noteq> Some i" "fs_disk_dirs fs = [fs_dir fs]"
  shows "contents s n = contents fs n" "crash_contents s n = crash_contents fs n"
proof -
  have d: "fs_dir s n = fs_dir fs n" "\<And>d. d \<in> set (fs_disk_dirs s) \<Longrightarrow> d n = fs_dir fs n" "fs_disk_dirs s \<noteq> []"
    and c: "\<And>j. j \<noteq> i \<Longrightarrow> fs_cached s j = fs_cached fs j \<and> fs_stable s j = fs_stable fs j"
    using assms(1,2) by (auto simp: only_temp_def)
  show "contents s n = contents fs n" using d(1) c assms(3) by (auto simp: contents_def split: option.splits)
  have "on_disk s n d = on_disk fs n (fs_dir fs)" if "d \<in> set (fs_disk_dirs s)" for d
    using d(2) [OF that] c assms(3) by (cases "fs_dir fs n") (auto simp: on_disk_def)
  then show "crash_contents s n = crash_contents fs n" using d(3) assms(4)
    by (simp add: crash_contents_def image_constant_conv cong: image_cong)
qed

lemma fopen_wb_ok:
  assumes "at_rest fs ino" "fopen_wb ino tmp fs = (i, s1)"
  shows "only_temp fs tmp i s1" "\<And>n. n \<noteq> tmp \<Longrightarrow> fs_dir fs n \<noteq> Some i" "fs_dir s1 tmp = Some i"
proof -
  have o: "only_temp fs tmp i fs" using assms(1) by (simp add: only_temp_def at_rest_def)
  show "only_temp fs tmp i s1" "fs_dir s1 tmp = Some i"
    using assms(2) only_temp_ops(1,4) [OF o] only_temp_ops(1) [OF only_temp_ops(4) [OF o]]
    by (auto simp: fopen_wb_def set_cached_def split: option.splits)
  show "fs_dir fs n \<noteq> Some i" if "n \<noteq> tmp" for n
    using assms that inj_onD [of "fs_dir fs" "dom (fs_dir fs)" n tmp] unfolding at_rest_def fopen_wb_def
    by (auto split: option.splits simp: ran_def)
qed

text \<open>Filling the temporary file touches nothing else; at the end it is complete and on the disk.\<close>

lemma fill_temp_ok:
  assumes "at_rest fs (os_ino os)" "fill_temp os tmp sz bs fs = (filled, tr)" "fopen_wb (os_ino os) tmp fs = (i, s1)"
  shows "tr \<noteq> [] \<and> (\<forall>s \<in> set (butlast tr). only_temp fs tmp i s) \<and>
    (filled \<longrightarrow> only_temp fs tmp i (last tr) \<and> fs_dir (last tr) tmp = Some i \<and> fs_cached (last tr) i = Some bs \<and> fs_stable (last tr) i = Some bs) \<and>
    (\<not> filled \<longrightarrow> (\<exists>s. last tr = drop_temp os tmp s \<and> only_temp fs tmp i s))"
proof -
  note o1 = fopen_wb_ok(1) [OF assms(1,3)] and d1 = fopen_wb_ok(3) [OF assms(1,3)]
  define s2 where "s2 = set_cached i (take (os_spill os) bs) s1"
  define s3 where "s3 = set_cached i bs s2"
  define s4 where "s4 = fsync_file i s3"
  have o0: "only_temp fs tmp i fs" using assms(1) by (simp add: only_temp_def at_rest_def)
  have o: "only_temp fs tmp i s2" "only_temp fs tmp i s3" "only_temp fs tmp i s4"
    using o1 by (simp_all add: s2_def s3_def s4_def only_temp_ops)
  have f4: "fs_dir s4 tmp = Some i" "fs_cached s4 i = Some bs" "fs_stable s4 i = Some bs"
    using d1 by (simp_all add: s4_def s3_def s2_def fsync_file_def set_cached_def)
  have w: "fill_temp os tmp sz bs fs =
      (if 0 < sz \<and> os_written os \<noteq> sz then (False, [fs, s1, s2, drop_temp os tmp s2])
       else if os_flush_rc os \<noteq> 0 then (False, [fs, s1, s2, s2, drop_temp os tmp s2])
       else if os_sync_rc os \<noteq> 0 then (False, [fs, s1, s2, s3, drop_temp os tmp s3])
       else if os_close_rc os \<noteq> 0 then (False, [fs, s1, s2, s3, s4, drop_temp os tmp s4])
       else (True, [fs, s1, s2, s3, s4]))"
    unfolding fill_temp_def assms(3) by (simp add: Let_def file_sync_def flip: s2_def s3_def s4_def)
  show ?thesis using w assms(2) o0 o1 o f4 by (auto split: if_splits)
qed

text \<open>Until the rename only the temporary file is touched; what is renamed is complete and on the disk.\<close>

lemma write_temp_ok:
  assumes "at_rest fs (os_ino os)" "write_temp os path tmp sz bs fs = (rc, tr)" "fopen_wb (os_ino os) tmp fs = (i, s1)"
  shows "tr \<noteq> [] \<and> rc \<in> {D4NP_OK, D4NP_ERR_IO} \<and> (\<forall>s \<in> set (butlast tr). only_temp fs tmp i s) \<and>
    (rc = D4NP_OK \<longrightarrow> (\<exists>s. last tr = rename_file tmp path s \<and> only_temp fs tmp i s \<and> fs_dir s tmp = Some i \<and>
       fs_cached s i = Some bs \<and> fs_stable s i = Some bs)) \<and>
    (rc \<noteq> D4NP_OK \<longrightarrow> (\<exists>s. last tr = drop_temp os tmp s \<and> only_temp fs tmp i s))"
proof -
  obtain filled tr1 where f: "fill_temp os tmp sz bs fs = (filled, tr1)" by fastforce
  note ok = fill_temp_ok [OF assms(1) f assms(3)]
  have "filled \<longrightarrow> (\<forall>s \<in> set tr1. only_temp fs tmp i s)" using ok by (metis append_butlast_last_id rotate1.simps(2) set_ConsD set_rotate1)
  then show ?thesis using assms(2) ok f by (auto simp: write_temp_def split: if_splits)
qed

text \<open>The file after the rename, for readers and after a crash.\<close>

lemma renamed_view:
  assumes "only_temp fs tmp i s" "fs_dir s tmp = Some i" "fs_cached s i = Some bs" "fs_stable s i = Some bs" "path \<noteq> tmp"
    "\<And>n. n \<noteq> tmp \<Longrightarrow> fs_dir fs n \<noteq> Some i" "fs_disk_dirs fs = [fs_dir fs]"
  shows "contents (rename_file tmp path s) path = Some bs" "contents (rename_file tmp path s) tmp = None"
    "crash_contents (rename_file tmp path s) path = insert (Holds bs) (crash_contents fs path)"
    "n \<noteq> path \<Longrightarrow> n \<noteq> tmp \<Longrightarrow> contents (rename_file tmp path s) n = contents fs n \<and>
       crash_contents (rename_file tmp path s) n = crash_contents fs n"
proof -
  let ?s = "rename_file tmp path s" and ?d = "(fs_dir s)(path := fs_dir s tmp, tmp := None)"
  show "contents ?s path = Some bs" "contents ?s tmp = None"
    using assms(2,3,5) by (simp_all add: contents_def rename_file_def)
  have same: "on_disk ?s n d = on_disk s n d" for n d by (simp add: on_disk_def rename_file_def split: option.split)
  have dirs: "set (fs_disk_dirs ?s) = insert ?d (set (fs_disk_dirs s))" by (simp add: rename_file_def)
  have new: "on_disk s path ?d = Holds bs" using assms(2,4,5) by (simp add: on_disk_def)
  show "crash_contents ?s path = insert (Holds bs) (crash_contents fs path)"
    using only_temp_view(2) [OF assms(1,5) assms(6) [OF assms(5)] assms(7)] new by (simp add: crash_contents_def dirs same)
  assume n: "n \<noteq> path" "n \<noteq> tmp"
  note v = only_temp_view [OF assms(1) n(2) assms(6) [OF n(2)] assms(7)]
  have "on_disk s n ?d = on_disk s n (fs_dir s)" using n by (simp add: on_disk_def)
  moreover have "on_disk s n (fs_dir s) \<in> crash_contents s n"
  proof -
    obtain d where d: "d \<in> set (fs_disk_dirs s)" using assms(1) by (auto simp: only_temp_def intro: last_in_set)
    then have "on_disk s n (fs_dir s) = on_disk s n d" using assms(1) n(2) by (simp add: only_temp_def on_disk_def)
    then show ?thesis using d by (simp add: crash_contents_def)
  qed
  ultimately have "crash_contents ?s n = crash_contents s n" by (auto simp: crash_contents_def dirs same)
  moreover have "contents ?s n = contents s n" using n by (simp add: contents_def rename_file_def split: option.split)
  ultimately show "contents ?s n = contents fs n \<and> crash_contents ?s n = crash_contents fs n" using v by simp
qed

text \<open>What a state of the run may show: everything as before, or, at the end of a successful run, the new file.\<close>

definition fine_state :: "file_system \<Rightarrow> fname \<Rightarrow> fname \<Rightarrow> byte list \<Rightarrow> bool \<Rightarrow> file_system \<Rightarrow> bool" where
  "fine_state fs name tmp bs replaced s \<longleftrightarrow>
     (contents s name = contents fs name \<and> crash_contents s name = crash_contents fs name \<or>
      replaced \<and> contents s name = Some bs \<and> crash_contents s name = insert (Holds bs) (crash_contents fs name)) \<and>
     (\<forall>n. n \<noteq> name \<and> n \<noteq> tmp \<longrightarrow> contents s n = contents fs n \<and> crash_contents s n = crash_contents fs n)"

lemma fine_before:
  assumes "only_temp fs tmp i s" "\<And>n. n \<noteq> tmp \<Longrightarrow> fs_dir fs n \<noteq> Some i" "fs_disk_dirs fs = [fs_dir fs]" "name \<noteq> tmp"
  shows "fine_state fs name tmp bs b s"
  using only_temp_view [OF assms(1) _ assms(2) assms(3)] assms(4) by (simp add: fine_state_def)

lemma write_temp_trace:
  assumes "at_rest fs (os_ino os)" "write_temp os name tmp sz bs fs = (rc, tr)" "name \<noteq> tmp"
  shows "tr \<noteq> [] \<and> rc \<in> {D4NP_OK, D4NP_ERR_IO} \<and> (\<forall>s \<in> set tr. fine_state fs name tmp bs (rc = D4NP_OK \<and> s = last tr) s) \<and>
    (rc = D4NP_OK \<longrightarrow> contents (last tr) name = Some bs \<and> contents (last tr) tmp = None) \<and>
    (rc \<noteq> D4NP_OK \<and> os_remove_rc os = 0 \<longrightarrow> contents (last tr) tmp = None)"
proof -
  have dd: "fs_disk_dirs fs = [fs_dir fs]" using assms(1) by (simp add: at_rest_def)
  obtain i s1 where f: "fopen_wb (os_ino os) tmp fs = (i, s1)" by fastforce
  note fresh = fopen_wb_ok(2) [OF assms(1) f] and ok = write_temp_ok [OF assms(1,2) f]
  have early: "fine_state fs name tmp bs b s" if "only_temp fs tmp i s" for s b by (rule fine_before [OF that fresh dd assms(3)])
  have tr: "tr \<noteq> []" using ok by simp
  have last: "fine_state fs name tmp bs (rc = D4NP_OK) (last tr) \<and>
      (rc = D4NP_OK \<longrightarrow> contents (last tr) name = Some bs \<and> contents (last tr) tmp = None) \<and>
      (rc \<noteq> D4NP_OK \<and> os_remove_rc os = 0 \<longrightarrow> contents (last tr) tmp = None)"
  proof (cases "rc = D4NP_OK")
    case True
    with ok obtain s where s: "last tr = rename_file tmp name s" "only_temp fs tmp i s" "fs_dir s tmp = Some i"
      "fs_cached s i = Some bs" "fs_stable s i = Some bs" by blast
    show ?thesis using renamed_view [OF s(2-5) assms(3) fresh dd] s(1) True by (simp add: fine_state_def)
  next
    case False
    with ok obtain s where s: "last tr = drop_temp os tmp s" "only_temp fs tmp i s" by blast
    have "os_remove_rc os = 0 \<longrightarrow> contents (last tr) tmp = None" using s(1) by (simp add: drop_temp_def remove_file_def contents_def)
    then show ?thesis using early [OF only_temp_ops(5) [OF s(2)], of False os] s(1) False by simp
  qed
  have "fine_state fs name tmp bs (rc = D4NP_OK \<and> s = last tr) s" if "s \<in> set tr" for s
  proof (cases "s = last tr")
    case False
    with that tr have "s \<in> set (butlast tr)" by (metis append_butlast_last_id insert_iff list.simps(15) rotate1.simps(2) set_rotate1)
    with ok early show ?thesis by blast
  qed (use last in simp)
  with tr ok last show ?thesis by blast
qed

text \<open>With legal arguments, all that can fail before the temporary file exists is opening it.\<close>

lemma write_all_reduces:
  assumes "path \<noteq> NULL" "cstr m path name" "length name + 5 \<le> 4096" "0 < sz \<Longrightarrow> data \<noteq> NULL \<and> valid m data (unat sz)"
  shows "d4np_file_write_all os path data sz m fs =
    Some (if \<not> os_open os then (D4NP_ERR_IO, [fs]) else write_temp os name (name @ dot_tmp) sz (peek m data (unat sz)) fs)"
proof -
  have len: "strlen path m = Some (length name)" by (rule strlen_cstr [OF assms(2)])
  have nm: "mem_read m path (length name) = Some name"
    using assms(2) cstr_peek [OF assms(2)] valid_sub [of m path "length name + 1" path "length name"] by (auto simp: cstr_def mem_read_Some)
  have d: "(if 0 < sz then mem_read m data (unat sz) else Some []) = Some (peek m data (unat sz))"
    using assms(4) by (auto simp: mem_read_Some word_gt_0)
  show ?thesis using assms(1,3,4) len nm d by (auto simp: d4np_file_write_all_def)
qed

section \<open>Properties\<close>

text \<open>C6: \<open>d4np_file_write_all\<close> replaces the file atomically. In every state it goes through, whatever the operating
  system answers, a reader of the path sees the old contents or all of the new ones, and so does whoever looks
  after a crash; on success the path holds the data and the temporary file is gone; on
  failure the path has not changed at any moment and the temporary file is removed; no file but the path and its temporary companion changes.\<close>

theorem file_write_all_atomic:
  assumes "path \<noteq> NULL" "cstr m path name" "length name + 5 \<le> 4096" "0 < sz \<Longrightarrow> data \<noteq> NULL \<and> valid m data (unat sz)"
    "at_rest fs (os_ino os)"
  defines "bs \<equiv> peek m data (unat sz)" and "tmp \<equiv> name @ dot_tmp"
  shows "\<exists>rc tr. d4np_file_write_all os path data sz m fs = Some (rc, tr) \<and> tr \<noteq> [] \<and> rc \<in> {D4NP_OK, D4NP_ERR_IO} \<and>
    (\<forall>s \<in> set tr. (contents s name = contents fs name \<and> crash_contents s name = crash_contents fs name \<or>
        rc = D4NP_OK \<and> s = last tr \<and> contents s name = Some bs \<and> crash_contents s name = insert (Holds bs) (crash_contents fs name)) \<and>
      (\<forall>n. n \<noteq> name \<and> n \<noteq> tmp \<longrightarrow> contents s n = contents fs n \<and> crash_contents s n = crash_contents fs n)) \<and>
    (rc = D4NP_OK \<longrightarrow> contents (last tr) name = Some bs \<and> contents (last tr) tmp = None) \<and>
    (rc \<noteq> D4NP_OK \<and> os_open os \<and> os_remove_rc os = 0 \<longrightarrow> contents (last tr) tmp = None)"
proof -
  have ne: "name \<noteq> tmp" by (simp add: tmp_def dot_tmp_def)
  obtain rc tr where w: "write_temp os name tmp sz bs fs = (rc, tr)" by fastforce
  have red: "d4np_file_write_all os path data sz m fs = Some (if \<not> os_open os then (D4NP_ERR_IO, [fs]) else write_temp os name tmp sz bs fs)"
    unfolding tmp_def bs_def by (rule write_all_reduces [OF assms(1-4)])
  show ?thesis unfolding red using write_temp_trace [OF assms(5) w ne] w by (cases "os_open os") (auto simp: fine_state_def)
qed

text \<open>Three bytes are written over the file \<open>"a"\<close>, which held one.\<close>

definition write_ex_mem :: mem where
  "write_ex_mem = \<lparr>bytes = (\<lambda>p. if p = 100 then 97 else if p = 101 then 0 else 5), live = [(100, 2), (200, 3)], place = (\<lambda>_. 0), tick = 0\<rparr>"

definition write_ex_fs :: file_system where
  "write_ex_fs = \<lparr>fs_dir = [[97] \<mapsto> 1], fs_disk_dirs = [[[97] \<mapsto> 1]], fs_cached = [1 \<mapsto> [9]], fs_stable = [1 \<mapsto> [9]]\<rparr>"

definition write_ex_os :: write_os where
  "write_ex_os = \<lparr>os_open = True, os_ino = 2, os_spill = 1, os_written = 3, os_flush_rc = 0, os_sync_rc = 0, os_close_rc = 0,
     os_rename_rc = 0, os_remove_rc = 0\<rparr>"

theorem file_write_all_atomic_witness:
  "\<exists>rc tr. d4np_file_write_all write_ex_os 100 200 3 write_ex_mem write_ex_fs = Some (rc, tr) \<and>
     (rc = D4NP_OK \<longrightarrow> contents (last tr) [97] = Some [5, 5, 5])"
proof -
  have c: "cstr write_ex_mem 100 [97]" "valid write_ex_mem 200 (unat (3 :: size_t))" "peek write_ex_mem 200 (unat (3 :: size_t)) = [5, 5, 5]"
    by (simp_all add: cstr_def write_ex_mem_def valid_def peek_def upt_rec)
  have "at_rest write_ex_fs (os_ino write_ex_os)" by (auto simp: at_rest_def write_ex_fs_def write_ex_os_def inj_on_def split: if_splits)
  with file_write_all_atomic [OF _ c(1), of 3 200 write_ex_fs write_ex_os] c(2,3) show ?thesis by auto
qed

end
