(* ===== verification/File_Roundtrip.thy ===== *)
theory File_Roundtrip
  imports File_Read File_Write
begin

text \<open>
  Writing a file and reading it back (\<open>io/file.c\<close>): the two functions composed through the file system, in one
  process or two, each with its own memory and the reader with any allocator that keeps its contract.
\<close>

section \<open>Definitions\<close>

text \<open>How the disk behaves while a file is read: \<open>fopen\<close> may be refused although the file is there, and reading may fail after some
  bytes have been delivered.\<close>

record read_disk =
  rd_refused :: bool
  rd_fails_after :: "nat option"

definition read_failed :: "read_disk \<Rightarrow> bool" where
  "read_failed d \<longleftrightarrow> rd_refused d \<or> rd_fails_after d \<noteq> None"

text \<open>\<open>fopen(path, "rb")\<close> on that disk.\<close>

definition fopen_rb :: "read_disk \<Rightarrow> file_system \<Rightarrow> mem \<Rightarrow> ptr \<Rightarrow> stream option" where
  "fopen_rb d fs m path = do {
     len \<leftarrow> strlen path m;
     name \<leftarrow> mem_read m path len;
     bs \<leftarrow> contents fs name;
     if rd_refused d then None
     else Some (case rd_fails_after d of
         None \<Rightarrow> \<lparr>st_data = bs, st_error = False\<rparr>
       | Some k \<Rightarrow> \<lparr>st_data = take k bs, st_error = True\<rparr>) }"

lemma fopen_rb_ok:
  assumes "cstr m path name" "contents fs name = Some bs"
  shows "fopen_rb d fs m path = (if rd_refused d then None
    else Some (case rd_fails_after d of None \<Rightarrow> \<lparr>st_data = bs, st_error = False\<rparr> | Some k \<Rightarrow> \<lparr>st_data = take k bs, st_error = True\<rparr>))"
  using valid_sub [of m path "length name + 1" path "length name"] cstr_peek [of m path name] assms
  by (auto simp: fopen_rb_def strlen_cstr cstr_def mem_read_Some)

lemma written_contents:
  assumes "path \<noteq> NULL" "cstr m path name" "length name + 5 \<le> 4096" "0 < sz \<Longrightarrow> data \<noteq> NULL \<and> valid m data (unat sz)"
    "at_rest fs (os_ino os)" "d4np_file_write_all os path data sz m fs = Some (D4NP_OK, tr)"
  shows "contents (last tr) name = Some (peek m data (unat sz))"
proof -
  have "write_temp os name (name @ dot_tmp) sz (peek m data (unat sz)) fs = (D4NP_OK, tr)"
    using assms(6) write_all_reduces [OF assms(1-4), of os fs] by (simp split: if_splits)
  then show ?thesis using write_temp_trace [OF assms(5)] by (fastforce simp: dot_tmp_def)
qed

section \<open>Properties\<close>

text \<open>C18: what \<open>d4np_file_write_all\<close> has reported as written, \<open>d4np_file_read_all\<close> reads back, whatever the disk does while it is read: when
  it reports OK, the size is the one written, the bytes are the bytes written, in one fresh block, and nothing else has been allocated; an error means that memory
  ran out, or is an I/O error and the disk did refuse or fail, and then nothing is stored through the result pointers and exactly the objects are
  allocated that were before. No stream is left open and nothing else in the reader's memory changes.\<close>

theorem file_roundtrip:
  assumes "path \<noteq> NULL" "cstr m path name" "length name + 5 \<le> 4096" "0 < sz \<Longrightarrow> data \<noteq> NULL \<and> valid m data (unat sz)"
    "at_rest fs (os_ino os)" "d4np_file_write_all os path data sz m fs = Some (D4NP_OK, tr)"
    "frugal_allocator A" "wf_mem m'" "path' \<noteq> NULL" "cstr m' path' name" "out_data \<noteq> NULL" "out_size \<noteq> NULL"
  shows "\<exists>rc out m''. d4np_file_read_all (fopen_rb d (last tr) m') path' (Some A) out_data out_size m' = Some (rc, out, 0, m'') \<and>
    keeps (set (live m')) m' m'' \<and>
    (rc = D4NP_OK \<and> \<not> read_failed d \<and>
       (if sz = 0 then out = Some (NULL, 0) \<and> set (live m'') = set (live m')
        else \<exists>p n. out = Some (p, sz) \<and> peek m'' p (unat sz) = peek m data (unat sz) \<and> unat sz \<le> n \<and>
          (p, n) \<notin> set (live m') \<and> set (live m'') = insert (p, n) (set (live m'))) \<or>
     (rc = D4NP_ERR_OUT_OF_MEMORY \<or> rc = D4NP_ERR_IO \<and> read_failed d) \<and> out = None \<and> set (live m'') = set (live m'))"
proof -
  let ?bs = "peek m data (unat sz)"
  let ?f = "case rd_fails_after d of None \<Rightarrow> \<lparr>st_data = ?bs, st_error = False\<rparr> | Some k \<Rightarrow> \<lparr>st_data = take k ?bs, st_error = True\<rparr>"
  have f: "fopen_rb d (last tr) m' path' = (if rd_refused d then None else Some ?f)"
    by (rule fopen_rb_ok [OF assms(10) written_contents [OF assms(1-6)]])
  show ?thesis
  proof (cases "rd_refused d")
    case True
    then show ?thesis using f assms(9,11,12) by (auto simp: d4np_file_read_all_def read_failed_def)
  next
    case False
    have l: "length ?bs = unat sz" "?bs = [] \<longleftrightarrow> sz = 0" by (simp_all add: peek_def unsigned_eq_0_iff)
    have u: "n = sz" if "unat n = unat sz" for n using that by (rule unsigned_word_eqI)
    have s: "st_error ?f \<longleftrightarrow> read_failed d" "\<not> read_failed d \<longrightarrow> st_data ?f = ?bs" using False by (auto simp: read_failed_def split: option.splits)
    have "fopen_rb d (last tr) m' path' = Some ?f" using f False by simp
    from read_all_cases [where fopen = "fopen_rb d (last tr) m'", OF assms(7,8,9,11,12) this] obtain rc out m'' where
      r: "d4np_file_read_all (fopen_rb d (last tr) m') path' (Some A) out_data out_size m' = Some (rc, out, 0, m'')" "keeps (set (live m')) m' m''"
      and c: "rc = D4NP_OK \<and> \<not> read_failed d \<and> ?bs = [] \<and> out = Some (NULL, 0) \<and> set (live m'') = set (live m') \<or>
        rc = D4NP_OK \<and> \<not> read_failed d \<and> ?bs \<noteq> [] \<and>
          (\<exists>p l n. out = Some (p, l) \<and> unat l = length ?bs \<and> peek m'' p (unat l) = ?bs \<and>
             unat l \<le> n \<and> (p, n) \<notin> set (live m') \<and> set (live m'') = insert (p, n) (set (live m'))) \<or>
        (rc = D4NP_ERR_OUT_OF_MEMORY \<or> rc = D4NP_ERR_IO \<and> read_failed d) \<and> out = None \<and> set (live m'') = set (live m')"
      using s by metis
    from c l u have "rc = D4NP_OK \<and> \<not> read_failed d \<and>
       (if sz = 0 then out = Some (NULL, 0) \<and> set (live m'') = set (live m')
        else \<exists>p n. out = Some (p, sz) \<and> peek m'' p (unat sz) = ?bs \<and> unat sz \<le> n \<and>
          (p, n) \<notin> set (live m') \<and> set (live m'') = insert (p, n) (set (live m'))) \<or>
     (rc = D4NP_ERR_OUT_OF_MEMORY \<or> rc = D4NP_ERR_IO \<and> read_failed d) \<and> out = None \<and> set (live m'') = set (live m')"
      by (elim disjE) (fastforce, fastforce, blast)
    with r show ?thesis by blast
  qed
qed

text \<open>Three bytes written over \<open>"a"\<close>: they come back, or reading leaves only the name in the reader's memory; on a disk that fails after
  two bytes it does.\<close>

definition reader_mem :: mem where
  "reader_mem = \<lparr>bytes = (\<lambda>p. if p = 64 then 97 else 0), live = [(64, 2)], place = (\<lambda>_. 4096), tick = 0\<rparr>"

theorem file_roundtrip_witness:
  "\<exists>tr rc out m'' rc' out' m3. d4np_file_write_all write_ex_os 100 200 3 write_ex_mem write_ex_fs = Some (D4NP_OK, tr) \<and>
     d4np_file_read_all (fopen_rb \<lparr>rd_refused = False, rd_fails_after = None\<rparr> (last tr) reader_mem) 64 (Some d4np_allocator_default) 128 136 reader_mem =
       Some (rc, out, 0, m'') \<and>
     (rc = D4NP_OK \<and> (\<exists>p. out = Some (p, 3) \<and> peek m'' p 3 = [5, 5, 5]) \<or> rc = D4NP_ERR_OUT_OF_MEMORY \<and> out = None \<and> set (live m'') = {(64, 2)}) \<and>
     d4np_file_read_all (fopen_rb \<lparr>rd_refused = False, rd_fails_after = Some 2\<rparr> (last tr) reader_mem) 64 (Some d4np_allocator_default) 128 136 reader_mem =
       Some (rc', out', 0, m3) \<and> rc' \<noteq> D4NP_OK \<and> out' = None \<and> set (live m3) = {(64, 2)}"
proof -
  have c: "cstr write_ex_mem 100 [97]" "valid write_ex_mem 200 (unat (3 :: size_t))" "peek write_ex_mem 200 (unat (3 :: size_t)) = [5, 5, 5]"
    by (simp_all add: cstr_def write_ex_mem_def valid_def peek_def upt_rec)
  have r: "wf_mem reader_mem" "cstr reader_mem 64 [97]"
    by (simp_all add: wf_mem_def reader_mem_def ADDR_LIMIT_def cstr_def valid_def peek_def upt_rec)
  have rest: "at_rest write_ex_fs (os_ino write_ex_os)" by (auto simp: at_rest_def write_ex_fs_def write_ex_os_def inj_on_def split: if_splits)
  obtain tr where w: "d4np_file_write_all write_ex_os 100 200 3 write_ex_mem write_ex_fs = Some (D4NP_OK, tr)"
    using write_all_reduces [OF _ c(1), of 3 200 write_ex_os write_ex_fs] c(2)
    by (simp add: write_temp_def fill_temp_def write_ex_os_def file_sync_def Let_def split: prod.splits)
  have lv: "set (live reader_mem) = {(64, 2)}" by (simp add: reader_mem_def)
  note rt = file_roundtrip [OF _ c(1) _ _ rest w default_frugal.frugal_allocator_axioms r(1) _ r(2), of 128 136, unfolded c(3) lv]
  have "\<exists>rc out m''. d4np_file_read_all (fopen_rb \<lparr>rd_refused = False, rd_fails_after = None\<rparr> (last tr) reader_mem) 64 (Some d4np_allocator_default) 128 136 reader_mem =
       Some (rc, out, 0, m'') \<and>
     (rc = D4NP_OK \<and> (\<exists>p. out = Some (p, 3) \<and> peek m'' p 3 = [5, 5, 5]) \<or> rc = D4NP_ERR_OUT_OF_MEMORY \<and> out = None \<and> set (live m'') = {(64, 2)})"
    using rt [of "\<lparr>rd_refused = False, rd_fails_after = None\<rparr>"] c(2) by (fastforce simp: read_failed_def)
  moreover have "\<exists>rc out m''. d4np_file_read_all (fopen_rb \<lparr>rd_refused = False, rd_fails_after = Some 2\<rparr> (last tr) reader_mem) 64 (Some d4np_allocator_default) 128 136 reader_mem =
       Some (rc, out, 0, m'') \<and> rc \<noteq> D4NP_OK \<and> out = None \<and> set (live m'') = {(64, 2)}"
    using rt [of "\<lparr>rd_refused = False, rd_fails_after = Some 2\<rparr>"] c(2) by (fastforce simp: read_failed_def)
  ultimately show ?thesis using w by blast
qed

end
