(* ===== verification/File_Write_Win32.thy ===== *)
theory File_Write_Win32
  imports File_Write
begin

text \<open>
  The Windows branch of \<open>d4np_file_write_all\<close> (\<open>io/file.c\<close>): the same function up to the replacement of the target,
  which is one call of \<open>MoveFileExA\<close>. That call is a parameter: it answers whether it succeeded and gives the states
  the file system goes through, and \<open>replaces\<close> states what is documented of it, which does not include
  that the replacement is atomic. The file is flushed by \<open>_commit\<close>, whose answer is \<open>os_sync_rc\<close>.
\<close>

section \<open>Definitions\<close>

type_synonym mover = "fname \<Rightarrow> fname \<Rightarrow> file_system \<Rightarrow> bool \<times> file_system list"

definition write_temp_win32 ::
  "mover \<Rightarrow> write_os \<Rightarrow> fname \<Rightarrow> fname \<Rightarrow> size_t \<Rightarrow> byte list \<Rightarrow> file_system \<Rightarrow> d4np_status \<times> file_system list" where
  "write_temp_win32 MoveFileExA os path tmp sz bs s0 =
     (let (filled, tr) = fill_temp os tmp sz bs s0
      in if \<not> filled then (D4NP_ERR_IO, tr)
         else let (moved, mid) = MoveFileExA tmp path (last tr)
           in if \<not> moved then (D4NP_ERR_IO, tr @ mid @ [drop_temp os tmp (last (tr @ mid))])
              else (D4NP_OK, tr @ mid))"

definition d4np_file_write_all_win32 ::
  "mover \<Rightarrow> write_os \<Rightarrow> ptr \<Rightarrow> ptr \<Rightarrow> size_t \<Rightarrow> mem \<Rightarrow> file_system \<Rightarrow> (d4np_status \<times> file_system list) option" where
  "d4np_file_write_all_win32 MoveFileExA os path data sz m fs =
     (if path = NULL \<or> 0 < sz \<and> data = NULL then Some (D4NP_ERR_INVALID_ARGUMENT, [fs])
      else do {
        plen \<leftarrow> strlen path m;
        if 4096 < plen + 5 then Some (D4NP_ERR_INVALID_ARGUMENT, [fs])
        else do {
          name \<leftarrow> mem_read m path plen;
          if \<not> os_open os then Some (D4NP_ERR_IO, [fs])
          else do {
            bs \<leftarrow> (if 0 < sz then mem_read m data (unat sz) else Some []);
            Some (write_temp_win32 MoveFileExA os name (name @ dot_tmp) sz bs fs) } } })"

section \<open>What is documented of the system\<close>

text \<open>Only the two names are affected, and on success the new one has the contents of the old one, which is gone.\<close>

locale replaces =
  fixes MoveFileExA :: mover
  assumes others: "MoveFileExA old new fs = (moved, mid) \<Longrightarrow> s \<in> set mid \<Longrightarrow> n \<noteq> old \<Longrightarrow> n \<noteq> new \<Longrightarrow> contents s n = contents fs n"
    and success: "MoveFileExA old new fs = (True, mid) \<Longrightarrow> old \<noteq> new \<Longrightarrow>
      mid \<noteq> [] \<and> contents (last mid) new = contents fs old \<and> contents (last mid) old = None"
begin

lemma write_temp_win32_ok:
  assumes "at_rest fs (os_ino os)" "write_temp_win32 MoveFileExA os name tmp sz bs fs = (rc, tr)" "name \<noteq> tmp"
  shows "tr \<noteq> [] \<and> rc \<in> {D4NP_OK, D4NP_ERR_IO} \<and> (\<forall>s \<in> set tr. \<forall>n. n \<noteq> name \<and> n \<noteq> tmp \<longrightarrow> contents s n = contents fs n) \<and>
    (rc = D4NP_OK \<longrightarrow> contents (last tr) name = Some bs \<and> contents (last tr) tmp = None) \<and>
    (\<not> fst (fill_temp os tmp sz bs fs) \<longrightarrow> (\<forall>s \<in> set tr. contents s name = contents fs name)) \<and>
    (rc \<noteq> D4NP_OK \<and> os_remove_rc os = 0 \<longrightarrow> contents (last tr) tmp = None)"
proof -
  have dd: "fs_disk_dirs fs = [fs_dir fs]" using assms(1) by (simp add: at_rest_def)
  obtain i s1 where o: "fopen_wb (os_ino os) tmp fs = (i, s1)" by fastforce
  obtain filled tr1 where f: "fill_temp os tmp sz bs fs = (filled, tr1)" by fastforce
  note ok = fill_temp_ok [OF assms(1) f o] and fresh = fopen_wb_ok(2) [OF assms(1) o]
  have tr1: "tr1 \<noteq> []" using ok by simp
  have "only_temp fs tmp i (last tr1)" using ok only_temp_ops(5) by (cases filled) auto
  with ok tr1 have all: "only_temp fs tmp i s" if "s \<in> set tr1" for s using that by (metis append_butlast_last_id rotate1.simps(2) set_ConsD set_rotate1)
  have same: "contents s n = contents fs n" if "s \<in> set tr1" "n \<noteq> tmp" for s n
    by (rule only_temp_view(1) [OF all [OF that(1)] that(2) fresh [OF that(2)] dd])
  have drop: "contents (drop_temp os tmp s) n = contents s n" if "n \<noteq> tmp" for s n
    using that by (simp add: drop_temp_def remove_file_def contents_def split: option.split)
  have gone: "contents (drop_temp os tmp s) tmp = None" if "os_remove_rc os = 0" for s
    using that by (simp add: drop_temp_def remove_file_def contents_def)
  obtain moved mid where m: "MoveFileExA tmp name (last tr1) = (moved, mid)" by fastforce
  have mid: "contents s n = contents fs n" if "s \<in> set mid" "n \<noteq> name" "n \<noteq> tmp" for s n
    using others [OF m that(1,3,2)] same [OF last_in_set [OF tr1] that(3)] by simp
  have lst: "contents (last (tr1 @ mid)) n = contents fs n" if "n \<noteq> name" "n \<noteq> tmp" for n
    using mid [OF last_in_set that] same [OF last_in_set [OF tr1] that(2)] by (cases "mid = []") simp_all
  show ?thesis
  proof (cases filled)
    case False
    then have "rc = D4NP_ERR_IO" "tr = tr1" using assms(2) f by (simp_all add: write_temp_win32_def)
    then show ?thesis using same tr1 ok gone assms(3) f False by auto
  next
    case True
    then have last: "contents (last tr1) tmp = Some bs" using ok by (simp add: contents_def)
    show ?thesis
    proof (cases moved)
      case moved: True
      then have e: "rc = D4NP_OK" "tr = tr1 @ mid" using assms(2) f m True by (simp_all add: write_temp_win32_def)
      have "mid \<noteq> [] \<and> contents (last mid) name = Some bs \<and> contents (last mid) tmp = None"
        using success [of tmp name "last tr1" mid] m moved last assms(3) by auto
      then show ?thesis using e same mid tr1 f True by auto
    next
      case False
      then have e: "rc = D4NP_ERR_IO" "tr = tr1 @ mid @ [drop_temp os tmp (last (tr1 @ mid))]"
        using assms(2) f m True by (simp_all add: write_temp_win32_def)
      then show ?thesis using same mid tr1 gone drop lst f True by auto
    qed
  qed
qed

end

text \<open>A system that renames in one step, and one that deletes the target first: both are covered.\<close>

definition move_at_once :: mover where
  "move_at_once old new fs = (True, [rename_file old new fs])"

definition move_in_steps :: mover where
  "move_in_steps old new fs = (fs_dir fs old \<noteq> None, remove_file new fs # (if fs_dir fs old = None then [] else [rename_file old new fs]))"

lemma rename_contents:
  "contents (rename_file old new fs) n = (if n = old then None else if n = new then contents fs old else contents fs n)"
  by (simp add: contents_def rename_file_def split: option.split)

lemma remove_contents: "contents (remove_file name fs) n = (if n = name then None else contents fs n)"
  by (simp add: contents_def remove_file_def split: option.split)

interpretation at_once: replaces move_at_once
  by unfold_locales (auto simp: move_at_once_def rename_contents)

interpretation in_steps: replaces move_in_steps
  by unfold_locales (auto simp: move_in_steps_def rename_contents remove_contents split: if_splits)

section \<open>Properties\<close>

text \<open>On Windows \<open>d4np_file_write_all\<close> replaces the file as far as the system does. Whatever the system answers, no file but the path and
  its temporary companion changes at any moment; on success the path holds the data and the temporary file is gone; when the
  temporary file could not be filled, flushed and closed the path has not changed at any moment; and after a failure
  the temporary file is removed.\<close>

theorem file_write_all_win32_replaces:
  assumes "replaces MoveFileExA" "path \<noteq> NULL" "cstr m path name" "length name + 5 \<le> 4096" "0 < sz \<Longrightarrow> data \<noteq> NULL \<and> valid m data (unat sz)"
    "at_rest fs (os_ino os)" "os_open os"
  defines "bs \<equiv> peek m data (unat sz)" and "tmp \<equiv> name @ dot_tmp"
  shows "\<exists>rc tr. d4np_file_write_all_win32 MoveFileExA os path data sz m fs = Some (rc, tr) \<and> tr \<noteq> [] \<and> rc \<in> {D4NP_OK, D4NP_ERR_IO} \<and>
    (\<forall>s \<in> set tr. \<forall>n. n \<noteq> name \<and> n \<noteq> tmp \<longrightarrow> contents s n = contents fs n) \<and>
    (rc = D4NP_OK \<longrightarrow> contents (last tr) name = Some bs \<and> contents (last tr) tmp = None) \<and>
    (\<not> fst (fill_temp os tmp sz bs fs) \<longrightarrow> (\<forall>s \<in> set tr. contents s name = contents fs name)) \<and>
    (rc \<noteq> D4NP_OK \<and> os_remove_rc os = 0 \<longrightarrow> contents (last tr) tmp = None)"
proof -
  have ne: "name \<noteq> tmp" by (simp add: tmp_def dot_tmp_def)
  have nm: "strlen path m = Some (length name)" "mem_read m path (length name) = Some name"
    using strlen_cstr [OF assms(3)] assms(3) cstr_peek [OF assms(3)] valid_sub [of m path "length name + 1" path "length name"]
    by (auto simp: cstr_def mem_read_Some)
  have d: "(if 0 < sz then mem_read m data (unat sz) else Some []) = Some bs"
    using assms(5) by (auto simp: bs_def mem_read_Some word_gt_0)
  have red: "d4np_file_write_all_win32 MoveFileExA os path data sz m fs = Some (write_temp_win32 MoveFileExA os name tmp sz bs fs)"
    using assms(2,4,5,7) nm d by (auto simp: d4np_file_write_all_win32_def tmp_def)
  obtain rc tr where w: "write_temp_win32 MoveFileExA os name tmp sz bs fs = (rc, tr)" by fastforce
  from replaces.write_temp_win32_ok [OF assms(1,6) w ne] show ?thesis unfolding red w by simp
qed

theorem file_write_all_win32_replaces_witness:
  "\<exists>rc tr. d4np_file_write_all_win32 move_in_steps write_ex_os 100 200 3 write_ex_mem write_ex_fs = Some (rc, tr) \<and>
     (rc = D4NP_OK \<and> contents (last tr) [97] = Some [5, 5, 5] \<or> rc = D4NP_ERR_IO)"
proof -
  have c: "cstr write_ex_mem 100 [97]" "valid write_ex_mem 200 (unat (3 :: size_t))" "peek write_ex_mem 200 (unat (3 :: size_t)) = [5, 5, 5]"
    by (simp_all add: cstr_def write_ex_mem_def valid_def peek_def upt_rec)
  have rest: "at_rest write_ex_fs (os_ino write_ex_os)" by (auto simp: at_rest_def write_ex_fs_def write_ex_os_def inj_on_def split: if_splits)
  have "os_open write_ex_os" by (simp add: write_ex_os_def)
  with file_write_all_win32_replaces [OF in_steps.replaces_axioms _ c(1) _ _ rest, of 3 200] c(2,3) show ?thesis by fastforce
qed

end
