(* ===== verification/Error_Context.thy ===== *)
theory Error_Context
  imports Status Memory
begin

text \<open>
  The thread-local error context (\<open>sys/error_context.h\<close>, \<open>sys/error_context.c\<close>). Each thread has its own
  array of 16 frames and its own depth; a frame's message is an array of 256 characters. A pointer
  to a frame's message is the index of the frame. The depth never exceeds 16, so it is a natural
  number here.
\<close>

section \<open>Definitions\<close>

definition D4NP_ERROR_MESSAGE_CAP :: nat where
  "D4NP_ERROR_MESSAGE_CAP = 256"

definition D4NP_ERROR_CONTEXT_MAX_DEPTH :: nat where
  "D4NP_ERROR_CONTEXT_MAX_DEPTH = 16"

record error_frame =
  ef_status :: d4np_status
  ef_message :: "byte list"

record error_context =
  g_stack :: "error_frame list"
  g_depth :: nat

text \<open>The copying loop: the index it ends at and the message array.\<close>

function copy_message :: "ptr \<Rightarrow> nat \<Rightarrow> byte list \<Rightarrow> mem \<Rightarrow> (nat \<times> byte list) option" where
  "copy_message message i dst m =
     (if i + 1 < D4NP_ERROR_MESSAGE_CAP
      then do {
        c \<leftarrow> read_byte m (message + i);
        if c \<noteq> 0 then copy_message message (Suc i) (dst[i := c]) m else Some (i, dst) }
      else Some (i, dst))"
  by pat_completeness auto
termination by (relation "measure (\<lambda>(_, i, _, _). D4NP_ERROR_MESSAGE_CAP - i)") auto

declare copy_message.simps [simp del]

definition d4np_error_context_push :: "d4np_status \<Rightarrow> ptr \<Rightarrow> mem \<Rightarrow> error_context \<Rightarrow> (d4np_status \<times> error_context) option" where
  "d4np_error_context_push status message m c =
     (if g_depth c < D4NP_ERROR_CONTEXT_MAX_DEPTH
      then do {
        let f = g_stack c ! g_depth c;
        (i, msg) \<leftarrow> (if message \<noteq> NULL then copy_message message 0 (ef_message f) m else Some (0, ef_message f));
        Some (status, c\<lparr>g_stack := (g_stack c)[g_depth c := \<lparr>ef_status = status, ef_message = msg[i := 0]\<rparr>], g_depth := g_depth c + 1\<rparr>) }
      else Some (status, c))"

text \<open>The variables the out parameters point to; \<open>None\<close> for a NULL pointer.\<close>

definition d4np_error_context_pop ::
  "d4np_status option \<Rightarrow> nat option \<Rightarrow> error_context \<Rightarrow> bool \<times> d4np_status option \<times> nat option \<times> error_context" where
  "d4np_error_context_pop out_status out_message c =
     (if g_depth c = 0 then (False, out_status, out_message, c)
      else let d = g_depth c - 1; f = g_stack c ! d
        in (True, map_option (\<lambda>_. ef_status f) out_status, map_option (\<lambda>_. d) out_message, c\<lparr>g_depth := d\<rparr>))"

definition d4np_error_context_clear :: "error_context \<Rightarrow> error_context" where
  "d4np_error_context_clear c = c\<lparr>g_depth := 0\<rparr>"

definition d4np_error_context_depth :: "error_context \<Rightarrow> nat" where
  "d4np_error_context_depth c = g_depth c"

text \<open>A zero-initialised context, as every thread starts with.\<close>

definition context_start :: error_context where
  "context_start = \<lparr>g_stack = replicate D4NP_ERROR_CONTEXT_MAX_DEPTH \<lparr>ef_status = D4NP_OK, ef_message = replicate D4NP_ERROR_MESSAGE_CAP 0\<rparr>, g_depth = 0\<rparr>"

text \<open>
  Several threads use their contexts, in any order. A step names the thread and the call; what the
  caller sees is the status of a push, the status and the text behind the pointer of a pop, the depth.
\<close>

datatype ec_call = Push_Frame d4np_status ptr | Pop_Frame | Clear_Frames | Get_Depth

datatype ec_seen = Pushed d4np_status | Popped d4np_status "byte list" | Nothing_Popped | Cleared | Depth nat

definition c_text :: "byte list \<Rightarrow> byte list" where
  "c_text msg = takeWhile (\<lambda>c. c \<noteq> 0) msg"

fun ec_do :: "ec_call \<Rightarrow> mem \<Rightarrow> error_context \<Rightarrow> (ec_seen \<times> error_context) option" where
  "ec_do (Push_Frame st message) m c = map_option (\<lambda>(st', c'). (Pushed st', c')) (d4np_error_context_push st message m c)"
| "ec_do Pop_Frame m c =
     (case d4np_error_context_pop (Some D4NP_OK) (Some 0) c of
        (True, Some st, Some k, c') \<Rightarrow> Some (Popped st (c_text (ef_message (g_stack c' ! k))), c')
      | (_, _, _, c') \<Rightarrow> Some (Nothing_Popped, c'))"
| "ec_do Clear_Frames m c = Some (Cleared, d4np_error_context_clear c)"
| "ec_do Get_Depth m c = Some (Depth (d4np_error_context_depth c), c)"

fun ec_run :: "(nat \<times> ec_call) list \<Rightarrow> mem \<Rightarrow> (nat \<Rightarrow> error_context) \<Rightarrow> (nat \<times> ec_seen) list option" where
  "ec_run [] m cs = Some []"
| "ec_run ((t, op) # ops) m cs =
     do { (r, c) \<leftarrow> ec_do op m (cs t); rs \<leftarrow> ec_run ops m (cs(t := c)); Some ((t, r) # rs) }"

section \<open>Specification\<close>

text \<open>A stack of at most 16 frames, the most recent first, with messages of at most 255 characters.\<close>

type_synonym trail = "(d4np_status \<times> byte list) list"

fun spec_do :: "(ptr \<Rightarrow> byte list) \<Rightarrow> ec_call \<Rightarrow> trail \<Rightarrow> ec_seen \<times> trail" where
  "spec_do msgs (Push_Frame st message) fs = (Pushed st, if length fs < 16 then (st, take 255 (msgs message)) # fs else fs)"
| "spec_do msgs Pop_Frame [] = (Nothing_Popped, [])"
| "spec_do msgs Pop_Frame ((st, msg) # fs) = (Popped st msg, fs)"
| "spec_do msgs Clear_Frames fs = (Cleared, [])"
| "spec_do msgs Get_Depth fs = (Depth (length fs), fs)"

fun spec_run :: "(ptr \<Rightarrow> byte list) \<Rightarrow> ec_call list \<Rightarrow> trail \<Rightarrow> ec_seen list" where
  "spec_run msgs [] fs = []"
| "spec_run msgs (op # ops) fs = (let (r, fs') = spec_do msgs op fs in r # spec_run msgs ops fs')"

section \<open>Refinement\<close>

definition frame_of :: "error_frame \<Rightarrow> d4np_status \<times> byte list" where
  "frame_of f = (ef_status f, c_text (ef_message f))"

definition trail_of :: "error_context \<Rightarrow> trail" where
  "trail_of c = rev (map frame_of (take (g_depth c) (g_stack c)))"

definition ec_inv :: "error_context \<Rightarrow> bool" where
  "ec_inv c \<longleftrightarrow> length (g_stack c) = 16 \<and> g_depth c \<le> 16 \<and>
     (\<forall>f \<in> set (g_stack c). length (ef_message f) = 256) \<and> (\<forall>f \<in> set (take (g_depth c) (g_stack c)). 0 \<in> set (ef_message f))"

text \<open>The caller's messages: NULL counts as empty.\<close>

definition message_at :: "mem \<Rightarrow> ptr \<Rightarrow> byte list \<Rightarrow> bool" where
  "message_at m p s \<longleftrightarrow> p = NULL \<and> s = [] \<or> p \<noteq> NULL \<and> cstr m p s"

lemmas ec_caps = D4NP_ERROR_MESSAGE_CAP_def D4NP_ERROR_CONTEXT_MAX_DEPTH_def

lemma cstr_byte: "cstr m p s \<Longrightarrow> i \<le> length s \<Longrightarrow> read_byte m (p + i) = Some ((s @ [0]) ! i)"
  by (auto simp: cstr_def read_byte_Some valid_sub dest: arg_cong [where f = "\<lambda>x. x ! i"])

lemma copy_message_ok:
  assumes "cstr m p s" "i \<le> length s" "i \<le> 255" "length dst = 256" "take i dst = take i s"
  shows "\<exists>dst'. copy_message p i dst m = Some (min (length s) 255, dst') \<and> length dst' = 256 \<and>
    take (min (length s) 255) dst' = take 255 s"
  using assms
proof (induction "255 - i" arbitrary: i dst)
  case 0
  then show ?case by (simp add: copy_message.simps ec_caps)
next
  case (Suc d)
  then have i: "i < 255" by simp
  show ?case
  proof (cases "i = length s")
    case True
    then show ?thesis using i Suc.prems cstr_byte [OF Suc.prems(1), of i] by (subst copy_message.simps) (simp add: ec_caps)
  next
    case False
    then have il: "i < length s" using Suc.prems by simp
    have "0 \<notin> set s" using Suc.prems(1) by (simp add: cstr_def)
    then have c: "read_byte m (p + i) = Some (s ! i)" "s ! i \<noteq> 0"
      using cstr_byte [OF Suc.prems(1), of i] il nth_mem [OF il] by (simp add: nth_append, metis)
    have "take (Suc i) (dst[i := s ! i]) = take (Suc i) s" using Suc.prems il i by (simp add: take_Suc_conv_app_nth)
    with Suc.hyps(1) [of "Suc i" "dst[i := s ! i]"] diff_Suc [of 255 i] Suc.hyps(2) Suc.prems il i obtain dst' where
      "copy_message p (Suc i) (dst[i := s ! i]) m = Some (min (length s) 255, dst')" "length dst' = 256"
      "take (min (length s) 255) dst' = take 255 s" by (auto split: nat.splits)
    then show ?thesis using c i by (subst copy_message.simps) (simp add: ec_caps)
  qed
qed

lemma c_text_cut: "k < length d \<Longrightarrow> 0 \<notin> set (take k d) \<Longrightarrow> c_text (d[k := 0]) = take k d"
proof -
  assume "k < length d" "0 \<notin> set (take k d)"
  then have "d[k := 0] = take k d @ 0 # drop (Suc k) d" "\<And>x. x \<in> set (take k d) \<Longrightarrow> x \<noteq> 0"
    by (auto simp: upd_conv_take_nth_drop)
  then show ?thesis using takeWhile_append2 [of "take k d" "\<lambda>c. c \<noteq> 0" "0 # drop (Suc k) d"] by (simp add: c_text_def)
qed

lemma push_ok:
  assumes "ec_inv c" "message_at m p s"
  shows "\<exists>c'. d4np_error_context_push st p m c = Some (st, c') \<and> ec_inv c' \<and>
    trail_of c' = (if length (trail_of c) < 16 then (st, take 255 s) # trail_of c else trail_of c)"
proof -
  let ?d = "g_depth c" and ?f = "g_stack c ! g_depth c"
  have l: "length (trail_of c) = ?d" using assms(1) by (simp add: trail_of_def ec_inv_def)
  show ?thesis
  proof (cases "?d < 16")
    case False
    then show ?thesis using assms(1) l by (simp add: d4np_error_context_push_def ec_caps)
  next
    case True
    then have len: "length (ef_message ?f) = 256" using assms(1) nth_mem by (auto simp: ec_inv_def)
    obtain k msg where
      k: "(if p \<noteq> NULL then copy_message p 0 (ef_message ?f) m else Some (0, ef_message ?f)) = Some (k, msg)"
        "k \<le> 255" "length msg = 256" "take k msg = take 255 s"
    proof (cases "p = NULL")
      case True
      then show ?thesis using that [of 0 "ef_message ?f"] len assms(2) by (auto simp: message_at_def cstr_def)
    next
      case False
      with assms(2) have s: "cstr m p s" by (simp add: message_at_def)
      from copy_message_ok [OF s, of 0 "ef_message ?f"] len show ?thesis using that False by auto
    qed
    let ?c = "c\<lparr>g_stack := (g_stack c)[?d := \<lparr>ef_status = st, ef_message = msg[k := 0]\<rparr>], g_depth := ?d + 1\<rparr>"
    have r: "d4np_error_context_push st p m c = Some (st, ?c)"
      using True k(1) by (simp add: d4np_error_context_push_def ec_caps Let_def)
    have dl: "?d < length (g_stack c)" using True assms(1) by (simp add: ec_inv_def)
    have "0 \<notin> set s" using assms(2) by (auto simp: message_at_def cstr_def)
    then have "0 \<notin> set (take k msg)" unfolding k(4) by (meson in_set_takeD)
    then have "c_text (msg[k := 0]) = take 255 s" using k by (simp add: c_text_cut)
    moreover have tk: "take (Suc ?d) ((g_stack c)[?d := x]) = take ?d (g_stack c) @ [x]" for x
      using dl by (simp add: take_Suc_conv_app_nth)
    ultimately have t: "trail_of ?c = (st, take 255 s) # trail_of c" by (simp add: trail_of_def frame_of_def)
    have "ec_inv ?c"
      using assms(1) True k(2,3) tk set_update_subset_insert [of "g_stack c" ?d "\<lparr>ef_status = st, ef_message = msg[k := 0]\<rparr>"]
        set_update_memI [of k msg 0] by (auto simp: ec_inv_def)
    with r t True l show ?thesis by simp
  qed
qed

lemma pop_ok:
  assumes "ec_inv c"
  shows "\<exists>r c'. ec_do Pop_Frame m c = Some (r, c') \<and> ec_inv c' \<and> spec_do msgs Pop_Frame (trail_of c) = (r, trail_of c')"
proof (cases "g_depth c")
  case 0
  then show ?thesis using assms by (simp add: d4np_error_context_pop_def trail_of_def)
next
  case (Suc d)
  then have "take (Suc d) (g_stack c) = take d (g_stack c) @ [g_stack c ! d]" using assms by (simp add: ec_inv_def take_Suc_conv_app_nth)
  then have "trail_of c = frame_of (g_stack c ! d) # trail_of (c\<lparr>g_depth := d\<rparr>)" by (simp add: trail_of_def Suc)
  moreover have "ec_inv (c\<lparr>g_depth := d\<rparr>)" using assms Suc set_take_subset_set_take [of d "Suc d" "g_stack c"] by (auto simp: ec_inv_def)
  ultimately show ?thesis using Suc by (simp add: d4np_error_context_pop_def frame_of_def)
qed

text \<open>Every call does what the specification says, on the thread's own trail.\<close>

lemma ec_do_ok:
  assumes "ec_inv c" "\<And>st p. op = Push_Frame st p \<Longrightarrow> message_at m p (msgs p)"
  shows "\<exists>r c'. ec_do op m c = Some (r, c') \<and> ec_inv c' \<and> spec_do msgs op (trail_of c) = (r, trail_of c')"
proof (cases op)
  case (Push_Frame st p)
  from push_ok [OF assms(1), of m p "msgs p" st] assms(2) Push_Frame show ?thesis by auto
next
  case Pop_Frame
  then show ?thesis using pop_ok [OF assms(1)] by simp
next
  case Clear_Frames
  then show ?thesis using assms(1) by (simp add: d4np_error_context_clear_def ec_inv_def trail_of_def)
next
  case Get_Depth
  then show ?thesis using assms(1) by (simp add: d4np_error_context_depth_def ec_inv_def trail_of_def)
qed

text \<open>What one thread sees of a run of all threads.\<close>

definition seen_by :: "nat \<Rightarrow> (nat \<times> 'a) list \<Rightarrow> 'a list" where
  "seen_by t rs = map snd (filter (\<lambda>(u, _). u = t) rs)"

lemma ec_run_ok:
  assumes "\<And>t. ec_inv (cs t)" "\<And>t st p. (t, Push_Frame st p) \<in> set ops \<Longrightarrow> message_at m p (msgs p)"
  shows "\<exists>rs. ec_run ops m cs = Some rs \<and> (\<forall>t. seen_by t rs = spec_run msgs (seen_by t ops) (trail_of (cs t)))"
  using assms
proof (induction ops arbitrary: cs)
  case Nil
  then show ?case by (simp add: seen_by_def)
next
  case (Cons top ops)
  obtain t op where top: "top = (t, op)" by (cases top)
  have msg: "message_at m p (msgs p)" if "op = Push_Frame st p" for st p using Cons.prems(2) [of t st p] that top by simp
  from ec_do_ok [of "cs t" op m msgs] Cons.prems(1) msg obtain r c where
    r: "ec_do op m (cs t) = Some (r, c)" "ec_inv c" "spec_do msgs op (trail_of (cs t)) = (r, trail_of c)" by auto
  have "ec_inv ((cs(t := c)) u)" for u using r(2) Cons.prems(1) by simp
  moreover have "message_at m p (msgs p)" if "(u, Push_Frame st p) \<in> set ops" for u st p
    using Cons.prems(2) [of u st p] that by simp
  ultimately obtain rs where
    rs: "ec_run ops m (cs(t := c)) = Some rs" "\<forall>u. seen_by u rs = spec_run msgs (seen_by u ops) (trail_of ((cs(t := c)) u))"
    using Cons.IH [of "cs(t := c)"] by blast
  then show ?case using r by (auto simp: top seen_by_def)
qed

lemma context_start_ok: "ec_inv context_start" "trail_of context_start = []"
  by (auto simp: context_start_def ec_inv_def trail_of_def ec_caps)

section \<open>Properties\<close>

text \<open>C31: whatever calls the threads of a program make, in any order, each thread sees exactly a stack of its
  own: its last 16-bounded trail of frames, newest first, deeper pushes dropped, each message cut to
  255 characters, untouched by every other thread; a push returns its status, and no call reads or
  writes outside the frames.\<close>

theorem error_context_is_a_thread_local_stack:
  assumes "\<forall>(t, op) \<in> set ops. \<forall>st p. op = Push_Frame st p \<longrightarrow> message_at m p (msgs p)"
  shows "\<exists>rs. ec_run ops m (\<lambda>_. context_start) = Some rs \<and> (\<forall>t. seen_by t rs = spec_run msgs (seen_by t ops) [])"
proof -
  have "message_at m p (msgs p)" if "(t, Push_Frame st p) \<in> set ops" for t st p using bspec [OF assms that] by simp
  from ec_run_ok [of "\<lambda>_. context_start", OF context_start_ok(1) this] show ?thesis by (simp add: context_start_ok)
qed

theorem error_context_is_a_thread_local_stack_witness:
  "\<exists>rs. ec_run [(1, Push_Frame D4NP_ERR_IO 0), (2, Pop_Frame), (1, Get_Depth), (1, Pop_Frame)] \<lparr>bytes = (\<lambda>_. 0), live = [], place = (\<lambda>_. 0), tick = 0\<rparr> (\<lambda>_. context_start) = Some rs \<and>
     seen_by 1 rs = [Pushed D4NP_ERR_IO, Depth 1, Popped D4NP_ERR_IO []] \<and> seen_by 2 rs = [Nothing_Popped]"
  using error_context_is_a_thread_local_stack
    [of "[(1, Push_Frame D4NP_ERR_IO 0), (2, Pop_Frame), (1, Get_Depth), (1, Pop_Frame)]"
      "\<lparr>bytes = (\<lambda>_. 0), live = [], place = (\<lambda>_. 0), tick = 0\<rparr>" "\<lambda>_. []"]
  by (auto simp: message_at_def seen_by_def)

end
