(* ===== verification/Clock.thy ===== *)
theory Clock
  imports Prelude
begin

text \<open>
  The monotonic clock (\<open>sys/clock.h\<close>, \<open>sys/clock.c\<close>), both branches. What the operating system returns
  is an argument: the seconds and nanoseconds of \<open>clock_gettime\<close>, or the counter and frequency of the
  Windows performance counter. All arithmetic is on 64-bit words.
\<close>

section \<open>Definitions\<close>

definition d4np_timestamp_ns :: "uint64 \<Rightarrow> uint64 \<Rightarrow> uint64" where
  "d4np_timestamp_ns tv_sec tv_nsec = tv_sec * 1000000000 + tv_nsec"

definition d4np_timestamp_ns_win :: "uint64 \<Rightarrow> uint64 \<Rightarrow> uint64 option" where
  "d4np_timestamp_ns_win f t =
     (if f = 0 then None else Some ((t div f) * 1000000000 + ((t mod f) * 1000000000) div f))"

definition d4np_timestamp_ms :: "uint64 \<Rightarrow> uint64" where
  "d4np_timestamp_ms ns = ns div 1000000"

section \<open>Exactness\<close>

lemma split_exact_nat:
  assumes "0 < (f :: nat)"
  shows "(t div f) * c + ((t mod f) * c) div f = (t * c) div f"
proof -
  have "t * c = (t div f * f + t mod f) * c" by (simp only: div_mult_mod_eq)
  also have "\<dots> = (t div f * c) * f + t mod f * c" unfolding distrib_right by simp
  finally have "(t * c) div f = ((t div f * c) * f + t mod f * c) div f" by simp
  also have "\<dots> = t div f * c + (t mod f * c) div f" using assms by (simp add: div_mult_self3)
  finally show ?thesis by simp
qed

text \<open>The frequency is below 18 GHz, so the product of the remainder does not wrap; nor does the result, as
  long as the clock's own nanoseconds fit 64 bits.\<close>

lemma timestamp_win_exact:
  assumes "0 < unat f" "unat f \<le> 18 * 10 ^ 9" "unat t * 10 ^ 9 div unat f < 2 ^ 64"
  shows "\<exists>ns. d4np_timestamp_ns_win f t = Some ns \<and> unat ns = unat t * 10 ^ 9 div unat f"
proof -
  let ?q = "t div f" and ?r = "t mod f"
  have e: "unat ?q * 10 ^ 9 + unat ?r * 10 ^ 9 div unat f = unat t * 10 ^ 9 div unat f"
    using split_exact_nat [OF assms(1), of "unat t" "10 ^ 9"] by (simp add: unat_div_distrib unat_mod_distrib)
  have c: "unat (1000000000 :: uint64) = 10 ^ 9" by simp
  have "unat ?r < unat f" using assms(1) by (simp add: unat_mod_distrib)
  then have "unat ?r * 10 ^ 9 < 2 ^ 64" using assms(2) by simp
  then have r: "unat (?r * 1000000000) = unat ?r * 10 ^ 9" using unat_mult_exact [of ?r 1000000000] c by simp
  have "unat ?q * 10 ^ 9 < 2 ^ 64" using e assms(3) by linarith
  then have q: "unat (?q * 1000000000) = unat ?q * 10 ^ 9" using unat_mult_exact [of ?q 1000000000] c by simp
  have "unat (?q * 1000000000 + ?r * 1000000000 div f) = unat ?q * 10 ^ 9 + unat ?r * 10 ^ 9 div unat f"
    using e assms(3) q r by (subst unat_add_exact) (simp_all add: unat_div_distrib)
  then show ?thesis using assms(1) e by (auto simp: d4np_timestamp_ns_win_def)
qed

lemma timestamp_posix_exact:
  assumes "unat tv_sec * 10 ^ 9 + unat tv_nsec < 2 ^ 64"
  shows "unat (d4np_timestamp_ns tv_sec tv_nsec) = unat tv_sec * 10 ^ 9 + unat tv_nsec"
proof -
  have "unat (tv_sec * 1000000000) = unat tv_sec * 10 ^ 9" using unat_mult_exact [of tv_sec 1000000000] assms by simp
  then show ?thesis using assms unat_add_exact [of "tv_sec * 1000000000" tv_nsec] by (simp add: d4np_timestamp_ns_def)
qed

section \<open>Properties\<close>

text \<open>C34: both branches of the clock are exact for as long as the nanoseconds since boot fit 64 bits: the split
  formula of the Windows branch equals the undivided \<open>t * 10 ^ 9 div f\<close> without overflow, for every
  frequency up to 18 GHz, the POSIX branch is \<open>sec * 10 ^ 9 + nsec\<close>, milliseconds are nanoseconds divided by a
  million, and later readings of either counter never give an earlier time.\<close>

theorem clock_exact:
  assumes "0 < unat f" "unat f \<le> 18 * 10 ^ 9" "unat t' * 10 ^ 9 div unat f < 2 ^ 64" "t \<le> t'"
    "unat s' * 10 ^ 9 + unat n' < 2 ^ 64" "unat n < 10 ^ 9" "unat n' < 10 ^ 9" "s < s' \<or> s = s' \<and> n \<le> n'"
  shows "(\<exists>w w'. d4np_timestamp_ns_win f t = Some w \<and> d4np_timestamp_ns_win f t' = Some w' \<and>
      unat w = unat t * 10 ^ 9 div unat f \<and> w \<le> w' \<and> d4np_timestamp_ms w \<le> d4np_timestamp_ms w') \<and>
    unat (d4np_timestamp_ns s' n') = unat s' * 10 ^ 9 + unat n' \<and>
    unat (d4np_timestamp_ms (d4np_timestamp_ns s' n')) = (unat s' * 10 ^ 9 + unat n') div 10 ^ 6 \<and>
    d4np_timestamp_ns s n \<le> d4np_timestamp_ns s' n'"
proof -
  have ms: "unat (d4np_timestamp_ms w) = unat w div 10 ^ 6" for w by (simp add: d4np_timestamp_ms_def unat_div_distrib)
  have le: "unat t * 10 ^ 9 div unat f \<le> unat t' * 10 ^ 9 div unat f" using assms(4) by (simp add: div_le_mono word_le_nat_alt)
  obtain w w' where w: "d4np_timestamp_ns_win f t = Some w" "unat w = unat t * 10 ^ 9 div unat f"
      "d4np_timestamp_ns_win f t' = Some w'" "unat w' = unat t' * 10 ^ 9 div unat f"
    using timestamp_win_exact [OF assms(1,2,3)] timestamp_win_exact [OF assms(1,2), of t] le assms(3) by fastforce
  have "w \<le> w'" "d4np_timestamp_ms w \<le> d4np_timestamp_ms w'" using le w ms by (simp_all add: word_le_nat_alt div_le_mono)
  moreover have "unat s * 10 ^ 9 + unat n \<le> unat s' * 10 ^ 9 + unat n'"
    using assms(6-8) by (auto simp: word_less_nat_alt word_le_nat_alt)
  ultimately show ?thesis
    using w timestamp_posix_exact [OF assms(5)] timestamp_posix_exact [of s n] assms(5) ms by (auto simp: word_le_nat_alt)
qed

theorem clock_exact_witness:
  "(\<exists>w w'. d4np_timestamp_ns_win 10000000 25 = Some w \<and> d4np_timestamp_ns_win 10000000 36 = Some w' \<and> w \<le> w') \<and>
   d4np_timestamp_ns 1 999999999 \<le> d4np_timestamp_ns 2 3"
  using clock_exact [of 10000000 36 25 2 3 999999999 1] by auto

end
