(* ===== verification/Uuid.thy ===== *)
theory Uuid
  imports Clock Memory
begin

text \<open>
  Version-4 UUIDs (\<open>sys/uuid.h\<close>, \<open>sys/uuid.c\<close>): the splitmix64 generator with its per-thread seed, the
  sixteen bytes with their version and variant bits, and the canonical text. The clock reading and the
  addresses of the two thread-local variables, which enter the seed, are arguments.
\<close>

section \<open>Definitions\<close>

text \<open>\<open>splitmix64\<close> returns its result and the new state.\<close>

definition splitmix64 :: "uint64 \<Rightarrow> uint64 \<times> uint64" where
  "splitmix64 state =
     (let state1 = state + 0x9E3779B97F4A7C15;
          z = state1;
          z = (z XOR drop_bit 30 z) * 0xBF58476D1CE4E5B9;
          z = (z XOR drop_bit 27 z) * 0x94D049BB133111EB
      in (z XOR drop_bit 31 z, state1))"

record rng =
  g_rng_state :: uint64
  g_rng_seeded :: bool

record seed_source =
  src_timestamp :: uint64
  src_state_addr :: uint64
  src_seeded_addr :: uint64

definition next_random :: "seed_source \<Rightarrow> rng \<Rightarrow> uint64 \<times> rng" where
  "next_random src g =
     (let g1 = (if \<not> g_rng_seeded g
                then let seed = src_timestamp src;
                         seed = seed XOR src_state_addr src;
                         seed = seed XOR push_bit 17 (src_seeded_addr src);
                         seed = (if seed = 0 then 0x123456789ABCDEF0 else seed)
                     in \<lparr>g_rng_state = seed, g_rng_seeded = True\<rparr>
                else g);
          (r, st) = splitmix64 (g_rng_state g1)
      in (r, g1\<lparr>g_rng_state := st\<rparr>))"

type_synonym d4np_uuid = "byte list"

definition d4np_uuid_generate :: "seed_source \<Rightarrow> d4np_uuid option \<Rightarrow> rng \<Rightarrow> d4np_uuid option \<times> rng" where
  "d4np_uuid_generate src out g =
     (case out of
        None \<Rightarrow> (None, g)
      | Some _ \<Rightarrow>
          let (a, g1) = next_random src g;
              (b, g2) = next_random src g1;
              u = le_bytes a @ le_bytes b;
              u = u[6 := (u ! 6 AND 0x0F) OR 0x40];
              u = u[8 := (u ! 8 AND 0x3F) OR 0x80]
          in (Some u, g2))"

text \<open>The characters of \<open>"0123456789abcdef"\<close>.\<close>

definition hex :: "byte list" where
  "hex = [48, 49, 50, 51, 52, 53, 54, 55, 56, 57, 97, 98, 99, 100, 101, 102]"

definition put_char :: "ptr \<Rightarrow> nat \<Rightarrow> byte \<Rightarrow> mem \<Rightarrow> (nat \<times> mem) option" where
  "put_char out pos c m = do { m1 \<leftarrow> mem_write m (out + pos) [c]; Some (pos + 1, m1) }"

function format_loop :: "d4np_uuid \<Rightarrow> ptr \<Rightarrow> nat \<Rightarrow> nat \<Rightarrow> mem \<Rightarrow> (nat \<times> mem) option" where
  "format_loop u out i pos m =
     (if i < 16
      then do {
        (pos, m) \<leftarrow> (if i = 4 \<or> i = 6 \<or> i = 8 \<or> i = 10 then put_char out pos 45 m else Some (pos, m));
        (pos, m) \<leftarrow> put_char out pos (hex ! unat (drop_bit 4 (u ! i) AND 0x0F)) m;
        (pos, m) \<leftarrow> put_char out pos (hex ! unat ((u ! i) AND 0x0F)) m;
        format_loop u out (Suc i) pos m }
      else Some (pos, m))"
  by pat_completeness auto
termination by (relation "measure (\<lambda>(_, _, i, _, _). 16 - i)") auto

declare format_loop.simps [simp del]

definition d4np_uuid_format :: "d4np_uuid option \<Rightarrow> ptr \<Rightarrow> mem \<Rightarrow> mem option" where
  "d4np_uuid_format u out m =
     (case u of
        None \<Rightarrow> Some m
      | Some bs \<Rightarrow>
          if out = NULL then Some m
          else do {
            (pos, m1) \<leftarrow> format_loop bs out 0 0 m;
            mem_write m1 (out + pos) [0] })"

section \<open>The generator\<close>

text \<open>Each step of the mixing is injective: \<open>z\<close> can be read off from the top bit downwards.\<close>

lemma xorshift_inj:
  fixes x y :: uint64
  assumes "x XOR drop_bit k x = y XOR drop_bit k y" "0 < k"
  shows "x = y"
proof -
  have "bit x n = bit y n" for n
  proof (induction "64 - n" arbitrary: n rule: less_induct)
    case less
    show ?case
    proof (cases "n < 64")
      case True
      then have "bit x (k + n) = bit y (k + n)" using less.hyps [of "k + n"] assms(2) by simp
      moreover have "bit (x XOR drop_bit k x) n = bit (y XOR drop_bit k y) n" using assms(1) by simp
      ultimately show ?thesis by (auto simp: bit_xor_iff bit_drop_bit_eq)
    next
      case False
      then show ?thesis by (simp add: bit_word_iff_drop_bit_and impossible_bit)
    qed
  qed
  then show ?thesis by (simp add: bit_eq_iff)
qed

lemma mult_inj:
  fixes c d x y :: uint64
  assumes "c * d = 1" "x * c = y * c"
  shows "x = y"
proof -
  have "x * (c * d) = y * (c * d)" using arg_cong [OF assms(2), of "\<lambda>z. z * d"] by (simp only: mult.assoc)
  then show ?thesis using assms(1) by simp
qed

lemma splitmix64_inj: "fst (splitmix64 x) = fst (splitmix64 y) \<Longrightarrow> x = y"
proof -
  assume e: "fst (splitmix64 x) = fst (splitmix64 y)"
  let ?f = "\<lambda>s :: uint64. s + 0x9E3779B97F4A7C15"
  let ?g = "\<lambda>z :: uint64. (z XOR drop_bit 30 z) * 0xBF58476D1CE4E5B9"
  let ?h = "\<lambda>z :: uint64. (z XOR drop_bit 27 z) * 0x94D049BB133111EB"
  have "?h (?g (?f x)) = ?h (?g (?f y))"
    by (rule xorshift_inj [of _ 31]) (use e in \<open>simp_all add: splitmix64_def Let_def\<close>)
  then have "?g (?f x) XOR drop_bit 27 (?g (?f x)) = ?g (?f y) XOR drop_bit 27 (?g (?f y))"
    by (rule mult_inj [of "0x94D049BB133111EB" "0x319642B2D24D8EC3", rotated]) simp
  then have "?g (?f x) = ?g (?f y)" by (rule xorshift_inj) simp
  then have "?f x XOR drop_bit 30 (?f x) = ?f y XOR drop_bit 30 (?f y)"
    by (rule mult_inj [of "0xBF58476D1CE4E5B9" "0x96DE1B173F119089", rotated]) simp
  then have "?f x = ?f y" by (rule xorshift_inj) simp
  then show ?thesis by simp
qed

text \<open>The generator after it has been seeded, and its successive results.\<close>

definition seeded :: "seed_source \<Rightarrow> rng \<Rightarrow> uint64" where
  "seeded src g = (if g_rng_seeded g then g_rng_state g
     else let s = (src_timestamp src XOR src_state_addr src) XOR push_bit 17 (src_seeded_addr src)
       in if s = 0 then 0x123456789ABCDEF0 else s)"

lemma splitmix64_state: "snd (splitmix64 s) = s + 0x9E3779B97F4A7C15"
  unfolding splitmix64_def Let_def by simp

lemma next_random_eq:
  "next_random src g = (fst (splitmix64 (seeded src g)), \<lparr>g_rng_state = seeded src g + 0x9E3779B97F4A7C15, g_rng_seeded = True\<rparr>)"
proof -
  have "next_random src g =
      (let (r, st) = splitmix64 (seeded src g) in (r, \<lparr>g_rng_state = st, g_rng_seeded = True\<rparr>))"
    by (cases "g_rng_seeded g") (simp_all add: next_random_def seeded_def Let_def case_prod_unfold)
  then show ?thesis using splitmix64_state [of "seeded src g"] by (simp add: case_prod_unfold)
qed

primrec draws :: "seed_source \<Rightarrow> nat \<Rightarrow> rng \<Rightarrow> uint64 list" where
  "draws src 0 g = []"
| "draws src (Suc n) g = (let (r, g1) = next_random src g in r # draws src n g1)"

lemma draws_eq: "draws src n g = map (\<lambda>k. fst (splitmix64 (seeded src g + of_nat k * 0x9E3779B97F4A7C15))) [0..<n]"
proof (induction n arbitrary: g)
  case (Suc n)
  let ?g = "\<lparr>g_rng_state = seeded src g + 0x9E3779B97F4A7C15, g_rng_seeded = True\<rparr>"
  have s: "seeded src ?g = seeded src g + 0x9E3779B97F4A7C15" by (simp add: seeded_def)
  have "draws src (Suc n) g = fst (splitmix64 (seeded src g)) # draws src n ?g" by (simp add: next_random_eq)
  also have "draws src n ?g = map (\<lambda>k. fst (splitmix64 (seeded src g + of_nat (Suc k) * 0x9E3779B97F4A7C15))) [0..<n]"
    unfolding Suc.IH s by (simp add: algebra_simps)
  also have "fst (splitmix64 (seeded src g)) # \<dots> =
      map (\<lambda>k. fst (splitmix64 (seeded src g + of_nat k * 0x9E3779B97F4A7C15))) [0..<Suc n]"
    unfolding upt_conv_Cons [OF zero_less_Suc] by (simp add: map_Suc_upt [symmetric] del: upt_Suc)
  finally show ?case .
qed simp

lemma gamma_inj:
  assumes "of_nat i * (0x9E3779B97F4A7C15 :: uint64) = of_nat j * 0x9E3779B97F4A7C15" "i < 2 ^ 64" "j < 2 ^ 64"
  shows "i = j"
proof -
  have "(of_nat i :: uint64) = of_nat j"
    by (rule mult_inj [of "0x9E3779B97F4A7C15" "0xF1DE83E19937733D", OF _ assms(1)]) simp
  then show ?thesis using unat_of_nat_small assms(2,3) by metis
qed

section \<open>The text\<close>

definition hex_pair :: "byte \<Rightarrow> byte list" where
  "hex_pair b = [hex ! unat (drop_bit 4 b AND 0x0F), hex ! unat (b AND 0x0F)]"

definition piece :: "d4np_uuid \<Rightarrow> nat \<Rightarrow> byte list" where
  "piece u i = (if i \<in> {4, 6, 8, 10} then [45] else []) @ hex_pair (u ! i)"

definition text_upto :: "d4np_uuid \<Rightarrow> nat \<Rightarrow> byte list" where
  "text_upto u i = concat (map (piece u) [0..<i])"

lemma text_upto_Suc: "text_upto u (Suc i) = text_upto u i @ piece u i"
  by (simp add: text_upto_def)

lemma text_length: "length (text_upto u 16) = 36"
  by (simp add: text_upto_def piece_def hex_pair_def upt_rec)

lemma text_mono: "i \<le> j \<Longrightarrow> length (text_upto u i) \<le> length (text_upto u j)"
  by (induction j rule: dec_induct) (simp_all add: text_upto_Suc)

lemma put_char_ok:
  assumes "valid m out n" "length xs < n"
  shows "put_char out (length xs) c (poke m out xs) = Some (length (xs @ [c]), poke m out (xs @ [c]))"
proof -
  have "valid m (out + length xs) 1" using assms by (auto intro: valid_sub)
  then show ?thesis by (simp add: put_char_def mem_write_Some poke_snoc)
qed

lemma format_loop_ok:
  assumes "valid m out 37" "i \<le> 16"
  shows "format_loop u out i (length (text_upto u i)) (poke m out (text_upto u i)) = Some (36, poke m out (text_upto u 16))"
  using assms(2)
proof (induction "16 - i" arbitrary: i)
  case 0
  then show ?case by (simp add: format_loop.simps text_length)
next
  case (Suc d)
  then have i: "i < 16" by simp
  let ?t = "text_upto u i" and ?hi = "hex ! unat (drop_bit 4 (u ! i) AND 0x0F)" and ?lo = "hex ! unat ((u ! i) AND 0x0F)"
  let ?d = "if i = 4 \<or> i = 6 \<or> i = 8 \<or> i = 10 then [45] else [] :: byte list"
  have e: "text_upto u (Suc i) = ((?t @ ?d) @ [?hi]) @ [?lo]" by (simp add: text_upto_Suc piece_def hex_pair_def)
  have n: "length (text_upto u (Suc i)) < 37" using text_mono [of "Suc i" 16 u] i text_length [of u] by simp
  have 1: "(if i = 4 \<or> i = 6 \<or> i = 8 \<or> i = 10 then put_char out (length ?t) 45 (poke m out ?t) else Some (length ?t, poke m out ?t)) =
      Some (length (?t @ ?d), poke m out (?t @ ?d))"
    using put_char_ok [OF assms(1), of ?t 45] n e by simp
  have 2: "put_char out (length (?t @ ?d)) ?hi (poke m out (?t @ ?d)) = Some (length ((?t @ ?d) @ [?hi]), poke m out ((?t @ ?d) @ [?hi]))"
    by (rule put_char_ok [OF assms(1)]) (use n e in simp)
  have 3: "put_char out (length ((?t @ ?d) @ [?hi])) ?lo (poke m out ((?t @ ?d) @ [?hi])) =
      Some (length (text_upto u (Suc i)), poke m out (text_upto u (Suc i)))"
    unfolding e by (rule put_char_ok [OF assms(1)]) (use n e in simp)
  have "format_loop u out (Suc i) (length (text_upto u (Suc i))) (poke m out (text_upto u (Suc i))) = Some (36, poke m out (text_upto u 16))"
    by (rule Suc.hyps(1)) (use Suc.hyps(2) i in auto)
  then show ?case using i 1 2 3 by (subst format_loop.simps) (simp only: if_True bind.simps prod.case)
qed

text \<open>Reading the text back.\<close>

definition hex_val :: "byte \<Rightarrow> byte" where
  "hex_val c = (if c < 58 then c - 48 else c - 87)"

fun unhex :: "byte list \<Rightarrow> d4np_uuid" where
  "unhex (h # l # cs) = (push_bit 4 (hex_val h) OR hex_val l) # unhex cs"
| "unhex _ = []"

definition uuid_parse :: "byte list \<Rightarrow> d4np_uuid" where
  "uuid_parse s = unhex (filter (\<lambda>c. c \<noteq> 45) s)"

lemma upt_16: "[0..<16] = [0, 1, 2, 3, 4, 5, 6, 7, 8, 9, 10, 11, 12, 13, 14, 15 :: nat]"
  by (simp add: upt_rec)

lemma nibble_cases: "(b :: byte) AND 0x0F \<in> {0, 1, 2, 3, 4, 5, 6, 7, 8, 9, 10, 11, 12, 13, 14, 15}"
proof -
  have "b AND 0x0F = take_bit 4 b" by (simp add: take_bit_eq_mask mask_numeral)
  then have "unat (b AND 0x0F) < 16" using take_bit_nat_less_exp [of 4 "unat b"] by (simp add: unsigned_take_bit_eq)
  then have "unat (b AND 0x0F) \<in> set [0..<16]" by simp
  then have "unat (b AND 0x0F) \<in> {0, 1, 2, 3, 4, 5, 6, 7, 8, 9, 10, 11, 12, 13, 14, 15}" unfolding upt_16 by simp
  then show ?thesis unfolding insert_iff empty_iff by (elim disjE FalseE) (drule of_nat_unat_eq, simp)+
qed

lemma hex_nibble: "hex_val (hex ! unat (b AND 0x0F)) = b AND 0x0F" "hex ! unat (b AND 0x0F) \<noteq> 45"
  using nibble_cases [of b] by (auto simp: hex_def hex_val_def)

lemma nibbles: "push_bit 4 (drop_bit 4 b AND 0x0F) OR (b AND 0x0F) = (b :: byte)"
proof -
  have "drop_bit 4 b AND 0x0F = take_bit 4 (drop_bit 4 b)" "b AND 0x0F = take_bit 4 b" by (simp_all add: take_bit_eq_mask mask_numeral)
  moreover have "bit (push_bit 4 (take_bit 4 (drop_bit 4 b)) OR take_bit 4 b) n = bit b n" if "n < 8" for n
    by (cases "n < 4") (use that in \<open>auto simp: bit_or_iff bit_push_bit_iff bit_take_bit_iff bit_drop_bit_eq\<close>)
  ultimately show ?thesis by (intro bit_word_eqI) simp
qed

lemma filter_piece: "filter (\<lambda>c. c \<noteq> 45) (piece u i) = hex_pair (u ! i)"
  using hex_nibble(2) by (auto simp: piece_def hex_pair_def)

lemma unhex_pair: "unhex (hex_pair b @ cs) = b # unhex cs"
  unfolding hex_pair_def append_Cons append_Nil unhex.simps hex_nibble nibbles ..

lemma unhex_pairs: "unhex (concat (map (\<lambda>i. hex_pair (u ! i)) is)) = map ((!) u) is"
  by (induction "is") (simp_all add: unhex_pair)

lemma parse_text: "length u = 16 \<Longrightarrow> uuid_parse (text_upto u 16) = u"
  using map_nth [of u] by (simp add: uuid_parse_def text_upto_def filter_concat filter_piece unhex_pairs comp_def)

lemma mask_bits:
  fixes x :: byte
  shows "((x AND 0x0F) OR 0x40) AND 0xF0 = 0x40" "((x AND 0x0F) OR 0x40) AND 0x0F = x AND 0x0F"
    "((x AND 0x3F) OR 0x80) AND 0xC0 = 0x80" "((x AND 0x3F) OR 0x80) AND 0x3F = x AND 0x3F"
  by (simp_all add: bit.conj_disj_distrib2 and.assoc)

section \<open>Properties\<close>

text \<open>C40: a generated UUID always has the version and variant of RFC 4122, version 4: the high half of byte 6 is 4,
  the two top bits of byte 8 are 10; the other 122 bits are those of two successive results of the
  generator.\<close>

theorem uuid_version_4:
  "\<exists>a b u g'. d4np_uuid_generate src (Some u0) g = (Some u, g') \<and> draws src 2 g = [a, b] \<and> length u = 16 \<and>
    u ! 6 AND 0xF0 = 0x40 \<and> u ! 8 AND 0xC0 = 0x80 \<and>
    u ! 6 AND 0x0F = (le_bytes a @ le_bytes b) ! 6 AND 0x0F \<and> u ! 8 AND 0x3F = (le_bytes a @ le_bytes b) ! 8 AND 0x3F \<and>
    (\<forall>i < 16. i \<noteq> 6 \<and> i \<noteq> 8 \<longrightarrow> u ! i = (le_bytes a @ le_bytes b) ! i)"
proof -
  obtain a g1 where a: "next_random src g = (a, g1)" by fastforce
  obtain b g2 where b: "next_random src g1 = (b, g2)" by fastforce
  let ?r = "le_bytes a @ le_bytes b"
  let ?u = "?r[6 := (?r ! 6 AND 0x0F) OR 0x40, 8 := (?r ! 8 AND 0x3F) OR 0x80]"
  have "d4np_uuid_generate src (Some u0) g = (Some ?u, g2)" using a b by (simp add: d4np_uuid_generate_def Let_def)
  moreover have "draws src 2 g = [a, b]" using a b by (simp add: numeral_2_eq_2)
  moreover have "?u ! 6 = (?r ! 6 AND 0x0F) OR 0x40" "?u ! 8 = (?r ! 8 AND 0x3F) OR 0x80" "length ?u = 16" by simp_all
  moreover have "\<forall>i < 16. i \<noteq> 6 \<and> i \<noteq> 8 \<longrightarrow> ?u ! i = ?r ! i" by simp
  ultimately show ?thesis using mask_bits by metis
qed

text \<open>C36: the generator of a thread never repeats a result within \<open>2 ^ 64\<close> calls, whatever the seed: the state walks
  through all 64-bit words and the mixing function is injective.\<close>

theorem uuid_random_never_repeats:
  assumes "n \<le> 2 ^ 64"
  shows "length (draws src n g) = n \<and> distinct (draws src n g)"
proof -
  have "inj_on (\<lambda>k. fst (splitmix64 (seeded src g + of_nat k * 0x9E3779B97F4A7C15))) {0..<n}"
  proof (rule inj_onI)
    fix i j assume ij: "i \<in> {0..<n}" "j \<in> {0..<n}"
      "fst (splitmix64 (seeded src g + of_nat i * 0x9E3779B97F4A7C15)) = fst (splitmix64 (seeded src g + of_nat j * 0x9E3779B97F4A7C15))"
    from splitmix64_inj [OF ij(3)] have "(of_nat i :: uint64) * 0x9E3779B97F4A7C15 = of_nat j * 0x9E3779B97F4A7C15" by simp
    then show "i = j" by (rule gamma_inj) (use ij(1,2) assms in auto)
  qed
  then show ?thesis by (simp add: draws_eq distinct_map)
qed

theorem uuid_random_never_repeats_witness:
  "distinct (draws \<lparr>src_timestamp = 1, src_state_addr = 2, src_seeded_addr = 3\<rparr> 1000 \<lparr>g_rng_state = 0, g_rng_seeded = False\<rparr>)"
  using uuid_random_never_repeats [of 1000] by simp

text \<open>C32: the formatted UUID is a NUL-terminated string of exactly 36 characters written into the 37 bytes of the
  buffer and nowhere else, and reading it back gives the sixteen bytes.\<close>

theorem uuid_format_roundtrip:
  assumes "wf_mem m" "outside m B out 37" "B \<subseteq> set (live m)" "length u = 16"
  shows "\<exists>m' s. d4np_uuid_format (Some u) out m = Some m' \<and> wf_mem m' \<and> keeps B m m' \<and> live m' = live m \<and>
    length s = 36 \<and> peek m' out 37 = s @ [0] \<and> uuid_parse s = u"
proof -
  let ?s = "text_upto u 16"
  have v: "valid m out 37" using assms(2) by (rule outside_valid)
  then have v36: "valid m (out + 36) 1" by (rule valid_sub) simp_all
  have "out \<noteq> NULL" using valid_nonnull [OF assms(1) v] .
  moreover have "format_loop u out 0 0 m = Some (36, poke m out ?s)"
    using format_loop_ok [OF v, of 0 u] by (simp add: text_upto_def)
  moreover have "mem_write (poke m out ?s) (out + 36) [0] = Some (poke m out (?s @ [0]))"
    using v36 poke_snoc [of m out ?s 0] text_length [of u] by (simp add: mem_write_Some)
  ultimately have "d4np_uuid_format (Some u) out m = Some (poke m out (?s @ [0]))" by (simp add: d4np_uuid_format_def)
  moreover have "keeps B m (poke m out (?s @ [0]))"
    by (rule keeps_poke_out [OF assms(1) _ assms(3)]) (use assms(2) text_length [of u] in simp)
  moreover have "peek (poke m out (?s @ [0])) out 37 = ?s @ [0]" by (rule peek_poke_same) (simp add: text_length)
  ultimately show ?thesis using assms(1) text_length [of u] parse_text [OF assms(4)] by (intro exI conjI) simp_all
qed

definition uuid_ex_mem :: mem where
  "uuid_ex_mem = \<lparr>bytes = (\<lambda>_. 0), live = [(64, 40)], place = (\<lambda>_. 0), tick = 0\<rparr>"

theorem uuid_format_roundtrip_witness:
  "\<exists>m' s. d4np_uuid_format (Some (replicate 16 0xAB)) 64 uuid_ex_mem = Some m' \<and> peek m' 64 37 = s @ [0] \<and> uuid_parse s = replicate 16 0xAB"
proof -
  have "wf_mem uuid_ex_mem" "outside uuid_ex_mem {} 64 37" by (simp_all add: wf_mem_def uuid_ex_mem_def ADDR_LIMIT_def outside_def)
  with uuid_format_roundtrip [of uuid_ex_mem "{}" 64 "replicate 16 0xAB"] show ?thesis by auto
qed

theorem uuid_version_4_witness:
  "\<exists>u g'. d4np_uuid_generate \<lparr>src_timestamp = 1, src_state_addr = 2, src_seeded_addr = 3\<rparr> (Some []) \<lparr>g_rng_state = 0, g_rng_seeded = False\<rparr> =
     (Some u, g') \<and> u ! 6 AND 0xF0 = 0x40"
  using uuid_version_4 [of "\<lparr>src_timestamp = 1, src_state_addr = 2, src_seeded_addr = 3\<rparr>" "[]" "\<lparr>g_rng_state = 0, g_rng_seeded = False\<rparr>"] by blast

end
