(* ===== verification/Log.thy ===== *)
theory Log
  imports Threads Clock
begin

text \<open>
  The logger (\<open>sys/log.h\<close>, \<open>sys/log.c\<close>) used by any number of threads, interleaved at every access to
  shared state: the atomic one-time guard \<open>g_once\<close> with its spin loop, the atomic minimum level, the
  mutex, the stream and every single call that writes to it. The message that \<open>vfprintf\<close> produces from its
  format and arguments and the clock reading are chosen by the caller and the clock. A stream is a
  pointer; what has been written is the sequence of pieces with their streams. The owner of the mutex
  is a field here; \<open>Log_Lock\<close> runs the logger on the mutex itself, whose initialisation may fail.
\<close>

section \<open>Definitions\<close>

text \<open>C lets a variable of the enumeration hold a value that none of the enumerators names, here \<open>3 + n\<close>; \<open>level_name\<close> provides for it.\<close>

datatype d4np_log_level = D4NP_LOG_INFO | D4NP_LOG_WARN | D4NP_LOG_ERROR | D4NP_LOG_UNNAMED nat

fun level_code :: "d4np_log_level \<Rightarrow> int" where
  "level_code D4NP_LOG_INFO = 0"
| "level_code D4NP_LOG_WARN = 1"
| "level_code D4NP_LOG_ERROR = 2"
| "level_code (D4NP_LOG_UNNAMED n) = 3 + int n"

fun level_name :: "d4np_log_level \<Rightarrow> string" where
  "level_name D4NP_LOG_INFO = ''INFO''"
| "level_name D4NP_LOG_WARN = ''WARN''"
| "level_name D4NP_LOG_ERROR = ''ERROR''"
| "level_name (D4NP_LOG_UNNAMED n) = ''?''"

text \<open>The levels are ordered by severity.\<close>

instantiation d4np_log_level :: linorder
begin

definition less_eq_d4np_log_level :: "d4np_log_level \<Rightarrow> d4np_log_level \<Rightarrow> bool" where
  "less_eq_d4np_log_level a b \<longleftrightarrow> level_code a \<le> level_code b"

definition less_d4np_log_level :: "d4np_log_level \<Rightarrow> d4np_log_level \<Rightarrow> bool" where
  "less_d4np_log_level a b \<longleftrightarrow> level_code a < level_code b"

instance
proof
  fix a b :: d4np_log_level
  show "a = b" if "a \<le> b" "b \<le> a" using that by (cases a; cases b) (simp_all add: less_eq_d4np_log_level_def)
qed (auto simp: less_eq_d4np_log_level_def less_d4np_log_level_def)

end

text \<open>\<open>"[%llu] %-5s "\<close>: the decimal time stamp and the level, padded to five characters.\<close>

fun digits :: "nat \<Rightarrow> string" where
  "digits n = (if n < 10 then [char_of (48 + n)] else digits (n div 10) @ [char_of (48 + n mod 10)])"

definition log_prefix :: "uint64 \<Rightarrow> d4np_log_level \<Rightarrow> string" where
  "log_prefix ts level = ''['' @ digits (unat ts) @ ''] '' @ level_name level @ replicate (5 - length (level_name level)) CHR '' '' @ '' ''"

definition STDERR :: ptr where
  "STDERR = 2"

datatype log_call = Log_Write d4np_log_level string | Log_Set_Output ptr | Log_Set_Min_Level d4np_log_level

text \<open>Where a thread is: outside, in \<open>log_ensure_init\<close> (which it runs before its call), in the call.\<close>

datatype log_pc =
    Idle
  | Once_Load log_call | Once_Cas log_call | Once_Spin log_call
  | Init_Mutex log_call | Init_Stream log_call | Init_Level log_call | Init_Ready log_call
  | Body log_call
  | Write_Lock uint64 d4np_log_level string | Write_Prefix uint64 d4np_log_level string | Write_Message uint64 d4np_log_level string
  | Write_Newline uint64 d4np_log_level string | Write_Unlock uint64 d4np_log_level string
  | Output_Lock ptr | Output_Set ptr | Output_Unlock

record log_sys =
  g_once :: nat
  g_min_level :: int
  g_mutex_inits :: nat
  g_lock :: "nat option"
  g_stream :: ptr
  written :: "(ptr \<times> string) list"
  log_lines :: "(ptr \<times> uint64 \<times> d4np_log_level \<times> string) list"
  log_pcs :: "log_pc list"

definition lat :: "log_sys \<Rightarrow> nat \<Rightarrow> log_pc \<Rightarrow> bool" where
  "lat s i pc \<longleftrightarrow> i < length (log_pcs s) \<and> log_pcs s ! i = pc"

definition lgo :: "nat \<Rightarrow> log_pc \<Rightarrow> log_sys \<Rightarrow> log_sys" where
  "lgo i pc s = s\<lparr>log_pcs := (log_pcs s)[i := pc]\<rparr>"

inductive log_ensure_init :: "log_sys \<Rightarrow> log_sys \<Rightarrow> bool" where
  load_ready: "lat s i (Once_Load c) \<Longrightarrow> g_once s = 2 \<Longrightarrow> log_ensure_init s (lgo i (Body c) s)"
| load_other: "lat s i (Once_Load c) \<Longrightarrow> g_once s \<noteq> 2 \<Longrightarrow> log_ensure_init s (lgo i (Once_Cas c) s)"
| cas_won: "lat s i (Once_Cas c) \<Longrightarrow> g_once s = 0 \<Longrightarrow> log_ensure_init s (lgo i (Init_Mutex c) (s\<lparr>g_once := 1\<rparr>))"
| cas_lost: "lat s i (Once_Cas c) \<Longrightarrow> g_once s \<noteq> 0 \<Longrightarrow> log_ensure_init s (lgo i (Once_Spin c) s)"
| init_mutex: "lat s i (Init_Mutex c) \<Longrightarrow> log_ensure_init s (lgo i (Init_Stream c) (s\<lparr>g_mutex_inits := g_mutex_inits s + 1\<rparr>))"
| init_stream: "lat s i (Init_Stream c) \<Longrightarrow> log_ensure_init s (lgo i (Init_Level c) (s\<lparr>g_stream := STDERR\<rparr>))"
| init_level: "lat s i (Init_Level c) \<Longrightarrow> log_ensure_init s (lgo i (Init_Ready c) (s\<lparr>g_min_level := level_code D4NP_LOG_INFO\<rparr>))"
| init_ready: "lat s i (Init_Ready c) \<Longrightarrow> log_ensure_init s (lgo i (Body c) (s\<lparr>g_once := 2\<rparr>))"
| spin: "lat s i (Once_Spin c) \<Longrightarrow> g_once s \<noteq> 2 \<Longrightarrow> log_ensure_init s s"
| spin_done: "lat s i (Once_Spin c) \<Longrightarrow> g_once s = 2 \<Longrightarrow> log_ensure_init s (lgo i (Body c) s)"

inductive d4np_log_set_output :: "log_sys \<Rightarrow> log_sys \<Rightarrow> bool" where
  output_body: "lat s i (Body (Log_Set_Output st)) \<Longrightarrow> d4np_log_set_output s (lgo i (Output_Lock st) s)"
| output_lock: "lat s i (Output_Lock st) \<Longrightarrow> g_lock s = None \<Longrightarrow> d4np_log_set_output s (lgo i (Output_Set st) (s\<lparr>g_lock := Some i\<rparr>))"
| output_set: "lat s i (Output_Set st) \<Longrightarrow> g_lock s = Some i \<Longrightarrow>
     d4np_log_set_output s (lgo i Output_Unlock (s\<lparr>g_stream := (if st \<noteq> NULL then st else STDERR)\<rparr>))"
| output_unlock: "lat s i Output_Unlock \<Longrightarrow> g_lock s = Some i \<Longrightarrow> d4np_log_set_output s (lgo i Idle (s\<lparr>g_lock := None\<rparr>))"

inductive d4np_log_set_min_level :: "log_sys \<Rightarrow> log_sys \<Rightarrow> bool" where
  min_store: "lat s i (Body (Log_Set_Min_Level l)) \<Longrightarrow> d4np_log_set_min_level s (lgo i Idle (s\<lparr>g_min_level := level_code l\<rparr>))"

text \<open>The pieces of a line go to the stream one call at a time; flushing adds nothing to them.\<close>

definition emit :: "string \<Rightarrow> log_sys \<Rightarrow> log_sys" where
  "emit t s = s\<lparr>written := written s @ [(g_stream s, t)]\<rparr>"

inductive d4np_log_write :: "log_sys \<Rightarrow> log_sys \<Rightarrow> bool" where
  write_dropped: "lat s i (Body (Log_Write l msg)) \<Longrightarrow> level_code l < g_min_level s \<Longrightarrow> d4np_log_write s (lgo i Idle s)"
| write_passed: "lat s i (Body (Log_Write l msg)) \<Longrightarrow> \<not> level_code l < g_min_level s \<Longrightarrow>
     d4np_log_write s (lgo i (Write_Lock (d4np_timestamp_ms ns) l msg) s)"
| write_lock: "lat s i (Write_Lock ts l msg) \<Longrightarrow> g_lock s = None \<Longrightarrow> d4np_log_write s (lgo i (Write_Prefix ts l msg) (s\<lparr>g_lock := Some i\<rparr>))"
| write_prefix: "lat s i (Write_Prefix ts l msg) \<Longrightarrow> g_lock s = Some i \<Longrightarrow> d4np_log_write s (lgo i (Write_Message ts l msg) (emit (log_prefix ts l) s))"
| write_message: "lat s i (Write_Message ts l msg) \<Longrightarrow> g_lock s = Some i \<Longrightarrow> d4np_log_write s (lgo i (Write_Newline ts l msg) (emit msg s))"
| write_newline: "lat s i (Write_Newline ts l msg) \<Longrightarrow> g_lock s = Some i \<Longrightarrow> d4np_log_write s (lgo i (Write_Unlock ts l msg) (emit [CHR 0x0A] s))"
| write_unlock: "lat s i (Write_Unlock ts l msg) \<Longrightarrow> g_lock s = Some i \<Longrightarrow>
     d4np_log_write s (lgo i Idle (s\<lparr>g_lock := None, log_lines := log_lines s @ [(g_stream s, ts, l, msg)]\<rparr>))"

inductive log_step :: "log_sys \<Rightarrow> log_sys \<Rightarrow> bool" where
  log_call: "lat s i Idle \<Longrightarrow> log_step s (lgo i (Once_Load c) s)"
| log_init: "log_ensure_init s s' \<Longrightarrow> log_step s s'"
| log_output: "d4np_log_set_output s s' \<Longrightarrow> log_step s s'"
| log_min: "d4np_log_set_min_level s s' \<Longrightarrow> log_step s s'"
| log_write: "d4np_log_write s s' \<Longrightarrow> log_step s s'"

definition log_start :: "nat \<Rightarrow> log_sys" where
  "log_start n = \<lparr>g_once = 0, g_min_level = 0, g_mutex_inits = 0, g_lock = None, g_stream = NULL, written = [], log_lines = [],
     log_pcs = replicate n Idle\<rparr>"

section \<open>Invariants\<close>

fun log_holds :: "log_pc \<Rightarrow> bool" where
  "log_holds (Write_Prefix ts l msg) = True"
| "log_holds (Write_Message ts l msg) = True"
| "log_holds (Write_Newline ts l msg) = True"
| "log_holds (Write_Unlock ts l msg) = True"
| "log_holds (Output_Set st) = True"
| "log_holds Output_Unlock = True"
| "log_holds _ = False"

fun in_init :: "log_pc \<Rightarrow> bool" where
  "in_init (Init_Mutex c) = True"
| "in_init (Init_Stream c) = True"
| "in_init (Init_Level c) = True"
| "in_init (Init_Ready c) = True"
| "in_init _ = False"

text \<open>Threads that use what the initialisation sets up.\<close>

fun uses_log :: "log_pc \<Rightarrow> bool" where
  "uses_log (Body c) = True"
| "uses_log (Write_Lock ts l msg) = True"
| "uses_log (Output_Lock st) = True"
| "uses_log pc = log_holds pc"

text \<open>How far the initialisation is, by the program counter of the thread that runs it.\<close>

fun init_done :: "log_sys \<Rightarrow> log_pc \<Rightarrow> bool" where
  "init_done s (Init_Mutex c) = (g_mutex_inits s = 0)"
| "init_done s (Init_Stream c) = (g_mutex_inits s = 1)"
| "init_done s (Init_Level c) = (g_mutex_inits s = 1 \<and> g_stream s \<noteq> NULL)"
| "init_done s (Init_Ready c) = (g_mutex_inits s = 1 \<and> g_stream s \<noteq> NULL)"
| "init_done s _ = True"

definition once_ok :: "log_sys \<Rightarrow> bool" where
  "once_ok s \<longleftrightarrow> g_once s \<le> 2 \<and> cnt in_init (log_pcs s) = of_bool (g_once s = 1) \<and>
     (\<forall>pc \<in> set (log_pcs s). (uses_log pc \<longrightarrow> g_once s = 2) \<and> init_done s pc) \<and>
     (g_once s = 0 \<longrightarrow> g_mutex_inits s = 0) \<and> (g_once s = 2 \<longrightarrow> g_mutex_inits s = 1 \<and> g_stream s \<noteq> NULL)"

text \<open>The pieces of a whole line, and those of the line the owner of the mutex is writing.\<close>

fun line_pieces :: "ptr \<times> uint64 \<times> d4np_log_level \<times> string \<Rightarrow> (ptr \<times> string) list" where
  "line_pieces (f, ts, l, msg) = [(f, log_prefix ts l), (f, msg), (f, [CHR 0x0A])]"

fun line_so_far :: "ptr \<Rightarrow> log_pc \<Rightarrow> (ptr \<times> string) list" where
  "line_so_far f (Write_Message ts l msg) = take 1 (line_pieces (f, ts, l, msg))"
| "line_so_far f (Write_Newline ts l msg) = take 2 (line_pieces (f, ts, l, msg))"
| "line_so_far f (Write_Unlock ts l msg) = line_pieces (f, ts, l, msg)"
| "line_so_far f _ = []"

definition partial_line :: "log_sys \<Rightarrow> (ptr \<times> string) list" where
  "partial_line s = (case g_lock s of None \<Rightarrow> [] | Some i \<Rightarrow> line_so_far (g_stream s) (log_pcs s ! i))"

definition lines_ok :: "log_sys \<Rightarrow> bool" where
  "lines_ok s \<longleftrightarrow> written s = concat (map line_pieces (log_lines s)) @ partial_line s"

definition log_inv :: "log_sys \<Rightarrow> bool" where
  "log_inv s \<longleftrightarrow> mutex_ok log_holds (g_lock s) (log_pcs s) \<and> once_ok s \<and> lines_ok s"

lemma lgo_simps [simp]:
  "g_once (lgo i pc s) = g_once s" "g_min_level (lgo i pc s) = g_min_level s" "g_mutex_inits (lgo i pc s) = g_mutex_inits s"
  "g_lock (lgo i pc s) = g_lock s" "g_stream (lgo i pc s) = g_stream s" "written (lgo i pc s) = written s"
  "log_lines (lgo i pc s) = log_lines s" "log_pcs (lgo i pc s) = (log_pcs s)[i := pc]"
  by (simp_all add: lgo_def)

lemma emit_simps [simp]:
  "g_once (emit t s) = g_once s" "g_mutex_inits (emit t s) = g_mutex_inits s" "g_lock (emit t s) = g_lock s"
  "g_stream (emit t s) = g_stream s" "log_lines (emit t s) = log_lines s" "log_pcs (emit t s) = log_pcs s"
  "written (emit t s) = written s @ [(g_stream s, t)]"
  by (simp_all add: emit_def)

lemma latD: "lat s i pc \<Longrightarrow> i < length (log_pcs s)" "lat s i pc \<Longrightarrow> log_pcs s ! i = pc" "lat s i pc \<Longrightarrow> pc \<in> set (log_pcs s)"
  by (auto simp: lat_def)

text \<open>A move that leaves the guard, the stream and the initialisation alone.\<close>

lemma once_move:
  assumes "once_ok s" "lat s i old" "log_pcs s' = (log_pcs s)[i := pc]" "g_once s' = g_once s" "g_mutex_inits s' = g_mutex_inits s"
    "g_stream s' = g_stream s" "in_init pc = in_init old" "uses_log pc \<Longrightarrow> g_once s = 2" "init_done s pc"
  shows "once_ok s'"
proof -
  have c: "cnt in_init (log_pcs s') = cnt in_init (log_pcs s)"
    using cnt_upd [OF latD(1) [OF assms(2)], of in_init pc] assms(3,7) latD(2) [OF assms(2)] by auto
  have "init_done s' q = init_done s q" for q using assms(5,6) by (cases q) simp_all
  then have "(uses_log q \<longrightarrow> g_once s' = 2) \<and> init_done s' q" if "q \<in> set (log_pcs s')" for q
    using that set_upd [of q "log_pcs s" i pc] assms(1,3,4,8,9) by (auto simp: once_ok_def)
  then show ?thesis using assms(1,4-6) c by (simp add: once_ok_def)
qed

text \<open>A move of a thread that does not write, while the owner's line stays as it is.\<close>

lemma lines_move:
  assumes "lines_ok s" "mutex_ok log_holds (g_lock s) (log_pcs s)" "lat s i old" "log_pcs s' = (log_pcs s)[i := pc]"
    "written s' = written s" "log_lines s' = log_lines s" "g_lock s = Some i \<longrightarrow> line_so_far (g_stream s) old = []"
    "g_lock s' = Some i \<longrightarrow> line_so_far (g_stream s') pc = []"
    "g_lock s' = g_lock s \<and> (g_stream s' = g_stream s \<or> g_lock s = Some i \<or> g_lock s = None) \<or> {g_lock s, g_lock s'} = {None, Some i}"
  shows "lines_ok s'"
proof -
  have "partial_line s' = partial_line s"
    using assms(3,4,7-9) by (auto simp: partial_line_def lat_def nth_list_update doubleton_eq_iff split: option.splits)
  then show ?thesis using assms(1,5,6) by (simp add: lines_ok_def)
qed

lemma log_invD: "log_inv s \<Longrightarrow> mutex_ok log_holds (g_lock s) (log_pcs s)" "log_inv s \<Longrightarrow> once_ok s" "log_inv s \<Longrightarrow> lines_ok s"
  by (simp_all add: log_inv_def)

lemma not_owner: "log_inv s \<Longrightarrow> lat s i pc \<Longrightarrow> \<not> log_holds pc \<Longrightarrow> g_lock s \<noteq> Some i"
  using log_invD(1) [of s] by (auto simp: mutex_ok_def lat_def)

text \<open>While the guard is not at 2 nobody holds the mutex.\<close>

lemma no_owner:
  assumes "log_inv s" "g_once s \<noteq> 2"
  shows "g_lock s = None"
proof (cases "g_lock s")
  case (Some j)
  then have "j < length (log_pcs s)" "log_holds (log_pcs s ! j)" using log_invD(1) [OF assms(1)] by (auto simp: mutex_ok_def)
  moreover have "log_holds pc \<Longrightarrow> uses_log pc" for pc by (cases pc) simp_all
  ultimately show ?thesis using log_invD(2) [OF assms(1)] assms(2) nth_mem unfolding once_ok_def by blast
qed

lemma used: "log_inv s \<Longrightarrow> lat s i pc \<Longrightarrow> uses_log pc \<Longrightarrow> g_once s = 2"
  using log_invD(2) [of s] latD(3) [of s i pc] by (auto simp: once_ok_def)

text \<open>Moves that touch neither the mutex, the stream nor the guard.\<close>

lemma inv_move:
  assumes "log_inv s" "lat s i old" "\<not> log_holds old" "\<not> log_holds pc" "in_init pc = in_init old" "init_done s pc"
    "uses_log pc \<Longrightarrow> g_once s = 2" "s' = s \<or> (\<exists>v. s' = s\<lparr>g_min_level := v\<rparr>)"
  shows "log_inv (lgo i pc s')"
proof -
  have f: "log_pcs (lgo i pc s') = (log_pcs s)[i := pc]" "g_once (lgo i pc s') = g_once s" "g_mutex_inits (lgo i pc s') = g_mutex_inits s"
    "g_stream (lgo i pc s') = g_stream s" "g_lock (lgo i pc s') = g_lock s" "written (lgo i pc s') = written s" "log_lines (lgo i pc s') = log_lines s"
    using assms(8) by auto
  have "mutex_ok log_holds (g_lock s) ((log_pcs s)[i := pc])"
    by (rule mutex_keep [OF log_invD(1) [OF assms(1)] latD(1) [OF assms(2)]]) (use assms(3,4) latD(2) [OF assms(2)] in simp)
  moreover have "once_ok (lgo i pc s')" by (rule once_move [OF log_invD(2) [OF assms(1)] assms(2) f(1-4) assms(5)]) (fact assms)+
  moreover have "lines_ok (lgo i pc s')"
    by (rule lines_move [OF log_invD(3,1) [OF assms(1)] assms(2) f(1,6,7)]) (use f not_owner [OF assms(1-3)] in auto)
  ultimately show ?thesis using f by (simp add: log_inv_def)
qed

lemma init_done_outside: "\<not> in_init q \<Longrightarrow> init_done s q"
  by (cases q) simp_all

text \<open>Taking the mutex, giving it back and staying in the critical section.\<close>

lemma inv_enter:
  assumes "log_inv s" "lat s i old" "g_lock s = None" "uses_log old" "log_holds pc" "\<not> in_init old" "line_so_far (g_stream s) pc = []"
  shows "log_inv (lgo i pc (s\<lparr>g_lock := Some i\<rparr>))" (is "log_inv ?s")
proof -
  have u: "g_once s = 2" by (rule used [OF assms(1,2,4)])
  have pc: "\<not> in_init pc" "init_done s pc" using assms(5) by (cases pc; simp)+
  have "mutex_ok log_holds (Some i) ((log_pcs s)[i := pc])"
    using mutex_acquire log_invD(1) [OF assms(1)] latD(1) [OF assms(2)] assms(3,5) by simp
  moreover have "once_ok ?s" by (rule once_move [OF log_invD(2) [OF assms(1)] assms(2), where pc = pc]) (use u pc assms(6) in simp_all)
  moreover have "lines_ok ?s"
    by (rule lines_move [OF log_invD(3,1) [OF assms(1)] assms(2), where pc = pc]) (use assms(3,7) in auto)
  ultimately show ?thesis by (simp add: log_inv_def)
qed

lemma inv_inside:
  assumes "log_inv s" "lat s i old" "g_lock s = Some i" "log_holds old" "log_holds pc" "log_pcs s' = log_pcs s" "g_once s' = g_once s"
    "g_mutex_inits s' = g_mutex_inits s" "g_stream s' \<noteq> NULL" "g_lock s' = g_lock s" "lines_ok (lgo i pc s')"
  shows "log_inv (lgo i pc s')"
proof -
  have "uses_log old" using assms(4) by (cases old) simp_all
  then have u: "g_once s = 2" by (rule used [OF assms(1,2)])
  have ni: "\<not> in_init pc" "\<not> in_init old" using assms(4,5) by (cases pc; cases old; simp)+
  have m: "mutex_ok log_holds (g_lock s') ((log_pcs s)[i := pc])"
    unfolding assms(10) by (rule mutex_keep [OF log_invD(1) [OF assms(1)] latD(1) [OF assms(2)]]) (use assms(4,5) latD(2) [OF assms(2)] in simp)
  have "cnt in_init ((log_pcs s)[i := pc]) = cnt in_init (log_pcs s)"
    using cnt_upd [OF latD(1) [OF assms(2)], of in_init pc] latD(2) [OF assms(2)] ni by simp
  moreover have "cnt in_init (log_pcs s) = 0" using log_invD(2) [OF assms(1)] u by (simp add: once_ok_def)
  ultimately have c: "cnt in_init ((log_pcs s)[i := pc]) = 0" by simp
  then have "\<forall>q \<in> set ((log_pcs s)[i := pc]). init_done (lgo i pc s') q" using init_done_outside by (simp add: cnt_0)
  then have "once_ok (lgo i pc s')"
    using log_invD(2) [OF assms(1)] u c assms(6-9) by (simp add: once_ok_def)
  then show ?thesis using m assms(6,11) by (simp add: log_inv_def)
qed

lemma inv_leave:
  assumes "log_inv s" "lat s i old" "g_lock s = Some i" "log_holds old" "written s = concat (map line_pieces (ls))"
  shows "log_inv (lgo i Idle (s\<lparr>g_lock := None, log_lines := ls\<rparr>))" (is "log_inv ?s")
proof -
  have ni: "\<not> in_init old" using assms(4) by (cases old) simp_all
  have "mutex_ok log_holds None ((log_pcs s)[i := Idle])"
    using mutex_release [of log_holds i "log_pcs s" Idle] log_invD(1) [OF assms(1)] latD(1) [OF assms(2)] assms(3) by simp
  moreover have "once_ok ?s" by (rule once_move [OF log_invD(2) [OF assms(1)] assms(2), where pc = Idle]) (use ni in simp_all)
  moreover have "lines_ok ?s" using assms(5) by (simp add: lines_ok_def partial_line_def)
  ultimately show ?thesis by (simp add: log_inv_def)
qed

lemma uses_init: "uses_log q \<Longrightarrow> in_init q \<Longrightarrow> False"
  by (cases q) simp_all

lemma init_free: "in_init q \<Longrightarrow> log_holds q \<Longrightarrow> False"
  by (cases q) simp_all

text \<open>The thread that initialises is alone in it, and nobody uses the logger yet.\<close>

lemma initialising:
  assumes "log_inv s" "lat s i old" "in_init old"
  shows "g_once s = 1" "cnt in_init (log_pcs s) = 1" "\<And>q. q \<in> set (log_pcs s) \<Longrightarrow> \<not> uses_log q" "init_done s old"
proof -
  have o: "once_ok s" by (rule log_invD(2) [OF assms(1)])
  have "0 < cnt in_init (log_pcs s)" using cnt_pos [OF latD(1) [OF assms(2)], of in_init] latD(2) [OF assms(2)] assms(3) by simp
  then show "g_once s = 1" "cnt in_init (log_pcs s) = 1" using o by (auto simp: once_ok_def of_bool_def split: if_splits)
  then show "\<not> uses_log q" if "q \<in> set (log_pcs s)" for q using o that by (auto simp: once_ok_def)
  show "init_done s old" using o latD(3) [OF assms(2)] by (simp add: once_ok_def)
qed

lemma inv_init:
  assumes "log_inv s" "lat s i old" "in_init old \<or> g_once s = 0 \<and> \<not> in_init old \<and> \<not> log_holds old" "\<not> log_holds pc"
    "log_pcs s' = log_pcs s" "g_lock s' = g_lock s" "written s' = written s" "log_lines s' = log_lines s" "init_done s' pc"
    "in_init pc \<and> g_once s' = 1 \<or> \<not> in_init pc \<and> in_init old \<and> g_once s' = 2 \<and> g_mutex_inits s' = 1 \<and> g_stream s' \<noteq> NULL"
  shows "log_inv (lgo i pc s')"
proof -
  have i: "i < length (log_pcs s)" "log_pcs s ! i = old" using assms(2) by (simp_all add: lat_def)
  have o: "once_ok s" by (rule log_invD(2) [OF assms(1)])
  have n2: "g_once s \<noteq> 2" using assms(3) initialising(1) [OF assms(1,2)] by auto
  have cs: "cnt in_init (log_pcs s) = of_bool (in_init old)"
    using assms(3) initialising(2) [OF assms(1,2)] o by (auto simp: once_ok_def)
  have c: "cnt in_init ((log_pcs s)[i := pc]) = of_bool (in_init pc)"
    using cnt_upd [OF i(1), of in_init pc] cs i(2) by (auto simp: of_bool_def split: if_splits)
  have uses: "\<not> uses_log q" if "q \<in> set (log_pcs s)" for q using o that n2 by (auto simp: once_ok_def)
  have "init_done (lgo i pc s') q" if q: "q \<in> set ((log_pcs s)[i := pc])" for q
  proof (cases "in_init q")
    case True
    then have "0 < cnt in_init ((log_pcs s)[i := pc])" using q cnt_0 [of in_init] by (metis gr0I)
    then have pc: "in_init pc" using c by (auto simp: of_bool_def split: if_splits)
    have "q = pc"
    proof (rule ccontr)
      assume "q \<noteq> pc"
      moreover obtain j where l: "j < length (log_pcs s)" "(log_pcs s)[i := pc] ! j = q" using q by (auto simp: in_set_conv_nth)
      ultimately have ne: "j \<noteq> i" using i(1) by auto
      then have j: "j < length (log_pcs s)" "j \<noteq> i" "in_init (log_pcs s ! j)" using True l by simp_all
      have "0 < cnt in_init ((log_pcs s)[i := Idle])" by (rule cnt_pos [of j]) (use j in simp_all)
      then show False using cnt_upd [OF i(1), of in_init Idle] cs i(2) by (auto simp: of_bool_def split: if_splits)
    qed
    moreover have "init_done (lgo i pc s') pc = init_done s' pc" by (cases pc) simp_all
    ultimately show ?thesis using assms(9) by simp
  qed (rule init_done_outside)
  moreover have "uses_log q \<longrightarrow> g_once s' = 2" if "q \<in> set ((log_pcs s)[i := pc])" for q
    using set_upd [OF that] uses assms(4,10) by (auto dest: uses_init)
  ultimately have "once_ok (lgo i pc s')" using assms(5,10) c by (auto simp: once_ok_def)
  moreover have lk: "g_lock s = None" by (rule no_owner [OF assms(1) n2])
  moreover have "mutex_ok log_holds None ((log_pcs s)[i := pc])"
    using mutex_keep [OF log_invD(1) [OF assms(1)] i(1), of pc] lk i(2) assms(3,4) by (auto dest: init_free)
  moreover have "lines_ok (lgo i pc s')"
    by (rule lines_move [OF log_invD(3,1) [OF assms(1)] assms(2), where pc = pc]) (use assms(5-8) lk in auto)
  ultimately show ?thesis using assms(5,6) by (simp add: log_inv_def)
qed

lemma ensure_init_inv: "log_ensure_init s s' \<Longrightarrow> log_inv s \<Longrightarrow> log_inv s'"
proof (induction rule: log_ensure_init.induct)
  case (load_ready s i c)
  then show ?case by (intro inv_move [of s i "Once_Load c"]) simp_all
next
  case (load_other s i c)
  then show ?case by (intro inv_move [of s i "Once_Load c"]) simp_all
next
  case (cas_won s i c)
  then have "g_mutex_inits s = 0" using log_invD(2) by (simp add: once_ok_def)
  with cas_won show ?case by (intro inv_init [of s i "Once_Cas c"]) simp_all
next
  case (cas_lost s i c)
  then show ?case by (intro inv_move [of s i "Once_Cas c"]) simp_all
next
  case (init_mutex s i c)
  then show ?case using initialising(1,4) [of s i "Init_Mutex c"] by (intro inv_init [of s i "Init_Mutex c"]) simp_all
next
  case (init_stream s i c)
  then show ?case using initialising(1,4) [of s i "Init_Stream c"] by (intro inv_init [of s i "Init_Stream c"]) (simp_all add: STDERR_def)
next
  case (init_level s i c)
  then show ?case using initialising(1,4) [of s i "Init_Level c"] by (intro inv_init [of s i "Init_Level c"]) simp_all
next
  case (init_ready s i c)
  then show ?case using initialising(1,4) [of s i "Init_Ready c"] by (intro inv_init [of s i "Init_Ready c"]) simp_all
next
  case (spin_done s i c)
  then show ?case by (intro inv_move [of s i "Once_Spin c"]) simp_all
qed

lemma set_output_inv: "d4np_log_set_output s s' \<Longrightarrow> log_inv s \<Longrightarrow> log_inv s'"
proof (induction rule: d4np_log_set_output.induct)
  case (output_body s i st)
  then show ?case using used [of s i "Body (Log_Set_Output st)"] by (intro inv_move [of s i "Body (Log_Set_Output st)"]) simp_all
next
  case (output_lock s i st)
  then show ?case by (intro inv_enter [of s i "Output_Lock st"]) simp_all
next
  case (output_set s i st)
  have "lines_ok (lgo i Output_Unlock (s\<lparr>g_stream := (if st \<noteq> NULL then st else STDERR)\<rparr>))"
    by (rule lines_move [OF log_invD(3,1) [OF output_set.prems] output_set.hyps(1), where pc = Output_Unlock]) (use output_set.hyps in simp_all)
  then show ?case using output_set by (intro inv_inside [of s i "Output_Set st"]) (simp_all add: STDERR_def)
next
  case (output_unlock s i)
  then have "written s = concat (map line_pieces (log_lines s))"
    using log_invD(3) [of s] latD(2) [of s i Output_Unlock] by (simp add: lines_ok_def partial_line_def)
  with inv_leave [of s i Output_Unlock "log_lines s"] output_unlock show ?case by simp
qed

lemma lines_write:
  assumes "log_inv s" "lat s i old" "g_lock s = Some i" "line_so_far (g_stream s) pc = line_so_far (g_stream s) old @ [(g_stream s, t)]"
  shows "lines_ok (lgo i pc (emit t s))"
  using assms log_invD(3) [OF assms(1)] by (simp add: lines_ok_def partial_line_def lat_def)

lemma stream_ready: "log_inv s \<Longrightarrow> lat s i pc \<Longrightarrow> uses_log pc \<Longrightarrow> g_stream s \<noteq> NULL"
  using used [of s i pc] log_invD(2) [of s] by (simp add: once_ok_def)

lemma inv_write:
  assumes "log_inv s" "lat s i old" "g_lock s = Some i" "log_holds old" "log_holds pc"
    "line_so_far (g_stream s) pc = line_so_far (g_stream s) old @ [(g_stream s, t)]"
  shows "log_inv (lgo i pc (emit t s))"
proof -
  have "uses_log old" using assms(4) by (cases old) simp_all
  from stream_ready [OF assms(1,2) this] show ?thesis
    by (intro inv_inside [OF assms(1-5)] lines_write [OF assms(1-3,6)]) simp_all
qed

lemma log_write_inv: "d4np_log_write s s' \<Longrightarrow> log_inv s \<Longrightarrow> log_inv s'"
proof (induction rule: d4np_log_write.induct)
  case (write_dropped s i l msg)
  then show ?case by (intro inv_move [of s i "Body (Log_Write l msg)"]) simp_all
next
  case (write_passed s i l msg ns)
  then show ?case using used [of s i "Body (Log_Write l msg)"] by (intro inv_move [of s i "Body (Log_Write l msg)"]) simp_all
next
  case (write_lock s i ts l msg)
  then show ?case by (intro inv_enter [of s i "Write_Lock ts l msg"]) simp_all
next
  case (write_prefix s i ts l msg)
  then show ?case by (intro inv_write [of s i "Write_Prefix ts l msg"]) simp_all
next
  case (write_message s i ts l msg)
  then show ?case by (intro inv_write [of s i "Write_Message ts l msg"]) simp_all
next
  case (write_newline s i ts l msg)
  then show ?case by (intro inv_write [of s i "Write_Newline ts l msg"]) simp_all
next
  case (write_unlock s i ts l msg)
  then have "written s = concat (map line_pieces (log_lines s @ [(g_stream s, ts, l, msg)]))"
    using log_invD(3) [of s] latD(2) [of s i] by (simp add: lines_ok_def partial_line_def)
  with write_unlock show ?case by (intro inv_leave [of s i "Write_Unlock ts l msg"]) simp_all
qed

lemma min_level_inv: "d4np_log_set_min_level s s' \<Longrightarrow> log_inv s \<Longrightarrow> log_inv s'"
proof (induction rule: d4np_log_set_min_level.induct)
  case (min_store s i l)
  then show ?case by (intro inv_move [of s i "Body (Log_Set_Min_Level l)"]) auto
qed

lemma log_step_inv: "log_step s s' \<Longrightarrow> log_inv s \<Longrightarrow> log_inv s'"
proof (induction rule: log_step.induct)
  case (log_call s i c)
  then show ?case by (intro inv_move [of s i Idle]) simp_all
qed (blast intro: ensure_init_inv set_output_inv min_level_inv log_write_inv)+

lemma log_start_inv: "log_inv (log_start n)"
proof -
  have "mutex_ok log_holds None (replicate n Idle)" by (auto simp: mutex_ok_def)
  moreover have "cnt in_init (replicate n Idle) = 0" by (simp add: cnt_replicate)
  ultimately show ?thesis by (simp add: log_inv_def log_start_def once_ok_def lines_ok_def partial_line_def)
qed

lemma log_reachable_inv: "log_step\<^sup>*\<^sup>* (log_start n) s \<Longrightarrow> log_inv s"
  by (induction rule: rtranclp_induct) (auto intro: log_start_inv log_step_inv)

section \<open>Properties\<close>

text \<open>C11: lines from concurrent threads never interleave: in every interleaving of any number of threads that
  log, redirect the output and change the level, what has been written is a sequence of whole lines
  (time stamp, level, message, newline), each on one stream, followed by at most the beginning of one line, which belongs to the owner of
  the mutex; when the mutex is free there is no unfinished line.\<close>

theorem log_lines_never_interleave:
  assumes "log_step\<^sup>*\<^sup>* (log_start n) s"
  shows "\<exists>part. written s = concat (map line_pieces (log_lines s)) @ part \<and> (g_lock s = None \<longrightarrow> part = []) \<and>
    (\<forall>i. g_lock s = Some i \<longrightarrow> part = line_so_far (g_stream s) (log_pcs s ! i)) \<and> cnt log_holds (log_pcs s) \<le> 1"
proof -
  have inv: "log_inv s" by (rule log_reachable_inv [OF assms])
  then have "written s = concat (map line_pieces (log_lines s)) @ partial_line s" using log_invD(3) by (simp add: lines_ok_def)
  moreover have "g_lock s = None \<longrightarrow> partial_line s = []" "\<forall>i. g_lock s = Some i \<longrightarrow> partial_line s = line_so_far (g_stream s) (log_pcs s ! i)"
    by (simp_all add: partial_line_def)
  ultimately show ?thesis using mutex_exclusion [OF log_invD(1) [OF inv]] by (intro exI [of _ "partial_line s"]) simp
qed

text \<open>The lazy initialisation happens exactly once: in every interleaving no thread touches the mutex, the
  stream or the level of the logger before the initialisation is complete, the mutex is initialised at most once,
  the stream is not NULL when it is used, and while a thread spins on the guard some thread is initialising or it is done.\<close>

theorem log_initialised_once:
  assumes "log_step\<^sup>*\<^sup>* (log_start n) s" "lat s i pc"
  shows "g_mutex_inits s \<le> 1 \<and> (uses_log pc \<longrightarrow> g_once s = 2 \<and> g_mutex_inits s = 1 \<and> g_stream s \<noteq> NULL) \<and>
    cnt in_init (log_pcs s) \<le> 1 \<and> (g_once s = 1 \<longleftrightarrow> (\<exists>j q. lat s j q \<and> in_init q))"
proof -
  have inv: "log_inv s" by (rule log_reachable_inv [OF assms(1)])
  then have o: "once_ok s" by (rule log_invD(2))
  have c: "cnt in_init (log_pcs s) = of_bool (g_once s = 1)" using o by (simp add: once_ok_def)
  have "g_once s = 1 \<longleftrightarrow> (\<exists>j q. lat s j q \<and> in_init q)"
  proof
    assume "g_once s = 1"
    with c have "0 < cnt in_init (log_pcs s)" by simp
    from cnt_posD [OF this] show "\<exists>j q. lat s j q \<and> in_init q" by (auto simp: lat_def)
  next
    assume "\<exists>j q. lat s j q \<and> in_init q"
    then show "g_once s = 1" using initialising(1) [OF inv] by blast
  qed
  moreover have "g_mutex_inits s \<le> 1"
  proof (cases "g_once s = 1")
    case True
    with c have "0 < cnt in_init (log_pcs s)" by simp
    from cnt_posD [OF this] obtain j where "lat s j (log_pcs s ! j)" "in_init (log_pcs s ! j)" by (auto simp: lat_def)
    with initialising(4) [OF inv this] show ?thesis by (cases "log_pcs s ! j") simp_all
  next
    case False
    then have "g_once s = 0 \<or> g_once s = 2" using o by (auto simp: once_ok_def)
    then show ?thesis using o by (auto simp: once_ok_def)
  qed
  ultimately show ?thesis using c used [OF inv assms(2)] o by (auto simp: once_ok_def)
qed

text \<open>One thread has initialised the logger and is in the middle of its line; another waits for the mutex.\<close>

definition log_mid :: log_sys where
  "log_mid = \<lparr>g_once = 2, g_min_level = 0, g_mutex_inits = 1, g_lock = Some 0, g_stream = STDERR,
     written = [(STDERR, log_prefix 7 D4NP_LOG_WARN)], log_lines = [],
     log_pcs = [Write_Message 7 D4NP_LOG_WARN ''low'', Output_Lock 9]\<rparr>"

lemma log_mid_reachable: "log_step\<^sup>*\<^sup>* (log_start 2) log_mid"
proof -
  let ?w = "Log_Write D4NP_LOG_WARN ''low''" and ?o = "Log_Set_Output 9"
  let ?S = "\<lambda>once inits lock st out pcs. \<lparr>g_once = once, g_min_level = 0, g_mutex_inits = inits, g_lock = lock, g_stream = st,
    written = out, log_lines = [], log_pcs = pcs\<rparr>"
  let ?s0 = "?S 0 0 None NULL [] [Idle, Idle]" and ?s1 = "?S 0 0 None NULL [] [Once_Load ?w, Idle]"
  let ?s2 = "?S 0 0 None NULL [] [Once_Cas ?w, Idle]" and ?s3 = "?S 1 0 None NULL [] [Init_Mutex ?w, Idle]"
  let ?s4 = "?S 1 1 None NULL [] [Init_Stream ?w, Idle]" and ?s5 = "?S 1 1 None STDERR [] [Init_Level ?w, Idle]"
  let ?s6 = "?S 1 1 None STDERR [] [Init_Ready ?w, Idle]" and ?s7 = "?S 2 1 None STDERR [] [Body ?w, Idle]"
  let ?s8 = "?S 2 1 None STDERR [] [Body ?w, Once_Load ?o]" and ?s9 = "?S 2 1 None STDERR [] [Body ?w, Body ?o]"
  let ?sa = "?S 2 1 None STDERR [] [Body ?w, Output_Lock 9]" and ?sb = "?S 2 1 None STDERR [] [Write_Lock 7 D4NP_LOG_WARN ''low'', Output_Lock 9]"
  let ?sc = "?S 2 1 (Some 0) STDERR [] [Write_Prefix 7 D4NP_LOG_WARN ''low'', Output_Lock 9]"
  note d = lat_def lgo_def emit_def
  have st: "log_start 2 = ?s0" by (simp add: log_start_def numeral_2_eq_2)
  have 1: "log_step ?s0 ?s1" using log_step.log_call [of ?s0 0 ?w] by (simp add: d)
  have 2: "log_step ?s1 ?s2" using log_step.log_init [OF log_ensure_init.load_other [of ?s1 0 ?w]] by (simp add: d)
  have 3: "log_step ?s2 ?s3" using log_step.log_init [OF log_ensure_init.cas_won [of ?s2 0 ?w]] by (simp add: d)
  have 4: "log_step ?s3 ?s4" using log_step.log_init [OF log_ensure_init.init_mutex [of ?s3 0 ?w]] by (simp add: d)
  have 5: "log_step ?s4 ?s5" using log_step.log_init [OF log_ensure_init.init_stream [of ?s4 0 ?w]] by (simp add: d)
  have 6: "log_step ?s5 ?s6" using log_step.log_init [OF log_ensure_init.init_level [of ?s5 0 ?w]] by (simp add: d)
  have 7: "log_step ?s6 ?s7" using log_step.log_init [OF log_ensure_init.init_ready [of ?s6 0 ?w]] by (simp add: d)
  have 8: "log_step ?s7 ?s8" using log_step.log_call [of ?s7 1 ?o] by (simp add: d)
  have 9: "log_step ?s8 ?s9" using log_step.log_init [OF log_ensure_init.load_ready [of ?s8 1 ?o]] by (simp add: d)
  have 10: "log_step ?s9 ?sa" using log_step.log_output [OF d4np_log_set_output.output_body [of ?s9 1 9]] by (simp add: d)
  have 11: "log_step ?sa ?sb"
    using log_step.log_write [OF d4np_log_write.write_passed [of ?sa 0 D4NP_LOG_WARN "''low''" 7000000]] by (simp add: d d4np_timestamp_ms_def)
  have 12: "log_step ?sb ?sc" using log_step.log_write [OF d4np_log_write.write_lock [of ?sb 0]] by (simp add: d)
  have 13: "log_step ?sc log_mid" using log_step.log_write [OF d4np_log_write.write_prefix [of ?sc 0]] by (simp add: d log_mid_def)
  note more = converse_rtranclp_into_rtranclp [where r = log_step]
  show ?thesis
    unfolding st by (rule more [OF 1], rule more [OF 2], rule more [OF 3], rule more [OF 4], rule more [OF 5], rule more [OF 6], rule more [OF 7],
      rule more [OF 8], rule more [OF 9], rule more [OF 10], rule more [OF 11], rule more [OF 12], rule more [OF 13], rule rtranclp.rtrancl_refl)
qed

theorem log_lines_never_interleave_witness: "written log_mid = [] @ line_so_far STDERR (log_pcs log_mid ! 0)"
  using log_lines_never_interleave [OF log_mid_reachable] by (auto simp: log_mid_def)

theorem log_initialised_once_witness: "g_mutex_inits log_mid = 1 \<and> g_stream log_mid \<noteq> NULL"
proof -
  have "lat log_mid 1 (Output_Lock 9)" by (simp add: lat_def log_mid_def)
  from log_initialised_once [OF log_mid_reachable this] show ?thesis by simp
qed

end
