(* ===== verification/Log_Lock.thy ===== *)
theory Log_Lock
  imports Log Lock_Client
begin

text \<open>
  The logger on its mutex. \<open>Log\<close> records the owner of \<open>g_mutex\<close> in a field and counts its initialisations; here
  \<open>g_mutex\<close> is the mutex of \<open>concurrency/mutex.c\<close>, in both branches, not usable until \<open>log_ensure_init\<close> has called
  \<open>d4np_mutex_init\<close>, whose return code is an argument. When that call succeeds the logger makes no undefined lock call in any
  interleaving; \<open>log_ensure_init\<close> does not look at the result, and when it fails every lock call that follows is undefined.
\<close>

section \<open>The logger as a client of a lock\<close>

fun log_enters :: "log_pc \<Rightarrow> log_pc option" where
  "log_enters (Write_Lock ts l msg) = Some (Write_Prefix ts l msg)"
| "log_enters (Output_Lock st) = Some (Output_Set st)"
| "log_enters _ = None"

definition log_acquire :: "nat \<Rightarrow> log_sys \<Rightarrow> log_sys option" where
  "log_acquire i s =
     (if i < length (log_pcs s) then map_option (\<lambda>pc. lgo i pc (s\<lparr>g_lock := Some i\<rparr>)) (log_enters (log_pcs s ! i)) else None)"

definition log_live :: "log_sys \<Rightarrow> bool" where
  "log_live s \<longleftrightarrow> 0 < g_mutex_inits s"

text \<open>The mutex is a static object, zeroed when the program starts; it is never destroyed.\<close>

definition log_locked_step :: "int \<Rightarrow> log_sys \<times> d4np_mutex \<Rightarrow> log_sys \<times> d4np_mutex \<Rightarrow> bool" where
  "log_locked_step rc = locked_step log_step g_lock log_live log_acquire mutex_lock mutex_unlock (mutex_create rc) mutex_destroy"

definition log_lock_fault :: "log_sys \<times> d4np_mutex \<Rightarrow> bool" where
  "log_lock_fault = lock_fault log_step g_lock log_live log_acquire mutex_lock mutex_unlock mutex_destroy"

definition log_locked_start :: "nat \<Rightarrow> log_sys \<times> d4np_mutex" where
  "log_locked_start n = (log_start n, \<lparr>mx_ready = False, mx_owner = None\<rparr>)"

definition log_locked_step_win32 :: "log_sys \<times> d4np_mutex_win32 \<Rightarrow> log_sys \<times> d4np_mutex_win32 \<Rightarrow> bool" where
  "log_locked_step_win32 =
     locked_step log_step g_lock log_live log_acquire mutex_lock_win32 mutex_unlock_win32 mutex_create_win32 mutex_destroy_win32"

definition log_lock_fault_win32 :: "log_sys \<times> d4np_mutex_win32 \<Rightarrow> bool" where
  "log_lock_fault_win32 = lock_fault log_step g_lock log_live log_acquire mutex_lock_win32 mutex_unlock_win32 mutex_destroy_win32"

definition log_locked_start_win32 :: "nat \<Rightarrow> log_sys \<times> d4np_mutex_win32" where
  "log_locked_start_win32 n = (log_start n, \<lparr>cs_ready = False, cs_owner = None, cs_depth = 0\<rparr>)"

section \<open>The laws of the client\<close>

lemma log_acquire_iff:
  "log_acquire i s = Some s' \<longleftrightarrow> (\<exists>old pc. lat s i old \<and> log_enters old = Some pc \<and> s' = lgo i pc (s\<lparr>g_lock := Some i\<rparr>))"
  by (auto simp: log_acquire_def lat_def)

lemma log_enters_cases: "log_enters old = Some pc \<Longrightarrow> uses_log old \<and> \<not> log_holds old"
  by (cases old) auto

lemma log_acquire_step:
  assumes "log_acquire i s = Some s'" "g_lock s = None"
  shows "log_step s s'"
proof -
  obtain old pc where o: "lat s i old" "log_enters old = Some pc" "s' = lgo i pc (s\<lparr>g_lock := Some i\<rparr>)" using assms(1) by (auto simp: log_acquire_iff)
  from o(2) show ?thesis using o(1,3) d4np_log_write.write_lock [OF _ assms(2)] d4np_log_set_output.output_lock [OF _ assms(2)]
    by (cases old) (auto intro: log_step.log_write log_step.log_output)
qed

lemma log_acquire_other: "log_inv s \<Longrightarrow> log_acquire i s = Some s' \<Longrightarrow> g_lock s \<noteq> Some i"
  using not_owner log_enters_cases by (auto simp: log_acquire_iff)

text \<open>A thread at its lock call has seen the initialisation finished.\<close>

lemma log_acquire_live: "log_inv s \<Longrightarrow> log_acquire i s = Some s' \<Longrightarrow> log_live s"
  using used log_enters_cases log_invD(2) [of s] by (fastforce simp: log_acquire_iff log_live_def once_ok_def)

lemma log_step_kinds:
  assumes "log_step s s'"
  shows "g_lock s' = g_lock s \<or> g_lock s \<noteq> None \<and> g_lock s' = None \<and> log_live s' = log_live s \<or> (\<exists>i. g_lock s = None \<and> log_acquire i s = Some s')"
proof -
  have acq: ?thesis if "lat s i old" "log_enters old = Some pc" "g_lock s = None" "s' = lgo i pc (s\<lparr>g_lock := Some i\<rparr>)" for i old pc
    using that log_acquire_iff [of i s s'] by blast
  from assms show ?thesis
  proof cases
    case (log_call i c)
    then show ?thesis by simp
  next
    case log_init
    then show ?thesis by cases simp_all
  next
    case log_output
    then show ?thesis
    proof cases
      case (output_lock i st)
      then show ?thesis by (intro acq [of i "Output_Lock st"]) simp_all
    qed (simp_all add: log_live_def)
  next
    case log_min
    then show ?thesis by cases simp
  next
    case log_write
    then show ?thesis
    proof cases
      case (write_lock i ts l msg)
      then show ?thesis by (intro acq [of i "Write_Lock ts l msg"]) simp_all
    qed (simp_all add: log_live_def)
  qed
qed

text \<open>The mutex is created once and never destroyed.\<close>

lemma log_live_stays: "log_step s s' \<Longrightarrow> log_live s \<Longrightarrow> log_live s'"
  unfolding log_live_def
  by (auto elim!: log_step.cases log_ensure_init.cases d4np_log_set_output.cases d4np_log_set_min_level.cases d4np_log_write.cases)

lemma log_dead_free: "log_inv s \<Longrightarrow> \<not> log_live s \<Longrightarrow> g_lock s = None"
  using no_owner [of s] log_invD(2) [of s] by (auto simp: log_live_def once_ok_def)

interpretation log_mutex: lock_client mx_ready mx_owner mutex_lock mutex_trylock mutex_unlock "mutex_create 0" mutex_destroy
    log_step g_lock log_live log_acquire log_inv
  by unfold_locales
    (blast intro: log_step_inv log_acquire_step log_acquire_other log_step_kinds | force simp: log_acquire_iff log_live_def
      | rule log_acquire_other log_step_kinds, assumption+)+

interpretation log_section: lock_client cs_single cs_owner mutex_lock_win32 mutex_trylock_win32 mutex_unlock_win32 mutex_create_win32
    mutex_destroy_win32 log_step g_lock log_live log_acquire log_inv
  by unfold_locales (rule log_mutex.step_inv log_mutex.acquire_step log_mutex.acquire_own log_mutex.acquire_other log_mutex.step_kinds, assumption+)+

lemma log_no_fault:
  assumes "log_inv s"
  shows "\<not> ((\<exists>i s'. \<not> log_live s \<and> log_acquire i s = Some s') \<or> (\<exists>s'. log_step s s' \<and> log_live s \<and> \<not> log_live s' \<and> g_lock s \<noteq> None))"
  using log_acquire_live [OF assms] log_live_stays by blast

lemma log_locked_reachable:
  assumes "(log_locked_step 0)\<^sup>*\<^sup>* (log_locked_start n) (s, m)"
  shows "log_step\<^sup>*\<^sup>* (log_start n) s \<and> log_mutex.agree (s, m)"
proof -
  have "log_mutex.agree (log_locked_start n)"
    using log_start_inv [of n] by (simp add: lock_agree_def log_locked_start_def log_start_def log_live_def d4np_mutex_lock_def)
  from log_mutex.locked_runs_refine [OF assms [unfolded log_locked_step_def] this] show ?thesis by (simp add: log_locked_start_def)
qed

lemma log_locked_complete:
  assumes "log_step\<^sup>*\<^sup>* (log_start n) s"
  shows "\<exists>m. (log_locked_step 0)\<^sup>*\<^sup>* (log_locked_start n) (s, m)"
  unfolding log_locked_step_def log_locked_start_def
proof (rule log_mutex.locked_runs_complete [OF assms, where good = "\<lambda>_. True"])
  show "log_mutex.agree (log_start n, \<lparr>mx_ready = False, mx_owner = None\<rparr>)"
    using log_start_inv [of n] by (simp add: lock_agree_def log_start_def log_live_def d4np_mutex_lock_def)
  show "True \<and> (log_live y \<and> \<not> log_live z \<longrightarrow> g_lock y = None) \<and> (\<not> log_live y \<longrightarrow> g_lock z = None)" if "log_inv y" "log_step y z" for y z
    using log_live_stays [OF that(2)] log_dead_free [OF that(1)] log_step_kinds [OF that(2)] log_acquire_live [OF that(1)] by auto
qed simp

section \<open>Properties\<close>

text \<open>C27: on a real mutex whose initialisation succeeds, the logger reaches exactly the states of \<open>Log\<close>: the mutex is usable from the
  moment it is initialised on, its owner is the thread in the critical section, no interleaving contains an undefined lock call (in
  particular none before the lazy initialisation), and when the mutex is free only whole lines have been written.\<close>

theorem log_on_mutex:
  "(log_step\<^sup>*\<^sup>* (log_start n) s \<longleftrightarrow> (\<exists>m. (log_locked_step 0)\<^sup>*\<^sup>* (log_locked_start n) (s, m))) \<and>
   (\<forall>m. (log_locked_step 0)\<^sup>*\<^sup>* (log_locked_start n) (s, m) \<longrightarrow> \<not> log_lock_fault (s, m) \<and>
      (if 0 < g_mutex_inits s then mx_ready m \<and> mx_owner m = g_lock s else \<not> mx_ready m \<and> g_lock s = None) \<and>
      (mx_owner m = None \<longrightarrow> written s = concat (map line_pieces (log_lines s))))"
proof -
  have "\<not> log_lock_fault (s, m) \<and>
      (if 0 < g_mutex_inits s then mx_ready m \<and> mx_owner m = g_lock s else \<not> mx_ready m \<and> g_lock s = None) \<and>
      (mx_owner m = None \<longrightarrow> written s = concat (map line_pieces (log_lines s)))"
    if "(log_locked_step 0)\<^sup>*\<^sup>* (log_locked_start n) (s, m)" for m
  proof -
    have ag: "log_mutex.agree (s, m)" using log_locked_reachable [OF that] by blast
    then have inv: "log_inv s" by (simp add: lock_agree_def)
    have "\<not> log_lock_fault (s, m)" unfolding log_lock_fault_def log_mutex.fault_cases [OF ag] by (rule log_no_fault [OF inv])
    moreover have l: "if log_live s then mx_ready m \<and> mx_owner m = g_lock s else \<not> mx_ready m \<and> g_lock s = None"
      using ag unusable_destroyed [of m] by (simp add: lock_agree_def split: if_splits)
    moreover have "written s = concat (map line_pieces (log_lines s))" if "g_lock s = None"
      using log_invD(3) [OF inv] that by (simp add: lines_ok_def partial_line_def)
    ultimately show ?thesis by (simp add: log_live_def split: if_splits)
  qed
  then show ?thesis using log_locked_reachable log_locked_complete by blast
qed

text \<open>The same on Windows.\<close>

theorem log_on_critical_section:
  assumes "log_locked_step_win32\<^sup>*\<^sup>* (log_locked_start_win32 n) (s, cs)"
  shows "log_step\<^sup>*\<^sup>* (log_start n) s \<and> \<not> log_lock_fault_win32 (s, cs) \<and> (0 < g_mutex_inits s \<longrightarrow> cs_ready cs \<and> cs_owner cs = g_lock s \<and> cs_depth cs \<le> 1)"
proof -
  have "log_section.agree (log_locked_start_win32 n)"
    using log_start_inv [of n] by (simp add: lock_agree_def log_locked_start_win32_def log_start_def log_live_def d4np_mutex_lock_win32_def)
  from log_section.locked_runs_refine [OF assms [unfolded log_locked_step_win32_def] this]
  have r: "log_step\<^sup>*\<^sup>* (log_start n) s" and ag: "log_section.agree (s, cs)" by (simp_all add: log_locked_start_win32_def)
  then have inv: "log_inv s" by (simp add: lock_agree_def)
  have "\<not> log_lock_fault_win32 (s, cs)" unfolding log_lock_fault_win32_def log_section.fault_cases [OF ag] by (rule log_no_fault [OF inv])
  then show ?thesis using r ag by (auto simp: lock_agree_def log_live_def cs_single_def split: if_splits)
qed

text \<open>When \<open>pthread_mutex_init\<close> fails, \<open>log_ensure_init\<close> goes on: the mutex is never usable, and any thread that gets as far as a lock
  call makes one that is undefined.\<close>

theorem log_ignores_mutex_init:
  assumes "(log_locked_step rc)\<^sup>*\<^sup>* (log_locked_start n) (s, m)" "rc \<noteq> 0"
  shows "\<not> mx_ready m \<and> (\<forall>i ts l msg. lat s i (Write_Lock ts l msg) \<longrightarrow> log_lock_fault (s, m))"
proof -
  have "m = \<lparr>mx_ready = False, mx_owner = None\<rparr>" if "(log_locked_step rc)\<^sup>*\<^sup>* (log_locked_start n) x" "snd x = m" for x m
    using that
  proof (induction arbitrary: m rule: rtranclp_induct)
    case (step y z)
    from step.hyps(2) [unfolded log_locked_step_def] step.IH [OF refl] step.prems assms(2) show ?case
      by (auto elim!: locked_step.cases simp: d4np_mutex_lock_def d4np_mutex_unlock_def mutex_create_def mutex_destroy_def d4np_mutex_init_def d4np_mutex_destroy_def)
  qed (simp add: log_locked_start_def)
  from this [OF assms(1)] have m: "m = \<lparr>mx_ready = False, mx_owner = None\<rparr>" by simp
  have "log_lock_fault (s, m)" if "lat s i (Write_Lock ts l msg)" for i ts l msg
  proof -
    have "log_acquire i s = Some (lgo i (Write_Prefix ts l msg) (s\<lparr>g_lock := Some i\<rparr>))" using that by (auto simp: log_acquire_def lat_def)
    then show ?thesis unfolding log_lock_fault_def by (rule fault_acquire) (simp add: m d4np_mutex_lock_def)
  qed
  then show ?thesis using m by auto
qed

theorem log_on_mutex_witness: "\<exists>m. (log_locked_step 0)\<^sup>*\<^sup>* (log_locked_start 2) (log_mid, m) \<and> mx_owner m = Some 0 \<and> \<not> log_lock_fault (log_mid, m)"
  using log_on_mutex [of 2 log_mid] log_mid_reachable by (auto simp: log_mid_def)

end
