(* ===== verification/Spec2Isabelle.thy ===== *)
theory Spec2Isabelle
  imports Status Allocator Arena Pool Vector Hashmap_Map Ring_Buffer_SPSC Parse String_Builder Linked_List Atomic_Queue_SPSC
    Thread_Pool_Init Thread_Pool_Stack Path File_Roundtrip File_Write_Win32 Error_Context Uuid Log_Lock
begin

text \<open>
  \<^bold>\<open>The program.\<close> \<open>src/d4np/\<close> is a C library of utilities in six groups. \<open>core\<close> has the status codes and the
  allocator interface every other part is built on. \<open>mem\<close> has two special-purpose allocators, \<open>ds\<close> the
  containers, \<open>str\<close> string views and number parsing, \<open>concurrency\<close> the locks, queues and the thread pool,
  \<open>io\<close> paths and whole-file access, \<open>sys\<close> hashing, the clock, UUIDs, the per-thread error context and
  the logger. The containers, the queues, the thread pool, the path builder and the file reader take
  their storage from a \<open>d4np_allocator_t\<close>; the thread pool, the semaphore and the logger take their
  mutual exclusion from the operating system.

  \<^bold>\<open>How the code is modelled.\<close>
  \<^item> \<open>size_t\<close>, \<open>uint64_t\<close> and pointers are 64-bit words and wrap as in C. The supported targets have
    addresses below \<open>ADDR_LIMIT\<close> (two to the power 63), which is what the allocator promises of a block.
  \<^item> \<open>Memory\<close> is the byte memory of the C abstract machine: a list of live objects and the bytes in them.
    An access outside a live object is \<open>None\<close>, and so is every function that makes one. A theorem
    of the form \<open>f x = Some y\<close> therefore includes that \<open>f\<close> ends without undefined behaviour.
  \<^item> The place of the next block, and whether there is one at all, is decided by a \<open>place\<close> oracle that
    the memory carries: a statement over all memories covers every legal answer of \<open>malloc\<close>, failure
    included.
  \<^item> A C function that touches memory is a function of the same name in the option monad. It takes the
    structure it works on (a record with the fields of the source) and returns it updated, with
    the memory and the status code. Every early return of the source is a branch.
  \<^item> Concurrent code is a step relation. Each step is one atomic access, one lock operation or one
    stretch of code between two of them; the program counters name the points of the source.
    Ghost fields record what was pushed, popped, submitted or executed, and no step reads them.
    Acquire loads of the other side's index or link may return stale values, so the two SPSC queues are
    verified for more than sequential consistency.
  \<^item> What the operating system answers (\<open>fopen\<close>, \<open>fread\<close>, \<open>rename\<close>, \<open>fsync\<close>, \<open>pthread_create\<close>, \<open>sem_open\<close>, a
    clock reading, the platform's \<open>SEM_VALUE_MAX\<close>) is an argument of the definitions or a field of the state; the theorems hold for every answer. \<open>strtod\<close>, the
    text \<open>vfprintf\<close> produces and the client's hash and equality callbacks are parameters.

  \<^bold>\<open>Theories.\<close>
  \<^item> \<open>Prelude\<close>, \<open>Memory\<close>: machine types, the fact collections, the lemmas on words and lists, the memory with
    its frame rules.
  \<^item> \<open>Status\<close> (\<open>core/d4np_status\<close>) and \<open>Allocator\<close> (\<open>core/d4np_allocator\<close>). The locale
    \<open>allocator_contract\<close> states what the header asks of an allocator, \<open>frugal_allocator\<close> adds that a
    reallocation creates no object but the one it returns; both are interpreted on the libc-backed default. The
    containers are verified in these locales, for every allocator that keeps the contract.
  \<^item> \<open>Arena\<close> and \<open>Pool\<close> (\<open>mem\<close>): blocks handed out are aligned, in bounds and pairwise disjoint; the pool
    serves exactly as many blocks as it has, with the free list threaded through their bytes.
  \<^item> \<open>Vector\<close>, \<open>String_Builder\<close>, \<open>Linked_List\<close> (\<open>ds\<close>): each operation is the list operation it stands for, on
    every branch, growth and failure of growth included. The list nodes live in a store, and the
    invariant is that the ring of links visits each node once in both directions.
  \<^item> \<open>Probing\<close>, \<open>Hashmap\<close>, \<open>Hashmap_Storage\<close>, \<open>Hashmap_Refine\<close>, \<open>Hashmap_Map\<close> (\<open>ds/hashmap\<close>): the mathematics of
    linear probing with tombstones, the code, its three arrays as a table, the refinement of the
    internal routines and, in \<open>Hashmap_Map\<close>, \<open>put\<close>, \<open>get\<close>, \<open>remove\<close> and \<open>clear\<close> as operations on a finite map, with
    \<open>destroy\<close> returning exactly the three arrays.
  \<^item> \<open>Queue\<close>, \<open>Ring_Buffer\<close>, \<open>Ring_Buffer_SPSC\<close>, \<open>Atomic_Queue\<close>, \<open>Atomic_Queue_SPSC\<close>: the locale \<open>fifo\<close> is the contract
    of a queue, interpreted on the bounded and on the unbounded queue; the SPSC theories run one
    producer and one consumer in any interleaving: order is kept, no slot is accessed from both
    sides, no node is used after it is freed, and every call ends in a bounded number of its own steps.
  \<^item> \<open>Threads\<close>, \<open>Mutex\<close>, \<open>Lock_Client\<close>, \<open>Permits\<close>, \<open>Semaphore\<close>, \<open>Named_Semaphore\<close>, \<open>Semaphore_Win32\<close>, \<open>Thread_Pool\<close>, \<open>Thread_Pool_Progress\<close>,
    \<open>Thread_Pool_Semaphore\<close>, \<open>Thread_Pool_Win32\<close>, \<open>Thread_Pool_Lock\<close>, \<open>Semaphore_Lock\<close>, \<open>Thread_Pool_Stack\<close>, \<open>Thread_Pool_Init\<close> (\<open>concurrency\<close>): the locale \<open>lock_contract\<close> is mutual exclusion, interpreted on the lock of both
    platforms; \<open>permit_contract\<close> is a counting semaphore, interpreted on the named semaphore of both
    platforms, each with its own ceiling, and on the Windows semaphore, whence the platforms answer alike below their ceilings. The POSIX semaphore never loses a wake-up, the pool runs each
    accepted task exactly once and never touches a freed task node, what \<open>submit\<close> answers is true, and \<open>destroy\<close> ends after the backlog is done under
    every schedule, for any number of threads. In \<open>Thread_Pool\<close> a wait or a post of the pool's semaphore is one
    step on a count of permits; \<open>Thread_Pool_Semaphore\<close> runs the same pool on the steps of \<open>Semaphore\<close> and shows that
    it refines that one, that the 64-bit counter does not wrap, that nobody is inside the semaphore when it is destroyed, and
    that the shutdown still ends under every schedule. \<open>Thread_Pool_Win32\<close> runs it on any semaphore that meets
    \<open>closable_permits\<close> (the contract and a close), interpreted on the Windows semaphore: safety holds in any case, the shutdown
    ends as long as the system's ceiling is not hit. \<open>Lock_Client\<close> runs a system that keeps the owner of its lock in a field on a lock
    proper: the locale \<open>lock_lifecycle\<close> adds creation and destruction to \<open>lock_contract\<close>, \<open>lock_client\<close> states what the client keeps to, and
    its lemmas say that the two systems agree and which calls are undefined. It is interpreted on the pool in \<open>Thread_Pool_Lock\<close> and on the
    logger in \<open>Log_Lock\<close>, each with the mutex of both platforms, on the POSIX semaphore in \<open>Semaphore_Lock\<close>, and in \<open>Thread_Pool_Stack\<close> on the pool that
    already runs on its own mutex, for the mutex inside its semaphore. On all of its primitives the pool still refines \<open>Thread_Pool\<close> and still
    shuts down. \<open>Thread_Pool_Init\<close> covers the start with its roll-back after a thread that failed to start, 
    shows that a successful start gives the initial state of \<open>Thread_Pool\<close>, that a failed one leaves no thread, array, mutex or condition variable behind, and that the
    end of \<open>destroy\<close> returns the array.
  \<^item> \<open>Hash\<close>, \<open>Clock\<close>, \<open>Uuid\<close>, \<open>Error_Context\<close>, \<open>Log\<close>, \<open>Log_Lock\<close> (\<open>sys\<close>): the hash is the published FNV-1a value and incremental; the clock's split
    multiplication equals the exact quotient; the generator does not repeat within its period and the
    text of a UUID reads back; the context is a bounded stack per thread; a log line is written whole, and on
    its real mutex the logger makes no undefined lock call.
  \<^item> \<open>Str_View\<close>, \<open>Parse\<close> (\<open>str\<close>), \<open>Path\<close>, \<open>File_Read\<close>, \<open>File_Write\<close>, \<open>File_Write_Win32\<close>, \<open>File_Roundtrip\<close> (\<open>io\<close>): tokens are the fields between the delimiters;
    \<open>parse_int\<close> is the mathematical value or the right error; joining yields one separator between
    segments; reading returns the whole stream or leaves nothing allocated; writing replaces the file or leaves it, at every
    point at which the machine may stop; what was written is read back, whatever the disk does meanwhile, or an error is reported. The
    locale \<open>replaces\<close> states what is documented of \<open>MoveFileExA\<close>, with which the Windows writer replaces the target.
  \<^item> This theory puts the parts of the thread pool together: from a successful \<open>d4np_thread_pool_init\<close> over the byte memory, through
    every interleaving on the semaphore and the mutex it has set up, to the end of \<open>d4np_thread_pool_destroy\<close>.

  \<^bold>\<open>Loops and bounds.\<close> Loops with a counter are structural recursions or \<open>function\<close>s with a measure. A loop
  whose end depends on memory or on the system (a walk along list links, \<open>strlen\<close>, the reading loop, the
  retry after a signal, the doubling of a capacity) is a \<open>partial_function\<close>, for which not returning is
  \<open>None\<close>; the theorems show that it returns, under the well-formedness of the structure. There is no fuel.
  The fixed sizes are the source's: 16 error frames of 255 characters, a temporary name of at most 4096
  bytes, a semaphore name of at most 32.

  \<^bold>\<open>Findings.\<close> An arena aligns the offset, not the address, so alignments above that of the backing
  block are not honoured; pushing an element of a vector into the same vector reads freed memory when
  the push grows it; the slot stride of a hash map wraps for element sizes near the top of \<open>size_t\<close>; the
  buffer of \<open>d4np_file_read_all\<close> stays untrimmed when the last reallocation fails; the name of a named
  semaphore may hold more slashes than its comment says; on Windows the lock, documented as
  non-recursive, is granted to its owner again, and the pool on the Windows semaphore never shuts down once a post was refused at
  \<open>LONG_MAX\<close> permits; \<open>d4np_thread_pool_destroy\<close> destroys the mutex without waiting for a \<open>submit\<close> that it is about to reject, so
  that the two may race although the header calls \<open>submit\<close> thread-safe; the logger ignores a failure to initialise its mutex and then locks it. Each is a theorem of its component's theory. The header of the thread pool does not
  list \<open>D4NP_ERR_OVERFLOW\<close> among the results of \<open>d4np_thread_pool_init\<close>.

  \<^bold>\<open>Not modelled.\<close> Crashes during the Windows replacement of a file, of which the system documents nothing;
  \<open>core/version.h\<close> and the umbrella header \<open>d4np_c.h\<close>,
  which have no code; \<open>D4NP_LIST_ENTRY\<close>, pointer arithmetic on the caller's own structure; weak-memory
  effects beyond stale reads of the shared indices. The tests, benchmarks and build files under
  \<open>src/\<close> are not part of the library.
\<close>

section \<open>The life of a thread pool\<close>

text \<open>What runs after \<open>d4np_thread_pool_init\<close> has filled the structure: the workers it started and the threads of the clients,
  on the semaphore of the structure, its mutex and the mutex of the semaphore.\<close>

definition pool_running :: "d4np_thread_pool \<Rightarrow> ptr list \<Rightarrow> nat \<Rightarrow> pool_stack" where
  "pool_running pool started clients =
     (((pool_system pool started clients,
        \<lparr>ss_count = sem_count (pl_items pool), ss_lock = mx_owner (sem_mutex (pl_items pool)),
         ss_pcs = replicate (length started + clients + 1) Outside, ss_initial = unat (sem_count (pl_items pool)), ss_taken = 0, ss_posted = 0\<rparr>),
       pl_lock pool), sem_mutex (pl_items pool))"

lemma running_fresh:
  "length started = unat n \<Longrightarrow> pool_running (pool_fresh p0 A n q) started clients = pool_stack_start q (unat n) clients"
  using pool_fresh_system [of started n p0 A q clients]
  by (simp add: pool_running_def pool_stack_start_def pool_locked_start_def pool_sem_start_def sem_start_def) (simp add: pool_fresh_def)

lemma running_agree:
  assumes "allocator_contract A" "wf_mem m" "spawn_ok (os_spawn os)"
    "d4np_thread_pool_init os (Some p0) (Some A) n m = Some (D4NP_OK, Some pool, started, m')"
    "pool_stack_step\<^sup>*\<^sup>* (pool_running pool started clients) (((p, q), l), sl)"
  shows "stack.agree (pl_threads pool) (unat n) clients (((p, q), l), sl)"
    "pool_sem_inv (tp_start (pl_threads pool) (unat n) clients) (p, q)" "0 < unat n"
proof -
  obtain a where a: "pool = pool_fresh p0 A n a" "length started = unat n" "0 < unat n" "unat n < 2 ^ 61" using init_success [OF assms(1-4)] by blast
  then have t: "pl_threads pool = a" by (simp add: pool_fresh_def)
  have "pool_stack_step\<^sup>*\<^sup>* (pool_stack_start a (unat n) clients) (((p, q), l), sl)" using assms(5) unfolding a(1) running_fresh [OF a(2)] .
  from pool_stack_reachable [OF this a(3,4)]
  show s: "stack.agree (pl_threads pool) (unat n) clients (((p, q), l), sl)" unfolding t by blast
  from agree_parts(1) [OF agreeD(1) [OF s]] show "pool_sem_inv (tp_start (pl_threads pool) (unat n) clients) (p, q)" by simp
qed (use init_success [OF assms(1-4)] in blast)

text \<open>C2: a pool from \<open>init\<close> to the end of \<open>destroy\<close>, with nothing abstracted away between the parts: once \<open>d4np_thread_pool_init\<close> has
  returned \<open>D4NP_OK\<close>, in every interleaving of its workers, its clients and the destroyer, with the steps inside the semaphore and every
  call on the two mutexes of the structure, tasks are taken in the order in which they were accepted and none is run twice; from the moment \<open>destroy\<close> posts
  its wake-ups the threads make a bounded number of steps; and when they stop, \<open>destroy\<close> is done, every accepted task has run exactly
  once, nobody is inside the semaphore and both mutexes are destroyed. If no call of \<open>submit\<close> is in progress then, none of the lock calls on the
  way is undefined.\<close>

theorem thread_pool_lifecycle:
  assumes "allocator_contract A" "wf_mem m" "spawn_ok (os_spawn os)"
    "d4np_thread_pool_init os (Some p0) (Some A) n m = Some (D4NP_OK, Some pool, started, m')"
    "pool_stack_step\<^sup>*\<^sup>* (pool_running pool started clients) (((p, q), l), sl)"
  shows "(\<exists>rest. tp_accepted p = tp_taken p @ rest) \<and> mset (tp_ran p) \<subseteq># mset (tp_taken p) \<and>
    (DDone \<in> set (tp_pcs p) \<longrightarrow> mset (tp_ran p) = mset (tp_accepted p) \<and> set (ss_pcs q) \<subseteq> {Outside} \<and> \<not> mx_ready l \<and> \<not> mx_ready sl) \<and>
    (\<forall>i k. at p i (DPost k) \<longrightarrow>
       (\<forall>j z. (pool_stack_advance ^^ j) (((p, q), l), sl) z \<longrightarrow> j \<le> sem_work (p, q)) \<and>
       (\<forall>p' q' l' sl'. pool_stack_advance\<^sup>*\<^sup>* (((p, q), l), sl) (((p', q'), l'), sl') \<and> (\<nexists>z. pool_stack_advance (((p', q'), l'), sl') z) \<longrightarrow>
          at p' i DDone \<and> mset (tp_ran p') = mset (tp_accepted p') \<and> \<not> mx_ready l' \<and> \<not> mx_ready sl') \<and>
       (no_submit p \<longrightarrow> (\<forall>z. pool_stack_advance\<^sup>*\<^sup>* (((p, q), l), sl) z \<longrightarrow> \<not> pool_lock_fault (fst z) \<and> \<not> inner_fault z)))"
proof -
  note r = running_agree [OF assms]
  have s: "tp_step\<^sup>*\<^sup>* (tp_start (pl_threads pool) (unat n) clients) p" using r(2) by (simp add: pool_sem_inv_def)
  obtain qs where "tp_inv p qs" using tp_reachable_good [OF s r(3)] by (auto simp: tp_good_def)
  then have h: "history_ok p qs" by (simp add: tp_inv_def)
  have "mset (tp_ran p) = mset (tp_accepted p) \<and> set (ss_pcs q) \<subseteq> {Outside} \<and> \<not> mx_ready l \<and> \<not> mx_ready sl" if d: "DDone \<in> set (tp_pcs p)"
  proof (intro conjI)
    show "mset (tp_ran p) = mset (tp_accepted p)" using joined_all_ran [OF s r(3) d] by blast
    show "set (ss_pcs q) \<subseteq> {Outside}" using idle_when_joined [OF r(2,3) d] by (auto simp: in_set_conv_nth)
    show "\<not> mx_ready l" "\<not> mx_ready sl" using pool_stack_lock [OF r(1)] d by simp_all
  qed
  moreover have "(\<exists>rest. tp_accepted p = tp_taken p @ rest) \<and> mset (tp_ran p) \<subseteq># mset (tp_taken p)" using h by (simp add: history_ok_def)
  ultimately show ?thesis using pool_stack_bounded [OF r(1)] pool_stack_completes [OF r(1)] pool_stack_safe [OF r(1)] by blast
qed

text \<open>A pool of one worker without clients: it starts, the destroyer announces the shutdown, and at most 266 steps are left.\<close>

definition life_os :: pool_platform where
  "life_os = \<lparr>os_mutex_rc = 0, os_sem_mutex_rc = 0, os_sem_cond_rc = 0, os_thread = (\<lambda>i. Pthread_Create (if i = 0 then 0 else 11) (100 + i))\<rparr>"

definition life_mem :: mem where
  "life_mem = \<lparr>bytes = (\<lambda>_. 0), live = [], place = (\<lambda>_. 16), tick = 0\<rparr>"

lemma life_starts:
  "\<exists>m'. d4np_thread_pool_init life_os (Some tpool_ex) (Some d4np_allocator_default) 1 life_mem =
     Some (D4NP_OK, Some (pool_fresh tpool_ex d4np_allocator_default 1 16), [100], m')"
proof -
  let ?m1 = "life_mem\<lparr>live := [(16, 8)], tick := 1\<rparr>"
  have 1: "d4np_alloc (Some d4np_allocator_default) (1 * 8) 8 life_mem = Some (16, ?m1)"
    by (simp add: d4np_alloc_def d4np_allocator_default_def default_alloc_def malloc_def life_mem_def placeable_def align_ok_def MAX_ALIGN_def ADDR_LIMIT_def Let_def)
  obtain m2 where 2: "store_ptr ?m1 16 100 = Some m2" by (simp add: store_ptr_def mem_write_def valid_def)
  have "start_workers (os_spawn life_os) 16 0 (unat (1 :: size_t)) [] ?m1 = Some (1, [100], m2)"
    using 2 by (simp add: start_workers.simps [of _ 16 0] start_workers.simps [of _ 16 "Suc 0"] life_os_def pool_spawn_def)
  from Thread_Pool_Init.init_ready [OF _ _ _ _ _ 1 _ this, of tpool_ex]
  show ?thesis by (simp add: life_os_def SIZE_MAX_def)
qed

theorem thread_pool_lifecycle_witness:
  "\<exists>pool started m' l sl. d4np_thread_pool_init life_os (Some tpool_ex) (Some d4np_allocator_default) 1 life_mem = Some (D4NP_OK, Some pool, started, m') \<and>
     pool_stack_step\<^sup>*\<^sup>* (pool_running pool started 0) ((ps_mid, l), sl) \<and> {j. \<exists>z. (pool_stack_advance ^^ j) ((ps_mid, l), sl) z} \<subseteq> {..266}"
proof -
  let ?p = "pool_fresh tpool_ex d4np_allocator_default 1 16"
  obtain m' where i: "d4np_thread_pool_init life_os (Some tpool_ex) (Some d4np_allocator_default) 1 life_mem = Some (D4NP_OK, Some ?p, [100], m')"
    using life_starts by blast
  obtain l sl where "pool_stack_step\<^sup>*\<^sup>* (pool_stack_start 16 1 0) ((ps_mid, l), sl)" using stack_mid_reachable by blast
  then have l: "pool_stack_step\<^sup>*\<^sup>* (pool_running ?p [100] 0) (((fst ps_mid, snd ps_mid), l), sl)" using running_fresh [of "[100]" 1] by simp
  have m: "wf_mem life_mem" "spawn_ok (os_spawn life_os)" by (simp_all add: life_mem_def wf_mem_def spawn_ok_def life_os_def pool_spawn_def)
  have a: "at (fst ps_mid) 1 (DPost 1)" by (simp add: at_def ps_mid_def)
  have w: "sem_work (fst ps_mid, snd ps_mid) = 266"
    by (simp add: sem_work_def sem_total_def work_def ps_mid_def tp_start_def sem_start_def total_def eval_nat_numeral)
  note th = thread_pool_lifecycle [OF default_allocator.allocator_contract_axioms m i l]
  have "\<forall>j z. (pool_stack_advance ^^ j) (((fst ps_mid, snd ps_mid), l), sl) z \<longrightarrow> j \<le> 266" using th a unfolding w by blast
  then have "{j. \<exists>z. (pool_stack_advance ^^ j) ((ps_mid, l), sl) z} \<subseteq> {..266}" unfolding prod.collapse atMost_def by blast
  then show ?thesis using i l by auto
qed

end
